(* ===== verification/Prelude.thy ===== *)
theory Prelude
  imports Main "HOL-Library.Word" "HOL-Library.Monad_Syntax" "HOL-Library.Signed_Division"
begin

text \<open>
  Shared vocabulary of the development: the C integer types, the C operations whose
  result can be undefined, arrays with checked indices, and the collections of simp rules
  the component proofs draw on.

  A C computation that may fail to return is a value of type \<open>'a option\<close>:
  \<open>None\<close> stands for "control never comes back to the caller", which covers undefined
  behaviour of the C abstract machine (null dereference, index out of range, signed
  overflow, over-wide shift, division by zero), an exception taken in root mode and the
  endless loop of \<open>wait_for_reset\<close> behind the \<open>CRITICAL\<close> macro.
\<close>

unbundle bit_operations_syntax

type_synonym u8 = "8 word"
type_synonym u16 = "16 word"
type_synonym u32 = "32 word"
type_synonym u64 = "64 word"

named_theorems c_simps "equations of the C helper operations"
named_theorems hv_simps "field equations of the state operations"
named_theorems hv_defs "definitions of the driver level operations"

subsection \<open>Checked operations of C\<close>

definition ensure :: "bool \<Rightarrow> unit option" where
  "ensure b = (if b then Some () else None)"

text \<open>\<open>int32_t\<close> values are kept as \<open>int\<close>; leaving their range is undefined.\<close>

definition in_s32 :: "int \<Rightarrow> bool" where
  "in_s32 i \<longleftrightarrow> - (2 ^ 31) \<le> i \<and> i < 2 ^ 31"

definition iadd :: "int \<Rightarrow> int \<Rightarrow> int option" where
  "iadd a b = (if in_s32 (a + b) then Some (a + b) else None)"

definition imul :: "int \<Rightarrow> int \<Rightarrow> int option" where
  "imul a b = (if in_s32 (a * b) then Some (a * b) else None)"

definition imod :: "int \<Rightarrow> int \<Rightarrow> int option" where
  "imod a b = (if b = 0 \<or> (a = - (2 ^ 31) \<and> b = - 1) then None else Some (a smod b))"

text \<open>Array accesses through an \<open>int\<close> index.\<close>

definition arr_get :: "'a list \<Rightarrow> int \<Rightarrow> 'a option" where
  "arr_get xs i = (if 0 \<le> i \<and> i < int (length xs) then Some (xs ! nat i) else None)"

definition arr_set :: "'a list \<Rightarrow> int \<Rightarrow> 'a \<Rightarrow> 'a list option" where
  "arr_set xs i x = (if 0 \<le> i \<and> i < int (length xs) then Some (xs[nat i := x]) else None)"

text \<open>Shifts of a 32-bit or 64-bit value by a 32-bit amount: over-wide shifts are undefined.\<close>

definition shl :: "'a::len word \<Rightarrow> nat \<Rightarrow> 'a word option" where
  "shl x n = (if n < LENGTH('a) then Some (push_bit n x) else None)"

definition shr :: "'a::len word \<Rightarrow> nat \<Rightarrow> 'a word option" where
  "shr x n = (if n < LENGTH('a) then Some (drop_bit n x) else None)"

subsection \<open>Lemmas on the helpers\<close>

lemma ensure_simps [simp, c_simps]:
  "ensure True = Some ()" "ensure False = None"
  by (simp_all add: ensure_def)

lemma ensure_eq_Some [simp]: "ensure b = Some u \<longleftrightarrow> b"
  by (simp add: ensure_def)

lemma iadd_Some [c_simps]: "in_s32 (a + b) \<Longrightarrow> iadd a b = Some (a + b)"
  by (simp add: iadd_def)

lemma in_s32I: "- (2 ^ 31) \<le> i \<Longrightarrow> i < 2 ^ 31 \<Longrightarrow> in_s32 i"
  by (simp add: in_s32_def)

lemma smod_pos_eq: "0 \<le> a \<Longrightarrow> 0 < b \<Longrightarrow> a smod b = a mod (b :: int)"
  by (simp add: signed_modulo_int_def sgn_if)

lemma imod_pos [c_simps]: "0 \<le> a \<Longrightarrow> 0 < b \<Longrightarrow> imod a b = Some (a mod b)"
  by (auto simp: imod_def smod_pos_eq)

lemma arr_get_Some [c_simps]: "0 \<le> i \<Longrightarrow> i < int (length xs) \<Longrightarrow> arr_get xs i = Some (xs ! nat i)"
  by (simp add: arr_get_def)

lemma arr_set_Some [c_simps]:
  "0 \<le> i \<Longrightarrow> i < int (length xs) \<Longrightarrow> arr_set xs i x = Some (xs[nat i := x])"
  by (simp add: arr_set_def)

lemma arr_get_nat: "i < length xs \<Longrightarrow> arr_get xs (int i) = Some (xs ! i)"
  by (simp add: arr_get_def)

lemma arr_set_nat: "i < length xs \<Longrightarrow> arr_set xs (int i) x = Some (xs[i := x])"
  by (simp add: arr_set_def)

text \<open>One step around a ring of \<open>n\<close> slots.\<close>

lemma ring_step: "0 \<le> i \<Longrightarrow> i < n \<Longrightarrow> (i + 1) mod n = (if i + 1 = n then 0 else i + 1)"
  for i n :: int
  by auto

lemma mod_add_cancel_ring:
  assumes "(h + i) mod n = (h + j) mod n" "0 \<le> i" "i < n" "0 \<le> j" "j < n"
  shows "i = (j :: int)"
proof -
  from assms(1) have "(h + i - h) mod n = (h + j - h) mod n"
    by (metis mod_diff_left_eq)
  with assms show ?thesis by simp
qed

lemma nth_default_map_upt: "i < n \<Longrightarrow> map f [0..<n] ! i = f i"
  by simp

lemma upt_map_Suc_shift: "map f [0..<Suc n] = f 0 # map (\<lambda>i. f (Suc i)) [0..<n]"
  by (simp add: upt_conv_Cons map_Suc_upt [symmetric] comp_def del: upt_Suc map_Suc_upt)

text \<open>Signed and unsigned readings of a 32-bit value.\<close>

lemma sint_small32: "unat x < 2 ^ 31 \<Longrightarrow> sint x = int (unat x)" for x :: u32
proof -
  assume a: "unat x < 2 ^ 31"
  have "int (unat x) < int (2 ^ 31)" using a by (simp only: of_nat_less_iff)
  then have "uint x < 2 ^ 31" by simp
  then have "signed_take_bit 31 (uint x) = uint x"
    by (intro signed_take_bit_int_eq_self) (simp_all add: order_trans [OF _ uint_ge_0])
  then show ?thesis by (simp add: sint_uint)
qed

lemma uint_pos_iff [simp]: "0 < uint x \<longleftrightarrow> x \<noteq> 0"
  by (metis order_less_le uint_0_iff uint_ge_0)

lemma and_3_eq_0_dvd: "x AND 3 = 0 \<Longrightarrow> 4 dvd unat x" for x :: u32
proof -
  assume "x AND 3 = 0"
  then have "take_bit 2 x = 0" by (simp add: take_bit_eq_mask mask_eq_exp_minus_1)
  then have "unat (take_bit 2 x) = 0" by simp
  then have "take_bit 2 (unat x) = 0" by (simp only: unsigned_take_bit_eq)
  then show ?thesis by (simp add: take_bit_eq_0_iff)
qed

lemma unat_u32_less: "unat x < 4294967296" for x :: u32
  by (rule order_less_le_trans [OF unsigned_less]) simp

lemma unat_of_nat_u32: "n < 2 ^ 32 \<Longrightarrow> unat (of_nat n :: u32) = n"
  by (simp add: unsigned_of_nat take_bit_nat_eq_self)

lemma unat_add_u32: "unat x + unat y < 4294967296 \<Longrightarrow> unat (x + y) = unat x + unat y" for x y :: u32
  by (rule unat_add_lem [THEN iffD1]) simp

subsection \<open>The contract of a bounded buffer\<close>

text \<open>
  What the producers and consumers of the ready list and of the message buffers rely on: a
  \<open>put\<close> on a buffer with room appends, a \<open>take\<close> hands out the oldest element.
\<close>

fun put_all :: "('b \<Rightarrow> 'a \<Rightarrow> 'b option) \<Rightarrow> 'b \<Rightarrow> 'a list \<Rightarrow> 'b option" where
  "put_all put b [] = Some b"
| "put_all put b (x # xs) = do { b1 \<leftarrow> put b x; put_all put b1 xs }"

fun take_n :: "('b \<Rightarrow> ('a \<times> 'b) option) \<Rightarrow> nat \<Rightarrow> 'b \<Rightarrow> ('a list \<times> 'b) option" where
  "take_n get 0 b = Some ([], b)"
| "take_n get (Suc n) b = do { (x, b1) \<leftarrow> get b; (xs, b2) \<leftarrow> take_n get n b1; Some (x # xs, b2) }"

locale bounded_buffer =
  fixes inv :: "'b \<Rightarrow> bool" and items :: "'b \<Rightarrow> 'a list" and cap :: "'b \<Rightarrow> nat" and good :: "'a \<Rightarrow> bool"
    and put :: "'b \<Rightarrow> 'a \<Rightarrow> 'b option" and get :: "'b \<Rightarrow> ('a \<times> 'b) option"
  assumes put_ok: "inv b \<Longrightarrow> good x \<Longrightarrow> length (items b) < cap b \<Longrightarrow>
      \<exists>b'. put b x = Some b' \<and> inv b' \<and> items b' = items b @ [x] \<and> cap b' = cap b"
    and get_ok: "inv b \<Longrightarrow> items b = x # xs \<Longrightarrow>
      \<exists>b'. get b = Some (x, b') \<and> inv b' \<and> items b' = xs \<and> cap b' = cap b"
begin

lemma put_all_ok:
  "inv b \<Longrightarrow> \<forall>x\<in>set xs. good x \<Longrightarrow> length (items b) + length xs \<le> cap b \<Longrightarrow>
     \<exists>b'. put_all put b xs = Some b' \<and> inv b' \<and> items b' = items b @ xs \<and> cap b' = cap b"
proof (induction xs arbitrary: b)
  case (Cons x xs)
  have "good x" "length (items b) < cap b" using Cons.prems by auto
  from put_ok [OF Cons.prems(1) this] obtain b1 where
    b1: "put b x = Some b1" "inv b1" "items b1 = items b @ [x]" "cap b1 = cap b" by blast
  from Cons.IH [OF b1(2)] Cons.prems b1 show ?case by auto
qed simp

lemma take_n_ok:
  "inv b \<Longrightarrow> items b = xs @ ys \<Longrightarrow>
     \<exists>b'. take_n get (length xs) b = Some (xs, b') \<and> inv b' \<and> items b' = ys \<and> cap b' = cap b"
proof (induction xs arbitrary: b)
  case (Cons x xs)
  from get_ok [OF Cons.prems(1), of x "xs @ ys"] Cons.prems(2) obtain b1 where
    b1: "get b = Some (x, b1)" "inv b1" "items b1 = xs @ ys" "cap b1 = cap b" by auto
  from Cons.IH [OF b1(2,3)] b1 show ?case by auto
qed simp

text \<open>First in, first out: what is put into an empty buffer comes out in the same order.\<close>

lemma fifo_roundtrip:
  assumes "inv b" "items b = []" "\<forall>x\<in>set xs. good x" "length xs \<le> cap b"
  shows "\<exists>b1 b2. put_all put b xs = Some b1 \<and> take_n get (length xs) b1 = Some (xs, b2) \<and> inv b2 \<and> items b2 = []"
proof -
  from put_all_ok [OF assms(1,3)] assms(2,4) obtain b1 where
    b1: "put_all put b xs = Some b1" "inv b1" "items b1 = xs @ []" by auto
  from take_n_ok [OF b1(2,3)] b1(1) show ?thesis by auto
qed

end

end
