(* ===== verification/Libc.thy ===== *)
theory Libc
  imports Prelude
begin

text \<open>
  The hypervisor's C library, \<open>sys/lib/libc.c\<close>. Byte memory is a map from addresses to
  bytes. The string routines walk memory until a zero byte, so they are partial functions
  (\<open>None\<close> is a walk that does not end) and are related to byte lists by \<open>cstr\<close>. The
  formatted output routines return the bytes they emit, in order, with the count the C
  code returns; where these bytes go is decided by \<open>printf\<close> (the UART) and \<open>sprintf\<close>
  (a buffer).
\<close>

type_synonym bmem = "nat \<Rightarrow> u8"

subsection \<open>Memory blocks\<close>

fun fill_bytes :: "bmem \<Rightarrow> nat \<Rightarrow> u8 \<Rightarrow> nat \<Rightarrow> bmem" where
  "fill_bytes m p c 0 = m"
| "fill_bytes m p c (Suc n) = fill_bytes (m(p := c)) (Suc p) c n"

fun copy_bytes :: "bmem \<Rightarrow> nat \<Rightarrow> nat \<Rightarrow> nat \<Rightarrow> bmem" where
  "copy_bytes m d s 0 = m"
| "copy_bytes m d s (Suc n) = copy_bytes (m(d := m s)) (Suc d) (Suc s) n"

fun copy_words :: "bmem \<Rightarrow> nat \<Rightarrow> nat \<Rightarrow> nat \<Rightarrow> bmem" where
  "copy_words m d s 0 = m"
| "copy_words m d s (Suc n) =
     copy_words (m(d := m s, d + 1 := m (s + 1), d + 2 := m (s + 2), d + 3 := m (s + 3)))
       (d + 4) (s + 4) n"

text \<open>The loop head \<open>while ((int)bytes-- > 0)\<close> reads the counter as a signed number.\<close>

definition loop_count :: "u32 \<Rightarrow> nat" where
  "loop_count bytes = nat (sint bytes)"

definition memset :: "bmem \<Rightarrow> nat \<Rightarrow> u32 \<Rightarrow> u32 \<Rightarrow> bmem" where
  "memset m dst c bytes = fill_bytes m dst (ucast c) (loop_count bytes)"

definition memcpy :: "bmem \<Rightarrow> nat \<Rightarrow> nat \<Rightarrow> u32 \<Rightarrow> bmem" where
  "memcpy m dst src bytes =
     (if (word_of_nat dst OR word_of_nat src OR bytes) AND 3 \<noteq> (0 :: u32)
      then copy_bytes m dst src (loop_count bytes)
      else copy_words m dst src (loop_count (drop_bit 2 bytes)))"

subsection \<open>String routines\<close>

partial_function (option) strlen_loop :: "bmem \<Rightarrow> nat \<Rightarrow> nat \<Rightarrow> nat option" where
  "strlen_loop m str s = (if m s = 0 then Some (s - str) else strlen_loop m str (Suc s))"

definition strlen :: "bmem \<Rightarrow> nat \<Rightarrow> nat option" where
  "strlen m str = strlen_loop m str str"

partial_function (option) strcpy_loop :: "bmem \<Rightarrow> nat \<Rightarrow> nat \<Rightarrow> bmem option" where
  "strcpy_loop m dest src =
     (let m' = m(dest := m src) in
      if m' dest = 0 then Some m' else strcpy_loop m' (Suc dest) (Suc src))"

definition strcpy :: "bmem \<Rightarrow> nat \<Rightarrow> nat \<Rightarrow> (nat \<times> bmem) option" where
  "strcpy m dest src = map_option (\<lambda>m'. (dest, m')) (strcpy_loop m dest src)"

partial_function (option) strcmp_loop :: "bmem \<Rightarrow> nat \<Rightarrow> nat \<Rightarrow> int option" where
  "strcmp_loop m s1 s2 =
     (let ret = uint (m s1) - uint (m s2) in
      if ret = 0 \<and> m s2 \<noteq> 0 then strcmp_loop m (Suc s1) (Suc s2) else Some ret)"

definition strcmp :: "bmem \<Rightarrow> nat \<Rightarrow> nat \<Rightarrow> int option" where
  "strcmp m s1 s2 = map_option (\<lambda>ret. if ret < 0 then - 1 else if 0 < ret then 1 else ret)
     (strcmp_loop m s1 s2)"

partial_function (option) hash_loop :: "bmem \<Rightarrow> nat \<Rightarrow> u32 \<Rightarrow> u32 option" where
  "hash_loop m str h =
     (if m str = 0 then Some h
      else hash_loop m (Suc str) ((push_bit 5 h + h) + ucast (m str)))"

definition hash :: "bmem \<Rightarrow> nat \<Rightarrow> u32 option" where
  "hash m str = hash_loop m str 5381"

subsection \<open>Numbers to text: itoa\<close>

text \<open>The in-place reversal at the end of \<open>itoa\<close>: \<open>p\<close> and \<open>q\<close> close in on each other.\<close>

function swap_loop :: "(u8 \<Rightarrow> u8) \<Rightarrow> u8 list \<Rightarrow> nat \<Rightarrow> nat \<Rightarrow> u8 list" where
  "swap_loop f buf p q =
     (if q = 0 \<or> q - 1 < p then buf
      else swap_loop f (buf[p := f (buf ! (q - 1)), q - 1 := f (buf ! p)]) (p + 1) (q - 1))"
  by pat_completeness auto
termination
  by (relation "measure (\<lambda>(f, buf, p, q). q)") auto

definition itoa_hex_char :: "u8 \<Rightarrow> u8" where
  "itoa_hex_char c = (if 57 < c then c + 39 else c)"

function itoa_hex_digits :: "nat \<Rightarrow> u8 list" where
  "itoa_hex_digits h =
     word_of_nat (48 + h mod 16) # (if h div 16 = 0 then [] else itoa_hex_digits (h div 16))"
  by pat_completeness auto
termination
  by (relation "measure id") auto

function itoa_pos_digits :: "nat \<Rightarrow> nat \<Rightarrow> u8 list" where
  "itoa_pos_digits base i =
     word_of_nat (48 + i mod base) #
       (if base \<le> 1 \<or> i div base = 0 then [] else itoa_pos_digits base (i div base))"
  by pat_completeness auto
termination
  by (relation "measure snd") (auto intro!: div_less_dividend simp: div_greater_zero_iff)

text \<open>
  Base 0 divides by zero and base 1 never ends; both are \<open>None\<close>. A negative number is divided with C's
  truncation towards zero, so each step emits \<open>'0' - (i % base)\<close> with a remainder that is
  not positive; as \<open>i = -n\<close> these are the digits of \<open>n\<close>.
\<close>

definition itoa :: "int \<Rightarrow> nat \<Rightarrow> u8 list option" where
  "itoa i base =
     (if base < 2 then None
      else if base = 16
      then (let buf = itoa_hex_digits (nat (i mod 2 ^ 32))
            in Some (swap_loop itoa_hex_char buf 0 (length buf)))
      else if 0 \<le> i
      then (let buf = itoa_pos_digits base (nat i) in Some (swap_loop id buf 0 (length buf)))
      else (let buf = 45 # itoa_pos_digits base (nat (- i))
            in Some (swap_loop id buf 1 (length buf))))"

subsection \<open>Formatted output\<close>

definition puts_out :: "u8 list \<Rightarrow> u8 list" where
  "puts_out str = concat (map (\<lambda>c. if c = 10 then [13, 10] else [c]) str)"

definition PAD_RIGHT :: u32 where "PAD_RIGHT = 1"
definition PAD_ZERO :: u32 where "PAD_ZERO = 2"

text \<open>\<open>prints\<close>: the string padded to \<open>width\<close>; the count returned is the number of bytes emitted.\<close>

definition prints :: "u8 list \<Rightarrow> int \<Rightarrow> u32 \<Rightarrow> u8 list" where
  "prints string width pad =
     (let padchar = (if 0 < width \<and> pad AND PAD_ZERO \<noteq> 0 then 48 else 32);
          w = (if 0 < width
               then (if width \<le> int (length string) then 0 else width - int (length string))
               else width)
      in if pad AND PAD_RIGHT = 0
         then replicate (nat w) padchar @ string
         else string @ replicate (nat w) padchar)"

text \<open>
  \<open>printi\<close>: the digits are written downwards from \<open>print_buf[11]\<close>; \<open>room\<close> is the
  number of free bytes below the write position, and writing below the buffer is undefined.
\<close>

definition digit_char :: "nat \<Rightarrow> u8 \<Rightarrow> u8" where
  "digit_char t letbase = (if 10 \<le> t then word_of_nat t + (letbase - 10) else word_of_nat t + 48)"

function printi_digits :: "nat \<Rightarrow> nat \<Rightarrow> u8 \<Rightarrow> nat \<Rightarrow> u8 list \<Rightarrow> (u8 list \<times> nat) option" where
  "printi_digits u b letbase room acc =
     (if u = 0 \<or> b \<le> 1 then Some (acc, room)
      else if room = 0 then None
      else printi_digits (u div b) b letbase (room - 1) (digit_char (u mod b) letbase # acc))"
  by pat_completeness auto
termination
  by (relation "measure (\<lambda>(u, b, l, r, a). u)") auto

definition printi :: "int \<Rightarrow> nat \<Rightarrow> bool \<Rightarrow> int \<Rightarrow> u32 \<Rightarrow> u8 \<Rightarrow> u8 list option" where
  "printi i b sg width pad letbase =
     (if i = 0 then Some (prints [48] width pad)
      else
        do { let neg = (sg \<and> b = 10 \<and> i < 0);
             ensure (\<not> (neg \<and> i = - (2 ^ 31)));
             let u = (if neg then nat (- i) else nat (i mod 2 ^ 32));
             (s, room) \<leftarrow> printi_digits u b letbase 11 [];
             if neg
             then (if width \<noteq> 0 \<and> pad AND PAD_ZERO \<noteq> 0
                   then Some (45 # prints s (width - 1) pad)
                   else do { ensure (0 < room); Some (prints (45 # s) width pad) })
             else Some (prints s width pad) })"

datatype va = VInt int | VStr "u8 list option"

text \<open>\<open>while (*format == '0')\<close>, and the digits of the width.\<close>

fun fmt_zeros :: "u8 list \<Rightarrow> u32 \<Rightarrow> u8 list \<times> u32" where
  "fmt_zeros [] pad = ([], pad)"
| "fmt_zeros (c # f) pad = (if c = 48 then fmt_zeros f (pad OR PAD_ZERO) else (c # f, pad))"

fun fmt_width :: "u8 list \<Rightarrow> int \<Rightarrow> (u8 list \<times> int) option" where
  "fmt_width [] w = Some ([], w)"
| "fmt_width (c # f) w =
     (if 48 \<le> c \<and> c \<le> 57
      then (if in_s32 (w * 10 + (uint c - 48)) then fmt_width f (w * 10 + (uint c - 48)) else None)
      else Some (c # f, w))"

text \<open>One conversion: the letter, the arguments left, the width and the flags.\<close>

definition print_conv :: "u8 \<Rightarrow> va list \<Rightarrow> int \<Rightarrow> u32 \<Rightarrow> (u8 list \<times> va list) option" where
  "print_conv c args width pad =
     (if c = 115 then
        (case args of VStr s # as \<Rightarrow>
           Some (prints (case s of None \<Rightarrow> [40, 110, 117, 108, 108, 41] | Some t \<Rightarrow> t) width pad, as)
         | _ \<Rightarrow> None)
      else if c = 100 then
        (case args of VInt i # as \<Rightarrow> map_option (\<lambda>o1. (o1, as)) (printi i 10 True width pad 97)
         | _ \<Rightarrow> None)
      else if c = 120 then
        (case args of VInt i # as \<Rightarrow> map_option (\<lambda>o1. (o1, as)) (printi i 16 False width pad 97)
         | _ \<Rightarrow> None)
      else if c = 88 then
        (case args of VInt i # as \<Rightarrow> map_option (\<lambda>o1. (o1, as)) (printi i 16 False width pad 65)
         | _ \<Rightarrow> None)
      else if c = 117 then
        (case args of VInt i # as \<Rightarrow> map_option (\<lambda>o1. (o1, as)) (printi i 10 False width pad 97)
         | _ \<Rightarrow> None)
      else if c = 99 then
        (case args of VInt i # as \<Rightarrow>
           (let scr = word_of_int i :: u8
            in Some (prints (if scr = 0 then [] else [scr]) width pad, as))
         | _ \<Rightarrow> None)
      else Some ([], args))"

lemma fmt_zeros_length: "fmt_zeros f pad = (g, p) \<Longrightarrow> length g \<le> length f"
  by (induction f pad rule: fmt_zeros.induct) (auto split: if_splits)

lemma fmt_width_length: "fmt_width f w = Some (g, w') \<Longrightarrow> length g \<le> length f"
  by (induction f w rule: fmt_width.induct) (auto split: if_splits)

text \<open>
  \<open>print\<close>: the result is the bytes emitted and the count \<open>pc\<close>. A format whose end follows
  flags or width digits makes the loop step over the terminating zero byte; the bytes behind
  the string are not known, so the result is \<open>None\<close>.
\<close>

function print_fmt :: "u8 list \<Rightarrow> va list \<Rightarrow> (u8 list \<times> nat) option" where
  "print_fmt [] args = Some ([], 0)"
| "print_fmt (c # f) args =
     (if c \<noteq> 37 then
        map_option (\<lambda>(out, pc). (((if c = 10 then [13] else []) @ [c]) @ out, pc + 1)) (print_fmt f args)
      else
        (case f of
           [] \<Rightarrow> Some ([], 0)
         | d # f1 \<Rightarrow>
             if d = 37 then
               map_option (\<lambda>(out, pc). (37 # out, pc + 1)) (print_fmt f1 args)
             else
               (let (f2, pad) = (if d = 45 then (f1, PAD_RIGHT) else (f, 0));
                    (f3, pad') = fmt_zeros f2 pad
                in case fmt_width f3 0 of
                     Some (e # f4, width) \<Rightarrow>
                       do { (o1, args') \<leftarrow> print_conv e args width pad';
                            (out, pc) \<leftarrow> print_fmt f4 args';
                            Some (o1 @ out, length o1 + pc) }
                   | _ \<Rightarrow> None)))"
  by pat_completeness auto
termination
  by (relation "measure (\<lambda>(f, args). length f)")
    (auto split: if_splits dest!: fmt_width_length dest: fmt_zeros_length [OF sym])

definition printf :: "u8 list \<Rightarrow> va list \<Rightarrow> u8 list \<Rightarrow> (nat \<times> u8 list) option" where
  "printf format args uart =
     map_option (\<lambda>(out, pc). (pc, uart @ out)) (print_fmt format args)"

fun store_bytes :: "bmem \<Rightarrow> nat \<Rightarrow> u8 list \<Rightarrow> bmem" where
  "store_bytes m p [] = m"
| "store_bytes m p (b # bs) = store_bytes (m(p := b)) (Suc p) bs"

definition sprintf :: "bmem \<Rightarrow> nat \<Rightarrow> u8 list \<Rightarrow> va list \<Rightarrow> (nat \<times> bmem) option" where
  "sprintf m out format args =
     map_option (\<lambda>(bs, pc). (pc, store_bytes m out (bs @ [0]))) (print_fmt format args)"

subsection \<open>Blocks of memory: what \<open>memset\<close> and \<open>memcpy\<close> do\<close>

lemma fill_bytes_apply:
  "fill_bytes m p c n q = (if p \<le> q \<and> q < p + n then c else m q)"
  by (induction n arbitrary: m p) auto

text \<open>A forward copy reads every source byte before it overwrites it.\<close>

definition copy_safe :: "nat \<Rightarrow> nat \<Rightarrow> nat \<Rightarrow> bool" where
  "copy_safe d s n \<longleftrightarrow> d \<le> s \<or> s + n \<le> d"

lemma copy_bytes_apply:
  "copy_safe d s n \<Longrightarrow>
     copy_bytes m d s n q = (if d \<le> q \<and> q < d + n then m (s + (q - d)) else m q)"
proof (induction n arbitrary: m d s)
  case 0
  then show ?case by auto
next
  case (Suc n)
  have "copy_safe (Suc d) (Suc s) n" using Suc.prems by (auto simp: copy_safe_def)
  note IH = Suc.IH [OF this, of "m(d := m s)"]
  have *: "Suc s + (q - Suc d) = s + (q - d)" if "Suc d \<le> q" using that by simp
  have "s + (q - d) \<noteq> d" if "Suc d \<le> q" "q < Suc d + n"
    using that Suc.prems by (auto simp: copy_safe_def)
  then show ?case using * by (auto simp: IH)
qed

lemma copy_words_apply:
  "copy_safe d s (4 * n) \<Longrightarrow>
     copy_words m d s n q = (if d \<le> q \<and> q < d + 4 * n then m (s + (q - d)) else m q)"
proof (induction n arbitrary: m d s)
  case 0
  then show ?case by auto
next
  case (Suc n)
  have safe: "copy_safe (d + 4) (s + 4) (4 * n)"
    using Suc.prems by (auto simp: copy_safe_def)
  let ?m = "m(d := m s, d + 1 := m (s + 1), d + 2 := m (s + 2), d + 3 := m (s + 3))"
  note IH = Suc.IH [OF safe, of ?m]
  show ?case
  proof (cases "d + 4 \<le> q \<and> q < d + 4 * Suc n")
    case True
    then obtain r where r: "q = d + 4 + r" "r < 4 * n"
      using le_Suc_ex [of "d + 4" q] by auto
    then have "s + 4 + r \<noteq> d" "s + 4 + r \<noteq> d + 1" "s + 4 + r \<noteq> d + 2" "s + 4 + r \<noteq> d + 3"
      using Suc.prems by (auto simp: copy_safe_def)
    then show ?thesis unfolding copy_words.simps IH using r by (simp add: add.assoc)
  next
    case False
    then have "q < d \<or> d + 4 * Suc n \<le> q \<or> q = d \<or> q = d + 1 \<or> q = d + 2 \<or> q = d + 3" by auto
    then show ?thesis unfolding copy_words.simps IH by (auto simp: numeral_3_eq_3)
  qed
qed

lemma loop_count_small: "unat n < 2 ^ 31 \<Longrightarrow> loop_count n = unat n"
  by (simp add: loop_count_def sint_small32)

lemma memset_apply:
  "unat bytes < 2 ^ 31 \<Longrightarrow>
     memset m dst c bytes q = (if dst \<le> q \<and> q < dst + unat bytes then ucast c else m q)"
  by (simp add: memset_def fill_bytes_apply loop_count_small)

lemma memcpy_apply:
  assumes "unat bytes < 2 ^ 31" and safe: "copy_safe dst src (unat bytes)"
  shows "memcpy m dst src bytes q =
    (if dst \<le> q \<and> q < dst + unat bytes then m (src + (q - dst)) else m q)"
proof (cases "(word_of_nat dst OR word_of_nat src OR bytes) AND 3 = (0 :: u32)")
  case True
  then have "bytes AND 3 = 0"
    by (metis (no_types, lifting) bit.conj_disj_distrib2 or_eq_0_iff)
  then have "4 dvd unat bytes" by (rule and_3_eq_0_dvd)
  then have n: "4 * (unat bytes div 4) = unat bytes" by simp
  have "unat (drop_bit 2 bytes) = unat bytes div 4"
    by (simp add: unat_drop_bit_eq drop_bit_eq_div unat_div)
  moreover have "unat bytes div 4 < 2 ^ 31" using assms(1) by simp
  ultimately have "loop_count (drop_bit 2 bytes) = unat bytes div 4"
    by (simp add: loop_count_small)
  then show ?thesis
    using True copy_words_apply [of dst src "unat bytes div 4" m q] safe n
    by (simp add: memcpy_def)
next
  case False
  then show ?thesis
    using copy_bytes_apply [OF safe] assms(1) by (simp add: memcpy_def loop_count_small)
qed

subsection \<open>Strings in memory\<close>

fun cstr :: "bmem \<Rightarrow> nat \<Rightarrow> u8 list \<Rightarrow> bool" where
  "cstr m p [] \<longleftrightarrow> m p = 0"
| "cstr m p (b # bs) \<longleftrightarrow> m p = b \<and> b \<noteq> 0 \<and> cstr m (Suc p) bs"

lemma strlen_loop_cstr: "cstr m s bs \<Longrightarrow> strlen_loop m str s = Some (s + length bs - str)"
  by (induction bs arbitrary: s) (simp_all add: strlen_loop.simps)

lemma strlen_cstr: "cstr m p bs \<Longrightarrow> strlen m p = Some (length bs)"
  by (simp add: strlen_def strlen_loop_cstr)

lemma hash_loop_cstr:
  "cstr m p bs \<Longrightarrow> hash_loop m p h = Some (foldl (\<lambda>h c. 33 * h + ucast c) h bs)"
proof (induction bs arbitrary: p h)
  case Nil
  then show ?case by (simp add: hash_loop.simps)
next
  case (Cons b bs)
  have "push_bit 5 h + h = 33 * h" by (simp add: push_bit_eq_mult)
  with Cons show ?case by (simp add: hash_loop.simps [of m p])
qed

lemma hash_cstr: "cstr m p bs \<Longrightarrow> hash m p = Some (foldl (\<lambda>h c. 33 * h + ucast c) 5381 bs)"
  by (simp add: hash_def hash_loop_cstr)

lemma cstr_upd_below: "q < p \<Longrightarrow> cstr (m(q := v)) p bs = cstr m p bs"
  by (induction bs arbitrary: p) auto

lemma cstr_upd_above: "p + length bs < q \<Longrightarrow> cstr (m(q := v)) p bs = cstr m p bs"
  by (induction bs arbitrary: p) auto

lemma strcpy_loop_cstr:
  "cstr m src bs \<Longrightarrow> dest \<le> src \<or> src + length bs < dest \<Longrightarrow>
   \<exists>m'. strcpy_loop m dest src = Some m' \<and> cstr m' dest bs \<and>
        (\<forall>q. q < dest \<or> dest + length bs < q \<longrightarrow> m' q = m q)"
proof (induction bs arbitrary: m dest src)
  case Nil
  then show ?case by (simp add: strcpy_loop.simps [of m dest src] Let_def)
next
  case (Cons b bs)
  let ?m = "m(dest := m src)"
  have far: "Suc dest \<le> Suc src \<or> Suc src + length bs < Suc dest" using Cons.prems(2) by auto
  have "cstr ?m (Suc src) bs"
  proof (cases "dest \<le> src")
    case True
    then show ?thesis using Cons.prems(1) by (simp add: cstr_upd_below)
  next
    case False
    then have "Suc src + length bs < dest" using Cons.prems(2) by simp
    with Cons.prems(1) show ?thesis by (simp add: cstr_upd_above)
  qed
  from Cons.IH [OF this far] obtain m' where m': "strcpy_loop ?m (Suc dest) (Suc src) = Some m'"
    "cstr m' (Suc dest) bs" "\<forall>q. q < Suc dest \<or> Suc dest + length bs < q \<longrightarrow> m' q = ?m q"
    by blast
  have "strcpy_loop m dest src = Some m'"
    using m'(1) Cons.prems(1) by (simp add: strcpy_loop.simps [of m dest src] Let_def)
  moreover have "m' dest = b" using m'(3) Cons.prems(1) by simp
  moreover have "\<forall>q. q < dest \<or> dest + length (b # bs) < q \<longrightarrow> m' q = m q" using m'(3) by simp
  ultimately show ?case using m'(2) Cons.prems(1) by simp
qed

lemma strcmp_loop_cstr:
  "cstr m s1 xs \<Longrightarrow> cstr m s2 ys \<Longrightarrow>
   \<exists>r. strcmp_loop m s1 s2 = Some r \<and> (r = 0 \<longleftrightarrow> xs = ys) \<and> (r < 0 \<longleftrightarrow> ord_class.lexordp xs ys)"
proof (induction xs arbitrary: s1 s2 ys)
  case Nil
  then show ?case
    by (cases ys) (auto simp: strcmp_loop.simps [of m s1 s2] Let_def uint_0_iff)
next
  case (Cons x xs)
  show ?case
  proof (cases ys)
    case Nil
    then show ?thesis using Cons.prems
      by (auto simp: strcmp_loop.simps [of m s1 s2] Let_def uint_0_iff)
  next
    case ys: (Cons y zs)
    show ?thesis
    proof (cases "x = y")
      case True
      then show ?thesis
        using Cons.IH [of "Suc s1" "Suc s2" zs] Cons.prems ys
        by (auto simp: strcmp_loop.simps [of m s1 s2] Let_def)
    next
      case False
      then show ?thesis using Cons.prems ys
        by (auto simp: strcmp_loop.simps [of m s1 s2] Let_def word_less_def dest!: word_uint_eqI)
    qed
  qed
qed

lemma strcmp_cstr:
  assumes "cstr m s1 xs" "cstr m s2 ys"
  shows "strcmp m s1 s2 = Some (if xs = ys then 0 else if ord_class.lexordp xs ys then - 1 else 1)"
proof -
  obtain r where r: "strcmp_loop m s1 s2 = Some r" "r = 0 \<longleftrightarrow> xs = ys" "r < 0 \<longleftrightarrow> ord_class.lexordp xs ys"
    using strcmp_loop_cstr [OF assms] by blast
  then have "strcmp m s1 s2 = Some (if r < 0 then - 1 else if 0 < r then 1 else r)" by (simp add: strcmp_def)
  then show ?thesis using r(2,3) by (cases "xs = ys") auto
qed

subsection \<open>Positional numerals\<close>

text \<open>The digits of a number, most significant first; none for zero.\<close>

function digits :: "nat \<Rightarrow> nat \<Rightarrow> nat list" where
  "digits b u = (if u = 0 \<or> b \<le> 1 then [] else digits b (u div b) @ [u mod b])"
  by pat_completeness auto
termination
  by (relation "measure snd") auto

declare digits.simps [simp del]

lemma digits_0 [simp]: "digits b 0 = []"
  by (simp add: digits.simps)

definition num_of :: "nat \<Rightarrow> nat list \<Rightarrow> nat" where
  "num_of b ds = foldl (\<lambda>v d. v * b + d) 0 ds"

lemma num_of_snoc: "num_of b (ds @ [d]) = num_of b ds * b + d"
  by (simp add: num_of_def)

lemma num_of_digits: "1 < b \<Longrightarrow> num_of b (digits b u) = u"
proof (induction b u rule: digits.induct)
  case (1 b u)
  then show ?case
    by (cases "u = 0") (simp_all add: digits.simps [of b u] num_of_snoc num_of_def)
qed

lemma length_digits: "1 < b \<Longrightarrow> u < b ^ n \<Longrightarrow> length (digits b u) \<le> n"
proof (induction n arbitrary: u)
  case 0
  then show ?case by (simp add: digits.simps)
next
  case (Suc n)
  have "u div b < b ^ n"
    using Suc.prems by (simp add: less_mult_imp_div_less mult.commute)
  then show ?case using Suc by (simp add: digits.simps [of b u])
qed

lemma digits_less: "1 < b \<Longrightarrow> \<forall>d \<in> set (digits b u). d < b"
proof (induction b u rule: digits.induct)
  case (1 b u)
  then show ?case by (auto simp: digits.simps [of b u])
qed

lemma length_digits_pos: "1 < b \<Longrightarrow> 0 < u \<Longrightarrow> 0 < length (digits b u)"
  by (simp add: digits.simps [of b u])

subsection \<open>printi: the buffer and the value\<close>

declare printi_digits.simps [simp del]

lemma printi_digits_eq:
  "1 < b \<Longrightarrow> printi_digits u b l room acc =
     (if length (digits b u) \<le> room
      then Some (map (\<lambda>t. digit_char t l) (digits b u) @ acc, room - length (digits b u))
      else None)"
proof (induction u b l room acc rule: printi_digits.induct)
  case (1 u b l room acc)
  show ?case
  proof (cases "u = 0 \<or> room = 0")
    case True
    then show ?thesis using 1(2) length_digits_pos [of b u]
      by (auto simp: printi_digits.simps [of u b] digits.simps [of b u])
  next
    case False
    then show ?thesis using 1
      by (auto simp: printi_digits.simps [of u b] digits.simps [of b u])
  qed
qed

lemma printi_digits_dec:
  assumes "u < 2 ^ 32"
  shows "length (digits 10 u) \<le> 10"
  by (rule length_digits) (use assms in simp_all)

lemma printi_digits_hex:
  assumes "u < 2 ^ 32"
  shows "length (digits 16 u) \<le> 8"
  by (rule length_digits) (use assms in simp_all)

text \<open>The text of a number as \<open>%d\<close> prints it without width or flags.\<close>

definition dec_text :: "int \<Rightarrow> u8 list" where
  "dec_text i = (if i = 0 then [48]
     else (if i < 0 then [45] else []) @ map (\<lambda>t. word_of_nat t + 48) (digits 10 (nat \<bar>i\<bar>)))"

lemma digit_char_dec: "t < 10 \<Longrightarrow> digit_char t l = word_of_nat t + 48"
  by (simp add: digit_char_def)

lemma map_digit_char_dec:
  "map (\<lambda>t. digit_char t l) (digits 10 u) = map (\<lambda>t. word_of_nat t + 48) (digits 10 u)"
  using digits_less [of 10 u] by (auto simp: digit_char_dec)

lemma prints_plain: "prints s 0 0 = s"
  by (simp add: prints_def Let_def)

lemma s32_mod_pos: "in_s32 i \<Longrightarrow> 0 \<le> i \<Longrightarrow> i mod 4294967296 = i"
  by (simp add: in_s32_def)

lemma printi_signed_dec:
  assumes "in_s32 i" "i \<noteq> - (2 ^ 31)"
  shows "printi i 10 True 0 0 l = Some (dec_text i)"
proof -
  have "length (digits 10 (nat \<bar>i\<bar>)) \<le> 10"
    using assms by (intro printi_digits_dec) (auto simp: in_s32_def)
  then show ?thesis using assms
    by (auto simp: printi_def Let_def prints_plain printi_digits_eq map_digit_char_dec
        dec_text_def s32_mod_pos)
qed

text \<open>Reading such a text back.\<close>

definition digit_val :: "u8 \<Rightarrow> nat" where
  "digit_val c = unat (c - 48)"

fun read_dec :: "u8 list \<Rightarrow> int" where
  "read_dec (c # cs) =
     (if c = 45 then - int (num_of 10 (map digit_val cs)) else int (num_of 10 (map digit_val (c # cs))))"
| "read_dec [] = 0"

lemma digit_val_char: "t < 10 \<Longrightarrow> digit_val (word_of_nat t + 48) = t"
  by (simp add: digit_val_def unat_of_nat)

lemma map_digit_val: "map digit_val (map (\<lambda>t. word_of_nat t + 48) (digits 10 u)) = digits 10 u"
proof -
  have "digit_val (word_of_nat t + 48) = t" if "t \<in> set (digits 10 u)" for t
    using that digits_less [of 10 u] digit_val_char by simp
  then show ?thesis by (simp add: map_idI comp_def)
qed

lemma dec_char_not_minus:
  assumes "t < 10"
  shows "word_of_nat t + 48 \<noteq> (45 :: u8)"
proof -
  have "t = 0 \<or> t = 1 \<or> t = 2 \<or> t = 3 \<or> t = 4 \<or> t = 5 \<or> t = 6 \<or> t = 7 \<or> t = 8 \<or> t = 9"
    using assms by arith
  then show ?thesis by (elim disjE) simp_all
qed

lemma read_dec_text: "read_dec (dec_text i) = i"
proof (cases "i = 0")
  case True
  then show ?thesis by (simp add: dec_text_def num_of_def digit_val_def)
next
  case False
  obtain d ds where ds: "digits 10 (nat \<bar>i\<bar>) = d # ds"
    using length_digits_pos [of 10 "nat \<bar>i\<bar>"] False by (cases "digits 10 (nat \<bar>i\<bar>)") auto
  then have "word_of_nat d + 48 \<noteq> (45 :: u8)"
    using digits_less [of 10 "nat \<bar>i\<bar>"] by (intro dec_char_not_minus) auto
  moreover have "num_of 10 (map digit_val (map (\<lambda>t. word_of_nat t + 48) (digits 10 (nat \<bar>i\<bar>))))
      = nat \<bar>i\<bar>"
    by (simp only: map_digit_val num_of_digits)
  ultimately show ?thesis using False ds by (auto simp: dec_text_def)
qed

subsection \<open>itoa\<close>

declare swap_loop.simps [simp del]

lemma swap_loop_nth:
  "q \<le> length buf \<Longrightarrow> length (swap_loop f buf p q) = length buf \<and>
    (\<forall>i < length buf. swap_loop f buf p q ! i =
       (if p \<le> i \<and> i < q then f (buf ! (p + q - 1 - i)) else buf ! i))"
proof (induction f buf p q rule: swap_loop.induct)
  case (1 f buf p q)
  show ?case
  proof (cases "q = 0 \<or> q - 1 < p")
    case True
    then show ?thesis by (auto simp: swap_loop.simps [of f buf p q])
  next
    case False
    let ?buf = "buf[p := f (buf ! (q - 1)), q - 1 := f (buf ! p)]"
    have IH: "length (swap_loop f ?buf (p + 1) (q - 1)) = length buf"
      "\<forall>i < length buf. swap_loop f ?buf (p + 1) (q - 1) ! i =
         (if p + 1 \<le> i \<and> i < q - 1 then f (?buf ! (p + 1 + (q - 1) - 1 - i)) else ?buf ! i)"
      using "1.IH" [OF False] "1.prems" by auto
    have "swap_loop f ?buf (p + 1) (q - 1) ! i =
        (if p \<le> i \<and> i < q then f (buf ! (p + q - 1 - i)) else buf ! i)" if "i < length buf" for i
    proof -
      have step: "swap_loop f ?buf (p + 1) (q - 1) ! i =
         (if p + 1 \<le> i \<and> i < q - 1 then f (?buf ! (p + 1 + (q - 1) - 1 - i)) else ?buf ! i)"
        using IH(2) that by blast
      have q: "0 < q" "p \<le> q - 1" "p < length buf" "q - 1 < length buf"
        using False "1.prems" by auto
      consider (inside) "p + 1 \<le> i" "i < q - 1" | (low) "i = p" | (high) "i = q - 1"
        | (out) "i < p \<or> q \<le> i" by linarith
      then show ?thesis
      proof cases
        case inside
        have e: "p + 1 + (q - 1) - 1 - i = p + q - 1 - i" using q by simp
        have "p + q - 1 - i \<noteq> p" "p + q - 1 - i \<noteq> q - 1" using inside by auto
        moreover have "p \<le> i" "i < q" using inside by auto
        ultimately show ?thesis unfolding step e using inside by simp
      next
        case low
        then show ?thesis unfolding step using q by (auto simp: nth_list_update)
      next
        case high
        then have "p + q - 1 - i = p" using q by simp
        then show ?thesis unfolding step using q high by (auto simp: nth_list_update)
      next
        case out
        then have "p \<noteq> i" "q - 1 \<noteq> i" "\<not> (p + 1 \<le> i \<and> i < q - 1)" "\<not> (p \<le> i \<and> i < q)"
          using q by auto
        then show ?thesis unfolding step by (simp only: if_False) simp
      qed
    qed
    then show ?thesis using IH(1) False by (simp add: swap_loop.simps [of f buf p q])
  qed
qed

lemma swap_loop_rev: "swap_loop f buf 0 (length buf) = map f (rev buf)"
  using swap_loop_nth [of "length buf" buf f 0]
  by (intro nth_equalityI) (auto simp: rev_nth)

lemma swap_loop_rev_tail:
  "swap_loop f (c # buf) (Suc 0) (Suc (length buf)) = c # map f (rev buf)"
  using swap_loop_nth [of "Suc (length buf)" "c # buf" f "Suc 0"]
  by (intro nth_equalityI) (auto simp: rev_nth nth_Cons')

declare itoa_pos_digits.simps [simp del] itoa_hex_digits.simps [simp del]

lemma rev_itoa_pos_digits:
  "1 < b \<Longrightarrow> 0 < u \<Longrightarrow> rev (itoa_pos_digits b u) = map (\<lambda>t. word_of_nat (48 + t)) (digits b u)"
proof (induction b u rule: itoa_pos_digits.induct)
  case (1 b u)
  then show ?case
    by (cases "u div b = 0")
      (simp_all add: itoa_pos_digits.simps [of b u] digits.simps [of b u])
qed

lemma rev_itoa_hex_digits:
  "0 < u \<Longrightarrow> rev (itoa_hex_digits u) = map (\<lambda>t. word_of_nat (48 + t)) (digits 16 u)"
proof (induction u rule: itoa_hex_digits.induct)
  case (1 u)
  then show ?case
    by (cases "u div 16 = 0")
      (simp_all add: itoa_hex_digits.simps [of u] digits.simps [of 16 u])
qed

lemma itoa_dec: "itoa i 10 = Some (dec_text i)"
proof -
  consider "i = 0" | "0 < i" | "i < 0" by linarith
  then show ?thesis
  proof cases
    case 1
    have "itoa_pos_digits 10 0 = [48]" by (simp add: itoa_pos_digits.simps)
    with 1 show ?thesis by (simp add: itoa_def dec_text_def swap_loop.simps)
  next
    case 2
    then show ?thesis
      by (simp add: itoa_def Let_def swap_loop_rev dec_text_def rev_itoa_pos_digits add.commute)
  next
    case 3
    then show ?thesis
      by (simp add: itoa_def Let_def swap_loop_rev_tail dec_text_def rev_itoa_pos_digits add.commute)
  qed
qed

lemma itoa_read_dec: "map_option read_dec (itoa i 10) = Some i"
  by (simp add: itoa_dec read_dec_text)

end
