(* ===== verification/KRMalloc.thy ===== *)
theory KRMalloc
  imports Libc
begin

text \<open>
  The hypervisor's heap allocator, \<open>sys/lib/malloc.c\<close>: a Kernighan and Ritchie
  circular free list without the degenerate base block. Addresses are byte addresses; a
  block header occupies eight bytes (\<open>union header\<close>) and is found at its address in
  \<open>hdr_ptr\<close> and \<open>hdr_size\<close>. Pointer comparison is comparison of addresses. The two
  searches run over linked memory, so they are partial functions: \<open>None\<close> is a search
  that does not end.
\<close>

subsection \<open>State and operations\<close>

record mheap =
  freep :: "nat option"
  sfreep :: "nat option"
  sfree_ptr :: nat
  sfree_size :: u32
  hdr_ptr :: "nat \<Rightarrow> nat"
  hdr_size :: "nat \<Rightarrow> u32"

abbreviation hdr_bytes :: u32 where "hdr_bytes \<equiv> 8"

definition nunits_of :: "u32 \<Rightarrow> u32" where
  "nunits_of sz = ((sz + hdr_bytes - 1) div hdr_bytes) + 1"

definition HeapInit :: "nat \<Rightarrow> u32 \<Rightarrow> mheap \<Rightarrow> mheap option" where
  "HeapInit heap len h =
     (case freep h of
        None \<Rightarrow>
          (let nunits = nunits_of len in
           Some (h\<lparr>hdr_size := (hdr_size h)(heap := nunits - 1),
                   hdr_ptr := (hdr_ptr h)(heap := heap),
                   freep := Some heap, sfreep := Some heap,
                   sfree_ptr := heap, sfree_size := nunits - 1\<rparr>))
      | Some _ \<Rightarrow>
          (case sfreep h of
             None \<Rightarrow> None
           | Some p \<Rightarrow>
               Some (h\<lparr>freep := Some p,
                       hdr_ptr := (hdr_ptr h)(p := sfree_ptr h),
                       hdr_size := (hdr_size h)(p := sfree_size h)\<rparr>)))"

text \<open>The body of the search loop when a block that is big enough is found.\<close>

definition malloc_take :: "u32 \<Rightarrow> nat \<Rightarrow> nat \<Rightarrow> mheap \<Rightarrow> nat option \<times> mheap" where
  "malloc_take nunits prevp p h =
     (if hdr_size h p = nunits
      then (Some (p + 8), h\<lparr>hdr_ptr := (hdr_ptr h)(prevp := hdr_ptr h p), freep := Some prevp\<rparr>)
      else
        (let rest = hdr_size h p - nunits;
             q = p + 8 * unat rest
         in (Some (q + 8),
             h\<lparr>hdr_size := (hdr_size h)(p := rest, q := nunits), freep := Some prevp\<rparr>)))"

partial_function (option) malloc_loop ::
  "u32 \<Rightarrow> nat \<Rightarrow> nat \<Rightarrow> mheap \<Rightarrow> (nat option \<times> mheap) option" where
  "malloc_loop nunits prevp p h =
     (if nunits \<le> hdr_size h p then Some (malloc_take nunits prevp p h)
      else if Some p = freep h then Some (None, h)
      else malloc_loop nunits p (hdr_ptr h p) h)"

definition malloc :: "u32 \<Rightarrow> mheap \<Rightarrow> (nat option \<times> mheap) option" where
  "malloc sz h =
     (case freep h of
        None \<Rightarrow> Some (None, h)
      | Some prevp \<Rightarrow> malloc_loop (nunits_of sz) prevp (hdr_ptr h prevp) h)"

text \<open>\<open>free\<close>: find the neighbours of the block in address order, then coalesce on both sides.\<close>

partial_function (option) free_find :: "nat \<Rightarrow> nat \<Rightarrow> mheap \<Rightarrow> nat option" where
  "free_find bp p h =
     (if p < bp \<and> bp < hdr_ptr h p then Some p
      else if hdr_ptr h p \<le> p \<and> (p < bp \<or> bp < hdr_ptr h p) then Some p
      else free_find bp (hdr_ptr h p) h)"

definition free_upper :: "nat \<Rightarrow> nat \<Rightarrow> mheap \<Rightarrow> mheap" where
  "free_upper bp p h =
     (let nx = hdr_ptr h p in
      if bp + 8 * unat (hdr_size h bp) = nx
      then h\<lparr>hdr_size := (hdr_size h)(bp := hdr_size h bp + hdr_size h nx),
             hdr_ptr := (hdr_ptr h)(bp := hdr_ptr h nx)\<rparr>
      else h\<lparr>hdr_ptr := (hdr_ptr h)(bp := nx)\<rparr>)"

definition free_lower :: "nat \<Rightarrow> nat \<Rightarrow> mheap \<Rightarrow> mheap" where
  "free_lower bp p h =
     (if p + 8 * unat (hdr_size h p) = bp
      then h\<lparr>hdr_size := (hdr_size h)(p := hdr_size h p + hdr_size h bp),
             hdr_ptr := (hdr_ptr h)(p := hdr_ptr h bp)\<rparr>
      else h\<lparr>hdr_ptr := (hdr_ptr h)(p := bp)\<rparr>)"

definition free :: "nat \<Rightarrow> mheap \<Rightarrow> mheap option" where
  "free ptr h =
     (case freep h of
        None \<Rightarrow> None
      | Some start \<Rightarrow>
          do { ensure (8 \<le> ptr);
               let bp = ptr - 8;
               p \<leftarrow> free_find bp start h;
               let h1 = free_lower bp p (free_upper bp p h);
               Some (h1\<lparr>freep := Some p\<rparr>) })"

text \<open>
  \<open>calloc\<close> and \<open>realloc\<close> also touch the payload bytes; the byte memory is the map
  \<open>m\<close>. The product of \<open>calloc\<close> wraps at 32 bits, as in C.
\<close>

definition calloc :: "u32 \<Rightarrow> u32 \<Rightarrow> bmem \<Rightarrow> mheap
    \<Rightarrow> (nat option \<times> bmem \<times> mheap) option" where
  "calloc qty type_size m h =
     do { (buf, h1) \<leftarrow> malloc (qty * type_size) h;
          case buf of
            None \<Rightarrow> Some (None, m, h1)
          | Some p \<Rightarrow> Some (Some p, memset m p 0 (qty * type_size), h1) }"

definition realloc :: "nat option \<Rightarrow> u32 \<Rightarrow> bmem \<Rightarrow> mheap
    \<Rightarrow> (nat option \<times> bmem \<times> mheap) option" where
  "realloc ptr sz m h =
     (case ptr of
        None \<Rightarrow> do { (buf, h1) \<leftarrow> malloc sz h; Some (buf, m, h1) }
      | Some old \<Rightarrow>
          if sz = 0 then do { h1 \<leftarrow> free old h; Some (None, m, h1) }
          else
            do { (buf, h1) \<leftarrow> malloc sz h;
                 case buf of
                   None \<Rightarrow> Some (None, m, h1)
                 | Some p \<Rightarrow>
                     do { let m1 = memcpy m p old sz;
                          h2 \<leftarrow> free old h1;
                          Some (Some p, m1, h2) } })"

text \<open>\<open>init_mem\<close>: the heap starts at the linker symbol rounded into the heap section.\<close>

definition init_mem :: "u32 \<Rightarrow> u32 \<Rightarrow> mheap \<Rightarrow> mheap option" where
  "init_mem heap_start heap_size h =
     HeapInit (unat ((heap_start + 8) AND 0xFFFFFFFC)) ((heap_size - 8) AND 0xFFFFFFFC) h"

subsection \<open>The heap while the hypervisor boots: one free block\<close>

text \<open>
  Until the first \<open>free\<close>, the free list is a single block of \<open>n\<close> units at \<open>b\<close>
  that shrinks from its top.
\<close>

definition one_block :: "nat \<Rightarrow> nat \<Rightarrow> mheap \<Rightarrow> bool" where
  "one_block b n h \<longleftrightarrow>
     freep h = Some b \<and> hdr_ptr h b = b \<and> unat (hdr_size h b) = n"

lemma one_block_dest:
  assumes "one_block b n h"
  shows "freep h = Some b" "hdr_ptr h b = b" "unat (hdr_size h b) = n" "n < 2 ^ 32"
  using assms unat_u32_less [of "hdr_size h b"] by (auto simp: one_block_def)

lemma unat_nunits_of:
  assumes "unat sz + 7 < 2 ^ 32"
  shows "unat (nunits_of sz) = (unat sz + 7) div 8 + 1"
proof -
  have e: "sz + 8 - 1 = sz + 7" by simp
  have "unat (sz + 7) = unat sz + 7"
    using assms by (subst unat_add_u32) simp_all
  then have d: "unat ((sz + 7) div 8) = (unat sz + 7) div 8"
    by (simp add: unat_div)
  have "(unat sz + 7) div 8 + 1 < 4294967296"
    using assms by simp
  then have "unat ((sz + 7) div 8 + 1) = (unat sz + 7) div 8 + 1"
    using d by (subst unat_add_u32) simp_all
  then show ?thesis by (simp only: nunits_of_def e)
qed

lemma malloc_one_block_split:
  assumes ob: "one_block b n h" and lt: "unat (nunits_of sz) < n"
  defines "k \<equiv> unat (nunits_of sz)"
  obtains h' where "malloc sz h = Some (Some (b + 8 * (n - k) + 8), h')"
    "one_block b (n - k) h'" "unat (hdr_size h' (b + 8 * (n - k))) = k"
    "sfreep h' = sfreep h"
proof -
  note dest = one_block_dest [OF ob]
  have le: "nunits_of sz \<le> hdr_size h b" and ne: "hdr_size h b \<noteq> nunits_of sz"
    using lt dest by (auto simp: word_le_nat_alt)
  have rest: "unat (hdr_size h b - nunits_of sz) = n - k"
    using le dest k_def by (simp add: unat_sub)
  have "b + 8 * (n - k) \<noteq> b" using lt k_def by simp
  moreover have "malloc sz h = Some (malloc_take (nunits_of sz) b b h)"
    using dest le by (simp add: malloc_def malloc_loop.simps)
  ultimately show thesis
    using that [of "snd (malloc_take (nunits_of sz) b b h)"] ne rest dest
    by (simp add: malloc_take_def Let_def one_block_def k_def)
qed

lemma malloc_one_block_none:
  assumes ob: "one_block b n h" and gt: "n < unat (nunits_of sz)"
  shows "malloc sz h = Some (None, h)"
proof -
  note dest = one_block_dest [OF ob]
  have "\<not> nunits_of sz \<le> hdr_size h b"
    using gt dest by (simp add: word_le_nat_alt)
  then show ?thesis using dest by (simp add: malloc_def malloc_loop.simps)
qed

lemma HeapInit_one_block:
  assumes "freep h = None" "unat len + 7 < 2 ^ 32"
  obtains h' where "HeapInit heap len h = Some h'" "one_block heap ((unat len + 7) div 8) h'"
    "sfreep h' = Some heap"
proof -
  have "unat (nunits_of len - 1) = (unat len + 7) div 8"
    using unat_nunits_of [OF assms(2)] by (simp add: unat_sub word_le_nat_alt)
  then show thesis
    using that assms(1) by (simp add: HeapInit_def Let_def one_block_def)
qed

subsection \<open>Contract of allocation at boot\<close>

text \<open>
  What the boot code relies on: while \<open>a\<close> bytes are available above \<open>b\<close>, a request
  that costs less is answered from the top of the free area, so it overlaps nothing that was
  handed out before.
\<close>

definition alloc_cost :: "u32 \<Rightarrow> nat" where
  "alloc_cost sz = 8 * ((unat sz + 7) div 8 + 1)"

locale boot_allocator =
  fixes alloc :: "u32 \<Rightarrow> 'h \<Rightarrow> (nat option \<times> 'h) option"
    and ready :: "'h \<Rightarrow> nat \<Rightarrow> nat \<Rightarrow> bool"
  assumes alloc_ok: "ready h b a \<Longrightarrow> unat sz + 7 < 2 ^ 32 \<Longrightarrow> alloc_cost sz < a \<Longrightarrow>
      \<exists>h'. alloc sz h = Some (Some (b + (a - alloc_cost sz) + 8), h') \<and> ready h' b (a - alloc_cost sz)"
begin

lemma alloc_inside:
  assumes "ready h b a" "unat sz + 7 < 2 ^ 32" "alloc_cost sz < a"
  obtains p h' where "alloc sz h = Some (Some p, h')" "ready h' b (a - alloc_cost sz)"
    "b + 8 \<le> p" "p + unat sz \<le> b + a" "b + (a - alloc_cost sz) < p"
proof -
  from alloc_ok [OF assms] obtain h' where
    h': "alloc sz h = Some (Some (b + (a - alloc_cost sz) + 8), h')" "ready h' b (a - alloc_cost sz)"
    by blast
  have "unat sz + 8 \<le> alloc_cost sz" by (simp add: alloc_cost_def)
  then show thesis using that [OF h'] assms(3) by simp
qed

lemma two_allocs_disjoint:
  assumes "ready h b a" "unat s1 + 7 < 2 ^ 32" "unat s2 + 7 < 2 ^ 32"
    "alloc_cost s1 + alloc_cost s2 < a"
    "alloc s1 h = Some (Some p, h1)" "alloc s2 h1 = Some (Some q, h2)"
  shows "q + unat s2 \<le> p"
proof -
  have lt1: "alloc_cost s1 < a" using assms(4) by simp
  from alloc_inside [OF assms(1,2) lt1]
  have 1: "ready h1 b (a - alloc_cost s1)" "b + (a - alloc_cost s1) < p"
    using assms(5) by auto
  have lt2: "alloc_cost s2 < a - alloc_cost s1" using assms(4) by simp
  from alloc_inside [OF 1(1) assms(3) lt2]
  have "q + unat s2 \<le> b + (a - alloc_cost s1)" using assms(6) by auto
  with 1(2) show ?thesis by simp
qed

end

definition heap_ready :: "mheap \<Rightarrow> nat \<Rightarrow> nat \<Rightarrow> bool" where
  "heap_ready h b a \<longleftrightarrow> 8 dvd a \<and> one_block b (a div 8) h"

interpretation kr: boot_allocator malloc heap_ready
proof unfold_locales
  fix h b a sz
  assume ready: "heap_ready h b a" and small: "unat sz + 7 < 2 ^ 32" and cost: "alloc_cost sz < a"
  let ?k = "unat (nunits_of sz)"
  have k: "alloc_cost sz = 8 * ?k" using small by (simp add: alloc_cost_def unat_nunits_of)
  have n: "8 * (a div 8) = a" using ready by (simp add: heap_ready_def)
  have lt: "?k < a div 8" using cost k n by linarith
  have ob: "one_block b (a div 8) h" using ready by (simp add: heap_ready_def)
  from malloc_one_block_split [OF ob lt] obtain h' where
    h': "malloc sz h = Some (Some (b + 8 * (a div 8 - ?k) + 8), h')" "one_block b (a div 8 - ?k) h'"
    by blast
  have d: "8 * (a div 8 - ?k) = a - alloc_cost sz" using n k by (simp add: diff_mult_distrib2)
  have "8 dvd a - alloc_cost sz" using d by (metis dvd_triv_left)
  moreover have "(a - alloc_cost sz) div 8 = a div 8 - ?k" using d by (metis nonzero_mult_div_cancel_left zero_neq_numeral)
  ultimately show "\<exists>h'. malloc sz h = Some (Some (b + (a - alloc_cost sz) + 8), h') \<and>
      heap_ready h' b (a - alloc_cost sz)"
    using h' d by (auto simp: heap_ready_def)
qed

subsection \<open>Freeing the last block; the exact fit\<close>

lemma malloc_free_one_block:
  assumes ob: "one_block b n h" and lt: "unat (nunits_of sz) < n"
    and m: "malloc sz h = Some (Some p, h1)"
  obtains h2 where "free p h1 = Some h2" "one_block b n h2"
proof -
  let ?k = "unat (nunits_of sz)"
  from malloc_one_block_split [OF ob lt] m
  have p: "p = b + 8 * (n - ?k) + 8" and ob1: "one_block b (n - ?k) h1"
    and szq: "unat (hdr_size h1 (b + 8 * (n - ?k))) = ?k" by auto
  let ?q = "b + 8 * (n - ?k)"
  note d1 = one_block_dest [OF ob1]
  have q: "b < ?q" using lt by simp
  have find: "free_find ?q b h1 = Some b" using d1 q by (simp add: free_find.simps)
  have up: "free_upper ?q b h1 = h1\<lparr>hdr_ptr := (hdr_ptr h1)(?q := b)\<rparr>"
    using d1 q by (simp add: free_upper_def)
  have n: "n < 4294967296" using one_block_dest(4) [OF ob] by simp
  have "unat (hdr_size h1 b + hdr_size h1 ?q) = n"
    using d1(3) szq lt n by (subst unat_add_u32) simp_all
  then show thesis
    using that find up d1 q p
    by (simp add: free_def free_lower_def Let_def one_block_def)
qed

text \<open>
  Without a base block, a request that fits the only free block exactly leaves that block
  on the free list: the next request of the same size is given the same memory.
\<close>

lemma malloc_exact_fit:
  assumes ob: "one_block b n h" and eq: "unat (nunits_of sz) = n"
  obtains h1 where "malloc sz h = Some (Some (b + 8), h1)" "one_block b n h1"
proof -
  note d = one_block_dest [OF ob]
  have sz: "hdr_size h b = nunits_of sz" using d(3) eq by (metis unsigned_word_eqI)
  then have "malloc sz h = Some (malloc_take (nunits_of sz) b b h)"
    using d by (simp add: malloc_def malloc_loop.simps)
  then show thesis using that [of "snd (malloc_take (nunits_of sz) b b h)"] sz d
    by (simp add: malloc_take_def one_block_def)
qed

end
