(* ===== verification/Queue.thy ===== *)
theory Queue
  imports KRMalloc
begin

text \<open>
  The ring buffer of \<open>sys/lib/queue.c\<close>. The fields are \<open>int32_t\<close> and kept as
  \<open>int\<close>; \<open>q_arr\<close> is the contents of the array \<open>data\<close> points to, an element
  \<open>NULL\<close> never being stored. A result \<open>None\<close> is undefined behaviour; a \<open>NULL\<close>
  pointer returned by an operation is an inner \<open>None\<close>.
\<close>

record 'a queue_t =
  q_size :: int
  q_elem :: int
  q_head :: int
  q_tail :: int
  q_data :: nat
  q_self :: nat
  q_arr :: "'a list"

text \<open>
  \<open>malloc\<close> does not initialise memory: \<open>junk\<close> is what the array happens to contain.
  The product \<open>q->size * sizeof(void *)\<close> is taken in 32-bit unsigned arithmetic.
\<close>

definition queue_create :: "int \<Rightarrow> (nat \<Rightarrow> 'a) \<Rightarrow> mheap \<Rightarrow> ('a queue_t option \<times> mheap) option" where
  "queue_create sz junk h =
     do { (q, h1) \<leftarrow> malloc 20 h;
          case q of
            None \<Rightarrow> Some (None, h1)
          | Some qp \<Rightarrow>
              do { size1 \<leftarrow> iadd sz 1;
                   let bytes = word_of_int size1 * (4 :: u32);
                   (d, h2) \<leftarrow> malloc bytes h1;
                   case d of
                     None \<Rightarrow> do { h3 \<leftarrow> free qp h2; Some (None, h3) }
                   | Some dp \<Rightarrow>
                       Some (Some \<lparr>q_size = size1, q_elem = 0, q_head = 0, q_tail = 0,
                                   q_data = dp, q_self = qp,
                                   q_arr = map junk [0..<unat bytes div 4]\<rparr>, h2) } }"

definition queue_destroy :: "'a queue_t \<Rightarrow> mheap \<Rightarrow> (int \<times> mheap) option" where
  "queue_destroy q h =
     (if q_head q = q_tail q
      then do { h1 \<leftarrow> free (q_data q) h; h2 \<leftarrow> free (q_self q) h1; Some (0, h2) }
      else Some (- 1, h))"

definition queue_count :: "'a queue_t \<Rightarrow> int" where
  "queue_count q = q_elem q"

definition queue_addtail :: "'a queue_t \<Rightarrow> 'a \<Rightarrow> (int \<times> 'a queue_t) option" where
  "queue_addtail q ptr =
     (if q_size q = 0 then Some (- 1, q)
      else
        do { t1 \<leftarrow> iadd (q_tail q) 1;
             nxt \<leftarrow> imod t1 (q_size q);
             if nxt = q_head q then Some (- 1, q)
             else
               do { d \<leftarrow> arr_set (q_arr q) (q_tail q) ptr;
                    e \<leftarrow> iadd (q_elem q) 1;
                    Some (0, q\<lparr>q_arr := d, q_tail := nxt, q_elem := e\<rparr>) } })"

definition queue_remhead :: "'a queue_t \<Rightarrow> ('a option \<times> 'a queue_t) option" where
  "queue_remhead q =
     (if q_size q = 0 then Some (None, q)
      else if q_head q = q_tail q then Some (None, q)
      else
        do { ret \<leftarrow> arr_get (q_arr q) (q_head q);
             h1 \<leftarrow> iadd (q_head q) 1;
             h2 \<leftarrow> imod h1 (q_size q);
             e \<leftarrow> iadd (q_elem q) (- 1);
             Some (Some ret, q\<lparr>q_head := h2, q_elem := e\<rparr>) })"

definition queue_remtail :: "'a queue_t \<Rightarrow> ('a option \<times> 'a queue_t) option" where
  "queue_remtail q =
     (if q_size q = 0 then Some (None, q)
      else if q_head q = q_tail q then Some (None, q)
      else
        do { ret \<leftarrow> arr_get (q_arr q) (q_tail q);
             t1 \<leftarrow> iadd (q_tail q) (- 1);
             t2 \<leftarrow> imod t1 (q_size q);
             e \<leftarrow> iadd (q_elem q) (- 1);
             Some (Some ret, q\<lparr>q_tail := t2, q_elem := e\<rparr>) })"

text \<open>The index \<open>(q->head + elem) % q->size\<close> shared by the positional operations.\<close>

definition slot :: "'a queue_t \<Rightarrow> int \<Rightarrow> int option" where
  "slot q i = do { s \<leftarrow> iadd (q_head q) i; imod s (q_size q) }"

definition queue_get :: "'a queue_t \<Rightarrow> int \<Rightarrow> 'a option option" where
  "queue_get q i =
     (if q_size q = 0 \<or> q_elem q \<le> i \<or> q_head q = q_tail q then Some None
      else do { k \<leftarrow> slot q i; ret \<leftarrow> arr_get (q_arr q) k; Some (Some ret) })"

definition queue_set :: "'a queue_t \<Rightarrow> int \<Rightarrow> 'a \<Rightarrow> (int \<times> 'a queue_t) option" where
  "queue_set q i ptr =
     (if q_size q = 0 \<or> q_elem q \<le> i \<or> q_head q = q_tail q then Some (- 1, q)
      else do { k \<leftarrow> slot q i; d \<leftarrow> arr_set (q_arr q) k ptr; Some (0, q\<lparr>q_arr := d\<rparr>) })"

definition queue_swap :: "'a queue_t \<Rightarrow> int \<Rightarrow> int \<Rightarrow> (int \<times> 'a queue_t) option" where
  "queue_swap q i j =
     (if q_size q = 0 \<or> q_elem q \<le> i \<or> q_elem q \<le> j \<or> q_head q = q_tail q then Some (- 1, q)
      else
        do { k1 \<leftarrow> slot q i;
             t \<leftarrow> arr_get (q_arr q) k1;
             k2 \<leftarrow> slot q j;
             u \<leftarrow> arr_get (q_arr q) k2;
             d1 \<leftarrow> arr_set (q_arr q) k1 u;
             d2 \<leftarrow> arr_set d1 k2 t;
             Some (0, q\<lparr>q_arr := d2\<rparr>) })"

subsection \<open>The ring as a list\<close>

definition ring_inv :: "'a queue_t \<Rightarrow> bool" where
  "ring_inv q \<longleftrightarrow>
     0 < q_size q \<and> q_size q < 2 ^ 30 \<and> int (length (q_arr q)) = q_size q \<and>
     0 \<le> q_head q \<and> q_head q < q_size q \<and> 0 \<le> q_tail q \<and> q_tail q < q_size q \<and>
     q_elem q = (q_tail q - q_head q) mod q_size q"

definition ring_at :: "'a queue_t \<Rightarrow> nat \<Rightarrow> 'a" where
  "ring_at q i = q_arr q ! nat ((q_head q + int i) mod q_size q)"

definition ring_items :: "'a queue_t \<Rightarrow> 'a list" where
  "ring_items q = map (ring_at q) [0..<nat (q_elem q)]"

definition ring_cap :: "'a queue_t \<Rightarrow> nat" where
  "ring_cap q = nat (q_size q) - 1"

lemma ring_invD:
  assumes "ring_inv q"
  shows "0 < q_size q" "q_size q < 2 ^ 30" "int (length (q_arr q)) = q_size q"
    "0 \<le> q_head q" "q_head q < q_size q" "0 \<le> q_tail q" "q_tail q < q_size q"
    "q_elem q = (q_tail q - q_head q) mod q_size q" "0 \<le> q_elem q" "q_elem q < q_size q"
  using assms by (auto simp: ring_inv_def)

lemmas ring_bounds = ring_invD(1-7,9,10)

lemma ring_elem_cases:
  assumes "ring_inv q"
  shows "q_elem q = (if q_head q \<le> q_tail q then q_tail q - q_head q
    else q_tail q - q_head q + q_size q)"
proof (cases "q_head q \<le> q_tail q")
  case True
  then show ?thesis using ring_invD [OF assms] by simp
next
  case False
  have "(q_tail q - q_head q) mod q_size q = (q_tail q - q_head q + q_size q) mod q_size q"
    by simp
  also have "\<dots> = q_tail q - q_head q + q_size q"
    using False ring_invD [OF assms] by (intro mod_pos_pos_trivial) auto
  finally show ?thesis using False ring_invD(8) [OF assms] by simp
qed

lemma ring_empty_iff: "ring_inv q \<Longrightarrow> q_head q = q_tail q \<longleftrightarrow> q_elem q = 0"
  using ring_elem_cases [of q] ring_invD [of q] by (auto split: if_splits)

lemma length_ring_items [simp]: "length (ring_items q) = nat (q_elem q)"
  by (simp add: ring_items_def)

lemma ring_tail_eq:
  assumes "ring_inv q"
  shows "(q_head q + q_elem q) mod q_size q = q_tail q"
  using ring_invD [OF assms] by (simp add: mod_add_right_eq)

lemma ring_slot_inj:
  assumes "ring_inv q" "int i < q_size q" "int j < q_size q"
    "(q_head q + int i) mod q_size q = (q_head q + int j) mod q_size q"
  shows "i = j"
  using mod_add_cancel_ring [OF assms(4)] assms by simp

lemma ring_slot_bounds:
  assumes "ring_inv q"
  shows "0 \<le> (q_head q + k) mod q_size q" "(q_head q + k) mod q_size q < int (length (q_arr q))"
  using ring_invD [OF assms] by auto

lemma ring_item_nth: "i < nat (q_elem q) \<Longrightarrow> ring_items q ! i = ring_at q i"
  by (simp add: ring_items_def)

lemma ring_next_eq_head:
  assumes "ring_inv q"
  shows "(q_tail q + 1) mod q_size q = q_head q \<longleftrightarrow> nat (q_elem q) = ring_cap q"
  using ring_invD [OF assms] ring_elem_cases [OF assms] ring_step [of "q_tail q" "q_size q"]
  by (auto simp: ring_cap_def split: if_splits)

lemma ring_addtail_ok:
  assumes inv: "ring_inv q" and room: "length (ring_items q) < ring_cap q"
  shows "\<exists>q'. queue_addtail q x = Some (0, q') \<and> ring_inv q' \<and>
    ring_items q' = ring_items q @ [x] \<and> ring_cap q' = ring_cap q"
proof -
  note D = ring_bounds [OF inv] and E = ring_invD(8) [OF inv]
  let ?n = "(q_tail q + 1) mod q_size q"
  let ?q = "q\<lparr>q_arr := (q_arr q)[nat (q_tail q) := x], q_tail := ?n, q_elem := q_elem q + 1\<rparr>"
  have nh: "?n \<noteq> q_head q" and lt: "q_elem q + 1 < q_size q"
    using ring_next_eq_head [OF inv] room D by (auto simp: ring_cap_def)
  have add: "queue_addtail q x = Some (0, ?q)"
    using D nh lt by (simp add: queue_addtail_def c_simps in_s32_def)
  have "(?n - q_head q) mod q_size q = (q_tail q + 1 - q_head q) mod q_size q"
    by (simp add: mod_diff_left_eq)
  also have "\<dots> = ((q_tail q - q_head q) mod q_size q + 1) mod q_size q"
    by (simp only: mod_add_left_eq diff_add_eq)
  also have "\<dots> = q_elem q + 1" unfolding E [symmetric] using D lt by (simp add: mod_pos_pos_trivial)
  finally have inv': "ring_inv ?q" using D by (simp add: ring_inv_def)
  have old: "ring_at ?q i = ring_at q i" if "i < nat (q_elem q)" for i
  proof -
    have "(q_head q + int i) mod q_size q \<noteq> q_tail q"
      using ring_slot_inj [OF inv, of i "nat (q_elem q)"] ring_tail_eq [OF inv] that D by auto
    then have "nat (q_tail q) \<noteq> nat ((q_head q + int i) mod q_size q)"
      using D(6) ring_slot_bounds(1) [OF inv, of "int i"] by (metis eq_nat_nat_iff)
    then show ?thesis by (simp add: ring_at_def)
  qed
  have new: "ring_at ?q (nat (q_elem q)) = x"
    using ring_tail_eq [OF inv] D by (simp add: ring_at_def nat_less_iff)
  have "nat (q_elem q + 1) = Suc (nat (q_elem q))" using D by simp
  then have "ring_items ?q = ring_items q @ [x]"
    using old new by (simp add: ring_items_def)
  then show ?thesis using add inv' by (auto simp: ring_cap_def)
qed

lemma ring_addtail_full:
  assumes inv: "ring_inv q" and full: "length (ring_items q) = ring_cap q"
  shows "queue_addtail q x = Some (- 1, q)"
  using ring_bounds [OF inv] ring_next_eq_head [OF inv] full
  by (simp add: queue_addtail_def c_simps in_s32_def)

lemma ring_remhead_ok:
  assumes inv: "ring_inv q" and items: "ring_items q = x # xs"
  shows "\<exists>q'. queue_remhead q = Some (Some x, q') \<and> ring_inv q' \<and> ring_items q' = xs \<and>
    ring_cap q' = ring_cap q"
proof -
  note D = ring_bounds [OF inv] and E = ring_invD(8) [OF inv]
  let ?n = "(q_head q + 1) mod q_size q"
  let ?q = "q\<lparr>q_head := ?n, q_elem := q_elem q - 1\<rparr>"
  have pos: "0 < q_elem q" using items length_ring_items [of q] D by (cases "q_elem q = 0") auto
  then have ne: "q_head q \<noteq> q_tail q" using ring_empty_iff [OF inv] by simp
  have first: "q_arr q ! nat (q_head q) = x"
    using items pos ring_item_nth [of 0 q] D by (simp add: ring_at_def)
  have rem: "queue_remhead q = Some (Some x, ?q)"
    using D ne first by (simp add: queue_remhead_def c_simps in_s32_def)
  have "(q_tail q - ?n) mod q_size q = (q_tail q - q_head q - 1) mod q_size q"
    by (simp add: mod_diff_right_eq algebra_simps)
  also have "\<dots> = ((q_tail q - q_head q) mod q_size q - 1) mod q_size q"
    by (simp only: mod_diff_left_eq)
  also have "\<dots> = q_elem q - 1" unfolding E [symmetric] using D pos by (simp add: mod_pos_pos_trivial)
  finally have inv': "ring_inv ?q" using D by (simp add: ring_inv_def)
  have "ring_at ?q i = ring_at q (Suc i)" for i
  proof -
    have "((q_head q + 1) mod q_size q + int i) mod q_size q = (q_head q + 1 + int i) mod q_size q"
      by (simp only: mod_add_left_eq)
    then show ?thesis by (simp add: ring_at_def add.assoc)
  qed
  moreover obtain m where m: "nat (q_elem q) = Suc m" using pos by (cases "nat (q_elem q)") auto
  moreover have "nat (q_elem q - 1) = m" using m by simp
  ultimately have "ring_items q = ring_at q 0 # ring_items ?q"
    by (simp add: ring_items_def upt_map_Suc_shift del: upt_Suc)
  then show ?thesis using rem inv' items by (auto simp: ring_cap_def)
qed

lemma ring_remhead_empty:
  assumes "ring_inv q" "ring_items q = []"
  shows "queue_remhead q = Some (None, q)"
  using ring_empty_iff [OF assms(1)] ring_bounds [OF assms(1)] length_ring_items [of q] assms(2)
  by (simp add: queue_remhead_def)

lemma ring_slot_ok:
  assumes inv: "ring_inv q" and i: "0 \<le> i" "i < q_elem q"
  shows "slot q i = Some ((q_head q + i) mod q_size q)" "q_size q \<noteq> 0" "q_head q \<noteq> q_tail q"
  using ring_bounds [OF inv] i ring_empty_iff [OF inv]
  by (auto simp: slot_def c_simps in_s32_def)

lemma ring_get_ok:
  assumes inv: "ring_inv q" and i: "i < length (ring_items q)"
  shows "queue_get q (int i) = Some (Some (ring_items q ! i))"
proof -
  have "int i < q_elem q" "0 \<le> int i" using i by auto
  note S = ring_slot_ok [OF inv this(2,1)]
  show ?thesis using S ring_slot_bounds [OF inv] i
    by (simp add: queue_get_def c_simps ring_item_nth ring_at_def)
qed

lemma ring_set_ok:
  assumes inv: "ring_inv q" and i: "i < length (ring_items q)"
  shows "\<exists>q'. queue_set q (int i) x = Some (0, q') \<and> ring_inv q' \<and>
    ring_items q' = (ring_items q)[i := x] \<and> ring_cap q' = ring_cap q"
proof -
  have ii: "0 \<le> int i" "int i < q_elem q" using i by auto
  note S = ring_slot_ok [OF inv ii] and B = ring_slot_bounds [OF inv] and D = ring_bounds [OF inv]
  let ?k = "nat ((q_head q + int i) mod q_size q)"
  let ?q = "q\<lparr>q_arr := (q_arr q)[?k := x]\<rparr>"
  have set: "queue_set q (int i) x = Some (0, ?q)"
    using S B ii by (simp add: queue_set_def c_simps)
  have inv': "ring_inv ?q" using ring_invD [OF inv] by (simp add: ring_inv_def)
  have "ring_items ?q = (ring_items q)[i := x]"
  proof (rule nth_equalityI)
    show "length (ring_items ?q) = length ((ring_items q)[i := x])" by simp
    fix j assume "j < length (ring_items ?q)"
    then have j: "j < nat (q_elem q)" by simp
    show "ring_items ?q ! j = (ring_items q)[i := x] ! j"
    proof (cases "j = i")
      case True
      then show ?thesis using i j B [of "int i"] by (simp add: ring_item_nth ring_at_def nat_less_iff)
    next
      case False
      then have "(q_head q + int i) mod q_size q \<noteq> (q_head q + int j) mod q_size q"
        using ring_slot_inj [OF inv, of i j] ii j D by fastforce
      then have "?k \<noteq> nat ((q_head q + int j) mod q_size q)"
        using B(1) by (metis nat_eq_iff2)
      then show ?thesis using False j by (simp add: ring_item_nth ring_at_def)
    qed
  qed
  then show ?thesis using set inv' by (auto simp: ring_cap_def)
qed

text \<open>A swap is two writes of the values read before.\<close>

lemma ring_swap_sets:
  assumes inv: "ring_inv q" and i: "i < length (ring_items q)" and j: "j < length (ring_items q)"
  shows "queue_swap q (int i) (int j) =
    (case queue_set q (int i) (ring_items q ! j) of
       Some (_, q1) \<Rightarrow> queue_set q1 (int j) (ring_items q ! i) | None \<Rightarrow> None)"
proof -
  have ii: "0 \<le> int i" "int i < q_elem q" and jj: "0 \<le> int j" "int j < q_elem q"
    using i j by auto
  note Si = ring_slot_ok [OF inv ii] and Sj = ring_slot_ok [OF inv jj]
  note B = ring_slot_bounds [OF inv]
  have "slot (q\<lparr>q_arr := a\<rparr>) k = slot q k" for a k by (simp add: slot_def)
  then show ?thesis using Si Sj B ii jj i j
    by (simp add: queue_swap_def queue_set_def c_simps ring_item_nth ring_at_def)
qed

lemma ring_swap_ok:
  assumes inv: "ring_inv q" and i: "i < length (ring_items q)" and j: "j < length (ring_items q)"
  shows "\<exists>q'. queue_swap q (int i) (int j) = Some (0, q') \<and> ring_inv q' \<and>
    ring_items q' = (ring_items q)[i := ring_items q ! j, j := ring_items q ! i] \<and>
    ring_cap q' = ring_cap q"
proof -
  from ring_set_ok [OF inv i] obtain q1 where q1: "queue_set q (int i) (ring_items q ! j) = Some (0, q1)"
    "ring_inv q1" "ring_items q1 = (ring_items q)[i := ring_items q ! j]" "ring_cap q1 = ring_cap q"
    by blast
  have "j < length (ring_items q1)" using q1(3) j by (metis length_list_update)
  from ring_set_ok [OF q1(2) this] obtain q2 where
    "queue_set q1 (int j) (ring_items q ! i) = Some (0, q2)" "ring_inv q2"
    "ring_items q2 = (ring_items q1)[j := ring_items q ! i]" "ring_cap q2 = ring_cap q1"
    by blast
  then show ?thesis using ring_swap_sets [OF inv i j] q1 by simp
qed

subsection \<open>The contract of a bounded first-in first-out queue\<close>

locale fifo =
  fixes inv :: "'q \<Rightarrow> bool" and items :: "'q \<Rightarrow> 'a list" and cap :: "'q \<Rightarrow> nat"
    and count :: "'q \<Rightarrow> int"
    and addtail :: "'q \<Rightarrow> 'a \<Rightarrow> (int \<times> 'q) option"
    and remhead :: "'q \<Rightarrow> ('a option \<times> 'q) option"
    and get :: "'q \<Rightarrow> int \<Rightarrow> 'a option option"
  assumes count_items: "inv q \<Longrightarrow> count q = int (length (items q))"
    and addtail_room: "inv q \<Longrightarrow> length (items q) < cap q \<Longrightarrow>
      \<exists>q'. addtail q x = Some (0, q') \<and> inv q' \<and> items q' = items q @ [x] \<and> cap q' = cap q"
    and addtail_full: "inv q \<Longrightarrow> length (items q) = cap q \<Longrightarrow> addtail q x = Some (- 1, q)"
    and remhead_some: "inv q \<Longrightarrow> items q = y # ys \<Longrightarrow>
      \<exists>q'. remhead q = Some (Some y, q') \<and> inv q' \<and> items q' = ys \<and> cap q' = cap q"
    and remhead_none: "inv q \<Longrightarrow> items q = [] \<Longrightarrow> remhead q = Some (None, q)"
    and get_nth: "inv q \<Longrightarrow> i < length (items q) \<Longrightarrow> get q (int i) = Some (Some (items q ! i))"
    and items_cap: "inv q \<Longrightarrow> length (items q) \<le> cap q"
begin

text \<open>Moving the head to the tail never fails and rotates the list.\<close>

lemma rotate_once:
  assumes "inv q" "items q = y # ys"
  obtains q1 q2 where "remhead q = Some (Some y, q1)" "addtail q1 y = Some (0, q2)"
    "inv q2" "items q2 = ys @ [y]" "cap q2 = cap q"
proof -
  from remhead_some [OF assms] obtain q1 where
    q1: "remhead q = Some (Some y, q1)" "inv q1" "items q1 = ys" "cap q1 = cap q"
    by blast
  have "length (items q1) < cap q1" using items_cap [OF assms(1)] assms(2) q1 by simp
  from addtail_room [OF q1(2) this, of y] show thesis using that q1 by auto
qed

lemma get_in_items:
  assumes "inv q" "i < length (items q)" "get q (int i) = Some (Some y)"
  shows "y \<in> set (items q)"
  using get_nth [OF assms(1,2)] assms by simp

end

text \<open>A first-in first-out queue is a bounded buffer.\<close>

definition put_of :: "('q \<Rightarrow> 'a \<Rightarrow> (int \<times> 'q) option) \<Rightarrow> 'q \<Rightarrow> 'a \<Rightarrow> 'q option" where
  "put_of addtail q x = do { (rc, q1) \<leftarrow> addtail q x; if rc = 0 then Some q1 else None }"

definition get_of :: "('q \<Rightarrow> ('a option \<times> 'q) option) \<Rightarrow> 'q \<Rightarrow> ('a \<times> 'q) option" where
  "get_of remhead q = do { (r, q1) \<leftarrow> remhead q; x \<leftarrow> r; Some (x, q1) }"

sublocale fifo \<subseteq> buffer: bounded_buffer inv items cap "\<lambda>_. True" "put_of addtail" "get_of remhead"
proof unfold_locales
  show "\<exists>b'. put_of addtail b x = Some b' \<and> inv b' \<and> items b' = items b @ [x] \<and> cap b' = cap b"
    if "inv b" "length (items b) < cap b" for b x
    using addtail_room [OF that, of x] by (auto simp: put_of_def)
  show "\<exists>b'. get_of remhead b = Some (x, b') \<and> inv b' \<and> items b' = xs \<and> cap b' = cap b"
    if "inv b" "items b = x # xs" for b x xs
    using remhead_some [OF that] by (auto simp: get_of_def)
qed

interpretation rq: fifo ring_inv ring_items ring_cap queue_count queue_addtail queue_remhead queue_get
proof unfold_locales
  show "queue_count q = int (length (ring_items q))" if "ring_inv q" for q :: "'a queue_t"
    using ring_bounds [OF that] by (simp add: queue_count_def)
  show "length (ring_items q) \<le> ring_cap q" if "ring_inv q" for q :: "'a queue_t"
    using ring_bounds [OF that] by (simp add: ring_cap_def)
qed (fact ring_addtail_ok ring_addtail_full ring_remhead_ok ring_remhead_empty ring_get_ok)+

subsection \<open>Creation\<close>

lemma queue_create_ok:
  assumes ready: "heap_ready h b a" and sz: "0 \<le> sz" "sz < 2 ^ 29"
    and room: "alloc_cost 20 + alloc_cost (word_of_int (sz + 1) * 4) < a"
  obtains q h' a' where "queue_create sz junk h = Some (Some q, h')" "ring_inv q" "ring_items q = []"
    "ring_cap q = nat sz" "heap_ready h' b a'"
    "a' = a - alloc_cost 20 - alloc_cost (word_of_int (sz + 1) * 4)"
    "b + a' < q_data q" "b + a' < q_self q"
proof -
  let ?bytes = "word_of_int (sz + 1) * 4 :: u32"
  have ub: "unat ?bytes = nat (4 * (sz + 1))"
  proof -
    have "unat (word_of_int (sz + 1) :: u32) = nat (sz + 1)"
      using sz by (simp add: unat_eq_nat_uint uint_word_of_int mod_pos_pos_trivial del: of_int_add)
    moreover have "unat (4 :: u32) = 4" by simp
    ultimately show ?thesis using sz
      by (simp add: unat_word_ariths nat_mult_distrib del: of_int_add)
  qed
  have lt1: "alloc_cost 20 < a" and lt2: "alloc_cost ?bytes < a - alloc_cost 20" using room by auto
  have c: "unat (20 :: u32) + 7 < 2 ^ 32" by simp
  from kr.alloc_inside [OF ready c lt1] obtain p h1 where 1: "malloc 20 h = Some (Some p, h1)" "heap_ready h1 b (a - alloc_cost 20)"
    "b + (a - alloc_cost 20) < p"
    by blast
  have "unat ?bytes + 7 < 2 ^ 32" unfolding ub using sz by simp
  from kr.alloc_inside [OF 1(2) this lt2] obtain d h2 where
    2: "malloc ?bytes h1 = Some (Some d, h2)" "heap_ready h2 b (a - alloc_cost 20 - alloc_cost ?bytes)"
    "b + (a - alloc_cost 20 - alloc_cost ?bytes) < d"
    by blast
  let ?q = "\<lparr>q_size = sz + 1, q_elem = 0, q_head = 0, q_tail = 0, q_data = d, q_self = p,
     q_arr = map junk [0..<unat ?bytes div 4]\<rparr>"
  have add: "iadd sz 1 = Some (sz + 1)" using sz by (simp add: iadd_def in_s32_def)
  have "queue_create sz junk h = Some (Some ?q, h2)"
    unfolding queue_create_def Let_def using 1(1) 2(1) by (simp only: add option.case prod.case Option.bind.simps)
  moreover have "ring_inv ?q" unfolding ring_inv_def ub using sz by simp
  ultimately show thesis using that 1 2 sz by (simp add: ring_items_def ring_cap_def)
qed

lemma queue_destroy_empty:
  "q_head q = q_tail q \<Longrightarrow> free (q_data q) h = Some h1 \<Longrightarrow> free (q_self q) h1 = Some h2 \<Longrightarrow>
     queue_destroy q h = Some (0, h2)"
  by (simp add: queue_destroy_def)

subsection \<open>Removing from the tail\<close>

text \<open>
  \<open>queue_remtail\<close> reads the slot at \<open>tail\<close>, which is the first free one, and steps
  back with C's remainder, which is negative at slot 0.
\<close>

lemma queue_remtail_reads_free_slot:
  assumes inv: "ring_inv q" and ne: "ring_items q \<noteq> []"
  shows "queue_remtail q = Some (Some (q_arr q ! nat (q_tail q)),
    q\<lparr>q_tail := (if q_tail q = 0 then (if q_size q = 1 then 0 else - 1) else q_tail q - 1),
      q_elem := q_elem q - 1\<rparr>)"
proof -
  note D = ring_bounds [OF inv]
  have "0 < length (ring_items q)" using ne by (simp del: length_ring_items)
  then have "0 < q_elem q" by simp
  then have ht: "q_head q \<noteq> q_tail q" using ring_empty_iff [OF inv] by simp
  have "imod (q_tail q - 1) (q_size q) =
      Some (if q_tail q = 0 then (if q_size q = 1 then 0 else - 1) else q_tail q - 1)"
  proof (cases "q_tail q = 0")
    case True
    then show ?thesis using D by (auto simp: imod_def signed_modulo_int_def)
  next
    case False
    then show ?thesis using D by (simp add: c_simps)
  qed
  then show ?thesis using D ht by (simp add: queue_remtail_def c_simps in_s32_def)
qed

end
