(* ===== verification/Machine.thy ===== *)
theory Machine
  imports Queue
begin

text \<open>
  The data of the hypervisor and the machine it runs on. The structures are those of
  \<open>vm.h\<close>, \<open>vcpu.h\<close>, \<open>tlb.h\<close> and \<open>scheduler.h\<close>; objects that live on the heap
  (virtual machines, VCPUs, register save areas) are found at their addresses in one map per
  type. The record \<open>hv\<close> gathers them with the static variables of the kernel and of the
  drivers and with the hardware the code touches: the CP0 and guest CP0 registers, the general
  purpose register shadow sets, the TLB, the RAM and the device registers.

  Device registers and free running counters are volatile: what the \<open>n\<close>-th access reads is
  given by the functions \<open>dev\<close> and \<open>volatile_cp0\<close> of the configuration, and every
  access is appended to the trace \<open>io\<close>.
\<close>

subsection \<open>Data structures of the kernel\<close>

record tlb_entries =
  cfg_entrylo0 :: u32
  cfg_entrylo1 :: u32
  cfg_pagemask :: u32
  cfg_entryhi :: u32
  cfg_coherency :: u32

record device_mapping_t =
  start_addr :: u32
  dm_size :: u32

text \<open>The counted arrays of \<open>vmconf_t\<close> keep their C length beside the array.\<close>

record vmconf_t =
  cfg_vm_name :: string
  ram_base :: u32
  cfg_os_type :: u32
  cfg_priority :: u32
  fast_int_sz :: u32
  fast_interrupts :: "u32 list"
  interrupt_redirect_sz :: u32
  interrupt_redirect :: "u32 list"
  num_tlb_entries :: u32
  cfg_tlb :: "tlb_entries list"
  devices_mapping_sz :: u32
  devices :: "device_mapping_t list"

record tlbentry =
  te_guestid :: u32
  te_index :: u32
  te_entrylo0 :: u32
  te_lo0flags :: u32
  te_entrylo1 :: u32
  te_lo1flags :: u32
  te_pagemask :: u32
  te_entryhi :: u32
  te_coherency :: u32

record vm_t =
  vm_name :: string
  vm_ident :: u32
  base_addr :: u32
  os_type :: u32
  vm_init :: u32
  vmconf :: vmconf_t
  ntlbent :: u32
  tlbentries :: "tlbentry list"

datatype vcpu_state = VCPU_RUNNING | VCPU_BLOCKED

record message_t =
  source_id :: u32
  msg_size :: u32
  message :: "u8 list"

record message_buffer_t =
  mb_in :: u32
  mb_out :: u32
  num_messages :: u32
  message_list :: "message_t list"

record vcpu_t =
  vc_ident :: u32
  priority :: u32
  priority_rem :: u32
  critical :: u32
  state :: vcpu_state
  bgjobs :: u32
  gprshadowset :: u32
  cp0_registers :: "u32 list"
  guestclt2 :: u32
  vc_vm :: nat
  pc :: u32
  vc_init :: u32
  messages :: message_buffer_t
  gpr :: "nat option"

definition MESSAGELIST_SZ :: u32 where "MESSAGELIST_SZ = 5"
definition MESSAGE_SZ :: u32 where "MESSAGE_SZ = 256"

subsection \<open>Function pointers\<close>

text \<open>
  The tables of the kernel hold pointers to functions of the drivers: one constructor for each
  modelled function, and \<open>_ext\<close> for those of the drivers that are not modelled.
\<close>

datatype hypercall_t =
    H_get_vm_id | H_intervm_send_msg | H_intervm_recv_msg | H_guest_is_up
  | H_write_address | H_read_address | H_reenable_interrupt
  | H_flash_read | H_flash_write
  | H_performance_counter_start | H_performance_counter_stop
  | H_uart_send | H_usb_polling | H_get_descriptor | H_usb_send_data
  | H_en_watchdog | H_en_get_mac | H_send_frame | H_receive_frame
  | H_en_get_mac_shared | H_receive_frame_shared | H_ext nat

datatype handler_vector_t =
    I_timer_interrupt_handler | I_interrupt_injection | I_transfer_tx_done
  | I_general_exception_handler | I_usb_int_handler | I_ethernet_interrupt_handler | I_ext nat

datatype initcall_t =
    D_interrupt_init | D_uart_driver_init | D_intervm_init | D_virtual_io_init
  | D_interrupt_redirect_init | D_flash_puf_init | D_performance_init | D_usb_start
  | D_en_init | D_en_init_shared | D_ext nat

subsection \<open>Configuration\<close>

datatype port = PIC32MZ | BAIKAL_T1

text \<open>
  What the build fixes: the port, the macros of the generated \<open>config.h\<close> and of the board's
  \<open>platform.h\<close>, the addresses the linker assigns, the table of driver initialisers; and what
  the environment answers to volatile reads.
\<close>

record hv_conf =
  c_port :: port
  NVMACHINES :: nat
  VMCONF :: "vmconf_t list"
  QUANTUM_SCHEDULER_MS :: u32
  GUEST_QUANTUM_MS :: u32
  CPU_FREQ :: u32
  UARTSTAT :: u32
  UARTTXREG :: u32
  UART_IRQ_TX :: u32
  cpu_idle_addr :: u32
  heap_start :: u32
  heap_size :: u32
  heap_junk :: "nat \<Rightarrow> nat"
  drivers_table :: "initcall_t list"
  buffer_tx_addr :: u32
  tx_buf_addr :: u32
  b_buf_addr :: u32
  CPU_SPEED :: u32
  ram_size :: u32
  dev :: "nat \<Rightarrow> u32 \<Rightarrow> u32"
  volatile_cp0 :: "nat \<Rightarrow> nat \<Rightarrow> u32"

datatype io_event = IORead u32 u32 | IOWrite u32 u32

record tlb_hw =
  hw_guestid :: u32
  hw_lo0 :: u32
  hw_lo1 :: u32
  hw_mask :: u32
  hw_hi :: u32

record transfer_info =
  buf_addr :: u32
  next_character :: u32
  tr_size :: u32
  tr_vcpu :: "nat option"

record interrupt_mapping =
  irq_number :: u32
  irq_guest :: u32
  im_vcpu :: nat

subsection \<open>The USB driver\<close>

text \<open>The static variables of \<open>drivers/pic32mz-usb.c\<close>, with the structures of \<open>usb.h\<close>.\<close>

datatype USB_SPEED = FULL_SPEED | HIGH_SPEED | LOW_SPEED

datatype USB_DEVICE_STATE =
    IDLE | DEBOUNCE | USB_RESET | AFTER_RESET_DELAY | HANDSHAKE | REQUEST_DESCRIPTOR
  | WAIT_TX_INT | WAIT_DESCRIPTOR | READ_DESCRIPTOR | RUNNING | VBUSERROR | GENERALERROR

datatype USB_TRANSFER_STATE =
    TRANSFER_INT_VM | TRANSFER_IDLE | TRANSFER_START | TRANSFER_SENDING | TRANSFER_WAIT_TX_INT
  | TRANSFER_DONE

record usb_status_t =
  us_state :: USB_DEVICE_STATE
  descriptor_available :: u32
  connected :: u32
  debounce :: u32
  wait_debounce :: u32
  speed :: USB_SPEED

record usb_transfer_status_t =
  ut_state :: USB_TRANSFER_STATE
  pkt_sz :: u8

record usb_setup_packet_t =
  bmRequestType :: u8
  bRequest :: u8
  wValue :: u16
  wIndex :: u16
  wLength :: u16

record descriptor_receive =
  descriptor :: "u8 list"
  received :: u32
  descr_sz :: u32
  tranfer_sz :: u32

record descriptor_decoded =
  bLength :: u8
  bDescriptorType :: u8
  bcdUSB :: u16
  bDeviceClass :: u8
  bDeviceSubClass :: u8
  bDeviceProtocol :: u8
  bMaxPacketSize :: u8
  idVendor :: u16
  idProduct :: u16
  bcdDevice :: u16
  iManufacturer :: u8
  iProduct :: u8
  iSerialNumber :: u8
  bNumConfigurations :: u8

record usb_statics =
  usb_status :: usb_status_t
  descriptor_data :: descriptor_receive
  setup_packet :: usb_setup_packet_t
  device_descriptor :: descriptor_decoded
  usb_transfer_status :: usb_transfer_status_t
  sent_sz :: u32
  buffer_tx :: "u8 list"
  request_count :: u32

subsection \<open>The Ethernet driver\<close>

text \<open>
  \<open>struct eth_port\<close> of \<open>pic32mz-ethernet.h\<close> and the static variables of \<open>drivers/pic32mz-ethernet.c\<close>;
  the last four are those \<open>drivers/pic32mz-ethernet-shared.c\<close> adds. A frame buffer has its \<open>MTU\<close> bytes in
  RAM, and the lists of the VMs point to frame buffers by index. The descriptors and the buffers the controller reads and writes by itself are in RAM, at the addresses
  the pointers hold.
\<close>

record eth_port =
  macaddr :: "u8 list"
  is_up :: u32
  phy_addr :: u32
  phy_id :: u32
  rx_buf :: u32
  rx_desc :: u32
  tx_desc :: u32

record frame_buffer =
  fb_used :: u32
  fb_size :: u32

record vm_ctrl_buffer =
  cb_vm_id :: u32
  cb_mac :: "u8 list"
  cb_input :: u32
  cb_output :: u32
  frame_list :: "nat option list"

record eth_statics =
  eth_port :: eth_port
  receive_index :: u32
  read_index :: u32
  desc_offset :: u32
  frame_size :: u32
  read_nbytes :: u32
  eth_vcpu :: "nat option"
  b_buf :: "frame_buffer list"
  VMCTRLbuf :: "vm_ctrl_buffer list"
  number_used_buffers :: u32
  vm_counter :: u32

subsection \<open>The state\<close>

text \<open>
  \<open>io\<close>, \<open>vol_n\<close> and \<open>tx_view\<close> are observations and no variables of the program: the accesses to device registers in
  order, the number of volatile reads, and the RAM as it was when a transmission was last requested, which is what
  the DMA of the Ethernet controller can read from then on.
\<close>

record hv =
  conf :: hv_conf
  cp0 :: "nat \<times> nat \<Rightarrow> u32"
  gcp0 :: "nat \<times> nat \<Rightarrow> u32"
  shadow :: "nat \<Rightarrow> nat \<Rightarrow> u32"
  frame :: "nat \<Rightarrow> u32"
  ie :: bool
  tlb :: "tlb_hw option list"
  mem :: "u32 \<Rightarrow> u8"
  io :: "io_event list"
  vol_n :: nat
  tx_view :: "u32 \<Rightarrow> u8"
  heap :: mheap
  vms :: "nat \<Rightarrow> vm_t option"
  vcpus :: "nat \<Rightarrow> vcpu_t option"
  gpr_areas :: "nat \<Rightarrow> nat \<Rightarrow> u32"
  vcpu_ready_list :: "nat queue_t option"
  vcpu_executing :: "nat option"
  tick_count :: u32
  pending :: u32
  next_vm_id :: u32
  next_tlbindex :: u32
  next_vcpu_id :: u32
  hypercall_table :: "hypercall_t option list"
  interrupt_handlers :: "handler_vector_t option list"
  vmconf_p :: "vmconf_t option list"
  transfers :: "transfer_info list"
  active_transfer :: int
  interrupt_mapping_sz :: u32
  interrupt_mapping_list :: "interrupt_mapping option list"
  timer_past :: u32
  usb :: usb_statics
  eth :: eth_statics
  test_ticks :: u32

text \<open>The macros \<open>vcpu_in_execution\<close> and \<open>vm_in_execution\<close>, dereferenced.\<close>

definition cur_vcpu :: "hv \<Rightarrow> vcpu_t option" where
  "cur_vcpu s = do { p \<leftarrow> vcpu_executing s; vcpus s p }"

definition cur_vm :: "hv \<Rightarrow> vm_t option" where
  "cur_vm s = do { v \<leftarrow> cur_vcpu s; vms s (vc_vm v) }"

definition upd_vcpu :: "nat \<Rightarrow> (vcpu_t \<Rightarrow> vcpu_t) \<Rightarrow> hv \<Rightarrow> hv option" where
  "upd_vcpu p f s = do { v \<leftarrow> vcpus s p; Some (s\<lparr>vcpus := (vcpus s)(p \<mapsto> f v)\<rparr>) }"

subsection \<open>Coprocessor 0\<close>

text \<open>Registers are named by register number and select, as in \<open>mips_cp0.h\<close>.\<close>

definition mfc0 :: "nat \<Rightarrow> nat \<Rightarrow> hv \<Rightarrow> u32" where
  "mfc0 reg sel s = cp0 s (reg, sel)"

definition mtc0 :: "nat \<Rightarrow> nat \<Rightarrow> u32 \<Rightarrow> hv \<Rightarrow> hv" where
  "mtc0 reg sel v s = s\<lparr>cp0 := (cp0 s)((reg, sel) := v)\<rparr>"

definition mfgc0 :: "nat \<Rightarrow> nat \<Rightarrow> hv \<Rightarrow> u32" where
  "mfgc0 reg sel s = gcp0 s (reg, sel)"

definition mtgc0 :: "nat \<Rightarrow> nat \<Rightarrow> u32 \<Rightarrow> hv \<Rightarrow> hv" where
  "mtgc0 reg sel v s = s\<lparr>gcp0 := (gcp0 s)((reg, sel) := v)\<rparr>"

text \<open>\<open>Count\<close> and \<open>Random\<close> change under the program.\<close>

definition mfc0_volatile :: "nat \<Rightarrow> hv \<Rightarrow> u32 \<times> hv" where
  "mfc0_volatile reg s = (volatile_cp0 (conf s) (vol_n s) reg, s\<lparr>vol_n := Suc (vol_n s)\<rparr>)"

abbreviation (input) "CP0_INDEX \<equiv> (0 :: nat)"
abbreviation (input) "CP0_RANDOM \<equiv> (1 :: nat)"
abbreviation (input) "CP0_ENTRYLO0 \<equiv> (2 :: nat)"
abbreviation (input) "CP0_ENTRYLO1 \<equiv> (3 :: nat)"
abbreviation (input) "CP0_PAGEMASK \<equiv> (5 :: nat)"
abbreviation (input) "CP0_PAGEGRAIN \<equiv> (5 :: nat)"
abbreviation (input) "CP0_BADVADDR \<equiv> (8 :: nat)"
abbreviation (input) "CP0_COUNT \<equiv> (9 :: nat)"
abbreviation (input) "CP0_ENTRYHI \<equiv> (10 :: nat)"
abbreviation (input) "CP0_GUESTCTL1 \<equiv> (10 :: nat)"
abbreviation (input) "CP0_COMPARE \<equiv> (11 :: nat)"
abbreviation (input) "CP0_STATUS \<equiv> (12 :: nat)"
abbreviation (input) "CP0_SRSCTL \<equiv> (12 :: nat)"
abbreviation (input) "CP0_GUESTCTL0 \<equiv> (12 :: nat)"
abbreviation (input) "CP0_CAUSE \<equiv> (13 :: nat)"
abbreviation (input) "CP0_EPC \<equiv> (14 :: nat)"
abbreviation (input) "CP0_EBASE \<equiv> (15 :: nat)"
abbreviation (input) "CP0_PRID \<equiv> (15 :: nat)"
abbreviation (input) "CP0_CONFIG3 \<equiv> (16 :: nat)"
abbreviation (input) "CP0_WATCHLO \<equiv> (18 :: nat)"
abbreviation (input) "CP0_WATCHHI \<equiv> (19 :: nat)"
abbreviation (input) "CP0_DEBUG2 \<equiv> (23 :: nat)"
abbreviation (input) "CP0_PERFCTL \<equiv> (25 :: nat)"

abbreviation (input) "STATUS_BEV \<equiv> (0x00400000 :: u32)"
abbreviation (input) "STATUS_ERL \<equiv> (0x4 :: u32)"
abbreviation (input) "STATUS_EXL \<equiv> (0x2 :: u32)"
abbreviation (input) "STATUS_IE \<equiv> (0x1 :: u32)"
abbreviation (input) "CAUSE_IV \<equiv> (0x00800000 :: u32)"
abbreviation (input) "GUESTCTL0_GM \<equiv> (0x80000000 :: u32)"
abbreviation (input) "GUESTCTL0_CP0 \<equiv> (0x10000000 :: u32)"
abbreviation (input) "GUESTCTL0_GT \<equiv> (0x02000000 :: u32)"
abbreviation (input) "GUESTCTL0_CG \<equiv> (0x01000000 :: u32)"
abbreviation (input) "GUESTCTL0_CF \<equiv> (0x00800000 :: u32)"
abbreviation (input) "GUESTCTL0_G1 \<equiv> (0x00400000 :: u32)"
abbreviation (input) "GUESTCTL0_RAD \<equiv> (0x200 :: u32)"
abbreviation (input) "GUESTCTL0_DRG \<equiv> (0x100 :: u32)"
abbreviation (input) "DEBUG_DM \<equiv> (0x40000000 :: u32)"
abbreviation (input) "SRSCTL_HSS \<equiv> (0x3C000000 :: u32)"
abbreviation (input) "SRSCTL_PSS \<equiv> (0x3C0 :: u32)"
abbreviation (input) "GUESTCTL1_RID \<equiv> (0x00FF0000 :: u32)"
abbreviation (input) "GUESTCTL1_ID \<equiv> (0xFF :: u32)"
abbreviation (input) "GUESTCLT2_GRIPL_SHIFT \<equiv> (24 :: nat)"
abbreviation (input) "GUESTCLT2_VIP_SHIFT \<equiv> (10 :: nat)"

abbreviation (input) "REG_V0 \<equiv> (2 :: nat)"
abbreviation (input) "REG_A0 \<equiv> (4 :: nat)"
abbreviation (input) "REG_A1 \<equiv> (5 :: nat)"
abbreviation (input) "REG_A2 \<equiv> (6 :: nat)"

subsection \<open>Virtual interrupt numbers\<close>

definition GUEST_TIMER_INT :: "port \<Rightarrow> u32" where
  "GUEST_TIMER_INT p = (case p of PIC32MZ \<Rightarrow> 1 | BAIKAL_T1 \<Rightarrow> 0x20)"

abbreviation (input) "GUEST_INTERVM_INT \<equiv> (2 :: u32)"
abbreviation (input) "GUEST_USER_DEFINED_INT_1 \<equiv> (0x10 :: u32)"

end
