(* ===== verification/PhysMem.thy ===== *)
theory PhysMem
  imports Machine
begin

text \<open>
  How the hypervisor's loads and stores reach memory: the unmapped segments, the TLB as the
  root context sees it, RAM bytes, and device registers. The hardware is described as far as
  the code relies on it: a load or store that no TLB entry (or more than one) translates is an
  exception in root mode, from which the hypervisor does not return.
\<close>

subsection \<open>TLB\<close>

text \<open>\<open>tlbwi\<close>: the slot named by \<open>Index\<close> takes the entry registers and \<open>GuestCtl1.RID\<close>.\<close>

definition tlb_commit :: "hv \<Rightarrow> hv option" where
  "tlb_commit s =
     (let i = unat (mfc0 CP0_INDEX 0 s) in
      if i < length (tlb s)
      then Some (s\<lparr>tlb := (tlb s)[i := Some
             \<lparr>hw_guestid = drop_bit 16 (mfc0 CP0_GUESTCTL1 4 s AND GUESTCTL1_RID),
              hw_lo0 = mfc0 CP0_ENTRYLO0 0 s, hw_lo1 = mfc0 CP0_ENTRYLO1 0 s,
              hw_mask = mfc0 CP0_PAGEMASK 0 s, hw_hi = mfc0 CP0_ENTRYHI 0 s\<rparr>]\<rparr>)
      else None)"

definition hw_pair_mask :: "tlb_hw \<Rightarrow> u32" where
  "hw_pair_mask e = hw_mask e OR 0x1FFF"

definition hw_match :: "u32 \<Rightarrow> u32 \<Rightarrow> u32 \<Rightarrow> tlb_hw \<Rightarrow> bool" where
  "hw_match gid asid va e \<longleftrightarrow>
     hw_guestid e = gid \<and>
     va AND NOT (hw_pair_mask e) = hw_hi e AND NOT (hw_pair_mask e) \<and>
     (hw_lo0 e AND hw_lo1 e AND 1 = 1 \<or> hw_hi e AND 0xFF = asid)"

text \<open>The page of the pair is chosen by the highest bit of the pair mask.\<close>

definition hw_translate :: "bool \<Rightarrow> u32 \<Rightarrow> tlb_hw \<Rightarrow> u32 option" where
  "hw_translate wr va e =
     (let off = drop_bit 1 (hw_pair_mask e);
          lo = (if va AND (off + 1) = 0 then hw_lo0 e else hw_lo1 e)
      in if lo AND 2 = 0 \<or> (wr \<and> lo AND 4 = 0) then None
         else Some ((push_bit 12 (drop_bit 6 lo) AND NOT off) OR (va AND off)))"

definition hw_lookup :: "u32 \<Rightarrow> bool \<Rightarrow> u32 \<Rightarrow> hv \<Rightarrow> u32 option" where
  "hw_lookup gid wr va s =
     (case filter (hw_match gid (mfc0 CP0_ENTRYHI 0 s AND 0xFF) va) (List.map_filter id (tlb s)) of
        [e] \<Rightarrow> hw_translate wr va e
      | _ \<Rightarrow> None)"

definition root_translate :: "bool \<Rightarrow> u32 \<Rightarrow> hv \<Rightarrow> u32 option" where
  "root_translate wr va s =
     (if 0x80000000 \<le> va \<and> va < 0xC0000000 then Some (va AND 0x1FFFFFFF)
      else hw_lookup 0 wr va s)"

subsection \<open>Device registers\<close>

definition dev_read :: "u32 \<Rightarrow> hv \<Rightarrow> u32 \<times> hv" where
  "dev_read pa s = (let v = dev (conf s) (vol_n s) pa
                    in (v, s\<lparr>vol_n := Suc (vol_n s), io := io s @ [IORead pa v]\<rparr>))"

definition dev_write :: "u32 \<Rightarrow> u32 \<Rightarrow> hv \<Rightarrow> hv" where
  "dev_write pa v s = s\<lparr>io := io s @ [IOWrite pa v]\<rparr>"

text \<open>Registers named by their KSEG1 address, as the macros of \<open>pic32mz.h\<close> and \<open>baikal-t1.h\<close> do.\<close>

definition sfr_read :: "u32 \<Rightarrow> hv \<Rightarrow> u32 \<times> hv" where
  "sfr_read a s = dev_read (a AND 0x1FFFFFFF) s"

definition sfr_write :: "u32 \<Rightarrow> u32 \<Rightarrow> hv \<Rightarrow> hv" where
  "sfr_write a v s = dev_write (a AND 0x1FFFFFFF) v s"

definition PIC32MZ_PBASE :: "u32 \<Rightarrow> u32" where "PIC32MZ_PBASE a = 0xBF800000 + a"
definition IFS :: "u32 \<Rightarrow> u32" where "IFS n = PIC32MZ_PBASE (0x10040 + push_bit 4 n)"
definition IFSCLR :: "u32 \<Rightarrow> u32" where "IFSCLR n = PIC32MZ_PBASE (0x10044 + push_bit 4 n)"
definition IECCLR :: "u32 \<Rightarrow> u32" where "IECCLR n = PIC32MZ_PBASE (0x100C4 + push_bit 4 n)"
definition IECSET :: "u32 \<Rightarrow> u32" where "IECSET n = PIC32MZ_PBASE (0x100C8 + push_bit 4 n)"
definition IPC :: "u32 \<Rightarrow> u32" where "IPC n = PIC32MZ_PBASE (0x10140 + push_bit 4 n)"
definition IPCCLR :: "u32 \<Rightarrow> u32" where "IPCCLR n = PIC32MZ_PBASE (0x10144 + push_bit 4 n)"
definition IPCSET :: "u32 \<Rightarrow> u32" where "IPCSET n = PIC32MZ_PBASE (0x10148 + push_bit 4 n)"

subsection \<open>Loads and stores\<close>

definition is_ram :: "hv \<Rightarrow> u32 \<Rightarrow> bool" where
  "is_ram s pa \<longleftrightarrow> pa < ram_size (conf s)"

definition mem32 :: "(u32 \<Rightarrow> u8) \<Rightarrow> u32 \<Rightarrow> u32" where
  "mem32 m a = ucast (m a) OR push_bit 8 (ucast (m (a + 1))) OR
               push_bit 16 (ucast (m (a + 2))) OR push_bit 24 (ucast (m (a + 3)))"

definition set_mem32 :: "(u32 \<Rightarrow> u8) \<Rightarrow> u32 \<Rightarrow> u32 \<Rightarrow> u32 \<Rightarrow> u8" where
  "set_mem32 m a v =
     m(a := ucast v, a + 1 := ucast (drop_bit 8 v), a + 2 := ucast (drop_bit 16 v),
       a + 3 := ucast (drop_bit 24 v))"

definition ld8 :: "u32 \<Rightarrow> hv \<Rightarrow> (u8 \<times> hv) option" where
  "ld8 va s = do { pa \<leftarrow> root_translate False va s;
                   Some (if is_ram s pa then (mem s pa, s)
                         else (let (v, s1) = dev_read pa s in (ucast v, s1))) }"

definition st8 :: "u32 \<Rightarrow> u8 \<Rightarrow> hv \<Rightarrow> hv option" where
  "st8 va v s = do { pa \<leftarrow> root_translate True va s;
                     Some (if is_ram s pa then s\<lparr>mem := (mem s)(pa := v)\<rparr>
                           else dev_write pa (ucast v) s) }"

definition ld32 :: "u32 \<Rightarrow> hv \<Rightarrow> (u32 \<times> hv) option" where
  "ld32 va s = do { ensure (va AND 3 = 0);
                    pa \<leftarrow> root_translate False va s;
                    Some (if is_ram s pa then (mem32 (mem s) pa, s) else dev_read pa s) }"

definition st32 :: "u32 \<Rightarrow> u32 \<Rightarrow> hv \<Rightarrow> hv option" where
  "st32 va v s = do { ensure (va AND 3 = 0);
                      pa \<leftarrow> root_translate True va s;
                      Some (if is_ram s pa then s\<lparr>mem := set_mem32 (mem s) pa v\<rparr>
                            else dev_write pa v s) }"

text \<open>Runs of bytes, the effect of \<open>memcpy\<close> between a mapped buffer and a kernel object.\<close>

fun ld_bytes :: "u32 \<Rightarrow> nat \<Rightarrow> hv \<Rightarrow> (u8 list \<times> hv) option" where
  "ld_bytes va 0 s = Some ([], s)"
| "ld_bytes va (Suc n) s =
     do { (b, s1) \<leftarrow> ld8 va s; (bs, s2) \<leftarrow> ld_bytes (va + 1) n s1; Some (b # bs, s2) }"

fun st_bytes :: "u32 \<Rightarrow> u8 list \<Rightarrow> hv \<Rightarrow> hv option" where
  "st_bytes va [] s = Some s"
| "st_bytes va (b # bs) s = do { s1 \<leftarrow> st8 va b s; st_bytes (va + 1) bs s1 }"

text \<open>The values a trace writes to one register.\<close>

definition written_to :: "u32 \<Rightarrow> io_event list \<Rightarrow> u32 list" where
  "written_to a tr = List.map_filter (\<lambda>e. case e of IOWrite b v \<Rightarrow> if b = a then Some v else None | IORead b v \<Rightarrow> None) tr"

subsection \<open>Lemmas\<close>

lemma mfc0_mtc0 [hv_simps]:
  "mfc0 r sel (mtc0 r' sel' v s) = (if r = r' \<and> sel = sel' then v else mfc0 r sel s)"
  by (simp add: mfc0_def mtc0_def)

lemma mtc0_fields [hv_simps]:
  "conf (mtc0 r sel v s) = conf s" "gcp0 (mtc0 r sel v s) = gcp0 s" "tlb (mtc0 r sel v s) = tlb s"
  "mem (mtc0 r sel v s) = mem s" "io (mtc0 r sel v s) = io s" "vol_n (mtc0 r sel v s) = vol_n s"
  "vms (mtc0 r sel v s) = vms s" "vcpus (mtc0 r sel v s) = vcpus s"
  "vcpu_executing (mtc0 r sel v s) = vcpu_executing s"
  "vcpu_ready_list (mtc0 r sel v s) = vcpu_ready_list s" "pending (mtc0 r sel v s) = pending s"
  "tick_count (mtc0 r sel v s) = tick_count s" "shadow (mtc0 r sel v s) = shadow s"
  "frame (mtc0 r sel v s) = frame s" "gpr_areas (mtc0 r sel v s) = gpr_areas s" "usb (mtc0 r sel v s) = usb s"
  "eth (mtc0 r sel v s) = eth s"
  by (simp_all add: mtc0_def)

lemma sfr_write_fields [hv_simps]:
  "conf (sfr_write a v s) = conf s" "vcpus (sfr_write a v s) = vcpus s"
  "cp0 (sfr_write a v s) = cp0 s" "io (sfr_write a v s) = io s @ [IOWrite (a AND 0x1FFFFFFF) v]"
  "vcpu_executing (sfr_write a v s) = vcpu_executing s" "vms (sfr_write a v s) = vms s"
  "usb (sfr_write a v s) = usb s" "eth (sfr_write a v s) = eth s"
  by (simp_all add: sfr_write_def dev_write_def)

lemma set_mem32_other:
  "b \<noteq> a \<Longrightarrow> b \<noteq> a + 1 \<Longrightarrow> b \<noteq> a + 2 \<Longrightarrow> b \<noteq> a + 3 \<Longrightarrow> set_mem32 m a v b = m b"
  by (simp add: set_mem32_def)

lemma word32_bytes:
  "ucast (ucast v :: u8) OR push_bit 8 (ucast (ucast (drop_bit 8 v) :: u8)) OR
   push_bit 16 (ucast (ucast (drop_bit 16 v) :: u8)) OR
   push_bit 24 (ucast (ucast (drop_bit 24 v) :: u8)) = v" for v :: u32
proof (rule bit_word_eqI)
  fix n assume n: "n < LENGTH(32)"
  consider "n < 8" | "8 \<le> n" "n < 16" | "16 \<le> n" "n < 24" | "24 \<le> n" by linarith
  then show "bit (ucast (ucast v :: u8) OR push_bit 8 (ucast (ucast (drop_bit 8 v) :: u8)) OR
      push_bit 16 (ucast (ucast (drop_bit 16 v) :: u8)) OR
      push_bit 24 (ucast (ucast (drop_bit 24 v) :: u8)) :: u32) n = bit v n"
    using n by cases (auto simp: bit_simps)
qed

lemma mem32_set_mem32: "mem32 (set_mem32 m a v) a = v"
proof -
  have "a + 1 \<noteq> a" "a + 2 \<noteq> a" "a + 3 \<noteq> a" "a + 2 \<noteq> a + 1" "a + 3 \<noteq> a + 1" "a + 3 \<noteq> a + 2"
    by simp_all
  then show ?thesis by (simp add: mem32_def set_mem32_def word32_bytes)
qed

lemma ld_bytes_length: "ld_bytes a n s = Some (bs, t) \<Longrightarrow> length bs = n"
  by (induction n arbitrary: a s bs t) (auto simp: bind_eq_Some_conv)

lemma written_to_simps [simp]:
  "written_to a [] = []" "written_to a (xs @ ys) = written_to a xs @ written_to a ys"
  "written_to a (IORead b v # xs) = written_to a xs"
  "written_to a (IOWrite b v # xs) = (if b = a then v # written_to a xs else written_to a xs)"
  by (simp_all add: written_to_def List.map_filter_def)

end
