(* ===== verification/Hal.thy ===== *)
theory Hal
  imports PhysMem
begin

text \<open>
  The hardware abstraction of \<open>arch/mips/common/hal.c\<close>, function by function, and the
  TLB routines of \<open>arch/mips/common/tlb.c\<close>. Functions that only read registers return the
  value, functions that write return the new state, and those that read the free running counter
  return both.
\<close>

subsection \<open>Processor modes and features\<close>

definition isRootMode :: "hv \<Rightarrow> int" where
  "isRootMode s =
     (let guestctl0 = mfc0 CP0_GUESTCTL0 6 s; status = mfc0 CP0_STATUS 0 s in
      if guestctl0 AND GUESTCTL0_GM = 0 \<or>
         (guestctl0 AND GUESTCTL0_GM \<noteq> 0 \<and>
          \<not> (mfc0 CP0_DEBUG2 0 s AND DEBUG_DM = 0 \<and> status AND STATUS_ERL = 0 \<and> status AND STATUS_EXL = 0))
      then 1 else 0)"

definition hasVZ :: "hv \<Rightarrow> int" where
  "hasVZ s = (if mfc0 CP0_CONFIG3 3 s AND 0x00800000 = 0 then 0 else 1)"

definition num_shadow_gprs :: "hv \<Rightarrow> u32" where
  "num_shadow_gprs s = drop_bit 26 (mfc0 CP0_SRSCTL 2 s AND SRSCTL_HSS)"

definition ConfigureGPRShadow :: "hv \<Rightarrow> int \<times> hv" where
  "ConfigureGPRShadow s =
     (if num_shadow_gprs s = 0 then (0, s)
      else (0, mtc0 12 6 0 (mtc0 12 5 0 (mtc0 12 3 0 (mtc0 CP0_SRSCTL 2 0 s)))))"

definition hasGuestID :: "hv \<Rightarrow> u32" where
  "hasGuestID s = (if mfc0 CP0_GUESTCTL0 6 s AND GUESTCTL0_G1 \<noteq> 0 then 1 else 0)"

definition isDirectRoot :: "hv \<Rightarrow> u32" where
  "isDirectRoot s = (if mfc0 CP0_GUESTCTL0 6 s AND GUESTCTL0_DRG \<noteq> 0 then 1 else 0)"

definition isRootASID :: "hv \<Rightarrow> u32" where
  "isRootASID s = (if mfc0 CP0_GUESTCTL0 6 s AND GUESTCTL0_RAD \<noteq> 0 then 1 else 0)"

definition has1KPageSupport :: "hv \<Rightarrow> u32" where
  "has1KPageSupport s = mfc0 CP0_CONFIG3 3 s AND 0x10"

definition Disable1KPageSupport :: "hv \<Rightarrow> hv" where
  "Disable1KPageSupport s = mtc0 CP0_PAGEGRAIN 1 (mfc0 CP0_PAGEGRAIN 1 s AND NOT 0x10000000) s"

definition isEnteringGuestMode :: "hv \<Rightarrow> int" where
  "isEnteringGuestMode s =
     (let status = mfc0 CP0_STATUS 0 s in
      if mfc0 CP0_GUESTCTL0 6 s AND GUESTCTL0_GM \<noteq> 0 \<and> status AND STATUS_ERL = 0 \<and>
         status AND STATUS_EXL \<noteq> 0 \<and> mfc0 CP0_DEBUG2 0 s AND DEBUG_DM = 0
      then 1 else 0)"

subsection \<open>Exception causes\<close>

definition getCauseCode :: "hv \<Rightarrow> u32" where
  "getCauseCode s = drop_bit 2 (mfc0 CP0_CAUSE 0 s AND 0x7C)"

definition getHypercallCode :: "hv \<Rightarrow> u32" where
  "getHypercallCode s = drop_bit 11 (mfc0 CP0_BADVADDR 1 s AND push_bit 11 0x3FF)"

definition getCauseBD :: "hv \<Rightarrow> u32" where
  "getCauseBD s = mfc0 CP0_CAUSE 0 s AND 0x80000000"

definition getGCauseCode :: "hv \<Rightarrow> u32" where
  "getGCauseCode s = drop_bit 2 (mfc0 CP0_GUESTCTL0 6 s AND 0x7C)"

definition getInterruptPending :: "hv \<Rightarrow> u32" where
  "getInterruptPending s =
     (let pending = mfc0 CP0_CAUSE 0 s in
      if drop_bit 26 pending AND 1 = 1 then 0x80000000 else pending AND 0x3FF00)"

definition getBadVAddress :: "hv \<Rightarrow> u32" where
  "getBadVAddress s = mfc0 CP0_BADVADDR 0 s"

definition getBadInstruction :: "hv \<Rightarrow> u32" where
  "getBadInstruction s = mfc0 CP0_BADVADDR 1 s"

subsection \<open>Interrupt enabling and the timer\<close>

definition confTimer :: "u32 \<Rightarrow> hv \<Rightarrow> hv" where
  "confTimer quantum s =
     (let (count, s1) = mfc0_volatile CP0_COUNT s in
      mtc0 CP0_COMPARE 0
        (if quantum \<le> 0xFFFFFFFF - count then count + quantum else quantum - (0xFFFFFFFF - count)) s1)"

definition setInterruptMask :: "u32 \<Rightarrow> hv \<Rightarrow> hv" where
  "setInterruptMask im s = mtc0 CP0_STATUS 0 (mfc0 CP0_STATUS 0 s OR im) s"

definition clearInterruptMask :: "u32 \<Rightarrow> hv \<Rightarrow> hv" where
  "clearInterruptMask im s = mtc0 CP0_STATUS 0 (mfc0 CP0_STATUS 0 s AND NOT im) s"

definition enableIE :: "hv \<Rightarrow> hv" where
  "enableIE s = mtc0 CP0_STATUS 0 (mfc0 CP0_STATUS 0 s OR STATUS_IE) s"

definition setStatusReg :: "u32 \<Rightarrow> hv \<Rightarrow> hv" where
  "setStatusReg bits s = mtc0 CP0_STATUS 0 (mfc0 CP0_STATUS 0 s OR bits) s"

definition getCounter :: "hv \<Rightarrow> u32 \<times> hv" where
  "getCounter s = mfc0_volatile CP0_COUNT s"

definition getRandom :: "hv \<Rightarrow> u32 \<times> hv" where
  "getRandom s = mfc0_volatile CP0_RANDOM s"

text \<open>The wait may last for ever: \<open>None\<close> is a counter that never gets there.\<close>

partial_function (option) udelay_loop :: "u32 \<Rightarrow> hv \<Rightarrow> hv option" where
  "udelay_loop final s =
     (let (now, s1) = mfc0_volatile CP0_COUNT s in
      if 0 \<le> sint (now - final) then Some s1 else udelay_loop final s1)"

definition udelay :: "u32 \<Rightarrow> hv \<Rightarrow> hv option" where
  "udelay usec s =
     (let (now, s1) = mfc0_volatile CP0_COUNT s
      in udelay_loop (now + usec * (CPU_FREQ (conf s) div 1000000) div 2) s1)"

subsection \<open>Guest context registers\<close>

definition setEPC :: "u32 \<Rightarrow> hv \<Rightarrow> hv" where
  "setEPC epc s = mtc0 CP0_EPC 0 epc s"

definition getEPC :: "hv \<Rightarrow> u32" where
  "getEPC s = mfc0 CP0_EPC 0 s"

definition setGuestRID :: "u32 \<Rightarrow> hv \<Rightarrow> hv" where
  "setGuestRID guestrid s =
     mtc0 CP0_GUESTCTL1 4 ((mfc0 CP0_GUESTCTL1 4 s AND NOT GUESTCTL1_RID) OR push_bit 16 guestrid) s"

definition setGuestID :: "u32 \<Rightarrow> hv \<Rightarrow> hv" where
  "setGuestID guestid s =
     mtc0 CP0_GUESTCTL1 4 ((mfc0 CP0_GUESTCTL1 4 s AND NOT GUESTCTL1_ID) OR guestid) s"

definition getGuestID :: "hv \<Rightarrow> u32" where
  "getGuestID s = mfc0 CP0_GUESTCTL1 4 s AND GUESTCTL1_ID"

definition setGuestMode :: "hv \<Rightarrow> hv" where
  "setGuestMode s =
     mtc0 CP0_GUESTCTL0 6
       (mfc0 CP0_GUESTCTL0 6 s OR GUESTCTL0_GM OR GUESTCTL0_CP0 OR GUESTCTL0_GT OR 0x1000) s"

definition clearGuestMode :: "hv \<Rightarrow> hv" where
  "clearGuestMode s = mtc0 CP0_GUESTCTL0 6 (mfc0 CP0_GUESTCTL0 6 s AND NOT GUESTCTL0_GM) s"

definition setLowestGShadow :: "u32 \<Rightarrow> hv \<Rightarrow> hv" where
  "setLowestGShadow lowestshadow s = mtc0 10 6 (lowestshadow AND 0xF) s"

definition getLowestGShadow :: "hv \<Rightarrow> u32" where
  "getLowestGShadow s = mfc0 10 6 s AND 0xF"

definition setPreviousShadowSet :: "u32 \<Rightarrow> hv \<Rightarrow> hv" where
  "setPreviousShadowSet shadow_set s =
     mtc0 CP0_SRSCTL 2 ((mfc0 CP0_SRSCTL 2 s AND NOT SRSCTL_PSS) OR push_bit 6 shadow_set) s"

definition getPreviousShadowSet :: "hv \<Rightarrow> u32" where
  "getPreviousShadowSet s = drop_bit 6 (mfc0 CP0_SRSCTL 2 s AND SRSCTL_PSS)"

definition setGTOffset :: "u32 \<Rightarrow> hv \<Rightarrow> hv" where
  "setGTOffset gtoffset s = mtc0 12 0 gtoffset s"

definition setGuestCTL2 :: "u32 \<Rightarrow> hv \<Rightarrow> hv" where
  "setGuestCTL2 v s = mtc0 10 5 v s"

definition getGuestCTL2 :: "hv \<Rightarrow> u32" where
  "getGuestCTL2 s = mfc0 10 5 s"

subsection \<open>Processor initialisation\<close>

definition LowLevelProcInit :: "hv \<Rightarrow> int \<times> hv" where
  "LowLevelProcInit s =
     (if hasVZ s = 0 then (1, s)
      else if isRootMode s = 0 then (1, s)
      else if isRootASID s \<noteq> 0 then (- 1, s)
      else if hasGuestID s = 0 then (1, s)
      else
        (let s1 = (if has1KPageSupport s \<noteq> 0 then Disable1KPageSupport s else s);
             s2 = mtc0 CP0_GUESTCTL0 6 (mfc0 CP0_GUESTCTL0 6 s1 OR GUESTCTL0_CP0 OR GUESTCTL0_GT OR
                    GUESTCTL0_CF OR GUESTCTL0_CG) s1;
             s3 = mtc0 11 4 (mfc0 11 4 s2 OR 0x10) s2;
             s4 = mtc0 11 4 (mfc0 11 4 s3 OR 0x8) s3;
             (r, s5) = ConfigureGPRShadow s4
         in if r \<noteq> 0 then (1, s5) else (0, setGTOffset 0 s5)))"

subsection \<open>TLB entries\<close>

abbreviation (input) "ENTRYLO_V \<equiv> (2 :: u32)"
abbreviation (input) "ENTRYLO_D \<equiv> (4 :: u32)"

definition tlbEntryWrite :: "tlbentry \<Rightarrow> hv \<Rightarrow> hv option" where
  "tlbEntryWrite entry s =
     (let s1 = setGuestRID (te_guestid entry) s;
          s2 = mtc0 CP0_INDEX 0 (te_index entry) s1;
          s3 = mtc0 CP0_ENTRYLO0 0 (push_bit 6 (te_entrylo0 entry) OR te_lo0flags entry OR
                 push_bit 3 (te_coherency entry)) s2;
          s4 = mtc0 CP0_ENTRYLO1 0 (push_bit 6 (te_entrylo1 entry) OR te_lo1flags entry OR
                 push_bit 3 (te_coherency entry)) s3;
          s5 = mtc0 CP0_PAGEMASK 0 (push_bit 13 (te_pagemask entry)) s4;
          s6 = mtc0 CP0_ENTRYHI 0 (push_bit 12 (te_entryhi entry) AND 0xFFFFE000) s5
      in tlb_commit s6)"

definition tlbCreateEntry :: "u32 \<Rightarrow> u32 \<Rightarrow> u32 \<Rightarrow> u32 \<Rightarrow> bool \<Rightarrow> hv \<Rightarrow> (u32 \<times> hv) option" where
  "tlbCreateEntry address baseaddr sz tlbindex use_cache s =
     (let KSEG = (if use_cache then 0x80000000 else 0xA0000000);
          next_page = address div 0x1000 < (address + sz) div 0x1000;
          entry = \<lparr>te_guestid = 0, te_index = tlbindex,
                   te_entrylo0 = drop_bit 12 ((baseaddr - 0x80000000) + (address - 0x80000000)),
                   te_lo0flags = ENTRYLO_V OR ENTRYLO_D,
                   te_entrylo1 = (if next_page
                                  then drop_bit 12 ((baseaddr - 0x80000000) + address + sz - 0x80000000)
                                  else 0),
                   te_lo1flags = (if next_page then ENTRYLO_V OR ENTRYLO_D else 0),
                   te_pagemask = 0,
                   te_entryhi = drop_bit 12 (baseaddr - KSEG),
                   te_coherency = (if use_cache then 4 else 2)\<rparr>
      in do { s1 \<leftarrow> tlbEntryWrite entry s;
              Some ((address AND 0xFFF) + baseaddr - KSEG, s1) })"

end
