(* ===== verification/TlbMap.thy ===== *)
theory TlbMap
  imports Hal
begin

text \<open>
  What \<open>tlbCreateEntry\<close> maps: the translation of the window it returns, on one and on two
  pages, and the fact that nothing bounds the physical page by the memory of the calling VM.
\<close>

subsection \<open>Aligned words\<close>

lemma mask_12_13: "(0xFFF :: u32) = mask 12" "(0x1FFF :: u32) = mask 13"
  by (simp_all add: mask_eq_exp_minus_1)

lemma small_and_mask: "unat r < 2 ^ n \<Longrightarrow> r AND mask n = r" for r :: "'a::len word"
proof -
  assume "unat r < 2 ^ n"
  then have "take_bit n (unat r) = unat r" by (simp add: take_bit_nat_eq_self)
  then have "unat (take_bit n r) = unat r" by (simp only: unsigned_take_bit_eq)
  then have "take_bit n r = r" by (simp only: word_unat_eq_iff)
  then show ?thesis by (simp only: take_bit_eq_mask)
qed

lemma unat_and_mask_less: "unat (r AND mask n) < 2 ^ n" for r :: "'a::len word"
  by (simp add: take_bit_eq_mask [symmetric] unsigned_take_bit_eq take_bit_nat_less_exp)

lemma split_at: "x = (x AND NOT (mask n)) + (x AND mask n)" for x :: "'a::len word"
proof -
  have "(x AND NOT (mask n)) + (x AND mask n) = (x AND NOT (mask n)) OR (x AND mask n)"
    by (rule disjunctive_add) (auto simp: bit_simps)
  also have "\<dots> = x" by (rule bit_word_eqI) (auto simp: bit_simps)
  finally show ?thesis by simp
qed

lemma aligned_add:
  fixes a r :: "'a::len word"
  assumes "a AND mask n = 0" "r AND mask n = r"
  shows "(a + r) AND mask n = r" "(a + r) AND NOT (mask n) = a"
proof -
  have d: "\<not> bit a i \<or> \<not> bit r i" for i
    using arg_cong [OF assms(1), of "\<lambda>w. bit w i"] arg_cong [OF assms(2), of "\<lambda>w. bit w i"]
    by (auto simp: bit_simps)
  have o: "a + r = a OR r" by (rule disjunctive_add) (fact d)
  have 1: "r AND NOT (mask n) = 0" by (subst assms(2) [symmetric]) (simp add: and.assoc)
  have 2: "a AND NOT (mask n) = a"
    using assms(1) by (metis split_at add.right_neutral)
  show "(a + r) AND mask n = r" using assms by (simp add: o bit.conj_disj_distrib2)
  show "(a + r) AND NOT (mask n) = a" using 1 2 by (simp add: o bit.conj_disj_distrib2)
qed

lemma aligned_plus:
  fixes a b :: "'a::len word"
  assumes "a AND mask n = 0"
  shows "(a + b) AND mask n = b AND mask n"
proof -
  have pa: "push_bit n (drop_bit n x) = x AND NOT (mask n)" for x :: "'a word"
    by (rule bit_word_eqI) (auto simp: bit_simps)
  have "a = push_bit n (drop_bit n a)" using split_at [of a n] assms by (simp add: pa)
  then have "a + (b AND NOT (mask n)) = push_bit n (drop_bit n a + drop_bit n b)"
    by (metis pa push_bit_add)
  moreover have "push_bit n x AND mask n = 0" for x :: "'a word"
    by (rule bit_word_eqI) (auto simp: bit_simps)
  ultimately have z: "(a + (b AND NOT (mask n))) AND mask n = 0" by simp
  have "(a + (b AND NOT (mask n)) + (b AND mask n)) AND mask n = b AND mask n"
    by (rule aligned_add(1) [OF z]) (simp add: and.assoc)
  then show ?thesis using split_at [of b n] by (simp add: add.assoc)
qed

lemma page_of_lo:
  fixes p f :: u32
  assumes "f AND NOT (mask 6) = 0"
  shows "push_bit 12 (drop_bit 6 (push_bit 6 (drop_bit 12 p) OR f)) AND NOT (mask 12)
    = p AND NOT (mask 12)"
proof (rule bit_word_eqI)
  have f: "\<not> bit f n" if "6 \<le> n" for n
    using arg_cong [OF assms, of "\<lambda>w. bit w n"] that bit_imp_le_length [of f n]
    by (auto simp: bit_simps)
  fix n assume "n < LENGTH(32)"
  then show "bit (push_bit 12 (drop_bit 6 (push_bit 6 (drop_bit 12 p) OR f)) AND NOT (mask 12)) n
      = bit (p AND NOT (mask 12)) n"
    by (auto simp: bit_simps f)
qed

lemma flag_of_lo:
  fixes p f m :: u32
  assumes "m AND NOT (mask 6) = 0"
  shows "(push_bit 6 p OR f) AND m = f AND m"
proof (rule bit_word_eqI)
  have m: "\<not> bit m n" if "6 \<le> n" for n
    using arg_cong [OF assms, of "\<lambda>w. bit w n"] that bit_imp_le_length [of m n]
    by (auto simp: bit_simps)
  fix n assume "n < LENGTH(32)"
  show "bit ((push_bit 6 p OR f) AND m) n = bit (f AND m) n"
    using m [of n] by (cases "n < 6") (auto simp: bit_simps)
qed

subsection \<open>Writing one TLB slot\<close>

definition entry_hw :: "tlbentry \<Rightarrow> tlb_hw" where
  "entry_hw e = \<lparr>hw_guestid = te_guestid e AND 0xFF,
     hw_lo0 = push_bit 6 (te_entrylo0 e) OR te_lo0flags e OR push_bit 3 (te_coherency e),
     hw_lo1 = push_bit 6 (te_entrylo1 e) OR te_lo1flags e OR push_bit 3 (te_coherency e),
     hw_mask = push_bit 13 (te_pagemask e),
     hw_hi = push_bit 12 (te_entryhi e) AND 0xFFFFE000\<rparr>"

lemma rid_field: "drop_bit 16 ((x AND NOT GUESTCTL1_RID OR push_bit 16 g) AND GUESTCTL1_RID) = g AND 0xFF"
  for x g :: u32
proof -
  have r: "GUESTCTL1_RID = push_bit 16 (mask 8)" "0xFF = (mask 8 :: u32)"
    by (simp_all add: mask_eq_exp_minus_1)
  show ?thesis unfolding r by (rule bit_word_eqI) (auto simp: bit_simps)
qed

lemma tlbEntryWrite_eq:
  assumes "unat (te_index e) < length (tlb s)"
  obtains c where "tlbEntryWrite e s = Some (s\<lparr>cp0 := c, tlb := (tlb s)[unat (te_index e) := Some (entry_hw e)]\<rparr>)"
    "c (CP0_ENTRYHI, 0) = hw_hi (entry_hw e)"
    "\<And>r sel. (r, sel) \<notin> {(CP0_GUESTCTL1, 4), (CP0_INDEX, 0), (CP0_ENTRYLO0, 0), (CP0_ENTRYLO1, 0),
       (CP0_PAGEMASK, 0), (CP0_ENTRYHI, 0)} \<Longrightarrow> c (r, sel) = cp0 s (r, sel)"
proof -
  let ?c = "(cp0 s)
      ((CP0_GUESTCTL1, 4) := (cp0 s (CP0_GUESTCTL1, 4) AND NOT GUESTCTL1_RID) OR push_bit 16 (te_guestid e),
       (CP0_INDEX, 0) := te_index e, (CP0_ENTRYLO0, 0) := hw_lo0 (entry_hw e),
       (CP0_ENTRYLO1, 0) := hw_lo1 (entry_hw e), (CP0_PAGEMASK, 0) := hw_mask (entry_hw e),
       (CP0_ENTRYHI, 0) := hw_hi (entry_hw e))"
  have "tlbEntryWrite e s = Some (s\<lparr>cp0 := ?c, tlb := (tlb s)[unat (te_index e) := Some (entry_hw e)]\<rparr>)"
    using assms rid_field
    by (simp add: tlbEntryWrite_def tlb_commit_def setGuestRID_def mtc0_def mfc0_def entry_hw_def Let_def)
  then show thesis by (rule that) (auto simp: entry_hw_def)
qed

text \<open>The hypervisor's own window is the only entry with guest id 0.\<close>

definition window_slot :: "nat \<Rightarrow> hv \<Rightarrow> bool" where
  "window_slot i s \<longleftrightarrow>
     i < length (tlb s) \<and> (\<forall>j e. j < length (tlb s) \<longrightarrow> j \<noteq> i \<longrightarrow> tlb s ! j = Some e \<longrightarrow> hw_guestid e \<noteq> 0)"

lemma filter_one_slot:
  assumes "i < length xs" "P e" "\<And>j x. j < length xs \<Longrightarrow> j \<noteq> i \<Longrightarrow> xs ! j = Some x \<Longrightarrow> \<not> P x"
  shows "filter P (List.map_filter id (xs[i := Some e])) = [e]"
proof -
  have out: "filter P (List.map_filter id ys) = []" if "\<And>y. Some y \<in> set ys \<Longrightarrow> \<not> P y" for ys
    using that by (auto simp: filter_empty_conv List.map_filter_def)
  have t: "\<not> P y" if "Some y \<in> set (take i xs)" for y
  proof -
    from that obtain j where "j < i" "j < length xs" "xs ! j = Some y"
      by (auto simp: in_set_conv_nth)
    then show ?thesis using assms(3) [of j y] by simp
  qed
  have d: "\<not> P y" if "Some y \<in> set (drop (Suc i) xs)" for y
  proof -
    from that obtain j where "j < length (drop (Suc i) xs)" "drop (Suc i) xs ! j = Some y"
      by (metis in_set_conv_nth)
    then show ?thesis using assms(3) [of "Suc (i + j)" y] by auto
  qed
  show ?thesis
    using out [OF t] out [OF d] assms(1,2)
    by (simp add: upd_conv_take_nth_drop List.map_filter_def)
qed

lemma root_translate_window:
  assumes slot: "window_slot i s" and tlb': "tlb s' = (tlb s)[i := Some e]"
    and gid: "hw_guestid e = 0" and hi: "mfc0 CP0_ENTRYHI 0 s' = hw_hi e"
    and va: "va AND NOT (hw_pair_mask e) = hw_hi e AND NOT (hw_pair_mask e)"
    and seg: "\<not> (0x80000000 \<le> va \<and> va < 0xC0000000)"
  shows "root_translate wr va s' = hw_translate wr va e"
proof -
  have "filter (hw_match 0 (mfc0 CP0_ENTRYHI 0 s' AND 0xFF) va) (List.map_filter id (tlb s')) = [e]"
    unfolding tlb' using slot gid hi va
    by (intro filter_one_slot) (auto simp: window_slot_def hw_match_def)
  then show ?thesis unfolding root_translate_def if_not_P [OF seg] hw_lookup_def by simp
qed

subsection \<open>The window of \<open>tlbCreateEntry\<close>\<close>

text \<open>The physical address a guest buffer address stands for: an offset into the VM's RAM.\<close>

definition guest_phys :: "u32 \<Rightarrow> u32 \<Rightarrow> u32" where
  "guest_phys baseaddr address = (baseaddr - 0x80000000) + (address - 0x80000000)"

definition window_va :: "bool \<Rightarrow> u32 \<Rightarrow> u32 \<Rightarrow> u32" where
  "window_va use_cache baseaddr address =
     (address AND 0xFFF) + baseaddr - (if use_cache then 0x80000000 else 0xA0000000)"

definition window_entry :: "u32 \<Rightarrow> u32 \<Rightarrow> u32 \<Rightarrow> u32 \<Rightarrow> bool \<Rightarrow> tlbentry" where
  "window_entry address baseaddr sz i use_cache =
     (let next_page = address div 0x1000 < (address + sz) div 0x1000 in
      \<lparr>te_guestid = 0, te_index = i,
       te_entrylo0 = drop_bit 12 (guest_phys baseaddr address), te_lo0flags = 6,
       te_entrylo1 = (if next_page then drop_bit 12 (guest_phys baseaddr address + sz) else 0),
       te_lo1flags = (if next_page then 6 else 0),
       te_pagemask = 0,
       te_entryhi = drop_bit 12 (baseaddr - (if use_cache then 0x80000000 else 0xA0000000)),
       te_coherency = (if use_cache then 4 else 2)\<rparr>)"

lemma tlbCreateEntry_eq:
  "tlbCreateEntry address baseaddr sz i use_cache s =
     do { s1 \<leftarrow> tlbEntryWrite (window_entry address baseaddr sz i use_cache) s;
          Some (window_va use_cache baseaddr address, s1) }"
  by (simp add: tlbCreateEntry_def window_entry_def window_va_def guest_phys_def Let_def algebra_simps)

lemma hi_of_aligned:
  fixes b :: u32
  assumes "b AND mask 13 = 0"
  shows "push_bit 12 (drop_bit 12 b) AND 0xFFFFE000 = b"
proof -
  have m: "0xFFFFE000 = NOT (mask 13 :: u32)" by (simp add: mask_eq_exp_minus_1)
  have "push_bit 12 (drop_bit 12 b) AND NOT (mask 13) = b AND NOT (mask 13)"
    by (rule bit_word_eqI) (auto simp: bit_simps)
  also have "\<dots> = b" using split_at [of b 13] assms by simp
  finally show ?thesis unfolding m .
qed

lemma page_join: "(x AND NOT (mask n)) OR (y AND mask n) = (x AND NOT (mask n)) + (y AND mask n)"
  for x y :: "'a::len word"
  by (rule disjunctive_add [symmetric]) (auto simp: bit_simps)

lemma pair_half:
  fixes k :: u32
  assumes "b AND mask 13 = 0" "unat k < 8192"
  shows "(b + k) AND 0x1000 = 0 \<longleftrightarrow> unat k < 4096"
proof -
  have k13: "k AND mask 13 = k" using assms(2) by (intro small_and_mask) simp
  have low: "(b + k) AND mask 13 = k" by (rule aligned_add(1) [OF assms(1) k13])
  have "(b + k) AND 0x1000 = ((b + k) AND mask 13) AND 0x1000" by (simp add: and.assoc mask_eq_exp_minus_1)
  then have red: "(b + k) AND 0x1000 = k AND 0x1000" unfolding low .
  show ?thesis
  proof (cases "unat k < 4096")
    case True
    then have "k AND mask 12 = k" by (intro small_and_mask) simp
    then have "k AND 0x1000 = (k AND mask 12) AND 0x1000" by simp
    also have "\<dots> = 0" by (simp add: and.assoc mask_eq_exp_minus_1)
    finally show ?thesis using True red by simp
  next
    case False
    let ?r = "k - 0x1000"
    have r: "unat ?r = unat k - 4096" using False by (simp add: unat_sub word_le_nat_alt)
    have "?r AND mask 12 = ?r" using r assms(2) by (intro small_and_mask) simp
    then have "(0x1000 + ?r) AND NOT (mask 12) = 0x1000"
      by (intro aligned_add(2)) (simp_all add: mask_eq_exp_minus_1)
    then have "(k AND NOT (mask 12)) AND 0x1000 = 0x1000" by simp
    moreover have "(k AND NOT (mask 12)) AND 0x1000 = k AND 0x1000"
      by (simp add: and.assoc mask_eq_exp_minus_1)
    ultimately show ?thesis using False red by simp
  qed
qed

text \<open>The two halves of a pair of 4 KB pages.\<close>

lemma hw_translate_4k:
  fixes k :: u32
  assumes "hw_mask e = 0" "b AND mask 13 = 0" "unat k < 8192"
    and lo: "(if unat k < 4096 then hw_lo0 e else hw_lo1 e) = push_bit 6 (drop_bit 12 p) OR f"
    and f: "f AND NOT (mask 6) = 0" "f AND 6 = 6"
  shows "hw_translate wr (b + k) e = Some ((p AND NOT (mask 12)) + (k AND mask 12))"
proof -
  have k13: "k AND mask 13 = k" using assms(3) by (intro small_and_mask) simp
  have low: "(b + k) AND mask 13 = k" by (rule aligned_add(1) [OF assms(2) k13])
  have m12: "x AND mask 12 = (x AND mask 13) AND mask 12" for x :: u32
    by (simp add: and.assoc mask_eq_exp_minus_1)
  have sel: "(if (b + k) AND (0xFFF + 1) = 0 then hw_lo0 e else hw_lo1 e) = push_bit 6 (drop_bit 12 p) OR f"
    using lo pair_half [OF assms(2,3)] by simp
  have off: "drop_bit 1 (hw_pair_mask e) = 0xFFF" using assms(1) by (simp add: hw_pair_mask_def)
  have fl: "(push_bit 6 (drop_bit 12 p) OR f) AND 2 = 2" "(push_bit 6 (drop_bit 12 p) OR f) AND 4 = 4"
  proof -
    have "f AND 2 = (f AND 6) AND 2" "f AND 4 = (f AND 6) AND 4" by (simp_all add: and.assoc)
    then show "(push_bit 6 (drop_bit 12 p) OR f) AND 2 = 2" "(push_bit 6 (drop_bit 12 p) OR f) AND 4 = 4"
      using f(2) by (subst flag_of_lo; simp add: mask_eq_exp_minus_1)+
  qed
  have "hw_translate wr (b + k) e = Some ((push_bit 12 (drop_bit 6 (push_bit 6 (drop_bit 12 p) OR f)) AND NOT 0xFFF)
      OR ((b + k) AND 0xFFF))"
    unfolding hw_translate_def Let_def off sel fl by simp
  also have "\<dots> = Some ((p AND NOT (mask 12)) + (k AND mask 12))"
    unfolding mask_12_13 page_of_lo [OF f(1)] page_join using m12 [of "b + k"] low by simp
  finally show ?thesis .
qed

lemma seg_ok:
  fixes base k :: u32
  assumes "0x80000000 \<le> base" "base \<le> 0x9FFFE000" "unat k < 8192"
  shows "\<not> (0x80000000 \<le> base - (if c then 0x80000000 else 0xA0000000) + k \<and>
             base - (if c then 0x80000000 else 0xA0000000) + k < 0xC0000000)"
proof -
  have b: "2147483648 \<le> unat base" "unat base \<le> 2684346368"
    using assms(1,2) by (simp_all add: word_le_nat_alt)
  have 1: "unat (base - 0x80000000) = unat base - 2147483648"
    using assms(1) by (simp add: unat_sub)
  have e: "base - 0xA0000000 = (base - 0x80000000) + 0xE0000000" by simp
  have 2: "unat (base - 0xA0000000) = unat base - 2147483648 + 3758096384"
    unfolding e using b 1 by (subst unat_add_u32) simp_all
  show ?thesis
  proof (cases c)
    case True
    have "unat (base - 0x80000000 + k) = unat base - 2147483648 + unat k"
      using b assms(3) 1 by (subst unat_add_u32) simp_all
    then show ?thesis using True b assms(3) by (simp add: word_le_nat_alt word_less_nat_alt)
  next
    case False
    have "unat (base - 0xA0000000 + k) = unat base - 2147483648 + 3758096384 + unat k"
      using b assms(3) 2 by (subst unat_add_u32) simp_all
    then show ?thesis using False b assms(3) by (simp add: word_le_nat_alt word_less_nat_alt)
  qed
qed

lemma div_4096_less_iff: "a div 4096 < (a + b) div 4096 \<longleftrightarrow> 4096 \<le> a mod 4096 + b" for a b :: nat
proof -
  have "a + b = (a mod 4096 + b) + (a div 4096) * 4096" by simp
  then have "(a + b) div 4096 = a div 4096 + (a mod 4096 + b) div 4096"
    by (simp only: div_mult_self1) 
  then show ?thesis by (simp add: div_greater_zero_iff)
qed

lemma next_page_iff:
  fixes address sz :: u32
  assumes "unat address + unat sz < 4294967296"
  shows "address div 0x1000 < (address + sz) div 0x1000 \<longleftrightarrow> 4096 \<le> unat address mod 4096 + unat sz"
proof -
  have "address div 0x1000 < (address + sz) div 0x1000 \<longleftrightarrow>
      unat address div 4096 < (unat address + unat sz) div 4096"
    using assms by (simp add: word_less_nat_alt unat_div unat_add_u32)
  also have "\<dots> \<longleftrightarrow> 4096 \<le> unat address mod 4096 + unat sz"
    by (rule div_4096_less_iff)
  finally show ?thesis .
qed

text \<open>Where byte \<open>j\<close> of the buffer lies in the window: \<open>k\<close> bytes above its base.\<close>

lemma unat_page_offset: "unat (address AND mask 12) = unat address mod 4096" for address :: u32
proof -
  have "unat (take_bit 12 address) = take_bit 12 (unat address)" by (rule unsigned_take_bit_eq)
  then show ?thesis by (simp only: take_bit_eq_mask [symmetric]) (simp add: take_bit_eq_mod)
qed

lemma unat_buffer_offset:
  fixes address :: u32
  assumes "j < 4096"
  shows "unat ((address AND mask 12) + of_nat j) = unat address mod 4096 + j"
proof -
  have uj: "unat (of_nat j :: u32) = j" using assms by (simp add: unat_of_nat)
  have "unat address mod 4096 < 4096" by simp
  then show ?thesis
    using uj assms unat_page_offset [of address] by (subst unat_add_u32) linarith+
qed

lemma guest_phys_offset:
  assumes "baseaddr AND mask 12 = 0"
  shows "guest_phys baseaddr address AND mask 12 = address AND mask 12"
proof -
  note z = assms
  have "guest_phys baseaddr address = baseaddr + address" by (simp add: guest_phys_def)
  then show ?thesis using aligned_plus [OF z, of address] by simp
qed

lemma aligned_13_12: "b AND mask 13 = 0 \<Longrightarrow> b AND mask 12 = 0" for b :: u32
proof -
  assume "b AND mask 13 = 0"
  moreover have "b AND mask 12 = (b AND mask 13) AND mask 12" by (simp add: and.assoc mask_eq_exp_minus_1)
  ultimately show ?thesis by simp
qed

lemma window_flags:
  "(6 OR push_bit 3 (if c then 4 else 2)) AND NOT (mask 6) = (0 :: u32)"
  "(6 OR push_bit 3 (if c then 4 else 2)) AND 6 = (6 :: u32)"
  by (simp_all add: mask_eq_exp_minus_1)

lemma window_first_page:
  assumes b: "b AND mask 13 = 0" and base: "baseaddr AND mask 13 = 0"
    and k: "k = (address AND mask 12) + of_nat j" "unat k < 4096"
  shows "hw_translate wr (b + k) (entry_hw (window_entry address baseaddr sz i c))
    = Some (guest_phys baseaddr address + of_nat j)"
proof -
  let ?P = "guest_phys baseaddr address"
  have "hw_translate wr (b + k) (entry_hw (window_entry address baseaddr sz i c))
      = Some ((?P AND NOT (mask 12)) + (k AND mask 12))"
    using k(2) by (intro hw_translate_4k [OF _ b _ _ window_flags [of c]])
      (auto simp: entry_hw_def window_entry_def Let_def or.assoc)
  also have "k AND mask 12 = k" using k(2) by (intro small_and_mask) simp
  finally show ?thesis using split_at [of ?P 12] guest_phys_offset [OF aligned_13_12 [OF base], of address] k(1)
    by (simp add: add.assoc [symmetric])
qed

lemma next_page_bits:
  fixes P sz :: u32
  assumes "unat sz \<le> 4096" "4096 \<le> unat (P AND mask 12) + unat sz"
  shows "(P + sz) AND NOT (mask 12) = (P AND NOT (mask 12)) + 0x1000"
proof -
  let ?r = "(P AND mask 12) + sz - 0x1000"
  have lt: "unat (P AND mask 12) < 4096" using unat_and_mask_less [of P 12] by simp
  have usz: "unat ((P AND mask 12) + sz) = unat (P AND mask 12) + unat sz"
    using assms(1) lt by (subst unat_add_u32) linarith+
  have ur: "unat ?r = unat (P AND mask 12) + unat sz - 4096"
    using assms(2) usz by (subst unat_sub) (simp_all add: word_le_nat_alt)
  have r12: "?r AND mask 12 = ?r" using ur assms(1) lt by (intro small_and_mask) simp
  have al: "((P AND NOT (mask 12)) + 0x1000) AND mask 12 = 0"
    by (subst aligned_plus) (simp_all add: and.assoc mask_eq_exp_minus_1)
  have e: "P + sz = ((P AND NOT (mask 12)) + 0x1000) + ?r"
    using split_at [of P 12] by (simp add: algebra_simps)
  show ?thesis by (subst e) (rule aligned_add(2) [OF al r12])
qed

lemma window_second_page:
  assumes b: "b AND mask 13 = 0" and base: "baseaddr AND mask 13 = 0"
    and sz: "unat sz \<le> 4096" "unat address + unat sz < 4294967296" "j < unat sz"
    and k: "k = (address AND mask 12) + of_nat j" "4096 \<le> unat k"
  shows "hw_translate wr (b + k) (entry_hw (window_entry address baseaddr sz i c))
    = Some (guest_phys baseaddr address + of_nat j)"
proof -
  let ?P = "guest_phys baseaddr address"
  have uk: "unat k = unat address mod 4096 + j" using k(1) unat_buffer_offset sz by simp
  have k8: "unat k < 8192" using uk sz mod_less_divisor [of 4096 "unat address"] by linarith
  have np: "4096 \<le> unat address mod 4096 + unat sz" using k(2) uk sz(3) by linarith
  have P12: "?P AND mask 12 = address AND mask 12" by (rule guest_phys_offset [OF aligned_13_12 [OF base]])
  have pg: "(?P + sz) AND NOT (mask 12) = (?P AND NOT (mask 12)) + 0x1000"
    using sz(1) np unat_page_offset [of address] P12 by (intro next_page_bits) simp_all
  have u: "unat (k - 0x1000) = unat k - 4096"
    using k(2) by (subst unat_sub) (simp_all add: word_le_nat_alt)
  then have "(k - 0x1000) AND mask 12 = k - 0x1000" using k8 by (intro small_and_mask) simp
  then have "(0x1000 + (k - 0x1000)) AND mask 12 = k - 0x1000"
    by (intro aligned_add(1)) (simp_all add: mask_eq_exp_minus_1)
  then have km: "k AND mask 12 = (address AND mask 12) + of_nat j - 0x1000" using k(1) by simp
  have "hw_translate wr (b + k) (entry_hw (window_entry address baseaddr sz i c))
      = Some (((?P + sz) AND NOT (mask 12)) + (k AND mask 12))"
    using k(2) k8 np next_page_iff [OF sz(2)]
    by (intro hw_translate_4k [OF _ b _ _ window_flags [of c]])
      (auto simp: entry_hw_def window_entry_def Let_def or.assoc)
  also have "\<dots> = Some (?P + of_nat j)"
    unfolding pg km using split_at [of ?P 12] P12 by (simp add: algebra_simps)
  finally show ?thesis .
qed

theorem window_translate:
  assumes slot: "window_slot (unat i) s"
    and base: "baseaddr AND 0x1FFF = 0" "0x80000000 \<le> baseaddr" "baseaddr \<le> 0x9FFFE000"
    and sz: "unat sz \<le> 4096" "unat address + unat sz < 4294967296"
  obtains s1 where
    "tlbCreateEntry address baseaddr sz i use_cache s = Some (window_va use_cache baseaddr address, s1)"
    "\<And>j wr. j < unat sz \<Longrightarrow> root_translate wr (window_va use_cache baseaddr address + of_nat j) s1
       = Some (guest_phys baseaddr address + of_nat j)"
    "s1 = s\<lparr>cp0 := cp0 s1, tlb := (tlb s)[unat i := Some (entry_hw (window_entry address baseaddr sz i use_cache))]\<rparr>"
    "window_slot (unat i) s1"
proof -
  let ?e = "window_entry address baseaddr sz i use_cache"
  let ?K = "if use_cache then 0x80000000 else 0xA0000000 :: u32"
  let ?b = "baseaddr - ?K" and ?P = "guest_phys baseaddr address"
  have ti: "te_index ?e = i" by (simp add: window_entry_def Let_def)
  have l: "unat i < length (tlb s)" using slot by (simp add: window_slot_def)
  obtain c where
    w: "tlbEntryWrite ?e s = Some (s\<lparr>cp0 := c, tlb := (tlb s)[unat i := Some (entry_hw ?e)]\<rparr>)"
    and chi: "c (CP0_ENTRYHI, 0) = hw_hi (entry_hw ?e)"
    by (rule tlbEntryWrite_eq [of ?e s, unfolded ti, OF l], rule that)
  let ?s1 = "s\<lparr>cp0 := c, tlb := (tlb s)[unat i := Some (entry_hw ?e)]\<rparr>"
  have base0: "baseaddr AND mask 13 = 0" using base(1) by (simp add: mask_eq_exp_minus_1)
  have b0: "?b AND mask 13 = 0"
    using aligned_plus [OF base0, of "- ?K"] by (simp add: mask_eq_exp_minus_1)
  have hw: "hw_guestid (entry_hw ?e) = 0" "hw_mask (entry_hw ?e) = 0" "hw_hi (entry_hw ?e) = ?b"
    using hi_of_aligned [OF b0] by (auto simp: entry_hw_def window_entry_def Let_def)
  have tr: "root_translate wr (window_va use_cache baseaddr address + of_nat j) ?s1 = Some (?P + of_nat j)"
    if j: "j < unat sz" for j wr
  proof -
    define k :: u32 where k: "k = (address AND mask 12) + of_nat j"
    have uk: "unat k = unat address mod 4096 + j" using unat_buffer_offset j sz(1) k by simp
    have k8: "unat k < 8192" using uk j sz(1) mod_less_divisor [of 4096 "unat address"] by linarith
    have va: "window_va use_cache baseaddr address + of_nat j = ?b + k"
      by (simp add: window_va_def mask_12_13 k)
    have "k AND mask 13 = k" using k8 by (intro small_and_mask) simp
    then have match: "(?b + k) AND NOT (hw_pair_mask (entry_hw ?e)) =
        hw_hi (entry_hw ?e) AND NOT (hw_pair_mask (entry_hw ?e))"
      using aligned_add(2) [OF b0, of k] aligned_add(2) [OF b0, of 0] hw
      by (simp add: hw_pair_mask_def mask_12_13)
    have "root_translate wr (?b + k) ?s1 = hw_translate wr (?b + k) (entry_hw ?e)"
      by (rule root_translate_window [OF slot _ hw(1) _ match seg_ok [OF base(2,3) k8]])
        (simp_all add: mfc0_def chi)
    also have "\<dots> = Some (?P + of_nat j)"
      using window_first_page [OF b0 base0 k] window_second_page [OF b0 base0 sz j k]
      by (cases "unat k < 4096") simp_all
    finally show ?thesis by (simp only: va)
  qed
  have slot': "window_slot (unat i) ?s1" using slot by (simp add: window_slot_def)
  show thesis
    by (rule that [of ?s1]) (use tr slot' in \<open>simp_all add: tlbCreateEntry_eq w\<close>)
qed

text \<open>
  A base that is aligned to 4 KB and not to 8 KB lies in the odd page of its pair, but the first page of the buffer
  goes to the even one: the window misses. The bytes of the first page are not mapped, or, when the buffer reaches
  the end of its page, mapped to the page behind; those of the second page are not mapped.
\<close>

lemma hw_translate_unmapped:
  fixes k :: u32
  assumes "hw_mask e = 0" "b AND mask 13 = 0" "unat k < 8192" "4096 \<le> unat k" "hw_lo1 e AND 2 = 0"
  shows "hw_translate wr (b + k) e = None"
  using assms pair_half [OF assms(2,3)] by (simp add: hw_translate_def hw_pair_mask_def)

lemma root_translate_miss:
  assumes slot: "window_slot i s" and tlb': "tlb s' = (tlb s)[i := Some e]"
    and va: "va AND NOT (hw_pair_mask e) \<noteq> hw_hi e AND NOT (hw_pair_mask e)"
    and seg: "\<not> (0x80000000 \<le> va \<and> va < 0xC0000000)"
  shows "root_translate wr va s' = None"
proof -
  have "\<not> hw_match 0 asid va x" if "x \<in> set (List.map_filter id (tlb s'))" for x asid
  proof -
    from that have "Some x \<in> set (tlb s')" by (auto simp: List.map_filter_def)
    then obtain j where "j < length (tlb s)" "tlb s' ! j = Some x" unfolding tlb' by (auto simp: in_set_conv_nth)
    then show ?thesis using slot va unfolding tlb' by (cases "j = i") (auto simp: window_slot_def hw_match_def)
  qed
  then have "filter (hw_match 0 asid va) (List.map_filter id (tlb s')) = []" for asid by (simp add: filter_empty_conv)
  then show ?thesis unfolding root_translate_def if_not_P [OF seg] hw_lookup_def by simp
qed

lemma odd_page:
  fixes b :: u32
  assumes "b AND mask 13 = 0x1000"
  shows "(b - 0x1000) AND mask 13 = 0" "push_bit 12 (drop_bit 12 b) AND 0xFFFFE000 = b - 0x1000"
proof -
  have sp: "b = (b AND NOT (mask 13)) + 0x1000" using split_at [of b 13] assms by simp
  have eq: "b - 0x1000 = b AND NOT (mask 13)" using sp by (metis add_diff_cancel_right')
  show "(b - 0x1000) AND mask 13 = 0" unfolding eq by (simp add: and.assoc)
  have m: "0xFFFFE000 = NOT (mask 13 :: u32)" by (simp add: mask_eq_exp_minus_1)
  show "push_bit 12 (drop_bit 12 b) AND 0xFFFFE000 = b - 0x1000"
    unfolding m eq by (rule bit_word_eqI) (auto simp: bit_simps)
qed

lemma page_parity:
  fixes b :: u32
  assumes "b AND 0xFFF = 0"
  obtains "b AND 0x1FFF = 0" | "b AND 0x1FFF = 0x1000"
proof -
  have u: "unat (b AND mask k) = unat b mod 2 ^ k" for k
    unfolding take_bit_eq_mask [symmetric] by (simp only: unsigned_take_bit_eq) (simp add: take_bit_eq_mod)
  have "unat b mod 4096 = 0" using u [of 12] assms by (simp add: mask_eq_exp_minus_1)
  then have "unat b mod 8192 = 4096 * (unat b div 4096 mod 2)" using mod_mult2_eq [of "unat b" 4096 2] by simp
  then have "unat (b AND 0x1FFF) = 4096 * (unat b div 4096 mod 2)" using u [of 13] by (simp add: mask_eq_exp_minus_1)
  moreover have "unat b div 4096 mod 2 = 0 \<or> unat b div 4096 mod 2 = 1" by auto
  ultimately have "unat (b AND 0x1FFF) = unat (0 :: u32) \<or> unat (b AND 0x1FFF) = unat (0x1000 :: u32)" by auto
  then have "b AND 0x1FFF = 0 \<or> b AND 0x1FFF = 0x1000" unfolding word_unat_eq_iff .
  then show thesis using that by blast
qed

lemma window_odd_page:
  assumes slot: "window_slot (unat i) s"
    and base: "baseaddr AND 0x1FFF = 0x1000" "0x80000000 \<le> baseaddr" "baseaddr \<le> 0x9FFFE000"
    and sz: "unat sz \<le> 4096" "unat address + unat sz < 4294967296"
  obtains s1 where
    "tlbCreateEntry address baseaddr sz i use_cache s = Some (window_va use_cache baseaddr address, s1)"
    "\<And>j wr. j < unat sz \<Longrightarrow> root_translate wr (window_va use_cache baseaddr address + of_nat j) s1 =
       (if 4096 \<le> unat address mod 4096 + unat sz \<and> unat address mod 4096 + j < 4096
        then Some (guest_phys baseaddr address + 0x1000 + of_nat j) else None)"
    "tlb s1 = (tlb s)[unat i := Some (entry_hw (window_entry address baseaddr sz i use_cache))]"
proof -
  let ?e = "window_entry address baseaddr sz i use_cache"
  let ?K = "if use_cache then 0x80000000 else 0xA0000000 :: u32"
  let ?P = "guest_phys baseaddr address"
  define b where "b = baseaddr - ?K"
  have ti: "te_index ?e = i" by (simp add: window_entry_def Let_def)
  have l: "unat i < length (tlb s)" using slot by (simp add: window_slot_def)
  obtain c where
    w: "tlbEntryWrite ?e s = Some (s\<lparr>cp0 := c, tlb := (tlb s)[unat i := Some (entry_hw ?e)]\<rparr>)"
    and chi: "c (CP0_ENTRYHI, 0) = hw_hi (entry_hw ?e)"
    by (rule tlbEntryWrite_eq [of ?e s, unfolded ti, OF l], rule that)
  let ?s1 = "s\<lparr>cp0 := c, tlb := (tlb s)[unat i := Some (entry_hw ?e)]\<rparr>"
  have K: "- ?K AND mask 13 = 0" by (simp add: mask_eq_exp_minus_1)
  have bm: "baseaddr AND mask 13 = 0x1000" using base(1) by (simp add: mask_eq_exp_minus_1)
  have b1: "b AND mask 13 = 0x1000" unfolding b_def using aligned_plus [OF K, of baseaddr] bm by (simp add: add.commute)
  note b0 = odd_page [OF b1]
  have base12: "baseaddr AND mask 12 = 0"
  proof -
    have "baseaddr AND mask 12 = (baseaddr AND mask 13) AND mask 12" by (simp add: and.assoc mask_eq_exp_minus_1)
    then show ?thesis unfolding bm by (simp add: mask_eq_exp_minus_1)
  qed
  have P12: "?P AND mask 12 = address AND mask 12" by (rule guest_phys_offset [OF base12])
  have hw: "hw_guestid (entry_hw ?e) = 0" "hw_mask (entry_hw ?e) = 0" "hw_hi (entry_hw ?e) = b - 0x1000"
    using b0(2) unfolding b_def by (auto simp: entry_hw_def window_entry_def Let_def)
  have tr: "root_translate wr (window_va use_cache baseaddr address + of_nat j) ?s1 =
      (if 4096 \<le> unat address mod 4096 + unat sz \<and> unat address mod 4096 + j < 4096 then Some (?P + 0x1000 + of_nat j) else None)"
    if j: "j < unat sz" for j wr
  proof -
    define k :: u32 where k: "k = (address AND mask 12) + of_nat j"
    have uk: "unat k = unat address mod 4096 + j" using unat_buffer_offset j sz(1) k by simp
    have k8: "unat k < 8192" using uk j sz(1) mod_less_divisor [of 4096 "unat address"] by linarith
    have va: "window_va use_cache baseaddr address + of_nat j = b + k"
      by (simp add: window_va_def mask_12_13 k b_def)
    have va': "b + k = (b - 0x1000) + (0x1000 + k)" by simp
    note seg = seg_ok [OF base(2,3) k8, of use_cache, folded b_def]
    have u1: "unat (0x1000 + k) = 4096 + unat k" using k8 by (subst unat_add_u32) simp_all
    show ?thesis
    proof (cases "unat k < 4096")
      case True
      have "(0x1000 + k) AND mask 13 = 0x1000 + k" using u1 True by (intro small_and_mask) simp
      then have match: "(b + k) AND NOT (hw_pair_mask (entry_hw ?e)) =
          hw_hi (entry_hw ?e) AND NOT (hw_pair_mask (entry_hw ?e))"
        using aligned_add(2) [OF b0(1), of "0x1000 + k"] aligned_add(2) [OF b0(1), of 0] hw
        by (simp add: hw_pair_mask_def mask_12_13)
      have rt: "root_translate wr (b + k) ?s1 = hw_translate wr ((b - 0x1000) + (0x1000 + k)) (entry_hw ?e)"
        unfolding va' [symmetric] by (rule root_translate_window [OF slot _ hw(1) _ match seg]) (simp_all add: mfc0_def chi)
      have h: "unat (0x1000 + k) < 8192" "4096 \<le> unat (0x1000 + k)" using u1 True by simp_all
      show ?thesis
      proof (cases "4096 \<le> unat address mod 4096 + unat sz")
        case np: True
        have pg: "(?P + sz) AND NOT (mask 12) = (?P AND NOT (mask 12)) + 0x1000"
          using sz(1) np unat_page_offset [of address] P12 by (intro next_page_bits) simp_all
        have "k AND mask 12 = k" using True by (intro small_and_mask) simp
        moreover have "(0x1000 + k) AND mask 12 = k AND mask 12"
          by (rule aligned_plus) (simp add: mask_eq_exp_minus_1)
        ultimately have km: "(0x1000 + k) AND mask 12 = k" by simp
        have "hw_translate wr ((b - 0x1000) + (0x1000 + k)) (entry_hw ?e)
            = Some (((?P + sz) AND NOT (mask 12)) + ((0x1000 + k) AND mask 12))"
          using h np next_page_iff [OF sz(2)]
          by (intro hw_translate_4k [OF _ b0(1) _ _ window_flags [of use_cache]])
            (auto simp: entry_hw_def window_entry_def Let_def or.assoc)
        also have "\<dots> = Some (?P + 0x1000 + of_nat j)"
          unfolding pg km using split_at [of ?P 12] P12 k by (simp add: algebra_simps)
        finally show ?thesis using rt va np True uk by simp
      next
        case False
        have "hw_lo1 (entry_hw ?e) AND 2 = 0"
          using False next_page_iff [OF sz(2)] by (simp add: entry_hw_def window_entry_def Let_def)
        then show ?thesis using hw_translate_unmapped [OF hw(2) b0(1) h] rt va False by simp
      qed
    next
      case False
      have hm: "hw_hi (entry_hw ?e) AND NOT (hw_pair_mask (entry_hw ?e)) = b - 0x1000"
        using aligned_add(2) [OF b0(1), of 0] hw by (simp add: hw_pair_mask_def mask_12_13)
      have u2: "unat (k - 0x1000) = unat k - 4096" using False by (subst unat_sub) (simp_all add: word_le_nat_alt)
      have al: "((b - 0x1000) + 0x2000) AND mask 13 = 0"
        using aligned_plus [OF b0(1), of "0x2000"] by (simp add: mask_eq_exp_minus_1)
      have "(k - 0x1000) AND mask 13 = k - 0x1000" using u2 k8 by (intro small_and_mask) simp
      from aligned_add(2) [OF al this] have "(b + k) AND NOT (mask 13) = b + 0x1000" by simp
      then have vm: "(b + k) AND NOT (hw_pair_mask (entry_hw ?e)) = b + 0x1000"
        using hw(2) by (simp add: hw_pair_mask_def mask_12_13)
      have "b + 0x1000 \<noteq> b - 0x1000"
      proof
        assume "b + 0x1000 = b - 0x1000"
        then have "(0x1000 :: u32) = - 0x1000" by (metis add_left_imp_eq diff_conv_add_uminus)
        then show False by simp
      qed
      then have "root_translate wr (b + k) ?s1 = None"
        using hm vm by (intro root_translate_miss [OF slot _ _ seg, where e = "entry_hw ?e"]) simp_all
      then show ?thesis using va False uk by simp
    qed
  qed
  show thesis
    by (rule that [of ?s1]) (use tr in \<open>simp_all add: tlbCreateEntry_eq w\<close>)
qed

subsection \<open>Copies through a window\<close>

definition maps_to :: "hv \<Rightarrow> u32 \<Rightarrow> u32 \<Rightarrow> nat \<Rightarrow> bool" where
  "maps_to s va pa n \<longleftrightarrow>
     (\<forall>j<n. \<forall>wr. root_translate wr (va + of_nat j) s = Some (pa + of_nat j) \<and> is_ram s (pa + of_nat j))"

definition bytes_at :: "(u32 \<Rightarrow> u8) \<Rightarrow> u32 \<Rightarrow> nat \<Rightarrow> u8 list" where
  "bytes_at m pa n = map (\<lambda>j. m (pa + of_nat j)) [0..<n]"

lemma bytes_at_Suc: "bytes_at m pa (Suc n) = m pa # bytes_at m (pa + 1) n"
  unfolding bytes_at_def upt_map_Suc_shift by (simp add: add.assoc)

definition put_bytes :: "(u32 \<Rightarrow> u8) \<Rightarrow> u32 \<Rightarrow> u8 list \<Rightarrow> u32 \<Rightarrow> u8" where
  "put_bytes m pa bs a = (if unat (a - pa) < length bs then bs ! unat (a - pa) else m a)"

lemma maps_toD:
  "maps_to s va pa n \<Longrightarrow> j < n \<Longrightarrow> root_translate wr (va + of_nat j) s = Some (pa + of_nat j)"
  "maps_to s va pa n \<Longrightarrow> j < n \<Longrightarrow> is_ram s (pa + of_nat j)"
  by (simp_all add: maps_to_def)

lemma maps_to_Suc: "maps_to s va pa (Suc n) \<Longrightarrow> maps_to s (va + 1) (pa + 1) n"
proof -
  assume m: "maps_to s va pa (Suc n)"
  have "root_translate wr (va + 1 + of_nat j) s = Some (pa + 1 + of_nat j) \<and> is_ram s (pa + 1 + of_nat j)"
    if "j < n" for j wr
    using maps_toD(1) [OF m, of "Suc j" wr] maps_toD(2) [OF m, of "Suc j"] that
    by (simp add: add.assoc)
  then show ?thesis by (simp add: maps_to_def)
qed

lemma maps_to_0: "maps_to s va pa (Suc n) \<Longrightarrow> root_translate wr va s = Some pa \<and> is_ram s pa"
  using maps_toD(1) [of s va pa "Suc n" 0 wr] maps_toD(2) [of s va pa "Suc n" 0] by simp

lemma maps_to_mem [simp]: "maps_to (s\<lparr>mem := m\<rparr>) va pa n = maps_to s va pa n"
  by (simp add: maps_to_def root_translate_def hw_lookup_def mfc0_def is_ram_def)

lemma ld_bytes_maps:
  "maps_to s va pa n \<Longrightarrow> ld_bytes va n s = Some (bytes_at (mem s) pa n, s)"
proof (induction n arbitrary: va pa)
  case 0
  then show ?case by (simp add: bytes_at_def)
next
  case (Suc n)
  have "bytes_at (mem s) pa (Suc n) = mem s pa # bytes_at (mem s) (pa + 1) n"
    unfolding bytes_at_def upt_map_Suc_shift by (simp add: add.assoc)
  then show ?case
    using Suc.IH [OF maps_to_Suc [OF Suc.prems]] maps_to_0 [OF Suc.prems]
    by (simp add: ld8_def)
qed

lemma put_bytes_Cons:
  assumes "length bs < 2 ^ 32 - 1"
  shows "put_bytes (m(pa := b)) (pa + 1) bs = put_bytes m pa (b # bs)"
proof
  fix a
  show "put_bytes (m(pa := b)) (pa + 1) bs a = put_bytes m pa (b # bs) a"
  proof (cases "a = pa")
    case True
    have "unat (pa - (pa + 1)) = 2 ^ 32 - 1"
      by (simp add: unsigned_minus_1_eq_mask mask_eq_exp_minus_1)
    then show ?thesis using True assms by (simp add: put_bytes_def)
  next
    case False
    then have nz: "a - pa \<noteq> 0" by simp
    then have "unat (a - pa - 1) = unat (a - pa) - 1" by (rule unat_minus_one)
    moreover have "0 < unat (a - pa)" using nz by (simp add: unat_gt_0)
    moreover have "a - (pa + 1) = a - pa - 1" by simp
    ultimately have "unat (a - pa) = Suc (unat (a - (pa + 1)))" by (simp only:)
    then show ?thesis using False by (simp add: put_bytes_def)
  qed
qed

lemma st_bytes_maps:
  "maps_to s va pa (length bs) \<Longrightarrow> length bs < 2 ^ 32 \<Longrightarrow>
     st_bytes va bs s = Some (s\<lparr>mem := put_bytes (mem s) pa bs\<rparr>)"
proof (induction bs arbitrary: va pa s)
  case Nil
  then show ?case by (simp add: put_bytes_def)
next
  case (Cons b bs)
  have m: "maps_to s va pa (Suc (length bs))" using Cons.prems by simp
  show ?case
    using Cons.IH [of "s\<lparr>mem := (mem s)(pa := b)\<rparr>" "va + 1" "pa + 1"]
      maps_to_Suc [OF m] maps_to_0 [OF m, of True] put_bytes_Cons [of bs "mem s" pa b] Cons.prems
    by (simp add: st8_def del: fun_upd_apply)
qed

text \<open>The window of \<open>tlbCreateEntry\<close> on RAM.\<close>

lemma window_any_page:
  assumes "window_slot (unat i) s" "baseaddr AND 0x1FFF = 0" "0x80000000 \<le> baseaddr" "baseaddr \<le> 0x9FFFE000"
    and "pa - baseaddr \<noteq> - 1"
  shows "\<exists>va s1. tlbCreateEntry (pa - baseaddr) baseaddr 1 i use_cache s = Some (va, s1) \<and>
    root_translate wr va s1 = Some pa"
proof -
  have "unat (pa - baseaddr) \<noteq> unat (- 1 :: u32)" using assms(5) by (metis word_unat_eq_iff)
  moreover have "unat (- 1 :: u32) = 4294967295" by (simp add: unsigned_minus_1_eq_mask mask_eq_exp_minus_1)
  ultimately have n: "unat (1 :: u32) \<le> 4096" "unat (pa - baseaddr) + unat (1 :: u32) < 4294967296"
    using unat_u32_less [of "pa - baseaddr"] by simp_all
  obtain s1 where s1: "tlbCreateEntry (pa - baseaddr) baseaddr 1 i use_cache s =
      Some (window_va use_cache baseaddr (pa - baseaddr), s1)"
    "\<And>j wr. j < unat (1 :: u32) \<Longrightarrow> root_translate wr (window_va use_cache baseaddr (pa - baseaddr) + of_nat j) s1
       = Some (guest_phys baseaddr (pa - baseaddr) + of_nat j)"
    using window_translate [OF assms(1-4) n, of use_cache] by metis
  have "guest_phys baseaddr (pa - baseaddr) = pa" by (simp add: guest_phys_def)
  then show ?thesis using s1(1) s1(2) [of 0 wr] by auto
qed

lemma window_maps:
  assumes "window_slot (unat i) s"
    and "baseaddr AND 0x1FFF = 0" "0x80000000 \<le> baseaddr" "baseaddr \<le> 0x9FFFE000"
    and "unat sz \<le> 4096" "unat address + unat sz < 4294967296"
    and ram: "\<And>j. j < unat sz \<Longrightarrow> is_ram s (guest_phys baseaddr address + of_nat j)"
  obtains s1 where
    "tlbCreateEntry address baseaddr sz i use_cache s = Some (window_va use_cache baseaddr address, s1)"
    "maps_to s1 (window_va use_cache baseaddr address) (guest_phys baseaddr address) (unat sz)"
    "s1 = s\<lparr>cp0 := cp0 s1, tlb := (tlb s)[unat i := Some (entry_hw (window_entry address baseaddr sz i use_cache))]\<rparr>"
    "window_slot (unat i) s1"
proof -
  obtain s1 where 1:
    "tlbCreateEntry address baseaddr sz i use_cache s = Some (window_va use_cache baseaddr address, s1)"
    "\<And>j wr. j < unat sz \<Longrightarrow> root_translate wr (window_va use_cache baseaddr address + of_nat j) s1
       = Some (guest_phys baseaddr address + of_nat j)"
    "s1 = s\<lparr>cp0 := cp0 s1, tlb := (tlb s)[unat i := Some (entry_hw (window_entry address baseaddr sz i use_cache))]\<rparr>"
    "window_slot (unat i) s1"
    using window_translate [OF assms(1-6), of use_cache] by metis
  have "conf s1 = conf s" by (subst 1(3)) simp
  then have "maps_to s1 (window_va use_cache baseaddr address) (guest_phys baseaddr address) (unat sz)"
    using 1(2) ram by (simp add: maps_to_def is_ram_def)
  then show thesis using that [OF 1(1) _ 1(3,4)] by blast
qed

end
