(* ===== verification/Vcpu.thy ===== *)
theory Vcpu
  imports TlbMap
begin

text \<open>
  VCPU contexts: the guest's general purpose registers (\<open>gpr_context.c\<close> of the Baikal port,
  the shadow set macros and the empty routines of the PIC32MZ port) and the context switch of
  \<open>arch/mips/common/vcpu.c\<close>.
\<close>

subsection \<open>Guest general purpose registers\<close>

text \<open>The saved registers are 34 words below the stack top; a register save area has as many.\<close>

fun copy_words34 :: "nat \<Rightarrow> (nat \<Rightarrow> u32) \<Rightarrow> (nat \<Rightarrow> u32) \<Rightarrow> nat \<Rightarrow> u32" where
  "copy_words34 0 src dst = dst"
| "copy_words34 (Suc n) src dst = (copy_words34 n src dst)(n := src n)"

definition gpr_context_save :: "nat \<Rightarrow> hv \<Rightarrow> hv" where
  "gpr_context_save gpr_p s =
     (case c_port (conf s) of
        PIC32MZ \<Rightarrow> s
      | BAIKAL_T1 \<Rightarrow>
          s\<lparr>gpr_areas := (gpr_areas s)(gpr_p := copy_words34 34 (frame s) (gpr_areas s gpr_p))\<rparr>)"

definition gpr_context_restore :: "nat \<Rightarrow> hv \<Rightarrow> hv" where
  "gpr_context_restore gpr_p s =
     (case c_port (conf s) of
        PIC32MZ \<Rightarrow> s
      | BAIKAL_T1 \<Rightarrow> s\<lparr>frame := copy_words34 34 (gpr_areas s gpr_p) (frame s)\<rparr>)"

definition MoveToPreviousGuestGPR :: "nat \<Rightarrow> u32 \<Rightarrow> hv \<Rightarrow> hv" where
  "MoveToPreviousGuestGPR reg value s =
     (case c_port (conf s) of
        PIC32MZ \<Rightarrow>
          (let k = unat (getPreviousShadowSet s) in
           s\<lparr>shadow := (shadow s)(k := (shadow s k)(reg := value))\<rparr>)
      | BAIKAL_T1 \<Rightarrow> s\<lparr>frame := (frame s)(reg := value)\<rparr>)"

definition MoveFromPreviousGuestGPR :: "nat \<Rightarrow> hv \<Rightarrow> u32" where
  "MoveFromPreviousGuestGPR reg s =
     (case c_port (conf s) of
        PIC32MZ \<Rightarrow> shadow s (unat (getPreviousShadowSet s)) reg
      | BAIKAL_T1 \<Rightarrow> frame s reg)"

subsection \<open>Context switch\<close>

text \<open>The guest CP0 registers kept in \<open>cp0_registers[0..15]\<close>.\<close>

definition saved_cp0 :: "(nat \<times> nat) list" where
  "saved_cp0 = [(4,0), (6,0), (8,0), (11,0), (12,0), (12,1), (12,2), (12,3), (13,0), (14,0),
                (14,2), (15,1), (16,0), (17,0), (16,3), (30,0)]"

definition contextSave :: "hv \<Rightarrow> hv option" where
  "contextSave s =
     (case vcpu_executing s of
        None \<Rightarrow> Some s
      | Some p \<Rightarrow>
          do { v \<leftarrow> vcpus s p;
               if vc_init v = 0
               then
                 (let v1 = v\<lparr>cp0_registers := map (\<lambda>(r, sel). mfgc0 r sel s) saved_cp0,
                             guestclt2 := guestclt2 v OR getGuestCTL2 s,
                             pc := getEPC s\<rparr>;
                      s1 = s\<lparr>vcpus := (vcpus s)(p \<mapsto> v1)\<rparr>
                  in Some (case gpr v of None \<Rightarrow> s1 | Some g \<Rightarrow> gpr_context_save g s1))
               else Some s })"

definition config_idle_cpu :: "hv \<Rightarrow> hv" where
  "config_idle_cpu s = setEPC (cpu_idle_addr (conf s)) (clearGuestMode (setGuestID 0 s))"

text \<open>The registers written back: \<open>Compare\<close>, index 3, is not among them.\<close>

definition restored_cp0 :: "((nat \<times> nat) \<times> nat) list" where
  "restored_cp0 = [((4,0), 0), ((6,0), 1), ((8,0), 2), ((12,0), 4), ((12,1), 5), ((12,2), 6),
                   ((12,3), 7), ((13,0), 8), ((14,0), 9), ((14,2), 10), ((15,1), 11), ((16,0), 12),
                   ((17,0), 13), ((16,3), 14), ((30,0), 15)]"

fun restore_regs :: "((nat \<times> nat) \<times> nat) list \<Rightarrow> u32 list \<Rightarrow> hv \<Rightarrow> hv" where
  "restore_regs [] regs s = s"
| "restore_regs (((r, sel), i) # rs) regs s = restore_regs rs regs (mtgc0 r sel (regs ! i) s)"

definition contextRestore :: "hv \<Rightarrow> hv option" where
  "contextRestore s =
     (case vcpu_executing s of
        None \<Rightarrow> Some (config_idle_cpu s)
      | Some p \<Rightarrow>
          do { v \<leftarrow> vcpus s p;
               let s1 = (if gprshadowset v \<noteq> 0
                         then setLowestGShadow (gprshadowset v) (setPreviousShadowSet (gprshadowset v) s)
                         else s);
               let s2 = setGuestMode (setGuestID (vc_ident v) s1);
               let v1 = v\<lparr>vc_init := 0\<rparr>;
               let s3 = restore_regs restored_cp0 (cp0_registers v1) s2;
               let s4 = setGuestCTL2 (guestclt2 v1) s3;
               let v2 = v1\<lparr>guestclt2 := guestclt2 v1 AND
                             NOT (push_bit GUESTCLT2_GRIPL_SHIFT (GUEST_TIMER_INT (c_port (conf s))))\<rparr>;
               let s5 = setEPC (pc v2) (s4\<lparr>vcpus := (vcpus s4)(p \<mapsto> v2)\<rparr>);
               Some (case gpr v2 of None \<Rightarrow> s5 | Some g \<Rightarrow> gpr_context_restore g s5) })"

subsection \<open>Lemmas\<close>

lemma copy_words34_apply: "copy_words34 n src dst i = (if i < n then src i else dst i)"
  by (induction n) auto

lemma MoveTo_fields [hv_simps]:
  "conf (MoveToPreviousGuestGPR r v s) = conf s" "vcpus (MoveToPreviousGuestGPR r v s) = vcpus s"
  "vms (MoveToPreviousGuestGPR r v s) = vms s" "mem (MoveToPreviousGuestGPR r v s) = mem s"
  "cp0 (MoveToPreviousGuestGPR r v s) = cp0 s" "tlb (MoveToPreviousGuestGPR r v s) = tlb s"
  "io (MoveToPreviousGuestGPR r v s) = io s" "pending (MoveToPreviousGuestGPR r v s) = pending s"
  "vcpu_executing (MoveToPreviousGuestGPR r v s) = vcpu_executing s"
  "vcpu_ready_list (MoveToPreviousGuestGPR r v s) = vcpu_ready_list s"
  by (auto simp: MoveToPreviousGuestGPR_def Let_def split: port.split)

lemma MoveFrom_MoveTo [hv_simps]:
  "MoveFromPreviousGuestGPR r (MoveToPreviousGuestGPR r' v s) =
     (if r = r' then v else MoveFromPreviousGuestGPR r s)"
  by (auto simp: MoveToPreviousGuestGPR_def MoveFromPreviousGuestGPR_def getPreviousShadowSet_def
      mfc0_def Let_def split: port.split)

lemma restore_regs_other [hv_simps]:
  "conf (restore_regs rs regs s) = conf s" "cp0 (restore_regs rs regs s) = cp0 s"
  "vcpus (restore_regs rs regs s) = vcpus s" "gpr_areas (restore_regs rs regs s) = gpr_areas s"
  "frame (restore_regs rs regs s) = frame s" "vms (restore_regs rs regs s) = vms s"
  "vcpu_executing (restore_regs rs regs s) = vcpu_executing s" "mem (restore_regs rs regs s) = mem s"
  "vcpu_ready_list (restore_regs rs regs s) = vcpu_ready_list s" "tlb (restore_regs rs regs s) = tlb s"
  "pending (restore_regs rs regs s) = pending s" "tick_count (restore_regs rs regs s) = tick_count s"
  by (induction rs regs s rule: restore_regs.induct) (auto simp: mtgc0_def)

lemma restore_regs_gcp0:
  "distinct (map fst rs) \<Longrightarrow>
     gcp0 (restore_regs rs regs s) k = (case map_of rs k of None \<Rightarrow> gcp0 s k | Some i \<Rightarrow> regs ! i)"
  by (induction rs regs s rule: restore_regs.induct)
    (auto simp: mtgc0_def map_of_eq_None_iff [THEN iffD2] split: option.splits dest: map_of_SomeD intro: rev_image_eqI)

lemma restored_of_saved:
  "k \<in> set saved_cp0 \<Longrightarrow> k \<noteq> (11, 0) \<Longrightarrow>
     \<exists>i. map_of restored_cp0 k = Some i \<and> i < length saved_cp0 \<and> saved_cp0 ! i = k"
  by (auto simp: saved_cp0_def restored_cp0_def)

lemma contextSave_eq:
  assumes "vcpu_executing s = Some p" "vcpus s p = Some v" "vc_init v = 0"
  defines "v1 \<equiv> v\<lparr>cp0_registers := map (\<lambda>(r, sel). mfgc0 r sel s) saved_cp0,
       guestclt2 := guestclt2 v OR getGuestCTL2 s, pc := getEPC s\<rparr>"
  shows "contextSave s = Some (let s1 = s\<lparr>vcpus := (vcpus s)(p \<mapsto> v1)\<rparr> in
    case gpr v of None \<Rightarrow> s1 | Some g \<Rightarrow> gpr_context_save g s1)"
  using assms by (simp add: contextSave_def Let_def)

lemma gpr_context_save_fields [hv_simps]:
  "vcpus (gpr_context_save g s) = vcpus s" "conf (gpr_context_save g s) = conf s"
  "vcpu_executing (gpr_context_save g s) = vcpu_executing s" "cp0 (gpr_context_save g s) = cp0 s"
  "vcpu_ready_list (gpr_context_save g s) = vcpu_ready_list s" "pending (gpr_context_save g s) = pending s"
  "tick_count (gpr_context_save g s) = tick_count s" "vms (gpr_context_save g s) = vms s"
  "tlb (gpr_context_save g s) = tlb s" "mem (gpr_context_save g s) = mem s"
  by (simp_all add: gpr_context_save_def split: port.split)

lemma contextSave_vcpu:
  assumes "contextSave s = Some s1" "vcpu_executing s = Some p" "vcpus s p = Some v" "vc_init v = 0"
  shows "vcpus s1 p = Some (v\<lparr>cp0_registers := map (\<lambda>(r, sel). mfgc0 r sel s) saved_cp0,
       guestclt2 := guestclt2 v OR getGuestCTL2 s, pc := getEPC s\<rparr>)"
    "gpr v = Some g \<Longrightarrow> c_port (conf s) = BAIKAL_T1 \<Longrightarrow> i < 34 \<Longrightarrow> gpr_areas s1 g i = frame s i"
  using assms(1) unfolding contextSave_eq [OF assms(2-4)]
  by (auto simp: Let_def hv_simps gpr_context_save_def copy_words34_apply split: option.splits port.splits)

lemma contextRestore_eq:
  assumes "vcpu_executing s = Some p" "vcpus s p = Some v"
  obtains s1 where "contextRestore s = Some s1" "conf s1 = conf s"
    "vcpus s1 = (vcpus s)(p \<mapsto> v\<lparr>vc_init := 0, guestclt2 := guestclt2 v AND
       NOT (push_bit GUESTCLT2_GRIPL_SHIFT (GUEST_TIMER_INT (c_port (conf s))))\<rparr>)"
    "\<And>k i. map_of restored_cp0 k = Some i \<Longrightarrow> gcp0 s1 k = cp0_registers v ! i"
    "getEPC s1 = pc v" "getGuestCTL2 s1 = guestclt2 v"
    "mfc0 CP0_GUESTCTL1 4 s1 = (mfc0 CP0_GUESTCTL1 4 s AND NOT GUESTCTL1_ID) OR vc_ident v"
    "\<And>g j. gpr v = Some g \<Longrightarrow> c_port (conf s) = BAIKAL_T1 \<Longrightarrow> j < 34 \<Longrightarrow> frame s1 j = gpr_areas s g j"
    "vcpu_executing s1 = Some p" "vcpu_ready_list s1 = vcpu_ready_list s" "pending s1 = pending s"
    "tick_count s1 = tick_count s" "vms s1 = vms s" "tlb s1 = tlb s"
proof -
  have d: "distinct (map fst restored_cp0)" by (simp add: restored_cp0_def)
  show thesis
    by (rule that [of "the (contextRestore s)"]; cases "gpr v"; cases "gprshadowset v = 0")
      (simp_all add: contextRestore_def assms Let_def hv_simps restore_regs_gcp0 [OF d]
        gpr_context_restore_def copy_words34_apply getEPC_def setEPC_def setGuestCTL2_def getGuestCTL2_def
        setGuestID_def setGuestMode_def setLowestGShadow_def setPreviousShadowSet_def mfc0_def mtc0_def
        split: port.split)
qed

text \<open>A saved context comes back, whatever ran in between.\<close>

lemma context_roundtrip_aux:
  assumes s: "vcpu_executing s = Some p" "vcpus s p = Some v" "vc_init v = 0"
    and save: "contextSave s = Some s1"
    and t: "vcpu_executing t = Some p" "vcpus t p = vcpus s1 p" "gpr_areas t = gpr_areas s1" "conf t = conf s"
  shows "\<exists>t'. contextRestore t = Some t' \<and>
    (\<forall>k\<in>set saved_cp0 - {(11, 0)}. gcp0 t' k = gcp0 s k) \<and> getEPC t' = getEPC s \<and>
    (\<forall>g. gpr v = Some g \<longrightarrow> c_port (conf s) = BAIKAL_T1 \<longrightarrow> (\<forall>i<34. frame t' i = frame s i))"
proof -
  let ?v = "v\<lparr>cp0_registers := map (\<lambda>(r, sel). mfgc0 r sel s) saved_cp0,
       guestclt2 := guestclt2 v OR getGuestCTL2 s, pc := getEPC s\<rparr>"
  have vt: "vcpus t p = Some ?v" using contextSave_vcpu(1) [OF save s] t(2) by simp
  note area = contextSave_vcpu(2) [OF save s]
  obtain t' where t': "contextRestore t = Some t'"
    "\<And>k i. map_of restored_cp0 k = Some i \<Longrightarrow> gcp0 t' k = cp0_registers ?v ! i"
    "getEPC t' = pc ?v"
    "\<And>g j. gpr ?v = Some g \<Longrightarrow> c_port (conf t) = BAIKAL_T1 \<Longrightarrow> j < 34 \<Longrightarrow> frame t' j = gpr_areas t g j"
    by (rule contextRestore_eq [OF t(1) vt], rule that)
  have "gcp0 t' k = gcp0 s k" if k: "k \<in> set saved_cp0" "k \<noteq> (11, 0)" for k
  proof -
    from restored_of_saved [OF k] obtain i where
      "map_of restored_cp0 k = Some i" "i < length saved_cp0" "saved_cp0 ! i = k" by blast
    then show ?thesis using t'(2) by (cases k) (simp add: mfgc0_def)
  qed
  then show ?thesis using t'(1,3,4) area t(3,4) by auto
qed

end
