(* ===== verification/Scheduler.thy ===== *)
theory Scheduler
  imports Vcpu
begin

text \<open>
  The scheduler of \<open>sys/kernel/scheduler.c\<close>: a search that rotates the ready list once and
  picks a critical VCPU at sight or else the smallest remaining priority, a second rotation that
  ages the others, and the decision when to switch. \<open>CRITICAL\<close> is \<open>None\<close>.
\<close>

subsection \<open>Operations\<close>

text \<open>One step of either loop: the head of the ready list goes to its tail.\<close>

definition rotate_ready :: "hv \<Rightarrow> (nat \<times> hv) option" where
  "rotate_ready s =
     do { q \<leftarrow> vcpu_ready_list s;
          (r, q1) \<leftarrow> queue_remhead q;
          p \<leftarrow> r;
          (rc, q2) \<leftarrow> queue_addtail q1 p;
          ensure (rc = 0);
          Some (p, s\<lparr>vcpu_ready_list := Some q2\<rparr>) }"

text \<open>The search: \<open>Inl p\<close> is the early return, \<open>Inr aux\<close> the best VCPU at the end.\<close>

fun rr_search :: "nat \<Rightarrow> u32 \<Rightarrow> nat option \<Rightarrow> hv \<Rightarrow> ((nat + nat option) \<times> hv) option" where
  "rr_search 0 highestp aux s = Some (Inr aux, s)"
| "rr_search (Suc n) highestp aux s =
     do { (p, s1) \<leftarrow> rotate_ready s;
          v \<leftarrow> vcpus s1 p;
          if critical v \<noteq> 0 \<and> state v = VCPU_RUNNING
          then Some (Inl p, s1\<lparr>vcpus := (vcpus s1)(p \<mapsto> v\<lparr>critical := 0, bgjobs := bgjobs v + 1\<rparr>),
                              pending := pending s1 - 1\<rparr>)
          else if priority_rem v < highestp \<and> state v = VCPU_RUNNING
          then rr_search n (priority_rem v) (Some p) s1
          else rr_search n highestp aux s1 }"

fun rr_age :: "nat \<Rightarrow> nat \<Rightarrow> hv \<Rightarrow> hv option" where
  "rr_age 0 best s = Some s"
| "rr_age (Suc n) best s =
     do { (p, s1) \<leftarrow> rotate_ready s;
          v \<leftarrow> vcpus s1 p;
          b \<leftarrow> vcpus s1 best;
          rr_age n best
            (if p \<noteq> best \<and> state v = VCPU_RUNNING
             then s1\<lparr>vcpus := (vcpus s1)(p \<mapsto> v\<lparr>priority_rem := priority_rem v - priority_rem b\<rparr>)\<rparr>
             else s1) }"

definition round_robin_scheduler :: "hv \<Rightarrow> (nat option \<times> hv) option" where
  "round_robin_scheduler s =
     do { q \<leftarrow> vcpu_ready_list s;
          let k = unat (word_of_int (queue_count q) :: u32);
          (r, s1) \<leftarrow> rr_search k 255 None s;
          case r of
            Inl p \<Rightarrow> Some (Some p, s1)
          | Inr None \<Rightarrow> Some (None, s1)
          | Inr (Some best) \<Rightarrow>
              do { s2 \<leftarrow> rr_age k best s1;
                   v \<leftarrow> vcpus s2 best;
                   Some (Some best,
                         s2\<lparr>vcpus := (vcpus s2)(best \<mapsto>
                              v\<lparr>priority_rem := priority v, bgjobs := bgjobs v + 1\<rparr>)\<rparr>) } }"

definition fast_interrupt_delivery :: "nat \<Rightarrow> hv \<Rightarrow> hv option" where
  "fast_interrupt_delivery target s =
     (if vcpu_executing s \<noteq> Some target
      then do { v \<leftarrow> vcpus s target;
                Some (if critical v = 0
                      then s\<lparr>vcpus := (vcpus s)(target \<mapsto> v\<lparr>critical := 1\<rparr>), pending := pending s + 1\<rparr>
                      else s) }
      else Some s)"

text \<open>\<open>TICKS_BEFORE_SCHEDULING\<close> is \<open>QUANTUM_SCHEDULER_MS / (SYSTEM_TICK_US/1000)\<close> with a tick of 1000.\<close>

definition sched_due :: "hv \<Rightarrow> bool option" where
  "sched_due s =
     do { ensure (QUANTUM_SCHEDULER_MS (conf s) \<noteq> 0);
          if tick_count s mod QUANTUM_SCHEDULER_MS (conf s) = 0 \<or> pending s \<noteq> 0 then Some True
          else (case vcpu_executing s of
                  None \<Rightarrow> Some False
                | Some p \<Rightarrow> do { v \<leftarrow> vcpus s p; Some (state v = VCPU_BLOCKED) }) }"

definition run_scheduler :: "hv \<Rightarrow> hv option" where
  "run_scheduler s =
     do { due \<leftarrow> sched_due s;
          s1 \<leftarrow>
            (if due
             then do { (aux, t) \<leftarrow> round_robin_scheduler s;
                       if aux \<noteq> vcpu_executing t
                       then do { t1 \<leftarrow> contextSave t;
                                 contextRestore (t1\<lparr>vcpu_executing := aux\<rparr>) }
                       else Some t }
             else Some s);
          Some (s1\<lparr>tick_count := tick_count s1 + 1\<rparr>) }"

text \<open>Look-ups: a null entry of the ready list is dereferenced by the first, skipped by the second.\<close>

fun vcpu_id_loop :: "nat queue_t \<Rightarrow> u32 \<Rightarrow> nat list \<Rightarrow> hv \<Rightarrow> nat option option" where
  "vcpu_id_loop q ident [] s = Some None"
| "vcpu_id_loop q ident (i # is) s =
     do { r \<leftarrow> queue_get q (int i);
          p \<leftarrow> r;
          v \<leftarrow> vcpus s p;
          if vc_ident v = ident then Some (Some p) else vcpu_id_loop q ident is s }"

definition get_vcpu_from_id :: "u32 \<Rightarrow> hv \<Rightarrow> nat option option" where
  "get_vcpu_from_id ident s =
     do { q \<leftarrow> vcpu_ready_list s;
          vcpu_id_loop q ident [0..<unat (word_of_int (queue_count q) :: u32)] s }"

text \<open>The inner loop reads \<open>fast_interrupts\<close> below its counter.\<close>

fun fast_int_member :: "u32 \<Rightarrow> nat list \<Rightarrow> u32 list \<Rightarrow> bool option" where
  "fast_int_member fast_int [] xs = Some False"
| "fast_int_member fast_int (i # is) xs =
     do { x \<leftarrow> arr_get xs (int i);
          if fast_int = x then Some True else fast_int_member fast_int is xs }"

fun fast_int_loop :: "nat queue_t \<Rightarrow> u32 \<Rightarrow> nat list \<Rightarrow> hv \<Rightarrow> nat option option" where
  "fast_int_loop q fast_int [] s = Some None"
| "fast_int_loop q fast_int (j # js) s =
     do { r \<leftarrow> queue_get q (int j);
          case r of
            None \<Rightarrow> fast_int_loop q fast_int js s
          | Some p \<Rightarrow>
              do { v \<leftarrow> vcpus s p;
                   m \<leftarrow> vms s (vc_vm v);
                   hit \<leftarrow> fast_int_member fast_int [0..<unat (fast_int_sz (vmconf m))]
                            (fast_interrupts (vmconf m));
                   if hit then Some (Some p) else fast_int_loop q fast_int js s } }"

definition get_fast_int_vcpu_node :: "u32 \<Rightarrow> hv \<Rightarrow> nat option option" where
  "get_fast_int_vcpu_node fast_int s =
     do { q \<leftarrow> vcpu_ready_list s;
          fast_int_loop q fast_int [0..<unat (word_of_int (queue_count q) :: u32)] s }"

end
