(* ===== verification/SchedSpec.thy ===== *)
theory SchedSpec
  imports Scheduler
begin

text \<open>
  The abstract scheduler and the proof that the loops of \<open>scheduler.c\<close> implement it: which
  VCPU is picked, how the remaining priorities age, and what becomes of the ready list.
\<close>

subsection \<open>Abstract scheduler\<close>

definition running :: "(nat \<Rightarrow> vcpu_t option) \<Rightarrow> nat \<Rightarrow> bool" where
  "running vs p \<longleftrightarrow> (\<exists>v. vs p = Some v \<and> state v = VCPU_RUNNING)"

definition prem :: "(nat \<Rightarrow> vcpu_t option) \<Rightarrow> nat \<Rightarrow> u32" where
  "prem vs p = priority_rem (the (vs p))"

definition crit_bit :: "(nat \<Rightarrow> vcpu_t option) \<Rightarrow> nat \<Rightarrow> bool" where
  "crit_bit vs p \<longleftrightarrow> critical (the (vs p)) \<noteq> 0"

definition urgent :: "(nat \<Rightarrow> vcpu_t option) \<Rightarrow> nat \<Rightarrow> bool" where
  "urgent vs p \<longleftrightarrow> running vs p \<and> crit_bit vs p"

fun scan :: "(nat \<Rightarrow> vcpu_t option) \<Rightarrow> u32 \<Rightarrow> nat option \<Rightarrow> nat list \<Rightarrow> nat option" where
  "scan vs h aux [] = aux"
| "scan vs h aux (p # ps) =
     (if prem vs p < h \<and> running vs p then scan vs (prem vs p) (Some p) ps else scan vs h aux ps)"

declare scan.simps(2) [simp del]

lemma scan_hit: "prem vs p < h \<and> running vs p \<Longrightarrow> scan vs h aux (p # ps) = scan vs (prem vs p) (Some p) ps"
  by (simp add: scan.simps(2))

lemma scan_miss: "\<not> (prem vs p < h \<and> running vs p) \<Longrightarrow> scan vs h aux (p # ps) = scan vs h aux ps"
  unfolding scan.simps(2) by (rule if_not_P)

definition pick :: "(nat \<Rightarrow> vcpu_t option) \<Rightarrow> nat list \<Rightarrow> nat option" where
  "pick vs ps = (case find (urgent vs) ps of Some p \<Rightarrow> Some p | None \<Rightarrow> scan vs 255 None ps)"

definition age :: "(nat \<Rightarrow> vcpu_t option) \<Rightarrow> nat \<Rightarrow> nat list \<Rightarrow> nat \<Rightarrow> vcpu_t option" where
  "age vs b ps p =
     (if p \<in> set ps \<and> p \<noteq> b \<and> running vs p
      then map_option (\<lambda>v. v\<lparr>priority_rem := priority_rem v - prem vs b\<rparr>) (vs p) else vs p)"

definition after_pick :: "(nat \<Rightarrow> vcpu_t option) \<Rightarrow> nat list \<Rightarrow> nat \<Rightarrow> vcpu_t option" where
  "after_pick vs ps =
     (case find (urgent vs) ps of
        Some p \<Rightarrow> vs(p \<mapsto> (the (vs p))\<lparr>critical := 0, bgjobs := bgjobs (the (vs p)) + 1\<rparr>)
      | None \<Rightarrow>
          (case scan vs 255 None ps of
             None \<Rightarrow> vs
           | Some b \<Rightarrow> (age vs b ps)(b \<mapsto>
               (the (vs b))\<lparr>priority_rem := priority (the (vs b)), bgjobs := bgjobs (the (vs b)) + 1\<rparr>)))"

definition order_after :: "(nat \<Rightarrow> vcpu_t option) \<Rightarrow> nat list \<Rightarrow> nat list" where
  "order_after vs ps =
     (case find (urgent vs) ps of
        Some p \<Rightarrow> tl (dropWhile (\<lambda>x. \<not> urgent vs x) ps) @ takeWhile (\<lambda>x. \<not> urgent vs x) ps @ [p]
      | None \<Rightarrow> ps)"

lemma scan_cases:
  "(scan vs h aux ps = aux \<and> (\<forall>p\<in>set ps. running vs p \<longrightarrow> h \<le> prem vs p)) \<or>
   (\<exists>as b bs. ps = as @ b # bs \<and> scan vs h aux ps = Some b \<and> running vs b \<and> prem vs b < h \<and>
      (\<forall>p\<in>set as. running vs p \<longrightarrow> prem vs b < prem vs p) \<and>
      (\<forall>p\<in>set bs. running vs p \<longrightarrow> prem vs b \<le> prem vs p))"
proof (induction ps arbitrary: h aux)
  case Nil
  then show ?case by simp
next
  case (Cons p ps)
  show ?case
  proof (cases "prem vs p < h \<and> running vs p")
    case True
    from Cons.IH [of "prem vs p" "Some p"] show ?thesis
    proof (elim disjE exE conjE)
      assume "scan vs (prem vs p) (Some p) ps = Some p" "\<forall>q\<in>set ps. running vs q \<longrightarrow> prem vs p \<le> prem vs q"
      then have "p # ps = [] @ p # ps \<and> scan vs h aux (p # ps) = Some p \<and> running vs p \<and> prem vs p < h \<and>
        (\<forall>q\<in>set []. running vs q \<longrightarrow> prem vs p < prem vs q) \<and> (\<forall>q\<in>set ps. running vs q \<longrightarrow> prem vs p \<le> prem vs q)"
        using True scan_hit [OF True] by simp
      then show ?thesis by blast
    next
      fix as b bs
      assume a: "ps = as @ b # bs" "scan vs (prem vs p) (Some p) ps = Some b" "running vs b"
        "prem vs b < prem vs p" "\<forall>q\<in>set as. running vs q \<longrightarrow> prem vs b < prem vs q"
        "\<forall>q\<in>set bs. running vs q \<longrightarrow> prem vs b \<le> prem vs q"
      then have "p # ps = (p # as) @ b # bs \<and> scan vs h aux (p # ps) = Some b \<and> running vs b \<and> prem vs b < h \<and>
        (\<forall>q\<in>set (p # as). running vs q \<longrightarrow> prem vs b < prem vs q) \<and> (\<forall>q\<in>set bs. running vs q \<longrightarrow> prem vs b \<le> prem vs q)"
        using True scan_hit [OF True] by auto
      then show ?thesis by blast
    qed
  next
    case False
    have sc: "scan vs h aux (p # ps) = scan vs h aux ps" by (rule scan_miss [OF False])
    have np: "running vs p \<longrightarrow> h \<le> prem vs p" using False by auto
    from Cons.IH [of h aux] show ?thesis
    proof (elim disjE exE conjE)
      fix as b bs
      assume a: "ps = as @ b # bs" "scan vs h aux ps = Some b" "running vs b" "prem vs b < h"
        "\<forall>q\<in>set as. running vs q \<longrightarrow> prem vs b < prem vs q"
        "\<forall>q\<in>set bs. running vs q \<longrightarrow> prem vs b \<le> prem vs q"
      then have "p # ps = (p # as) @ b # bs \<and> scan vs h aux (p # ps) = Some b \<and> running vs b \<and> prem vs b < h \<and>
        (\<forall>q\<in>set (p # as). running vs q \<longrightarrow> prem vs b < prem vs q) \<and> (\<forall>q\<in>set bs. running vs q \<longrightarrow> prem vs b \<le> prem vs q)"
        using sc np by (auto dest: order_less_le_trans)
      then show ?thesis by blast
    qed (use sc np in auto)
  qed
qed

lemma scan_None: "scan vs h None ps = None \<longleftrightarrow> (\<forall>p\<in>set ps. running vs p \<longrightarrow> h \<le> prem vs p)"
  using scan_cases [of vs h None ps] by (auto simp: not_less [symmetric])

lemma scan_Some:
  assumes "scan vs h None ps = Some b"
  obtains as bs where "ps = as @ b # bs" "running vs b" "prem vs b < h"
    "\<And>p. p \<in> set as \<Longrightarrow> running vs p \<Longrightarrow> prem vs b < prem vs p"
    "\<And>p. p \<in> set ps \<Longrightarrow> running vs p \<Longrightarrow> prem vs b \<le> prem vs p"
proof -
  from scan_cases [of vs h None ps] assms obtain as bs where
    a: "ps = as @ b # bs" "running vs b" "prem vs b < h"
    "\<forall>q\<in>set as. running vs q \<longrightarrow> prem vs b < prem vs q"
    "\<forall>q\<in>set bs. running vs q \<longrightarrow> prem vs b \<le> prem vs q"
    by auto
  show thesis by (rule that [OF a(1-3)]) (use a in \<open>auto intro: less_imp_le\<close>)
qed

lemma find_split:
  assumes "find P ps = Some p"
  obtains xs ys where "ps = xs @ p # ys" "P p" "\<forall>q\<in>set xs. \<not> P q"
proof -
  from assms obtain i where i: "i < length ps" "P (ps ! i)" "p = ps ! i" "\<forall>j<i. \<not> P (ps ! j)"
    by (auto simp: find_Some_iff)
  show thesis
    by (rule that [OF id_take_nth_drop [OF i(1), folded i(3)]]) (use i in \<open>auto simp: in_set_conv_nth\<close>)
qed

lemma pick_in: "pick vs ps = Some p \<Longrightarrow> p \<in> set ps \<and> running vs p"
  by (auto simp: pick_def urgent_def find_Some_iff split: option.splits elim!: scan_Some)

subsection \<open>Refinement\<close>

definition ready :: "hv \<Rightarrow> nat list \<Rightarrow> bool" where
  "ready s ps \<longleftrightarrow> (\<exists>q. vcpu_ready_list s = Some q \<and> ring_inv q \<and> ring_items q = ps)"

lemma ready_cong: "vcpu_ready_list t = vcpu_ready_list s \<Longrightarrow> ready t ps = ready s ps"
  by (simp add: ready_def)

lemma ready_upd [simp]:
  "ready (s\<lparr>vcpus := vs\<rparr>) ps = ready s ps" "ready (s\<lparr>pending := n\<rparr>) ps = ready s ps"
  "ready (s\<lparr>vcpu_ready_list := Some q, vcpus := vs\<rparr>) ps = ready (s\<lparr>vcpu_ready_list := Some q\<rparr>) ps"
  by (simp_all add: ready_def)

lemma rotate_ready_ok:
  assumes "ready s (p # ps)"
  obtains q where "rotate_ready s = Some (p, s\<lparr>vcpu_ready_list := Some q\<rparr>)"
    "ready (s\<lparr>vcpu_ready_list := Some q\<rparr>) (ps @ [p])"
proof -
  from assms obtain q where q: "vcpu_ready_list s = Some q" "ring_inv q" "ring_items q = p # ps"
    by (auto simp: ready_def)
  obtain q1 q2 where r: "queue_remhead q = Some (Some p, q1)" "queue_addtail q1 p = Some (0, q2)"
    "ring_inv q2" "ring_items q2 = ps @ [p]"
    by (rule rq.rotate_once [OF q(2,3)])
  show thesis by (rule that [of q2]) (simp_all add: rotate_ready_def q r ready_def)
qed

text \<open>One round of the search on a VCPU that is not urgent, and on one that is.\<close>

lemma rr_search_step:
  assumes "rotate_ready s = Some (p, s1)" "vcpus s1 p = Some v" "\<not> urgent (vcpus s1) p"
  shows "rr_search (Suc n) h aux s =
    (if prem (vcpus s1) p < h \<and> running (vcpus s1) p
     then rr_search n (prem (vcpus s1) p) (Some p) s1 else rr_search n h aux s1)"
  using assms by (auto simp: prem_def running_def urgent_def crit_bit_def)

lemma rr_search_hit:
  assumes "rotate_ready s = Some (p, s1)" "vcpus s1 p = Some v" "urgent (vcpus s1) p"
  shows "rr_search (Suc n) h aux s =
    Some (Inl p, s1\<lparr>vcpus := (vcpus s1)(p \<mapsto> v\<lparr>critical := 0, bgjobs := bgjobs v + 1\<rparr>),
                    pending := pending s1 - 1\<rparr>)"
  using assms by (simp add: running_def urgent_def crit_bit_def)

lemma ready_same: "vcpu_ready_list s = Some q \<Longrightarrow> s\<lparr>vcpu_ready_list := Some q\<rparr> = s"
  by (cases s) simp

lemma rr_search_calm:
  "ready s (todo @ dn) \<Longrightarrow> (\<And>p. p \<in> set todo \<Longrightarrow> vcpus s p \<noteq> None \<and> \<not> urgent (vcpus s) p) \<Longrightarrow>
   \<exists>q. rr_search (length todo) h aux s =
        Some (Inr (scan (vcpus s) h aux todo), s\<lparr>vcpu_ready_list := Some q\<rparr>) \<and>
     ready (s\<lparr>vcpu_ready_list := Some q\<rparr>) (dn @ todo)"
proof (induction todo arbitrary: s dn h aux)
  case Nil
  then obtain q where q: "vcpu_ready_list s = Some q" by (auto simp: ready_def)
  have "ready s dn" using Nil(1) by simp
  then show ?case by (intro exI [of _ q]) (simp add: ready_same [OF q])
next
  case (Cons p todo)
  have r: "ready s (p # (todo @ dn))" using Cons.prems by simp
  obtain q1 where q1: "rotate_ready s = Some (p, s\<lparr>vcpu_ready_list := Some q1\<rparr>)"
    "ready (s\<lparr>vcpu_ready_list := Some q1\<rparr>) ((todo @ dn) @ [p])"
    by (rule rotate_ready_ok [OF r])
  let ?s = "s\<lparr>vcpu_ready_list := Some q1\<rparr>"
  have vs: "vcpus ?s = vcpus s" by simp
  obtain v where v: "vcpus ?s p = Some v" and nu: "\<not> urgent (vcpus ?s) p" using Cons.prems(2) [of p] by auto
  have r1: "ready ?s (todo @ (dn @ [p]))" using q1(2) by simp
  have todo: "vcpus ?s x \<noteq> None \<and> \<not> urgent (vcpus ?s) x" if "x \<in> set todo" for x
    using Cons.prems(2) [of x] that by simp
  note IH = Cons.IH [OF r1 todo]
  show ?case
  proof (cases "prem (vcpus s) p < h \<and> running (vcpus s) p")
    case True
    show ?thesis using IH [of "prem (vcpus s) p" "Some p"] rr_search_step [OF q1(1) v nu, of "length todo" h aux]
      unfolding vs if_P [OF True] scan_hit [OF True] by (simp del: rr_search.simps)
  next
    case False
    show ?thesis using IH [of h aux] rr_search_step [OF q1(1) v nu, of "length todo" h aux]
      unfolding vs if_not_P [OF False] scan_miss [OF False] by (simp del: rr_search.simps)
  qed
qed

lemma rr_search_urgent:
  "ready s (as @ p # bs @ dn) \<Longrightarrow> (\<And>x. x \<in> set as \<Longrightarrow> vcpus s x \<noteq> None \<and> \<not> urgent (vcpus s) x) \<Longrightarrow>
   vcpus s p = Some v \<Longrightarrow> urgent (vcpus s) p \<Longrightarrow>
   \<exists>q. rr_search (length (as @ p # bs)) h aux s =
      Some (Inl p, s\<lparr>vcpu_ready_list := Some q,
        vcpus := (vcpus s)(p \<mapsto> v\<lparr>critical := 0, bgjobs := bgjobs v + 1\<rparr>), pending := pending s - 1\<rparr>) \<and>
    ready (s\<lparr>vcpu_ready_list := Some q\<rparr>) (bs @ dn @ as @ [p])"
proof (induction as arbitrary: s dn h aux)
  case Nil
  then have r: "ready s (p # (bs @ dn))" by simp
  obtain q1 where q1: "rotate_ready s = Some (p, s\<lparr>vcpu_ready_list := Some q1\<rparr>)"
    "ready (s\<lparr>vcpu_ready_list := Some q1\<rparr>) ((bs @ dn) @ [p])"
    by (rule rotate_ready_ok [OF r])
  have v: "vcpus (s\<lparr>vcpu_ready_list := Some q1\<rparr>) p = Some v"
    "urgent (vcpus (s\<lparr>vcpu_ready_list := Some q1\<rparr>)) p" using Nil by simp_all
  show ?case using rr_search_hit [OF q1(1) v, of "length bs" h aux] q1(2)
    by (intro exI [of _ q1]) (simp del: rr_search.simps fun_upd_apply)
next
  case (Cons x as)
  have r: "ready s (x # (as @ p # bs @ dn))" using Cons.prems by simp
  obtain q1 where q1: "rotate_ready s = Some (x, s\<lparr>vcpu_ready_list := Some q1\<rparr>)"
    "ready (s\<lparr>vcpu_ready_list := Some q1\<rparr>) ((as @ p # bs @ dn) @ [x])"
    by (rule rotate_ready_ok [OF r])
  let ?s = "s\<lparr>vcpu_ready_list := Some q1\<rparr>"
  obtain w where w: "vcpus ?s x = Some w" and nu: "\<not> urgent (vcpus ?s) x" using Cons.prems(2) [of x] by auto
  have r1: "ready ?s (as @ p # bs @ (dn @ [x]))" using q1(2) by simp
  have todo: "vcpus ?s y \<noteq> None \<and> \<not> urgent (vcpus ?s) y" if "y \<in> set as" for y
    using Cons.prems(2) [of y] that by simp
  have pv: "vcpus ?s p = Some v" "urgent (vcpus ?s) p" using Cons.prems by simp_all
  note IH = Cons.IH [OF r1 todo pv]
  show ?case
  proof (cases "prem (vcpus ?s) x < h \<and> running (vcpus ?s) x")
    case True
    show ?thesis using IH [of "prem (vcpus s) x" "Some x"] rr_search_step [OF q1(1) w nu, of "length (as @ p # bs)" h aux]
      unfolding if_P [OF True] by (simp del: rr_search.simps fun_upd_apply)
  next
    case False
    show ?thesis using IH [of h aux] rr_search_step [OF q1(1) w nu, of "length (as @ p # bs)" h aux]
      unfolding if_not_P [OF False] by (simp del: rr_search.simps fun_upd_apply)
  qed
qed

lemma age_Cons:
  assumes "p \<notin> set ps" "vs p = Some v" "vs best = Some b"
  shows "age (if p \<noteq> best \<and> state v = VCPU_RUNNING
              then vs(p \<mapsto> v\<lparr>priority_rem := priority_rem v - priority_rem b\<rparr>) else vs) best ps
    = age vs best (p # ps)"
  using assms by (auto simp: age_def running_def prem_def fun_eq_iff)

lemma age_Nil: "age vs best [] = vs"
  by (simp add: age_def fun_eq_iff)

lemma rr_age_step:
  assumes "rotate_ready s = Some (p, s1)" "vcpus s1 p = Some v" "vcpus s1 best = Some b"
  shows "rr_age (Suc n) best s = rr_age n best (s1\<lparr>vcpus :=
    (if p \<noteq> best \<and> state v = VCPU_RUNNING
     then (vcpus s1)(p \<mapsto> v\<lparr>priority_rem := priority_rem v - priority_rem b\<rparr>) else vcpus s1)\<rparr>)"
proof -
  have "s1\<lparr>vcpus := vcpus s1\<rparr> = s1" by (cases s1) simp
  then show ?thesis using assms by (cases "p \<noteq> best \<and> state v = VCPU_RUNNING") auto
qed

lemma rr_age_ok:
  "ready s (todo @ dn) \<Longrightarrow> distinct todo \<Longrightarrow> (\<And>p. p \<in> set todo \<Longrightarrow> vcpus s p \<noteq> None) \<Longrightarrow>
   vcpus s best = Some b \<Longrightarrow>
   \<exists>q. rr_age (length todo) best s =
        Some (s\<lparr>vcpu_ready_list := Some q, vcpus := age (vcpus s) best todo\<rparr>) \<and>
     ready (s\<lparr>vcpu_ready_list := Some q\<rparr>) (dn @ todo)"
proof (induction todo arbitrary: s dn b)
  case Nil
  then obtain q where q: "vcpu_ready_list s = Some q" by (auto simp: ready_def)
  have "s\<lparr>vcpu_ready_list := Some q, vcpus := vcpus s\<rparr> = s" using q by (cases s) simp
  moreover have "ready s dn" using Nil(1) by simp
  ultimately show ?case by (intro exI [of _ q]) (simp add: ready_same [OF q] age_Nil)
next
  case (Cons p todo)
  have r: "ready s (p # (todo @ dn))" using Cons.prems by simp
  obtain q1 where q1: "rotate_ready s = Some (p, s\<lparr>vcpu_ready_list := Some q1\<rparr>)"
    "ready (s\<lparr>vcpu_ready_list := Some q1\<rparr>) ((todo @ dn) @ [p])"
    by (rule rotate_ready_ok [OF r])
  let ?s1 = "s\<lparr>vcpu_ready_list := Some q1\<rparr>"
  obtain v where v: "vcpus s p = Some v" using Cons.prems(3) [of p] by auto
  let ?vs = "if p \<noteq> best \<and> state v = VCPU_RUNNING
     then (vcpus s)(p \<mapsto> v\<lparr>priority_rem := priority_rem v - priority_rem b\<rparr>) else vcpus s"
  let ?s = "?s1\<lparr>vcpus := ?vs\<rparr>"
  have v1: "vcpus ?s1 p = Some v" "vcpus ?s1 best = Some b" using v Cons.prems(4) by simp_all
  have best: "vcpus ?s best = Some b" using Cons.prems(4) by simp
  have todo: "vcpus ?s x \<noteq> None" if "x \<in> set todo" for x using Cons.prems(3) [of x] that by simp
  have r1: "ready ?s (todo @ (dn @ [p]))" using q1(2) by simp
  have d: "distinct todo" "p \<notin> set todo" using Cons.prems(2) by simp_all
  have eq: "age ?vs best todo = age (vcpus s) best (p # todo)"
    by (rule age_Cons [OF d(2) v Cons.prems(4)])
  have step: "rr_age (Suc (length todo)) best s = rr_age (length todo) best ?s"
    using rr_age_step [OF q1(1) v1, of "length todo"] by simp
  from Cons.IH [OF r1 d(1) todo best] obtain q where
    q: "rr_age (length todo) best ?s = Some (?s\<lparr>vcpu_ready_list := Some q, vcpus := age (vcpus ?s) best todo\<rparr>)"
    "ready (?s\<lparr>vcpu_ready_list := Some q\<rparr>) ((dn @ [p]) @ todo)" by blast
  have "vcpus ?s = ?vs" by simp
  then show ?case using q step eq
    by (intro exI [of _ q]) (simp add: ready_def del: rr_age.simps fun_upd_apply)
qed

subsection \<open>The scheduler as a whole\<close>

text \<open>\<open>pending\<close> counts the VCPUs with the critical mark.\<close>

definition sched_inv :: "hv \<Rightarrow> nat list \<Rightarrow> bool" where
  "sched_inv s ps \<longleftrightarrow> ready s ps \<and> distinct ps \<and> (\<forall>p\<in>set ps. vcpus s p \<noteq> None) \<and>
     pending s = of_nat (length (filter (crit_bit (vcpus s)) ps))"

lemma ready_length: "ready s ps \<Longrightarrow> length ps < 2 ^ 30"
proof -
  assume "ready s ps"
  then obtain q where q: "ring_inv q" "ring_items q = ps" by (auto simp: ready_def)
  then show ?thesis using rq.items_cap [OF q(1)] ring_invD(1,2) [OF q(1)]
    by (simp add: ring_cap_def)
qed

lemma ready_count:
  assumes "ready s ps" "vcpu_ready_list s = Some q"
  shows "unat (word_of_int (queue_count q) :: u32) = length ps"
proof -
  have q: "ring_inv q" "ring_items q = ps" using assms by (auto simp: ready_def)
  have "queue_count q = int (length ps)" unfolding q(2) [symmetric] by (rule rq.count_items [OF q(1)])
  then have "word_of_int (queue_count q) = (of_nat (length ps) :: u32)" by (simp only: of_int_of_nat_eq)
  then show ?thesis using ready_length [OF assms(1)] by (simp only: unat_of_nat) simp
qed

lemma urgent_split:
  assumes "find (urgent vs) ps = Some p"
  obtains as bs where "ps = as @ p # bs" "\<And>x. x \<in> set as \<Longrightarrow> \<not> urgent vs x" "urgent vs p"
    "order_after vs ps = bs @ as @ [p]"
proof -
  from assms obtain i where i: "i < length ps" "urgent vs (ps ! i)" "p = ps ! i" "\<And>j. j < i \<Longrightarrow> \<not> urgent vs (ps ! j)"
    by (auto simp: find_Some_iff)
  have t: "takeWhile (\<lambda>x. \<not> urgent vs x) ps = take i ps"
    using i by (intro takeWhile_eq_take_P_nth) auto
  have "dropWhile (\<lambda>x. \<not> urgent vs x) ps = drop i ps"
    unfolding dropWhile_eq_drop t using i(1) by simp
  with t have o: "order_after vs ps = drop (Suc i) ps @ take i ps @ [p]"
    using assms by (simp add: order_after_def tl_drop drop_Suc)
  have "ps = take i ps @ p # drop (Suc i) ps" using i by (metis id_take_nth_drop)
  moreover have "\<not> urgent vs x" if "x \<in> set (take i ps)" for x
    using that i(1,4) by (auto simp: in_set_conv_nth)
  ultimately show thesis using that i(2,3) o by blast
qed

lemma order_after_perm:
  assumes "distinct ps"
  shows "set (order_after vs ps) = set ps" "distinct (order_after vs ps)"
proof -
  have "set (order_after vs ps) = set ps \<and> distinct (order_after vs ps)"
  proof (cases "find (urgent vs) ps")
    case (Some p)
    then show ?thesis using assms by (elim urgent_split) auto
  qed (use assms in \<open>simp add: order_after_def\<close>)
  then show "set (order_after vs ps) = set ps" "distinct (order_after vs ps)" by auto
qed

lemma round_robin_calm:
  assumes inv: "sched_inv s ps" and None: "find (urgent (vcpus s)) ps = None"
  shows "\<exists>q. round_robin_scheduler s = Some (pick (vcpus s) ps,
      s\<lparr>vcpu_ready_list := Some q, vcpus := after_pick (vcpus s) ps\<rparr>) \<and>
    ready (s\<lparr>vcpu_ready_list := Some q\<rparr>) ps"
proof -
  let ?vs = "vcpus s"
  have r: "ready s (ps @ [])" and d: "distinct ps" and v: "\<And>p. p \<in> set ps \<Longrightarrow> ?vs p \<noteq> None"
    using inv by (auto simp: sched_inv_def)
  from r obtain q0 where q0: "vcpu_ready_list s = Some q0" by (auto simp: ready_def)
  have k: "unat (word_of_int (queue_count q0) :: u32) = length ps"
    using ready_count [of s ps q0] r q0 by simp
  note rr = round_robin_scheduler_def q0 k
  have nu: "\<not> urgent ?vs p" if "p \<in> set ps" for p using that None by (auto simp: find_None_iff)
  from rr_search_calm [OF r, of 255 None] v nu obtain q1 where
    q1: "rr_search (length ps) 255 None s = Some (Inr (scan ?vs 255 None ps), s\<lparr>vcpu_ready_list := Some q1\<rparr>)"
    "ready (s\<lparr>vcpu_ready_list := Some q1\<rparr>) ([] @ ps)" by blast
  let ?s1 = "s\<lparr>vcpu_ready_list := Some q1\<rparr>"
  show ?thesis
  proof (cases "scan ?vs 255 None ps")
    case sN: None
    have "?s1 = s\<lparr>vcpu_ready_list := Some q1, vcpus := ?vs\<rparr>" by (cases s) simp
    then show ?thesis using q1 None sN
      by (intro exI [of _ q1]) (simp add: rr pick_def after_pick_def)
  next
    case (Some b)
    then have bi: "b \<in> set ps" "running ?vs b" by (auto elim: scan_Some)
    then obtain vb where vb: "?vs b = Some vb" by (auto simp: running_def)
    have r1: "ready ?s1 (ps @ [])" using q1(2) by simp
    have v1: "vcpus ?s1 p \<noteq> None" if "p \<in> set ps" for p using v [OF that] by simp
    have b1: "vcpus ?s1 b = Some vb" using vb by simp
    from rr_age_ok [OF r1 d v1 b1] obtain q2 where
      q2: "rr_age (length ps) b ?s1 = Some (?s1\<lparr>vcpu_ready_list := Some q2, vcpus := age ?vs b ps\<rparr>)"
      "ready (?s1\<lparr>vcpu_ready_list := Some q2\<rparr>) ps" by auto
    have ab: "age ?vs b ps b = Some vb" using vb by (simp add: age_def)
    show ?thesis using q1 q2 None Some vb ab
      by (intro exI [of _ q2]) (simp add: rr pick_def after_pick_def del: fun_upd_apply)
  qed
qed

lemma round_robin_urgent:
  assumes inv: "sched_inv s ps" and Some: "find (urgent (vcpus s)) ps = Some p"
  shows "\<exists>q. round_robin_scheduler s = Some (pick (vcpus s) ps,
      s\<lparr>vcpu_ready_list := Some q, vcpus := after_pick (vcpus s) ps, pending := pending s - 1\<rparr>) \<and>
    ready (s\<lparr>vcpu_ready_list := Some q\<rparr>) (order_after (vcpus s) ps)"
proof -
  let ?vs = "vcpus s"
  have r: "ready s ps" and v: "\<And>p. p \<in> set ps \<Longrightarrow> ?vs p \<noteq> None"
    using inv by (auto simp: sched_inv_def)
  from r obtain q0 where q0: "vcpu_ready_list s = Some q0" by (auto simp: ready_def)
  have k: "unat (word_of_int (queue_count q0) :: u32) = length ps" by (rule ready_count [OF r q0])
  from urgent_split [OF Some] obtain as bs where
    ab: "ps = as @ p # bs" "\<And>x. x \<in> set as \<Longrightarrow> \<not> urgent ?vs x" "urgent ?vs p"
    "order_after ?vs ps = bs @ as @ [p]" by blast
  have r1: "ready s (as @ p # bs @ [])" using r ab(1) by simp
  have nu: "?vs x \<noteq> None \<and> \<not> urgent ?vs x" if "x \<in> set as" for x
    using v [of x] ab(1,2) that by simp
  obtain w where w: "?vs p = Some w" using v [of p] ab(1) by auto
  from rr_search_urgent [OF r1 nu w ab(3), of 255 None] obtain q where
    q: "rr_search (length ps) 255 None s = Some (Inl p, s\<lparr>vcpu_ready_list := Some q,
        vcpus := ?vs(p \<mapsto> w\<lparr>critical := 0, bgjobs := bgjobs w + 1\<rparr>), pending := pending s - 1\<rparr>)"
    "ready (s\<lparr>vcpu_ready_list := Some q\<rparr>) (bs @ [] @ as @ [p])"
    unfolding ab(1) by blast
  show ?thesis using q ab(4) w Some
    by (intro exI [of _ q])
      (simp add: round_robin_scheduler_def q0 k pick_def after_pick_def del: fun_upd_apply)
qed

end
