(* ===== verification/SchedInv.thy ===== *)
theory SchedInv
  imports SchedSpec
begin

text \<open>
  The invariant of the scheduler's state and its preservation: \<open>run_scheduler\<close> always returns
  when the ready list is well formed, and the count \<open>pending\<close> stays the number of VCPUs marked
  critical.
\<close>

lemma pending_count:
  "distinct ps \<Longrightarrow> length (filter (crit_bit vs) ps) = card ({p. crit_bit vs p} \<inter> set ps)"
  by (rule distinct_length_filter)

lemma crit_bit_after_calm:
  "find (urgent vs) ps = None \<Longrightarrow> (\<And>p. p \<in> set ps \<Longrightarrow> vs p \<noteq> None) \<Longrightarrow> crit_bit (after_pick vs ps) p = crit_bit vs p"
  by (auto simp: after_pick_def crit_bit_def age_def running_def map_option_case split: option.splits elim!: scan_Some)

lemma crit_bit_after_urgent:
  "find (urgent vs) ps = Some u \<Longrightarrow> crit_bit (after_pick vs ps) p \<longleftrightarrow> crit_bit vs p \<and> p \<noteq> u"
  by (auto simp: after_pick_def crit_bit_def)

lemma scan_in: "scan vs h None ps = Some b \<Longrightarrow> b \<in> set ps \<and> vs b \<noteq> None"
  by (auto elim!: scan_Some simp: running_def)

lemma find_in: "find P ps = Some p \<Longrightarrow> p \<in> set ps"
  by (auto simp: find_Some_iff)

lemma after_pick_dom:
  "(\<And>p. p \<in> set ps \<Longrightarrow> vs p \<noteq> None) \<Longrightarrow> after_pick vs ps p = None \<longleftrightarrow> vs p = None"
  using scan_in [of vs 255 ps] find_in [of "urgent vs" ps]
  by (auto simp: after_pick_def age_def split: option.splits)

theorem round_robin_sched_inv:
  assumes inv: "sched_inv s ps"
  obtains s' where "round_robin_scheduler s = Some (pick (vcpus s) ps, s')"
    "vcpus s' = after_pick (vcpus s) ps" "sched_inv s' (order_after (vcpus s) ps)"
    "vcpu_executing s' = vcpu_executing s" "conf s' = conf s" "tick_count s' = tick_count s"
    "vms s' = vms s"
proof -
  let ?vs = "vcpus s"
  have d: "distinct ps" and v: "\<And>p. p \<in> set ps \<Longrightarrow> ?vs p \<noteq> None"
    and pend: "pending s = of_nat (card ({p. crit_bit ?vs p} \<inter> set ps))"
    using inv by (auto simp: sched_inv_def pending_count)
  note perm = order_after_perm [OF d, of ?vs]
  have dom: "p \<in> set (order_after ?vs ps) \<Longrightarrow> after_pick ?vs ps p \<noteq> None" for p
    using perm after_pick_dom [of ps ?vs] v by auto
  show thesis
  proof (cases "find (urgent ?vs) ps")
    case None
    from round_robin_calm [OF inv None] obtain q where
      q: "round_robin_scheduler s = Some (pick ?vs ps, s\<lparr>vcpu_ready_list := Some q, vcpus := after_pick ?vs ps\<rparr>)"
      "ready (s\<lparr>vcpu_ready_list := Some q\<rparr>) ps" by blast
    have o: "order_after ?vs ps = ps" using None by (simp add: order_after_def)
    show thesis
      by (rule that [OF q(1)])
        (use q(2) o d dom pend crit_bit_after_calm [OF None v] in
          \<open>simp_all add: sched_inv_def pending_count\<close>)
  next
    case (Some p)
    from round_robin_urgent [OF inv Some] obtain q where
      q: "round_robin_scheduler s = Some (pick ?vs ps, s\<lparr>vcpu_ready_list := Some q, vcpus := after_pick ?vs ps, pending := pending s - 1\<rparr>)"
      "ready (s\<lparr>vcpu_ready_list := Some q\<rparr>) (order_after ?vs ps)" by blast
    let ?C = "{p. crit_bit ?vs p} \<inter> set ps"
    have p: "p \<in> ?C" using Some by (auto simp: find_Some_iff urgent_def)
    have "{x. crit_bit (after_pick ?vs ps) x} \<inter> set (order_after ?vs ps) = ?C - {p}"
      using perm crit_bit_after_urgent [OF Some] by auto
    then have "card ({x. crit_bit (after_pick ?vs ps) x} \<inter> set (order_after ?vs ps)) = card ?C - 1"
      using p by simp
    moreover have "0 < card ?C" using p card_gt_0_iff by blast
    ultimately have "pending s - 1 = of_nat (card ({x. crit_bit (after_pick ?vs ps) x} \<inter> set (order_after ?vs ps)))"
      using pend by (simp add: of_nat_diff)
    then show thesis
      by (intro that [OF q(1)])
        (use q(2) perm dom in \<open>simp_all add: sched_inv_def pending_count\<close>)
  qed
qed

subsection \<open>Context switches do not touch what the scheduler reads\<close>

definition sched_view :: "vcpu_t \<Rightarrow> u32 \<times> u32 \<times> u32 \<times> vcpu_state \<times> u32 \<times> nat \<times> message_buffer_t" where
  "sched_view v = (priority v, priority_rem v, critical v, state v, vc_ident v, vc_vm v, messages v)"

definition same_sched :: "hv \<Rightarrow> hv \<Rightarrow> bool" where
  "same_sched s t \<longleftrightarrow>
     vcpu_ready_list t = vcpu_ready_list s \<and> pending t = pending s \<and> tick_count t = tick_count s \<and>
     conf t = conf s \<and> vms t = vms s \<and> (\<forall>p. map_option sched_view (vcpus t p) = map_option sched_view (vcpus s p))"

lemma same_sched_crit:
  "same_sched s t \<Longrightarrow> crit_bit (vcpus t) p = crit_bit (vcpus s) p \<or> vcpus s p = None"
  unfolding same_sched_def crit_bit_def sched_view_def
  by (drule conjunct2, drule conjunct2, drule conjunct2, drule conjunct2, drule conjunct2,
      drule spec [of _ p]) (auto simp: map_option_case split: option.splits)

lemma same_sched_None: "same_sched s t \<Longrightarrow> vcpus t p = None \<longleftrightarrow> vcpus s p = None"
  unfolding same_sched_def by (metis option.map_disc_iff)

lemma same_sched_inv:
  assumes "same_sched s t" "sched_inv s ps"
  shows "sched_inv t ps"
proof -
  have "filter (crit_bit (vcpus t)) ps = filter (crit_bit (vcpus s)) ps"
  proof (rule filter_cong [OF refl])
    fix x assume "x \<in> set ps"
    then have "vcpus s x \<noteq> None" using assms(2) by (auto simp: sched_inv_def)
    then show "crit_bit (vcpus t) x = crit_bit (vcpus s) x" using same_sched_crit [OF assms(1), of x] by auto
  qed
  then show ?thesis
    using assms same_sched_None [OF assms(1)] by (auto simp: sched_inv_def same_sched_def ready_def)
qed

lemma same_sched_refl: "same_sched s s"
  by (simp add: same_sched_def)

lemma same_sched_trans: "same_sched s t \<Longrightarrow> same_sched t u \<Longrightarrow> same_sched s u"
  by (simp add: same_sched_def)

lemma contextSave_same:
  assumes "\<And>p. vcpu_executing s = Some p \<Longrightarrow> vcpus s p \<noteq> None"
  obtains s1 where "contextSave s = Some s1" "same_sched s s1" "vcpu_executing s1 = vcpu_executing s"
proof (cases "vcpu_executing s")
  case None
  then show ?thesis using that [of s] by (simp add: contextSave_def same_sched_refl)
next
  case (Some p)
  then obtain v where v: "vcpus s p = Some v" using assms by auto
  show ?thesis
    by (rule that [of "the (contextSave s)"]; cases "gpr v"; cases "vc_init v = 0")
      (auto simp: contextSave_def Some v Let_def same_sched_def hv_simps sched_view_def)
qed

lemma contextRestore_same:
  assumes "\<And>p. vcpu_executing s = Some p \<Longrightarrow> vcpus s p \<noteq> None"
  obtains s1 where "contextRestore s = Some s1" "same_sched s s1" "vcpu_executing s1 = vcpu_executing s"
proof (cases "vcpu_executing s")
  case None
  then show ?thesis
    using that [of "config_idle_cpu s"]
    by (simp add: contextRestore_def same_sched_def config_idle_cpu_def setEPC_def clearGuestMode_def
        setGuestID_def hv_simps)
next
  case (Some p)
  then obtain v where v: "vcpus s p = Some v" using assms by auto
  show ?thesis
    by (rule contextRestore_eq [OF Some v], rule that)
      (auto simp: same_sched_def sched_view_def v Some)
qed

subsection \<open>The scheduler tick\<close>

text \<open>
  The state the scheduler runs in: a well formed ready list \<open>ps\<close> and a VCPU in execution, if
  any, that is on it.
\<close>

definition hv_sched :: "hv \<Rightarrow> nat list \<Rightarrow> bool" where
  "hv_sched s ps \<longleftrightarrow> sched_inv s ps \<and> QUANTUM_SCHEDULER_MS (conf s) \<noteq> 0 \<and>
     (\<forall>p. vcpu_executing s = Some p \<longrightarrow> p \<in> set ps)"

lemma hv_sched_exec: "hv_sched s ps \<Longrightarrow> vcpu_executing s = Some p \<Longrightarrow> vcpus s p \<noteq> None"
  by (auto simp: hv_sched_def sched_inv_def)

lemma sched_due_ok:
  assumes "hv_sched s ps"
  obtains due where "sched_due s = Some due"
    "due \<longleftrightarrow> tick_count s mod QUANTUM_SCHEDULER_MS (conf s) = 0 \<or> pending s \<noteq> 0 \<or>
       (\<exists>p v. vcpu_executing s = Some p \<and> vcpus s p = Some v \<and> state v = VCPU_BLOCKED)"
proof (cases "vcpu_executing s")
  case None
  then show ?thesis using assms that by (auto simp: sched_due_def hv_sched_def)
next
  case (Some p)
  then obtain v where "vcpus s p = Some v" using hv_sched_exec [OF assms] by auto
  then show ?thesis using assms Some that by (auto simp: sched_due_def hv_sched_def)
qed

theorem run_scheduler_total:
  assumes wf: "hv_sched s ps"
  obtains s' ps' where "run_scheduler s = Some s'" "hv_sched s' ps'" "set ps' = set ps"
    "tick_count s' = tick_count s + 1" "conf s' = conf s" "vms s' = vms s"
    "sched_due s = Some True \<Longrightarrow> vcpu_executing s' = pick (vcpus s) ps"
    "sched_due s = Some False \<Longrightarrow> vcpu_executing s' = vcpu_executing s \<and> vcpus s' = vcpus s"
    "\<And>p. sched_due s = Some True \<Longrightarrow>
       map_option sched_view (vcpus s' p) = map_option sched_view (after_pick (vcpus s) ps p)"
proof -
  obtain due where due: "sched_due s = Some due" by (rule sched_due_ok [OF wf])
  have inv: "sched_inv s ps" and Q: "QUANTUM_SCHEDULER_MS (conf s) \<noteq> 0"
    and d: "distinct ps" and ex: "\<And>p. vcpu_executing s = Some p \<Longrightarrow> p \<in> set ps"
    using wf by (auto simp: hv_sched_def sched_inv_def)
  have fin: "hv_sched (t\<lparr>tick_count := n\<rparr>) xs = hv_sched t xs" for t n xs
    by (simp add: hv_sched_def sched_inv_def ready_def)
  show thesis
  proof (cases due)
    case False
    show thesis
      by (rule that [of "s\<lparr>tick_count := tick_count s + 1\<rparr>" ps])
        (use due False wf in \<open>simp_all add: run_scheduler_def fin\<close>)
  next
    case True
    obtain t where t: "round_robin_scheduler s = Some (pick (vcpus s) ps, t)"
      "vcpus t = after_pick (vcpus s) ps" "sched_inv t (order_after (vcpus s) ps)"
      "vcpu_executing t = vcpu_executing s" "conf t = conf s" "tick_count t = tick_count s" "vms t = vms s"
      by (rule round_robin_sched_inv [OF inv])
    let ?ps = "order_after (vcpus s) ps"
    have sp: "set ?ps = set ps" by (rule order_after_perm(1) [OF d])
    have pk: "p \<in> set ?ps" if "pick (vcpus s) ps = Some p" for p using pick_in [OF that] sp by simp
    have vt: "vcpus t p \<noteq> None" if "p \<in> set ?ps" for p using t(3) that by (auto simp: sched_inv_def)
    obtain u where u: "(if pick (vcpus s) ps \<noteq> vcpu_executing t
        then do { t1 \<leftarrow> contextSave t; contextRestore (t1\<lparr>vcpu_executing := pick (vcpus s) ps\<rparr>) }
        else Some t) = Some u" "same_sched t u" "vcpu_executing u = pick (vcpus s) ps"
    proof (cases "pick (vcpus s) ps = vcpu_executing t")
      case True
      show ?thesis by (rule that [of t]) (use True in \<open>simp_all add: same_sched_refl\<close>)
    next
      case False
      have "vcpus t p \<noteq> None" if "vcpu_executing t = Some p" for p using that t(4) ex sp vt by simp
      then obtain t1 where t1: "contextSave t = Some t1" "same_sched t t1"
        by (rule contextSave_same)
      let ?t1 = "t1\<lparr>vcpu_executing := pick (vcpus s) ps\<rparr>"
      have "vcpus ?t1 p \<noteq> None" if "vcpu_executing ?t1 = Some p" for p
        using that pk vt same_sched_None [OF t1(2)] by simp
      then obtain u where u: "contextRestore ?t1 = Some u" "same_sched ?t1 u" "vcpu_executing u = vcpu_executing ?t1"
        by (rule contextRestore_same)
      have "same_sched t ?t1" using t1(2) by (simp add: same_sched_def)
      then have "same_sched t u" using u(2) by (rule same_sched_trans)
      then show ?thesis by (rule that [of u, rotated]) (use u t1(1) False in simp_all)
    qed
    have i: "sched_inv u ?ps" by (rule same_sched_inv [OF u(2) t(3)])
    have c: "conf u = conf s" "vms u = vms s" "tick_count u = tick_count s"
      and vw: "map_option sched_view (vcpus u p) = map_option sched_view (after_pick (vcpus s) ps p)" for p
      using u(2) t by (auto simp: same_sched_def)
    have h: "hv_sched u ?ps" using i c Q u(3) pk by (simp add: hv_sched_def)
    have rs: "run_scheduler s = Some (u\<lparr>tick_count := tick_count u + 1\<rparr>)"
      using due True t(1) u(1) by (simp add: run_scheduler_def)
    show thesis
      by (rule that [where ps' = ?ps, OF rs]) (use h sp c vw due True u(3) fin in simp_all)
  qed
qed

subsection \<open>Look-ups\<close>

lemma vcpu_id_loop_ok:
  assumes "ring_inv q" "\<And>p. p \<in> set (ring_items q) \<Longrightarrow> vcpus s p \<noteq> None"
  shows "\<forall>i\<in>set is. i < length (ring_items q) \<Longrightarrow>
    vcpu_id_loop q ident is s = Some (find (\<lambda>p. vc_ident (the (vcpus s p)) = ident) (map ((!) (ring_items q)) is))"
proof (induction "is")
  case (Cons i "is")
  then have i: "i < length (ring_items q)" by simp
  have g: "queue_get q (int i) = Some (Some (ring_items q ! i))" by (rule rq.get_nth [OF assms(1) i])
  obtain v where v: "vcpus s (ring_items q ! i) = Some v"
    using assms(2) [of "ring_items q ! i"] i nth_mem by blast
  have ih: "vcpu_id_loop q ident is s = Some (find (\<lambda>p. vc_ident (the (vcpus s p)) = ident) (map ((!) (ring_items q)) is))"
    using Cons by simp
  show ?case using g v ih by simp
qed simp

lemma get_vcpu_from_id_eq:
  assumes "ready s ps" "\<And>p. p \<in> set ps \<Longrightarrow> vcpus s p \<noteq> None"
  shows "get_vcpu_from_id ident s = Some (find (\<lambda>p. vc_ident (the (vcpus s p)) = ident) ps)"
proof -
  from assms(1) obtain q where q: "vcpu_ready_list s = Some q" "ring_inv q" "ring_items q = ps"
    by (auto simp: ready_def)
  have m: "map ((!) ps) [0..<length ps] = ps" by (rule map_nth)
  have v: "vcpus s p \<noteq> None" if "p \<in> set (ring_items q)" for p using assms(2) that q(3) by simp
  have "\<forall>i\<in>set [0..<length ps]. i < length (ring_items q)" using q(3) by simp
  from vcpu_id_loop_ok [OF q(2) v this, of ident]
  show ?thesis unfolding get_vcpu_from_id_def q(1) using ready_count [OF assms(1) q(1)] q(3) m by simp
qed

lemma fast_int_member_ok:
  "\<forall>i\<in>set is. i < length xs \<Longrightarrow> fast_int_member x is xs = Some (x \<in> (\<lambda>i. xs ! i) ` set is)"
  by (induction "is") (auto simp: c_simps)

text \<open>The interrupts a VM asked to be delivered fast.\<close>

definition fast_ints :: "hv \<Rightarrow> nat \<Rightarrow> u32 set" where
  "fast_ints s p = (let c = vmconf (the (vms s (vc_vm (the (vcpus s p))))) in set (fast_interrupts c))"

definition fast_conf_ok :: "hv \<Rightarrow> nat \<Rightarrow> bool" where
  "fast_conf_ok s p \<longleftrightarrow> (\<exists>v m. vcpus s p = Some v \<and> vms s (vc_vm v) = Some m \<and>
     unat (fast_int_sz (vmconf m)) = length (fast_interrupts (vmconf m)))"

lemma fast_int_loop_ok:
  assumes "ring_inv q" "\<And>p. p \<in> set (ring_items q) \<Longrightarrow> fast_conf_ok s p"
  shows "\<forall>i\<in>set is. i < length (ring_items q) \<Longrightarrow>
    fast_int_loop q x is s = Some (find (\<lambda>p. x \<in> fast_ints s p) (map ((!) (ring_items q)) is))"
proof (induction "is")
  case (Cons i "is")
  then have i: "i < length (ring_items q)" by simp
  have g: "queue_get q (int i) = Some (Some (ring_items q ! i))" by (rule rq.get_nth [OF assms(1) i])
  obtain v m where v: "vcpus s (ring_items q ! i) = Some v" "vms s (vc_vm v) = Some m"
    "unat (fast_int_sz (vmconf m)) = length (fast_interrupts (vmconf m))"
    using assms(2) [of "ring_items q ! i"] i nth_mem unfolding fast_conf_ok_def by blast
  have mem: "fast_int_member x [0..<length (fast_interrupts (vmconf m))] (fast_interrupts (vmconf m))
      = Some (x \<in> fast_ints s (ring_items q ! i))"
  proof -
    have "(!) (fast_interrupts (vmconf m)) ` set [0..<length (fast_interrupts (vmconf m))] = set (fast_interrupts (vmconf m))"
      by (simp only: list.set_map [symmetric] map_nth)
    then show ?thesis using v by (simp add: fast_int_member_ok fast_ints_def)
  qed
  have ih: "fast_int_loop q x is s = Some (find (\<lambda>p. x \<in> fast_ints s p) (map ((!) (ring_items q)) is))"
    using Cons by simp
  show ?case using g v mem ih by simp
qed simp

lemma get_fast_int_vcpu_node_eq:
  assumes "ready s ps" "\<And>p. p \<in> set ps \<Longrightarrow> fast_conf_ok s p"
  shows "get_fast_int_vcpu_node x s = Some (find (\<lambda>p. x \<in> fast_ints s p) ps)"
proof -
  from assms(1) obtain q where q: "vcpu_ready_list s = Some q" "ring_inv q" "ring_items q = ps"
    by (auto simp: ready_def)
  have m: "map ((!) ps) [0..<length ps] = ps" by (rule map_nth)
  have v: "fast_conf_ok s p" if "p \<in> set (ring_items q)" for p using assms(2) that q(3) by simp
  have "\<forall>i\<in>set [0..<length ps]. i < length (ring_items q)" using q(3) by simp
  from fast_int_loop_ok [OF q(2) v this, of x]
  show ?thesis unfolding get_fast_int_vcpu_node_def q(1) using ready_count [OF assms(1) q(1)] q(3) m by simp
qed

text \<open>Marking a VCPU critical keeps the count.\<close>

lemma fast_interrupt_delivery_ok:
  assumes "sched_inv s ps" "p \<in> set ps"
  obtains s' where "fast_interrupt_delivery p s = Some s'" "sched_inv s' ps"
    "vcpu_executing s' = vcpu_executing s" "conf s' = conf s"
    "\<And>r. r \<noteq> p \<Longrightarrow> vcpus s' r = vcpus s r"
    "vcpu_executing s \<noteq> Some p \<Longrightarrow> crit_bit (vcpus s') p \<and> pending s' \<noteq> 0"
proof -
  have d: "distinct ps" using assms by (simp add: sched_inv_def)
  have lp: "length ps < 2 ^ 30" using assms(1) ready_length by (auto simp: sched_inv_def)
  obtain v where v: "vcpus s p = Some v" using assms by (auto simp: sched_inv_def)
  let ?C = "\<lambda>vs. {x. crit_bit vs x} \<inter> set ps"
  have pend: "pending s = of_nat (card (?C (vcpus s)))" using assms(1) d by (simp add: sched_inv_def pending_count)
  have nz: "(of_nat (card (?C vs)) :: u32) \<noteq> 0" if "crit_bit vs p" for vs
  proof -
    have "card (?C vs) \<le> length ps" using card_mono [of "set ps" "?C vs"] card_length [of ps] by simp
    moreover have "0 < card (?C vs)" using that assms(2) card_gt_0_iff by blast
    ultimately show ?thesis using lp by (simp add: word_of_nat_eq_0_iff nat_dvd_not_less)
  qed
  show thesis
  proof (cases "vcpu_executing s = Some p \<or> critical v \<noteq> 0")
    case True
    have "crit_bit (vcpus s) p" if "vcpu_executing s \<noteq> Some p" using True that v by (simp add: crit_bit_def)
    then show thesis using True v assms(1) nz pend
      by (intro that [of s]) (auto simp: fast_interrupt_delivery_def)
  next
    case False
    let ?vs = "(vcpus s)(p \<mapsto> v\<lparr>critical := 1\<rparr>)"
    have "?C ?vs = insert p (?C (vcpus s))" "p \<notin> ?C (vcpus s)"
      using assms(2) False v by (auto simp: crit_bit_def)
    then have c: "pending s + 1 = of_nat (card (?C ?vs))" using pend by simp
    have "crit_bit ?vs p" by (simp add: crit_bit_def)
    then show thesis using False v assms(1) d c nz [of ?vs]
      by (intro that [of "s\<lparr>vcpus := ?vs, pending := pending s + 1\<rparr>"])
        (auto simp: fast_interrupt_delivery_def sched_inv_def pending_count ready_def)
  qed
qed

end
