(* ===== verification/Vm.thy ===== *)
theory Vm
  imports SchedInv
begin

text \<open>
  Creation of the virtual machines at boot, \<open>sys/kernel/vm.c\<close>. A structure that could not be
  allocated is written through a null pointer, which root mode does not survive: \<open>None\<close>. The
  log macros \<open>INFO\<close> and \<open>WARNING\<close> have no effect on the modelled state.
\<close>

subsection \<open>Operations\<close>

definition zero_vcpu :: vcpu_t where
  "zero_vcpu = \<lparr>vc_ident = 0, priority = 0, priority_rem = 0, critical = 0, state = VCPU_RUNNING,
     bgjobs = 0, gprshadowset = 0, cp0_registers = replicate 16 0, guestclt2 = 0, vc_vm = 0, pc = 0,
     vc_init = 0,
     messages = \<lparr>mb_in = 0, mb_out = 0, num_messages = 0,
       message_list = replicate 5 \<lparr>source_id = 0, msg_size = 0, message = replicate 256 0\<rparr>\<rparr>,
     gpr = None\<rparr>"

definition zero_tlbentry :: tlbentry where
  "zero_tlbentry = \<lparr>te_guestid = 0, te_index = 0, te_entrylo0 = 0, te_lo0flags = 0, te_entrylo1 = 0,
     te_lo1flags = 0, te_pagemask = 0, te_entryhi = 0, te_coherency = 0\<rparr>"

definition GPR_SIZE :: "port \<Rightarrow> u32" where
  "GPR_SIZE p = (case p of PIC32MZ \<Rightarrow> 32 | BAIKAL_T1 \<Rightarrow> 136)"

definition BARE_METAL_ENTRY_POINT :: "port \<Rightarrow> u32" where
  "BARE_METAL_ENTRY_POINT p = (case p of PIC32MZ \<Rightarrow> 0x9D001000 | BAIKAL_T1 \<Rightarrow> 0x80001000)"

definition LINUX_ENTRY_POINT :: "port \<Rightarrow> u32" where
  "LINUX_ENTRY_POINT p = 0x80100400"

text \<open>\<open>malloc(GPR_SIZE)\<close> and \<open>memset\<close> to zero.\<close>

definition alloc_gpr :: "hv \<Rightarrow> (nat \<times> hv) option" where
  "alloc_gpr s =
     do { let sz = GPR_SIZE (c_port (conf s));
          (r, h) \<leftarrow> malloc sz (heap s);
          g \<leftarrow> r;
          Some (g, s\<lparr>heap := h, gpr_areas := (gpr_areas s)(g :=
            (\<lambda>i. if i < unat sz div 4 then 0 else gpr_areas s g i))\<rparr>) }"

definition create_vcpu :: "nat \<Rightarrow> u32 \<Rightarrow> u32 \<Rightarrow> hv \<Rightarrow> (nat \<times> hv) option" where
  "create_vcpu vm entry_point prio s =
     do { let n = num_shadow_gprs s;
          let ident = next_vcpu_id s;
          (r, h) \<leftarrow> malloc 1444 (heap s);
          vcpu \<leftarrow> r;
          let s1 = s\<lparr>heap := h\<rparr>;
          (set, g, s2) \<leftarrow>
            (if n < ident
             then do { (g, s2) \<leftarrow> alloc_gpr s1; Some (if n = 0 then 0 else 1, Some g, s2) }
             else Some (ident, None, s1));
          let v = zero_vcpu\<lparr>gprshadowset := set, gpr := g, vc_ident := ident, vc_init := 1,
                            pc := entry_point, priority := prio, priority_rem := prio, vc_vm := vm\<rparr>;
          Some (vcpu, s2\<lparr>vcpus := (vcpus s2)(vcpu \<mapsto> v), next_vcpu_id := ident + 1\<rparr>) }"

text \<open>The loop that fills and writes the TLB entries of a VM.\<close>

definition vm_tlbentry :: "u32 \<Rightarrow> u32 \<Rightarrow> tlb_entries \<Rightarrow> tlbentry" where
  "vm_tlbentry gid index c =
     \<lparr>te_guestid = gid, te_index = index,
      te_entrylo0 = cfg_entrylo0 c, te_lo0flags = (if cfg_entrylo0 c \<noteq> 0 then ENTRYLO_V OR ENTRYLO_D else 0),
      te_entrylo1 = cfg_entrylo1 c, te_lo1flags = (if cfg_entrylo1 c \<noteq> 0 then ENTRYLO_V OR ENTRYLO_D else 0),
      te_pagemask = cfg_pagemask c, te_entryhi = cfg_entryhi c, te_coherency = cfg_coherency c\<rparr>"

fun fill_tlb :: "nat list \<Rightarrow> u32 \<Rightarrow> tlb_entries list \<Rightarrow> tlbentry list \<Rightarrow> hv \<Rightarrow> (tlbentry list \<times> hv) option" where
  "fill_tlb [] gid cs es s = Some (es, s)"
| "fill_tlb (i # is) gid cs es s =
     do { c \<leftarrow> arr_get cs (int i);
          let e = vm_tlbentry gid (next_tlbindex s) c;
          es1 \<leftarrow> arr_set es (int i) e;
          s1 \<leftarrow> tlbEntryWrite e s;
          fill_tlb is gid cs es1 (s1\<lparr>next_tlbindex := next_tlbindex s1 + 1\<rparr>) }"

definition entry_point_of :: "port \<Rightarrow> u32 \<Rightarrow> u32" where
  "entry_point_of p os =
     (if os = 1 then BARE_METAL_ENTRY_POINT p else if os = 2 then LINUX_ENTRY_POINT p else 0)"

definition create_vm :: "vmconf_t \<Rightarrow> hv \<Rightarrow> (nat \<times> hv) option" where
  "create_vm vm_conf s =
     do { let n = num_tlb_entries vm_conf;
          (r, h1) \<leftarrow> malloc 32 (heap s);
          vm \<leftarrow> r;
          let ident = next_vm_id s;
          (t, h2) \<leftarrow> malloc (36 * n) h1;
          ensure (t \<noteq> None \<or> 36 * n = 0);
          let s1 = s\<lparr>heap := h2, next_vm_id := ident + 1\<rparr>;
          (es, s2) \<leftarrow> fill_tlb [0..<unat n] ident (cfg_tlb vm_conf) (replicate (unat n) zero_tlbentry) s1;
          let m = \<lparr>vm_name = cfg_vm_name vm_conf, vm_ident = ident, base_addr = ram_base vm_conf,
                   os_type = cfg_os_type vm_conf, vm_init = 1, vmconf = vm_conf, ntlbent = n, tlbentries = es\<rparr>;
          let s3 = s2\<lparr>vms := (vms s2)(vm \<mapsto> m)\<rparr>;
          (vcpu, s4) \<leftarrow> create_vcpu vm (entry_point_of (c_port (conf s)) (os_type m)) (cfg_priority vm_conf) s3;
          q \<leftarrow> vcpu_ready_list s4;
          (rc, q1) \<leftarrow> queue_addtail q vcpu;
          Some (vm, s4\<lparr>vcpu_ready_list := Some q1\<rparr>) }"

fun create_vms :: "nat list \<Rightarrow> hv \<Rightarrow> hv option" where
  "create_vms [] s = Some s"
| "create_vms (i # is) s =
     do { c \<leftarrow> arr_get (VMCONF (conf s)) (int i);
          (vm, s1) \<leftarrow> create_vm c s;
          create_vms is s1 }"

definition initializeMachines :: "hv \<Rightarrow> hv option" where
  "initializeMachines s =
     do { (q, h) \<leftarrow> queue_create (int (NVMACHINES (conf s))) (heap_junk (conf s)) (heap s);
          create_vms [0..<NVMACHINES (conf s)] (s\<lparr>vcpu_ready_list := q, heap := h\<rparr>) }"

end
