(* ===== verification/Fairness.thy ===== *)
theory Fairness
  imports SchedInv
begin

text \<open>
  Progress of the priority round robin: repeated scheduling decisions reach every running VCPU
  whose remaining priority is below the sentinel 255, as long as no priority is 0; and what
  happens when the two side conditions fail.
\<close>

fun rr_iter :: "nat \<Rightarrow> hv \<Rightarrow> (nat option \<times> hv) option" where
  "rr_iter 0 s = round_robin_scheduler s"
| "rr_iter (Suc n) s = do { (r, s1) \<leftarrow> round_robin_scheduler s; rr_iter n s1 }"

text \<open>All VCPUs of the list exist and none carries the critical mark.\<close>

definition calm :: "hv \<Rightarrow> nat list \<Rightarrow> bool" where
  "calm s ps \<longleftrightarrow> sched_inv s ps \<and> (\<forall>p\<in>set ps. \<not> crit_bit (vcpus s) p)"

lemma calm_find: "calm s ps \<Longrightarrow> find (urgent (vcpus s)) ps = None"
  by (auto simp: calm_def urgent_def find_None_iff)

lemma calm_step:
  assumes c: "calm s ps"
  obtains s1 where "round_robin_scheduler s = Some (scan (vcpus s) 255 None ps, s1)"
    "vcpus s1 = after_pick (vcpus s) ps" "calm s1 ps"
proof -
  note f = calm_find [OF c]
  have inv: "sched_inv s ps" and v: "\<And>p. p \<in> set ps \<Longrightarrow> vcpus s p \<noteq> None"
    using c by (auto simp: calm_def sched_inv_def)
  obtain s1 where s1: "round_robin_scheduler s = Some (pick (vcpus s) ps, s1)"
    "vcpus s1 = after_pick (vcpus s) ps" "sched_inv s1 (order_after (vcpus s) ps)"
    by (rule round_robin_sched_inv [OF inv])
  have o: "order_after (vcpus s) ps = ps" using f by (simp add: order_after_def)
  have "calm s1 ps"
    using s1 o c crit_bit_after_calm [OF f v] by (simp add: calm_def)
  then show thesis using that s1 f by (simp add: pick_def)
qed

text \<open>The effect of one calm decision on the fields it reads.\<close>

lemma after_pick_calm:
  assumes "find (urgent vs) ps = None" "scan vs 255 None ps = Some b"
  shows "running (after_pick vs ps) q = running vs q"
    "running vs q \<Longrightarrow> priority (the (after_pick vs ps q)) = priority (the (vs q))"
    "prem (after_pick vs ps) b = priority (the (vs b))"
    "q \<in> set ps \<Longrightarrow> q \<noteq> b \<Longrightarrow> running vs q \<Longrightarrow> prem (after_pick vs ps) q = prem vs q - prem vs b"
  using assms
  by (auto simp: after_pick_def age_def running_def prem_def elim!: scan_Some)

definition zeros :: "(nat \<Rightarrow> vcpu_t option) \<Rightarrow> nat list \<Rightarrow> nat" where
  "zeros vs ps = card {q \<in> set ps. running vs q \<and> prem vs q = 0}"

lemma zeros_le: "zeros vs ps \<le> length ps"
proof -
  have "zeros vs ps \<le> card (set ps)" unfolding zeros_def by (intro card_mono) auto
  then show ?thesis using card_length [of ps] by simp
qed

definition fair_conf :: "(nat \<Rightarrow> vcpu_t option) \<Rightarrow> nat list \<Rightarrow> bool" where
  "fair_conf vs ps \<longleftrightarrow> (\<forall>q\<in>set ps. running vs q \<longrightarrow> priority (the (vs q)) \<noteq> 0)"

lemma fair_step:
  assumes f: "find (urgent vs) ps = None" and s: "scan vs 255 None ps = Some b"
    and fair: "fair_conf vs ps" and p: "p \<in> set ps" "running vs p" "p \<noteq> b"
  defines "m \<equiv> \<lambda>vs. unat (prem vs p) * (length ps + 1) + zeros vs ps"
  shows "fair_conf (after_pick vs ps) ps" "prem (after_pick vs ps) p \<le> prem vs p"
    "m (after_pick vs ps) < m vs"
proof -
  note A = after_pick_calm [OF f s]
  from s have b: "b \<in> set ps" "running vs b"
    and min: "\<And>q. q \<in> set ps \<Longrightarrow> running vs q \<Longrightarrow> prem vs b \<le> prem vs q"
    by (auto elim: scan_Some)
  show "fair_conf (after_pick vs ps) ps" using fair A(1,2) by (simp add: fair_conf_def)
  have pp: "prem (after_pick vs ps) p = prem vs p - prem vs b" using A(4) p by simp
  have le: "prem vs b \<le> prem vs p" using min p by simp
  then have up: "unat (prem (after_pick vs ps) p) = unat (prem vs p) - unat (prem vs b)"
    unfolding pp by (rule unat_sub)
  then show "prem (after_pick vs ps) p \<le> prem vs p" by (simp add: word_le_nat_alt)
  show "m (after_pick vs ps) < m vs"
  proof (cases "prem vs b = 0")
    case True
    have "{q \<in> set ps. running (after_pick vs ps) q \<and> prem (after_pick vs ps) q = 0}
      = {q \<in> set ps. running vs q \<and> prem vs q = 0} - {b}"
    proof -
      have "prem (after_pick vs ps) b \<noteq> 0" using A(3) fair b by (simp add: fair_conf_def)
      then have "(q \<in> set ps \<and> running vs q \<and> prem (after_pick vs ps) q = 0) =
          (q \<in> set ps \<and> running vs q \<and> prem vs q = 0 \<and> q \<noteq> b)" for q
        using A(4) [of q] True by (cases "q = b") auto
      then show ?thesis using A(1) by auto
    qed
    moreover have "b \<in> {q \<in> set ps. running vs q \<and> prem vs q = 0}" using b True by simp
    ultimately have "zeros (after_pick vs ps) ps < zeros vs ps"
      unfolding zeros_def by (simp add: card_Diff1_less del: card_Diff_insert)
    then show ?thesis using up True by (simp add: m_def)
  next
    case False
    then have nz: "0 < unat (prem vs b)" by (simp add: unat_gt_0)
    have "unat (prem (after_pick vs ps) p) + 1 \<le> unat (prem vs p)"
      using up nz le by (simp add: word_le_nat_alt)
    then have "(unat (prem (after_pick vs ps) p) + 1) * (length ps + 1) \<le> unat (prem vs p) * (length ps + 1)"
      by (rule mult_le_mono1)
    then show ?thesis using zeros_le [of "after_pick vs ps" ps] by (simp add: m_def)
  qed
qed

lemma served_aux:
  "calm s ps \<Longrightarrow> fair_conf (vcpus s) ps \<Longrightarrow> p \<in> set ps \<Longrightarrow> running (vcpus s) p \<Longrightarrow> prem (vcpus s) p < 255 \<Longrightarrow>
   m = unat (prem (vcpus s) p) * (length ps + 1) + zeros (vcpus s) ps \<Longrightarrow>
   \<exists>n\<le>m. \<exists>s'. rr_iter n s = Some (Some p, s')"
proof (induction m arbitrary: s rule: less_induct)
  case (less m)
  obtain s1 where s1: "round_robin_scheduler s = Some (scan (vcpus s) 255 None ps, s1)"
    "vcpus s1 = after_pick (vcpus s) ps" "calm s1 ps"
    by (rule calm_step [OF less.prems(1)])
  have "scan (vcpus s) 255 None ps \<noteq> None"
    using less.prems(3-5) by (auto simp: scan_None not_le)
  then obtain b where b: "scan (vcpus s) 255 None ps = Some b" by auto
  show ?case
  proof (cases "b = p")
    case True
    then show ?thesis using s1 b by (intro exI [of _ 0]) simp
  next
    case False
    note F = fair_step [OF calm_find [OF less.prems(1)] b less.prems(2,3,4) False [symmetric]]
    have r: "running (vcpus s1) p"
      using after_pick_calm(1) [OF calm_find [OF less.prems(1)] b] s1(2) less.prems(4) by simp
    have lt: "prem (vcpus s1) p < 255" using F(2) less.prems(5) s1(2) by simp
    let ?m1 = "unat (prem (vcpus s1) p) * (length ps + 1) + zeros (vcpus s1) ps"
    have m1: "?m1 < m" using F(3) s1(2) less.prems(6) by simp
    from less.IH [OF m1 s1(3) _ less.prems(3) r lt refl] F(1) s1(2)
    obtain n s' where "n \<le> ?m1" "rr_iter n s1 = Some (Some p, s')" by auto
    then show ?thesis using s1(1) m1 by (intro exI [of _ "Suc n"]) auto
  qed
qed

text \<open>A bound that does not mention the measure.\<close>

lemma served_within:
  assumes "calm s ps" "fair_conf (vcpus s) ps" "p \<in> set ps" "running (vcpus s) p" "prem (vcpus s) p < 255"
  shows "\<exists>n\<le>255 * (length ps + 1). \<exists>s'. rr_iter n s = Some (Some p, s')"
proof -
  have "unat (prem (vcpus s) p) < 255" using assms(5) by (simp add: word_less_nat_alt)
  then have "unat (prem (vcpus s) p) * (length ps + 1) + zeros (vcpus s) ps \<le> 254 * (length ps + 1) + length ps"
    using zeros_le [of "vcpus s" ps] by (intro add_mono mult_le_mono1) auto
  also have "\<dots> \<le> 255 * (length ps + 1)" by simp
  finally show ?thesis using served_aux [OF assms refl] by (meson le_trans)
qed

text \<open>Without the side conditions: priority 0 keeps the processor, remaining priority 255 never gets it.\<close>

lemma zero_hogs:
  "calm s ps \<Longrightarrow> b \<in> set ps \<Longrightarrow> running (vcpus s) b \<Longrightarrow> prem (vcpus s) b = 0 \<Longrightarrow> priority (the (vcpus s b)) = 0 \<Longrightarrow>
   p \<in> set ps \<Longrightarrow> prem (vcpus s) p \<noteq> 0 \<Longrightarrow> rr_iter n s \<noteq> Some (Some p, s')"
proof (induction n arbitrary: s)
  case 0
  obtain s1 where s1: "round_robin_scheduler s = Some (scan (vcpus s) 255 None ps, s1)"
    by (rule calm_step [OF 0(1)])
  have "scan (vcpus s) 255 None ps \<noteq> Some p" using 0 by (auto elim!: scan_Some)
  then show ?case using s1 by simp
next
  case (Suc n)
  obtain s1 where s1: "round_robin_scheduler s = Some (scan (vcpus s) 255 None ps, s1)"
    "vcpus s1 = after_pick (vcpus s) ps" "calm s1 ps"
    by (rule calm_step [OF Suc.prems(1)])
  have "scan (vcpus s) 255 None ps \<noteq> None" using Suc.prems by (auto simp: scan_None)
  then obtain c where c: "scan (vcpus s) 255 None ps = Some c" by auto
  note A = after_pick_calm [OF calm_find [OF Suc.prems(1)] c]
  have cz: "prem (vcpus s) c = 0" using c Suc.prems(2-4) by (auto elim!: scan_Some)
  have v: "\<And>q. q \<in> set ps \<Longrightarrow> vcpus s q \<noteq> None" using Suc.prems(1) by (auto simp: calm_def sched_inv_def)
  have "prem (vcpus s1) b = 0"
    using A(3) A(4) [of b] Suc.prems(2-5) cz s1(2) by (cases "b = c") auto
  moreover have "prem (vcpus s1) p \<noteq> 0"
  proof -
    have "p \<noteq> c" using cz Suc.prems(7) by auto
    then show ?thesis
      using cz Suc.prems(6,7) c calm_find [OF Suc.prems(1)] v [of p] unfolding s1(2)
      by (auto simp: after_pick_def age_def prem_def)
  qed
  ultimately have "rr_iter n s1 \<noteq> Some (Some p, s')"
    using Suc.IH [OF s1(3)] Suc.prems(2-6) A(1,2) s1(2) by simp
  then show ?case using s1(1) by simp
qed

lemma sentinel_starves:
  assumes "calm s ps" "\<And>q. q \<in> set ps \<Longrightarrow> running (vcpus s) q \<Longrightarrow> prem (vcpus s) q = 255"
  shows "\<exists>s'. round_robin_scheduler s = Some (None, s') \<and> calm s' ps \<and> vcpus s' = vcpus s"
proof -
  obtain s1 where s1: "round_robin_scheduler s = Some (scan (vcpus s) 255 None ps, s1)"
    "vcpus s1 = after_pick (vcpus s) ps" "calm s1 ps"
    by (rule calm_step [OF assms(1)])
  have "scan (vcpus s) 255 None ps = None" using assms(2) by (simp add: scan_None)
  then show ?thesis using s1 calm_find [OF assms(1)] by (auto simp: after_pick_def)
qed

end
