(* ===== verification/Boot.thy ===== *)
theory Boot
  imports Vm Fairness
begin

text \<open>
  What \<open>initializeMachines\<close> establishes: with enough heap every VM of the configuration gets
  its own VCPU and structures, the ready list holds the VCPUs in configuration order with ids
  counted from 1, and the TLB slots used are those below the number of configured entries, all
  tagged with a guest id that is not 0.
\<close>

subsection \<open>TLB entries of a VM\<close>

lemma fill_tlb_ok:
  "(\<forall>i\<in>set is. i < length cs \<and> i < length es) \<Longrightarrow>
   unat (next_tlbindex s) + length is \<le> length (tlb s) \<Longrightarrow> length (tlb s) < 2 ^ 32 \<Longrightarrow>
   \<exists>es' c T. fill_tlb is gid cs es s =
       Some (es', s\<lparr>cp0 := c, tlb := T, next_tlbindex := next_tlbindex s + of_nat (length is)\<rparr>) \<and>
     length T = length (tlb s) \<and>
     (\<forall>j. j < unat (next_tlbindex s) \<or> unat (next_tlbindex s) + length is \<le> j \<longrightarrow> T ! j = tlb s ! j) \<and>
     (\<forall>j. unat (next_tlbindex s) \<le> j \<longrightarrow> j < unat (next_tlbindex s) + length is \<longrightarrow>
        (\<exists>e. T ! j = Some e \<and> hw_guestid e = gid AND 0xFF))"
proof (induction "is" arbitrary: es s)
  case Nil
  have "s\<lparr>cp0 := cp0 s, tlb := tlb s, next_tlbindex := next_tlbindex s\<rparr> = s" by (cases s) simp
  then show ?case by (intro exI [of _ es] exI [of _ "cp0 s"] exI [of _ "tlb s"]) simp
next
  case (Cons i "is")
  let ?n = "unat (next_tlbindex s)"
  obtain c0 where c0: "c0 = cs ! i" by simp
  let ?e = "vm_tlbentry gid (next_tlbindex s) c0"
  have i: "i < length cs" "i < length es" and lt: "?n < length (tlb s)" using Cons.prems by auto
  have ti: "te_index ?e = next_tlbindex s" by (simp add: vm_tlbentry_def)
  obtain c where w: "tlbEntryWrite ?e s = Some (s\<lparr>cp0 := c, tlb := (tlb s)[?n := Some (entry_hw ?e)]\<rparr>)"
    by (rule tlbEntryWrite_eq [of ?e s, unfolded ti, OF lt], rule that)
  let ?s = "s\<lparr>cp0 := c, tlb := (tlb s)[?n := Some (entry_hw ?e)], next_tlbindex := next_tlbindex s + 1\<rparr>"
  have n1: "unat (next_tlbindex s + 1) = ?n + 1"
    using lt Cons.prems(3) by (subst unat_add_u32) simp_all
  have fin: "\<forall>j\<in>set is. j < length cs \<and> j < length (es[i := ?e])" using Cons.prems(1) by simp
  have b1: "unat (next_tlbindex ?s) + length is \<le> length (tlb ?s)" using n1 Cons.prems(2) by simp
  have b2: "length (tlb ?s) < 2 ^ 32" using Cons.prems(3) by simp
  from Cons.IH [OF fin b1 b2] obtain es' c' T where
    r: "fill_tlb is gid cs (es[i := ?e]) ?s =
       Some (es', ?s\<lparr>cp0 := c', tlb := T, next_tlbindex := next_tlbindex ?s + of_nat (length is)\<rparr>)"
    and T: "length T = length (tlb s)"
      "\<forall>j. j < ?n + 1 \<or> ?n + 1 + length is \<le> j \<longrightarrow> T ! j = (tlb s)[?n := Some (entry_hw ?e)] ! j"
      "\<forall>j. ?n + 1 \<le> j \<longrightarrow> j < ?n + 1 + length is \<longrightarrow> (\<exists>e. T ! j = Some e \<and> hw_guestid e = gid AND 0xFF)"
    using n1 by auto
  have "fill_tlb (i # is) gid cs es s =
      Some (es', s\<lparr>cp0 := c', tlb := T, next_tlbindex := next_tlbindex s + of_nat (length (i # is))\<rparr>)"
    using r w i by (simp add: c_simps c0 [symmetric] Let_def add.assoc add.commute)
  moreover have "\<exists>e. T ! j = Some e \<and> hw_guestid e = gid AND 0xFF"
    if "?n \<le> j" "j < ?n + length (i # is)" for j
  proof (cases "j = ?n")
    case True
    then show ?thesis using T(2) lt by (simp add: entry_hw_def vm_tlbentry_def)
  next
    case False
    then show ?thesis using T(3) that by simp
  qed
  moreover have "T ! j = tlb s ! j" if "j < ?n \<or> ?n + length (i # is) \<le> j" for j
    using that T(2) by auto
  ultimately show ?case using T(1)
    by (intro exI [of _ es'] exI [of _ c'] exI [of _ T]) (simp del: fill_tlb.simps)
qed

subsection \<open>One VM\<close>

definition vm_cost :: "port \<Rightarrow> vmconf_t \<Rightarrow> nat" where
  "vm_cost p c = alloc_cost 32 + alloc_cost (36 * num_tlb_entries c) + alloc_cost 1444 + alloc_cost (GPR_SIZE p)"

definition good_conf :: "vmconf_t \<Rightarrow> bool" where
  "good_conf c \<longleftrightarrow> num_tlb_entries c = of_nat (length (cfg_tlb c)) \<and> length (cfg_tlb c) < 64"

lemma create_vcpu_ok:
  assumes ready: "heap_ready (heap s) b a" and cost: "alloc_cost 1444 + alloc_cost (GPR_SIZE (c_port (conf s))) < a"
  obtains p v h ga a' where "create_vcpu vm entry prio s =
      Some (p, s\<lparr>heap := h, gpr_areas := ga, vcpus := (vcpus s)(p \<mapsto> v), next_vcpu_id := next_vcpu_id s + 1\<rparr>)"
    "heap_ready h b a'" "a - (alloc_cost 1444 + alloc_cost (GPR_SIZE (c_port (conf s)))) \<le> a'" "a' \<le> a"
    "b + a' < p" "p \<le> b + a"
    "vc_ident v = next_vcpu_id s" "vc_init v = 1" "state v = VCPU_RUNNING" "critical v = 0" "vc_vm v = vm"
    "priority v = prio" "priority_rem v = prio" "messages v = messages zero_vcpu"
proof -
  let ?g = "GPR_SIZE (c_port (conf s))"
  have g: "unat ?g + 7 < 2 ^ 32" by (simp add: GPR_SIZE_def split: port.split)
  have c1: "unat (1444 :: u32) + 7 < 2 ^ 32" by simp
  have lt: "alloc_cost 1444 < a" using cost by simp
  obtain p h where 1: "malloc 1444 (heap s) = Some (Some p, h)" "heap_ready h b (a - alloc_cost 1444)"
    "b + 8 \<le> p" "p + unat (1444 :: u32) \<le> b + a" "b + (a - alloc_cost 1444) < p"
    by (rule kr.alloc_inside [OF ready c1 lt])
  have lt2: "alloc_cost ?g < a - alloc_cost 1444" using cost by simp
  obtain gp h2 where 2: "malloc ?g h = Some (Some gp, h2)" "heap_ready h2 b (a - alloc_cost 1444 - alloc_cost ?g)"
    by (rule kr.alloc_inside [OF 1(2) g lt2])
  let ?v = "\<lambda>set g. zero_vcpu\<lparr>gprshadowset := set, gpr := g, vc_ident := next_vcpu_id s, vc_init := 1,
      pc := entry, priority := prio, priority_rem := prio, vc_vm := vm\<rparr>"
  show thesis
  proof (cases "num_shadow_gprs s < next_vcpu_id s")
    case True
    let ?ga = "(gpr_areas s)(gp := (\<lambda>i. if i < unat ?g div 4 then 0 else gpr_areas s gp i))"
    show thesis
      by (rule that [where p = p and h = h2 and a' = "a - alloc_cost 1444 - alloc_cost ?g" and ga = ?ga
          and v = "?v (if num_shadow_gprs s = 0 then 0 else 1) (Some gp)"])
        (use 1 2 True in \<open>simp_all add: create_vcpu_def alloc_gpr_def zero_vcpu_def Let_def cong: if_cong del: fun_upd_apply\<close>)
  next
    case False
    have e: "s\<lparr>heap := h, gpr_areas := gpr_areas s, vcpus := x, next_vcpu_id := y\<rparr>
        = s\<lparr>heap := h, vcpus := x, next_vcpu_id := y\<rparr>" for x y by (cases s) simp
    show thesis
      by (rule that [where p = p and h = h and a' = "a - alloc_cost 1444" and ga = "gpr_areas s"
          and v = "?v (next_vcpu_id s) None"], unfold e)
        (use 1 False in \<open>simp_all add: create_vcpu_def zero_vcpu_def Let_def del: fun_upd_apply\<close>)
  qed
qed

text \<open>Everything \<open>create_vm\<close> changes, in one equation.\<close>

lemma create_vm_eq:
  assumes ready: "heap_ready (heap s) b a" and cost: "vm_cost (c_port (conf s)) c < a"
    and good: "good_conf c" and n: "unat (next_tlbindex s) + length (cfg_tlb c) \<le> length (tlb s)"
    and len: "length (tlb s) < 2 ^ 32"
    and q: "vcpu_ready_list s = Some q" "ring_inv q" "length (ring_items q) < ring_cap q"
  obtains vm p v m h ga a' q' cp T where "create_vm c s = Some (vm, s\<lparr>heap := h, next_vm_id := next_vm_id s + 1,
      cp0 := cp, tlb := T, next_tlbindex := next_tlbindex s + num_tlb_entries c, vms := (vms s)(vm \<mapsto> m),
      gpr_areas := ga, vcpus := (vcpus s)(p \<mapsto> v), next_vcpu_id := next_vcpu_id s + 1,
      vcpu_ready_list := Some q'\<rparr>)"
    "ring_inv q'" "ring_items q' = ring_items q @ [p]" "ring_cap q' = ring_cap q"
    "heap_ready h b a'" "a - vm_cost (c_port (conf s)) c \<le> a'" "a' \<le> a"
    "b + a' < vm" "vm \<le> b + a" "b + a' < p" "p \<le> b + a"
    "vc_ident v = next_vcpu_id s" "vc_init v = 1" "state v = VCPU_RUNNING" "critical v = 0" "vc_vm v = vm"
    "priority v = cfg_priority c" "priority_rem v = cfg_priority c" "messages v = messages zero_vcpu"
    "vm_ident m = next_vm_id s" "vmconf m = c" "base_addr m = ram_base c"
    "length T = length (tlb s)"
    "\<And>j. j < unat (next_tlbindex s) \<or> unat (next_tlbindex s) + length (cfg_tlb c) \<le> j \<Longrightarrow> T ! j = tlb s ! j"
    "\<And>j. unat (next_tlbindex s) \<le> j \<Longrightarrow> j < unat (next_tlbindex s) + length (cfg_tlb c) \<Longrightarrow>
       \<exists>e. T ! j = Some e \<and> hw_guestid e = next_vm_id s AND 0xFF"
proof -
  let ?n = "num_tlb_entries c" and ?pc = "c_port (conf s)"
  have k: "length (cfg_tlb c) < 64" and nk: "?n = of_nat (length (cfg_tlb c))"
    using good by (auto simp: good_conf_def)
  have un: "unat ?n = length (cfg_tlb c)" using k nk by (simp add: unat_of_nat)
  have u36: "unat (36 * ?n) + 7 < 2 ^ 32" using k un by (simp add: unat_word_ariths)
  have c32: "unat (32 :: u32) + 7 < 2 ^ 32" by simp
  have l1: "alloc_cost 32 < a" and l2: "alloc_cost (36 * ?n) < a - alloc_cost 32"
    using cost by (auto simp: vm_cost_def)
  let ?a2 = "a - alloc_cost 32 - alloc_cost (36 * ?n)"
  obtain vm h1 where 1: "malloc 32 (heap s) = Some (Some vm, h1)" "heap_ready h1 b (a - alloc_cost 32)"
    "b + 8 \<le> vm" "vm + unat (32 :: u32) \<le> b + a" "b + (a - alloc_cost 32) < vm"
    by (rule kr.alloc_inside [OF ready c32 l1])
  obtain t h2 where 2: "malloc (36 * ?n) h1 = Some (Some t, h2)" "heap_ready h2 b ?a2"
    by (rule kr.alloc_inside [OF 1(2) u36 l2])
  let ?s1 = "s\<lparr>heap := h2, next_vm_id := next_vm_id s + 1\<rparr>"
  have f1: "\<forall>i\<in>set [0..<unat ?n]. i < length (cfg_tlb c) \<and> i < length (replicate (unat ?n) zero_tlbentry)"
    using un by simp
  have f2: "unat (next_tlbindex ?s1) + length [0..<unat ?n] \<le> length (tlb ?s1)" using n un by simp
  have f3: "length (tlb ?s1) < 2 ^ 32" using len by simp
  obtain es cp T where fl: "fill_tlb [0..<unat ?n] (next_vm_id s) (cfg_tlb c) (replicate (unat ?n) zero_tlbentry) ?s1 =
      Some (es, ?s1\<lparr>cp0 := cp, tlb := T, next_tlbindex := next_tlbindex s + ?n\<rparr>)"
    and T: "length T = length (tlb s)"
      "\<And>j. j < unat (next_tlbindex s) \<or> unat (next_tlbindex s) + length (cfg_tlb c) \<le> j \<Longrightarrow> T ! j = tlb s ! j"
      "\<And>j. unat (next_tlbindex s) \<le> j \<Longrightarrow> j < unat (next_tlbindex s) + length (cfg_tlb c) \<Longrightarrow>
         \<exists>e. T ! j = Some e \<and> hw_guestid e = next_vm_id s AND 0xFF"
    using fill_tlb_ok [OF f1 f2 f3, of "next_vm_id s"] nk un by auto
  let ?m = "\<lparr>vm_name = cfg_vm_name c, vm_ident = next_vm_id s, base_addr = ram_base c,
                   os_type = cfg_os_type c, vm_init = 1, vmconf = c, ntlbent = ?n, tlbentries = es\<rparr>"
  let ?s3 = "?s1\<lparr>cp0 := cp, tlb := T, next_tlbindex := next_tlbindex s + ?n, vms := (vms s)(vm \<mapsto> ?m)\<rparr>"
  have r3: "heap_ready (heap ?s3) b ?a2" using 2(2) by simp
  have c3: "alloc_cost 1444 + alloc_cost (GPR_SIZE (c_port (conf ?s3))) < ?a2"
    using cost by (simp add: vm_cost_def)
  obtain p v h ga a' where cv: "create_vcpu vm (entry_point_of ?pc (cfg_os_type c)) (cfg_priority c) ?s3 =
      Some (p, ?s3\<lparr>heap := h, gpr_areas := ga, vcpus := (vcpus ?s3)(p \<mapsto> v), next_vcpu_id := next_vcpu_id ?s3 + 1\<rparr>)"
    and h: "heap_ready h b a'" "?a2 - (alloc_cost 1444 + alloc_cost (GPR_SIZE (c_port (conf ?s3)))) \<le> a'" "a' \<le> ?a2"
    "b + a' < p" "p \<le> b + ?a2"
    and v: "vc_ident v = next_vcpu_id ?s3" "vc_init v = 1" "state v = VCPU_RUNNING" "critical v = 0" "vc_vm v = vm"
    "priority v = cfg_priority c" "priority_rem v = cfg_priority c" "messages v = messages zero_vcpu"
    by (rule create_vcpu_ok [OF r3 c3])
  from ring_addtail_ok [OF q(2,3), of p] obtain q' where q': "queue_addtail q p = Some (0, q')" "ring_inv q'"
    "ring_items q' = ring_items q @ [p]" "ring_cap q' = ring_cap q" by blast
  have "create_vm c s = Some (vm, s\<lparr>heap := h, next_vm_id := next_vm_id s + 1,
      cp0 := cp, tlb := T, next_tlbindex := next_tlbindex s + ?n, vms := (vms s)(vm \<mapsto> ?m),
      gpr_areas := ga, vcpus := (vcpus s)(p \<mapsto> v), next_vcpu_id := next_vcpu_id s + 1,
      vcpu_ready_list := Some q'\<rparr>)"
    using 1(1) 2(1) fl cv q' q(1) by (simp add: create_vm_def Let_def)
  then show thesis
    by (rule that) (use 1 h v q' T in \<open>simp_all add: vm_cost_def\<close>)
qed

lemma small_id: "n < 255 \<Longrightarrow> (of_nat (n + 1) :: u32) AND 0xFF \<noteq> 0"
proof -
  assume n: "n < 255"
  then have u: "unat (of_nat (n + 1) :: u32) = n + 1" by (simp add: unat_of_nat del: of_nat_add of_nat_Suc)
  then have "(of_nat (n + 1) :: u32) AND mask 8 = of_nat (n + 1)" using n by (intro small_and_mask) simp
  moreover have "(of_nat (n + 1) :: u32) \<noteq> 0" using u by (metis Suc_eq_plus1 nat.distinct(1) unsigned_0)
  ultimately show ?thesis by (simp add: mask_eq_exp_minus_1)
qed

definition vcpu_of :: "hv \<Rightarrow> nat \<Rightarrow> nat \<Rightarrow> bool" where
  "vcpu_of s i p \<longleftrightarrow> (\<exists>v m. vcpus s p = Some v \<and> vc_ident v = of_nat (i + 1) \<and> vc_init v = 1 \<and>
        state v = VCPU_RUNNING \<and> critical v = 0 \<and> vms s (vc_vm v) = Some m \<and> vm_ident m = vc_ident v \<and>
        vmconf m = VMCONF (conf s) ! i \<and> base_addr m = ram_base (vmconf m) \<and>
        priority v = cfg_priority (vmconf m) \<and> priority_rem v = priority v \<and> messages v = messages zero_vcpu)"

definition boot_state :: "nat \<Rightarrow> nat \<Rightarrow> nat \<Rightarrow> hv \<Rightarrow> nat list \<Rightarrow> bool" where
  "boot_state cap b a s ps \<longleftrightarrow>
     (\<exists>q. vcpu_ready_list s = Some q \<and> ring_inv q \<and> ring_items q = ps \<and> ring_cap q = cap) \<and>
     distinct ps \<and> pending s = 0 \<and>
     heap_ready (heap s) b a \<and> (\<forall>p. vcpus s p \<noteq> None \<or> vms s p \<noteq> None \<longrightarrow> b + a < p) \<and>
     next_vcpu_id s = of_nat (length ps + 1) \<and> next_vm_id s = of_nat (length ps + 1) \<and>
     (\<forall>i<length ps. vcpu_of s i (ps ! i)) \<and> dom (vcpus s) = set ps \<and>
     (\<forall>j e. j < length (tlb s) \<longrightarrow> tlb s ! j = Some e \<longrightarrow> j < unat (next_tlbindex s) \<and> hw_guestid e \<noteq> 0)"

lemma create_vm_boot:
  assumes B: "boot_state cap b a s ps" and i: "length ps < cap" "length ps < 255"
    and c: "c = VMCONF (conf s) ! length ps" "good_conf c" "vm_cost (c_port (conf s)) c < a"
    and n: "unat (next_tlbindex s) + length (cfg_tlb c) \<le> length (tlb s)" "length (tlb s) < 2 ^ 32"
  obtains vm p s' a' where "create_vm c s = Some (vm, s')" "boot_state cap b a' s' (ps @ [p])"
    "a - vm_cost (c_port (conf s)) c \<le> a'" "conf s' = conf s" "length (tlb s') = length (tlb s)"
    "unat (next_tlbindex s') = unat (next_tlbindex s) + length (cfg_tlb c)"
    "vcpu_executing s' = vcpu_executing s"
proof -
  from B obtain q where q: "vcpu_ready_list s = Some q" "ring_inv q" "ring_items q = ps" "ring_cap q = cap"
    and ready: "heap_ready (heap s) b a" and dist: "distinct ps"
    and low: "\<And>p. vcpus s p \<noteq> None \<or> vms s p \<noteq> None \<Longrightarrow> b + a < p"
    and ids: "next_vcpu_id s = of_nat (length ps + 1)" "next_vm_id s = of_nat (length ps + 1)"
    and old: "\<And>i. i < length ps \<Longrightarrow> vcpu_of s i (ps ! i)"
    and tl: "\<And>j e. j < length (tlb s) \<Longrightarrow> tlb s ! j = Some e \<Longrightarrow> j < unat (next_tlbindex s) \<and> hw_guestid e \<noteq> 0"
    unfolding boot_state_def by blast
  have room: "length (ring_items q) < ring_cap q" using q(3,4) i(1) by simp
  obtain vm p v m h ga a' q' cp T where E: "create_vm c s = Some (vm, s\<lparr>heap := h, next_vm_id := next_vm_id s + 1,
      cp0 := cp, tlb := T, next_tlbindex := next_tlbindex s + num_tlb_entries c, vms := (vms s)(vm \<mapsto> m),
      gpr_areas := ga, vcpus := (vcpus s)(p \<mapsto> v), next_vcpu_id := next_vcpu_id s + 1,
      vcpu_ready_list := Some q'\<rparr>)"
    and q': "ring_inv q'" "ring_items q' = ring_items q @ [p]" "ring_cap q' = ring_cap q"
    and h: "heap_ready h b a'" "a - vm_cost (c_port (conf s)) c \<le> a'" "a' \<le> a"
    and ptr: "b + a' < vm" "vm \<le> b + a" "b + a' < p" "p \<le> b + a"
    and v: "vc_ident v = next_vcpu_id s" "vc_init v = 1" "state v = VCPU_RUNNING" "critical v = 0" "vc_vm v = vm"
    "priority v = cfg_priority c" "priority_rem v = cfg_priority c" "messages v = messages zero_vcpu"
    and m: "vm_ident m = next_vm_id s" "vmconf m = c" "base_addr m = ram_base c"
    and T: "length T = length (tlb s)"
    "\<And>j. j < unat (next_tlbindex s) \<or> unat (next_tlbindex s) + length (cfg_tlb c) \<le> j \<Longrightarrow> T ! j = tlb s ! j"
    "\<And>j. unat (next_tlbindex s) \<le> j \<Longrightarrow> j < unat (next_tlbindex s) + length (cfg_tlb c) \<Longrightarrow>
       \<exists>e. T ! j = Some e \<and> hw_guestid e = next_vm_id s AND 0xFF"
    by (rule create_vm_eq [OF ready c(3,2) n q(1,2) room], rule that)
  let ?s = "s\<lparr>heap := h, next_vm_id := next_vm_id s + 1,
      cp0 := cp, tlb := T, next_tlbindex := next_tlbindex s + num_tlb_entries c, vms := (vms s)(vm \<mapsto> m),
      gpr_areas := ga, vcpus := (vcpus s)(p \<mapsto> v), next_vcpu_id := next_vcpu_id s + 1,
      vcpu_ready_list := Some q'\<rparr>"
  have un: "unat (next_tlbindex s + num_tlb_entries c) = unat (next_tlbindex s) + length (cfg_tlb c)"
    using n c(2) by (subst unat_add_u32) (auto simp: good_conf_def unat_of_nat)
  have fresh: "x \<noteq> p" "x \<noteq> vm" if "vcpus s x \<noteq> None \<or> vms s x \<noteq> None" for x
    using low [OF that] ptr by auto
  have p_new: "p \<notin> set ps"
    using old fresh(1) by (fastforce simp: in_set_conv_nth vcpu_of_def)
  have vs: "vcpu_of ?s i ((ps @ [p]) ! i)" if "i < length (ps @ [p])" for i
  proof (cases "i < length ps")
    case True
    from old [OF True] show ?thesis using True fresh [of "ps ! i"] fresh(2)
      unfolding vcpu_of_def nth_append by fastforce
  next
    case False
    then have "i = length ps" using that by simp
    then show ?thesis using v m ids c(1) by (simp add: vcpu_of_def nth_append)
  qed
  have tl': "j < unat (next_tlbindex ?s) \<and> hw_guestid e \<noteq> 0" if "j < length (tlb ?s)" "tlb ?s ! j = Some e" for j e
  proof -
    have j: "j < length (tlb s)" "T ! j = Some e" using that T(1) by simp_all
    consider "j < unat (next_tlbindex s)"
      | "unat (next_tlbindex s) \<le> j" "j < unat (next_tlbindex s) + length (cfg_tlb c)"
      | "unat (next_tlbindex s) + length (cfg_tlb c) \<le> j" by linarith
    then show ?thesis
    proof cases
      case 2
      from T(3) [OF 2] j(2) ids(2) small_id [OF i(2)] 2(2) un show ?thesis by auto
    qed (use T(2) [of j] tl [OF j(1), of e] j(2) un in auto)
  qed
  have "boot_state cap b a' ?s (ps @ [p])"
    unfolding boot_state_def
  proof (intro conjI)
    show "\<forall>x. vcpus ?s x \<noteq> None \<or> vms ?s x \<noteq> None \<longrightarrow> b + a' < x"
    proof (intro allI impI)
      fix x assume "vcpus ?s x \<noteq> None \<or> vms ?s x \<noteq> None"
      then have "x = p \<or> x = vm \<or> b + a < x" using low [of x] by (auto split: if_splits)
      then show "b + a' < x" using h(3) ptr by auto
    qed
  qed (use q q' B h(1) vs tl' ids p_new dist in \<open>auto simp: boot_state_def\<close>)
  then show thesis using E h(2) T(1) un by (intro that [of vm ?s a' p]) simp_all
qed

subsection \<open>All VMs\<close>

lemma create_vms_boot:
  "boot_state cap b a s ps \<Longrightarrow> length ps = i \<Longrightarrow> N = length (VMCONF (conf s)) \<Longrightarrow> N \<le> cap \<Longrightarrow> N \<le> 255 \<Longrightarrow>
   (\<forall>c\<in>set (VMCONF (conf s)). good_conf c) \<Longrightarrow>
   sum_list (map (vm_cost (c_port (conf s))) (drop i (VMCONF (conf s)))) < a \<Longrightarrow>
   unat (next_tlbindex s) + sum_list (map (length \<circ> cfg_tlb) (drop i (VMCONF (conf s)))) \<le> length (tlb s) \<Longrightarrow>
   length (tlb s) < 2 ^ 32 \<Longrightarrow>
   \<exists>s' ps' a'. create_vms [i..<N] s = Some s' \<and> boot_state cap b a' s' ps' \<and> length ps' = max i N \<and>
     conf s' = conf s \<and> length (tlb s') = length (tlb s) \<and> vcpu_executing s' = vcpu_executing s \<and>
     unat (next_tlbindex s') = unat (next_tlbindex s) + sum_list (map (length \<circ> cfg_tlb) (drop i (VMCONF (conf s))))"
proof (induction "N - i" arbitrary: i s ps a)
  case 0
  then show ?case by (intro exI [of _ s] exI [of _ ps] exI [of _ a]) simp
next
  case (Suc k)
  let ?C = "VMCONF (conf s)" and ?c = "VMCONF (conf s) ! length ps"
  have i: "i < N" using Suc.hyps(2) by simp
  have d: "drop i ?C = ?c # drop (Suc i) ?C" using i Suc.prems(2,3) by (simp add: Cons_nth_drop_Suc)
  have l1: "length ps < cap" "length ps < 255" using i Suc.prems by auto
  have g: "good_conf ?c" using i Suc.prems(2,3,6) by simp
  have cost: "vm_cost (c_port (conf s)) ?c < a" using Suc.prems(7) unfolding d by simp
  have n: "unat (next_tlbindex s) + length (cfg_tlb ?c) \<le> length (tlb s)" using Suc.prems(8) unfolding d by simp
  obtain vm p s1 a1 where s1: "create_vm ?c s = Some (vm, s1)" "boot_state cap b a1 s1 (ps @ [p])"
    "a - vm_cost (c_port (conf s)) ?c \<le> a1" "conf s1 = conf s" "length (tlb s1) = length (tlb s)"
    "unat (next_tlbindex s1) = unat (next_tlbindex s) + length (cfg_tlb ?c)"
    "vcpu_executing s1 = vcpu_executing s"
    by (rule create_vm_boot [OF Suc.prems(1) l1 refl g cost n Suc.prems(9)])
  have "\<exists>s' ps' a'. create_vms [Suc i..<N] s1 = Some s' \<and> boot_state cap b a' s' ps' \<and> length ps' = max (Suc i) N \<and>
     conf s' = conf s1 \<and> length (tlb s') = length (tlb s1) \<and> vcpu_executing s' = vcpu_executing s1 \<and>
     unat (next_tlbindex s') = unat (next_tlbindex s1) + sum_list (map (length \<circ> cfg_tlb) (drop (Suc i) (VMCONF (conf s1))))"
    by (rule Suc.hyps(1) [OF _ s1(2)]) (use Suc.hyps(2) Suc.prems s1 d in auto)
  then obtain s' ps' a' where r: "create_vms [Suc i..<N] s1 = Some s'" "boot_state cap b a' s' ps'" "length ps' = max (Suc i) N"
    "conf s' = conf s1" "length (tlb s') = length (tlb s1)" "vcpu_executing s' = vcpu_executing s1"
    "unat (next_tlbindex s') = unat (next_tlbindex s1) + sum_list (map (length \<circ> cfg_tlb) (drop (Suc i) (VMCONF (conf s1))))"
    by blast
  have "arr_get ?C (int i) = Some ?c" using i Suc.prems(2,3) by (simp add: c_simps)
  then have "create_vms [i..<N] s = Some s'" using i s1(1) r(1) by (simp add: upt_conv_Cons)
  then show ?case using r s1 d i Suc.prems by (intro exI [of _ s'] exI [of _ ps'] exI [of _ a']) simp
qed

text \<open>The heap the boot needs.\<close>

definition boot_cost :: "hv_conf \<Rightarrow> nat" where
  "boot_cost c = alloc_cost 20 + alloc_cost (word_of_int (int (NVMACHINES c) + 1) * 4) +
     sum_list (map (vm_cost (c_port c)) (VMCONF c))"

definition reset_state :: "nat \<Rightarrow> nat \<Rightarrow> hv \<Rightarrow> bool" where
  "reset_state b a s \<longleftrightarrow> heap_ready (heap s) b a \<and> pending s = 0 \<and> vcpus s = (\<lambda>_. None) \<and> vms s = (\<lambda>_. None) \<and>
     next_vcpu_id s = 1 \<and> next_vm_id s = 1 \<and> next_tlbindex s = 0 \<and>
     (\<forall>j<length (tlb s). tlb s ! j = None) \<and> length (tlb s) < 2 ^ 32 \<and> vcpu_executing s = None"

definition sane_conf :: "hv_conf \<Rightarrow> bool" where
  "sane_conf c \<longleftrightarrow> NVMACHINES c = length (VMCONF c) \<and> NVMACHINES c \<le> 255 \<and>
     (\<forall>v\<in>set (VMCONF c). good_conf v) \<and> QUANTUM_SCHEDULER_MS c \<noteq> 0"

abbreviation (input) conf_tlb_entries :: "hv_conf \<Rightarrow> nat" where
  "conf_tlb_entries c \<equiv> sum_list (map (length \<circ> cfg_tlb) (VMCONF c))"

theorem initializeMachines_boot:
  assumes R: "reset_state b a s" and C: "sane_conf (conf s)" and room: "boot_cost (conf s) < a"
    and tl: "conf_tlb_entries (conf s) \<le> length (tlb s)"
  obtains s' ps a' where "initializeMachines s = Some s'" "boot_state (NVMACHINES (conf s)) b a' s' ps"
    "length ps = NVMACHINES (conf s)" "conf s' = conf s" "length (tlb s') = length (tlb s)"
    "unat (next_tlbindex s') = conf_tlb_entries (conf s)" "vcpu_executing s' = None"
proof -
  let ?N = "NVMACHINES (conf s)"
  have N: "?N = length (VMCONF (conf s))" "?N \<le> 255" using C by (auto simp: sane_conf_def)
  have z: "0 \<le> int ?N" "int ?N < 2 ^ 29" using N(2) by auto
  have h: "heap_ready (heap s) b a" using R by (simp add: reset_state_def)
  have rm: "alloc_cost 20 + alloc_cost (word_of_int (int ?N + 1) * 4) < a" using room by (simp add: boot_cost_def)
  obtain q h' a1 where q: "queue_create (int ?N) (heap_junk (conf s)) (heap s) = Some (Some q, h')"
    "ring_inv q" "ring_items q = []" "ring_cap q = nat (int ?N)" "heap_ready h' b a1"
    "a1 = a - alloc_cost 20 - alloc_cost (word_of_int (int ?N + 1) * 4)"
    by (rule queue_create_ok [OF h z rm])
  let ?s = "s\<lparr>vcpu_ready_list := Some q, heap := h'\<rparr>"
  have B: "boot_state ?N b a1 ?s []"
    unfolding boot_state_def
  proof (intro conjI)
    show "\<forall>j e. j < length (tlb ?s) \<longrightarrow> tlb ?s ! j = Some e \<longrightarrow> j < unat (next_tlbindex ?s) \<and> hw_guestid e \<noteq> 0"
      using R by (auto simp: reset_state_def)
  qed (use q R in \<open>auto simp: reset_state_def\<close>)
  have "\<exists>s' ps' a'. create_vms [0..<?N] ?s = Some s' \<and> boot_state ?N b a' s' ps' \<and> length ps' = max 0 ?N \<and>
     conf s' = conf ?s \<and> length (tlb s') = length (tlb ?s) \<and> vcpu_executing s' = vcpu_executing ?s \<and>
     unat (next_tlbindex s') = unat (next_tlbindex ?s) + sum_list (map (length \<circ> cfg_tlb) (drop 0 (VMCONF (conf ?s))))"
    by (rule create_vms_boot [OF B]) (use C N R room tl q(6) in \<open>auto simp: sane_conf_def reset_state_def boot_cost_def\<close>)
  then obtain s' ps' a' where r: "create_vms [0..<?N] ?s = Some s'" "boot_state ?N b a' s' ps'" "length ps' = ?N"
    "conf s' = conf s" "length (tlb s') = length (tlb s)" "vcpu_executing s' = None"
    "unat (next_tlbindex s') = conf_tlb_entries (conf s)"
    using R by (auto simp: reset_state_def)
  have "initializeMachines s = Some s'" using q(1) r(1) by (simp add: initializeMachines_def)
  then show thesis using that r by blast
qed

subsection \<open>Consequences\<close>

lemma boot_state_vcpu:
  assumes "boot_state cap b a s ps" "p \<in> set ps"
  obtains i where "i < length ps" "p = ps ! i" "vcpu_of s i p"
  using assms by (auto simp: boot_state_def in_set_conv_nth)

lemma boot_calm:
  assumes B: "boot_state cap b a s ps"
  shows "calm s ps"
proof -
  have v: "vcpus s p \<noteq> None \<and> \<not> crit_bit (vcpus s) p" if pin: "p \<in> set ps" for p
  proof -
    obtain i where "vcpu_of s i p" by (rule boot_state_vcpu [OF B pin])
    then show ?thesis by (auto simp: vcpu_of_def crit_bit_def)
  qed
  moreover have "ready s ps" using B by (auto simp: boot_state_def ready_def)
  moreover have "filter (crit_bit (vcpus s)) ps = []" using v by (auto simp: filter_empty_conv)
  ultimately show ?thesis using B by (auto simp: calm_def sched_inv_def boot_state_def)
qed

lemma boot_hv_sched:
  "boot_state cap b a s ps \<Longrightarrow> QUANTUM_SCHEDULER_MS (conf s) \<noteq> 0 \<Longrightarrow> vcpu_executing s = None \<Longrightarrow> hv_sched s ps"
  using boot_calm [of cap b a s ps] by (simp add: hv_sched_def calm_def)

lemma boot_window:
  "boot_state cap b a s ps \<Longrightarrow> unat (next_tlbindex s) \<le> i \<Longrightarrow> i < length (tlb s) \<Longrightarrow> window_slot i s"
  by (auto simp: boot_state_def window_slot_def)

end
