(* ===== verification/Hypercall.thy ===== *)
theory Hypercall
  imports Boot
begin

text \<open>
  The hypercall table of \<open>sys/kernel/hypercall.c\<close> and the interrupt handler tables of the two
  ports (\<open>interrupts.c\<close>): registration and dispatch. The functions behind the pointers are
  an argument of the dispatchers.
\<close>

subsection \<open>Hypercalls\<close>

definition HCALL_NOT_IMPLEMENTED :: u32 where "HCALL_NOT_IMPLEMENTED = - 3"
definition HCALL_ADDRESS_NOT_ALLOWED :: u32 where "HCALL_ADDRESS_NOT_ALLOWED = - 4"

definition register_hypercall :: "hypercall_t \<Rightarrow> u32 \<Rightarrow> hv \<Rightarrow> int \<times> hv" where
  "register_hypercall hyper code s =
     (if 29 < code then (- 1, s)
      else if hypercall_table s ! unat code \<noteq> None then (- 2, s)
      else (int (unat code), s\<lparr>hypercall_table := (hypercall_table s)[unat code := Some hyper]\<rparr>))"

definition hypercall_execution :: "(hypercall_t \<Rightarrow> hv \<Rightarrow> hv option) \<Rightarrow> hv \<Rightarrow> hv option" where
  "hypercall_execution call s =
     (let code = getHypercallCode s in
      if 29 < code \<or> hypercall_table s ! unat code = None
      then Some (MoveToPreviousGuestGPR REG_V0 HCALL_NOT_IMPLEMENTED s)
      else call (the (hypercall_table s ! unat code)) s)"

definition hcall_wf :: "hv \<Rightarrow> bool" where
  "hcall_wf s \<longleftrightarrow> length (hypercall_table s) = 30"

lemma unat_le_29: "\<not> 29 < code \<Longrightarrow> unat code < 30" for code :: u32
  by (simp add: word_less_nat_alt)

lemma register_hypercall_cases:
  assumes "hcall_wf s"
  shows "register_hypercall f code s =
    (if 30 \<le> unat code then (- 1, s)
     else case hypercall_table s ! unat code of
       Some g \<Rightarrow> (- 2, s)
     | None \<Rightarrow> (int (unat code), s\<lparr>hypercall_table := (hypercall_table s)[unat code := Some f]\<rparr>))"
  by (auto simp: register_hypercall_def word_less_nat_alt split: option.split)

lemma register_hypercall_wf: "hcall_wf s \<Longrightarrow> hcall_wf (snd (register_hypercall f code s))"
  by (simp add: register_hypercall_def hcall_wf_def)

text \<open>The code is ten bits of the instruction.\<close>

lemma getHypercallCode_less: "unat (getHypercallCode s) < 1024"
proof -
  have m: "push_bit 11 0x3FF = push_bit 11 (mask 10 :: u32)" by (simp add: mask_eq_exp_minus_1)
  have "getHypercallCode s = drop_bit 11 (mfc0 CP0_BADVADDR 1 s) AND mask 10"
    unfolding getHypercallCode_def m by (rule bit_word_eqI) (auto simp: bit_simps)
  then show ?thesis using unat_and_mask_less [of _ 10] by simp
qed

subsection \<open>Interrupt handlers\<close>

text \<open>PIC32MZ: ten slots; the address returned is that of the vector of the slot.\<close>

fun first_free :: "nat list \<Rightarrow> 'a option list \<Rightarrow> nat option" where
  "first_free [] hs = None"
| "first_free (i # is) hs = (if hs ! i = None then Some i else first_free is hs)"

definition register_interrupt :: "handler_vector_t \<Rightarrow> hv \<Rightarrow> u32 \<times> hv" where
  "register_interrupt handler s =
     (case first_free [0..<10] (interrupt_handlers s) of
        None \<Rightarrow> (0, s)
      | Some i \<Rightarrow> (0x220 + of_nat i * 32, s\<lparr>interrupt_handlers := (interrupt_handlers s)[i := Some handler]\<rparr>))"

definition interrupt_init_pic32mz :: "hv \<Rightarrow> hv" where
  "interrupt_init_pic32mz s =
     (let s1 = sfr_write (PIC32MZ_PBASE 0x10010) 0 s;
          s2 = mtc0 CP0_EBASE 1 0x9D000000 s1;
          s3 = mtc0 CP0_CAUSE 0 (mfc0 CP0_CAUSE 0 s2 OR CAUSE_IV) s2;
          s4 = sfr_write (PIC32MZ_PBASE 0x10008) 0x1000 s3;
          temp = mfc0 CP0_STATUS 0 s4 AND NOT STATUS_BEV AND NOT STATUS_EXL;
          s5 = mtc0 CP0_STATUS 0 temp s4
      in mtc0 12 1 (mfc0 12 1 s5 OR push_bit 5 2) s5)"

text \<open>Baikal: 64 slots chosen by the caller, slot 0 for the general exception handler.\<close>

definition register_interrupt_baikal :: "handler_vector_t \<Rightarrow> u32 \<Rightarrow> hv \<Rightarrow> u32 \<times> hv" where
  "register_interrupt_baikal handler interrupt_number s =
     (if 0 < interrupt_number \<and> interrupt_number < 64 \<and> interrupt_handlers s ! unat interrupt_number = None
      then (interrupt_number,
            s\<lparr>interrupt_handlers := (interrupt_handlers s)[unat interrupt_number := Some handler]\<rparr>)
      else (0, s))"

definition interrupt_handler :: "(handler_vector_t \<Rightarrow> hv \<Rightarrow> hv option) \<Rightarrow> u32 \<Rightarrow> hv \<Rightarrow> hv option" where
  "interrupt_handler run interrupt_number s =
     do { h \<leftarrow> arr_get (interrupt_handlers s) (int (unat interrupt_number));
          case h of Some f \<Rightarrow> run f s | None \<Rightarrow> Some s }"

definition interrupt_init_baikal :: "hv \<Rightarrow> hv" where
  "interrupt_init_baikal s =
     (let s1 = s\<lparr>interrupt_handlers := (replicate 64 None)[0 := Some I_general_exception_handler]\<rparr>;
          (g, s2) = sfr_read (0xBFBF8000 + 0x80) s1;
          s3 = sfr_write (0xBFBF8000 + 0x80) (g OR 1) s2;
          s4 = mtc0 CP0_EBASE 0 0x80000000 s3;
          s5 = mtc0 CP0_CAUSE 0 (mfc0 CP0_CAUSE 0 s4 OR CAUSE_IV) s4;
          s6 = mtc0 CP0_STATUS 0 (mfc0 CP0_STATUS 0 s5 AND NOT STATUS_BEV AND NOT STATUS_EXL) s5;
          s7 = mtc0 12 1 ((mfc0 12 1 s6 AND NOT (push_bit 5 0x1F)) OR push_bit 5 1) s6;
          (c, s8) = sfr_read 0xBBDC0000 s7
      in sfr_write 0xBBDC0000 (c OR push_bit 30 1) s8)"

lemma first_free_Some:
  "first_free is hs = Some i \<Longrightarrow> i \<in> set is \<and> hs ! i = None"
  by (induction "is") (auto split: if_splits)

lemma first_free_None: "first_free is hs = None \<longleftrightarrow> (\<forall>i\<in>set is. hs ! i \<noteq> None)"
  by (induction "is") auto

lemma first_free_least:
  "first_free [m..<n] hs = Some i \<Longrightarrow> m \<le> j \<Longrightarrow> j < i \<Longrightarrow> hs ! j \<noteq> None"
proof (induction "n - m" arbitrary: m)
  case (Suc k)
  then have "m < n" by linarith
  then have u: "[m..<n] = m # [Suc m..<n]" by (simp add: upt_conv_Cons)
  show ?case
  proof (cases "hs ! m = None")
    case True
    then have "i = m" using Suc.prems(1) unfolding u by simp
    then show ?thesis using Suc.prems by simp
  next
    case False
    have "first_free [Suc m..<n] hs = Some i" using Suc.prems(1) unfolding u first_free.simps(2) if_not_P [OF False] .
    then show ?thesis using Suc.hyps(1) [of "Suc m"] Suc.hyps(2) Suc.prems False
      by (cases "j = m") auto
  qed
qed simp

lemma register_interrupt_ok:
  assumes "length (interrupt_handlers s) = 10"
  shows "(\<exists>i<10. interrupt_handlers s ! i = None \<and> (\<forall>j<i. interrupt_handlers s ! j \<noteq> None) \<and>
            register_interrupt f s = (0x220 + of_nat i * 32,
              s\<lparr>interrupt_handlers := (interrupt_handlers s)[i := Some f]\<rparr>)) \<or>
         (\<forall>i<10. interrupt_handlers s ! i \<noteq> None) \<and> register_interrupt f s = (0, s)"
proof (cases "first_free [0..<10] (interrupt_handlers s)")
  case None
  then have "\<forall>i<10. interrupt_handlers s ! i \<noteq> None" by (simp add: first_free_None)
  moreover have "register_interrupt f s = (0, s)" using None by (simp add: register_interrupt_def)
  ultimately show ?thesis by blast
next
  case (Some i)
  then show ?thesis
    using first_free_Some [OF Some] first_free_least [OF Some]
    by (intro disjI1 exI [of _ i]) (auto simp: register_interrupt_def)
qed

end
