(* ===== verification/InterVM.thy ===== *)
theory InterVM
  imports Hypercall
begin

text \<open>
  Messages between virtual machines, \<open>drivers/inter-vm-comm.c\<close>. Each VCPU owns a circular
  buffer of five messages of at most 256 bytes. The copies between the mapped guest buffer and
  the buffer of the VCPU are runs of byte accesses.
\<close>

subsection \<open>Operations\<close>

definition MESSAGE_VCPU_NOT_FOUND :: u32 where "MESSAGE_VCPU_NOT_FOUND = - 1"
definition MESSAGE_FULL :: u32 where "MESSAGE_FULL = - 2"
definition MESSAGE_TOO_BIG :: u32 where "MESSAGE_TOO_BIG = - 3"
definition MESSAGE_EMPTY :: u32 where "MESSAGE_EMPTY = - 4"
definition MESSAGE_VCPU_NOT_INIT :: u32 where "MESSAGE_VCPU_NOT_INIT = - 5"

definition VI_SHIFT :: "port \<Rightarrow> nat" where
  "VI_SHIFT p = (case p of PIC32MZ \<Rightarrow> GUESTCLT2_GRIPL_SHIFT | BAIKAL_T1 \<Rightarrow> GUESTCLT2_VIP_SHIFT)"

definition intervm_bit :: "port \<Rightarrow> u32" where
  "intervm_bit p = push_bit (VI_SHIFT p) GUEST_INTERVM_INT"

definition get_vm_id :: "hv \<Rightarrow> hv option" where
  "get_vm_id s = do { m \<leftarrow> cur_vm s; Some (MoveToPreviousGuestGPR REG_V0 (vm_ident m) s) }"

definition guest_is_up :: "hv \<Rightarrow> hv option" where
  "guest_is_up s =
     do { r \<leftarrow> get_vcpu_from_id (MoveFromPreviousGuestGPR REG_A0 s) s;
          case r of
            None \<Rightarrow> Some (MoveToPreviousGuestGPR REG_V0 MESSAGE_VCPU_NOT_FOUND s)
          | Some p \<Rightarrow>
              do { v \<leftarrow> vcpus s p;
                   Some (MoveToPreviousGuestGPR REG_V0
                     (if vc_init v \<noteq> 0 then MESSAGE_VCPU_NOT_INIT else 1) s) } }"

text \<open>
  The circular buffer of a VCPU, as the two hypercalls use it: the message goes to slot
  \<open>in\<close> and is taken from slot \<open>out\<close>. \<open>memcpy\<close> into the 256 byte array of a message: a
  longer copy leaves the array.
\<close>

definition msg_write :: "message_t \<Rightarrow> u8 list \<Rightarrow> message_t option" where
  "msg_write m bs =
     (if length bs \<le> length (message m)
      then Some (m\<lparr>message := bs @ drop (length bs) (message m)\<rparr>) else None)"

definition buf_put :: "u8 list \<Rightarrow> u32 \<Rightarrow> u32 \<Rightarrow> message_buffer_t \<Rightarrow> message_buffer_t option" where
  "buf_put bs sz src b =
     do { slot \<leftarrow> arr_get (message_list b) (int (unat (mb_in b)));
          slot1 \<leftarrow> msg_write slot bs;
          Some (b\<lparr>message_list := (message_list b)[unat (mb_in b) := slot1\<lparr>msg_size := sz, source_id := src\<rparr>],
                  num_messages := num_messages b + 1,
                  mb_in := (mb_in b + 1) mod MESSAGELIST_SZ\<rparr>) }"

definition buf_front :: "message_buffer_t \<Rightarrow> message_t option" where
  "buf_front b = arr_get (message_list b) (int (unat (mb_out b)))"

definition buf_drop :: "message_buffer_t \<Rightarrow> message_buffer_t" where
  "buf_drop b = b\<lparr>num_messages := num_messages b - 1, mb_out := (mb_out b + 1) mod MESSAGELIST_SZ\<rparr>"

definition intervm_send_msg :: "hv \<Rightarrow> hv option" where
  "intervm_send_msg s =
     (let target_id = MoveFromPreviousGuestGPR REG_A0 s;
          message_ptr = MoveFromPreviousGuestGPR REG_A1 s;
          message_size = MoveFromPreviousGuestGPR REG_A2 s
      in if MESSAGE_SZ < message_size then Some (MoveToPreviousGuestGPR REG_V0 MESSAGE_TOO_BIG s)
      else
        do { r \<leftarrow> get_vcpu_from_id target_id s;
             case r of
               None \<Rightarrow> Some (MoveToPreviousGuestGPR REG_V0 MESSAGE_VCPU_NOT_FOUND s)
             | Some p \<Rightarrow>
                 do { v \<leftarrow> vcpus s p;
                      if vc_init v \<noteq> 0 then Some (MoveToPreviousGuestGPR REG_V0 MESSAGE_VCPU_NOT_INIT s)
                      else if num_messages (messages v) = MESSAGELIST_SZ
                      then Some (MoveToPreviousGuestGPR REG_V0 MESSAGE_FULL
                        (s\<lparr>vcpus := (vcpus s)(p \<mapsto>
                            v\<lparr>guestclt2 := guestclt2 v OR push_bit GUESTCLT2_GRIPL_SHIFT GUEST_INTERVM_INT\<rparr>)\<rparr>))
                      else
                        do { m \<leftarrow> cur_vm s;
                             (va, s1) \<leftarrow> tlbCreateEntry message_ptr (base_addr m) message_size 0xF False s;
                             (bs, s2) \<leftarrow> ld_bytes va (unat message_size) s1;
                             v2 \<leftarrow> vcpus s2 p;
                             b1 \<leftarrow> buf_put bs message_size (vm_ident m) (messages v2);
                             let v3 = v2\<lparr>messages := b1,
                                         guestclt2 := guestclt2 v2 OR intervm_bit (c_port (conf s2))\<rparr>;
                             let s3 = s2\<lparr>vcpus := (vcpus s2)(p \<mapsto> v3)\<rparr>;
                             fast_interrupt_delivery p (MoveToPreviousGuestGPR REG_V0 message_size s3) } } })"

definition intervm_recv_msg :: "hv \<Rightarrow> hv option" where
  "intervm_recv_msg s =
     do { p \<leftarrow> vcpu_executing s;
          v \<leftarrow> vcpus s p;
          let b = messages v;
          if num_messages b = 0 then Some (MoveToPreviousGuestGPR REG_V0 MESSAGE_EMPTY s)
          else
            do { let message_ptr = MoveFromPreviousGuestGPR REG_A0 s;
                 slot \<leftarrow> buf_front b;
                 let messagesz = msg_size slot;
                 m \<leftarrow> cur_vm s;
                 (va, s1) \<leftarrow> tlbCreateEntry message_ptr (base_addr m) messagesz 0xF False s;
                 ensure (unat messagesz \<le> length (message slot));
                 s2 \<leftarrow> st_bytes va (take (unat messagesz) (message slot)) s1;
                 let s3 = MoveToPreviousGuestGPR REG_A0 (source_id slot) (MoveToPreviousGuestGPR REG_V0 messagesz s2);
                 let b1 = buf_drop b;
                 let bit = intervm_bit (c_port (conf s));
                 let s4 = setGuestCTL2 (getGuestCTL2 s3 AND NOT bit) s3;
                 Some (s4\<lparr>vcpus := (vcpus s4)(p \<mapsto> v\<lparr>messages := b1, guestclt2 := guestclt2 v AND NOT bit\<rparr>)\<rparr>) } }"

definition intervm_init :: "hv \<Rightarrow> hv" where
  "intervm_init s =
     (let (r1, s1) = register_hypercall H_get_vm_id 0 s in
      if r1 < 0 then s1
      else let (r2, s2) = register_hypercall H_intervm_send_msg 2 s1 in
      if r2 < 0 then s2
      else let (r3, s3) = register_hypercall H_intervm_recv_msg 1 s2 in
      if r3 < 0 then s3
      else snd (register_hypercall H_guest_is_up 3 s3))"

subsection \<open>The message buffer as a queue of messages\<close>

text \<open>
  A well formed buffer holds at most five messages between \<open>out\<close> and \<open>in\<close>; its abstraction is
  the list of pairs of source and contents, oldest first.
\<close>

definition slot_ok :: "message_t \<Rightarrow> bool" where
  "slot_ok m \<longleftrightarrow> length (message m) = 256"

definition msgs_ok :: "message_buffer_t \<Rightarrow> bool" where
  "msgs_ok b \<longleftrightarrow> length (message_list b) = 5 \<and> (\<forall>m\<in>set (message_list b). slot_ok m) \<and>
     unat (mb_in b) < 5 \<and> unat (mb_out b) < 5 \<and> unat (num_messages b) \<le> 5 \<and>
     unat (mb_in b) = (unat (mb_out b) + unat (num_messages b)) mod 5 \<and>
     (\<forall>i<unat (num_messages b). unat (msg_size (message_list b ! ((unat (mb_out b) + i) mod 5))) \<le> 256)"

definition msg_of :: "message_t \<Rightarrow> u32 \<times> u8 list" where
  "msg_of m = (source_id m, take (unat (msg_size m)) (message m))"

definition inbox :: "message_buffer_t \<Rightarrow> (u32 \<times> u8 list) list" where
  "inbox b = map (\<lambda>i. msg_of (message_list b ! ((unat (mb_out b) + i) mod 5))) [0..<unat (num_messages b)]"

definition box_put :: "message_buffer_t \<Rightarrow> u32 \<times> u8 list \<Rightarrow> message_buffer_t option" where
  "box_put b m = buf_put (snd m) (of_nat (length (snd m))) (fst m) b"

definition box_get :: "message_buffer_t \<Rightarrow> ((u32 \<times> u8 list) \<times> message_buffer_t) option" where
  "box_get b =
     (if num_messages b = 0 then None
      else do { m \<leftarrow> buf_front b; Some (msg_of m, buf_drop b) })"

lemma inbox_length [simp]: "length (inbox b) = unat (num_messages b)"
  by (simp add: inbox_def)

lemma unat_mod5: "unat ((x + 1) mod MESSAGELIST_SZ) = (unat x + 1) mod 5" if "unat x < 5" for x :: u32
proof -
  have "unat (x + 1) = unat x + 1" using that by (subst unat_add_u32) simp_all
  then show ?thesis by (simp add: MESSAGELIST_SZ_def unat_mod_distrib)
qed

lemma unat_le_256: "length bs \<le> 256 \<Longrightarrow> unat (of_nat (length bs) :: u32) = length bs"
  by (simp add: unat_of_nat)

text \<open>The slots in use are different from the one \<open>in\<close> points at while there is room.\<close>

lemma ring5_free: "k < n \<Longrightarrow> n < 5 \<Longrightarrow> (out + k) mod 5 \<noteq> (out + n) mod (5 :: nat)"
proof
  assume a: "k < n" "n < 5" "(out + k) mod 5 = (out + n) mod 5"
  then have "5 dvd (out + n) - (out + k)" by (metis mod_eq_dvd_iff_nat add_le_mono le_refl less_imp_le_nat)
  then show False using a by (auto dest: dvd_imp_le)
qed

lemma box_put_ok:
  assumes ok: "msgs_ok b" and len: "length (snd m) \<le> 256" and room: "length (inbox b) < 5"
  shows "\<exists>b'. box_put b m = Some b' \<and> msgs_ok b' \<and> inbox b' = inbox b @ [m]"
proof -
  let ?i = "unat (mb_in b)" and ?o = "unat (mb_out b)" and ?n = "unat (num_messages b)"
  let ?bs = "snd m"
  have n: "?n < 5" using room by simp
  have i: "?i = (?o + ?n) mod 5" "?i < 5" "?o < 5" "length (message_list b) = 5"
    and sl: "\<And>x. x \<in> set (message_list b) \<Longrightarrow> length (message x) = 256"
    and szs: "\<And>k. k < ?n \<Longrightarrow> unat (msg_size (message_list b ! ((?o + k) mod 5))) \<le> 256"
    using ok by (auto simp: msgs_ok_def slot_ok_def)
  define s0 where "s0 = message_list b ! ?i"
  define s1 where "s1 = s0\<lparr>message := ?bs @ drop (length ?bs) (message s0), msg_size := of_nat (length ?bs), source_id := fst m\<rparr>"
  define b1 where "b1 = b\<lparr>message_list := (message_list b)[?i := s1], num_messages := num_messages b + 1,
     mb_in := (mb_in b + 1) mod MESSAGELIST_SZ\<rparr>"
  have l0: "length (message s0) = 256" using sl i by (simp add: s0_def)
  have put: "box_put b m = Some b1"
    using i len l0 by (simp add: box_put_def buf_put_def c_simps msg_write_def s0_def b1_def s1_def)
  have n1: "unat (num_messages b1) = ?n + 1" using n by (simp add: b1_def unat_add_u32)
  have old: "message_list b1 ! ((?o + k) mod 5) = message_list b ! ((?o + k) mod 5)" if "k < ?n" for k
    using ring5_free [OF that n, of ?o] i(1) by (simp add: b1_def)
  have new: "message_list b1 ! ((?o + ?n) mod 5) = s1" using i by (simp add: b1_def)
  have o1: "mb_out b1 = mb_out b" by (simp add: b1_def)
  have "msg_of s1 = m" using len by (simp add: msg_of_def s1_def unat_le_256)
  then have box: "inbox b1 = inbox b @ [m]"
    unfolding inbox_def n1 o1 using old new by simp
  have "slot_ok x" if "x \<in> set (message_list b1)" for x
    using that sl set_update_subset_insert [of "message_list b" ?i s1] len l0
    by (auto simp: b1_def slot_ok_def s1_def)
  moreover have "unat (msg_size (message_list b1 ! ((?o + k) mod 5))) \<le> 256" if "k < ?n + 1" for k
    using that szs old new len by (cases "k = ?n") (auto simp: s1_def unat_le_256)
  moreover have "unat (mb_in b1) = (?o + (?n + 1)) mod 5"
    using unat_mod5 [OF i(2)] i(1) by (simp add: b1_def mod_Suc_eq)
  ultimately have "msgs_ok b1"
    using i n n1 o1 unfolding msgs_ok_def by (auto simp: b1_def)
  then show ?thesis using put box by blast
qed

lemma box_get_ok:
  assumes ok: "msgs_ok b" and ne: "inbox b = x # xs"
  shows "\<exists>b'. box_get b = Some (x, b') \<and> msgs_ok b' \<and> inbox b' = xs"
proof -
  let ?o = "unat (mb_out b)" and ?n = "unat (num_messages b)"
  have "length (inbox b) = Suc (length xs)" using ne by simp
  then have n: "?n = Suc (length xs)" by simp
  then have nz: "num_messages b \<noteq> 0" by auto
  have i: "?o < 5" "length (message_list b) = 5" using ok by (auto simp: msgs_ok_def)
  let ?b = "buf_drop b"
  have n1: "unat (num_messages ?b) = length xs" using n nz by (simp add: buf_drop_def unat_minus_one)
  have o1: "unat (mb_out ?b) = (?o + 1) mod 5" using unat_mod5 [OF i(1)] by (simp add: buf_drop_def)
  have sh: "((?o + 1) mod 5 + k) mod 5 = (?o + Suc k) mod 5" for k by (simp add: mod_simps)
  have all: "inbox b = msg_of (message_list b ! (?o mod 5)) #
      map (\<lambda>k. msg_of (message_list b ! ((?o + Suc k) mod 5))) [0..<length xs]"
    unfolding inbox_def n upt_map_Suc_shift by simp
  have "inbox ?b = xs" using all ne unfolding inbox_def n1 o1 sh by (simp add: buf_drop_def)
  moreover have "box_get b = Some (x, ?b)" using all ne nz i by (simp add: box_get_def buf_front_def arr_get_nat del: of_nat_unat)
  moreover have "msgs_ok ?b"
    using ok n n1 o1 sh unfolding msgs_ok_def by (auto simp: buf_drop_def)
  ultimately show ?thesis by blast
qed

interpretation mailbox: bounded_buffer msgs_ok inbox "\<lambda>_. 5" "\<lambda>m. length (snd m) \<le> 256" box_put box_get
  by unfold_locales (use box_put_ok box_get_ok in auto)

end
