(* ===== verification/Frame.thy ===== *)
theory Frame
  imports InterVM
begin

text \<open>
  What every operation of the kernel keeps once the boot is over. \<open>quiet\<close> relates states that
  differ in hardware and driver data only; \<open>krel\<close> also admits scheduling and messages. Both
  are reflexive and transitive, so that a handler is treated call by call.
\<close>

subsection \<open>The relations\<close>

text \<open>
  Every slot of the TLB stays but slot 15, the window of the drivers: there \<open>tlbCreateEntry\<close> may have put an entry of
  the hypervisor, whatever was in it, also an entry of a guest (lemma \<open>window_takes_slot\<close>).
\<close>

definition tlb_but_window :: "hv \<Rightarrow> hv \<Rightarrow> bool" where
  "tlb_but_window s t \<longleftrightarrow> length (tlb t) = length (tlb s) \<and>
     (\<forall>j. j < length (tlb s) \<longrightarrow> tlb t ! j = tlb s ! j \<or> (j = 15 \<and> (\<exists>e. tlb t ! j = Some e \<and> hw_guestid e = 0)))"

definition kept :: "hv \<Rightarrow> hv \<Rightarrow> bool" where
  "kept s t \<longleftrightarrow> conf t = conf s \<and> vms t = vms s \<and> hypercall_table t = hypercall_table s \<and>
     interrupt_handlers t = interrupt_handlers s \<and> vmconf_p t = vmconf_p s \<and> tlb_but_window s t"

definition fixed :: "hv \<Rightarrow> hv \<Rightarrow> bool" where
  "fixed s t \<longleftrightarrow> kept s t \<and> usb t = usb s \<and> eth t = eth s"

definition quiet :: "hv \<Rightarrow> hv \<Rightarrow> bool" where
  "quiet s t \<longleftrightarrow> fixed s t \<and> vcpus t = vcpus s \<and> vcpu_ready_list t = vcpu_ready_list s \<and>
     vcpu_executing t = vcpu_executing s \<and> pending t = pending s"

definition vstat :: "vcpu_t \<Rightarrow> u32 \<times> u32 \<times> nat" where
  "vstat v = (vc_ident v, priority v, vc_vm v)"

definition mailboxes_ok :: "hv \<Rightarrow> bool" where
  "mailboxes_ok s \<longleftrightarrow> (\<forall>p v. vcpus s p = Some v \<longrightarrow> msgs_ok (messages v))"

definition kstate :: "hv \<Rightarrow> bool" where
  "kstate s \<longleftrightarrow> (\<exists>ps. hv_sched s ps \<and> dom (vcpus s) = set ps) \<and> mailboxes_ok s"

text \<open>
  The statics of the USB driver: the buffers have the sizes of their declarations and the indices stay
  inside, a running device is connected and has its descriptor, an idle or faulty port is not
  connected, and the driver never waits for the end of a transfer, because three bytes always fit one packet.
\<close>

definition status_ok :: "usb_status_t \<Rightarrow> bool" where
  "status_ok u \<longleftrightarrow>
     descriptor_available u \<le> 1 \<and> connected u \<le> 1 \<and>
     (us_state u \<notin> {IDLE, VBUSERROR, GENERALERROR} \<longrightarrow> connected u = 1) \<and>
     (us_state u \<in> {IDLE, VBUSERROR} \<longrightarrow> connected u = 0 \<and> descriptor_available u = 0) \<and>
     (us_state u = RUNNING \<longrightarrow> descriptor_available u = 1)"

definition usb_ok :: "usb_statics \<Rightarrow> bool" where
  "usb_ok u \<longleftrightarrow> status_ok (usb_status u) \<and>
     length (descriptor (descriptor_data u)) = 18 \<and> received (descriptor_data u) \<le> 18 \<and>
     length (buffer_tx u) = 64 \<and> request_count u \<le> 5 \<and>
     ut_state (usb_transfer_status u) \<noteq> TRANSFER_WAIT_TX_INT \<and>
     (ut_state (usb_transfer_status u) = TRANSFER_SENDING \<longrightarrow> sent_sz u = 0)"

text \<open>
  The statics of the Ethernet driver: the ring index is inside the ring, the MAC address has six bytes,
  the link is up or down; in the shared driver, at most two VMs are registered and the rings of the VMs
  point to frame buffers.
\<close>

definition ctrl_ok :: "vm_ctrl_buffer \<Rightarrow> bool" where
  "ctrl_ok c \<longleftrightarrow> length (cb_mac c) = 6 \<and> cb_input c < 10 \<and> cb_output c < 10 \<and> length (frame_list c) = 10 \<and>
     (\<forall>k. Some k \<in> set (frame_list c) \<longrightarrow> k < 10)"

definition eth_ok :: "eth_statics \<Rightarrow> bool" where
  "eth_ok x \<longleftrightarrow> receive_index x < 48 \<and> length (macaddr (eth_port x)) = 6 \<and> is_up (eth_port x) \<le> 1 \<and>
     length (b_buf x) = 10 \<and> length (VMCTRLbuf x) = 2 \<and> (\<forall>c\<in>set (VMCTRLbuf x). ctrl_ok c) \<and> vm_counter x \<le> 2"

definition krel :: "hv \<Rightarrow> hv \<Rightarrow> bool" where
  "krel s t \<longleftrightarrow> kept s t \<and> (\<forall>p. map_option vstat (vcpus t p) = map_option vstat (vcpus s p)) \<and>
     (usb_ok (usb s) \<longrightarrow> usb_ok (usb t)) \<and> (eth_ok (eth s) \<longrightarrow> eth_ok (eth t)) \<and> (kstate s \<longrightarrow> kstate t)"

lemma window_takes_slot:
  "tlbCreateEntry address baseaddr sz i c s = Some (va, t) \<Longrightarrow>
     unat i < length (tlb s) \<and> (\<exists>e. tlb t ! unat i = Some e \<and> hw_guestid e = 0)"
proof -
  let ?e = "window_entry address baseaddr sz i c"
  assume "tlbCreateEntry address baseaddr sz i c s = Some (va, t)"
  then have w: "tlbEntryWrite ?e s = Some t" by (simp add: tlbCreateEntry_eq bind_eq_Some_conv)
  have i: "te_index ?e = i" "hw_guestid (entry_hw ?e) = 0" by (simp_all add: window_entry_def entry_hw_def Let_def)
  have l: "unat i < length (tlb s)"
    using w i(1) by (auto simp: tlbEntryWrite_def tlb_commit_def setGuestRID_def mtc0_def mfc0_def Let_def split: if_splits)
  obtain c' where "t = s\<lparr>cp0 := c', tlb := (tlb s)[unat i := Some (entry_hw ?e)]\<rparr>"
    by (rule tlbEntryWrite_eq [of ?e s, unfolded i(1), OF l]) (use w in simp)
  then show ?thesis using l i(2) by simp
qed

lemma tlb_but_window_refl [simp]: "tlb_but_window s s"
  by (simp add: tlb_but_window_def)

lemma tlb_but_window_eq: "tlb t = tlb s \<Longrightarrow> tlb_but_window s t"
  by (simp add: tlb_but_window_def)

lemma tlb_but_window_trans: "tlb_but_window s t \<Longrightarrow> tlb_but_window t u \<Longrightarrow> tlb_but_window s u"
  unfolding tlb_but_window_def by (metis (no_types, lifting))

lemma kept_trans: "kept s t \<Longrightarrow> kept t u \<Longrightarrow> kept s u"
  using tlb_but_window_trans unfolding kept_def by metis

lemma fixed_trans: "fixed s t \<Longrightarrow> fixed t u \<Longrightarrow> fixed s u"
  using kept_trans unfolding fixed_def by metis

lemma quiet_refl [simp]: "quiet s s"
  by (simp add: quiet_def fixed_def kept_def)

lemma quiet_trans [trans]: "quiet s t \<Longrightarrow> quiet t u \<Longrightarrow> quiet s u"
  unfolding quiet_def by (metis fixed_trans)

lemma krel_refl [simp]: "krel s s"
  by (simp add: krel_def fixed_def kept_def)

lemma krel_trans [trans]: "krel s t \<Longrightarrow> krel t u \<Longrightarrow> krel s u"
  unfolding krel_def by (metis kept_trans)

lemma hv_sched_cong:
  assumes "hv_sched s ps" "vcpu_ready_list t = vcpu_ready_list s" "vcpu_executing t = vcpu_executing s"
    "pending t = pending s" "conf t = conf s"
    "\<And>p. map_option critical (vcpus t p) = map_option critical (vcpus s p)"
  shows "hv_sched t ps"
proof -
  have "crit_bit (vcpus t) p = crit_bit (vcpus s) p" if "vcpus s p \<noteq> None" for p
    using assms(6) [of p] that by (auto simp: crit_bit_def)
  then have "filter (crit_bit (vcpus t)) ps = filter (crit_bit (vcpus s)) ps"
    using assms(1) by (intro filter_cong) (auto simp: hv_sched_def sched_inv_def)
  moreover have "vcpus t p = None \<longleftrightarrow> vcpus s p = None" for p
    using assms(6) [of p] by (metis option.map_disc_iff)
  ultimately show ?thesis using assms(1-5) by (simp add: hv_sched_def sched_inv_def ready_def)
qed

lemma quiet_krel: "quiet s t \<Longrightarrow> krel s t"
proof -
  assume q: "quiet s t"
  have "hv_sched t ps" if "hv_sched s ps" for ps
    by (rule hv_sched_cong [OF that]) (use q in \<open>auto simp: quiet_def fixed_def kept_def\<close>)
  then show ?thesis using q unfolding krel_def quiet_def fixed_def kstate_def mailboxes_ok_def by metis
qed

lemma krel_quiet_trans: "krel s t \<Longrightarrow> quiet t u \<Longrightarrow> krel s u" "quiet s t \<Longrightarrow> krel t u \<Longrightarrow> krel s u"
  by (metis krel_trans quiet_krel)+

lemma quiet_fields:
  assumes "quiet s t"
  shows "conf t = conf s" "vms t = vms s" "vcpus t = vcpus s" "vcpu_executing t = vcpu_executing s"
    "cur_vcpu t = cur_vcpu s" "cur_vm t = cur_vm s"
  using assms by (auto simp: quiet_def fixed_def kept_def cur_vm_def cur_vcpu_def)

subsection \<open>Updates of one VCPU\<close>

lemma krel_upd:
  assumes "vcpus s p = Some v" "critical v' = critical v" "vstat v' = vstat v"
    "msgs_ok (messages v) \<Longrightarrow> msgs_ok (messages v')"
  shows "krel s (s\<lparr>vcpus := (vcpus s)(p \<mapsto> v')\<rparr>)"
proof -
  let ?t = "s\<lparr>vcpus := (vcpus s)(p \<mapsto> v')\<rparr>"
  have "hv_sched ?t ps" if "hv_sched s ps" for ps
    by (rule hv_sched_cong [OF that]) (use assms in auto)
  moreover have "dom (vcpus ?t) = dom (vcpus s)" using assms(1) by auto
  moreover have "mailboxes_ok s \<Longrightarrow> mailboxes_ok ?t" using assms by (auto simp: mailboxes_ok_def)
  ultimately have "kstate s \<longrightarrow> kstate ?t" unfolding kstate_def by metis
  then show ?thesis using assms(1,3) by (simp add: krel_def fixed_def kept_def tlb_but_window_def)
qed

lemma upd_vcpu_krel:
  assumes "upd_vcpu p f s = Some t"
    "\<And>v. critical (f v) = critical v \<and> vstat (f v) = vstat v \<and> messages (f v) = messages v"
  shows "krel s t"
proof -
  obtain v where v: "vcpus s p = Some v" "t = s\<lparr>vcpus := (vcpus s)(p \<mapsto> f v)\<rparr>"
    using assms(1) by (auto simp: upd_vcpu_def bind_eq_Some_conv)
  show ?thesis unfolding v(2) by (rule krel_upd [OF v(1)]) (simp_all add: assms(2))
qed

lemma upd_vcpu_None: "upd_vcpu p f s = Some t \<Longrightarrow> vcpus s p \<noteq> None \<and> vcpu_executing t = vcpu_executing s \<and> conf t = conf s"
  by (auto simp: upd_vcpu_def bind_eq_Some_conv)

lemma fast_interrupt_cases:
  assumes "fast_interrupt_delivery p s = Some t"
  obtains "t = s"
  | v where "vcpus s p = Some v" "critical v = 0"
      "t = s\<lparr>vcpus := (vcpus s)(p \<mapsto> v\<lparr>critical := 1\<rparr>), pending := pending s + 1\<rparr>"
proof (cases "vcpu_executing s = Some p")
  case False
  then obtain v where v: "vcpus s p = Some v"
    "t = (if critical v = 0 then s\<lparr>vcpus := (vcpus s)(p \<mapsto> v\<lparr>critical := 1\<rparr>), pending := pending s + 1\<rparr> else s)"
    using assms unfolding fast_interrupt_delivery_def by (cases "vcpus s p") simp_all
  show ?thesis using v(2) that(1) that(2) [OF v(1)] by (cases "critical v = 0") simp_all
next
  case True
  then have "Some s = Some t" using assms unfolding fast_interrupt_delivery_def by simp
  then show ?thesis using that(1) by blast
qed

lemma fast_interrupt_delivery_krel:
  assumes "fast_interrupt_delivery p s = Some t"
  shows "krel s t"
proof -
  from fast_interrupt_cases [OF assms] consider "t = s" | v where "vcpus s p = Some v" "critical v = 0"
      "t = s\<lparr>vcpus := (vcpus s)(p \<mapsto> v\<lparr>critical := 1\<rparr>), pending := pending s + 1\<rparr>" .
  then show ?thesis
  proof cases
    case 2
    have "kstate t" if k: "kstate s"
    proof -
      from k obtain ps where ps: "hv_sched s ps" "dom (vcpus s) = set ps" and mb: "mailboxes_ok s"
        by (auto simp: kstate_def)
      have p: "p \<in> set ps" using 2(1) ps(2) by auto
      obtain t' where t': "fast_interrupt_delivery p s = Some t'" "sched_inv t' ps"
        by (rule fast_interrupt_delivery_ok [OF _ p]) (use ps(1) in \<open>auto simp: hv_sched_def\<close>)
      then have "sched_inv t ps" using assms by simp
      then have "hv_sched t ps" using ps(1) unfolding 2(3) by (simp add: hv_sched_def)
      moreover have "dom (vcpus t) = set ps" using ps(2) 2 by auto
      moreover have "mailboxes_ok t" using mb 2 by (auto simp: mailboxes_ok_def)
      ultimately show ?thesis by (auto simp: kstate_def)
    qed
    then show ?thesis using 2 by (simp add: krel_def fixed_def kept_def tlb_but_window_def vstat_def)
  qed simp
qed

subsection \<open>Hardware accesses\<close>

lemma quiet_upd [simp]:
  "quiet s (s\<lparr>cp0 := x1\<rparr>)" "quiet s (s\<lparr>gcp0 := x2\<rparr>)" "quiet s (s\<lparr>shadow := x3\<rparr>)" "quiet s (s\<lparr>frame := x4\<rparr>)"
  "quiet s (s\<lparr>ie := x5\<rparr>)" "quiet s (s\<lparr>mem := x6\<rparr>)" "quiet s (s\<lparr>io := x7\<rparr>)" "quiet s (s\<lparr>vol_n := x8\<rparr>)"
  "quiet s (s\<lparr>transfers := x9\<rparr>)" "quiet s (s\<lparr>active_transfer := x10\<rparr>)" "quiet s (s\<lparr>timer_past := x11\<rparr>)"
  by (simp_all add: quiet_def fixed_def kept_def tlb_but_window_def)

lemma quiet_tlb: "tlb_but_window s (s\<lparr>tlb := T\<rparr>) \<Longrightarrow> quiet s (s\<lparr>cp0 := c, tlb := T\<rparr>)"
  by (simp add: quiet_def fixed_def kept_def tlb_but_window_def)

named_theorems quiet_intros "operations that are quiet"

lemma mtc0_quiet [quiet_intros]: "quiet s (mtc0 r sel v s)" "quiet s (mtgc0 r sel v s)"
  by (simp_all add: mtc0_def mtgc0_def)

lemma MoveTo_quiet [quiet_intros]: "quiet s (MoveToPreviousGuestGPR r v s)"
  by (simp add: MoveToPreviousGuestGPR_def Let_def split: port.split)

lemma sfr_quiet [quiet_intros]: "quiet s (sfr_write a v s)" "sfr_read a s = (v, t) \<Longrightarrow> quiet s t"
proof -
  show "quiet s (sfr_write a v s)" by (simp add: sfr_write_def dev_write_def)
  have "quiet s (s\<lparr>vol_n := n, io := i\<rparr>)" for n i
    by (simp add: quiet_def fixed_def kept_def tlb_but_window_def)
  then show "sfr_read a s = (v, t) \<Longrightarrow> quiet s t" by (auto simp: sfr_read_def dev_read_def Let_def)
qed

lemma volatile_quiet [quiet_intros]: "mfc0_volatile r s = (v, t) \<Longrightarrow> quiet s t"
  by (auto simp: mfc0_volatile_def)

lemma dev_quiet: "quiet s (snd (dev_read a s))" "quiet s (dev_write a v s)"
  by (simp_all add: dev_read_def dev_write_def Let_def quiet_def fixed_def kept_def tlb_but_window_def)

lemma access_quiet [quiet_intros]:
  "ld8 a s = Some (b, t) \<Longrightarrow> quiet s t" "st8 a b s = Some t \<Longrightarrow> quiet s t"
  "ld32 a s = Some (w, t) \<Longrightarrow> quiet s t" "st32 a w s = Some t \<Longrightarrow> quiet s t"
  using dev_quiet [of s]
  by (auto simp: ld8_def st8_def ld32_def st32_def bind_eq_Some_conv split: if_splits prod.splits)
    (metis snd_conv)+

lemma bytes_quiet [quiet_intros]:
  "ld_bytes a n s = Some (bs, t) \<Longrightarrow> quiet s t" "st_bytes a bs s = Some t \<Longrightarrow> quiet s t"
proof -
  show "ld_bytes a n s = Some (bs, t) \<Longrightarrow> quiet s t"
  proof (induction n arbitrary: a s bs t)
    case (Suc n)
    then obtain b u xs where "ld8 a s = Some (b, u)" "ld_bytes (a + 1) n u = Some (xs, t)"
      by (auto simp: bind_eq_Some_conv)
    then show ?case using Suc.IH access_quiet(1) quiet_trans by blast
  qed simp
  show "st_bytes a bs s = Some t \<Longrightarrow> quiet s t"
  proof (induction bs arbitrary: a s t)
    case (Cons b bs)
    then obtain u where "st8 a b s = Some u" "st_bytes (a + 1) bs u = Some t"
      by (auto simp: bind_eq_Some_conv)
    then show ?case using Cons.IH access_quiet(2) quiet_trans by blast
  qed simp
qed

lemma tlbCreateEntry_quiet [quiet_intros]:
  assumes "tlbCreateEntry address baseaddr sz 0xF use_cache s = Some (va, t)"
  shows "quiet s t"
proof -
  let ?e = "window_entry address baseaddr sz 0xF use_cache"
  from assms have w: "tlbEntryWrite ?e s = Some t" by (auto simp: tlbCreateEntry_eq bind_eq_Some_conv)
  have i: "unat (te_index ?e) = 15" "hw_guestid (entry_hw ?e) = 0"
    by (simp_all add: window_entry_def entry_hw_def Let_def)
  have l: "15 < length (tlb s)"
    using w by (simp add: tlbEntryWrite_def tlb_commit_def Let_def hv_simps setGuestRID_def window_entry_def split: if_splits)
  obtain c where "tlbEntryWrite ?e s = Some (s\<lparr>cp0 := c, tlb := (tlb s)[15 := Some (entry_hw ?e)]\<rparr>)"
    by (rule tlbEntryWrite_eq [of ?e s, unfolded i(1), OF l])
  moreover have "tlb_but_window s (s\<lparr>tlb := (tlb s)[15 := Some (entry_hw ?e)]\<rparr>)"
    using i(2) l by (auto simp: tlb_but_window_def nth_list_update)
  ultimately show ?thesis using w quiet_tlb by auto
qed

subsection \<open>Scheduling\<close>

text \<open>The static part through the scheduler; what it keeps of the VCPUs is in \<open>run_scheduler_total\<close>.\<close>

lemma fixed_refl [simp]: "fixed s s"
  by (simp add: fixed_def kept_def)

lemma fixed_upd [simp]:
  "fixed s (s\<lparr>vcpus := x1\<rparr>)" "fixed s (s\<lparr>vcpu_ready_list := x2\<rparr>)" "fixed s (s\<lparr>pending := x3\<rparr>)"
  "fixed s (s\<lparr>vcpus := x1, pending := x3\<rparr>)" "fixed s (s\<lparr>vcpu_executing := x4\<rparr>)" "fixed s (s\<lparr>tick_count := x5\<rparr>)"
  by (simp_all add: fixed_def kept_def tlb_but_window_def)

lemma rotate_ready_fixed: "rotate_ready s = Some (p, t) \<Longrightarrow> fixed s t \<and> vcpus t = vcpus s"
  by (auto simp: rotate_ready_def bind_eq_Some_conv)

lemma rr_search_fixed: "rr_search n h aux s = Some (r, t) \<Longrightarrow> fixed s t"
proof (induction n arbitrary: h aux s)
  case (Suc n)
  then obtain p u v where u: "rotate_ready s = Some (p, u)" "vcpus u p = Some v"
    by (auto simp: bind_eq_Some_conv)
  have f: "fixed s u" using rotate_ready_fixed [OF u(1)] by simp
  have "fixed u t"
    using Suc.prems u Suc.IH by (auto split: if_splits)
  with f show ?case by (rule fixed_trans)
qed simp

lemma rr_age_fixed: "rr_age n best s = Some t \<Longrightarrow> fixed s t"
proof (induction n arbitrary: s)
  case (Suc n)
  then obtain p u v b where u: "rotate_ready s = Some (p, u)" "vcpus u p = Some v" "vcpus u best = Some b"
    by (auto simp: bind_eq_Some_conv)
  have f: "fixed s u" using rotate_ready_fixed [OF u(1)] by simp
  let ?u = "if p \<noteq> best \<and> state v = VCPU_RUNNING
    then u\<lparr>vcpus := (vcpus u)(p \<mapsto> v\<lparr>priority_rem := priority_rem v - priority_rem b\<rparr>)\<rparr> else u"
  have "fixed u ?u" by simp
  moreover have "fixed ?u t" by (rule Suc.IH) (use Suc.prems u in simp)
  ultimately show ?case using f fixed_trans by blast
qed simp

lemma round_robin_fixed:
  assumes "round_robin_scheduler s = Some (r, t)"
  shows "fixed s t"
proof -
  from assms obtain q x u where u: "vcpu_ready_list s = Some q"
    "rr_search (unat (word_of_int (queue_count q) :: u32)) 255 None s = Some (x, u)"
    "(case x of Inl p \<Rightarrow> Some (Some p, u) | Inr None \<Rightarrow> Some (None, u)
      | Inr (Some best) \<Rightarrow>
          do { s2 \<leftarrow> rr_age (unat (word_of_int (queue_count q) :: u32)) best u;
               v \<leftarrow> vcpus s2 best;
               Some (Some best, s2\<lparr>vcpus := (vcpus s2)(best \<mapsto> v\<lparr>priority_rem := priority v, bgjobs := bgjobs v + 1\<rparr>)\<rparr>) })
      = Some (r, t)"
    unfolding round_robin_scheduler_def bind_eq_Some_conv Let_def by auto
  have f: "fixed s u" by (rule rr_search_fixed [OF u(2)])
  consider "t = u" | s2 vs where "fixed u s2" "t = s2\<lparr>vcpus := vs\<rparr>"
  proof (cases x)
    case (Inr b)
    show ?thesis
    proof (cases b)
      case (Some best)
      then obtain s2 v where s2: "rr_age (unat (word_of_int (queue_count q) :: u32)) best u = Some s2"
        "t = s2\<lparr>vcpus := (vcpus s2)(best \<mapsto> v\<lparr>priority_rem := priority v, bgjobs := bgjobs v + 1\<rparr>)\<rparr>"
        using u(3) Inr by (auto simp: bind_eq_Some_conv)
      show ?thesis by (rule that(2) [OF rr_age_fixed [OF s2(1)] s2(2)])
    qed (use u(3) Inr that(1) in simp)
  qed (use u(3) that(1) in simp)
  then show ?thesis using f fixed_trans [OF f] fixed_trans by cases (simp, metis fixed_upd(1))
qed

lemma contextSave_fixed: "contextSave s = Some t \<Longrightarrow> fixed s t"
  by (auto simp: contextSave_def bind_eq_Some_conv Let_def gpr_context_save_def fixed_def kept_def tlb_but_window_def
      split: option.splits if_splits port.splits)

lemma quiet_fixed: "quiet s t \<Longrightarrow> fixed s t"
  by (simp add: quiet_def)

lemma restore_regs_quiet: "quiet s (restore_regs rs regs s)"
  by (induction rs regs s rule: restore_regs.induct) (auto intro: quiet_trans mtc0_quiet)

lemma contextRestore_fixed:
  assumes "contextRestore s = Some t"
  shows "fixed s t"
proof (cases "vcpu_executing s")
  case None
  have "quiet s (config_idle_cpu s)"
    unfolding config_idle_cpu_def setEPC_def clearGuestMode_def setGuestID_def
    by (rule quiet_trans [OF quiet_trans [OF mtc0_quiet(1) mtc0_quiet(1)] mtc0_quiet(1)])
  then show ?thesis using assms None by (simp add: contextRestore_def quiet_fixed)
next
  case (Some p)
  then obtain v where v: "vcpus s p = Some v" using assms by (auto simp: contextRestore_def bind_eq_Some_conv)
  define s1 where "s1 = (if gprshadowset v \<noteq> 0
    then setLowestGShadow (gprshadowset v) (setPreviousShadowSet (gprshadowset v) s) else s)"
  define s4 where "s4 = setGuestCTL2 (guestclt2 v)
    (restore_regs restored_cp0 (cp0_registers v) (setGuestMode (setGuestID (vc_ident v) s1)))"
  have "quiet s s1"
    unfolding s1_def setLowestGShadow_def setPreviousShadowSet_def by (auto intro: quiet_trans mtc0_quiet)
  also have "quiet s1 s4"
    unfolding s4_def setGuestCTL2_def setGuestMode_def setGuestID_def
    by (rule quiet_trans [OF quiet_trans [OF quiet_trans [OF mtc0_quiet(1) mtc0_quiet(1)] restore_regs_quiet] mtc0_quiet(1)])
  finally have q: "fixed s s4" by (rule quiet_fixed)
  obtain vs where "t = (let s5 = setEPC (pc v) (s4\<lparr>vcpus := vs\<rparr>) in
      case gpr v of None \<Rightarrow> s5 | Some g \<Rightarrow> gpr_context_restore g s5)"
    using assms Some v by (auto simp: contextRestore_def Let_def s1_def s4_def split: option.splits)
  then have "fixed s4 t"
    by (auto simp: fixed_def kept_def tlb_but_window_def setEPC_def mtc0_def gpr_context_restore_def Let_def
        split: option.split port.split)
  with q show ?thesis by (rule fixed_trans)
qed

lemma run_scheduler_fixed:
  assumes "run_scheduler s = Some t"
  shows "fixed s t"
proof -
  obtain due u where u: "sched_due s = Some due"
    "(if due then do { (aux, t) \<leftarrow> round_robin_scheduler s;
        if aux \<noteq> vcpu_executing t then do { t1 \<leftarrow> contextSave t; contextRestore (t1\<lparr>vcpu_executing := aux\<rparr>) } else Some t }
      else Some s) = Some u" "t = u\<lparr>tick_count := tick_count u + 1\<rparr>"
    using assms unfolding run_scheduler_def bind_eq_Some_conv by auto
  have "fixed s u"
  proof (cases due)
    case True
    then obtain aux w where w: "round_robin_scheduler s = Some (aux, w)"
      "(if aux \<noteq> vcpu_executing w then do { t1 \<leftarrow> contextSave w; contextRestore (t1\<lparr>vcpu_executing := aux\<rparr>) }
        else Some w) = Some u"
      using u(2) by (auto simp: bind_eq_Some_conv)
    have "fixed w u"
      using w(2) contextSave_fixed contextRestore_fixed fixed_trans [OF _ fixed_trans]
      by (auto simp: bind_eq_Some_conv split: if_splits) (metis fixed_upd(5))
    then show ?thesis using fixed_trans [OF round_robin_fixed [OF w(1)]] by simp
  qed (use u(2) in simp)
  then show ?thesis unfolding u(3) by (rule fixed_trans) simp
qed

text \<open>The scheduler picks from the ready list, so it is total and keeps the kernel state.\<close>

lemma after_pick_stat:
  assumes "sched_inv s ps"
  shows "map_option vstat (after_pick (vcpus s) ps p) = map_option vstat (vcpus s p)"
    "map_option messages (after_pick (vcpus s) ps p) = map_option messages (vcpus s p)"
proof -
  have dom: "\<And>p. p \<in> set ps \<Longrightarrow> vcpus s p \<noteq> None" using assms by (simp add: sched_inv_def)
  have upd: "map_option f ((vs(x \<mapsto> w)) p) = map_option f (vcpus s p)"
    if "vcpus s x = Some v" "f w = f v" "map_option f (vs p) = map_option f (vcpus s p)"
    for f :: "vcpu_t \<Rightarrow> 'b" and vs x v w
    using that by auto
  have age: "map_option f (age (vcpus s) b ps p) = map_option f (vcpus s p)"
    if "\<And>v n. f (v\<lparr>priority_rem := n\<rparr>) = f v" for f :: "vcpu_t \<Rightarrow> 'b" and b
    using that by (simp add: age_def option.map_comp comp_def)
  have main: "map_option f (after_pick (vcpus s) ps p) = map_option f (vcpus s p)"
    if f: "\<And>v n. f (v\<lparr>priority_rem := n\<rparr>) = f v" "\<And>v n. f (v\<lparr>bgjobs := n\<rparr>) = f v" "\<And>v n. f (v\<lparr>critical := n\<rparr>) = f v"
    for f :: "vcpu_t \<Rightarrow> 'b"
  proof (cases "find (urgent (vcpus s)) ps")
    case None
    show ?thesis
    proof (cases "scan (vcpus s) 255 None ps")
      case (Some b)
      then obtain v where v: "vcpus s b = Some v" using scan_in by blast
      have e: "after_pick (vcpus s) ps = (age (vcpus s) b ps)(b \<mapsto> v\<lparr>priority_rem := priority v, bgjobs := bgjobs v + 1\<rparr>)"
        using None Some v by (simp add: after_pick_def)
      show ?thesis unfolding e
      proof (rule upd [OF v])
        show "f (v\<lparr>priority_rem := priority v, bgjobs := bgjobs v + 1\<rparr>) = f v" by (simp only: f(1,2))
        show "map_option f (age (vcpus s) b ps p) = map_option f (vcpus s p)" by (rule age) (rule f(1))
      qed
    qed (use None in \<open>simp add: after_pick_def\<close>)
  next
    case (Some b)
    obtain v where v: "vcpus s b = Some v" using dom [OF find_in [OF Some]] by auto
    have e: "after_pick (vcpus s) ps = (vcpus s)(b \<mapsto> v\<lparr>critical := 0, bgjobs := bgjobs v + 1\<rparr>)"
      using Some v by (simp add: after_pick_def)
    show ?thesis unfolding e by (rule upd [OF v]) (simp_all add: f(2,3))
  qed
  show "map_option vstat (after_pick (vcpus s) ps p) = map_option vstat (vcpus s p)"
    by (rule main) (simp_all add: vstat_def)
  show "map_option messages (after_pick (vcpus s) ps p) = map_option messages (vcpus s p)"
    by (rule main) simp_all
qed

lemma sched_view_parts:
  assumes "map_option sched_view x = map_option sched_view y"
  shows "map_option vstat x = map_option vstat y" "map_option messages x = map_option messages y"
  using assms by (cases x; cases y; simp add: sched_view_def vstat_def)+

lemma run_scheduler_kstate:
  assumes k: "kstate s"
  obtains t where "run_scheduler s = Some t" "kstate t"
    "\<And>p. map_option vstat (vcpus t p) = map_option vstat (vcpus s p)"
proof -
  from k obtain ps where ps: "hv_sched s ps" "dom (vcpus s) = set ps" and mb: "mailboxes_ok s"
    by (auto simp: kstate_def)
  have inv: "sched_inv s ps" using ps(1) by (simp add: hv_sched_def)
  obtain due where due: "sched_due s = Some due" by (rule sched_due_ok [OF ps(1)])
  obtain t ps' where t: "run_scheduler s = Some t" "hv_sched t ps'" "set ps' = set ps"
    "sched_due s = Some False \<Longrightarrow> vcpu_executing t = vcpu_executing s \<and> vcpus t = vcpus s"
    "\<And>p. sched_due s = Some True \<Longrightarrow>
       map_option sched_view (vcpus t p) = map_option sched_view (after_pick (vcpus s) ps p)"
    by (rule run_scheduler_total [OF ps(1)], rule that)
  have v: "map_option vstat (vcpus t p) = map_option vstat (vcpus s p) \<and>
      map_option messages (vcpus t p) = map_option messages (vcpus s p)" for p
    using t(4) sched_view_parts [OF t(5)] after_pick_stat [OF inv] due by (cases due) auto
  have "vcpus t p = None \<longleftrightarrow> vcpus s p = None" for p
    using conjunct1 [OF v [of p]] by (metis option.map_disc_iff)
  then have "dom (vcpus t) = dom (vcpus s)" unfolding dom_def by simp
  then have "dom (vcpus t) = set ps'" using ps(2) t(3) by simp
  moreover have "mailboxes_ok t"
    unfolding mailboxes_ok_def
  proof (intro allI impI)
    fix p w assume "vcpus t p = Some w"
    then obtain u where "vcpus s p = Some u" "messages u = messages w" using v [of p] by (cases "vcpus s p") auto
    then have "msgs_ok (messages u)" "messages u = messages w" using mb unfolding mailboxes_ok_def by blast+
    then show "msgs_ok (messages w)" by simp
  qed
  ultimately have "kstate t" using t(2) by (auto simp: kstate_def)
  then show thesis using that t(1) v by blast
qed

end
