(* ===== verification/Messaging.thy ===== *)
theory Messaging
  imports Frame
begin

text \<open>
  The contract of the message hypercalls, from the guest's registers and buffers to the mailbox
  of the receiver and back.
\<close>

subsection \<open>Buffers of the calling guest\<close>

text \<open>
  The calling VM has a window to copy through, and the buffer it names lies, seen from the
  base of the VM, in RAM.
\<close>

definition vm_window :: "hv \<Rightarrow> vm_t \<Rightarrow> bool" where
  "vm_window s m \<longleftrightarrow> window_slot 15 s \<and>
     base_addr m AND 0x1FFF = 0 \<and> 0x80000000 \<le> base_addr m \<and> base_addr m \<le> 0x9FFFE000"

definition window_ready :: "hv \<Rightarrow> vm_t \<Rightarrow> bool" where
  "window_ready s m \<longleftrightarrow> cur_vm s = Some m \<and> vm_window s m"

definition guest_buffer :: "hv \<Rightarrow> vm_t \<Rightarrow> u32 \<Rightarrow> u32 \<Rightarrow> bool" where
  "guest_buffer s m address sz \<longleftrightarrow> unat sz \<le> 4096 \<and> unat address + unat sz < 4294967296 \<and>
     (\<forall>j<unat sz. is_ram s (guest_phys (base_addr m) address + of_nat j))"

lemma guest_window:
  assumes "vm_window s m" "guest_buffer s m address sz"
  obtains va s1 where "tlbCreateEntry address (base_addr m) sz 0xF c s = Some (va, s1)"
    "maps_to s1 va (guest_phys (base_addr m) address) (unat sz)"
    "quiet s s1" "mem s1 = mem s" "io s1 = io s" "vol_n s1 = vol_n s"
    "\<And>r. MoveFromPreviousGuestGPR r s1 = MoveFromPreviousGuestGPR r s"
    "transfers s1 = transfers s" "active_transfer s1 = active_transfer s" "window_slot 15 s1"
    "\<And>r sel. (r, sel) \<notin> {(CP0_GUESTCTL1, 4), (CP0_INDEX, 0), (CP0_ENTRYLO0, 0), (CP0_ENTRYLO1, 0),
       (CP0_PAGEMASK, 0), (CP0_ENTRYHI, 0)} \<Longrightarrow> cp0 s1 (r, sel) = cp0 s (r, sel)"
proof -
  let ?e = "window_entry address (base_addr m) sz 0xF c"
  have slot: "window_slot (unat (0xF :: u32)) s" using assms(1) by (simp add: vm_window_def)
  have b: "base_addr m AND 0x1FFF = 0" "0x80000000 \<le> base_addr m" "base_addr m \<le> 0x9FFFE000"
    using assms(1) by (simp_all add: vm_window_def)
  have g: "unat sz \<le> 4096" "unat address + unat sz < 4294967296"
    and ram: "\<And>j. j < unat sz \<Longrightarrow> is_ram s (guest_phys (base_addr m) address + of_nat j)"
    using assms(2) by (simp_all add: guest_buffer_def)
  let ?va = "window_va c (base_addr m) address"
  obtain s1 where s1: "tlbCreateEntry address (base_addr m) sz 0xF c s = Some (?va, s1)"
    "maps_to s1 ?va (guest_phys (base_addr m) address) (unat sz)"
    "s1 = s\<lparr>cp0 := cp0 s1, tlb := (tlb s)[unat (0xF :: u32) := Some (entry_hw ?e)]\<rparr>"
    "window_slot (unat (0xF :: u32)) s1"
    by (rule window_maps [OF slot b g ram])
  have i: "unat (te_index ?e) < length (tlb s)" using slot by (simp add: window_slot_def window_entry_def Let_def)
  obtain k where k: "tlbEntryWrite ?e s = Some (s\<lparr>cp0 := k, tlb := (tlb s)[unat (te_index ?e) := Some (entry_hw ?e)]\<rparr>)"
    "\<And>r sel. (r, sel) \<notin> {(CP0_GUESTCTL1, 4), (CP0_INDEX, 0), (CP0_ENTRYLO0, 0), (CP0_ENTRYLO1, 0),
       (CP0_PAGEMASK, 0), (CP0_ENTRYHI, 0)} \<Longrightarrow> k (r, sel) = cp0 s (r, sel)"
    by (rule tlbEntryWrite_eq [OF i], rule that)
  have s1k: "s1 = s\<lparr>cp0 := k, tlb := (tlb s)[unat (te_index ?e) := Some (entry_hw ?e)]\<rparr>"
    using s1(1) k(1) by (simp add: tlbCreateEntry_eq)
  have q: "quiet s s1" by (rule tlbCreateEntry_quiet [OF s1(1)])
  have cp: "cp0 s1 = k" unfolding s1k by simp
  have mv: "MoveFromPreviousGuestGPR r s1 = MoveFromPreviousGuestGPR r s" for r
    using k(2) [of CP0_SRSCTL 2] unfolding s1k
    by (simp add: MoveFromPreviousGuestGPR_def getPreviousShadowSet_def mfc0_def split: port.split)
  show thesis
    by (rule that [OF s1(1,2) q]) (use s1(4) k(2) mv cp in \<open>simp_all add: s1k\<close>)
qed

lemma window_readyD: "window_ready s m \<Longrightarrow> vm_window s m"
  by (simp add: window_ready_def)

lemma quiet_window_ready: "quiet s t \<Longrightarrow> window_slot 15 t \<Longrightarrow> window_ready s m \<Longrightarrow> window_ready t m"
  by (simp add: window_ready_def vm_window_def quiet_fields)

subsection \<open>Sending\<close>

lemma fast_interrupt_delivery_effect:
  assumes "fast_interrupt_delivery p s = Some t"
  shows "mem t = mem s" "MoveFromPreviousGuestGPR r t = MoveFromPreviousGuestGPR r s"
    "\<exists>c. vcpus t p = map_option (\<lambda>v. v\<lparr>critical := c\<rparr>) (vcpus s p) \<or> vcpus t p = vcpus s p"
    "q \<noteq> p \<Longrightarrow> vcpus t q = vcpus s q" "vcpu_executing t = vcpu_executing s"
  by (rule fast_interrupt_cases [OF assms];
      auto simp: MoveFromPreviousGuestGPR_def getPreviousShadowSet_def mfc0_def split: port.split)+

text \<open>The VCPU that answers to an identifier.\<close>

definition vcpu_named :: "hv \<Rightarrow> nat list \<Rightarrow> u32 \<Rightarrow> nat option" where
  "vcpu_named s ps ident = find (\<lambda>p. vc_ident (the (vcpus s p)) = ident) ps"

lemma vcpu_named_eq: "hv_sched s ps \<Longrightarrow> get_vcpu_from_id ident s = Some (vcpu_named s ps ident)"
  unfolding vcpu_named_def by (rule get_vcpu_from_id_eq) (auto simp: hv_sched_def sched_inv_def)

lemma intervm_send_ok:
  assumes wf: "hv_sched s ps" "window_ready s m"
    and sz: "MoveFromPreviousGuestGPR REG_A2 s \<le> 256"
    and buf: "guest_buffer s m (MoveFromPreviousGuestGPR REG_A1 s) (MoveFromPreviousGuestGPR REG_A2 s)"
    and target: "vcpu_named s ps (MoveFromPreviousGuestGPR REG_A0 s) = Some p" "vcpus s p = Some v" "vc_init v = 0"
    and box: "msgs_ok (messages v)" "length (inbox (messages v)) < 5"
  obtains s' v' where "intervm_send_msg s = Some s'" "vcpus s' p = Some v'" "msgs_ok (messages v')"
    "inbox (messages v') = inbox (messages v) @ [(vm_ident m,
       bytes_at (mem s) (guest_phys (base_addr m) (MoveFromPreviousGuestGPR REG_A1 s)) (unat (MoveFromPreviousGuestGPR REG_A2 s)))]"
    "guestclt2 v' = guestclt2 v OR intervm_bit (c_port (conf s))"
    "MoveFromPreviousGuestGPR REG_V0 s' = MoveFromPreviousGuestGPR REG_A2 s"
    "vcpu_executing s \<noteq> Some p \<Longrightarrow> critical v' \<noteq> 0 \<and> pending s' \<noteq> 0"
    "hv_sched s' ps" "mem s' = mem s" "\<And>q. q \<noteq> p \<Longrightarrow> vcpus s' q = vcpus s q"
proof -
  let ?a1 = "MoveFromPreviousGuestGPR REG_A1 s" and ?n = "MoveFromPreviousGuestGPR REG_A2 s"
  let ?pa = "guest_phys (base_addr m) ?a1"
  let ?bs = "bytes_at (mem s) ?pa (unat ?n)"
  obtain va s1 where s1: "tlbCreateEntry ?a1 (base_addr m) ?n 0xF False s = Some (va, s1)"
    "maps_to s1 va ?pa (unat ?n)" "quiet s s1" "mem s1 = mem s"
    "\<And>r. MoveFromPreviousGuestGPR r s1 = MoveFromPreviousGuestGPR r s"
    by (rule guest_window [OF window_readyD [OF wf(2)] buf], rule that)
  note q1 = quiet_fields [OF s1(3)]
  have ld: "ld_bytes va (unat ?n) s1 = Some (?bs, s1)" using ld_bytes_maps [OF s1(2)] s1(4) by simp
  have n: "unat ?n \<le> 256" using sz by (simp add: word_le_nat_alt)
  have lb: "length ?bs = unat ?n" by (simp add: bytes_at_def)
  then have lw: "of_nat (length ?bs) = ?n" by simp
  have lb256: "length (snd (vm_ident m, ?bs)) \<le> 256" using n lb by simp
  obtain b1 where b1: "box_put (messages v) (vm_ident m, ?bs) = Some b1" "msgs_ok b1"
    "inbox b1 = inbox (messages v) @ [(vm_ident m, ?bs)]"
    using mailbox.put_ok [OF box(1) lb256 box(2)] by auto
  have put: "buf_put ?bs ?n (vm_ident m) (messages v) = Some b1"
    using b1(1) lw by (simp add: box_put_def)
  have pin: "p \<in> set ps" using target(1) by (auto simp: vcpu_named_def find_Some_iff)
  have full: "num_messages (messages v) \<noteq> MESSAGELIST_SZ" using box(2) by (auto simp: MESSAGELIST_SZ_def)
  let ?v3 = "v\<lparr>messages := b1, guestclt2 := guestclt2 v OR intervm_bit (c_port (conf s))\<rparr>"
  let ?s3 = "MoveToPreviousGuestGPR REG_V0 ?n (s1\<lparr>vcpus := (vcpus s1)(p \<mapsto> ?v3)\<rparr>)"
  have vs3: "vcpus ?s3 = (vcpus s)(p \<mapsto> ?v3)" using q1 by (simp add: hv_simps)
  have call: "intervm_send_msg s = fast_interrupt_delivery p ?s3"
    using leD [OF sz] target full s1(1) ld put wf(2) q1 vcpu_named_eq [OF wf(1)]
    by (simp add: intervm_send_msg_def MESSAGE_SZ_def window_ready_def Let_def)
  have e3: "vcpu_executing ?s3 = vcpu_executing s" "pending ?s3 = pending s" "conf ?s3 = conf s"
    "vcpu_ready_list ?s3 = vcpu_ready_list s"
    using s1(3) by (simp_all add: hv_simps quiet_def fixed_def kept_def)
  have h3: "hv_sched ?s3 ps"
    by (rule hv_sched_cong [OF wf(1)]) (use e3 vs3 target(2) in auto)
  obtain s' where s': "fast_interrupt_delivery p ?s3 = Some s'" "sched_inv s' ps"
    "vcpu_executing s' = vcpu_executing ?s3" "conf s' = conf ?s3"
    "\<And>r. r \<noteq> p \<Longrightarrow> vcpus s' r = vcpus ?s3 r"
    "vcpu_executing ?s3 \<noteq> Some p \<Longrightarrow> crit_bit (vcpus s') p \<and> pending s' \<noteq> 0"
    by (rule fast_interrupt_delivery_ok [OF _ pin, of ?s3]) (use h3 in \<open>simp add: hv_sched_def\<close>, rule that)
  note eff = fast_interrupt_delivery_effect [OF s'(1)]
  obtain v' where v': "vcpus s' p = Some v'" "messages v' = b1" "guestclt2 v' = guestclt2 ?v3"
    using eff(3) vs3 by auto
  have hs: "hv_sched s' ps" using s'(2,3,4) h3 by (simp add: hv_sched_def)
  have mv: "MoveFromPreviousGuestGPR REG_V0 s' = ?n" using eff(2) by (simp add: hv_simps)
  have cr: "vcpu_executing s \<noteq> Some p \<Longrightarrow> critical v' \<noteq> 0 \<and> pending s' \<noteq> 0"
    using s'(6) e3(1) v'(1) by (simp add: crit_bit_def)
  show thesis
    by (rule that [of s' v']) (use call s'(1,5) v' b1 hs mv cr eff(1) s1(4) vs3 q1(3) in \<open>simp_all add: hv_simps\<close>)
qed

text \<open>The refusals, in the order of the checks: nothing but the return register changes.\<close>

lemma intervm_send_refused:
  assumes wf: "hv_sched s ps"
  shows "256 < MoveFromPreviousGuestGPR REG_A2 s \<Longrightarrow>
      intervm_send_msg s = Some (MoveToPreviousGuestGPR REG_V0 MESSAGE_TOO_BIG s)"
    "MoveFromPreviousGuestGPR REG_A2 s \<le> 256 \<Longrightarrow> vcpu_named s ps (MoveFromPreviousGuestGPR REG_A0 s) = None \<Longrightarrow>
      intervm_send_msg s = Some (MoveToPreviousGuestGPR REG_V0 MESSAGE_VCPU_NOT_FOUND s)"
    "MoveFromPreviousGuestGPR REG_A2 s \<le> 256 \<Longrightarrow> vcpu_named s ps (MoveFromPreviousGuestGPR REG_A0 s) = Some p \<Longrightarrow>
      vcpus s p = Some v \<Longrightarrow> vc_init v \<noteq> 0 \<Longrightarrow>
      intervm_send_msg s = Some (MoveToPreviousGuestGPR REG_V0 MESSAGE_VCPU_NOT_INIT s)"
    "MoveFromPreviousGuestGPR REG_A2 s \<le> 256 \<Longrightarrow> vcpu_named s ps (MoveFromPreviousGuestGPR REG_A0 s) = Some p \<Longrightarrow>
      vcpus s p = Some v \<Longrightarrow> vc_init v = 0 \<Longrightarrow> length (inbox (messages v)) = 5 \<Longrightarrow>
      intervm_send_msg s = Some (MoveToPreviousGuestGPR REG_V0 MESSAGE_FULL
        (s\<lparr>vcpus := (vcpus s)(p \<mapsto> v\<lparr>guestclt2 := guestclt2 v OR push_bit GUESTCLT2_GRIPL_SHIFT GUEST_INTERVM_INT\<rparr>)\<rparr>))"
proof -
  note G = vcpu_named_eq [OF wf]
  show "256 < MoveFromPreviousGuestGPR REG_A2 s \<Longrightarrow>
      intervm_send_msg s = Some (MoveToPreviousGuestGPR REG_V0 MESSAGE_TOO_BIG s)"
    by (simp add: intervm_send_msg_def MESSAGE_SZ_def)
  have five: "num_messages b = MESSAGELIST_SZ" if "length (inbox b) = 5" for b
  proof -
    have "unat (num_messages b) = unat (5 :: u32)" using that by simp
    then show ?thesis unfolding MESSAGELIST_SZ_def by (simp only: word_unat_eq_iff)
  qed
  show "MoveFromPreviousGuestGPR REG_A2 s \<le> 256 \<Longrightarrow> vcpu_named s ps (MoveFromPreviousGuestGPR REG_A0 s) = None \<Longrightarrow>
      intervm_send_msg s = Some (MoveToPreviousGuestGPR REG_V0 MESSAGE_VCPU_NOT_FOUND s)"
    by (drule leD) (simp add: intervm_send_msg_def MESSAGE_SZ_def G)
  show "MoveFromPreviousGuestGPR REG_A2 s \<le> 256 \<Longrightarrow> vcpu_named s ps (MoveFromPreviousGuestGPR REG_A0 s) = Some p \<Longrightarrow>
      vcpus s p = Some v \<Longrightarrow> vc_init v \<noteq> 0 \<Longrightarrow>
      intervm_send_msg s = Some (MoveToPreviousGuestGPR REG_V0 MESSAGE_VCPU_NOT_INIT s)"
    by (drule leD) (simp add: intervm_send_msg_def MESSAGE_SZ_def G)
  show "MoveFromPreviousGuestGPR REG_A2 s \<le> 256 \<Longrightarrow> vcpu_named s ps (MoveFromPreviousGuestGPR REG_A0 s) = Some p \<Longrightarrow>
      vcpus s p = Some v \<Longrightarrow> vc_init v = 0 \<Longrightarrow> length (inbox (messages v)) = 5 \<Longrightarrow>
      intervm_send_msg s = Some (MoveToPreviousGuestGPR REG_V0 MESSAGE_FULL
        (s\<lparr>vcpus := (vcpus s)(p \<mapsto> v\<lparr>guestclt2 := guestclt2 v OR push_bit GUESTCLT2_GRIPL_SHIFT GUEST_INTERVM_INT\<rparr>)\<rparr>))"
    by (drule leD) (simp add: intervm_send_msg_def MESSAGE_SZ_def G five del: inbox_length)
qed

subsection \<open>Receiving\<close>

lemma intervm_recv_ok:
  assumes wf: "window_ready s m" "vcpu_executing s = Some p" "vcpus s p = Some v"
    and box: "msgs_ok (messages v)" "inbox (messages v) = (src, bs) # rest"
    and buf: "guest_buffer s m (MoveFromPreviousGuestGPR REG_A0 s) (of_nat (length bs))"
  obtains s' v' where "intervm_recv_msg s = Some s'" "vcpus s' = (vcpus s)(p \<mapsto> v')" "msgs_ok (messages v')"
    "inbox (messages v') = rest"
    "mem s' = put_bytes (mem s) (guest_phys (base_addr m) (MoveFromPreviousGuestGPR REG_A0 s)) bs"
    "MoveFromPreviousGuestGPR REG_V0 s' = of_nat (length bs)" "MoveFromPreviousGuestGPR REG_A0 s' = src"
    "guestclt2 v' = guestclt2 v AND NOT (intervm_bit (c_port (conf s)))"
    "getGuestCTL2 s' = getGuestCTL2 s AND NOT (intervm_bit (c_port (conf s)))"
    "krel s s'" "length bs \<le> 256"
proof -
  let ?b = "messages v" and ?a0 = "MoveFromPreviousGuestGPR REG_A0 s"
  let ?pa = "guest_phys (base_addr m) ?a0" and ?bit = "intervm_bit (c_port (conf s))"
  have nz: "num_messages ?b \<noteq> 0" using box(2) by (auto simp: inbox_def)
  obtain b1 where get: "box_get ?b = Some ((src, bs), b1)" "msgs_ok b1" "inbox b1 = rest"
    using mailbox.get_ok [OF box] by auto
  then obtain slot where slot: "buf_front ?b = Some slot" "msg_of slot = (src, bs)" "b1 = buf_drop ?b"
    using nz by (auto simp: box_get_def bind_eq_Some_conv)
  have o: "unat (mb_out ?b) < 5" "length (message_list ?b) = 5" "\<forall>x\<in>set (message_list ?b). slot_ok x"
    and szs: "\<And>i. i < unat (num_messages ?b) \<Longrightarrow> unat (msg_size (message_list ?b ! ((unat (mb_out ?b) + i) mod 5))) \<le> 256"
    using box(1) by (auto simp: msgs_ok_def)
  have sl: "slot = message_list ?b ! unat (mb_out ?b)"
    using slot(1) o by (simp add: buf_front_def arr_get_nat del: of_nat_unat)
  have n: "unat (msg_size slot) \<le> 256" using szs [of 0] nz o(1) sl by (simp add: unat_gt_0)
  have lm: "length (message slot) = 256" using o sl by (auto simp: slot_ok_def)
  have parts: "source_id slot = src" "take (unat (msg_size slot)) (message slot) = bs" using slot(2) by (auto simp: msg_of_def)
  then have lb: "length bs = unat (msg_size slot)" using n lm by auto
  then have szw: "of_nat (length bs) = msg_size slot" by simp
  obtain va s1 where s1: "tlbCreateEntry ?a0 (base_addr m) (msg_size slot) 0xF False s = Some (va, s1)"
    "maps_to s1 va ?pa (unat (msg_size slot))" "quiet s s1" "mem s1 = mem s"
    "\<And>r. MoveFromPreviousGuestGPR r s1 = MoveFromPreviousGuestGPR r s"
    "\<And>r sel. (r, sel) \<notin> {(CP0_GUESTCTL1, 4), (CP0_INDEX, 0), (CP0_ENTRYLO0, 0), (CP0_ENTRYLO1, 0),
       (CP0_PAGEMASK, 0), (CP0_ENTRYHI, 0)} \<Longrightarrow> cp0 s1 (r, sel) = cp0 s (r, sel)"
    by (rule guest_window [OF window_readyD [OF wf(1)] buf [unfolded szw]], rule that)
  have st: "st_bytes va bs s1 = Some (s1\<lparr>mem := put_bytes (mem s) ?pa bs\<rparr>)"
    using st_bytes_maps [of s1 va ?pa bs] s1(2,4) lb n by simp
  define s3 where "s3 = MoveToPreviousGuestGPR REG_A0 src (MoveToPreviousGuestGPR REG_V0 (msg_size slot)
      (s1\<lparr>mem := put_bytes (mem s) ?pa bs\<rparr>))"
  define s4 where "s4 = setGuestCTL2 (getGuestCTL2 s3 AND NOT ?bit) s3"
  have q4: "quiet s s4"
    unfolding s4_def s3_def setGuestCTL2_def
    by (rule quiet_trans [OF s1(3)], rule quiet_trans [OF quiet_upd(6)], rule quiet_trans [OF MoveTo_quiet],
        rule quiet_trans [OF MoveTo_quiet], rule mtc0_quiet(1))
  let ?v = "v\<lparr>messages := b1, guestclt2 := guestclt2 v AND NOT ?bit\<rparr>"
  let ?s' = "s4\<lparr>vcpus := (vcpus s4)(p \<mapsto> ?v)\<rparr>"
  have call: "intervm_recv_msg s = Some ?s'"
    using nz slot(1,3) parts st s1(1) wf n lm
    by (simp add: intervm_recv_msg_def window_ready_def Let_def s3_def s4_def)
  have cp: "getGuestCTL2 s1 = getGuestCTL2 s" using s1(6) by (simp add: getGuestCTL2_def mfc0_def)
  have g3: "getGuestCTL2 s3 = getGuestCTL2 s"
    using cp by (simp add: s3_def getGuestCTL2_def mfc0_def hv_simps)
  have ctl: "getGuestCTL2 s4 = getGuestCTL2 s AND NOT ?bit"
    unfolding s4_def setGuestCTL2_def g3 by (simp add: getGuestCTL2_def mfc0_mtc0)
  have mv: "MoveFromPreviousGuestGPR r s4 = MoveFromPreviousGuestGPR r s3" for r
    by (simp add: s4_def setGuestCTL2_def MoveFromPreviousGuestGPR_def getPreviousShadowSet_def hv_simps split: port.split)
  have frm: "MoveFromPreviousGuestGPR r ?s' = MoveFromPreviousGuestGPR r s4" for r
    by (simp add: MoveFromPreviousGuestGPR_def getPreviousShadowSet_def mfc0_def split: port.split)
  have v0: "MoveFromPreviousGuestGPR REG_V0 ?s' = of_nat (length bs)" "MoveFromPreviousGuestGPR REG_A0 ?s' = src"
    unfolding frm mv by (simp_all add: s3_def hv_simps szw)
  have vs: "vcpus s4 = vcpus s" by (rule quiet_fields(3) [OF q4])
  have "krel s4 ?s'"
    by (rule krel_upd [of s4 p v]) (use wf vs get(2) in \<open>simp_all add: vstat_def\<close>)
  then have kr: "krel s ?s'" using krel_quiet_trans(2) [OF q4] by blast
  have m4: "mem ?s' = put_bytes (mem s) ?pa bs"
    by (simp add: s4_def s3_def setGuestCTL2_def hv_simps)
  have ctl': "getGuestCTL2 ?s' = getGuestCTL2 s AND NOT ?bit"
    using ctl by (simp add: getGuestCTL2_def mfc0_def)
  have le: "length bs \<le> 256" using lb n by simp
  have vs': "vcpus ?s' = (vcpus s)(p \<mapsto> ?v)" using vs by simp
  have box': "msgs_ok (messages ?v)" "inbox (messages ?v) = rest" "guestclt2 ?v = guestclt2 v AND NOT ?bit"
    using get by simp_all
  show thesis by (rule that [OF call vs' box'(1,2) m4 v0 box'(3) ctl' kr le])
qed

end
