(* ===== verification/VirtualIO.thy ===== *)
theory VirtualIO
  imports Messaging
begin

text \<open>
  Guarded device access, \<open>drivers/virtual-io.c\<close>: a VM may load and store words in the address
  ranges its configuration maps to it.
\<close>

subsection \<open>Operations\<close>

text \<open>The test of one mapping, and the loop that looks for a mapping that admits the address.\<close>

definition device_admits :: "device_mapping_t \<Rightarrow> u32 \<Rightarrow> bool" where
  "device_admits d memory_addr \<longleftrightarrow>
     start_addr d \<le> memory_addr \<and> memory_addr \<le> start_addr d + dm_size d"

fun find_device :: "nat list \<Rightarrow> device_mapping_t list \<Rightarrow> u32 \<Rightarrow> bool option" where
  "find_device [] ds a = Some False"
| "find_device (i # is) ds a =
     do { d \<leftarrow> arr_get ds (int i);
          if device_admits d a then Some True else find_device is ds a }"

text \<open>The configuration of the calling VM: entry \<open>id - 1\<close> of the driver's table.\<close>

definition caller_conf :: "hv \<Rightarrow> vmconf_t option" where
  "caller_conf s =
     do { v \<leftarrow> cur_vcpu s;
          r \<leftarrow> arr_get (vmconf_p s) (sint (vc_ident v - 1));
          r }"

definition read_address :: "hv \<Rightarrow> hv option" where
  "read_address s =
     do { let memory_addr = MoveFromPreviousGuestGPR REG_A0 s;
          c \<leftarrow> caller_conf s;
          hit \<leftarrow> find_device [0..<unat (devices_mapping_sz c)] (devices c) memory_addr;
          if hit then do { (x, s1) \<leftarrow> ld32 memory_addr s; Some (MoveToPreviousGuestGPR REG_V0 x s1) }
          else Some s }"

definition write_address :: "hv \<Rightarrow> hv option" where
  "write_address s =
     do { let memory_addr = MoveFromPreviousGuestGPR REG_A0 s;
          let value = MoveFromPreviousGuestGPR REG_A1 s;
          c \<leftarrow> caller_conf s;
          hit \<leftarrow> find_device [0..<unat (devices_mapping_sz c)] (devices c) memory_addr;
          if hit then do { s1 \<leftarrow> st32 memory_addr value s; Some (MoveToPreviousGuestGPR REG_V0 0 s1) }
          else Some (MoveToPreviousGuestGPR REG_V0 HCALL_ADDRESS_NOT_ALLOWED s) }"

fun fill_vmconf_p :: "nat list \<Rightarrow> hv \<Rightarrow> hv option" where
  "fill_vmconf_p [] s = Some s"
| "fill_vmconf_p (i # is) s =
     do { r \<leftarrow> get_vcpu_from_id (of_nat (i + 1)) s;
          p \<leftarrow> r;
          v \<leftarrow> vcpus s p;
          m \<leftarrow> vms s (vc_vm v);
          t \<leftarrow> arr_set (vmconf_p s) (int i) (Some (vmconf m));
          fill_vmconf_p is (s\<lparr>vmconf_p := t\<rparr>) }"

definition virtual_io_init :: "hv \<Rightarrow> hv option" where
  "virtual_io_init s =
     (let (r1, s1) = register_hypercall H_write_address 11 s in
      if r1 < 0 then Some s1
      else let (r2, s2) = register_hypercall H_read_address 12 s1 in
      if r2 < 0 then Some s2
      else fill_vmconf_p [0..<NVMACHINES (conf s2)] s2)"

subsection \<open>The guard\<close>

lemma find_device_upt:
  "n = length ds \<Longrightarrow> find_device [0..<n] ds a = Some (\<exists>d\<in>set ds. device_admits d a)"
proof -
  have "\<forall>i\<in>set is. i < length ds \<Longrightarrow> find_device is ds a = Some (\<exists>i\<in>set is. device_admits (ds ! i) a)" for "is"
    by (induction "is") (auto simp: arr_get_def)
  from this [of "[0..<length ds]"]
  have "find_device [0..<length ds] ds a = Some (\<exists>i\<in>{0..<length ds}. device_admits (ds ! i) a)" by simp
  moreover have "(\<exists>i\<in>{0..<length ds}. device_admits (ds ! i) a) \<longleftrightarrow> (\<exists>d\<in>set ds. device_admits d a)"
    using in_set_conv_nth [of _ ds] by (metis atLeastLessThan_iff le0)
  moreover assume "n = length ds"
  ultimately show ?thesis by simp
qed

text \<open>
  The addresses a configuration admits, as closed intervals of numbers: the bytes of a mapping and the one right behind
  it, because the test of the code includes \<open>start + size\<close>. The mappings are counted and do not wrap.
\<close>

definition devices_wf :: "vmconf_t \<Rightarrow> bool" where
  "devices_wf c \<longleftrightarrow> unat (devices_mapping_sz c) = length (devices c) \<and>
     (\<forall>d\<in>set (devices c). unat (start_addr d) + unat (dm_size d) < 2 ^ 32)"

definition admitted :: "vmconf_t \<Rightarrow> u32 \<Rightarrow> bool" where
  "admitted c a \<longleftrightarrow>
     (\<exists>d\<in>set (devices c). unat (start_addr d) \<le> unat a \<and> unat a \<le> unat (start_addr d) + unat (dm_size d))"

lemma device_admits_bound:
  assumes "unat (start_addr d) + unat (dm_size d) < 2 ^ 32"
  shows "device_admits d a \<longleftrightarrow> unat (start_addr d) \<le> unat a \<and> unat a \<le> unat (start_addr d) + unat (dm_size d)"
  using assms by (simp add: device_admits_def word_le_nat_alt unat_add_u32)

lemma find_device_eq:
  assumes "devices_wf c"
  shows "find_device [0..<unat (devices_mapping_sz c)] (devices c) a = Some (admitted c a)"
proof -
  have "(\<exists>d\<in>set (devices c). device_admits d a) = admitted c a"
    unfolding admitted_def using assms device_admits_bound by (intro bex_cong refl) (simp add: devices_wf_def)
  then show ?thesis using find_device_upt assms by (simp add: devices_wf_def)
qed

lemma write_address_eq:
  assumes "caller_conf s = Some c" "devices_wf c"
  shows "write_address s =
    (if admitted c (MoveFromPreviousGuestGPR REG_A0 s)
     then do { s1 \<leftarrow> st32 (MoveFromPreviousGuestGPR REG_A0 s) (MoveFromPreviousGuestGPR REG_A1 s) s;
               Some (MoveToPreviousGuestGPR REG_V0 0 s1) }
     else Some (MoveToPreviousGuestGPR REG_V0 HCALL_ADDRESS_NOT_ALLOWED s))"
  using assms by (simp add: write_address_def find_device_eq)

lemma read_address_eq:
  assumes "caller_conf s = Some c" "devices_wf c"
  shows "read_address s =
    (if admitted c (MoveFromPreviousGuestGPR REG_A0 s)
     then do { (x, s1) \<leftarrow> ld32 (MoveFromPreviousGuestGPR REG_A0 s) s; Some (MoveToPreviousGuestGPR REG_V0 x s1) }
     else Some s)"
  using assms by (simp add: read_address_def find_device_eq)

lemma write_address_quiet: "write_address s = Some t \<Longrightarrow> quiet s t"
  unfolding write_address_def Let_def
  by (auto simp: bind_eq_Some_conv split: if_splits
      intro: quiet_trans [OF access_quiet(4) MoveTo_quiet] MoveTo_quiet)

lemma read_address_quiet: "read_address s = Some t \<Longrightarrow> quiet s t"
  unfolding read_address_def Let_def
  by (auto simp: bind_eq_Some_conv split: if_splits intro: quiet_trans [OF access_quiet(3) MoveTo_quiet])

text \<open>A device word at an unmapped, uncached address.\<close>

lemma st32_device:
  assumes "a AND 3 = 0" "0xA0000000 \<le> a" "a < 0xC0000000" "ram_size (conf s) \<le> a AND 0x1FFFFFFF"
  shows "st32 a v s = Some (dev_write (a AND 0x1FFFFFFF) v s)"
proof -
  have "0x80000000 \<le> a" using assms(2) by (rule order_trans [rotated]) simp
  then show ?thesis using leD [OF assms(4)] assms by (simp add: st32_def root_translate_def is_ram_def)
qed

lemma ld32_device:
  assumes "a AND 3 = 0" "0xA0000000 \<le> a" "a < 0xC0000000" "ram_size (conf s) \<le> a AND 0x1FFFFFFF"
  shows "ld32 a s = Some (dev_read (a AND 0x1FFFFFFF) s)"
proof -
  have "0x80000000 \<le> a" using assms(2) by (rule order_trans [rotated]) simp
  then show ?thesis using leD [OF assms(4)] assms by (simp add: ld32_def root_translate_def is_ram_def)
qed

subsection \<open>The table of configurations\<close>

lemma nth_member_find:
  assumes "distinct (map f xs)" "i < length xs"
  shows "find (\<lambda>x. f x = f (xs ! i)) xs = Some (xs ! i)"
  unfolding find_Some_iff
proof (intro exI conjI)
  show "\<forall>j<i. \<not> f (xs ! j) = f (xs ! i)"
    using assms nth_eq_iff_index_eq [OF assms(1)] by auto
qed (use assms in auto)

text \<open>The VCPU of the \<open>i\<close>-th VM is found under the identifier \<open>i + 1\<close>.\<close>

lemma boot_vcpu_named:
  assumes B: "boot_state cap b a s ps" and i: "i < length ps" and n: "length ps \<le> 255"
  shows "find (\<lambda>p. vc_ident (the (vcpus s p)) = of_nat (i + 1)) ps = Some (ps ! i)"
proof -
  have id: "vc_ident (the (vcpus s (ps ! k))) = of_nat (k + 1)" if "k < length ps" for k
    using B that unfolding boot_state_def vcpu_of_def by fastforce
  have "distinct (map (\<lambda>p. vc_ident (the (vcpus s p))) ps)"
    unfolding distinct_conv_nth
  proof (intro allI impI)
    fix j k assume jk: "j < length (map (\<lambda>p. vc_ident (the (vcpus s p))) ps)"
      "k < length (map (\<lambda>p. vc_ident (the (vcpus s p))) ps)" "j \<noteq> k"
    have u: "unat (of_nat (k + 1) :: u32) = k + 1" if "k < length ps" for k
      using that n by (simp add: unat_of_nat del: of_nat_add of_nat_Suc)
    have "(of_nat (j + 1) :: u32) \<noteq> of_nat (k + 1)"
      using u [of j] u [of k] jk by (metis add_right_cancel length_map)
    then show "map (\<lambda>p. vc_ident (the (vcpus s p))) ps ! j \<noteq> map (\<lambda>p. vc_ident (the (vcpus s p))) ps ! k"
      using jk id by simp
  qed
  from nth_member_find [OF this i] show ?thesis using id [OF i] by simp
qed

lemma boot_state_cong:
  assumes "boot_state cap b a s ps" "vcpu_ready_list t = vcpu_ready_list s" "pending t = pending s" "heap t = heap s"
    "vcpus t = vcpus s" "vms t = vms s" "conf t = conf s" "tlb t = tlb s" "next_vcpu_id t = next_vcpu_id s"
    "next_vm_id t = next_vm_id s" "next_tlbindex t = next_tlbindex s"
  shows "boot_state cap b a t ps"
  using assms unfolding boot_state_def vcpu_of_def by simp

lemma fill_vmconf_p_ok:
  "boot_state cap b a s ps \<Longrightarrow> length ps \<le> 255 \<Longrightarrow> length (vmconf_p s) = length ps \<Longrightarrow> k \<le> length ps \<Longrightarrow>
   \<exists>t. fill_vmconf_p [k..<length ps] s = Some (s\<lparr>vmconf_p := t\<rparr>) \<and> length t = length ps \<and>
     (\<forall>i<k. t ! i = vmconf_p s ! i) \<and> (\<forall>i<length ps. k \<le> i \<longrightarrow> t ! i = Some (VMCONF (conf s) ! i))"
proof (induction "length ps - k" arbitrary: k s)
  case 0
  then show ?case by (intro exI [of _ "vmconf_p s"]) simp
next
  case (Suc n)
  have k: "k < length ps" using Suc.hyps(2) by simp
  have bs: "boot_state cap b a s ps" by (rule Suc.prems(1))
  have rd: "ready s ps" and dm: "\<And>p. p \<in> set ps \<Longrightarrow> vcpus s p \<noteq> None"
    using bs by (auto simp: boot_state_def ready_def)
  have g: "get_vcpu_from_id (of_nat (k + 1)) s = Some (Some (ps ! k))"
    using get_vcpu_from_id_eq [OF rd dm] boot_vcpu_named [OF bs k Suc.prems(2)] by simp
  obtain v m where v: "vcpus s (ps ! k) = Some v" "vms s (vc_vm v) = Some m" "vmconf m = VMCONF (conf s) ! k"
    using bs k unfolding boot_state_def vcpu_of_def by blast
  let ?s = "s\<lparr>vmconf_p := (vmconf_p s)[k := Some (vmconf m)]\<rparr>"
  have bs': "boot_state cap b a ?s ps" by (rule boot_state_cong [OF bs]) simp_all
  have "\<exists>t. fill_vmconf_p [Suc k..<length ps] ?s = Some (?s\<lparr>vmconf_p := t\<rparr>) \<and> length t = length ps \<and>
     (\<forall>i<Suc k. t ! i = vmconf_p ?s ! i) \<and> (\<forall>i<length ps. Suc k \<le> i \<longrightarrow> t ! i = Some (VMCONF (conf ?s) ! i))"
    by (rule Suc.hyps(1)) (use Suc.hyps(2) Suc.prems bs' k in auto)
  then obtain t where t: "fill_vmconf_p [Suc k..<length ps] ?s = Some (?s\<lparr>vmconf_p := t\<rparr>)" "length t = length ps"
    "\<forall>i<Suc k. t ! i = vmconf_p ?s ! i" "\<forall>i<length ps. Suc k \<le> i \<longrightarrow> t ! i = Some (VMCONF (conf ?s) ! i)" by blast
  have u: "[k..<length ps] = k # [Suc k..<length ps]" using k by (simp add: upt_conv_Cons)
  have "arr_set (vmconf_p s) (int k) (Some (vmconf m)) = Some ((vmconf_p s)[k := Some (vmconf m)])"
    using k Suc.prems(3) by (simp add: arr_set_def)
  then have "fill_vmconf_p [k..<length ps] s = Some (s\<lparr>vmconf_p := t\<rparr>)"
    unfolding u using g v t(1) by simp
  moreover have "t ! i = Some (VMCONF (conf s) ! i)" if "i < length ps" "k \<le> i" for i
    using t(3,4) that v(3) k Suc.prems(3) by (cases "i = k") auto
  ultimately show ?case using t(2,3) k Suc.prems(3) by (intro exI [of _ t]) auto
qed

text \<open>After the initialiser, every VCPU is checked against the configuration of its own VM.\<close>

lemma register_hypercall_boot:
  assumes "boot_state cap b a s ps"
  shows "boot_state cap b a (snd (register_hypercall f code s)) ps"
  by (rule boot_state_cong [OF assms]) (simp_all add: register_hypercall_def)

lemma virtual_io_init_ok:
  assumes B: "boot_state cap b a s ps" and n: "length ps \<le> 255" "NVMACHINES (conf s) = length ps"
    "length (vmconf_p s) = length ps"
    and H: "hcall_wf s" "hypercall_table s ! 11 = None" "hypercall_table s ! 12 = None"
  obtains t where "virtual_io_init s = Some t" "boot_state cap b a t ps" "vcpu_executing t = vcpu_executing s"
    "hypercall_table t = (hypercall_table s)[11 := Some H_write_address, 12 := Some H_read_address]"
    "\<And>i u. i < length ps \<Longrightarrow> vcpu_executing u = Some (ps ! i) \<Longrightarrow> vcpus u (ps ! i) = vcpus t (ps ! i) \<Longrightarrow>
       vmconf_p u = vmconf_p t \<Longrightarrow> caller_conf u = Some (VMCONF (conf s) ! i)"
proof -
  have l: "length (hypercall_table s) = 30" using H(1) by (simp add: hcall_wf_def)
  let ?s = "s\<lparr>hypercall_table := (hypercall_table s)[11 := Some H_write_address, 12 := Some H_read_address]\<rparr>"
  have B': "boot_state cap b a ?s ps" by (rule boot_state_cong [OF B]) simp_all
  have lp: "length (vmconf_p ?s) = length ps" using n(3) by simp
  obtain t where t: "fill_vmconf_p [0..<length ps] ?s = Some (?s\<lparr>vmconf_p := t\<rparr>)" "length t = length ps"
    "\<And>i. i < length ps \<Longrightarrow> t ! i = Some (VMCONF (conf s) ! i)"
    using fill_vmconf_p_ok [OF B' n(1) lp, of 0] by auto
  have init: "virtual_io_init s = Some (?s\<lparr>vmconf_p := t\<rparr>)"
    using H l n(2) t(1) by (simp add: virtual_io_init_def register_hypercall_def)
  let ?t = "?s\<lparr>vmconf_p := t\<rparr>"
  have bt: "boot_state cap b a ?t ps" by (rule boot_state_cong [OF B]) simp_all
  have caller: "caller_conf u = Some (VMCONF (conf s) ! i)"
    if i: "i < length ps" "vcpu_executing u = Some (ps ! i)" "vcpus u (ps ! i) = vcpus ?t (ps ! i)" "vmconf_p u = vmconf_p ?t" for i u
  proof -
    obtain v where v: "vcpus u (ps ! i) = Some v" "vc_ident v = of_nat (i + 1)"
      using bt i unfolding boot_state_def vcpu_of_def by auto
    have "vc_ident v - 1 = of_nat i" using v(2) by simp
    moreover have "unat (of_nat i :: u32) = i" using i(1) n(1) by (simp add: unat_of_nat)
    ultimately have "sint (vc_ident v - 1) = int i" using i(1) n(1) by (simp add: sint_small32)
    then show ?thesis
      using i(1,2,4) t(2,3) v(1) by (simp add: caller_conf_def cur_vcpu_def arr_get_nat)
  qed
  show thesis by (rule that [OF init bt]) (use caller in simp_all)
qed

end
