(* ===== verification/IntRedirect.thy ===== *)
theory IntRedirect
  imports Messaging
begin

text \<open>
  Interrupt redirection to guests, \<open>drivers/pic32mz-interrupt-redirect.c\<close>. An entry of the
  mapping list that was never written, and the list itself when its allocation failed, is read
  as undefined.
\<close>

subsection \<open>Operations\<close>

definition irq_bit :: "u32 \<Rightarrow> u32" where
  "irq_bit irq = push_bit (unat (irq AND 31)) 1"

text \<open>The loop body for one entry: acknowledge, mask, and inject.\<close>

definition inject_one :: "interrupt_mapping \<Rightarrow> hv \<Rightarrow> hv option" where
  "inject_one e s =
     (let irq = irq_number e; (flags, s1) = sfr_read (IFS (drop_bit 5 irq)) s in
      if flags AND irq_bit irq = 0 then Some s1
      else
        (let s2 = sfr_write (IFSCLR (drop_bit 5 irq)) (irq_bit irq) s1;
             vbit = push_bit GUESTCLT2_GRIPL_SHIFT (irq_guest e)
         in if getGuestCTL2 s2 AND vbit \<noteq> 0 then Some s2
            else
              (let s3 = sfr_write (IECCLR (drop_bit 5 irq)) (irq_bit irq) s2 in
               if Some (im_vcpu e) = vcpu_executing s3
               then Some (setGuestCTL2 (getGuestCTL2 s2 OR vbit) s3)
               else do { t \<leftarrow> upd_vcpu (im_vcpu e) (\<lambda>v. v\<lparr>guestclt2 := guestclt2 v OR vbit\<rparr>) s3;
                         fast_interrupt_delivery (im_vcpu e) t })))"

fun interrupt_injection_loop :: "nat list \<Rightarrow> hv \<Rightarrow> hv option" where
  "interrupt_injection_loop [] s = Some s"
| "interrupt_injection_loop (i # is) s =
     do { r \<leftarrow> arr_get (interrupt_mapping_list s) (int i);
          e \<leftarrow> r;
          s1 \<leftarrow> inject_one e s;
          interrupt_injection_loop is s1 }"

definition interrupt_injection :: "hv \<Rightarrow> hv option" where
  "interrupt_injection s = interrupt_injection_loop [0..<unat (interrupt_mapping_sz s)] s"

fun reenable_loop :: "nat list \<Rightarrow> u32 \<Rightarrow> hv \<Rightarrow> hv option" where
  "reenable_loop [] interrupt s =
     Some (MoveToPreviousGuestGPR REG_V0 1 s)"
| "reenable_loop (i # is) interrupt s =
     do { r \<leftarrow> arr_get (interrupt_mapping_list s) (int i);
          e \<leftarrow> r;
          if vcpu_executing s = Some (im_vcpu e) \<and> interrupt = irq_guest e
          then
            do { let irq = irq_number e;
                 let s1 = sfr_write (IECSET (drop_bit 5 irq)) (irq_bit irq) s;
                 s2 \<leftarrow> upd_vcpu (im_vcpu e)
                        (\<lambda>v. v\<lparr>guestclt2 := guestclt2 v AND NOT (push_bit GUESTCLT2_GRIPL_SHIFT (irq_guest e))\<rparr>) s1;
                 Some (MoveToPreviousGuestGPR REG_V0 0 s2) }
          else reenable_loop is interrupt s }"

definition reenable_interrupt :: "hv \<Rightarrow> hv option" where
  "reenable_interrupt s =
     reenable_loop [0..<unat (interrupt_mapping_sz s)] (MoveFromPreviousGuestGPR REG_A0 s) s"

text \<open>The number of redirections of all VMs, added to the static counter.\<close>

fun count_redirects :: "nat list \<Rightarrow> hv \<Rightarrow> hv option" where
  "count_redirects [] s = Some s"
| "count_redirects (i # is) s =
     do { r \<leftarrow> get_vcpu_from_id (of_nat (i + 1)) s;
          p \<leftarrow> r;
          v \<leftarrow> vcpus s p;
          m \<leftarrow> vms s (vc_vm v);
          count_redirects is (s\<lparr>interrupt_mapping_sz := interrupt_mapping_sz s + interrupt_redirect_sz (vmconf m)\<rparr>) }"

text \<open>One redirected interrupt \<open>j\<close> of a VCPU, put at position \<open>irq_count\<close> of the list.\<close>

definition config_redirect :: "nat \<Rightarrow> u32 list \<Rightarrow> nat \<Rightarrow> u32 \<Rightarrow> nat \<Rightarrow> hv \<Rightarrow> hv option" where
  "config_redirect j int_redirect p offset irq_count s =
     do { irq \<leftarrow> arr_get int_redirect (int j);
          g \<leftarrow> shl GUEST_USER_DEFINED_INT_1 j;
          t \<leftarrow> arr_set (interrupt_mapping_list s) (int irq_count)
                (Some \<lparr>irq_number = irq, irq_guest = g, im_vcpu = p\<rparr>);
          let prio = push_bit (8 * unat (irq AND 3)) 0x1F;
          let s1 = sfr_write (IPCCLR (drop_bit 2 irq)) prio (s\<lparr>interrupt_mapping_list := t\<rparr>);
          let s2 = sfr_write (IPCSET (drop_bit 2 irq)) prio s1;
          let s3 = sfr_write (IFSCLR (drop_bit 5 irq)) (irq_bit irq) s2;
          let s4 = sfr_write (PIC32MZ_PBASE (0x10540 + push_bit 2 irq)) offset s3;
          Some (sfr_write (IECSET (drop_bit 5 irq)) (irq_bit irq) s4) }"

fun config_redirects :: "nat list \<Rightarrow> u32 list \<Rightarrow> nat \<Rightarrow> u32 \<Rightarrow> nat \<Rightarrow> hv \<Rightarrow> (nat \<times> hv) option" where
  "config_redirects [] rs p offset irq_count s = Some (irq_count, s)"
| "config_redirects (j # js) rs p offset irq_count s =
     do { s1 \<leftarrow> config_redirect j rs p offset irq_count s;
          config_redirects js rs p offset (irq_count + 1) s1 }"

fun config_all_redirects :: "nat list \<Rightarrow> u32 \<Rightarrow> nat \<Rightarrow> hv \<Rightarrow> hv option" where
  "config_all_redirects [] offset irq_count s = Some s"
| "config_all_redirects (i # is) offset irq_count s =
     do { r \<leftarrow> get_vcpu_from_id (of_nat (i + 1)) s;
          p \<leftarrow> r;
          v \<leftarrow> vcpus s p;
          m \<leftarrow> vms s (vc_vm v);
          (n, s1) \<leftarrow> config_redirects [0..<unat (interrupt_redirect_sz (vmconf m))]
                       (interrupt_redirect (vmconf m)) p offset irq_count s;
          config_all_redirects is offset n s1 }"

definition interrupt_redirect_init :: "hv \<Rightarrow> hv option" where
  "interrupt_redirect_init s =
     do { s1 \<leftarrow> count_redirects [0..<NVMACHINES (conf s)] s;
          if interrupt_mapping_sz s1 = 0 then Some s1
          else
            do { let (offset, s2) = register_interrupt I_interrupt_injection s1;
                 let (rc, s3) = register_hypercall H_reenable_interrupt 13 s2;
                 if rc < 0 then Some s3
                 else
                   do { let bytes = interrupt_mapping_sz s3 * 12;
                        (lst, h) \<leftarrow> malloc bytes (heap s3);
                        let s4 = s3\<lparr>heap := h, interrupt_mapping_list :=
                              (case lst of None \<Rightarrow> [] | Some a \<Rightarrow> replicate (unat bytes div 12) None)\<rparr>;
                        config_all_redirects [0..<NVMACHINES (conf s4)] offset 0 s4 } } }"

subsection \<open>Lemmas\<close>

text \<open>The list entries in use name existing VCPUs.\<close>

definition redirect_ok :: "hv \<Rightarrow> bool" where
  "redirect_ok s \<longleftrightarrow> unat (interrupt_mapping_sz s) \<le> length (interrupt_mapping_list s) \<and>
     (\<forall>i<unat (interrupt_mapping_sz s). \<exists>e. interrupt_mapping_list s ! i = Some e \<and> vcpus s (im_vcpu e) \<noteq> None)"

lemma sfr_same_mapping:
  "interrupt_mapping_list (snd (sfr_read a s)) = interrupt_mapping_list s"
  "interrupt_mapping_sz (snd (sfr_read a s)) = interrupt_mapping_sz s"
  "interrupt_mapping_list (sfr_write a v s) = interrupt_mapping_list s"
  "interrupt_mapping_sz (sfr_write a v s) = interrupt_mapping_sz s"
  by (simp_all add: sfr_read_def sfr_write_def dev_read_def dev_write_def Let_def)

lemma inject_one_ok:
  assumes "vcpus s (im_vcpu e) \<noteq> None"
  obtains t where "inject_one e s = Some t" "krel s t"
    "interrupt_mapping_list t = interrupt_mapping_list s" "interrupt_mapping_sz t = interrupt_mapping_sz s"
proof -
  let ?irq = "irq_number e" and ?bit = "irq_bit (irq_number e)"
  let ?vbit = "push_bit GUESTCLT2_GRIPL_SHIFT (irq_guest e)"
  obtain flags s1 where r: "sfr_read (IFS (drop_bit 5 ?irq)) s = (flags, s1)" by fastforce
  define s2 where "s2 = sfr_write (IFSCLR (drop_bit 5 ?irq)) ?bit s1"
  define s3 where "s3 = sfr_write (IECCLR (drop_bit 5 ?irq)) ?bit s2"
  have q1: "quiet s s1" by (rule sfr_quiet(2) [OF r])
  have q2: "quiet s s2" unfolding s2_def by (rule quiet_trans [OF q1 sfr_quiet(1)])
  have q3: "quiet s s3" unfolding s3_def by (rule quiet_trans [OF q2 sfr_quiet(1)])
  have m1: "interrupt_mapping_list s1 = interrupt_mapping_list s" "interrupt_mapping_sz s1 = interrupt_mapping_sz s"
    using sfr_same_mapping(1,2) [of "IFS (drop_bit 5 ?irq)" s] r by simp_all
  have m: "interrupt_mapping_list s2 = interrupt_mapping_list s" "interrupt_mapping_sz s2 = interrupt_mapping_sz s"
    "interrupt_mapping_list s3 = interrupt_mapping_list s" "interrupt_mapping_sz s3 = interrupt_mapping_sz s"
    using m1 by (simp_all add: s2_def s3_def sfr_same_mapping)
  consider (none) "flags AND ?bit = 0" | (pend) "flags AND ?bit \<noteq> 0" "getGuestCTL2 s2 AND ?vbit \<noteq> 0"
    | (self) "flags AND ?bit \<noteq> 0" "getGuestCTL2 s2 AND ?vbit = 0" "vcpu_executing s3 = Some (im_vcpu e)"
    | (other) "flags AND ?bit \<noteq> 0" "getGuestCTL2 s2 AND ?vbit = 0" "vcpu_executing s3 \<noteq> Some (im_vcpu e)"
    by blast
  then show thesis
  proof cases
    case none
    then show thesis using r q1 m1 that [of s1] by (simp add: inject_one_def quiet_krel)
  next
    case pend
    then show thesis using r q2 m that [of s2] by (simp add: inject_one_def s2_def Let_def quiet_krel)
  next
    case self
    have "inject_one e s = Some (setGuestCTL2 (getGuestCTL2 s2 OR ?vbit) s3)"
      using self r by (simp add: inject_one_def s2_def s3_def Let_def)
    moreover have "krel s (setGuestCTL2 (getGuestCTL2 s2 OR ?vbit) s3)"
      unfolding setGuestCTL2_def by (rule quiet_krel [OF quiet_trans [OF q3 mtc0_quiet(1)]])
    ultimately show thesis by (rule that) (use m in \<open>simp_all add: setGuestCTL2_def mtc0_def\<close>)
  next
    case other
    obtain v where v: "vcpus s3 (im_vcpu e) = Some v" using assms quiet_fields(3) [OF q3] by auto
    let ?t = "s3\<lparr>vcpus := (vcpus s3)(im_vcpu e \<mapsto> v\<lparr>guestclt2 := guestclt2 v OR ?vbit\<rparr>)\<rparr>"
    have kt: "krel s ?t"
      by (rule krel_quiet_trans(2) [OF q3], rule krel_upd [OF v]) (simp_all add: vstat_def)
    obtain u where u: "fast_interrupt_delivery (im_vcpu e) ?t = Some u"
      by (cases "vcpu_executing ?t = Some (im_vcpu e)") (auto simp: fast_interrupt_delivery_def)
    have "inject_one e s = Some u"
      using other r v u by (auto simp: inject_one_def s2_def s3_def Let_def upd_vcpu_def)
    moreover have "krel s u" by (rule krel_trans [OF kt fast_interrupt_delivery_krel [OF u]])
    moreover have "interrupt_mapping_list u = interrupt_mapping_list s" "interrupt_mapping_sz u = interrupt_mapping_sz s"
      by (rule fast_interrupt_cases [OF u]; use m in simp)+
    ultimately show thesis by (rule that)
  qed
qed

lemma krel_None: "krel s t \<Longrightarrow> vcpus t p = None \<longleftrightarrow> vcpus s p = None"
  unfolding krel_def by (metis option.map_disc_iff)

lemma injection_loop_ok:
  "\<forall>i\<in>set is. i < length (interrupt_mapping_list s) \<and>
      (\<exists>e. interrupt_mapping_list s ! i = Some e \<and> vcpus s (im_vcpu e) \<noteq> None) \<Longrightarrow>
   \<exists>t. interrupt_injection_loop is s = Some t \<and> krel s t \<and>
     interrupt_mapping_list t = interrupt_mapping_list s \<and> interrupt_mapping_sz t = interrupt_mapping_sz s"
proof (induction "is" arbitrary: s)
  case (Cons i "is")
  then obtain e where e: "i < length (interrupt_mapping_list s)" "interrupt_mapping_list s ! i = Some e"
    "vcpus s (im_vcpu e) \<noteq> None" by auto
  obtain u where u: "inject_one e s = Some u" "krel s u"
    "interrupt_mapping_list u = interrupt_mapping_list s" "interrupt_mapping_sz u = interrupt_mapping_sz s"
    by (rule inject_one_ok [OF e(3)])
  have "\<exists>t. interrupt_injection_loop is u = Some t \<and> krel u t \<and>
     interrupt_mapping_list t = interrupt_mapping_list u \<and> interrupt_mapping_sz t = interrupt_mapping_sz u"
    by (rule Cons.IH) (use Cons.prems u krel_None [OF u(2)] in auto)
  then show ?case using u e krel_trans [OF u(2)] by (auto simp: arr_get_nat)
qed simp

lemma interrupt_injection_ok:
  assumes "redirect_ok s"
  obtains t where "interrupt_injection s = Some t" "krel s t" "redirect_ok t"
proof -
  obtain t where t: "interrupt_injection s = Some t" "krel s t"
     "interrupt_mapping_list t = interrupt_mapping_list s" "interrupt_mapping_sz t = interrupt_mapping_sz s"
    using injection_loop_ok [of "[0..<unat (interrupt_mapping_sz s)]" s] assms
    by (auto simp: interrupt_injection_def redirect_ok_def)
  have "redirect_ok t" using assms t krel_None [OF t(2)] by (simp add: redirect_ok_def)
  then show thesis using that t by blast
qed

text \<open>
  The test for an interrupt that is already pending looks at the guest in execution, not at the
  target: an interrupt for another VCPU is acknowledged and dropped when the guest in execution
  has its own interrupt of that number pending.
\<close>

lemma injection_drops:
  assumes "sfr_read (IFS (drop_bit 5 (irq_number e))) s = (flags, s1)" "flags AND irq_bit (irq_number e) \<noteq> 0"
    and "getGuestCTL2 s AND push_bit GUESTCLT2_GRIPL_SHIFT (irq_guest e) \<noteq> 0"
  shows "\<exists>t. inject_one e s = Some t \<and> vcpus t = vcpus s \<and> pending t = pending s \<and>
    io t = io s1 @ [IOWrite (IFSCLR (drop_bit 5 (irq_number e)) AND 0x1FFFFFFF) (irq_bit (irq_number e))]"
proof -
  let ?s2 = "sfr_write (IFSCLR (drop_bit 5 (irq_number e))) (irq_bit (irq_number e)) s1"
  have "cp0 s1 = cp0 s" "vcpus s1 = vcpus s" "pending s1 = pending s"
    using assms(1) by (auto simp: sfr_read_def dev_read_def Let_def)
  then have "inject_one e s = Some ?s2" "vcpus ?s2 = vcpus s" "pending ?s2 = pending s"
    using assms by (simp_all add: inject_one_def Let_def getGuestCTL2_def mfc0_def sfr_write_def dev_write_def)
  then show ?thesis by (intro exI [of _ ?s2]) (simp add: hv_simps)
qed

subsection \<open>Re-enabling\<close>

lemma reenable_loop_krel:
  "reenable_loop is n s = Some t \<Longrightarrow> krel s t"
proof (induction "is")
  case Nil
  then show ?case by (auto intro: quiet_krel MoveTo_quiet)
next
  case (Cons i "is")
  then obtain e where e: "arr_get (interrupt_mapping_list s) (int i) = Some (Some e)"
    by (auto simp: bind_eq_Some_conv)
  show ?case
  proof (cases "vcpu_executing s = Some (im_vcpu e) \<and> n = irq_guest e")
    case True
    let ?s1 = "sfr_write (IECSET (drop_bit 5 (irq_number e))) (irq_bit (irq_number e)) s"
    from Cons.prems True e obtain u where u: "upd_vcpu (im_vcpu e)
        (\<lambda>v. v\<lparr>guestclt2 := guestclt2 v AND NOT (push_bit GUESTCLT2_GRIPL_SHIFT (irq_guest e))\<rparr>) ?s1 = Some u"
      "t = MoveToPreviousGuestGPR REG_V0 0 u"
      by (auto simp: bind_eq_Some_conv Let_def)
    have "krel ?s1 u" by (rule upd_vcpu_krel [OF u(1)]) (simp add: vstat_def)
    then show ?thesis unfolding u(2)
      by (meson krel_quiet_trans sfr_quiet(1) MoveTo_quiet)
  next
    case False
    have "reenable_loop is n s = Some t" using Cons.prems e False by auto
    then show ?thesis by (rule Cons.IH)
  qed
qed

lemma reenable_interrupt_krel: "reenable_interrupt s = Some t \<Longrightarrow> krel s t"
  unfolding reenable_interrupt_def by (rule reenable_loop_krel)

text \<open>A guest can re-enable only the interrupts mapped to itself.\<close>

lemma reenable_foreign:
  "\<forall>i\<in>set is. \<exists>e. arr_get (interrupt_mapping_list s) (int i) = Some (Some e) \<and>
      \<not> (vcpu_executing s = Some (im_vcpu e) \<and> n = irq_guest e) \<Longrightarrow>
   reenable_loop is n s = Some (MoveToPreviousGuestGPR REG_V0 1 s)"
proof (induction "is")
  case (Cons i "is")
  then obtain e where "arr_get (interrupt_mapping_list s) (int i) = Some (Some e)"
    "\<not> (vcpu_executing s = Some (im_vcpu e) \<and> n = irq_guest e)" by auto
  then show ?case using Cons by auto
qed simp

end
