(* ===== verification/FlashPerf.thy ===== *)
theory FlashPerf
  imports Messaging
begin

text \<open>
  Two small hypercall drivers of the PIC32MZ port: flash pages for the PUF,
  \<open>drivers/pic32mz-puf-flash.c\<close>, and the performance counters,
  \<open>drivers/performance-counter.c\<close>. The flash controller's registers are device registers; the
  instructions \<open>di\<close> and \<open>ei\<close> act on the flag \<open>ie\<close>.
\<close>

subsection \<open>Flash\<close>

definition pageFlash :: u32 where "pageFlash = 0xBD1FC000"

abbreviation (input) "NVMCON \<equiv> (0xBF800600 :: u32)"
abbreviation (input) "NVMCONCLR \<equiv> (0xBF800604 :: u32)"
abbreviation (input) "NVMCONSET \<equiv> (0xBF800608 :: u32)"
abbreviation (input) "NVMKEY \<equiv> (0xBF800610 :: u32)"
abbreviation (input) "NVMADDR \<equiv> (0xBF800620 :: u32)"
abbreviation (input) "NVMDATA0 \<equiv> (0xBF800630 :: u32)"

partial_function (option) nvm_wait :: "hv \<Rightarrow> hv option" where
  "nvm_wait s = (let (v, s1) = sfr_read NVMCON s in if v AND 0x8000 \<noteq> 0 then nvm_wait s1 else Some s1)"

definition NVMUnlock :: "u32 \<Rightarrow> hv \<Rightarrow> (u32 \<times> hv) option" where
  "NVMUnlock nvmop s =
     do { let status = ie s;
          let s1 = s\<lparr>ie := False\<rparr>;
          let s2 = sfr_write NVMCON nvmop s1;
          s3 \<leftarrow> udelay 10 s2;
          let s4 = sfr_write NVMKEY 0x556699AA (sfr_write NVMKEY 0xAA996655 (sfr_write NVMKEY 0 s3));
          let s5 = sfr_write NVMCONSET 0x8000 s4;
          s6 \<leftarrow> nvm_wait s5;
          let s7 = s6\<lparr>ie := status\<rparr>;
          let s8 = sfr_write NVMCONCLR 0x4000 s7;
          let (v, s9) = sfr_read NVMCON s8;
          Some (v AND 0x3000, s9) }"

definition NVMErasePage :: "u32 \<Rightarrow> hv \<Rightarrow> (u32 \<times> hv) option" where
  "NVMErasePage address s = NVMUnlock 0x4004 (sfr_write NVMADDR (address AND 0x1FFFFFFF) s)"

definition NVMWriteQuad :: "u32 \<Rightarrow> u32 \<Rightarrow> hv \<Rightarrow> (u32 \<times> hv) option" where
  "NVMWriteQuad address data s =
     do { let s1 = sfr_write NVMADDR (address AND 0x1FFFFFFF) s;
          (d0, s2) \<leftarrow> ld32 data s1;
          let s3 = sfr_write NVMDATA0 d0 s2;
          (d1, s4) \<leftarrow> ld32 (data + 4) s3;
          let s5 = sfr_write (NVMDATA0 + 0x10) d1 s4;
          (d2, s6) \<leftarrow> ld32 (data + 8) s5;
          let s7 = sfr_write (NVMDATA0 + 0x20) d2 s6;
          (d3, s8) \<leftarrow> ld32 (data + 12) s7;
          let s9 = sfr_write (NVMDATA0 + 0x30) d3 s8;
          NVMUnlock 0x4002 s9 }"

fun flash_read_loop :: "nat list \<Rightarrow> u32 \<Rightarrow> hv \<Rightarrow> hv option" where
  "flash_read_loop [] buffer s = Some s"
| "flash_read_loop (i # is) buffer s =
     do { (w, s1) \<leftarrow> ld32 (pageFlash + 4 * of_nat i) s;
          s2 \<leftarrow> st32 (buffer + 4 * of_nat i) w s1;
          flash_read_loop is buffer s2 }"

definition flash_read1Kbuffer :: "u32 \<Rightarrow> hv \<Rightarrow> (u32 \<times> hv) option" where
  "flash_read1Kbuffer buffer s = do { s1 \<leftarrow> flash_read_loop [0..<256] buffer s; Some (1024, s1) }"

fun flash_write_loop :: "nat list \<Rightarrow> u32 \<Rightarrow> hv \<Rightarrow> hv option" where
  "flash_write_loop [] buffer s = Some s"
| "flash_write_loop (i # is) buffer s =
     do { (res, s1) \<leftarrow> NVMWriteQuad (pageFlash + 4 * of_nat i) (buffer + 4 * of_nat i) s;
          flash_write_loop is buffer s1 }"

definition flash_write1Kbuffer :: "u32 \<Rightarrow> hv \<Rightarrow> (u32 \<times> hv) option" where
  "flash_write1Kbuffer buffer s =
     do { (res, s1) \<leftarrow> NVMErasePage pageFlash s;
          s2 \<leftarrow> flash_write_loop (map (\<lambda>k. 4 * k) [0..<64]) buffer s1;
          Some (1024, s2) }"

definition flash_read :: "hv \<Rightarrow> hv option" where
  "flash_read s =
     do { m \<leftarrow> cur_vm s;
          (dest, s1) \<leftarrow> tlbCreateEntry (MoveFromPreviousGuestGPR REG_A0 s) (base_addr m) 1024 0xF True s;
          (ret, s2) \<leftarrow> flash_read1Kbuffer dest s1;
          Some (MoveToPreviousGuestGPR REG_V0 ret s2) }"

definition flash_write :: "hv \<Rightarrow> hv option" where
  "flash_write s =
     do { m \<leftarrow> cur_vm s;
          (source, s1) \<leftarrow> tlbCreateEntry (MoveFromPreviousGuestGPR REG_A0 s) (base_addr m) 1024 0xF True s;
          (ret, s2) \<leftarrow> flash_write1Kbuffer source s1;
          Some (MoveToPreviousGuestGPR REG_V0 ret s2) }"

definition flash_puf_init :: "hv \<Rightarrow> hv" where
  "flash_puf_init s =
     (let (r1, s1) = register_hypercall H_flash_read 14 s in
      if r1 < 0 then s1 else snd (register_hypercall H_flash_write 15 s1))"

subsection \<open>Performance counters\<close>

definition performance_counter_start :: "hv \<Rightarrow> hv" where
  "performance_counter_start s =
     (let control0 = MoveFromPreviousGuestGPR REG_A0 s; control1 = MoveFromPreviousGuestGPR REG_A1 s;
          s1 = mtc0 CP0_PERFCTL 3 0 (mtc0 CP0_PERFCTL 1 0 s);
          s2 = mtc0 CP0_PERFCTL 2 control1 (mtc0 CP0_PERFCTL 0 control0 s1)
      in MoveToPreviousGuestGPR REG_V0 0 s2)"

definition performance_counter_stop :: "hv \<Rightarrow> hv option" where
  "performance_counter_stop s =
     do { let memory_addr = MoveFromPreviousGuestGPR REG_A0 s;
          m \<leftarrow> cur_vm s;
          (va, s1) \<leftarrow> tlbCreateEntry memory_addr (base_addr m) 8 0xF True s;
          s2 \<leftarrow> st32 va (mfc0 CP0_PERFCTL 1 s1) s1;
          s3 \<leftarrow> st32 (va + 4) (mfc0 CP0_PERFCTL 3 s2) s2;
          Some (MoveToPreviousGuestGPR REG_V0 0 (mtc0 CP0_PERFCTL 2 0 (mtc0 CP0_PERFCTL 0 0 s3))) }"

definition performance_init :: "hv \<Rightarrow> hv" where
  "performance_init s =
     (let (r1, s1) = register_hypercall H_performance_counter_start 16 s in
      if r1 < 0 then s1 else snd (register_hypercall H_performance_counter_stop 17 s1))"

subsection \<open>What the operations keep\<close>

text \<open>The waits are fixed points of a read: whatever number of polls they take, only the trace changes.\<close>

lemma udelay_loop_quiet: "udelay_loop final s = Some t \<Longrightarrow> quiet s t"
proof (induction s t rule: udelay_loop.raw_induct [where P = "\<lambda>_ s t. quiet s t", rotated, consumes 1])
  case (1 loop final s t)
  obtain now s1 where r: "mfc0_volatile CP0_COUNT s = (now, s1)" by fastforce
  have q: "quiet s s1" by (rule volatile_quiet [OF r])
  from 1(2) r show ?case using q quiet_trans [OF q 1(1)] by (auto split: if_splits)
qed

lemma udelay_quiet: "udelay usec s = Some t \<Longrightarrow> quiet s t"
  by (auto simp: udelay_def split: prod.splits dest!: udelay_loop_quiet intro: quiet_trans volatile_quiet)

lemma nvm_wait_quiet: "nvm_wait s = Some t \<Longrightarrow> quiet s t"
proof (induction s t rule: nvm_wait.raw_induct [rotated, consumes 1])
  case (1 loop s t)
  obtain v s1 where r: "sfr_read NVMCON s = (v, s1)" by fastforce
  have q: "quiet s s1" by (rule sfr_quiet(2) [OF r])
  from 1(2) r show ?case using q quiet_trans [OF q 1(1)] by (auto split: if_splits)
qed

lemma NVMUnlock_quiet:
  assumes "NVMUnlock op s = Some (r, t)"
  shows "quiet s t"
proof -
  let ?s2 = "sfr_write NVMCON op (s\<lparr>ie := False\<rparr>)"
  let ?k = "\<lambda>u. sfr_write NVMCONSET 0x8000 (sfr_write NVMKEY 0x556699AA (sfr_write NVMKEY 0xAA996655 (sfr_write NVMKEY 0 u)))"
  obtain s3 where u: "udelay 10 ?s2 = Some s3" using assms by (cases "udelay 10 ?s2") (simp_all add: NVMUnlock_def)
  obtain s6 where w: "nvm_wait (?k s3) = Some s6"
    using assms u by (cases "nvm_wait (?k s3)") (simp_all add: NVMUnlock_def)
  let ?s8 = "sfr_write NVMCONCLR 0x4000 (s6\<lparr>ie := ie s\<rparr>)"
  obtain v s9 where r: "sfr_read NVMCON ?s8 = (v, s9)" by fastforce
  have t: "t = s9" using assms u w r by (simp add: NVMUnlock_def)
  have "quiet s ?s2" by (rule quiet_trans [OF quiet_upd(5) sfr_quiet(1)])
  also note udelay_quiet [OF u]
  also have "quiet s3 (?k s3)"
    by (rule quiet_trans [OF quiet_trans [OF quiet_trans [OF sfr_quiet(1) sfr_quiet(1)] sfr_quiet(1)] sfr_quiet(1)])
  also note nvm_wait_quiet [OF w]
  also have "quiet s6 ?s8" by (rule quiet_trans [OF quiet_upd(5) sfr_quiet(1)])
  also note sfr_quiet(2) [OF r]
  finally show ?thesis unfolding t .
qed

lemma NVMErasePage_quiet: "NVMErasePage a s = Some (r, t) \<Longrightarrow> quiet s t"
  unfolding NVMErasePage_def by (rule quiet_trans [OF sfr_quiet(1) NVMUnlock_quiet])

lemma NVMWriteQuad_quiet:
  assumes "NVMWriteQuad a d s = Some (r, t)"
  shows "quiet s t"
proof -
  note step = quiet_trans [OF access_quiet(3) sfr_quiet(1)]
  from assms obtain d0 s2 d1 s4 d2 s6 d3 s8 where u:
    "ld32 d (sfr_write NVMADDR (a AND 0x1FFFFFFF) s) = Some (d0, s2)"
    "ld32 (d + 4) (sfr_write NVMDATA0 d0 s2) = Some (d1, s4)"
    "ld32 (d + 8) (sfr_write (NVMDATA0 + 0x10) d1 s4) = Some (d2, s6)"
    "ld32 (d + 12) (sfr_write (NVMDATA0 + 0x20) d2 s6) = Some (d3, s8)"
    "NVMUnlock 0x4002 (sfr_write (NVMDATA0 + 0x30) d3 s8) = Some (r, t)"
    by (auto simp: NVMWriteQuad_def Let_def bind_eq_Some_conv)
  have "quiet s (sfr_write NVMADDR (a AND 0x1FFFFFFF) s)" by (rule sfr_quiet(1))
  also note step [OF u(1)]
  also note step [OF u(2)]
  also note step [OF u(3)]
  also note step [OF u(4)]
  also note NVMUnlock_quiet [OF u(5)]
  finally show ?thesis .
qed

lemma flash_loops_quiet:
  "flash_read_loop is b s = Some t \<Longrightarrow> quiet s t" "flash_write_loop is b s = Some t \<Longrightarrow> quiet s t"
proof -
  show "flash_read_loop is b s = Some t \<Longrightarrow> quiet s t"
  proof (induction "is" arbitrary: s)
    case (Cons i "is")
    then obtain w s1 s2 where u: "ld32 (pageFlash + 4 * of_nat i) s = Some (w, s1)"
      "st32 (b + 4 * of_nat i) w s1 = Some s2" "flash_read_loop is b s2 = Some t"
      by (auto simp: bind_eq_Some_conv)
    show ?case
      by (rule quiet_trans [OF quiet_trans [OF access_quiet(3) [OF u(1)] access_quiet(4) [OF u(2)]] Cons.IH [OF u(3)]])
  qed simp
  show "flash_write_loop is b s = Some t \<Longrightarrow> quiet s t"
  proof (induction "is" arbitrary: s)
    case (Cons i "is")
    then obtain r s1 where u: "NVMWriteQuad (pageFlash + 4 * of_nat i) (b + 4 * of_nat i) s = Some (r, s1)"
      "flash_write_loop is b s1 = Some t"
      by (auto simp: bind_eq_Some_conv)
    show ?case by (rule quiet_trans [OF NVMWriteQuad_quiet [OF u(1)] Cons.IH [OF u(2)]])
  qed simp
qed

lemma flash_read_quiet:
  assumes "flash_read s = Some t"
  shows "quiet s t"
proof -
  obtain m where m: "cur_vm s = Some m" using assms by (cases "cur_vm s") (simp_all add: flash_read_def)
  obtain d s1 where w: "tlbCreateEntry (MoveFromPreviousGuestGPR REG_A0 s) (base_addr m) 1024 0xF True s = Some (d, s1)"
    using assms m by (cases "tlbCreateEntry (MoveFromPreviousGuestGPR REG_A0 s) (base_addr m) 1024 0xF True s")
      (auto simp: flash_read_def)
  obtain s2 where l: "flash_read_loop [0..<256] d s1 = Some s2"
    using assms m w by (cases "flash_read_loop [0..<256] d s1")
      (simp_all add: flash_read_def flash_read1Kbuffer_def del: upt_rec_numeral)
  have "t = MoveToPreviousGuestGPR REG_V0 1024 s2"
    using assms m w l by (simp add: flash_read_def flash_read1Kbuffer_def del: upt_rec_numeral)
  then show ?thesis
    using quiet_trans [OF quiet_trans [OF tlbCreateEntry_quiet [OF w] flash_loops_quiet(1) [OF l]] MoveTo_quiet] by simp
qed

lemma flash_write_quiet:
  assumes "flash_write s = Some t"
  shows "quiet s t"
proof -
  obtain m where m: "cur_vm s = Some m" using assms by (cases "cur_vm s") (simp_all add: flash_write_def)
  obtain d s1 where w: "tlbCreateEntry (MoveFromPreviousGuestGPR REG_A0 s) (base_addr m) 1024 0xF True s = Some (d, s1)"
    using assms m by (cases "tlbCreateEntry (MoveFromPreviousGuestGPR REG_A0 s) (base_addr m) 1024 0xF True s")
      (auto simp: flash_write_def)
  obtain r s2 where e: "NVMErasePage pageFlash s1 = Some (r, s2)"
    using assms m w by (cases "NVMErasePage pageFlash s1") (auto simp: flash_write_def flash_write1Kbuffer_def)
  let ?is = "map (\<lambda>k. 4 * k) [0..<64]"
  obtain s3 where l: "flash_write_loop ?is d s2 = Some s3"
    using assms m w e by (cases "flash_write_loop ?is d s2")
      (simp_all add: flash_write_def flash_write1Kbuffer_def del: upt_rec_numeral)
  have "t = MoveToPreviousGuestGPR REG_V0 1024 s3"
    using assms m w e l by (simp add: flash_write_def flash_write1Kbuffer_def del: upt_rec_numeral)
  then show ?thesis
    using quiet_trans [OF quiet_trans [OF quiet_trans [OF tlbCreateEntry_quiet [OF w] NVMErasePage_quiet [OF e]]
        flash_loops_quiet(2) [OF l]] MoveTo_quiet] by simp
qed

lemma performance_counter_start_quiet: "quiet s (performance_counter_start s)"
  unfolding performance_counter_start_def Let_def
  by (rule quiet_trans [OF quiet_trans [OF quiet_trans [OF quiet_trans [OF mtc0_quiet(1) mtc0_quiet(1)] mtc0_quiet(1)] mtc0_quiet(1)] MoveTo_quiet])

lemma performance_counter_stop_quiet:
  assumes "performance_counter_stop s = Some t"
  shows "quiet s t"
proof -
  let ?w = "\<lambda>m. tlbCreateEntry (MoveFromPreviousGuestGPR REG_A0 s) (base_addr m) 8 0xF True s"
  obtain m where m: "cur_vm s = Some m" using assms by (cases "cur_vm s") (simp_all add: performance_counter_stop_def)
  obtain va s1 where w: "?w m = Some (va, s1)"
    using assms m by (cases "?w m") (auto simp: performance_counter_stop_def)
  obtain s2 where a: "st32 va (mfc0 CP0_PERFCTL 1 s1) s1 = Some s2"
    using assms m w by (cases "st32 va (mfc0 CP0_PERFCTL 1 s1) s1") (simp_all add: performance_counter_stop_def)
  obtain s3 where b: "st32 (va + 4) (mfc0 CP0_PERFCTL 3 s2) s2 = Some s3"
    using assms m w a by (cases "st32 (va + 4) (mfc0 CP0_PERFCTL 3 s2) s2") (simp_all add: performance_counter_stop_def)
  have t: "t = MoveToPreviousGuestGPR REG_V0 0 (mtc0 CP0_PERFCTL 2 0 (mtc0 CP0_PERFCTL 0 0 s3))"
    using assms m w a b by (simp add: performance_counter_stop_def)
  have "quiet s s3"
    by (rule quiet_trans [OF quiet_trans [OF tlbCreateEntry_quiet [OF w] access_quiet(4) [OF a]] access_quiet(4) [OF b]])
  then show ?thesis unfolding t
    by (rule quiet_trans [OF _ quiet_trans [OF quiet_trans [OF mtc0_quiet(1) mtc0_quiet(1)] MoveTo_quiet]])
qed

end
