(* ===== verification/Uart.thy ===== *)
theory Uart
  imports Messaging
begin

text \<open>
  The console drivers: \<open>arch/mips/pic32mz/uart_driver.c\<close>, where a transfer that does not fit
  the hardware queue is continued by interrupts while the VCPU is blocked, and
  \<open>arch/mips/baikal-t1/uart_driver.c\<close>, which polls. A character is a signed \<open>char\<close> widened
  to the 32-bit register.
\<close>

subsection \<open>PIC32MZ\<close>

definition char_word :: "u8 \<Rightarrow> u32" where
  "char_word c = scast c"

definition USTA_UTXBF :: u32 where "USTA_UTXBF = 0x200"

definition uart_irq_bit :: "hv \<Rightarrow> u32" where
  "uart_irq_bit s = push_bit (unat (UART_IRQ_TX (conf s) AND 31)) 1"

definition uart_irq_reg :: "hv \<Rightarrow> u32" where
  "uart_irq_reg s = drop_bit 5 (UART_IRQ_TX (conf s))"

text \<open>The loop shared by the hypercall and the interrupt handler: \<open>n\<close> characters are left.\<close>

fun uart_fill :: "nat \<Rightarrow> u32 \<Rightarrow> u32 \<Rightarrow> hv \<Rightarrow> (u32 \<times> hv) option" where
  "uart_fill 0 str_mapped i s = Some (i, s)"
| "uart_fill (Suc n) str_mapped i s =
     do { let (sta, s1) = sfr_read (UARTSTAT (conf s)) s;
          if sta AND USTA_UTXBF \<noteq> 0 then Some (i, s1)
          else
            do { (c, s2) \<leftarrow> ld8 (str_mapped + i) s1;
                 uart_fill n str_mapped (i + 1) (sfr_write (UARTTXREG (conf s2)) (char_word c) s2) } }"

definition scheduler_transfer_interrupt :: "u32 \<Rightarrow> u32 \<Rightarrow> u32 \<Rightarrow> hv \<Rightarrow> hv option" where
  "scheduler_transfer_interrupt addr next_char sz s =
     do { p \<leftarrow> vcpu_executing s;
          v \<leftarrow> vcpus s p;
          let j = vc_ident v - 1;
          let s1 = (if active_transfer s < 0
                    then (sfr_write (IECSET (uart_irq_reg s)) (uart_irq_bit s) s)\<lparr>active_transfer := sint j\<rparr>
                    else s);
          t \<leftarrow> arr_set (transfers s1) (int (unat j))
                \<lparr>buf_addr = addr, next_character = next_char, tr_size = sz, tr_vcpu = Some p\<rparr>;
          upd_vcpu p (\<lambda>v. v\<lparr>state := VCPU_BLOCKED\<rparr>) (s1\<lparr>transfers := t\<rparr>) }"

text \<open>The next transfer to activate, in index order.\<close>

fun next_transfer :: "nat list \<Rightarrow> transfer_info list \<Rightarrow> nat option option" where
  "next_transfer [] ts = Some None"
| "next_transfer (j # js) ts =
     do { t \<leftarrow> arr_get ts (int j);
          if tr_vcpu t \<noteq> None then Some (Some j) else next_transfer js ts }"

definition transfer_tx_done :: "hv \<Rightarrow> hv option" where
  "transfer_tx_done s =
     do { let j = unat (word_of_int (active_transfer s) :: u32);
          let s1 = sfr_write (IFSCLR (uart_irq_reg s)) (uart_irq_bit s) s;
          t \<leftarrow> arr_get (transfers s1) (int j);
          p \<leftarrow> tr_vcpu t;
          v \<leftarrow> vcpus s1 p;
          m \<leftarrow> vms s1 (vc_vm v);
          (va, s2) \<leftarrow> tlbCreateEntry (buf_addr t) (base_addr m) (tr_size t) 0xF True s1;
          (i, s3) \<leftarrow> uart_fill (unat (tr_size t) - unat (next_character t)) va (next_character t) s2;
          let t1 = t\<lparr>next_character := i\<rparr>;
          if tr_size t1 \<le> i
          then
            do { s4 \<leftarrow> upd_vcpu p (\<lambda>v. v\<lparr>state := VCPU_RUNNING\<rparr>) s3;
                 let ts = (transfers s4)[j := t1\<lparr>tr_vcpu := None\<rparr>];
                 let s5 = s4\<lparr>transfers := ts\<rparr>;
                 k \<leftarrow> next_transfer [0..<NVMACHINES (conf s5)] ts;
                 (case k of
                    Some j' \<Rightarrow> Some (s5\<lparr>active_transfer := int j'\<rparr>)
                  | None \<Rightarrow> Some ((sfr_write (IECCLR (uart_irq_reg s5)) (uart_irq_bit s5) s5)\<lparr>active_transfer := - 1\<rparr>)) }
          else Some (s3\<lparr>transfers := (transfers s3)[j := t1]\<rparr>) }"

definition uart_send :: "hv \<Rightarrow> hv option" where
  "uart_send s =
     do { let str = MoveFromPreviousGuestGPR REG_A0 s;
          let sz = MoveFromPreviousGuestGPR REG_A1 s;
          m \<leftarrow> cur_vm s;
          (va, s1) \<leftarrow> tlbCreateEntry str (base_addr m) sz 0xF True s;
          (i, s2) \<leftarrow> (if active_transfer s1 < 0 then uart_fill (unat sz) va 0 s1 else Some (0, s1));
          s3 \<leftarrow> (if i < sz then scheduler_transfer_interrupt str i sz s2 else Some s2);
          Some (MoveToPreviousGuestGPR REG_V0 sz s3) }"

definition zero_transfer :: transfer_info where
  "zero_transfer = \<lparr>buf_addr = 0, next_character = 0, tr_size = 0, tr_vcpu = None\<rparr>"

definition uart_driver_init :: "hv \<Rightarrow> hv" where
  "uart_driver_init s =
     (let (r, s1) = register_hypercall H_uart_send 18 s in
      if r < 0 then s1
      else let (offset, s2) = register_interrupt I_transfer_tx_done s1 in
      if offset = 0 then s2
      else
        (let irq = UART_IRQ_TX (conf s2);
             s3 = sfr_write (PIC32MZ_PBASE (0x10540 + push_bit 2 irq)) offset s2;
             (sta, s4) = sfr_read (UARTSTAT (conf s3)) s3;
             s5 = sfr_write (UARTSTAT (conf s4)) ((sta AND NOT (push_bit 14 3)) OR push_bit 14 1) s4;
             prio = push_bit (8 * unat (irq AND 3)) 0x1F;
             s6 = sfr_write (IPCCLR (drop_bit 2 irq)) prio s5;
             s7 = sfr_write (IPCSET (drop_bit 2 irq)) prio s6;
             s8 = sfr_write (IFSCLR (uart_irq_reg s7)) (uart_irq_bit s7) s7
         in s8\<lparr>transfers := replicate (NVMACHINES (conf s8)) zero_transfer\<rparr>))"

subsection \<open>Baikal\<close>

abbreviation (input) "UART0_LSR \<equiv> (0xBF04A014 :: u32)"
abbreviation (input) "UART0_RBR \<equiv> (0xBF04A000 :: u32)"

partial_function (option) wait_lsr :: "hv \<Rightarrow> hv option" where
  "wait_lsr s = (let (v, s1) = sfr_read UART0_LSR s in if v AND 0x40 = 0 then wait_lsr s1 else Some s1)"

fun uart_poll :: "nat \<Rightarrow> u32 \<Rightarrow> u32 \<Rightarrow> hv \<Rightarrow> hv option" where
  "uart_poll 0 str_mapped i s = Some s"
| "uart_poll (Suc n) str_mapped i s =
     do { s1 \<leftarrow> wait_lsr s;
          (c, s2) \<leftarrow> ld8 (str_mapped + i) s1;
          uart_poll n str_mapped (i + 1) (sfr_write UART0_RBR (char_word c) s2) }"

definition uart_send_baikal :: "hv \<Rightarrow> hv option" where
  "uart_send_baikal s =
     do { let str = MoveFromPreviousGuestGPR REG_A0 s;
          let sz = MoveFromPreviousGuestGPR REG_A1 s;
          m \<leftarrow> cur_vm s;
          (va, s1) \<leftarrow> tlbCreateEntry str (base_addr m) sz 0xF False s;
          s2 \<leftarrow> uart_poll (unat sz) va 0 s1;
          Some (MoveToPreviousGuestGPR REG_V0 sz s2) }"

definition uart_driver_init_baikal :: "hv \<Rightarrow> hv" where
  "uart_driver_init_baikal s = snd (register_hypercall H_uart_send 18 s)"

subsection \<open>What reaches the transmit register\<close>

definition sent :: "hv \<Rightarrow> u32 list" where
  "sent s = written_to (UARTTXREG (conf s) AND 0x1FFFFFFF) (io s)"

lemma maps_to_io [simp]:
  "maps_to (s\<lparr>io := x\<rparr>) va pa n = maps_to s va pa n" "maps_to (s\<lparr>vol_n := y\<rparr>) va pa n = maps_to s va pa n"
  "maps_to (s\<lparr>vol_n := y, io := x\<rparr>) va pa n = maps_to s va pa n"
  "maps_to (s\<lparr>io := x, vol_n := y\<rparr>) va pa n = maps_to s va pa n"
  by (simp_all add: maps_to_def root_translate_def hw_lookup_def mfc0_def is_ram_def)

text \<open>
  The fill loop sends a prefix of what is left, in order, and changes nothing but the trace. \<open>queue_full s j\<close>: the
  \<open>j\<close>-th reading of the status register from \<open>s\<close> on has the bit of the full transmit queue (bit 9) set.
  The loop reads the status once before each character, so it sends exactly as many as there are readings before the
  first full one.
\<close>

definition queue_full :: "hv \<Rightarrow> nat \<Rightarrow> bool" where
  "queue_full s j \<longleftrightarrow> bit (dev (conf s) (vol_n s + j) (UARTSTAT (conf s) AND 0x1FFFFFFF)) 9"

lemma queue_full_bit: "bit x 9 \<longleftrightarrow> x AND USTA_UTXBF \<noteq> 0" for x :: u32
proof -
  have e: "USTA_UTXBF = 2 ^ 9" by (simp add: USTA_UTXBF_def)
  have "x AND USTA_UTXBF = 0 \<longleftrightarrow> \<not> bit x 9" unfolding e by (rule and_exp_eq_0_iff_not_bit)
  then show ?thesis by simp
qed

lemma uart_fill_ok:
  "maps_to s (va + i) (pa + i) n \<Longrightarrow>
   \<exists>k tr c. k \<le> n \<and> uart_fill n va i s = Some (i + of_nat k, s\<lparr>io := io s @ tr, vol_n := c\<rparr>) \<and>
     written_to (UARTTXREG (conf s) AND 0x1FFFFFFF) tr = map char_word (bytes_at (mem s) (pa + i) k) \<and>
     (\<forall>j<k. \<not> queue_full s j) \<and> (k < n \<longrightarrow> queue_full s k)"
proof (induction n arbitrary: i s)
  case 0
  show ?case
    by (intro exI [of _ 0] exI [of _ "[]"] exI [of _ "vol_n s"]) (simp add: bytes_at_def)
next
  case (Suc n)
  let ?st = "UARTSTAT (conf s) AND 0x1FFFFFFF" and ?tx = "UARTTXREG (conf s) AND 0x1FFFFFFF"
  let ?sta = "dev (conf s) (vol_n s) ?st"
  let ?s1 = "s\<lparr>vol_n := Suc (vol_n s), io := io s @ [IORead ?st ?sta]\<rparr>"
  have r: "sfr_read (UARTSTAT (conf s)) s = (?sta, ?s1)"
    by (simp add: sfr_read_def dev_read_def Let_def)
  show ?case
  proof (cases "?sta AND USTA_UTXBF = 0")
    case False
    show ?thesis
      by (intro exI [of _ 0] exI [of _ "[IORead ?st ?sta]"] exI [of _ "Suc (vol_n s)"])
        (use False r in \<open>simp add: bytes_at_def queue_full_def queue_full_bit\<close>)
  next
    case True
    let ?w = "char_word (mem s (pa + i))"
    let ?s2 = "sfr_write (UARTTXREG (conf ?s1)) ?w ?s1"
    have m1: "maps_to ?s1 (va + i) (pa + i) (Suc n)" using Suc.prems by simp
    have ld: "ld8 (va + i) ?s1 = Some (mem s (pa + i), ?s1)"
      using maps_to_0 [OF m1, of False] by (simp add: ld8_def)
    have s2: "?s2 = s\<lparr>io := io s @ [IORead ?st ?sta, IOWrite ?tx ?w], vol_n := Suc (vol_n s)\<rparr>"
      by (simp add: sfr_write_def dev_write_def)
    have m2: "maps_to ?s2 (va + (i + 1)) (pa + (i + 1)) n"
      using maps_to_Suc [OF Suc.prems] unfolding s2 by (simp add: add.assoc)
    obtain k tr c where k: "k \<le> n" "uart_fill n va (i + 1) ?s2 = Some (i + 1 + of_nat k, ?s2\<lparr>io := io ?s2 @ tr, vol_n := c\<rparr>)"
      "written_to (UARTTXREG (conf ?s2) AND 0x1FFFFFFF) tr = map char_word (bytes_at (mem ?s2) (pa + (i + 1)) k)"
      "\<forall>j<k. \<not> queue_full ?s2 j" "k < n \<longrightarrow> queue_full ?s2 k"
      using Suc.IH [OF m2] by blast
    have step: "uart_fill (Suc n) va i s = uart_fill n va (i + 1) ?s2"
      using True r ld by simp
    let ?tr = "[IORead ?st ?sta, IOWrite ?tx ?w] @ tr"
    have fields: "conf ?s2 = conf s" "mem ?s2 = mem s" "io ?s2 = io s @ [IORead ?st ?sta, IOWrite ?tx ?w]"
      unfolding s2 by simp_all
    have e: "?s2\<lparr>io := io ?s2 @ tr, vol_n := c\<rparr> = s\<lparr>io := io s @ ?tr, vol_n := c\<rparr>"
      unfolding s2 by simp
    have "uart_fill (Suc n) va i s = Some (i + of_nat (Suc k), s\<lparr>io := io s @ ?tr, vol_n := c\<rparr>)"
      unfolding step k(2) e by (simp add: add.assoc)
    moreover have "written_to ?tx ?tr = map char_word (bytes_at (mem s) (pa + i) (Suc k))"
      using k(3) unfolding fields by (simp add: bytes_at_Suc add.assoc)
    moreover have nxt: "queue_full ?s2 j = queue_full s (Suc j)" for j unfolding queue_full_def s2 by simp
    moreover have "\<not> queue_full s 0" using True by (simp add: queue_full_def queue_full_bit)
    then have "\<forall>j<Suc k. \<not> queue_full s j" using k(4) nxt less_Suc_eq_0_disj by auto
    moreover have "Suc k < Suc n \<longrightarrow> queue_full s (Suc k)" using k(5) nxt by simp
    ultimately show ?thesis using k(1) by (intro exI [of _ "Suc k"] exI [of _ ?tr] exI [of _ c]) simp
  qed
qed

text \<open>A transfer that does not fit blocks the caller and is filed under its VCPU number.\<close>

lemma scheduler_transfer_interrupt_ok:
  assumes "vcpu_executing s = Some p" "vcpus s p = Some v" "unat (vc_ident v - 1) < length (transfers s)"
  obtains s' where "scheduler_transfer_interrupt addr next_char sz s = Some s'"
    "transfers s' = (transfers s)[unat (vc_ident v - 1) :=
       \<lparr>buf_addr = addr, next_character = next_char, tr_size = sz, tr_vcpu = Some p\<rparr>]"
    "active_transfer s' = (if active_transfer s < 0 then sint (vc_ident v - 1) else active_transfer s)"
    "vcpus s' = (vcpus s)(p \<mapsto> v\<lparr>state := VCPU_BLOCKED\<rparr>)"
    "mem s' = mem s" "krel s s'" "conf s' = conf s"
    "io s' = (if active_transfer s < 0 then io s @ [IOWrite (IECSET (uart_irq_reg s) AND 0x1FFFFFFF) (uart_irq_bit s)] else io s)"
proof -
  let ?j = "vc_ident v - 1"
  define s1 where "s1 = (if active_transfer s < 0
      then (sfr_write (IECSET (uart_irq_reg s)) (uart_irq_bit s) s)\<lparr>active_transfer := sint ?j\<rparr> else s)"
  define t where "t = s1\<lparr>transfers := (transfers s1)[unat ?j :=
       \<lparr>buf_addr = addr, next_character = next_char, tr_size = sz, tr_vcpu = Some p\<rparr>]\<rparr>"
  have f: "transfers s1 = transfers s" "vcpus s1 = vcpus s" "mem s1 = mem s" "conf s1 = conf s"
    by (simp_all add: s1_def sfr_write_def dev_write_def)
  have q: "quiet s t"
    unfolding t_def s1_def using quiet_trans [OF quiet_trans [OF sfr_quiet(1) quiet_upd(10)] quiet_upd(9)] quiet_upd(9)
    by simp
  let ?u = "t\<lparr>vcpus := (vcpus t)(p \<mapsto> v\<lparr>state := VCPU_BLOCKED\<rparr>)\<rparr>"
  have vt: "vcpus t p = Some v" using f(2) assms(2) by (simp add: t_def)
  have call: "scheduler_transfer_interrupt addr next_char sz s = Some ?u"
    using assms f vt
    by (simp add: scheduler_transfer_interrupt_def Let_def s1_def [symmetric] arr_set_nat upd_vcpu_def t_def
        del: of_nat_unat)
  have kr: "krel s ?u"
    by (rule krel_quiet_trans(2) [OF q], rule krel_upd [OF vt]) (simp_all add: vstat_def)
  show thesis
    by (rule that [OF call]) (use f kr in \<open>simp_all add: t_def s1_def sfr_write_def dev_write_def\<close>)
qed

text \<open>The transmit register is not one of the interrupt controller's.\<close>

definition uart_regs_ok :: "hv \<Rightarrow> bool" where
  "uart_regs_ok s \<longleftrightarrow> UARTTXREG (conf s) AND 0x1FFFFFFF \<notin>
     {IECSET (uart_irq_reg s) AND 0x1FFFFFFF, IECCLR (uart_irq_reg s) AND 0x1FFFFFFF, IFSCLR (uart_irq_reg s) AND 0x1FFFFFFF}"

lemma MoveTo_transfers [hv_simps]:
  "transfers (MoveToPreviousGuestGPR r v s) = transfers s"
  "active_transfer (MoveToPreviousGuestGPR r v s) = active_transfer s"
  by (auto simp: MoveToPreviousGuestGPR_def Let_def split: port.split)

lemma uart_send_ok:
  assumes wf: "window_ready s m" "vcpu_executing s = Some p" "vcpus s p = Some v"
    "unat (vc_ident v - 1) < length (transfers s)" "uart_regs_ok s"
    and buf: "guest_buffer s m (MoveFromPreviousGuestGPR REG_A0 s) (MoveFromPreviousGuestGPR REG_A1 s)"
  defines "n \<equiv> MoveFromPreviousGuestGPR REG_A1 s" and "pa \<equiv> guest_phys (base_addr m) (MoveFromPreviousGuestGPR REG_A0 s)"
  obtains k t where "k \<le> unat n" "uart_send s = Some t" "MoveFromPreviousGuestGPR REG_V0 t = n"
    "sent t = sent s @ map char_word (bytes_at (mem s) pa k)" "0 \<le> active_transfer s \<Longrightarrow> k = 0"
    "\<And>j. j < k \<Longrightarrow> \<not> queue_full s j" "active_transfer s < 0 \<Longrightarrow> k < unat n \<Longrightarrow> queue_full s k"
    "k = unat n \<Longrightarrow> transfers t = transfers s \<and> vcpus t = vcpus s"
    "k < unat n \<Longrightarrow> transfers t = (transfers s)[unat (vc_ident v - 1) :=
       \<lparr>buf_addr = MoveFromPreviousGuestGPR REG_A0 s, next_character = of_nat k, tr_size = n, tr_vcpu = Some p\<rparr>] \<and>
       vcpus t = (vcpus s)(p \<mapsto> v\<lparr>state := VCPU_BLOCKED\<rparr>) \<and>
       active_transfer t = (if active_transfer s < 0 then sint (vc_ident v - 1) else active_transfer s)"
    "mem t = mem s" "krel s t"
proof -
  let ?a0 = "MoveFromPreviousGuestGPR REG_A0 s" and ?tx = "UARTTXREG (conf s) AND 0x1FFFFFFF"
  have n': "unat n < 2 ^ 32" by (simp add: unat_u32_less)
  obtain va s1 where s1: "tlbCreateEntry ?a0 (base_addr m) n 0xF True s = Some (va, s1)"
    "maps_to s1 va pa (unat n)" "quiet s s1" "mem s1 = mem s" "io s1 = io s" "vol_n s1 = vol_n s"
    "\<And>r. MoveFromPreviousGuestGPR r s1 = MoveFromPreviousGuestGPR r s"
    "transfers s1 = transfers s" "active_transfer s1 = active_transfer s"
    by (rule guest_window [OF window_readyD [OF wf(1)] buf, folded n_def pa_def], rule that)
  note q1 = quiet_fields [OF s1(3)]
  have qf: "queue_full s1 x = queue_full s x" for x using q1(1) s1(6) by (simp add: queue_full_def)
  obtain k tr c where fill: "k \<le> unat n" "0 \<le> active_transfer s \<Longrightarrow> k = 0"
    "(if active_transfer s1 < 0 then uart_fill (unat n) va 0 s1 else Some (0, s1)) =
       Some (of_nat k, s1\<lparr>io := io s1 @ tr, vol_n := c\<rparr>)"
    "written_to ?tx tr = map char_word (bytes_at (mem s) pa k)"
    "\<And>j. j < k \<Longrightarrow> \<not> queue_full s j" "active_transfer s < 0 \<Longrightarrow> k < unat n \<Longrightarrow> queue_full s k"
  proof (cases "active_transfer s < 0")
    case True
    obtain k tr c where "k \<le> unat n" "uart_fill (unat n) va 0 s1 = Some (0 + of_nat k, s1\<lparr>io := io s1 @ tr, vol_n := c\<rparr>)"
      "written_to (UARTTXREG (conf s1) AND 0x1FFFFFFF) tr = map char_word (bytes_at (mem s1) (pa + 0) k)"
      "\<forall>j<k. \<not> queue_full s1 j" "k < unat n \<longrightarrow> queue_full s1 k"
      using uart_fill_ok [of s1 va 0 pa "unat n"] s1(2) by auto
    then show ?thesis using True q1(1) s1(4,9) qf by (intro that [where k = k and tr = tr and c = c]) simp_all
  next
    case False
    then show ?thesis
      using s1(9) by (intro that [where k = 0 and tr = "[]" and c = "vol_n s1"]) (simp_all add: bytes_at_def)
  qed
  let ?s2 = "s1\<lparr>io := io s1 @ tr, vol_n := c\<rparr>"
  have q2: "quiet s ?s2" by (rule quiet_trans [OF s1(3)], rule quiet_trans [OF quiet_upd(7) quiet_upd(8)])
  note f2 = quiet_fields [OF q2]
  have snt: "sent ?s2 = sent s @ map char_word (bytes_at (mem s) pa k)"
    using fill(4) s1(5) q1(1) by (simp add: sent_def)
  have lt: "(of_nat k :: u32) < n \<longleftrightarrow> k < unat n"
    using fill(1) n' by (simp add: word_less_nat_alt unat_of_nat)
  have vm: "cur_vm s = Some m" using wf(1) by (simp add: window_ready_def)
  have run: "uart_send s = do { s3 \<leftarrow> (if of_nat k < n then scheduler_transfer_interrupt ?a0 (of_nat k) n ?s2 else Some ?s2);
      Some (MoveToPreviousGuestGPR REG_V0 n s3) }"
    unfolding uart_send_def Let_def n_def [symmetric] vm bind.bind_lunit s1(1) prod.case fill(3) by (rule refl)
  show thesis
  proof (cases "k < unat n")
    case False
    then have kn: "k = unat n" using fill(1) by simp
    have "uart_send s = Some (MoveToPreviousGuestGPR REG_V0 n ?s2)" using run lt False by simp
    then show thesis
      by (rule that [OF fill(1)])
        (use snt kn fill(2,5,6) f2 s1(4,8) quiet_krel [OF quiet_trans [OF q2 MoveTo_quiet]] in \<open>simp_all add: hv_simps sent_def\<close>)
  next
    case True
    have e2: "vcpu_executing ?s2 = Some p" "vcpus ?s2 p = Some v" "unat (vc_ident v - 1) < length (transfers ?s2)"
      using f2 wf s1(8) by simp_all
    obtain s3 where s3: "scheduler_transfer_interrupt ?a0 (of_nat k) n ?s2 = Some s3"
      "transfers s3 = (transfers ?s2)[unat (vc_ident v - 1) :=
         \<lparr>buf_addr = ?a0, next_character = of_nat k, tr_size = n, tr_vcpu = Some p\<rparr>]"
      "active_transfer s3 = (if active_transfer ?s2 < 0 then sint (vc_ident v - 1) else active_transfer ?s2)"
      "vcpus s3 = (vcpus ?s2)(p \<mapsto> v\<lparr>state := VCPU_BLOCKED\<rparr>)"
      "mem s3 = mem ?s2" "krel ?s2 s3" "conf s3 = conf ?s2"
      "io s3 = (if active_transfer ?s2 < 0 then io ?s2 @ [IOWrite (IECSET (uart_irq_reg ?s2) AND 0x1FFFFFFF) (uart_irq_bit ?s2)] else io ?s2)"
      by (rule scheduler_transfer_interrupt_ok [OF e2])
    have c2: "conf ?s2 = conf s" by (rule f2(1))
    have s3s: "sent s3 = sent ?s2"
      using s3(7,8) wf(5) c2 by (auto simp: sent_def uart_regs_ok_def uart_irq_reg_def)
    have "uart_send s = Some (MoveToPreviousGuestGPR REG_V0 n s3)" using run lt True s3(1) by simp
    then show thesis
      by (rule that [OF fill(1)])
        (use s3 s3s snt True fill(2,5,6) f2 s1(4,8,9) krel_quiet_trans(1) [OF krel_quiet_trans(2) [OF q2 s3(6)] MoveTo_quiet]
          in \<open>simp_all add: hv_simps sent_def\<close>)
  qed
qed

text \<open>The interrupt sends the next characters of the same buffer, and wakes the VCPU at the end.\<close>

lemma next_transfer_upt:
  "n \<le> length ts \<Longrightarrow> next_transfer [k..<n] ts = Some (find (\<lambda>j. tr_vcpu (ts ! j) \<noteq> None) [k..<n])"
proof (induction "n - k" arbitrary: k)
  case (Suc x)
  then have "k < n" by linarith
  then have u: "[k..<n] = k # [Suc k..<n]" by (simp add: upt_conv_Cons)
  have "next_transfer [Suc k..<n] ts = Some (find (\<lambda>j. tr_vcpu (ts ! j) \<noteq> None) [Suc k..<n])"
    using Suc by simp
  then show ?case using Suc.prems \<open>k < n\<close> unfolding u by (simp add: arr_get_nat)
qed simp

lemma transfer_tx_done_ok:
  assumes act: "active_transfer s = int j" "j < length (transfers s)" "length (transfers s) = NVMACHINES (conf s)"
      "length (transfers s) < 2 ^ 32"
    and t: "transfers s ! j = \<lparr>buf_addr = addr, next_character = i, tr_size = n, tr_vcpu = Some p\<rparr>" "i \<le> n"
    and v: "vcpus s p = Some v" "vms s (vc_vm v) = Some m" "vm_window s m" "guest_buffer s m addr n" "uart_regs_ok s"
  defines "pa \<equiv> guest_phys (base_addr m) addr"
  obtains k s' where "k \<le> unat n - unat i" "transfer_tx_done s = Some s'"
    "sent s' = sent s @ map char_word (bytes_at (mem s) (pa + i) k)"
    "\<And>x. x < k \<Longrightarrow> \<not> queue_full s x" "unat i + k < unat n \<Longrightarrow> queue_full s k"
    "unat i + k < unat n \<Longrightarrow> vcpus s' = vcpus s \<and> active_transfer s' = int j \<and>
       transfers s' = (transfers s)[j := \<lparr>buf_addr = addr, next_character = i + of_nat k, tr_size = n, tr_vcpu = Some p\<rparr>]"
    "unat i + k = unat n \<Longrightarrow> vcpus s' = (vcpus s)(p \<mapsto> v\<lparr>state := VCPU_RUNNING\<rparr>) \<and>
       transfers s' = (transfers s)[j := \<lparr>buf_addr = addr, next_character = n, tr_size = n, tr_vcpu = None\<rparr>] \<and>
       active_transfer s' = (case find (\<lambda>x. tr_vcpu (transfers s' ! x) \<noteq> None) [0..<NVMACHINES (conf s)] of
          None \<Rightarrow> - 1 | Some x \<Rightarrow> int x)"
    "mem s' = mem s" "krel s s'"
proof -
  let ?tx = "UARTTXREG (conf s) AND 0x1FFFFFFF" and ?nc = "unat n - unat i"
  let ?t = "\<lparr>buf_addr = addr, next_character = i, tr_size = n, tr_vcpu = Some p\<rparr>"
  define s0 where "s0 = sfr_write (IFSCLR (uart_irq_reg s)) (uart_irq_bit s) s"
  have s0: "transfers s0 = transfers s" "vcpus s0 = vcpus s" "vms s0 = vms s" "mem s0 = mem s" "conf s0 = conf s"
      "io s0 = io s @ [IOWrite (IFSCLR (uart_irq_reg s) AND 0x1FFFFFFF) (uart_irq_bit s)]"
      "tlb s0 = tlb s" "vol_n s0 = vol_n s" "active_transfer s0 = active_transfer s"
    by (simp_all add: s0_def sfr_write_def dev_write_def)
  have q0: "quiet s s0" unfolding s0_def by (rule sfr_quiet(1))
  have w0: "vm_window s0 m" "guest_buffer s0 m addr n"
    using v(3,4) s0 by (simp_all add: vm_window_def window_slot_def guest_buffer_def is_ram_def)
  obtain va s1 where s1: "tlbCreateEntry addr (base_addr m) n 0xF True s0 = Some (va, s1)"
    "maps_to s1 va pa (unat n)" "quiet s0 s1" "mem s1 = mem s0" "io s1 = io s0" "vol_n s1 = vol_n s0"
    "transfers s1 = transfers s0" "active_transfer s1 = active_transfer s0"
    by (rule guest_window [OF w0, folded pa_def], rule that)
  note q1 = quiet_fields [OF quiet_trans [OF q0 s1(3)]]
  have il: "unat i \<le> unat n" using t(2) by (simp add: word_le_nat_alt)
  have "maps_to s1 (va + of_nat (unat i)) (pa + of_nat (unat i)) ?nc"
    using maps_toD [OF s1(2)] unfolding maps_to_def
    by (metis (no_types, lifting) add.assoc less_diff_conv add.commute of_nat_add)
  then have m1: "maps_to s1 (va + i) (pa + i) ?nc" by simp
  obtain k tr c where k: "k \<le> ?nc" "uart_fill ?nc va i s1 = Some (i + of_nat k, s1\<lparr>io := io s1 @ tr, vol_n := c\<rparr>)"
    "written_to (UARTTXREG (conf s1) AND 0x1FFFFFFF) tr = map char_word (bytes_at (mem s1) (pa + i) k)"
    "\<forall>x<k. \<not> queue_full s1 x" "k < ?nc \<longrightarrow> queue_full s1 k"
    using uart_fill_ok [OF m1] by blast
  have qf: "queue_full s1 x = queue_full s x" for x using q1(1) s1(6) s0 by (simp add: queue_full_def)
  have full: "\<And>x. x < k \<Longrightarrow> \<not> queue_full s x" "unat i + k < unat n \<Longrightarrow> queue_full s k"
    using k(4,5) il qf by auto
  let ?s3 = "s1\<lparr>io := io s1 @ tr, vol_n := c\<rparr>"
  have q3: "quiet s ?s3"
    by (rule quiet_trans [OF quiet_trans [OF q0 s1(3)]], rule quiet_trans [OF quiet_upd(7) quiet_upd(8)])
  note f3 = quiet_fields [OF q3]
  have snt: "sent ?s3 = sent s @ map char_word (bytes_at (mem s) (pa + i) k)"
    using k(3) s1(4,5) s0 q1(1) v(5) by (auto simp: sent_def uart_regs_ok_def)
  have ik: "unat (i + of_nat k) = unat i + k"
    using k(1) il unat_u32_less [of n] by (subst unat_add_u32) (simp_all add: unat_of_nat)
  have ge: "n \<le> i + of_nat k \<longleftrightarrow> unat i + k = unat n" using ik k(1) il by (simp add: word_le_nat_alt) linarith
  have tr3: "transfers ?s3 = transfers s" "active_transfer ?s3 = int j" using s1 s0 act by simp_all
  have ju: "unat (word_of_int (int j) :: u32) = j" using act by (simp add: unat_of_nat)
  let ?t1 = "?t\<lparr>next_character := i + of_nat k\<rparr>"
  show thesis
  proof (cases "unat i + k = unat n")
    case False
    have call: "transfer_tx_done s = Some (?s3\<lparr>transfers := (transfers ?s3)[j := ?t1]\<rparr>)"
      unfolding transfer_tx_done_def Let_def act(1) ju s0_def [symmetric]
      using s0 s1(1) k(2) t(1) act(2) v ge False by (simp add: arr_get_nat)
    have kr: "krel s (?s3\<lparr>transfers := (transfers ?s3)[j := ?t1]\<rparr>)"
      by (rule quiet_krel [OF quiet_trans [OF q3 quiet_upd(9)]])
    show thesis
      by (rule that [OF k(1) call]) (use full snt kr False f3 tr3 s1(4) s0(4) in \<open>simp_all add: sent_def\<close>)
  next
    case True
    let ?s4 = "?s3\<lparr>vcpus := (vcpus ?s3)(p \<mapsto> v\<lparr>state := VCPU_RUNNING\<rparr>)\<rparr>"
    let ?ts = "(transfers ?s3)[j := ?t1\<lparr>tr_vcpu := None\<rparr>]"
    let ?s5 = "?s4\<lparr>transfers := ?ts\<rparr>"
    define f where "f = find (\<lambda>x. tr_vcpu (?ts ! x) \<noteq> None) [0..<NVMACHINES (conf s)]"
    define s6 where "s6 = (case f of Some x \<Rightarrow> ?s5\<lparr>active_transfer := int x\<rparr>
       | None \<Rightarrow> (sfr_write (IECCLR (uart_irq_reg ?s5)) (uart_irq_bit ?s5) ?s5)\<lparr>active_transfer := - 1\<rparr>)"
    have v3: "vcpus ?s3 p = Some v" using f3(3) v(1) by simp
    have nt: "next_transfer [0..<NVMACHINES (conf ?s5)] ?ts = Some f"
      using act(3) tr3(1) f3(1) by (subst next_transfer_upt) (simp_all add: f_def)
    have up: "upd_vcpu p (\<lambda>v. v\<lparr>state := VCPU_RUNNING\<rparr>) ?s3 = Some ?s4" using v3 by (simp add: upd_vcpu_def)
    have call: "transfer_tx_done s = Some s6"
    proof -
      have e: "arr_get (transfers s0) (int j) = Some ?t" "vcpus s0 p = Some v" "vms s0 (vc_vm v) = Some m"
        using s0 t(1) act(2) v by (simp_all add: arr_get_nat del: of_nat_unat)
      have ge': "(n \<le> i + of_nat k) = True" using ge True by simp
      have ts: "transfers ?s4 = transfers ?s3" by simp
      have fin: "do { x \<leftarrow> next_transfer [0..<NVMACHINES (conf ?s5)] ?ts;
          (case x of Some j' \<Rightarrow> Some (?s5\<lparr>active_transfer := int j'\<rparr>)
           | None \<Rightarrow> Some ((sfr_write (IECCLR (uart_irq_reg ?s5)) (uart_irq_bit ?s5) ?s5)\<lparr>active_transfer := - 1\<rparr>)) } = Some s6"
        unfolding nt bind.bind_lunit s6_def by (cases f) (simp_all only: option.case)
      show ?thesis
        unfolding transfer_tx_done_def Let_def act(1) ju s0_def [symmetric] e bind.bind_lunit
          transfer_info.select_convs transfer_info.update_convs s1(1) prod.case k(2) ge' if_True up ts
        by (rule fin [unfolded transfer_info.update_convs])
    qed
    have "krel ?s3 ?s4" by (rule krel_upd [OF v3]) (simp_all add: vstat_def)
    then have "krel s ?s4" by (rule krel_quiet_trans(2) [OF q3])
    then have "krel s ?s5" by (rule krel_quiet_trans(1)) (rule quiet_upd(9))
    moreover have "quiet ?s5 s6"
      unfolding s6_def by (cases f) (use quiet_trans [OF sfr_quiet(1) quiet_upd(10)] in simp_all)
    ultimately have kr: "krel s s6" by (rule krel_quiet_trans(1))
    have e6: "vcpus s6 = vcpus ?s4" "transfers s6 = ?ts" "mem s6 = mem ?s3" "conf s6 = conf ?s3"
      "active_transfer s6 = (case f of None \<Rightarrow> - 1 | Some x \<Rightarrow> int x)"
      by (simp_all add: s6_def sfr_write_def dev_write_def split: option.split)
    have i6: "sent s6 = sent ?s3"
      using v(5) f3(1) by (auto simp: s6_def sent_def hv_simps uart_regs_ok_def uart_irq_reg_def split: option.split)
    have ikn: "i + of_nat k = n" using ik True by (simp add: word_unat_eq_iff)
    show thesis
      by (rule that [OF k(1) call]) (use full snt i6 kr True f3 tr3 s1(4) s0(4) e6 ikn in \<open>simp_all add: f_def\<close>)
  qed
qed

end
