(* ===== verification/InstrEmul.thy ===== *)
theory InstrEmul
  imports Messaging
begin

text \<open>
  Emulation of the privileged instructions a Linux guest traps on,
  \<open>arch/mips/baikal-t1/instruction_emulation.c\<close>. The functions return 0 on success and 1 for
  an instruction that is not supported; the PIC32MZ port has an empty emulator.
\<close>

subsection \<open>Operations\<close>

definition OPCODE :: "u32 \<Rightarrow> u32" where "OPCODE i = drop_bit 26 i"
definition FUNC :: "u32 \<Rightarrow> u32" where "FUNC i = i AND 0x3F"
definition RS :: "u32 \<Rightarrow> u32" where "RS i = drop_bit 21 i AND 0x1F"
definition RT :: "u32 \<Rightarrow> u32" where "RT i = drop_bit 16 i AND 0x1F"
definition RD :: "u32 \<Rightarrow> u32" where "RD i = drop_bit 11 i AND 0x1F"
definition SEL :: "u32 \<Rightarrow> u32" where "SEL i = i AND 0x7"
definition CO :: "u32 \<Rightarrow> u32" where "CO i = drop_bit 25 i AND 0x1"

definition co_instructions :: "u32 \<Rightarrow> u32" where
  "co_instructions badinstr = (if FUNC badinstr = 0x20 then 1 else 1)"

definition mfc0_instructions :: "u32 \<Rightarrow> hv \<Rightarrow> u32 \<times> hv" where
  "mfc0_instructions badinstr s =
     (let rd = RD badinstr; rt = unat (RT badinstr); sel = SEL badinstr in
      if rd = 12 then
        (if sel = 2
         then (0, MoveToPreviousGuestGPR rt (mfc0 CP0_SRSCTL 2 s AND NOT SRSCTL_HSS) s) else (1, s))
      else if rd = 15 then
        (if sel = 0 then (0, MoveToPreviousGuestGPR rt (mfc0 CP0_PRID 0 s) s) else (1, s))
      else if rd = 18 then
        (if sel = 0 then (0, MoveToPreviousGuestGPR rt (mfgc0 CP0_WATCHLO 0 s) s)
         else if sel = 1 then (0, MoveToPreviousGuestGPR rt 0 s) else (1, s))
      else if rd = 19 then
        (if sel = 0 then (0, MoveToPreviousGuestGPR rt (mfgc0 CP0_WATCHHI 0 s) s)
         else if sel = 1 then (0, MoveToPreviousGuestGPR rt 0 s) else (1, s))
      else (1, s))"

definition mtc0_instructions :: "u32 \<Rightarrow> hv \<Rightarrow> u32 \<times> hv" where
  "mtc0_instructions badinstr s =
     (let rd = RD badinstr; sel = SEL badinstr in
      if rd = 18 then
        (if sel = 0 then (0, mtgc0 CP0_WATCHLO 0 (MoveFromPreviousGuestGPR (unat rd) s) s)
         else if sel = 1 then (0, s) else (1, s))
      else if rd = 19 then
        (if sel = 0 then (0, mtgc0 CP0_WATCHHI 0 (MoveFromPreviousGuestGPR (unat rd) s) s)
         else if sel = 1 then (0, s) else (1, s))
      else (1, s))"

definition instruction_emulation_baikal :: "u32 \<Rightarrow> hv \<Rightarrow> u32 \<times> hv" where
  "instruction_emulation_baikal epc s =
     (let badinstr = getBadInstruction s in
      if OPCODE badinstr = 0x10 then
        (if CO badinstr = 1 then (if co_instructions badinstr \<noteq> 0 then (1, s) else (0, s))
         else if RS badinstr = 0x04 then
           (let (r, s1) = mtc0_instructions badinstr s in if r \<noteq> 0 then (1, s1) else (0, s1))
         else if RS badinstr = 0x00 then
           (let (r, s1) = mfc0_instructions badinstr s in if r \<noteq> 0 then (1, s1) else (0, s1))
         else (1, s))
      else (1, s))"

definition instruction_emulation_pic32mz :: "u32 \<Rightarrow> hv \<Rightarrow> u32 \<times> hv" where
  "instruction_emulation_pic32mz epc s = (0, s)"

text \<open>\<open>instruction_emulation\<close> of \<open>vcpu.c\<close> calls the routine of the port.\<close>

definition instruction_emulation :: "u32 \<Rightarrow> hv \<Rightarrow> u32 \<times> hv" where
  "instruction_emulation epc s =
     (case c_port (conf s) of
        PIC32MZ \<Rightarrow> instruction_emulation_pic32mz epc s
      | BAIKAL_T1 \<Rightarrow> instruction_emulation_baikal epc s)"

subsection \<open>Encodings\<close>

text \<open>A coprocessor 0 move: opcode, direction \<open>rs\<close>, guest register, CP0 register, select.\<close>

definition move_code :: "u32 \<Rightarrow> u32 \<Rightarrow> u32 \<Rightarrow> u32 \<Rightarrow> u32 \<Rightarrow> u32" where
  "move_code op rs rt rd sel = push_bit 26 op OR push_bit 21 rs OR push_bit 16 rt OR push_bit 11 rd OR sel"

definition mtc0_code :: "u32 \<Rightarrow> u32 \<Rightarrow> u32 \<Rightarrow> u32" where
  "mtc0_code rt rd sel = move_code 0x10 4 rt rd sel"

lemma field_bits:
  "x AND mask k = x \<Longrightarrow> bit x n \<Longrightarrow> n < k" for x :: "'a::len word"
  by (metis bit_and_iff bit_mask_iff)

lemma move_code_fields:
  assumes "op AND mask 6 = op" "rs AND mask 4 = rs"
    "rt AND mask 5 = rt" "rd AND mask 5 = rd" "sel AND mask 3 = sel"
  shows "RT (move_code op rs rt rd sel) = rt" "RD (move_code op rs rt rd sel) = rd"
    "SEL (move_code op rs rt rd sel) = sel" "OPCODE (move_code op rs rt rd sel) = op"
    "RS (move_code op rs rt rd sel) = rs" "CO (move_code op rs rt rd sel) = 0"
proof -
  note F = field_bits [OF assms(1)] field_bits [OF assms(2)] field_bits [OF assms(3)]
    field_bits [OF assms(4)] field_bits [OF assms(5)]
  have m: "0x1F = (mask 5 :: u32)" "0x7 = (mask 3 :: u32)" "0x1 = (mask 1 :: u32)"
    by (simp_all add: mask_eq_exp_minus_1)
  note D = move_code_def RT_def RD_def SEL_def OPCODE_def RS_def CO_def m
  show "RT (move_code op rs rt rd sel) = rt"
    unfolding D by (rule bit_word_eqI) (auto simp: bit_simps dest: F)
  show "RD (move_code op rs rt rd sel) = rd"
    unfolding D by (rule bit_word_eqI) (auto simp: bit_simps dest: F)
  show "SEL (move_code op rs rt rd sel) = sel"
    unfolding D by (rule bit_word_eqI) (auto simp: bit_simps dest: F)
  show "OPCODE (move_code op rs rt rd sel) = op"
    unfolding D by (rule bit_word_eqI) (auto simp: bit_simps dest: F)
  show "RS (move_code op rs rt rd sel) = rs"
    unfolding D by (rule bit_word_eqI) (auto simp: bit_simps dest: F)
  show "CO (move_code op rs rt rd sel) = 0"
    unfolding D by (rule bit_word_eqI) (auto simp: bit_simps dest: F)
qed

subsection \<open>Lemmas\<close>

lemma moves_quiet:
  "quiet s (snd (mfc0_instructions i s))" "quiet s (snd (mtc0_instructions i s))"
  by (simp_all add: mfc0_instructions_def mtc0_instructions_def Let_def MoveTo_quiet mtc0_quiet)

lemma instruction_emulation_quiet: "quiet s (snd (instruction_emulation epc s))"
  using moves_quiet [of s "getBadInstruction s"]
  by (auto simp: instruction_emulation_def instruction_emulation_pic32mz_def instruction_emulation_baikal_def
      Let_def split: port.split prod.splits)

text \<open>
  \<open>mtc0 rt, rd\<close> for the watch registers: the value written to guest CP0 register 18 or 19
  comes from the general purpose register of the same number, not from \<open>rt\<close>.
\<close>

lemma emulated_mtc0:
  assumes port: "c_port (conf s) = BAIKAL_T1" and rt: "rt AND mask 5 = rt" and rd: "rd = 18 \<or> rd = 19"
    and instr: "getBadInstruction s = mtc0_code rt rd 0"
  shows "instruction_emulation epc s = (0, mtgc0 (unat rd) 0 (MoveFromPreviousGuestGPR (unat rd) s) s)"
proof -
  have f: "(0x10 :: u32) AND mask 6 = 0x10" "(4 :: u32) AND mask 4 = 4" "(0 :: u32) AND mask 3 = 0"
    by (simp_all add: mask_eq_exp_minus_1)
  have d: "rd AND mask 5 = rd" using rd by (auto simp: mask_eq_exp_minus_1)
  note F = move_code_fields [OF f(1,2) rt d f(3), folded mtc0_code_def]
  have "mtc0_instructions (mtc0_code rt rd 0) s = (0, mtgc0 (unat rd) 0 (MoveFromPreviousGuestGPR (unat rd) s) s)"
    unfolding mtc0_instructions_def Let_def F using rd by auto
  then show ?thesis
    unfolding instruction_emulation_def port instruction_emulation_baikal_def Let_def instr F by simp
qed

lemma emulated_mfc0:
  assumes port: "c_port (conf s) = BAIKAL_T1" and rt: "rt AND mask 5 = rt"
    and instr: "getBadInstruction s = move_code 0x10 0 rt rd sel"
    and reg: "(rd, sel) \<in> {(12, 2), (15, 0), (18, 0), (19, 0), (18, 1), (19, 1)}"
  shows "instruction_emulation epc s = (0, MoveToPreviousGuestGPR (unat rt)
    (if rd = 12 then mfc0 CP0_SRSCTL 2 s AND NOT SRSCTL_HSS else if rd = 15 then mfc0 CP0_PRID 0 s
     else if sel = 1 then 0 else mfgc0 (unat rd) 0 s) s)"
proof -
  have f: "(0x10 :: u32) AND mask 6 = 0x10" "(0 :: u32) AND mask 4 = 0"
    by (simp_all add: mask_eq_exp_minus_1)
  have d: "rd AND mask 5 = rd" "sel AND mask 3 = sel" using reg by (auto simp: mask_eq_exp_minus_1)
  note F = move_code_fields [OF f(1,2) rt d]
  have "mfc0_instructions (move_code 0x10 0 rt rd sel) s = (0, MoveToPreviousGuestGPR (unat rt)
    (if rd = 12 then mfc0 CP0_SRSCTL 2 s AND NOT SRSCTL_HSS else if rd = 15 then mfc0 CP0_PRID 0 s
     else if sel = 1 then 0 else mfgc0 (unat rd) 0 s) s)"
    unfolding mfc0_instructions_def Let_def F using reg by auto
  then show ?thesis
    unfolding instruction_emulation_def port instruction_emulation_baikal_def Let_def instr F by simp
qed

end
