(* ===== verification/Timer.thy ===== *)
theory Timer
  imports Messaging
begin

text \<open>
  The timer drivers of the two ports (\<open>timer.c\<close>): the next compare value, the scheduler tick
  and the virtual timer interrupt of the guests. \<open>start_timer\<close> does not return: its value is the
  state in which it waits for the first interrupt.
\<close>

subsection \<open>Operations\<close>

definition MILISECOND :: "hv_conf \<Rightarrow> u32" where
  "MILISECOND c = CPU_FREQ c div 2 div 1000"

definition MICROSECOND :: "hv_conf \<Rightarrow> u32" where
  "MICROSECOND c = MILISECOND c div 1000"

definition SYSTEM_TICK_INTERVAL :: "hv_conf \<Rightarrow> u32" where
  "SYSTEM_TICK_INTERVAL c =
     (case c_port c of PIC32MZ \<Rightarrow> 1000 * MICROSECOND c | BAIKAL_T1 \<Rightarrow> QUANTUM_SCHEDULER_MS c * MILISECOND c)"

definition QUEST_TICK_INTERVAL :: "hv_conf \<Rightarrow> u32" where
  "QUEST_TICK_INTERVAL c = GUEST_QUANTUM_MS c * MILISECOND c"

definition calc_next_timer_interrupt :: "u32 \<Rightarrow> hv \<Rightarrow> hv" where
  "calc_next_timer_interrupt interval s =
     (let (count, s1) = mfc0_volatile CP0_COUNT s;
          s2 = mtc0 CP0_COMPARE 0 (count + interval) s1
      in sfr_write (IFSCLR 0) 1 s2)"

text \<open>The time since the last guest tick, with the wrap of the counter.\<close>

definition guest_tick_diff :: "u32 \<Rightarrow> u32 \<Rightarrow> u32" where
  "guest_tick_diff past now = (if past \<le> now then now - past else 0xFFFFFFFF - (past - now))"

definition timer_interrupt_handler :: "hv \<Rightarrow> hv option" where
  "timer_interrupt_handler s =
     do { let s1 = calc_next_timer_interrupt (SYSTEM_TICK_INTERVAL (conf s)) s;
          s2 \<leftarrow> run_scheduler s1;
          let (now, s3) = mfc0_volatile CP0_COUNT s2;
          let past = timer_past s3;
          let diff_time = guest_tick_diff past now;
          Some (if QUEST_TICK_INTERVAL (conf s3) \<le> diff_time
                then (setGuestCTL2 (getGuestCTL2 s3 OR push_bit GUESTCLT2_GRIPL_SHIFT (GUEST_TIMER_INT PIC32MZ)) s3)
                       \<lparr>timer_past := now\<rparr>
                else s3) }"

definition start_timer :: "hv \<Rightarrow> hv" where
  "start_timer s =
     (let (offset, s1) = register_interrupt I_timer_interrupt_handler s;
          s2 = sfr_write (PIC32MZ_PBASE 0x10540) offset s1;
          s3 = sfr_write (IPC 0) 0x1F s2;
          s4 = sfr_write (IFSCLR 0) 1 s3;
          s5 = sfr_write (IECSET 0) 1 s4;
          (count, s6) = mfc0_volatile CP0_COUNT s5
      in (mtc0 CP0_COMPARE 0 (count + 10000) s6)\<lparr>ie := True\<rparr>)"

definition calc_next_timer_interrupt_baikal :: "u32 \<Rightarrow> hv \<Rightarrow> hv" where
  "calc_next_timer_interrupt_baikal interval s =
     (let (count, s1) = mfc0_volatile CP0_COUNT s in mtc0 CP0_COMPARE 0 (count + interval) s1)"

definition timer_interrupt_handler_baikal :: "hv \<Rightarrow> hv option" where
  "timer_interrupt_handler_baikal s =
     run_scheduler (calc_next_timer_interrupt_baikal (SYSTEM_TICK_INTERVAL (conf s)) s)"

definition start_timer_baikal :: "hv \<Rightarrow> hv" where
  "start_timer_baikal s =
     (let (r, s1) = register_interrupt_baikal I_timer_interrupt_handler 4 s;
          s2 = mtc0 CP0_STATUS 0 (mfc0 CP0_STATUS 0 s1 OR push_bit 8 0x10) s1;
          s3 = sfr_write (0xBBDC8000 + 0x48) 0x80000002 s2;
          s4 = mtc0 CP0_COMPARE 0 1000000 (mtc0 CP0_COUNT 0 0 s3)
      in s4\<lparr>ie := True\<rparr>)"

text \<open>The 64-bit GIC counter.\<close>

definition read64_counter :: "hv \<Rightarrow> u64 \<times> hv" where
  "read64_counter s =
     (let (hi, s1) = sfr_read 0xBBDC0014 s; (lo, s2) = sfr_read 0xBBDC0010 s1
      in (push_bit 32 (ucast hi) OR ucast lo, s2))"

definition write64_compare :: "u64 \<Rightarrow> hv \<Rightarrow> hv" where
  "write64_compare compare s =
     sfr_write 0xBBDC80A0 (ucast (compare AND 0xFFFFFFFF)) (sfr_write 0xBBDC80A4 (ucast (drop_bit 32 compare)) s)"

subsection \<open>The tick\<close>

lemma calc_next_timer_quiet:
  "quiet s (calc_next_timer_interrupt n s)" "quiet s (calc_next_timer_interrupt_baikal n s)"
proof -
  obtain c u where u: "mfc0_volatile CP0_COUNT s = (c, u)" by fastforce
  have "quiet s (mtc0 CP0_COMPARE 0 (c + n) u)" by (rule quiet_trans [OF volatile_quiet [OF u] mtc0_quiet(1)])
  then show "quiet s (calc_next_timer_interrupt n s)" "quiet s (calc_next_timer_interrupt_baikal n s)"
    using quiet_trans [OF _ sfr_quiet(1)] u
    by (simp_all add: calc_next_timer_interrupt_def calc_next_timer_interrupt_baikal_def Let_def)
qed

lemma calc_next_timer_compare:
  "mfc0 CP0_COMPARE 0 (calc_next_timer_interrupt n s) = volatile_cp0 (conf s) (vol_n s) CP0_COUNT + n"
  by (simp add: calc_next_timer_interrupt_def mfc0_volatile_def sfr_write_def dev_write_def mfc0_def mtc0_def)

lemma kstate_krel: "krel s t \<Longrightarrow> kstate s \<Longrightarrow> kstate t"
  by (simp add: krel_def)

lemma run_scheduler_krel: "run_scheduler s = Some t \<Longrightarrow> kstate s \<Longrightarrow> krel s t"
  by (rule run_scheduler_kstate [of s]) (use run_scheduler_fixed [of s t] in \<open>auto simp: krel_def fixed_def\<close>)

text \<open>The two handlers always return, in a state as good as the one they found.\<close>

lemma timer_interrupt_handler_ok:
  assumes "kstate s"
  obtains t where "timer_interrupt_handler s = Some t" "krel s t"
proof -
  let ?s1 = "calc_next_timer_interrupt (SYSTEM_TICK_INTERVAL (conf s)) s"
  have k1: "krel s ?s1" by (rule quiet_krel [OF calc_next_timer_quiet(1)])
  obtain s2 where s2: "run_scheduler ?s1 = Some s2" by (rule run_scheduler_kstate [OF kstate_krel [OF k1 assms]])
  have k2: "krel s s2" by (rule krel_trans [OF k1 run_scheduler_krel [OF s2 kstate_krel [OF k1 assms]]])
  obtain now s3 where s3: "mfc0_volatile CP0_COUNT s2 = (now, s3)" by fastforce
  have k3: "krel s s3" by (rule krel_quiet_trans(1) [OF k2 volatile_quiet [OF s3]])
  define d where "d = guest_tick_diff (timer_past s3) now"
  define u where "u = (setGuestCTL2 (getGuestCTL2 s3 OR push_bit GUESTCLT2_GRIPL_SHIFT (GUEST_TIMER_INT PIC32MZ)) s3)\<lparr>timer_past := now\<rparr>"
  have "krel s u"
    unfolding u_def setGuestCTL2_def
    by (rule krel_quiet_trans(1) [OF k3 quiet_trans [OF mtc0_quiet(1) quiet_upd(11)]])
  moreover have "timer_interrupt_handler s = Some (if QUEST_TICK_INTERVAL (conf s3) \<le> d then u else s3)"
    by (simp add: timer_interrupt_handler_def s2 s3 d_def u_def Let_def)
  ultimately show thesis using k3 that by (cases "QUEST_TICK_INTERVAL (conf s3) \<le> d") simp_all
qed

lemma timer_interrupt_handler_baikal_ok:
  assumes "kstate s"
  obtains t where "timer_interrupt_handler_baikal s = Some t" "krel s t"
proof -
  let ?s1 = "calc_next_timer_interrupt_baikal (SYSTEM_TICK_INTERVAL (conf s)) s"
  have k1: "krel s ?s1" by (rule quiet_krel [OF calc_next_timer_quiet(2)])
  obtain s2 where s2: "run_scheduler ?s1 = Some s2" by (rule run_scheduler_kstate [OF kstate_krel [OF k1 assms]])
  have "krel s s2" by (rule krel_trans [OF k1 run_scheduler_krel [OF s2 kstate_krel [OF k1 assms]]])
  then show thesis using that s2 by (simp add: timer_interrupt_handler_baikal_def)
qed

text \<open>The time since the last guest tick is one count short when the counter wrapped.\<close>

lemma guest_tick_diff_eq: "guest_tick_diff past now = now - past - (if past \<le> now then 0 else 1)"
proof -
  have e: "(0xFFFFFFFF :: u32) = - 1" by simp
  show ?thesis unfolding guest_tick_diff_def e by (simp add: algebra_simps)
qed

text \<open>The two halves of the 64-bit compare register carry the whole value.\<close>

lemma split64:
  fixes c :: u64
  shows "(push_bit 32 (ucast (ucast (drop_bit 32 c) :: u32)) :: u64) OR ucast (ucast (c AND 0xFFFFFFFF) :: u32) = c"
proof -
  have m: "0xFFFFFFFF = (mask 32 :: u64)" by (simp add: mask_eq_exp_minus_1)
  show ?thesis unfolding m by (rule bit_word_eqI) (auto simp: bit_simps)
qed

end
