(* ===== verification/SfrBits.thy ===== *)
theory SfrBits
  imports FlashPerf Timer
begin

text \<open>
  Bit fields of device registers, as \<open>pic32mz.h\<close> declares them: a field that fills an aligned byte
  is read and written as that byte, any other is written by a read-modify-write of its word. The
  offsets are the positions of the fields in the unions.
\<close>

definition field_get :: "u32 \<Rightarrow> nat \<Rightarrow> nat \<Rightarrow> hv \<Rightarrow> u32 \<times> hv" where
  "field_get a pos width s =
     (let (v, s1) = sfr_read a s in (drop_bit pos v AND mask width, s1))"

definition field_set :: "u32 \<Rightarrow> nat \<Rightarrow> nat \<Rightarrow> u32 \<Rightarrow> hv \<Rightarrow> hv" where
  "field_set a pos width x s =
     (let (v, s1) = sfr_read a s
      in sfr_write a ((v AND NOT (push_bit pos (mask width))) OR push_bit pos (x AND mask width)) s1)"

definition byte_get :: "u32 \<Rightarrow> hv \<Rightarrow> u32 \<times> hv" where
  "byte_get a s = (let (v, s1) = sfr_read a s in (v AND 0xFF, s1))"

definition byte_set :: "u32 \<Rightarrow> u32 \<Rightarrow> hv \<Rightarrow> hv" where
  "byte_set a x s = sfr_write a (x AND 0xFF) s"

definition sfr_or :: "u32 \<Rightarrow> u32 \<Rightarrow> hv \<Rightarrow> hv" where
  "sfr_or a x s = (let (v, s1) = sfr_read a s in sfr_write a (v OR x) s1)"

text \<open>The bytes of a little-endian half word and word.\<close>

definition bytes16 :: "u16 \<Rightarrow> u8 list" where
  "bytes16 x = [ucast x, ucast (drop_bit 8 x)]"

definition bytes32 :: "u32 \<Rightarrow> u8 list" where
  "bytes32 x = [ucast x, ucast (drop_bit 8 x), ucast (drop_bit 16 x), ucast (drop_bit 24 x)]"

definition word16 :: "u8 list \<Rightarrow> nat \<Rightarrow> u16" where
  "word16 bs i = ucast (bs ! i) OR push_bit 8 (ucast (bs ! Suc i))"

text \<open>
  The number of bytes \<open>memcpy\<close> of \<open>libc.c\<close> copies: its counter is signed, and it counts words when
  both pointers and the length are aligned.
\<close>

definition copy_count :: "u32 \<Rightarrow> u32 \<Rightarrow> u32 \<Rightarrow> nat" where
  "copy_count dst src bytes =
     (if (dst OR src OR bytes) AND 3 \<noteq> 0 then loop_count bytes
      else 4 * loop_count (drop_bit 2 bytes))"

lemma field_quiet [quiet_intros]:
  "field_get a p w s = (v, t) \<Longrightarrow> quiet s t" "byte_get a s = (v, t) \<Longrightarrow> quiet s t"
  "quiet s (field_set a p w x s)" "quiet s (byte_set a x s)" "quiet s (sfr_or a x s)"
proof -
  have rmw: "quiet s (case sfr_read a s of (v, s1) \<Rightarrow> sfr_write a (f v) s1)" for f
    by (cases "sfr_read a s") (auto intro: quiet_trans [OF sfr_quiet(2) sfr_quiet(1)])
  show "quiet s (field_set a p w x s)" "quiet s (sfr_or a x s)"
    unfolding field_set_def sfr_or_def Let_def by (rule rmw)+
  show "quiet s (byte_set a x s)" by (simp add: byte_set_def sfr_quiet(1))
  show "field_get a p w s = (v, t) \<Longrightarrow> quiet s t" "byte_get a s = (v, t) \<Longrightarrow> quiet s t"
    by (auto simp: field_get_def byte_get_def split: prod.splits dest: sfr_quiet(2))
qed

lemma copy_count_small:
  assumes "bytes < 0x80000000"
  shows "copy_count d s bytes = unat bytes"
proof -
  note l = loop_count_small
  have b: "unat bytes < 2 ^ 31" using assms by (simp add: word_less_nat_alt)
  have e: "4 * (unat bytes div 4) = unat bytes" if "(d OR s OR bytes) AND 3 = 0"
  proof -
    have "bytes AND 3 = 0" using that by (simp add: bit.conj_disj_distrib2 or_eq_0_iff)
    then show ?thesis by (simp add: and_3_eq_0_dvd)
  qed
  have q: "unat (drop_bit 2 bytes) = unat bytes div 4" by (simp add: unat_div drop_bit_eq_div)
  show ?thesis
    using b l [of bytes] l [of "drop_bit 2 bytes"] e q by (auto simp: copy_count_def)
qed

end
