(* ===== verification/Ethernet.thy ===== *)
theory Ethernet
  imports SfrBits
begin

text \<open>
  The Ethernet driver of the PIC32MZ port, \<open>drivers/pic32mz-ethernet.c\<close> with its header: access to the
  PHY through the management interface, set-up of the controller and of the descriptor ring, reception
  and transmission of frames, the link watchdog and the four hypercalls. Descriptors and frame buffers
  are in RAM; the controller's own writes to them happen between the entries of the hypervisor.
\<close>

subsection \<open>Registers and macros\<close>

abbreviation (input) ETHCON1 :: u32 where "ETHCON1 \<equiv> 0xBF882000"
abbreviation (input) ETHCON1CLR :: u32 where "ETHCON1CLR \<equiv> 0xBF882004"
abbreviation (input) ETHCON1SET :: u32 where "ETHCON1SET \<equiv> 0xBF882008"
abbreviation (input) ETHCON2 :: u32 where "ETHCON2 \<equiv> 0xBF882010"
abbreviation (input) ETHTXST :: u32 where "ETHTXST \<equiv> 0xBF882020"
abbreviation (input) ETHRXST :: u32 where "ETHRXST \<equiv> 0xBF882030"
abbreviation (input) ETHHT0 :: u32 where "ETHHT0 \<equiv> 0xBF882040"
abbreviation (input) ETHHT1 :: u32 where "ETHHT1 \<equiv> 0xBF882050"
abbreviation (input) ETHPMM0 :: u32 where "ETHPMM0 \<equiv> 0xBF882060"
abbreviation (input) ETHPMM1 :: u32 where "ETHPMM1 \<equiv> 0xBF882070"
abbreviation (input) ETHPMCS :: u32 where "ETHPMCS \<equiv> 0xBF882080"
abbreviation (input) ETHRXFC :: u32 where "ETHRXFC \<equiv> 0xBF8820A0"
abbreviation (input) ETHRXWM :: u32 where "ETHRXWM \<equiv> 0xBF8820B0"
abbreviation (input) ETHIEN :: u32 where "ETHIEN \<equiv> 0xBF8820C0"
abbreviation (input) ETHIENSET :: u32 where "ETHIENSET \<equiv> 0xBF8820C8"
abbreviation (input) ETHIRQ :: u32 where "ETHIRQ \<equiv> 0xBF8820D0"
abbreviation (input) ETHIRQCLR :: u32 where "ETHIRQCLR \<equiv> 0xBF8820D4"
abbreviation (input) ETHSTAT :: u32 where "ETHSTAT \<equiv> 0xBF8820E0"
abbreviation (input) EMAC1CFG1 :: u32 where "EMAC1CFG1 \<equiv> 0xBF882200"
abbreviation (input) EMAC1CFG2 :: u32 where "EMAC1CFG2 \<equiv> 0xBF882210"
abbreviation (input) EMAC1CFG2CLR :: u32 where "EMAC1CFG2CLR \<equiv> 0xBF882214"
abbreviation (input) EMAC1CFG2SET :: u32 where "EMAC1CFG2SET \<equiv> 0xBF882218"
abbreviation (input) EMAC1IPGT :: u32 where "EMAC1IPGT \<equiv> 0xBF882220"
abbreviation (input) EMAC1IPGR :: u32 where "EMAC1IPGR \<equiv> 0xBF882230"
abbreviation (input) EMAC1CLRT :: u32 where "EMAC1CLRT \<equiv> 0xBF882240"
abbreviation (input) EMAC1MAXF :: u32 where "EMAC1MAXF \<equiv> 0xBF882250"
abbreviation (input) EMAC1SUPP :: u32 where "EMAC1SUPP \<equiv> 0xBF882260"
abbreviation (input) EMAC1SUPPCLR :: u32 where "EMAC1SUPPCLR \<equiv> 0xBF882264"
abbreviation (input) EMAC1SUPPSET :: u32 where "EMAC1SUPPSET \<equiv> 0xBF882268"
abbreviation (input) EMAC1MCFG :: u32 where "EMAC1MCFG \<equiv> 0xBF882280"
abbreviation (input) EMAC1MCMD :: u32 where "EMAC1MCMD \<equiv> 0xBF882290"
abbreviation (input) EMAC1MCMDSET :: u32 where "EMAC1MCMDSET \<equiv> 0xBF882298"
abbreviation (input) EMAC1MADR :: u32 where "EMAC1MADR \<equiv> 0xBF8822A0"
abbreviation (input) EMAC1MWTD :: u32 where "EMAC1MWTD \<equiv> 0xBF8822B0"
abbreviation (input) EMAC1MRDD :: u32 where "EMAC1MRDD \<equiv> 0xBF8822C0"
abbreviation (input) EMAC1MIND :: u32 where "EMAC1MIND \<equiv> 0xBF8822D0"
abbreviation (input) EMAC1SA0 :: u32 where "EMAC1SA0 \<equiv> 0xBF882300"
abbreviation (input) EMAC1SA1 :: u32 where "EMAC1SA1 \<equiv> 0xBF882310"
abbreviation (input) EMAC1SA2 :: u32 where "EMAC1SA2 \<equiv> 0xBF882320"

abbreviation (input) ETH_RXEN :: u32 where "ETH_RXEN \<equiv> 0x100"
abbreviation (input) ETH_TXRTS :: u32 where "ETH_TXRTS \<equiv> 0x200"
abbreviation (input) MIIMBUSY :: u32 where "MIIMBUSY \<equiv> 1"
abbreviation (input) NOTVALID :: u32 where "NOTVALID \<equiv> 4"
abbreviation (input) MTU :: u32 where "MTU \<equiv> 1536"
abbreviation (input) RX_DESCRIPTORS :: u32 where "RX_DESCRIPTORS \<equiv> 48"
abbreviation (input) RX_BYTES_PER_DESC :: u32 where "RX_BYTES_PER_DESC \<equiv> 128"
abbreviation (input) PHY_CONTROL :: u32 where "PHY_CONTROL \<equiv> 0"
abbreviation (input) PHY_STATUS :: u32 where "PHY_STATUS \<equiv> 1"
abbreviation (input) PHY_ADVRT :: u32 where "PHY_ADVRT \<equiv> 4"

text \<open>\<open>OFF\<close> of the interrupt 153, the vector offset register.\<close>

abbreviation (input) ETH_OFF :: u32 where "ETH_OFF \<equiv> 0xBF8107A4"

definition MACH_VIRT_TO_PHYS :: "u32 \<Rightarrow> u32" where
  "MACH_VIRT_TO_PHYS x = x AND 0x1FFFFFFF"

definition MACH_PHYS_TO_VIRT :: "u32 \<Rightarrow> u32" where
  "MACH_PHYS_TO_VIRT x = x OR 0xA0000000"

definition INCR_RX_INDEX :: "u32 \<Rightarrow> u32" where
  "INCR_RX_INDEX i = (i + 1) mod RX_DESCRIPTORS"

text \<open>A sequence of register writes.\<close>

fun sfr_writes :: "(u32 \<times> u32) list \<Rightarrow> hv \<Rightarrow> hv" where
  "sfr_writes [] s = s"
| "sfr_writes ((a, v) # ws) s = sfr_writes ws (sfr_write a v s)"

definition set_eth :: "(eth_statics \<Rightarrow> eth_statics) \<Rightarrow> hv \<Rightarrow> hv" where
  "set_eth f s = s\<lparr>eth := f (eth s)\<rparr>"

definition set_port :: "(eth_port \<Rightarrow> eth_port) \<Rightarrow> hv \<Rightarrow> hv" where
  "set_port f s = set_eth (\<lambda>x. x\<lparr>eth_port := f (eth_port x)\<rparr>) s"

text \<open>The statics before \<open>en_init\<close>: zero.\<close>

definition eth_reset :: eth_statics where
  "eth_reset = \<lparr>eth_port = \<lparr>macaddr = replicate 6 0, is_up = 0, phy_addr = 0, phy_id = 0, rx_buf = 0, rx_desc = 0,
     tx_desc = 0\<rparr>, receive_index = 0, read_index = 0, desc_offset = 0, frame_size = 0, read_nbytes = 0, eth_vcpu = None,
     b_buf = replicate 10 \<lparr>fb_used = 0, fb_size = 0\<rparr>,
     VMCTRLbuf = replicate 2 \<lparr>cb_vm_id = 0, cb_mac = replicate 6 0, cb_input = 0, cb_output = 0, frame_list = replicate 10 None\<rparr>,
     number_used_buffers = 0, vm_counter = 0\<rparr>"

subsection \<open>Descriptors\<close>

text \<open>Four words in RAM: header, address of the data, control, status.\<close>

definition hdr_or :: "u32 \<Rightarrow> u32 \<Rightarrow> hv \<Rightarrow> hv option" where
  "hdr_or d bits s = do { (h, s1) \<leftarrow> ld32 d s; st32 d (h OR bits) s1 }"

definition DESC_SET_SOP :: "u32 \<Rightarrow> hv \<Rightarrow> hv option" where
  "DESC_SET_SOP d s = hdr_or d 0x80000000 s"

definition DESC_EOP :: "u32 \<Rightarrow> hv \<Rightarrow> (u32 \<times> hv) option" where
  "DESC_EOP d s = do { (h, s1) \<leftarrow> ld32 d s; Some (h AND 0x40000000, s1) }"

definition DESC_SET_EOP :: "u32 \<Rightarrow> hv \<Rightarrow> hv option" where
  "DESC_SET_EOP d s = hdr_or d 0x40000000 s"

definition DESC_BYTECNT :: "u32 \<Rightarrow> hv \<Rightarrow> (u32 \<times> hv) option" where
  "DESC_BYTECNT d s = do { (h, s1) \<leftarrow> ld32 d s; Some (drop_bit 16 h AND 0x7FF, s1) }"

definition DESC_SET_BYTECNT :: "u32 \<Rightarrow> u32 \<Rightarrow> hv \<Rightarrow> hv option" where
  "DESC_SET_BYTECNT d n s =
     do { (h, s1) \<leftarrow> ld32 d s; st32 d ((h AND NOT 0x7FF0000) OR push_bit 16 n) s1 }"

definition DESC_SET_NPV :: "u32 \<Rightarrow> hv \<Rightarrow> hv option" where
  "DESC_SET_NPV d s = hdr_or d 0x100 s"

definition DESC_CLEAR_NPV :: "u32 \<Rightarrow> hv \<Rightarrow> hv option" where
  "DESC_CLEAR_NPV d s = do { (h, s1) \<leftarrow> ld32 d s; st32 d (h AND NOT 0x100) s1 }"

definition DESC_EOWN :: "u32 \<Rightarrow> hv \<Rightarrow> (u32 \<times> hv) option" where
  "DESC_EOWN d s = do { (h, s1) \<leftarrow> ld32 d s; Some (h AND 0x80, s1) }"

definition DESC_SET_EOWN :: "u32 \<Rightarrow> hv \<Rightarrow> hv option" where
  "DESC_SET_EOWN d s = hdr_or d 0x80 s"

definition DESC_FRAMESZ :: "u32 \<Rightarrow> hv \<Rightarrow> (u32 \<times> hv) option" where
  "DESC_FRAMESZ d s = do { (w, s1) \<leftarrow> ld32 (d + 12) s; Some (w AND 0xFFFF, s1) }"

text \<open>\<open>&e->rx_desc[i]\<close>.\<close>

definition rx_desc_at :: "u32 \<Rightarrow> hv \<Rightarrow> u32" where
  "rx_desc_at i s = rx_desc (eth_port (eth s)) + 16 * i"

subsection \<open>memcpy on the memory of the machine\<close>

fun copy8 :: "nat \<Rightarrow> u32 \<Rightarrow> u32 \<Rightarrow> hv \<Rightarrow> hv option" where
  "copy8 0 dst src s = Some s"
| "copy8 (Suc n) dst src s =
     do { (b, s1) \<leftarrow> ld8 src s; s2 \<leftarrow> st8 dst b s1; copy8 n (dst + 1) (src + 1) s2 }"

fun copy32 :: "nat \<Rightarrow> u32 \<Rightarrow> u32 \<Rightarrow> hv \<Rightarrow> hv option" where
  "copy32 0 dst src s = Some s"
| "copy32 (Suc n) dst src s =
     do { (w, s1) \<leftarrow> ld32 src s; s2 \<leftarrow> st32 dst w s1; copy32 n (dst + 4) (src + 4) s2 }"

definition memcpy_hv :: "u32 \<Rightarrow> u32 \<Rightarrow> u32 \<Rightarrow> hv \<Rightarrow> hv option" where
  "memcpy_hv dst src bytes s =
     (if (dst OR src OR bytes) AND 3 \<noteq> 0 then copy8 (loop_count bytes) dst src s
      else copy32 (loop_count (drop_bit 2 bytes)) dst src s)"

subsection \<open>Access to the PHY\<close>

text \<open>
  The loops that poll a register while some bits are set, until a timeout measured by the counter:
  false is the timeout. The loops without a timeout poll for ever.
\<close>

partial_function (option) busy_wait :: "u32 \<Rightarrow> u32 \<Rightarrow> u32 \<Rightarrow> u32 \<Rightarrow> hv \<Rightarrow> (bool \<times> hv) option" where
  "busy_wait reg bits time_start timeout s =
     (let (v, s1) = sfr_read reg s in
      if v AND bits = 0 then Some (True, s1)
      else let (now, s2) = mfc0_volatile CP0_COUNT s1 in
           if timeout < now - time_start then Some (False, s2)
           else busy_wait reg bits time_start timeout s2)"

partial_function (option) mask_wait :: "u32 \<Rightarrow> u32 \<Rightarrow> u32 \<Rightarrow> u32 \<Rightarrow> hv \<Rightarrow> (bool \<times> hv) option" where
  "mask_wait scan_mask expected_value time_start timeout s =
     (let (v, s1) = sfr_read EMAC1MRDD s in
      if (if v AND scan_mask = scan_mask then 1 else 0) = expected_value then Some (True, s1)
      else let (now, s2) = mfc0_volatile CP0_COUNT s1 in
           if timeout < now - time_start then Some (False, s2)
           else mask_wait scan_mask expected_value time_start timeout s2)"

partial_function (option) wait_clear :: "u32 \<Rightarrow> u32 \<Rightarrow> hv \<Rightarrow> hv option" where
  "wait_clear reg bits s =
     (let (v, s1) = sfr_read reg s in if v AND bits = 0 then Some s1 else wait_clear reg bits s1)"

definition delay_ms :: "u32 \<Rightarrow> hv \<Rightarrow> hv option" where
  "delay_ms x s = udelay (x * 1000) s"

definition phy_timeout :: "u32 \<Rightarrow> hv \<Rightarrow> u32" where
  "phy_timeout msec s = msec * (CPU_SPEED (conf s) div 2000)"

definition phy_read :: "u32 \<Rightarrow> u32 \<Rightarrow> u32 \<Rightarrow> hv \<Rightarrow> (u32 \<times> hv) option" where
  "phy_read addr reg_num msec s =
     do { let (time_start, s1) = mfc0_volatile CP0_COUNT s;
          let timeout = phy_timeout msec s1;
          (ok, s2) \<leftarrow> busy_wait EMAC1MIND MIIMBUSY time_start timeout (sfr_write EMAC1MCMD 0 s1);
          if \<not> ok then Some (- 1, s2)
          else
            do { let s3 = sfr_writes [(EMAC1MADR, push_bit 8 addr OR reg_num), (EMAC1MCMDSET, 1)] s2;
                 s4 \<leftarrow> delay_ms 1 s3;
                 let (time_start, s5) = mfc0_volatile CP0_COUNT s4;
                 (ok, s6) \<leftarrow> busy_wait EMAC1MIND MIIMBUSY time_start timeout s5;
                 let s7 = sfr_write EMAC1MCMD 0 s6;
                 if \<not> ok then Some (- 1, s7)
                 else do { let (v, s8) = sfr_read EMAC1MRDD s7; Some (v AND 0xFFFF, s8) } } }"

definition phy_scan :: "u32 \<Rightarrow> u32 \<Rightarrow> u32 \<Rightarrow> u32 \<Rightarrow> u32 \<Rightarrow> hv \<Rightarrow> (u32 \<times> hv) option" where
  "phy_scan addr reg_num scan_mask expected_value msec s =
     do { let (time_start, s1) = mfc0_volatile CP0_COUNT s;
          let timeout = phy_timeout msec s1;
          (ok, s2) \<leftarrow> busy_wait EMAC1MIND MIIMBUSY time_start timeout (sfr_write EMAC1MCMD 0 s1);
          if \<not> ok then Some (- 1, s2)
          else
            do { s3 \<leftarrow> delay_ms 1 (sfr_writes [(EMAC1MADR, push_bit 8 addr OR reg_num), (EMAC1MCMDSET, 2)] s2);
                 let (time_start, s4) = mfc0_volatile CP0_COUNT s3;
                 (ok, s5) \<leftarrow> busy_wait EMAC1MIND NOTVALID time_start timeout s4;
                 if \<not> ok then Some (- 1, s5)
                 else
                   do { let (time_start, s6) = mfc0_volatile CP0_COUNT s5;
                        (ok, s7) \<leftarrow> mask_wait scan_mask expected_value time_start timeout s6;
                        if \<not> ok then Some (- 1, s7)
                        else
                          do { s8 \<leftarrow> delay_ms 1 (sfr_write EMAC1MCMD 0 s7);
                               let (time_start, s9) = mfc0_volatile CP0_COUNT s8;
                               (ok, s10) \<leftarrow> busy_wait EMAC1MIND MIIMBUSY time_start timeout s9;
                               Some (if ok then 0 else - 1, s10) } } } }"

definition phy_write :: "u32 \<Rightarrow> u32 \<Rightarrow> u32 \<Rightarrow> u32 \<Rightarrow> hv \<Rightarrow> (u32 \<times> hv) option" where
  "phy_write addr reg_num val msec s =
     do { let (time_start, s1) = mfc0_volatile CP0_COUNT s;
          let timeout = phy_timeout msec s1;
          (ok, s2) \<leftarrow> busy_wait EMAC1MIND MIIMBUSY time_start timeout (sfr_write EMAC1MCMD 0 s1);
          if \<not> ok then Some (- 1, s2)
          else
            do { s3 \<leftarrow> delay_ms 1 (sfr_writes [(EMAC1MADR, push_bit 8 addr OR reg_num), (EMAC1MWTD, val)] s2);
                 let (time_start, s4) = mfc0_volatile CP0_COUNT s3;
                 (ok, s5) \<leftarrow> busy_wait EMAC1MIND MIIMBUSY time_start timeout s4;
                 Some (if ok then 0 else - 1, s5) } }"

abbreviation (input) advertise_all :: u32 where "advertise_all \<equiv> 0x1E0"

definition phy_reset :: "u32 \<Rightarrow> hv \<Rightarrow> (u32 \<times> hv) option" where
  "phy_reset addr s =
     do { (_, s1) \<leftarrow> phy_write addr PHY_ADVRT 0 100 s;
          (advrt, s2) \<leftarrow> phy_read addr PHY_ADVRT 1 s1;
          if advrt AND advertise_all \<noteq> 0 then Some (- 1, s2)
          else
            do { (_, s3) \<leftarrow> phy_write addr PHY_ADVRT (1 OR advertise_all) 100 s2;
                 (advrt, s4) \<leftarrow> phy_read addr PHY_ADVRT 1 s3;
                 if advrt AND advertise_all \<noteq> advertise_all then Some (- 1, s4)
                 else
                   do { (r, s5) \<leftarrow> phy_write addr PHY_CONTROL 0x8000 100 s4;
                        if r <s 0 then Some (- 1, s5)
                        else
                          do { (r, s6) \<leftarrow> phy_scan addr PHY_CONTROL 0x8000 0 500 s5;
                               if r <s 0 then Some (- 1, s6)
                               else
                                 do { (_, s7) \<leftarrow> phy_write addr PHY_ADVRT (1 OR advertise_all) 100 s6;
                                      (_, s8) \<leftarrow> phy_write addr PHY_CONTROL (0x1000 OR 0x200) 100 s7;
                                      Some (0, s8) } } } } }"

text \<open>The speed and the duplex mode are the caller's variables: kept when the negotiation is not done.\<close>

definition phy_lan87x0a_poll :: "u32 \<Rightarrow> bool \<Rightarrow> bool \<Rightarrow> hv \<Rightarrow> (bool \<times> bool \<times> hv) option" where
  "phy_lan87x0a_poll addr speed_100 full_duplex s =
     do { (special, s1) \<leftarrow> phy_read addr 31 1 s;
          Some (if special AND 0x1000 \<noteq> 0 then (special AND 8 \<noteq> 0, special AND 0x10 \<noteq> 0, s1)
                else (speed_100, full_duplex, s1)) }"

definition is_phy_linked :: "u32 \<Rightarrow> bool \<Rightarrow> bool \<Rightarrow> hv \<Rightarrow> (u32 \<times> bool \<times> bool \<times> hv) option" where
  "is_phy_linked addr speed_100 full_duplex s =
     do { (status, s1) \<leftarrow> phy_read addr PHY_STATUS 1 s;
          if status <s 0 then Some (0, speed_100, full_duplex, s1)
          else if status AND 4 = 0 then Some (0, speed_100, full_duplex, s1)
          else if status AND 0x20 = 0 then Some (0, speed_100, full_duplex, s1)
          else do { (sp, fd, s2) \<leftarrow> phy_lan87x0a_poll addr speed_100 full_duplex s1; Some (1, sp, fd, s2) } }"

subsection \<open>Set-up of the controller\<close>

text \<open>The receive filter is the only difference between the drivers for one and for several VMs.\<close>

definition en_setup :: "u32 \<Rightarrow> hv \<Rightarrow> hv option" where
  "en_setup rx_filter s =
     do { s1 \<leftarrow> wait_clear ETHSTAT 0x80 (sfr_writes [(IECCLR 4, push_bit 25 1), (ETHCON1CLR, 0x8000 OR ETH_RXEN OR ETH_TXRTS)] s);
          Some (sfr_writes
            [(IFSCLR 4, push_bit 25 1), (ETHIEN, 0), (ETHIRQ, 0), (ETHTXST, 0), (ETHRXST, 0),
             (ETHRXWM, push_bit 16 (RX_DESCRIPTORS - (MTU * 2) div RX_BYTES_PER_DESC) OR (MTU div RX_BYTES_PER_DESC)),
             (ETHCON2, RX_BYTES_PER_DESC), (ETHRXFC, rx_filter),
             (ETHHT0, 0), (ETHHT1, 0), (ETHPMM0, 0), (ETHPMM1, 0), (ETHPMCS, 0), (ETHCON1, 0x8000)] s1) }"

definition en_setup_mac :: "hv \<Rightarrow> hv option" where
  "en_setup_mac s =
     do { s1 \<leftarrow> delay_ms 1 (sfr_write EMAC1CFG1 0x8000 s);
          s2 \<leftarrow> delay_ms 1 (sfr_write EMAC1CFG1 0 s1);
          Some (sfr_writes
            [(EMAC1CFG1, 1 OR 8 OR 4), (EMAC1CFG2, 0x20 OR 0x10 OR 0x4000 OR 0x80 OR 2), (EMAC1MAXF, 1518),
             (EMAC1IPGR, push_bit 8 12 OR 18), (EMAC1CLRT, push_bit 8 55 OR 15)] s2) }"

definition en_setup_rmii :: "hv \<Rightarrow> hv option" where
  "en_setup_rmii s =
     do { s1 \<leftarrow> delay_ms 1 (sfr_write EMAC1SUPP 0x800 s);
          s2 \<leftarrow> delay_ms 1 (sfr_writes [(EMAC1SUPP, 0), (EMAC1MCFG, 0x8000)] s1);
          Some (sfr_writes [(EMAC1MCFG, 0), (EMAC1MCFG, 0x20)] s2) }"

definition ethernet_interrupt_handler :: "hv \<Rightarrow> hv option" where
  "ethernet_interrupt_handler s =
     do { p \<leftarrow> eth_vcpu (eth s);
          s1 \<leftarrow> fast_interrupt_delivery p s;
          let (irq, s2) = sfr_read ETHIRQ (sfr_write (IFSCLR 4) (push_bit 25 1) s1);
          Some (sfr_write ETHIRQCLR irq s2) }"

definition en_enable_interrupts :: "hv \<Rightarrow> hv" where
  "en_enable_interrupts s =
     (let (offset, s1) = register_interrupt I_ethernet_interrupt_handler s;
          s2 = sfr_writes [(ETH_OFF, offset), (ETHIENSET, 0x80), (IPCSET 38, 0x1F00), (IFSCLR 4, push_bit 25 1)] s1;
          (irq, s3) = sfr_read ETHIRQ s2
      in sfr_writes [(ETHIRQCLR, irq), (IECSET 4, push_bit 25 1)] s3)"

text \<open>The loop of \<open>en_setup_dma\<close> over the descriptors.\<close>

fun setup_rx_descs :: "u32 list \<Rightarrow> hv \<Rightarrow> hv option" where
  "setup_rx_descs [] s = Some s"
| "setup_rx_descs (i # is) s =
     do { let d = rx_desc_at i s;
          s1 \<leftarrow> DESC_SET_EOWN d s;
          s2 \<leftarrow> DESC_CLEAR_NPV d s1;
          s3 \<leftarrow> st32 (d + 4) (MACH_VIRT_TO_PHYS (rx_buf (eth_port (eth s2)) + i * RX_BYTES_PER_DESC)) s2;
          setup_rx_descs is s3 }"

definition en_setup_dma :: "hv \<Rightarrow> hv option" where
  "en_setup_dma s =
     do { s1 \<leftarrow> st_bytes (rx_desc_at 0 s) (replicate (49 * 16) 0) s;
          s2 \<leftarrow> setup_rx_descs (map of_nat [0..<48]) s1;
          s3 \<leftarrow> st32 (rx_desc_at RX_DESCRIPTORS s2) (MACH_VIRT_TO_PHYS (rx_desc_at 0 s2)) s2;
          s4 \<leftarrow> DESC_SET_NPV (rx_desc_at (RX_DESCRIPTORS - 1) s3) s3;
          let s5 = set_eth (\<lambda>x. x\<lparr>receive_index := 0\<rparr>) s4;
          let s6 = sfr_write ETHRXST (MACH_VIRT_TO_PHYS (rx_desc_at 0 s5)) s5;
          let tx = tx_desc (eth_port (eth s6));
          s7 \<leftarrow> st_bytes tx (replicate (7 * 16) 0) s6;
          Some (sfr_write ETHTXST (MACH_VIRT_TO_PHYS tx) s7) }"

subsection \<open>Reception and transmission\<close>

text \<open>The first loop of \<open>en_ll_input\<close>: the frame is copied descriptor by descriptor.\<close>

partial_function (option) rx_copy :: "u32 \<Rightarrow> hv \<Rightarrow> hv option" where
  "rx_copy buf s =
     (if frame_size (eth s) = 0 then Some s
      else
        do { let d = rx_desc_at (read_index (eth s)) s;
             (own, s1) \<leftarrow> DESC_EOWN d s;
             if own \<noteq> 0 then Some s1
             else
               do { (end_of_packet, s2) \<leftarrow> DESC_EOP d s1;
                    (nbytes, s3) \<leftarrow> DESC_BYTECNT d s2;
                    let cb = min (nbytes - desc_offset (eth s3)) (frame_size (eth s3));
                    (pa, s4) \<leftarrow> ld32 (d + 4) s3;
                    s5 \<leftarrow> memcpy_hv buf (MACH_PHYS_TO_VIRT (pa + desc_offset (eth s4))) cb s4;
                    let s6 = set_eth (\<lambda>x. x\<lparr>desc_offset := desc_offset x + cb, read_nbytes := read_nbytes x + cb,
                                            frame_size := frame_size x - cb\<rparr>) s5;
                    if desc_offset (eth s6) = nbytes
                    then
                      do { let s7 = set_eth (\<lambda>x. x\<lparr>desc_offset := 0, read_index := INCR_RX_INDEX (read_index x)\<rparr>) s6;
                           if end_of_packet \<noteq> 0 \<or> read_nbytes (eth s7) = frame_size (eth s7) then Some s7
                           else rx_copy (buf + cb) s7 }
                    else rx_copy (buf + cb) s6 } })"

text \<open>The second loop: the descriptors up to the end of the packet go back to the controller.\<close>

partial_function (option) rx_release :: "hv \<Rightarrow> hv option" where
  "rx_release s =
     do { let d = rx_desc_at (receive_index (eth s)) s;
          (own, s1) \<leftarrow> DESC_EOWN d s;
          if own \<noteq> 0 then Some s1
          else
            do { (end_of_packet, s2) \<leftarrow> DESC_EOP d s1;
                 s3 \<leftarrow> DESC_SET_EOWN d s2;
                 let s4 = set_eth (\<lambda>x. x\<lparr>receive_index := INCR_RX_INDEX (receive_index x)\<rparr>) (sfr_write ETHCON1SET 1 s3);
                 if end_of_packet \<noteq> 0 then Some s4 else rx_release s4 } }"

definition en_ll_input :: "u32 \<Rightarrow> hv \<Rightarrow> (u32 \<times> hv) option" where
  "en_ll_input fr s =
     do { let s1 = set_eth (\<lambda>x. x\<lparr>read_index := receive_index x, desc_offset := 0, read_nbytes := 0\<rparr>) s;
          if is_up (eth_port (eth s1)) = 0 then Some (0, s1)
          else
            do { let d = rx_desc_at (receive_index (eth s1)) s1;
                 (own, s2) \<leftarrow> DESC_EOWN d s1;
                 if own \<noteq> 0 then Some (0, s2)
                 else
                   do { (sz, s3) \<leftarrow> DESC_FRAMESZ d s2;
                        let s4 = set_eth (\<lambda>x. x\<lparr>frame_size := sz\<rparr>) s3;
                        if sz = 0 then Some (0, s4)
                        else
                          do { s5 \<leftarrow> rx_copy fr s4;
                               s6 \<leftarrow> rx_release s5;
                               Some (ucast (ucast sz :: u16),
                                     set_eth (\<lambda>x. x\<lparr>read_index := 0, desc_offset := 0, frame_size := 0, read_nbytes := 0\<rparr>) s6) } } } }"

text \<open>The request hands the ring to the controller, which may read the descriptors from then on.\<close>

definition request_tx :: "u32 \<Rightarrow> hv \<Rightarrow> hv" where
  "request_tx desc s = (sfr_writes [(ETHTXST, MACH_VIRT_TO_PHYS desc), (ETHCON1SET, ETH_TXRTS)] s)\<lparr>tx_view := mem s\<rparr>"

definition en_ll_output :: "u32 \<Rightarrow> u16 \<Rightarrow> hv \<Rightarrow> hv option" where
  "en_ll_output fr sz s =
     (if 0 < sz \<and> sz \<le> 1536
      then
        do { s1 \<leftarrow> wait_clear ETHCON1 ETH_TXRTS s;
             let desc = tx_desc (eth_port (eth s1));
             s2 \<leftarrow> st32 desc 0 s1;
             s3 \<leftarrow> st32 (desc + 4) (MACH_VIRT_TO_PHYS fr) s2;
             s4 \<leftarrow> DESC_SET_BYTECNT desc (ucast sz) s3;
             s5 \<leftarrow> DESC_SET_SOP desc s4;
             s6 \<leftarrow> DESC_SET_EOWN desc s5;
             s7 \<leftarrow> DESC_SET_EOP desc s6;
             Some (request_tx desc s7) }
      else Some s)"

subsection \<open>Hypercalls\<close>

definition en_get_mac :: "hv \<Rightarrow> hv option" where
  "en_get_mac s =
     do { m \<leftarrow> cur_vm s;
          (va, s1) \<leftarrow> tlbCreateEntry (MoveFromPreviousGuestGPR REG_A0 s) (base_addr m) 6 0xF True s;
          st_bytes va (macaddr (eth_port (eth s1))) s1 }"

definition receive_frame :: "hv \<Rightarrow> hv option" where
  "receive_frame s =
     do { m \<leftarrow> cur_vm s;
          (va, s1) \<leftarrow> tlbCreateEntry (MoveFromPreviousGuestGPR REG_A0 s) (base_addr m) MTU 0xF True s;
          (framesz, s2) \<leftarrow> en_ll_input va s1;
          Some (MoveToPreviousGuestGPR REG_V0 framesz s2) }"

text \<open>The copy into \<open>tx_buf\<close> must end inside its \<open>MTU\<close> bytes.\<close>

definition send_frame :: "hv \<Rightarrow> hv option" where
  "send_frame s =
     do { let sz = MoveFromPreviousGuestGPR REG_A1 s;
          m \<leftarrow> cur_vm s;
          (va, s1) \<leftarrow> tlbCreateEntry (MoveFromPreviousGuestGPR REG_A0 s) (base_addr m) sz 0xF True s;
          let buf = MACH_PHYS_TO_VIRT (MACH_VIRT_TO_PHYS (tx_buf_addr (conf s1)));
          ensure (copy_count buf va sz \<le> unat MTU);
          s2 \<leftarrow> memcpy_hv buf va sz s1;
          en_ll_output buf (ucast sz) (MoveToPreviousGuestGPR REG_V0 sz s2) }"

definition en_watchdog :: "hv \<Rightarrow> hv option" where
  "en_watchdog s =
     do { let (con, s1) = sfr_read ETHCON1 s;
          let receiver_enabled = con AND ETH_RXEN;
          (up, speed_100, full_duplex, s2) \<leftarrow> is_phy_linked (phy_addr (eth_port (eth s1))) True True s1;
          let s3 = MoveToPreviousGuestGPR REG_V0 up (set_port (\<lambda>e. e\<lparr>is_up := up\<rparr>) s2);
          if up \<noteq> 0 \<and> receiver_enabled = 0
          then
            do { let s4 = sfr_writes
                   [(if speed_100 then EMAC1SUPPSET else EMAC1SUPPCLR, 0x100),
                    (if full_duplex then EMAC1CFG2SET else EMAC1CFG2CLR, 1),
                    (EMAC1IPGT, if full_duplex then 21 else 18)] s3;
                 s5 \<leftarrow> en_setup_dma s4;
                 Some (sfr_write ETHCON1SET ETH_RXEN s5) }
          else if up = 0 \<and> receiver_enabled \<noteq> 0
          then wait_clear ETHSTAT 0x20 (sfr_write ETHCON1CLR ETH_RXEN s3)
          else Some s3 }"

subsection \<open>Initialisation\<close>

text \<open>The registers of the I/O ports, numbered A = 0, B = 1, ..., H = 7, J = 8.\<close>

definition analog_off :: "nat \<Rightarrow> nat \<Rightarrow> u32 \<times> u32" where
  "analog_off port pin = (PIC32MZ_PBASE (0x60004 + 0x100 * of_nat port), push_bit pin 1)"

definition output_pin :: "nat \<Rightarrow> nat \<Rightarrow> (u32 \<times> u32) list" where
  "output_pin port pin =
     [(PIC32MZ_PBASE (0x60034 + 0x100 * of_nat port), push_bit pin 1),
      (PIC32MZ_PBASE (0x60014 + 0x100 * of_nat port), push_bit pin 1)]"

text \<open>
  The macro \<open>_DEVCFG3\<close> is already the word at 0xBFC0FFC0; the code dereferences it once more, so the
  configuration word serves as an address.
\<close>

definition devcfg3_fethio :: "hv \<Rightarrow> (bool \<times> hv) option" where
  "devcfg3_fethio s =
     do { let (cfg, s1) = sfr_read 0xBFC0FFC0 s;
          (v, s2) \<leftarrow> ld32 cfg s1;
          Some (v AND 0x02000000 \<noteq> 0, s2) }"

definition setup_signals :: "hv \<Rightarrow> hv option" where
  "setup_signals s =
     do { let (id, s1) = sfr_read (PIC32MZ_PBASE 0x20) s;
          let dev = id AND 0x0FFFFFFF;
          if dev \<in> set [0x05104053, 0x05109053, 0x05131053, 0x07203053, 0x07204053, 0x07208053, 0x07209053,
                       0x07230053, 0x07231053]
          then
            do { (fethio, s2) \<leftarrow> devcfg3_fethio s1;
                 Some (sfr_writes
                   (if fethio
                    then [analog_off 4 4, analog_off 4 6, analog_off 4 7, analog_off 4 5, analog_off 1 15] @
                         output_pin 4 6 @ output_pin 4 7 @ output_pin 4 5
                    else [analog_off 1 15] @ output_pin 5 1 @ output_pin 5 0 @ output_pin 3 2) s2) }
          else if dev \<in> set [0x0510E053, 0x05113053, 0x0513B053, 0x0720D053, 0x0720E053, 0x07212053, 0x07213053,
                       0x0723A053, 0x0723B053]
          then
            do { (fethio, s2) \<leftarrow> devcfg3_fethio s1;
                 Some (sfr_writes
                   (if fethio
                    then [analog_off 6 9, analog_off 1 12, analog_off 1 13, analog_off 6 8, analog_off 1 11] @
                         output_pin 5 1 @ output_pin 5 0 @ output_pin 3 2
                    else [analog_off 6 9, analog_off 4 8, analog_off 4 9, analog_off 6 8, analog_off 6 15,
                          analog_off 3 14, analog_off 3 15] @
                         output_pin 3 14 @ output_pin 3 15 @ output_pin 0 15) s2) }
          else if dev \<in> set [0x05118053, 0x0511D053, 0x05145053, 0x07217053, 0x07218053, 0x0721C053, 0x0721D053,
                       0x07244053, 0x07245053]
          then Some s1
          else if dev \<in> set [0x05122053, 0x05127053, 0x0514F053, 0x07221053, 0x07222053, 0x07226053, 0x07227053,
                       0x0724E053, 0x0724F053]
          then Some (sfr_writes
                 ([analog_off 8 11, analog_off 7 5, analog_off 7 4, analog_off 8 8, analog_off 8 9] @
                  output_pin 8 8 @ output_pin 8 9 @ output_pin 3 6) s1)
          else Some s1 }"

text \<open>The search for the PHY: addresses 0 to 31, 32 when none answers.\<close>

fun detect_phy :: "nat list \<Rightarrow> hv \<Rightarrow> hv option" where
  "detect_phy [] s = Some (set_port (\<lambda>e. e\<lparr>phy_addr := 32\<rparr>) s)"
| "detect_phy (i # is) s =
     do { (r, s1) \<leftarrow> phy_reset (of_nat i) (set_port (\<lambda>e. e\<lparr>phy_addr := of_nat i\<rparr>) s);
          if 0 \<le>s r then Some s1 else detect_phy is s1 }"

definition read_mac :: "hv \<Rightarrow> hv" where
  "read_mac s =
     (let (a, s1) = sfr_read EMAC1SA2 s; (b, s2) = sfr_read EMAC1SA2 s1;
          (c, s3) = sfr_read EMAC1SA1 s2; (d, s4) = sfr_read EMAC1SA1 s3;
          (e, s5) = sfr_read EMAC1SA0 s4; (f, s6) = sfr_read EMAC1SA0 s5
      in set_port (\<lambda>p. p\<lparr>macaddr := [ucast a, ucast (drop_bit 8 b), ucast c, ucast (drop_bit 8 d), ucast e, ucast (drop_bit 8 f)]\<rparr>) s6)"

text \<open>A heap block seen through the uncached segment; the null pointer becomes 0xA0000000.\<close>

definition uncached :: "nat option \<Rightarrow> u32" where
  "uncached r = MACH_PHYS_TO_VIRT (MACH_VIRT_TO_PHYS (case r of None \<Rightarrow> 0 | Some p \<Rightarrow> of_nat p))"

definition alloc_rings :: "hv \<Rightarrow> hv option" where
  "alloc_rings s =
     do { (a, h1) \<leftarrow> malloc 6144 (heap s);
          (b, h2) \<leftarrow> malloc 784 h1;
          (c, h3) \<leftarrow> malloc 112 h2;
          let s1 = set_port (\<lambda>e. e\<lparr>rx_buf := uncached a, rx_desc := uncached b, tx_desc := uncached c\<rparr>) (s\<lparr>heap := h3\<rparr>);
          let e = eth_port (eth s1);
          if rx_buf e = 0 \<or> rx_desc e = 0 \<or> tx_desc e = 0 then None else Some s1 }"

fun register_calls :: "(hypercall_t \<times> u32) list \<Rightarrow> hv \<Rightarrow> bool \<times> hv" where
  "register_calls [] s = (True, s)"
| "register_calls ((h, c) # hs) s =
     (let (r, s1) = register_hypercall h c s in if r < 0 then (False, s1) else register_calls hs s1)"

text \<open>\<open>en_init\<close> in four parts: bring the controller up and find the PHY, identify it, allocate, register.
  The driver for several VMs differs in the receive filter and in two of the hypercalls.\<close>

definition en_bring_up :: "u32 \<Rightarrow> hv \<Rightarrow> hv option" where
  "en_bring_up rx_filter s =
     do { s1 \<leftarrow> setup_signals s;
          s2 \<leftarrow> en_setup rx_filter (set_port (\<lambda>e. e\<lparr>is_up := 0\<rparr>) s1);
          s3 \<leftarrow> en_setup_mac s2;
          s4 \<leftarrow> en_setup_rmii s3;
          detect_phy [0..<32] s4 }"

definition en_identify :: "hv \<Rightarrow> hv option" where
  "en_identify s =
     do { let s1 = read_mac s;
          let addr = phy_addr (eth_port (eth s1));
          (id1, s2) \<leftarrow> phy_read addr 2 1 s1;
          (id2, s3) \<leftarrow> phy_read addr 3 1 s2;
          Some (set_port (\<lambda>e. e\<lparr>phy_id := (push_bit 16 id1 OR id2) AND 0xFFFFFFF0\<rparr>) s3) }"

definition en_register :: "(hypercall_t \<times> u32) list \<Rightarrow> hv \<Rightarrow> hv option" where
  "en_register calls s =
     do { let (ok, s1) = register_calls calls s;
          if \<not> ok then Some s1
          else
            do { v \<leftarrow> get_fast_int_vcpu_node 153 s1;
                 let s2 = set_eth (\<lambda>x. x\<lparr>eth_vcpu := v\<rparr>) s1;
                 Some (if v \<noteq> None then en_enable_interrupts s2 else s2) } }"

definition en_init :: "hv \<Rightarrow> hv option" where
  "en_init s =
     do { s1 \<leftarrow> en_bring_up (0x40 OR 0x10 OR 8 OR 1) s;
          if 32 \<le> phy_addr (eth_port (eth s1)) then Some (sfr_write ETHCON1 0 s1)
          else do { s2 \<leftarrow> en_identify s1; s3 \<leftarrow> alloc_rings s2;
                 en_register [(H_en_watchdog, 4), (H_en_get_mac, 7), (H_send_frame, 5), (H_receive_frame, 6)] s3 } }"

end
