(* ===== verification/Usb.thy ===== *)
theory Usb
  imports SfrBits
begin

text \<open>
  The USB host driver of the PIC32MZ port, \<open>drivers/pic32mz-usb.c\<close> with \<open>usb.h\<close>: the interrupt
  handler, the two state machines (detection of a device and its descriptor, transfer of a packet),
  the three hypercalls and the initialiser. Guests drive the machines by polling. An index outside
  the driver's arrays is \<open>None\<close>.
\<close>

subsection \<open>Registers and macros of usb.h\<close>

abbreviation (input) "USBCSR0 \<equiv> (0xBF8E3000 :: u32)"
abbreviation (input) "USBCSR1 \<equiv> (0xBF8E3004 :: u32)"
abbreviation (input) "USBCSR2 \<equiv> (0xBF8E3008 :: u32)"
abbreviation (input) "USBENCTRL0 \<equiv> (0xBF8E3010 :: u32)"
abbreviation (input) "USBIE0CSR2 \<equiv> (0xBF8E3018 :: u32)"
abbreviation (input) "USBFIFO0 \<equiv> (0xBF8E3020 :: u32)"
abbreviation (input) "USBOTG \<equiv> (0xBF8E3060 :: u32)"
abbreviation (input) "USBEOFRST \<equiv> (0xBF8E307C :: u32)"
abbreviation (input) "USBCRCON \<equiv> (0xBF884000 :: u32)"

abbreviation (input) "HCALL_USB_BUSY \<equiv> (- 5 :: u32)"
abbreviation (input) "USB_DEVCONN_INT \<equiv> (0x10 :: u32)"
abbreviation (input) "USB_DEVDISCONN_INT \<equiv> (0x20 :: u32)"
abbreviation (input) "USB_VBUSERR_INT \<equiv> (0x80 :: u32)"
abbreviation (input) "DEBOUNCE_MS \<equiv> (500 :: u32)"
abbreviation (input) "RESET_MS \<equiv> (100 :: u32)"
abbreviation (input) "POST_RESET_DELAY_MS \<equiv> (100 :: u32)"

definition OFF :: "u32 \<Rightarrow> u32" where
  "OFF n = PIC32MZ_PBASE (0x10540 + push_bit 2 n)"

definition ENABLE_POWER_SUPPLY :: "hv \<Rightarrow> hv" where
  "ENABLE_POWER_SUPPLY s = sfr_write (PIC32MZ_PBASE 0x60138) 0x20 (sfr_write (PIC32MZ_PBASE 0x60114) 0x20 s)"

definition DISABLE_POWER_SUPPLY :: "hv \<Rightarrow> hv" where
  "DISABLE_POWER_SUPPLY s = sfr_write (PIC32MZ_PBASE 0x60134) 0x20 s"

definition OVERCURRENT_PIN_ENABLE :: "hv \<Rightarrow> hv" where
  "OVERCURRENT_PIN_ENABLE s =
     sfr_write (PIC32MZ_PBASE 0x60118) 4 (sfr_write (PIC32MZ_PBASE 0x60158) 4
       (sfr_write (PIC32MZ_PBASE 0x60104) 4 s))"

definition IS_OVERCURRENT :: "hv \<Rightarrow> bool \<times> hv" where
  "IS_OVERCURRENT s = (let (v, s1) = sfr_read (PIC32MZ_PBASE 0x60120) s in (v AND 4 = 0, s1))"

definition USBID_PIN_PULL_DOWN_F :: "hv \<Rightarrow> hv" where
  "USBID_PIN_PULL_DOWN_F s =
     sfr_write (PIC32MZ_PBASE 0x60568) 8 (sfr_write (PIC32MZ_PBASE 0x60518) 8
       (sfr_write (PIC32MZ_PBASE 0x60504) 8 (sfr_write (PIC32MZ_PBASE 0x60578) 0x8000 s)))"

definition USB_INTERRUPT_CLEAR :: "hv \<Rightarrow> hv" where
  "USB_INTERRUPT_CLEAR s = sfr_write (IFSCLR 4) 0x10 s"

definition USB_INTERRUPT_ENABLE :: "hv \<Rightarrow> hv" where
  "USB_INTERRUPT_ENABLE s = sfr_write (IECSET 4) 0x10 (sfr_write (IPCSET 33) 0x1F s)"

definition USB_DMA_INTERRUPT_CLEAR :: "hv \<Rightarrow> hv" where
  "USB_DMA_INTERRUPT_CLEAR s = sfr_write (IFSCLR 4) 0x20 s"

definition USB_DMA_INTERRUPT_ENABLE :: "hv \<Rightarrow> hv" where
  "USB_DMA_INTERRUPT_ENABLE s =
     sfr_write (IECSET 4) 0x20 (sfr_write (IPCSET 33) 0x1F00 (sfr_write (OFF 133) 0x200 s))"

text \<open>\<open>BDEV\<close> is a field of one bit; the macro tests bit 7 of its value.\<close>

definition IS_B_MODE :: "hv \<Rightarrow> bool \<times> hv" where
  "IS_B_MODE s = (let (v, s1) = field_get USBOTG 7 1 s in (v AND 0x80 \<noteq> 0, s1))"

definition IS_VALID_VBUS :: "hv \<Rightarrow> bool \<times> hv" where
  "IS_VALID_VBUS s = (let (v, s1) = field_get USBOTG 3 2 s in (v = 3, s1))"

definition SESSION_ENABLE :: "hv \<Rightarrow> hv" where
  "SESSION_ENABLE s = field_set USBOTG 0 1 1 s"

definition SESSION_DISABLE :: "hv \<Rightarrow> hv" where
  "SESSION_DISABLE s = field_set USBOTG 0 1 0 s"

definition USB_RESET_ON :: "hv \<Rightarrow> hv" where
  "USB_RESET_ON s = field_set USBCSR0 11 1 1 s"

definition USB_RESET_OFF :: "hv \<Rightarrow> hv" where
  "USB_RESET_OFF s = field_set USBCSR0 11 1 0 s"

definition HS_FS_DEVICE :: "hv \<Rightarrow> bool \<times> hv" where
  "HS_FS_DEVICE s = (let (v, s1) = field_get USBOTG 6 1 s in (v = 1, s1))"

definition LS_DEVICE :: "hv \<Rightarrow> bool \<times> hv" where
  "LS_DEVICE s = (let (v, s1) = field_get USBOTG 5 1 s in (v = 1, s1))"

subsection \<open>Access to the statics\<close>

definition set_usb :: "(usb_statics \<Rightarrow> usb_statics) \<Rightarrow> hv \<Rightarrow> hv" where
  "set_usb f s = s\<lparr>usb := f (usb s)\<rparr>"

definition set_status :: "(usb_status_t \<Rightarrow> usb_status_t) \<Rightarrow> hv \<Rightarrow> hv" where
  "set_status f s = set_usb (\<lambda>u. u\<lparr>usb_status := f (usb_status u)\<rparr>) s"

definition set_transfer :: "USB_TRANSFER_STATE \<Rightarrow> hv \<Rightarrow> hv" where
  "set_transfer st s = set_usb (\<lambda>u. u\<lparr>usb_transfer_status := (usb_transfer_status u)\<lparr>ut_state := st\<rparr>\<rparr>) s"

definition dev_state :: "hv \<Rightarrow> USB_DEVICE_STATE" where
  "dev_state s = us_state (usb_status (usb s))"

definition transfer_state :: "hv \<Rightarrow> USB_TRANSFER_STATE" where
  "transfer_state s = ut_state (usb_transfer_status (usb s))"

text \<open>The driver's statics before \<open>usb_start\<close>: zero.\<close>

definition zero_receive :: descriptor_receive where
  "zero_receive = \<lparr>descriptor = replicate 18 0, received = 0, descr_sz = 0, tranfer_sz = 0\<rparr>"

definition usb_reset :: usb_statics where
  "usb_reset = \<lparr>
     usb_status = \<lparr>us_state = IDLE, descriptor_available = 0, connected = 0, debounce = 0, wait_debounce = 0,
       speed = FULL_SPEED\<rparr>,
     descriptor_data = zero_receive,
     setup_packet = \<lparr>bmRequestType = 0, bRequest = 0, wValue = 0, wIndex = 0, wLength = 0\<rparr>,
     device_descriptor = \<lparr>bLength = 0, bDescriptorType = 0, bcdUSB = 0, bDeviceClass = 0, bDeviceSubClass = 0,
       bDeviceProtocol = 0, bMaxPacketSize = 0, idVendor = 0, idProduct = 0, bcdDevice = 0, iManufacturer = 0,
       iProduct = 0, iSerialNumber = 0, bNumConfigurations = 0\<rparr>,
     usb_transfer_status = \<lparr>ut_state = TRANSFER_INT_VM, pkt_sz = 0\<rparr>,
     sent_sz = 0, buffer_tx = replicate 64 0, request_count = 0\<rparr>"

subsection \<open>Interrupt handler\<close>

definition usb_interrupt_enable :: "u32 \<Rightarrow> u32 \<Rightarrow> u32 \<Rightarrow> hv \<Rightarrow> hv" where
  "usb_interrupt_enable general transmit receive s =
     byte_set (USBCSR2 + 3) general (byte_set USBCSR2 receive (byte_set (USBCSR1 + 2) transmit s))"

definition usb_connected :: "hv \<Rightarrow> hv" where
  "usb_connected s =
     (let (now, s1) = mfc0_volatile CP0_COUNT s
      in set_status (\<lambda>u. u\<lparr>connected := 1, us_state := DEBOUNCE, wait_debounce := now\<rparr>) s1)"

definition usb_disconnected :: "hv \<Rightarrow> hv" where
  "usb_disconnected s =
     set_transfer TRANSFER_IDLE
       (set_status (\<lambda>u. u\<lparr>us_state := IDLE, connected := 0, descriptor_available := 0\<rparr>) s)"

definition usb_vbus_error :: "hv \<Rightarrow> hv" where
  "usb_vbus_error s =
     set_status (\<lambda>u. u\<lparr>us_state := VBUSERROR, connected := 0, descriptor_available := 0\<rparr>) s"

definition usb_ep0_interrupt :: "hv \<Rightarrow> hv" where
  "usb_ep0_interrupt s =
     (if dev_state s = WAIT_TX_INT then set_status (\<lambda>u. u\<lparr>us_state := HANDSHAKE\<rparr>) s
      else if dev_state s = WAIT_DESCRIPTOR then set_status (\<lambda>u. u\<lparr>us_state := READ_DESCRIPTOR\<rparr>) s
      else if transfer_state s = TRANSFER_WAIT_TX_INT then set_transfer TRANSFER_SENDING s
      else s)"

definition usb_int_handler :: "hv \<Rightarrow> hv" where
  "usb_int_handler s =
     (let s1 = sfr_write (IFSCLR 4) 0x10 s;
          (interrupts, s2) = byte_get (USBCSR2 + 2) s1;
          s3 = (if interrupts AND USB_DEVCONN_INT \<noteq> 0 then usb_connected s2 else s2);
          s4 = (if interrupts AND USB_DEVDISCONN_INT \<noteq> 0 then usb_disconnected s3 else s3);
          s5 = (if interrupts AND USB_VBUSERR_INT \<noteq> 0 then usb_vbus_error s4 else s4);
          (ep0, s6) = field_get USBCSR0 16 1 s5
      in if ep0 \<noteq> 0 then usb_ep0_interrupt s6 else s6)"

subsection \<open>Packets\<close>

definition calc_wait_time :: "u32 \<Rightarrow> u32 \<Rightarrow> hv \<Rightarrow> bool \<times> hv" where
  "calc_wait_time time ms_delay s =
     (let (now, s1) = mfc0_volatile CP0_COUNT s
      in (ms_delay * MILISECOND (conf s) < now - time, s1))"

definition usb_fill_setup_packet :: "u8 \<Rightarrow> u8 \<Rightarrow> u16 \<Rightarrow> u16 \<Rightarrow> u16 \<Rightarrow> usb_setup_packet_t \<Rightarrow> usb_setup_packet_t" where
  "usb_fill_setup_packet requestType request value index len packet =
     packet\<lparr>bmRequestType := requestType, bRequest := request, wValue := value, wIndex := index,
       wLength := len\<rparr>"

definition setup_bytes :: "usb_setup_packet_t \<Rightarrow> u8 list" where
  "setup_bytes p =
     [bmRequestType p, bRequest p] @ bytes16 (wValue p) @ bytes16 (wIndex p) @ bytes16 (wLength p)"

definition ep0SetSpeed :: "USB_SPEED \<Rightarrow> hv \<Rightarrow> hv" where
  "ep0SetSpeed sp s =
     field_set USBIE0CSR2 22 2 (case sp of LOW_SPEED \<Rightarrow> 3 | FULL_SPEED \<Rightarrow> 2 | HIGH_SPEED \<Rightarrow> 1) s"

fun fifo_send :: "u8 list \<Rightarrow> hv \<Rightarrow> hv" where
  "fifo_send [] s = s"
| "fifo_send (b # bs) s = fifo_send bs (byte_set USBFIFO0 (ucast b) s)"

definition setup_packet_send :: "u8 list \<Rightarrow> hv \<Rightarrow> hv" where
  "setup_packet_send bytes s =
     sfr_or USBENCTRL0 0xA0000 (fifo_send bytes (ep0SetSpeed (speed (usb_status (usb s))) s))"

text \<open>The loop of \<open>data_packet_sent\<close>: at most \<open>n\<close> bytes, while \<open>sent_sz\<close> is below the size.\<close>

fun data_loop :: "nat \<Rightarrow> u8 list \<Rightarrow> u32 \<Rightarrow> hv \<Rightarrow> hv option" where
  "data_loop 0 data sz s = Some s"
| "data_loop (Suc n) data sz s =
     (if sent_sz (usb s) < sz
      then do { b \<leftarrow> arr_get data (int (unat (sent_sz (usb s))));
                data_loop n data sz
                  (set_usb (\<lambda>u. u\<lparr>sent_sz := sent_sz u + 1\<rparr>) (byte_set USBFIFO0 (ucast b) s)) }
      else Some s)"

definition data_packet_sent :: "u8 list \<Rightarrow> u32 \<Rightarrow> hv \<Rightarrow> hv option" where
  "data_packet_sent data sz s =
     do { s1 \<leftarrow> data_loop 8 data sz (ep0SetSpeed (speed (usb_status (usb s))) s);
          Some (byte_set (USBENCTRL0 + 2) 0x2 s1) }"

text \<open>The loop of \<open>read_descriptor\<close>: byte \<open>i\<close> comes from byte \<open>i AND 3\<close> of the FIFO register.\<close>

fun receive_loop :: "nat list \<Rightarrow> descriptor_receive \<Rightarrow> hv \<Rightarrow> (descriptor_receive \<times> hv) option" where
  "receive_loop [] descr s = Some (descr, s)"
| "receive_loop (i # is) descr s =
     do { let (b, s1) = byte_get (USBFIFO0 + (of_nat i AND 3)) s;
          d \<leftarrow> arr_set (descriptor descr) (int (unat (received descr))) (ucast b);
          receive_loop is (descr\<lparr>descriptor := d, received := received descr + 1\<rparr>) s1 }"

definition read_descriptor :: "descriptor_receive \<Rightarrow> hv \<Rightarrow> (descriptor_receive \<times> hv) option" where
  "read_descriptor descr s =
     do { let (rxsz, s1) = field_get USBIE0CSR2 0 7 s;
          (d1, s2) \<leftarrow> receive_loop [0..<unat rxsz] descr s1;
          let d2 = (if descr_sz d1 = 0
                    then d1\<lparr>descr_sz := ucast (descriptor d1 ! 0), tranfer_sz := ucast (descriptor d1 ! 7)\<rparr>
                    else d1);
          let s3 = field_set USBENCTRL0 16 1 0 s2;
          Some (if rxsz < tranfer_sz d2 \<or> received d2 = descr_sz d2
                then d2\<lparr>descr_sz := received d2\<rparr> else d2, s3) }"

definition decode_descriptor :: "u8 list \<Rightarrow> descriptor_decoded" where
  "decode_descriptor b = \<lparr>bLength = b ! 0, bDescriptorType = b ! 1, bcdUSB = word16 b 2,
     bDeviceClass = b ! 4, bDeviceSubClass = b ! 5, bDeviceProtocol = b ! 6, bMaxPacketSize = b ! 7,
     idVendor = word16 b 8, idProduct = word16 b 10, bcdDevice = word16 b 12, iManufacturer = b ! 14,
     iProduct = b ! 15, iSerialNumber = b ! 16, bNumConfigurations = b ! 17\<rparr>"

subsection \<open>The state machines\<close>

definition set_dev_state :: "USB_DEVICE_STATE \<Rightarrow> hv \<Rightarrow> hv" where
  "set_dev_state st s = set_status (\<lambda>u. u\<lparr>us_state := st\<rparr>) s"

definition stamp_wait :: "hv \<Rightarrow> hv" where
  "stamp_wait s = (let (now, s1) = mfc0_volatile CP0_COUNT s in set_status (\<lambda>u. u\<lparr>wait_debounce := now\<rparr>) s1)"

definition waited :: "u32 \<Rightarrow> hv \<Rightarrow> bool \<times> hv" where
  "waited ms s = calc_wait_time (wait_debounce (usb_status (usb s))) ms s"

definition detect_speed :: "hv \<Rightarrow> hv" where
  "detect_speed s =
     (let (fs, s1) = HS_FS_DEVICE s in
      if fs then set_status (\<lambda>u. u\<lparr>speed := FULL_SPEED\<rparr>) s1
      else (let (ls, s2) = LS_DEVICE s1
            in if ls then set_status (\<lambda>u. u\<lparr>speed := LOW_SPEED\<rparr>) s2
               else set_status (\<lambda>u. u\<lparr>speed := LOW_SPEED\<rparr>) s2))"

definition request_descriptor :: "hv \<Rightarrow> hv" where
  "request_descriptor s =
     (let s1 = set_usb (\<lambda>u. u\<lparr>descriptor_data := zero_receive,
                setup_packet := usb_fill_setup_packet 0x80 6 0x100 0 18 (setup_packet u)\<rparr>) s;
          s2 = setup_packet_send (setup_bytes (setup_packet (usb s1))) s1
      in stamp_wait (set_dev_state WAIT_TX_INT s2))"

definition retry_request :: "hv \<Rightarrow> hv" where
  "retry_request s =
     (let (over, s1) = waited 500 s in
      if over
      then if request_count (usb s1) < 5
           then set_dev_state REQUEST_DESCRIPTOR (set_usb (\<lambda>u. u\<lparr>request_count := request_count u + 1\<rparr>) s1)
           else set_dev_state GENERALERROR s1
      else s1)"

definition take_descriptor :: "hv \<Rightarrow> hv option" where
  "take_descriptor s =
     do { (d, s1) \<leftarrow> read_descriptor (descriptor_data (usb s)) s;
          let s2 = set_usb (\<lambda>u. u\<lparr>descriptor_data := d\<rparr>) s1;
          Some (if received d < descr_sz d
                then byte_set (USBENCTRL0 + 2) 0x20 (stamp_wait (set_dev_state WAIT_DESCRIPTOR s2))
                else set_status (\<lambda>u. u\<lparr>descriptor_available := 1\<rparr>)
                       (set_usb (\<lambda>u. u\<lparr>device_descriptor := decode_descriptor (descriptor d)\<rparr>)
                         (set_dev_state RUNNING s2))) }"

definition check_session :: "hv \<Rightarrow> hv" where
  "check_session s =
     (let (b, s1) = IS_B_MODE s in
      if b then (let (v, s2) = IS_VALID_VBUS s1 in if v then SESSION_ENABLE (SESSION_DISABLE s2) else s2)
      else s1)"

definition device_switch :: "hv \<Rightarrow> hv option" where
  "device_switch s =
     (case dev_state s of
        DEBOUNCE \<Rightarrow> (let (over, s1) = waited DEBOUNCE_MS s
                     in Some (if over then USB_RESET_ON (set_dev_state USB_RESET s1) else s1))
      | USB_RESET \<Rightarrow> (let (over, s1) = waited RESET_MS s
                      in Some (if over then stamp_wait (detect_speed (USB_RESET_OFF (set_dev_state AFTER_RESET_DELAY s1)))
                               else s1))
      | AFTER_RESET_DELAY \<Rightarrow> (let (over, s1) = waited POST_RESET_DELAY_MS s
                              in Some (if over then set_dev_state REQUEST_DESCRIPTOR s1 else s1))
      | REQUEST_DESCRIPTOR \<Rightarrow> Some (request_descriptor s)
      | WAIT_TX_INT \<Rightarrow> Some s
      | HANDSHAKE \<Rightarrow> Some (stamp_wait (set_dev_state WAIT_DESCRIPTOR (sfr_or USBENCTRL0 0x600000 s)))
      | WAIT_DESCRIPTOR \<Rightarrow> Some (retry_request s)
      | READ_DESCRIPTOR \<Rightarrow> take_descriptor s
      | RUNNING \<Rightarrow> Some s
      | IDLE \<Rightarrow> Some (check_session s)
      | VBUSERROR \<Rightarrow> Some s
      | GENERALERROR \<Rightarrow> Some (set_usb (\<lambda>u. u\<lparr>request_count := 0\<rparr>) s))"

definition update_state_machine :: "hv \<Rightarrow> hv option" where
  "update_state_machine s =
     do { s1 \<leftarrow> device_switch s;
          let (over, s2) = IS_OVERCURRENT s1;
          Some (if over
                then set_status (\<lambda>u. u\<lparr>us_state := GENERALERROR, connected := 0\<rparr>) (DISABLE_POWER_SUPPLY s2)
                else s2) }"

definition update_transfer_state_machine :: "hv \<Rightarrow> hv option" where
  "update_transfer_state_machine s =
     (case transfer_state s of
        TRANSFER_INT_VM \<Rightarrow> Some s
      | TRANSFER_IDLE \<Rightarrow> Some s
      | TRANSFER_START \<Rightarrow>
          (let s1 = set_usb (\<lambda>u. u\<lparr>setup_packet := usb_fill_setup_packet 0x40 6 256 0 3 (setup_packet u), sent_sz := 0\<rparr>)
                      s;
               s2 = set_transfer TRANSFER_SENDING s1
           in Some (setup_packet_send (setup_bytes (setup_packet (usb s2))) s2))
      | TRANSFER_SENDING \<Rightarrow>
          do { s1 \<leftarrow> data_packet_sent (buffer_tx (usb s)) 3 s;
               Some (if 2 < sent_sz (usb s1) then set_transfer TRANSFER_DONE (stamp_wait s1)
                     else set_transfer TRANSFER_WAIT_TX_INT s1) }
      | TRANSFER_WAIT_TX_INT \<Rightarrow> Some s
      | TRANSFER_DONE \<Rightarrow> Some (set_transfer TRANSFER_IDLE s))"

subsection \<open>Hypercalls\<close>

definition usb_polling :: "hv \<Rightarrow> hv option" where
  "usb_polling s =
     do { s1 \<leftarrow> (if dev_state s = RUNNING then update_transfer_state_machine s else update_state_machine s);
          Some (MoveToPreviousGuestGPR REG_V0 (descriptor_available (usb_status (usb s1))) s1) }"

text \<open>The write to \<open>buffer_tx\<close> starts at its beginning and must end inside.\<close>

definition usb_send_data :: "hv \<Rightarrow> hv option" where
  "usb_send_data s =
     do { let buf = MoveFromPreviousGuestGPR REG_A0 s;
          let sz = MoveFromPreviousGuestGPR REG_A1 s;
          let s1 = (if transfer_state s \<noteq> TRANSFER_IDLE
                    then MoveToPreviousGuestGPR REG_V0 HCALL_USB_BUSY s else s);
          m \<leftarrow> cur_vm s1;
          (va, s2) \<leftarrow> tlbCreateEntry buf (base_addr m) sz 0xF True s1;
          let n = copy_count (buffer_tx_addr (conf s2)) va sz;
          ensure (n \<le> length (buffer_tx (usb s2)));
          (bs, s3) \<leftarrow> ld_bytes va n s2;
          let s4 = set_usb (\<lambda>u. u\<lparr>buffer_tx := bs @ drop n (buffer_tx u)\<rparr>) s3;
          Some (MoveToPreviousGuestGPR REG_V0 sz (set_transfer TRANSFER_START s4)) }"

text \<open>The 32 bytes of the structure: 18 of the descriptor, two of padding, three words.\<close>

definition receive_bytes :: "descriptor_receive \<Rightarrow> u8 list" where
  "receive_bytes d = descriptor d @ [0, 0] @ bytes32 (received d) @ bytes32 (descr_sz d) @ bytes32 (tranfer_sz d)"

definition get_descriptor :: "hv \<Rightarrow> hv option" where
  "get_descriptor s =
     do { let buf = MoveFromPreviousGuestGPR REG_A0 s;
          let sz = MoveFromPreviousGuestGPR REG_A1 s;
          m \<leftarrow> cur_vm s;
          (va, s1) \<leftarrow> tlbCreateEntry buf (base_addr m) sz 0xF True s;
          s2 \<leftarrow> st_bytes va (receive_bytes (descriptor_data (usb s1))) s1;
          Some (MoveToPreviousGuestGPR REG_V0 sz s2) }"

subsection \<open>Initialisation\<close>

partial_function (option) wait_vbus :: "hv \<Rightarrow> hv option" where
  "wait_vbus s = (let (v, s1) = IS_VALID_VBUS s in if v then Some s1 else wait_vbus s1)"

definition usb_controller_reset :: "hv \<Rightarrow> hv option" where
  "usb_controller_reset s =
     do { let s1 = set_transfer TRANSFER_IDLE (set_dev_state IDLE s);
          let s2 = USBID_PIN_PULL_DOWN_F (OVERCURRENT_PIN_ENABLE s1);
          let s3 = field_set USBCRCON 2 1 1 s2;
          s4 \<leftarrow> udelay 10000 (byte_set (USBEOFRST + 3) 0x3 s3);
          Some (usb_interrupt_enable 0 0 0 (byte_set (USBEOFRST + 3) 0 s4)) }"

definition usb_controller_setup :: "hv \<Rightarrow> hv option" where
  "usb_controller_setup s =
     do { let s1 = field_set USBCSR0 13 1 0 s;
          let s2 = field_set USBCRCON 7 1 1 (field_set USBCRCON 9 1 1 s1);
          let s3 = field_set USBCRCON 8 1 0 (field_set USBCRCON 8 1 0 s2);
          let s4 = USB_INTERRUPT_ENABLE (USB_INTERRUPT_CLEAR s3);
          let s5 = USB_DMA_INTERRUPT_ENABLE (USB_DMA_INTERRUPT_CLEAR s4);
          let s6 = usb_interrupt_enable 0xB0 1 0 (ENABLE_POWER_SUPPLY s5);
          s7 \<leftarrow> wait_vbus s6;
          Some (SESSION_ENABLE s7) }"

definition usb_start :: "hv \<Rightarrow> hv option" where
  "usb_start s =
     do { let (offset, s1) = register_interrupt I_usb_int_handler s;
          let s2 = sfr_write (OFF 132) offset s1;
          let (r1, s3) = register_hypercall H_usb_polling 8 s2;
          if r1 < 0 then Some s3
          else
            do { let (r2, s4) = register_hypercall H_get_descriptor 9 s3;
                 if r2 < 0 then Some s4
                 else
                   do { let (r3, s5) = register_hypercall H_usb_send_data 10 s4;
                        if r3 < 0 then Some s5
                        else do { s6 \<leftarrow> usb_controller_reset s5; usb_controller_setup s6 } } } }"

subsection \<open>What the driver leaves alone\<close>

text \<open>\<open>uquiet\<close> is \<open>quiet\<close> up to the driver's own statics.\<close>

definition uquiet :: "hv \<Rightarrow> hv \<Rightarrow> bool" where
  "uquiet s t \<longleftrightarrow> quiet (s\<lparr>usb := usb t\<rparr>) t"

lemma quiet_uquiet: "quiet s t \<Longrightarrow> uquiet s t"
  by (simp add: uquiet_def quiet_def fixed_def kept_def tlb_but_window_def)

lemma uquiet_refl [simp]: "uquiet s s"
  by (simp add: quiet_uquiet)

lemma uquiet_trans [trans]: "uquiet s t \<Longrightarrow> uquiet t u \<Longrightarrow> uquiet s u"
  unfolding uquiet_def using tlb_but_window_trans
  by (simp add: quiet_def fixed_def kept_def tlb_but_window_def) metis

lemma uquiet_krel:
  assumes "uquiet s t" "usb_ok (usb s) \<Longrightarrow> usb_ok (usb t)"
  shows "krel s t"
proof -
  have "krel (s\<lparr>usb := usb t\<rparr>) t" using quiet_krel assms(1) by (simp add: uquiet_def)
  moreover have "kstate (s\<lparr>usb := usb t\<rparr>) = kstate s"
    by (simp add: kstate_def mailboxes_ok_def hv_sched_def sched_inv_def ready_def)
  ultimately show ?thesis using assms(2) by (simp add: krel_def kept_def tlb_but_window_def)
qed

named_theorems uq "operations of the driver that are quiet up to its statics"

lemma uq_base [uq]:
  assumes "uquiet s t"
  shows "uquiet s (sfr_write a v t)" "uquiet s (snd (sfr_read a t))" "uquiet s (snd (mfc0_volatile r t))"
    "uquiet s (snd (field_get a i w t))" "uquiet s (snd (byte_get a t))" "uquiet s (field_set a i w x t)"
    "uquiet s (byte_set a x t)" "uquiet s (sfr_or a x t)" "uquiet s (MoveToPreviousGuestGPR g v t)"
    "uquiet s (set_usb f t)"
proof -
  note q = uquiet_trans [OF assms quiet_uquiet]
  show "uquiet s (sfr_write a v t)" "uquiet s (MoveToPreviousGuestGPR g v t)"
    by (rule q [OF sfr_quiet(1)], rule q [OF MoveTo_quiet])
  show "uquiet s (snd (sfr_read a t))" "uquiet s (snd (mfc0_volatile r t))"
    "uquiet s (snd (field_get a i w t))" "uquiet s (snd (byte_get a t))"
    by (rule q [OF sfr_quiet(2) [OF surjective_pairing]], rule q [OF volatile_quiet [OF surjective_pairing]],
        rule q [OF field_quiet(1) [OF surjective_pairing]], rule q [OF field_quiet(2) [OF surjective_pairing]])
  show "uquiet s (field_set a i w x t)" "uquiet s (byte_set a x t)" "uquiet s (sfr_or a x t)"
    by (rule q [OF field_quiet(3)], rule q [OF field_quiet(4)], rule q [OF field_quiet(5)])
  have "uquiet t (set_usb f t)" by (simp add: uquiet_def set_usb_def)
  then show "uquiet s (set_usb f t)" by (rule uquiet_trans [OF assms])
qed

lemma uq_set [uq]:
  assumes "uquiet s t"
  shows "uquiet s (set_status g t)" "uquiet s (set_transfer st t)" "uquiet s (set_dev_state d t)"
    "uquiet s (stamp_wait t)" "uquiet s (snd (waited ms t))"
  unfolding set_status_def set_transfer_def set_dev_state_def stamp_wait_def waited_def calc_wait_time_def
    case_prod_beta Let_def snd_conv
  by (intro uq_base assms)+

lemma uq_macros [uq]:
  assumes "uquiet s t"
  shows "uquiet s (ENABLE_POWER_SUPPLY t)" "uquiet s (DISABLE_POWER_SUPPLY t)" "uquiet s (OVERCURRENT_PIN_ENABLE t)"
    "uquiet s (USBID_PIN_PULL_DOWN_F t)" "uquiet s (USB_INTERRUPT_CLEAR t)" "uquiet s (USB_INTERRUPT_ENABLE t)"
    "uquiet s (USB_DMA_INTERRUPT_CLEAR t)" "uquiet s (USB_DMA_INTERRUPT_ENABLE t)"
    "uquiet s (SESSION_ENABLE t)" "uquiet s (SESSION_DISABLE t)" "uquiet s (USB_RESET_ON t)" "uquiet s (USB_RESET_OFF t)"
    "uquiet s (snd (IS_OVERCURRENT t))" "uquiet s (snd (IS_B_MODE t))" "uquiet s (snd (IS_VALID_VBUS t))"
    "uquiet s (snd (HS_FS_DEVICE t))" "uquiet s (snd (LS_DEVICE t))" "uquiet s (ep0SetSpeed sp t)"
    "uquiet s (usb_interrupt_enable x y z t)"
  unfolding ENABLE_POWER_SUPPLY_def DISABLE_POWER_SUPPLY_def OVERCURRENT_PIN_ENABLE_def USBID_PIN_PULL_DOWN_F_def
    USB_INTERRUPT_CLEAR_def USB_INTERRUPT_ENABLE_def USB_DMA_INTERRUPT_CLEAR_def USB_DMA_INTERRUPT_ENABLE_def
    SESSION_ENABLE_def SESSION_DISABLE_def USB_RESET_ON_def USB_RESET_OFF_def IS_OVERCURRENT_def IS_B_MODE_def
    IS_VALID_VBUS_def HS_FS_DEVICE_def LS_DEVICE_def ep0SetSpeed_def usb_interrupt_enable_def case_prod_beta Let_def snd_conv
  by (intro uq_base assms)+

lemma fifo_send_uq [uq]: "uquiet s t \<Longrightarrow> uquiet s (fifo_send bs t)"
  by (induction bs arbitrary: t) (auto intro: uq_base)

lemma setup_packet_send_uq [uq]: "uquiet s t \<Longrightarrow> uquiet s (setup_packet_send bs t)"
  unfolding setup_packet_send_def by (intro uq)

lemma uq_int [uq]:
  assumes "uquiet s t"
  shows "uquiet s (usb_connected t)" "uquiet s (usb_disconnected t)" "uquiet s (usb_vbus_error t)"
    "uquiet s (usb_ep0_interrupt t)"
  unfolding usb_connected_def usb_disconnected_def usb_vbus_error_def usb_ep0_interrupt_def case_prod_beta Let_def
  using assms by (auto intro!: uq)

lemma uquiet_if: "uquiet s t \<Longrightarrow> uquiet s u \<Longrightarrow> uquiet s (if b then t else u)"
  by simp

lemma usb_int_handler_uq: "uquiet s (usb_int_handler s)"
  unfolding usb_int_handler_def case_prod_beta Let_def
  by (intro uquiet_if uq uquiet_refl)

lemma data_loop_uq: "data_loop n data sz s = Some t \<Longrightarrow> uquiet s t"
proof (induction n arbitrary: s)
  case (Suc n)
  show ?case
  proof (cases "sent_sz (usb s) < sz")
    case True
    then show ?thesis
      using Suc.prems
      by (auto simp: bind_eq_Some_conv dest!: Suc.IH intro: uquiet_trans [OF uq_base(10) [OF uq_base(7) [OF uquiet_refl]]])
  qed (use Suc.prems in simp)
qed simp

lemma data_packet_sent_uq: "data_packet_sent data sz s = Some t \<Longrightarrow> uquiet s t"
  by (auto simp: data_packet_sent_def bind_eq_Some_conv intro!: uq dest!: data_loop_uq
      intro: uquiet_trans [OF uq_macros(18) [OF uquiet_refl]])

lemma receive_loop_uq: "receive_loop is d s = Some (d', t) \<Longrightarrow> uquiet s t"
proof (induction "is" arbitrary: d s)
  case (Cons i "is")
  then obtain d1 where "receive_loop is d1 (snd (byte_get (USBFIFO0 + (of_nat i AND 3)) s)) = Some (d', t)"
    by (auto simp: case_prod_beta bind_eq_Some_conv)
  from Cons.IH [OF this] show ?case by (rule uquiet_trans [rotated]) (intro uq uquiet_refl)
qed simp

lemma read_descriptor_uq: "read_descriptor d s = Some (d', t) \<Longrightarrow> uquiet s t"
  by (auto simp: read_descriptor_def Let_def case_prod_beta bind_eq_Some_conv intro!: uq dest!: receive_loop_uq
      intro: uquiet_trans [OF uq_base(4) [OF uquiet_refl]])

lemma uq_cases:
  "uquiet s (request_descriptor s)" "uquiet s (retry_request s)" "uquiet s (check_session s)"
  "uquiet s u \<Longrightarrow> uquiet s (detect_speed u)" "take_descriptor s = Some t \<Longrightarrow> uquiet s t"
proof -
  show "uquiet s (request_descriptor s)" "uquiet s (retry_request s)" "uquiet s (check_session s)"
    unfolding request_descriptor_def retry_request_def check_session_def case_prod_beta Let_def
    by (intro uquiet_if uq uquiet_refl)+
  show "uquiet s u \<Longrightarrow> uquiet s (detect_speed u)"
    unfolding detect_speed_def case_prod_beta Let_def by (intro uquiet_if uq)
  show "take_descriptor s = Some t \<Longrightarrow> uquiet s t"
    by (auto simp: take_descriptor_def bind_eq_Some_conv Let_def intro!: uq dest!: read_descriptor_uq)
qed

lemma device_switch_quiet:
  assumes "dev_state s \<noteq> READ_DESCRIPTOR"
  shows "uquiet s (the (device_switch s))"
proof -
  have w: "\<And>ms. uquiet s (snd (waited ms s))" by (intro uq uquiet_refl)
  show ?thesis
    using assms unfolding device_switch_def case_prod_beta Let_def
    by (cases "dev_state s"; simp only: USB_DEVICE_STATE.case option.sel simp_thms)
      (intro uquiet_if w uq uq_cases(1-4) uquiet_refl)+
qed

lemma device_switch_uq: "device_switch s = Some t \<Longrightarrow> uquiet s t"
  using device_switch_quiet [of s] uq_cases(5) [of s t]
  by (cases "dev_state s = READ_DESCRIPTOR") (simp_all add: device_switch_def)

lemma update_state_machine_uq: "update_state_machine s = Some t \<Longrightarrow> uquiet s t"
  by (auto simp: update_state_machine_def bind_eq_Some_conv case_prod_beta Let_def dest!: device_switch_uq intro!: uq)

lemma update_transfer_uq: "update_transfer_state_machine s = Some t \<Longrightarrow> uquiet s t"
  by (auto simp: update_transfer_state_machine_def bind_eq_Some_conv Let_def intro!: uq dest!: data_packet_sent_uq
      split: USB_TRANSFER_STATE.splits)

lemma usb_polling_uq: "usb_polling s = Some t \<Longrightarrow> uquiet s t"
  by (auto simp: usb_polling_def bind_eq_Some_conv intro!: uq dest: update_state_machine_uq update_transfer_uq
      split: if_splits)

subsection \<open>The driver keeps its invariant\<close>

named_theorems usb_of "the statics of the driver after an operation"

lemma quiet_usb: "quiet s t \<Longrightarrow> usb t = usb s"
  by (simp add: quiet_def fixed_def)

lemma usb_of_base [usb_of]:
  "usb (sfr_write a v s) = usb s" "usb (snd (sfr_read a s)) = usb s" "usb (snd (mfc0_volatile r s)) = usb s"
  "usb (snd (field_get a i w s)) = usb s" "usb (snd (byte_get a s)) = usb s" "usb (field_set a i w x s) = usb s"
  "usb (byte_set a x s) = usb s" "usb (sfr_or a x s) = usb s" "usb (MoveToPreviousGuestGPR g v s) = usb s"
  by (rule quiet_usb; rule sfr_quiet(1) MoveTo_quiet field_quiet(3-5) sfr_quiet(2) [OF surjective_pairing]
      volatile_quiet [OF surjective_pairing] field_quiet(1,2) [OF surjective_pairing])+

lemma usb_of_upd [usb_of]: "usb (set_usb f s) = f (usb s)"
  by (simp add: set_usb_def)

lemma usb_of_set [usb_of]:
  "usb (set_status g s) = (usb s)\<lparr>usb_status := g (usb_status (usb s))\<rparr>"
  "usb (set_transfer st s) = (usb s)\<lparr>usb_transfer_status := (usb_transfer_status (usb s))\<lparr>ut_state := st\<rparr>\<rparr>"
  "usb (set_dev_state d s) = (usb s)\<lparr>usb_status := (usb_status (usb s))\<lparr>us_state := d\<rparr>\<rparr>"
  "usb (snd (waited ms s)) = usb s"
  by (simp_all add: set_status_def set_transfer_def set_dev_state_def waited_def calc_wait_time_def case_prod_beta usb_of)

lemma usb_of_stamp [usb_of]:
  "\<exists>now. usb (stamp_wait s) = (usb s)\<lparr>usb_status := (usb_status (usb s))\<lparr>wait_debounce := now\<rparr>\<rparr>"
  by (auto simp: stamp_wait_def case_prod_beta usb_of)

lemma usb_of_macros [usb_of]:
  "usb (ENABLE_POWER_SUPPLY s) = usb s" "usb (DISABLE_POWER_SUPPLY s) = usb s" "usb (OVERCURRENT_PIN_ENABLE s) = usb s"
  "usb (USBID_PIN_PULL_DOWN_F s) = usb s" "usb (USB_INTERRUPT_CLEAR s) = usb s" "usb (USB_INTERRUPT_ENABLE s) = usb s"
  "usb (USB_DMA_INTERRUPT_CLEAR s) = usb s" "usb (USB_DMA_INTERRUPT_ENABLE s) = usb s"
  "usb (SESSION_ENABLE s) = usb s" "usb (SESSION_DISABLE s) = usb s" "usb (USB_RESET_ON s) = usb s"
  "usb (USB_RESET_OFF s) = usb s" "usb (snd (IS_OVERCURRENT s)) = usb s" "usb (snd (IS_B_MODE s)) = usb s"
  "usb (snd (IS_VALID_VBUS s)) = usb s" "usb (snd (HS_FS_DEVICE s)) = usb s" "usb (snd (LS_DEVICE s)) = usb s"
  "usb (ep0SetSpeed sp s) = usb s" "usb (usb_interrupt_enable x y z s) = usb s"
  by (simp_all add: ENABLE_POWER_SUPPLY_def DISABLE_POWER_SUPPLY_def OVERCURRENT_PIN_ENABLE_def
      USBID_PIN_PULL_DOWN_F_def USB_INTERRUPT_CLEAR_def USB_INTERRUPT_ENABLE_def USB_DMA_INTERRUPT_CLEAR_def
      USB_DMA_INTERRUPT_ENABLE_def SESSION_ENABLE_def SESSION_DISABLE_def USB_RESET_ON_def USB_RESET_OFF_def
      IS_OVERCURRENT_def IS_B_MODE_def IS_VALID_VBUS_def HS_FS_DEVICE_def LS_DEVICE_def ep0SetSpeed_def
      usb_interrupt_enable_def case_prod_beta usb_of)

lemma usb_of_fifo [usb_of]: "usb (fifo_send bs s) = usb s" "usb (setup_packet_send bs s) = usb s"
proof -
  show "usb (fifo_send bs s) = usb s" for s by (induction bs arbitrary: s) (simp_all add: usb_of)
  then show "usb (setup_packet_send bs s) = usb s" by (simp add: setup_packet_send_def usb_of)
qed

lemma usb_int_handler_ok:
  assumes "usb_ok (usb s)"
  shows "usb_ok (usb (usb_int_handler s))"
proof -
  have conn: "usb_ok (usb (usb_connected t))" "usb_ok (usb (usb_disconnected t))" "usb_ok (usb (usb_vbus_error t))"
    "usb_ok (usb (usb_ep0_interrupt t))" if "usb_ok (usb t)" for t
    using that
    by (simp_all add: usb_ok_def status_ok_def usb_connected_def usb_disconnected_def usb_vbus_error_def usb_ep0_interrupt_def
        case_prod_beta usb_of dev_state_def transfer_state_def)
  have split: "usb_ok (usb (if b then f t else t))" if "usb_ok (usb t)" "\<And>t. usb_ok (usb t) \<Longrightarrow> usb_ok (usb (f t))"
    for b f t using that by simp
  show ?thesis
    unfolding usb_int_handler_def case_prod_beta Let_def
    by (intro split conn) (simp_all add: usb_of assms split conn)
qed

text \<open>Sending: from the start of a transfer the three bytes go into the FIFO at once.\<close>

lemma data_loop_done: "sz \<le> sent_sz (usb s) \<Longrightarrow> data_loop n data sz s = Some s"
  by (cases n) (simp_all add: leD)

lemma data_loop_three:
  assumes "sent_sz (usb s) = 0" "3 \<le> length data"
  shows "data_loop 8 data 3 s =
    Some (set_usb (\<lambda>u. u\<lparr>sent_sz := 3\<rparr>) (fifo_send (take 3 data) s))"
proof -
  obtain a b c ds where d: "data = a # b # c # ds" using assms(2)
    by (cases data; cases "tl data"; cases "tl (tl data)") auto
  obtain n :: nat where e: "8 = Suc (Suc (Suc n))" by (rule that [of 5]) simp
  show ?thesis unfolding e
    using assms(1) data_loop_done
    by (simp add: d usb_of arr_get_def set_usb_def byte_set_def sfr_write_def dev_write_def)
qed

lemma data_packet_sent_three:
  assumes "sent_sz (usb s) = 0" "3 \<le> length data"
  shows "data_packet_sent data 3 s =
    Some (byte_set (USBENCTRL0 + 2) 0x2 (set_usb (\<lambda>u. u\<lparr>sent_sz := 3\<rparr>)
      (fifo_send (take 3 data) (ep0SetSpeed (speed (usb_status (usb s))) s))))"
  using assms data_loop_three [of "ep0SetSpeed (speed (usb_status (usb s))) s" data]
  by (simp add: data_packet_sent_def usb_of)

subsection \<open>Polls keep the invariant\<close>

lemma receive_loop_cases:
  assumes "length (descriptor d) = 18" "received d \<le> 18"
  shows "if unat (received d) + length is \<le> 18
    then \<exists>bs t. length bs = length is \<and> receive_loop is d s =
      Some (d\<lparr>descriptor := take (unat (received d)) (descriptor d) @ bs @ drop (unat (received d) + length is) (descriptor d),
              received := received d + of_nat (length is)\<rparr>, t)
    else receive_loop is d s = None"
  using assms
proof (induction "is" arbitrary: d s)
  case (Cons i "is")
  let ?r = "unat (received d)" and ?b = "byte_get (USBFIFO0 + (of_nat i AND 3)) s"
  have r: "?r \<le> 18" using Cons.prems(2) by (simp add: word_le_nat_alt)
  show ?case
  proof (cases "?r < 18")
    case False
    then have "receive_loop (i # is) d s = None"
      using Cons.prems(1) r by (simp add: case_prod_beta arr_set_def)
    moreover have "\<not> ?r + length (i # is) \<le> 18" using False r by simp
    ultimately show ?thesis by (simp only: if_False)
  next
    case True
    let ?d = "d\<lparr>descriptor := (descriptor d)[?r := ucast (fst ?b)], received := received d + 1\<rparr>"
    have "arr_set (descriptor d) (int ?r) x = Some ((descriptor d)[?r := x])" for x
      by (rule arr_set_nat) (use True Cons.prems(1) in simp)
    then have step: "receive_loop (i # is) d s = receive_loop is ?d (snd ?b)" by (simp add: case_prod_beta)
    have r1: "unat (received ?d) = Suc ?r" using True by (simp add: unat_add_u32)
    have len: "length (descriptor ?d) = 18" "received ?d \<le> 18"
      using Cons.prems(1) True r1 by (simp_all add: word_le_nat_alt)
    show ?thesis
    proof (cases "?r + length (i # is) \<le> 18")
      case False
      then have "receive_loop is ?d (snd ?b) = None" using Cons.IH [OF len, of "snd ?b"] r1 by simp
      then show ?thesis using False step by simp
    next
      case fits: True
      then obtain bs t where bs: "length bs = length is" "receive_loop is ?d (snd ?b) =
          Some (?d\<lparr>descriptor := take (Suc ?r) (descriptor ?d) @ bs @ drop (Suc ?r + length is) (descriptor ?d),
              received := received ?d + of_nat (length is)\<rparr>, t)"
        using Cons.IH [OF len, of "snd ?b"] r1 by auto
      have "take (Suc ?r) (descriptor ?d) = take ?r (descriptor d) @ [ucast (fst ?b)]"
        using True Cons.prems(1) by (simp add: take_Suc_conv_app_nth)
      moreover have "drop (Suc ?r + length is) (descriptor ?d) = drop (?r + length (i # is)) (descriptor d)" by simp
      ultimately show ?thesis using fits step bs by (intro if_P [THEN iffD2] exI [of _ "ucast (fst ?b) # bs"] exI [of _ t])
          (simp_all add: add.assoc add.commute)
    qed
  qed
qed (auto simp: word_le_nat_alt intro!: exI [of _ "[]"])

lemma read_descriptor_cases:
  fixes s :: hv
  assumes "length (descriptor d) = 18" "received d \<le> 18"
  defines "n \<equiv> unat (fst (field_get USBIE0CSR2 0 7 s))"
  shows "if unat (received d) + n \<le> 18
    then \<exists>bs d' t. length bs = n \<and> read_descriptor d s = Some (d', t) \<and>
      descriptor d' = take (unat (received d)) (descriptor d) @ bs @ drop (unat (received d) + n) (descriptor d) \<and>
      unat (received d') = unat (received d) + n
    else read_descriptor d s = None"
proof (cases "unat (received d) + n \<le> 18")
  case False
  then have "receive_loop [0..<n] d (snd (field_get USBIE0CSR2 0 7 s)) = None"
    using receive_loop_cases [OF assms(1,2), of "[0..<n]"] by simp
  then have "read_descriptor d s = None" by (simp add: read_descriptor_def case_prod_beta n_def)
  then show ?thesis using False by (simp only: if_False)
next
  case True
  let ?s1 = "snd (field_get USBIE0CSR2 0 7 s)"
  let ?x = "take (unat (received d)) (descriptor d)" and ?y = "drop (unat (received d) + n) (descriptor d)"
  obtain bs t where bs: "length bs = n" "receive_loop [0..<n] d ?s1 =
      Some (d\<lparr>descriptor := ?x @ bs @ ?y, received := received d + of_nat n\<rparr>, t)"
    using receive_loop_cases [OF assms(1,2), of "[0..<n]" ?s1] True by auto
  have r: "unat (received d + of_nat n) = unat (received d) + n"
    using True by (subst unat_add_u32) (simp_all add: unat_of_nat take_bit_nat_eq_self)
  show ?thesis
    using True bs r
    by (simp add: read_descriptor_def case_prod_beta n_def [symmetric] Let_def cong: if_cong)
      (intro exI [of _ bs] conjI exI; auto)
qed

lemma take_descriptor_ok:
  assumes ok: "usb_ok (usb s)" and st: "dev_state s = READ_DESCRIPTOR" and t: "take_descriptor s = Some t"
  shows "usb_ok (usb t)"
proof -
  have d: "length (descriptor (descriptor_data (usb s))) = 18" "received (descriptor_data (usb s)) \<le> 18"
    using ok by (simp_all add: usb_ok_def)
  let ?n = "unat (fst (field_get USBIE0CSR2 0 7 s))" and ?r = "unat (received (descriptor_data (usb s)))"
  obtain d1 s1 where r: "read_descriptor (descriptor_data (usb s)) s = Some (d1, s1)"
    using t by (auto simp: take_descriptor_def bind_eq_Some_conv)
  have fits: "?r + ?n \<le> 18" using read_descriptor_cases [OF d, of s] r by (auto split: if_splits)
  have d1: "length (descriptor d1) = 18" "received d1 \<le> 18"
    using read_descriptor_cases [OF d, of s] r fits d(1) by (auto simp: word_le_nat_alt)
  have u1: "usb s1 = usb s"
  proof -
    have "usb s' = usb s0" if "receive_loop is e s0 = Some (e', s')" for "is" e s0 e' s'
      using that by (induction "is" arbitrary: e s0) (auto simp: case_prod_beta bind_eq_Some_conv usb_of)
    then show ?thesis using r by (auto simp: read_descriptor_def case_prod_beta Let_def bind_eq_Some_conv usb_of)
  qed
  obtain now where w: "usb (stamp_wait (set_dev_state WAIT_DESCRIPTOR (set_usb (\<lambda>u. u\<lparr>descriptor_data := d1\<rparr>) s1))) =
    (usb s)\<lparr>descriptor_data := d1, usb_status := (usb_status (usb s))\<lparr>us_state := WAIT_DESCRIPTOR, wait_debounce := now\<rparr>\<rparr>"
    using usb_of_stamp [of "set_dev_state WAIT_DESCRIPTOR (set_usb (\<lambda>u. u\<lparr>descriptor_data := d1\<rparr>) s1)"] u1
    by (auto simp: usb_of)
  have c: "connected (usb_status (usb s)) = 1" using ok st by (simp add: usb_ok_def status_ok_def dev_state_def)
  show ?thesis
  proof (cases "received d1 < descr_sz d1")
    case True
    then have "usb t = (usb s)\<lparr>descriptor_data := d1,
        usb_status := (usb_status (usb s))\<lparr>us_state := WAIT_DESCRIPTOR, wait_debounce := now\<rparr>\<rparr>"
      using t r w by (auto simp: take_descriptor_def usb_of)
    then show ?thesis using ok d1 c by (simp add: usb_ok_def status_ok_def)
  next
    case False
    then have "usb t = (usb s)\<lparr>descriptor_data := d1, device_descriptor := decode_descriptor (descriptor d1),
        usb_status := (usb_status (usb s))\<lparr>us_state := RUNNING, descriptor_available := 1\<rparr>\<rparr>"
      using t r u1 by (auto simp: take_descriptor_def usb_of)
    then show ?thesis using ok d1 c by (simp add: usb_ok_def status_ok_def)
  qed
qed

lemma count_up: "x < 5 \<Longrightarrow> x + 1 \<le> 5" for x :: u32
  by (simp add: inc_le)

text \<open>Moves between the states of a connected device, and fields outside the invariant.\<close>

lemma usb_ok_moves:
  assumes "usb_ok (usb s)"
  shows "dev_state s \<notin> {IDLE, VBUSERROR, GENERALERROR} \<Longrightarrow> d \<notin> {IDLE, VBUSERROR, RUNNING} \<Longrightarrow>
      usb_ok (usb (set_dev_state d s))"
    "usb_ok (usb (stamp_wait s))" "usb_ok (usb (detect_speed s))"
    "usb_ok (usb (set_usb (\<lambda>u. u\<lparr>request_count := 0\<rparr>) s))"
    "request_count (usb s) < 5 \<Longrightarrow> usb_ok (usb (set_usb (\<lambda>u. u\<lparr>request_count := request_count u + 1\<rparr>) s))"
    "usb_ok (usb (set_usb (\<lambda>u. u\<lparr>descriptor_data := zero_receive, setup_packet := p\<rparr>) s))"
  using assms count_up [of "request_count (usb s)"]
  by (simp_all add: usb_ok_def status_ok_def usb_of dev_state_def stamp_wait_def detect_speed_def case_prod_beta zero_receive_def)

lemma dev_state_of: "usb t = usb s \<Longrightarrow> dev_state t = dev_state s"
  by (simp add: dev_state_def)

lemma device_switch_ok:
  assumes ok: "usb_ok (usb s)" and t: "device_switch s = Some t"
  shows "usb_ok (usb t)"
proof -
  have keep: "usb_ok (usb (set_dev_state d u))" if "usb u = usb s" "dev_state s \<notin> {IDLE, VBUSERROR, GENERALERROR}"
      "d \<notin> {IDLE, VBUSERROR, RUNNING}" for d u
    using usb_ok_moves(1) [of u d] ok that by (simp add: dev_state_def)
  have w: "usb (snd (waited ms s)) = usb s" for ms by (simp add: usb_of)
  have req: "usb_ok (usb (request_descriptor s))" if "dev_state s = REQUEST_DESCRIPTOR"
  proof -
    let ?p = "usb_fill_setup_packet 0x80 6 0x100 0 18 (setup_packet (usb s))"
    have e: "set_usb (\<lambda>u. u\<lparr>descriptor_data := zero_receive, setup_packet := usb_fill_setup_packet 0x80 6 0x100 0 18 (setup_packet u)\<rparr>) s
      = set_usb (\<lambda>u. u\<lparr>descriptor_data := zero_receive, setup_packet := ?p\<rparr>) s" by (simp add: set_usb_def)
    show ?thesis unfolding request_descriptor_def Let_def e
      by (intro usb_ok_moves) (use that ok usb_ok_moves(6) [OF ok, of ?p] in \<open>simp_all add: usb_of dev_state_def\<close>)
  qed
  have ret: "usb_ok (usb (retry_request s))" if "dev_state s = WAIT_DESCRIPTOR"
    using that ok keep [OF w] usb_ok_moves(1) [OF usb_ok_moves(5)] w
    by (simp add: retry_request_def case_prod_beta dev_state_def usb_of)
  have chk: "usb (check_session s) = usb s" by (simp add: check_session_def case_prod_beta usb_of)
  show ?thesis
  proof (cases "dev_state s = READ_DESCRIPTOR")
    case True
    then show ?thesis using t take_descriptor_ok [OF ok True] by (simp add: device_switch_def)
  next
    case False
    note U = device_switch_def USB_DEVICE_STATE.case option.sel case_prod_beta Let_def
    note S = usb_of_base usb_of_macros w chk ok keep req ret usb_ok_moves(2-4)
    have "usb_ok (usb (the (device_switch s)))"
    proof (cases "dev_state s")
      case IDLE
      show ?thesis unfolding U IDLE by (simp add: S IDLE)
    next
      case DEBOUNCE
      show ?thesis unfolding U DEBOUNCE by (simp add: S DEBOUNCE)
    next
      case USB_RESET
      show ?thesis unfolding U USB_RESET by (simp add: S USB_RESET)
    next
      case AFTER_RESET_DELAY
      show ?thesis unfolding U AFTER_RESET_DELAY by (simp add: S AFTER_RESET_DELAY)
    next
      case HANDSHAKE
      show ?thesis unfolding U HANDSHAKE by (simp add: S HANDSHAKE)
    next
      case REQUEST_DESCRIPTOR
      show ?thesis unfolding U REQUEST_DESCRIPTOR by (simp add: S REQUEST_DESCRIPTOR)
    next
      case WAIT_TX_INT
      show ?thesis unfolding U WAIT_TX_INT by (simp add: S WAIT_TX_INT)
    next
      case WAIT_DESCRIPTOR
      show ?thesis unfolding U WAIT_DESCRIPTOR by (simp add: S WAIT_DESCRIPTOR)
    next
      case READ_DESCRIPTOR
      then show ?thesis using False by simp
    next
      case RUNNING
      show ?thesis unfolding U RUNNING by (simp add: S RUNNING)
    next
      case VBUSERROR
      show ?thesis unfolding U VBUSERROR by (simp add: S VBUSERROR)
    next
      case GENERALERROR
      show ?thesis unfolding U GENERALERROR by (simp add: S GENERALERROR)
    qed
    then show ?thesis using t by simp
  qed
qed

lemma update_state_machine_ok:
  assumes "usb_ok (usb s)" "update_state_machine s = Some t"
  shows "usb_ok (usb t)"
proof -
  obtain u where u: "device_switch s = Some u"
    using assms(2) by (auto simp: update_state_machine_def bind_eq_Some_conv)
  have k: "usb_ok (usb u)" by (rule device_switch_ok [OF assms(1) u])
  have "usb_ok (usb (set_status (\<lambda>u. u\<lparr>us_state := GENERALERROR, connected := 0\<rparr>) v))" if "usb v = usb u" for v
    using k that by (simp add: usb_of usb_ok_def status_ok_def)
  then have "usb_ok (usb (the (update_state_machine s)))"
    using k by (simp add: update_state_machine_def u case_prod_beta usb_of_macros)
  then show ?thesis using assms(2) by simp
qed

lemma update_transfer_ok:
  assumes ok: "usb_ok (usb s)" and t: "update_transfer_state_machine s = Some t"
  shows "usb_ok (usb t)"
proof -
  have "usb_ok (usb (the (update_transfer_state_machine s)))"
  proof (cases "transfer_state s = TRANSFER_SENDING")
    case True
    then have "sent_sz (usb s) = 0" "3 \<le> length (buffer_tx (usb s))"
      using ok by (simp_all add: usb_ok_def transfer_state_def)
    then show ?thesis
      using ok True
      by (simp add: update_transfer_state_machine_def data_packet_sent_three usb_of stamp_wait_def case_prod_beta usb_ok_def status_ok_def)
  next
    case False
    then show ?thesis
      using ok by (cases "transfer_state s")
        (simp_all add: update_transfer_state_machine_def Let_def usb_of usb_ok_def transfer_state_def)
  qed
  then show ?thesis using t by simp
qed

lemma usb_polling_ok:
  assumes "usb_ok (usb s)" "usb_polling s = Some t"
  shows "usb_ok (usb t)"
  using assms update_transfer_ok [OF assms(1)] update_state_machine_ok [OF assms(1)]
  by (auto simp: usb_polling_def bind_eq_Some_conv usb_of split: if_splits)

text \<open>A poll fails in one case: the device sends more bytes of its descriptor than the buffer of 18 holds.\<close>

lemma usb_polling_fails:
  assumes "usb_ok (usb s)"
  shows "usb_polling s = None \<longleftrightarrow> dev_state s = READ_DESCRIPTOR \<and>
    18 < unat (received (descriptor_data (usb s))) + unat (fst (field_get USBIE0CSR2 0 7 s))"
proof -
  let ?d = "descriptor_data (usb s)"
  have d: "length (descriptor ?d) = 18" "received ?d \<le> 18" using assms by (simp_all add: usb_ok_def)
  have transfer: "update_transfer_state_machine s \<noteq> None"
  proof (cases "transfer_state s = TRANSFER_SENDING")
    case True
    then have "sent_sz (usb s) = 0" "3 \<le> length (buffer_tx (usb s))"
      using assms by (simp_all add: usb_ok_def transfer_state_def)
    then show ?thesis using True by (simp add: update_transfer_state_machine_def data_packet_sent_three)
  next
    case False
    then show ?thesis by (cases "transfer_state s") (simp_all add: update_transfer_state_machine_def Let_def)
  qed
  have "read_descriptor ?d s = None \<longleftrightarrow> 18 < unat (received ?d) + unat (fst (field_get USBIE0CSR2 0 7 s))"
    using read_descriptor_cases [OF d, of s] by (auto split: if_splits)
  moreover have "take_descriptor s = None \<longleftrightarrow> read_descriptor ?d s = None"
    by (cases "read_descriptor ?d s") (auto simp: take_descriptor_def Let_def)
  ultimately have "device_switch s = None \<longleftrightarrow> dev_state s = READ_DESCRIPTOR \<and>
      18 < unat (received ?d) + unat (fst (field_get USBIE0CSR2 0 7 s))"
    by (cases "dev_state s") (simp_all add: device_switch_def case_prod_beta Let_def)
  moreover have "update_state_machine s = None \<longleftrightarrow> device_switch s = None"
    by (cases "device_switch s") (simp_all add: update_state_machine_def case_prod_beta Let_def)
  ultimately show ?thesis
    using transfer by (cases "dev_state s = RUNNING"; cases "update_state_machine s"; cases "update_transfer_state_machine s")
      (auto simp: usb_polling_def)
qed

subsection \<open>The hypercalls\<close>

lemma usb_send_data_cases:
  assumes "usb_send_data s = Some t"
  obtains n a va bs s3 where "n \<le> length (buffer_tx (usb s))" "length bs = n" "quiet s s3"
    "n = copy_count a va (MoveFromPreviousGuestGPR REG_A1 s)"
    "t = MoveToPreviousGuestGPR REG_V0 (MoveFromPreviousGuestGPR REG_A1 s) (set_transfer TRANSFER_START
       (set_usb (\<lambda>u. u\<lparr>buffer_tx := bs @ drop n (buffer_tx u)\<rparr>) s3))"
proof -
  define s1 where "s1 = (if transfer_state s \<noteq> TRANSFER_IDLE then MoveToPreviousGuestGPR REG_V0 HCALL_USB_BUSY s else s)"
  have q1: "quiet s s1" unfolding s1_def by (simp add: MoveTo_quiet)
  from assms obtain m va s2 bs s3 where u: "cur_vm s1 = Some m"
    "tlbCreateEntry (MoveFromPreviousGuestGPR REG_A0 s) (base_addr m) (MoveFromPreviousGuestGPR REG_A1 s) 0xF True s1 = Some (va, s2)"
    "copy_count (buffer_tx_addr (conf s2)) va (MoveFromPreviousGuestGPR REG_A1 s) \<le> length (buffer_tx (usb s2))"
    "ld_bytes va (copy_count (buffer_tx_addr (conf s2)) va (MoveFromPreviousGuestGPR REG_A1 s)) s2 = Some (bs, s3)"
    "t = MoveToPreviousGuestGPR REG_V0 (MoveFromPreviousGuestGPR REG_A1 s) (set_transfer TRANSFER_START
       (set_usb (\<lambda>u. u\<lparr>buffer_tx := bs @ drop (copy_count (buffer_tx_addr (conf s2)) va (MoveFromPreviousGuestGPR REG_A1 s)) (buffer_tx u)\<rparr>) s3))"
    by (auto simp: usb_send_data_def Let_def s1_def bind_eq_Some_conv ensure_eq_Some)
  have q2: "quiet s s2" by (rule quiet_trans [OF q1 tlbCreateEntry_quiet [OF u(2)]])
  show thesis
    by (rule that [OF _ ld_bytes_length [OF u(4)] quiet_trans [OF q2 bytes_quiet(1) [OF u(4)]] refl u(5)])
      (use u(3) quiet_usb [OF q2] in simp)
qed

lemma usb_send_data_uq: "usb_send_data s = Some t \<Longrightarrow> uquiet s t"
  by (erule usb_send_data_cases) (simp add: uq quiet_uquiet)

lemma usb_send_data_ok:
  assumes "usb_send_data s = Some t" "usb_ok (usb s)"
  shows "usb_ok (usb t)"
proof -
  obtain n a va bs s3 where u: "n \<le> length (buffer_tx (usb s))" "length bs = n" "quiet s s3"
    "t = MoveToPreviousGuestGPR REG_V0 (MoveFromPreviousGuestGPR REG_A1 s) (set_transfer TRANSFER_START
       (set_usb (\<lambda>u. u\<lparr>buffer_tx := bs @ drop n (buffer_tx u)\<rparr>) s3))"
    by (rule usb_send_data_cases [OF assms(1)])
  show ?thesis unfolding u(4) using assms(2) u(1,2) quiet_usb [OF u(3)] by (simp add: usb_of usb_ok_def)
qed

lemma get_descriptor_quiet: "get_descriptor s = Some t \<Longrightarrow> quiet s t"
  by (auto simp: get_descriptor_def bind_eq_Some_conv Let_def
      intro!: quiet_trans [OF quiet_trans [OF tlbCreateEntry_quiet bytes_quiet(2)] MoveTo_quiet])

text \<open>A buffer of at most 64 bytes is taken over, busy or not; a longer one is written past \<open>buffer_tx\<close>.\<close>

lemma usb_send_data_takes:
  assumes wf: "window_ready s m" and ok: "usb_ok (usb s)"
    and n: "MoveFromPreviousGuestGPR REG_A1 s \<le> 64"
    and buf: "guest_buffer s m (MoveFromPreviousGuestGPR REG_A0 s) (MoveFromPreviousGuestGPR REG_A1 s)"
  defines "sz \<equiv> MoveFromPreviousGuestGPR REG_A1 s"
  obtains t where "usb_send_data s = Some t"
    "buffer_tx (usb t) = bytes_at (mem s) (guest_phys (base_addr m) (MoveFromPreviousGuestGPR REG_A0 s)) (unat sz)
       @ drop (unat sz) (buffer_tx (usb s))"
    "transfer_state t = TRANSFER_START" "MoveFromPreviousGuestGPR REG_V0 t = sz" "usb_status (usb t) = usb_status (usb s)"
proof -
  let ?a0 = "MoveFromPreviousGuestGPR REG_A0 s"
  define s1 where "s1 = (if transfer_state s \<noteq> TRANSFER_IDLE then MoveToPreviousGuestGPR REG_V0 HCALL_USB_BUSY s else s)"
  have q1: "quiet s s1" unfolding s1_def by (simp add: MoveTo_quiet)
  have m1: "mem s1 = mem s" "tlb s1 = tlb s" unfolding s1_def by (simp_all add: hv_simps)
  have w1: "vm_window s1 m" "cur_vm s1 = Some m"
    using wf m1(2) quiet_fields [OF q1] by (simp_all add: window_ready_def vm_window_def window_slot_def)
  have b1: "guest_buffer s1 m ?a0 sz"
    using buf quiet_fields(1) [OF q1] by (simp add: guest_buffer_def is_ram_def sz_def)
  obtain va s2 where s2: "tlbCreateEntry ?a0 (base_addr m) sz 0xF True s1 = Some (va, s2)"
    "maps_to s2 va (guest_phys (base_addr m) ?a0) (unat sz)" "quiet s1 s2" "mem s2 = mem s1"
    by (rule guest_window [OF w1(1) b1], rule that)
  have u: "usb s2 = usb s" by (rule quiet_usb [OF quiet_trans [OF q1 s2(3)]])
  have "sz < 0x80000000" using n unfolding sz_def by (rule le_less_trans) simp
  note c = copy_count_small [OF this, of "buffer_tx_addr (conf s2)" va]
  have "unat sz \<le> 64" using n by (simp add: word_le_nat_alt sz_def)
  then have l: "unat sz \<le> length (buffer_tx (usb s2))" using ok u by (simp add: usb_ok_def)
  let ?t = "MoveToPreviousGuestGPR REG_V0 sz (set_transfer TRANSFER_START
       (set_usb (\<lambda>u. u\<lparr>buffer_tx := bytes_at (mem s) (guest_phys (base_addr m) ?a0) (unat sz) @ drop (unat sz) (buffer_tx u)\<rparr>) s2))"
  have e: "usb_send_data s = Some ?t"
    using w1(2) s2(1) l ld_bytes_maps [OF s2(2)] s2(4) m1(1)
    by (simp add: usb_send_data_def Let_def s1_def [symmetric] sz_def [symmetric] c)
  show thesis
    by (rule that [OF e]) (simp_all add: usb_of u transfer_state_def hv_simps)
qed

lemma usb_send_data_overflow:
  assumes "64 < MoveFromPreviousGuestGPR REG_A1 s" "MoveFromPreviousGuestGPR REG_A1 s < 0x80000000" "usb_ok (usb s)"
  shows "usb_send_data s = None"
proof (rule ccontr)
  assume "usb_send_data s \<noteq> None"
  then obtain t where "usb_send_data s = Some t" by blast
  then obtain a va where "copy_count a va (MoveFromPreviousGuestGPR REG_A1 s) \<le> length (buffer_tx (usb s))"
    by (rule usb_send_data_cases) metis
  then show False using assms copy_count_small [OF assms(2)] by (simp add: usb_ok_def word_less_nat_alt)
qed

subsection \<open>A transfer takes three polls\<close>

definition fifo_sent :: "hv \<Rightarrow> u32 list" where
  "fifo_sent s = written_to (USBFIFO0 AND 0x1FFFFFFF) (io s)"

lemma fifo_sent_frame:
  "fifo_sent (set_usb f s) = fifo_sent s" "fifo_sent (set_status g s) = fifo_sent s"
  "fifo_sent (set_transfer st s) = fifo_sent s" "fifo_sent (stamp_wait s) = fifo_sent s"
  "fifo_sent (MoveToPreviousGuestGPR r v s) = fifo_sent s"
  by (simp_all add: fifo_sent_def set_usb_def set_status_def set_transfer_def stamp_wait_def mfc0_volatile_def
      hv_simps)

lemma fifo_sent_ops:
  "fifo_sent (byte_set USBFIFO0 x s) = fifo_sent s @ [x AND 0xFF]"
  "fifo_sent (byte_set (USBENCTRL0 + 2) x s) = fifo_sent s"
  "fifo_sent (sfr_or USBENCTRL0 x s) = fifo_sent s" "fifo_sent (ep0SetSpeed sp s) = fifo_sent s"
  by (simp_all add: fifo_sent_def byte_set_def sfr_or_def ep0SetSpeed_def field_set_def sfr_read_def dev_read_def
      sfr_write_def dev_write_def Let_def)

lemma byte_word: "ucast (b :: u8) AND 0xFF = (ucast b :: u32)"
proof -
  have m: "0xFF = (mask 8 :: u32)" by (simp add: mask_eq_exp_minus_1)
  show ?thesis unfolding m by (rule bit_word_eqI) (auto simp: bit_simps dest: bit_imp_le_length)
qed

lemma fifo_sent_send: "fifo_sent (fifo_send bs s) = fifo_sent s @ map ucast bs"
  by (induction bs arbitrary: s) (simp_all add: fifo_sent_ops byte_word)

lemma transfer_start_step:
  assumes "transfer_state s = TRANSFER_START"
  obtains t where "update_transfer_state_machine s = Some t"
    "usb t = (usb s)\<lparr>setup_packet := usb_fill_setup_packet 0x40 6 256 0 3 (setup_packet (usb s)), sent_sz := 0,
       usb_transfer_status := (usb_transfer_status (usb s))\<lparr>ut_state := TRANSFER_SENDING\<rparr>\<rparr>"
    "fifo_sent t = fifo_sent s @ [0x40, 6, 0, 1, 0, 0, 3, 0]"
proof -
  let ?u = "set_transfer TRANSFER_SENDING (set_usb (\<lambda>u. u\<lparr>setup_packet :=
      usb_fill_setup_packet 0x40 6 256 0 3 (setup_packet u), sent_sz := 0\<rparr>) s)"
  have e: "update_transfer_state_machine s = Some (setup_packet_send (setup_bytes (setup_packet (usb ?u))) ?u)"
    using assms by (simp add: update_transfer_state_machine_def Let_def)
  have b: "map ucast (setup_bytes (setup_packet (usb ?u))) = [0x40, 6, 0, 1, 0, 0, 3, 0 :: u32]"
    by (simp add: usb_of setup_bytes_def usb_fill_setup_packet_def bytes16_def)
  show thesis
    by (rule that [OF e]) (use b in \<open>simp_all add: usb_of setup_packet_send_def fifo_sent_ops fifo_sent_frame fifo_sent_send\<close>)
qed

lemma transfer_send_step:
  assumes "transfer_state s = TRANSFER_SENDING" "sent_sz (usb s) = 0" "3 \<le> length (buffer_tx (usb s))"
  obtains t now where "update_transfer_state_machine s = Some t"
    "usb t = (usb s)\<lparr>sent_sz := 3, usb_status := (usb_status (usb s))\<lparr>wait_debounce := now\<rparr>,
       usb_transfer_status := (usb_transfer_status (usb s))\<lparr>ut_state := TRANSFER_DONE\<rparr>\<rparr>"
    "fifo_sent t = fifo_sent s @ map ucast (take 3 (buffer_tx (usb s)))"
proof -
  let ?u = "byte_set (USBENCTRL0 + 2) 0x2 (set_usb (\<lambda>u. u\<lparr>sent_sz := 3\<rparr>)
      (fifo_send (take 3 (buffer_tx (usb s))) (ep0SetSpeed (speed (usb_status (usb s))) s)))"
  have v: "usb ?u = (usb s)\<lparr>sent_sz := 3\<rparr>" by (simp add: usb_of)
  have e: "update_transfer_state_machine s = Some (set_transfer TRANSFER_DONE (stamp_wait ?u))"
    using assms v by (simp add: update_transfer_state_machine_def data_packet_sent_three [OF assms(2,3)])
  obtain now where n: "usb (stamp_wait ?u) = (usb ?u)\<lparr>usb_status := (usb_status (usb ?u))\<lparr>wait_debounce := now\<rparr>\<rparr>"
    using usb_of_stamp by blast
  show thesis
  proof (rule that [OF e])
    show "usb (set_transfer TRANSFER_DONE (stamp_wait ?u)) =
        (usb s)\<lparr>sent_sz := 3, usb_status := (usb_status (usb s))\<lparr>wait_debounce := now\<rparr>,
          usb_transfer_status := (usb_transfer_status (usb s))\<lparr>ut_state := TRANSFER_DONE\<rparr>\<rparr>"
      using n v by (simp add: usb_of_set(2))
    show "fifo_sent (set_transfer TRANSFER_DONE (stamp_wait ?u)) = fifo_sent s @ map ucast (take 3 (buffer_tx (usb s)))"
      by (simp only: fifo_sent_frame fifo_sent_ops fifo_sent_send)
  qed
qed

lemma usb_three_polls:
  assumes ok: "usb_ok (usb s)" and st: "dev_state s = RUNNING" "transfer_state s = TRANSFER_START"
  obtains s1 s2 s3 where "usb_polling s = Some s1" "usb_polling s1 = Some s2" "usb_polling s2 = Some s3"
    "transfer_state s1 = TRANSFER_SENDING" "transfer_state s2 = TRANSFER_DONE" "transfer_state s3 = TRANSFER_IDLE"
    "dev_state s3 = RUNNING" "buffer_tx (usb s3) = buffer_tx (usb s)"
    "fifo_sent s3 = fifo_sent s @ [0x40, 6, 0, 1, 0, 0, 3, 0] @ map ucast (take 3 (buffer_tx (usb s)))"
    "MoveFromPreviousGuestGPR REG_V0 s3 = 1"
proof -
  let ?ret = "\<lambda>t. MoveToPreviousGuestGPR REG_V0 (descriptor_available (usb_status (usb t))) t"
  have poll: "usb_polling u = Some (?ret t)"
    if "dev_state u = RUNNING" "update_transfer_state_machine u = Some t" for u t
    using that by (simp add: usb_polling_def)
  obtain t1 where t1: "update_transfer_state_machine s = Some t1"
    "usb t1 = (usb s)\<lparr>setup_packet := usb_fill_setup_packet 0x40 6 256 0 3 (setup_packet (usb s)), sent_sz := 0,
       usb_transfer_status := (usb_transfer_status (usb s))\<lparr>ut_state := TRANSFER_SENDING\<rparr>\<rparr>"
    "fifo_sent t1 = fifo_sent s @ [0x40, 6, 0, 1, 0, 0, 3, 0]"
    by (rule transfer_start_step [OF st(2)])
  let ?s1 = "?ret t1"
  have u1: "dev_state ?s1 = RUNNING" "transfer_state ?s1 = TRANSFER_SENDING" "sent_sz (usb ?s1) = 0"
    "buffer_tx (usb ?s1) = buffer_tx (usb s)" "3 \<le> length (buffer_tx (usb ?s1))"
    using st(1) t1(2) ok by (simp_all add: dev_state_def transfer_state_def usb_of usb_ok_def)
  obtain t2 now where t2: "update_transfer_state_machine ?s1 = Some t2"
    "usb t2 = (usb ?s1)\<lparr>sent_sz := 3, usb_status := (usb_status (usb ?s1))\<lparr>wait_debounce := now\<rparr>,
       usb_transfer_status := (usb_transfer_status (usb ?s1))\<lparr>ut_state := TRANSFER_DONE\<rparr>\<rparr>"
    "fifo_sent t2 = fifo_sent ?s1 @ map ucast (take 3 (buffer_tx (usb ?s1)))"
    by (rule transfer_send_step [OF u1(2,3,5)])
  let ?s2 = "?ret t2" and ?s3 = "?ret (set_transfer TRANSFER_IDLE (?ret t2))"
  have u2: "dev_state ?s2 = RUNNING" "transfer_state ?s2 = TRANSFER_DONE"
    using u1(1) t2(2) by (simp_all add: dev_state_def transfer_state_def usb_of)
  have t3: "update_transfer_state_machine ?s2 = Some (set_transfer TRANSFER_IDLE ?s2)"
    using u2(2) by (simp add: update_transfer_state_machine_def)
  have av: "descriptor_available (usb_status (usb ?s3)) = 1"
    using ok st(1) t1(2) t2(2) by (simp add: usb_of usb_ok_def status_ok_def dev_state_def)
  show thesis
    by (rule that [OF poll [OF st(1) t1(1)] poll [OF u1(1) t2(1)] poll [OF u2(1) t3] u1(2) u2(2)])
      (use u1(4) u2(1) t1(2,3) t2(2,3) av in \<open>simp_all add: usb_of dev_state_def transfer_state_def fifo_sent_frame hv_simps\<close>)
qed

subsection \<open>The diagram of the device states\<close>

text \<open>The moves a poll and an interrupt can make.\<close>

inductive poll_edge :: "USB_DEVICE_STATE \<Rightarrow> USB_DEVICE_STATE \<Rightarrow> bool" where
  stays: "poll_edge d d"
| overcurrent: "d \<noteq> RUNNING \<Longrightarrow> poll_edge d GENERALERROR"
| debounced: "poll_edge DEBOUNCE USB_RESET"
| was_reset: "poll_edge USB_RESET AFTER_RESET_DELAY"
| stable: "poll_edge AFTER_RESET_DELAY REQUEST_DESCRIPTOR"
| requested: "poll_edge REQUEST_DESCRIPTOR WAIT_TX_INT"
| shaken: "poll_edge HANDSHAKE WAIT_DESCRIPTOR"
| retried: "poll_edge WAIT_DESCRIPTOR REQUEST_DESCRIPTOR"
| incomplete: "poll_edge READ_DESCRIPTOR WAIT_DESCRIPTOR"
| complete: "poll_edge READ_DESCRIPTOR RUNNING"

inductive irq_edge :: "USB_DEVICE_STATE \<Rightarrow> USB_DEVICE_STATE \<Rightarrow> bool" where
  keeps: "irq_edge d d"
| plugged: "irq_edge d DEBOUNCE"
| unplugged: "irq_edge d IDLE"
| vbus_fault: "irq_edge d VBUSERROR"
| sent: "irq_edge WAIT_TX_INT HANDSHAKE"
| received: "irq_edge WAIT_DESCRIPTOR READ_DESCRIPTOR"

inductive_simps poll_edge_running: "poll_edge d RUNNING"
inductive_cases poll_edgeE: "poll_edge d e"

lemma dev_of:
  "dev_state (set_dev_state d s) = d" "dev_state (stamp_wait s) = dev_state s"
  "dev_state (detect_speed s) = dev_state s" "dev_state (set_transfer st s) = dev_state s"
  "dev_state (USB_RESET_ON s) = dev_state s" "dev_state (USB_RESET_OFF s) = dev_state s" "dev_state (sfr_or a x s) = dev_state s"
  "dev_state (snd (waited ms s)) = dev_state s" "dev_state (snd (IS_OVERCURRENT s)) = dev_state s"
  "dev_state (MoveToPreviousGuestGPR g v s) = dev_state s"
proof -
  show "dev_state (stamp_wait s) = dev_state s" using usb_of_stamp [of s] by (auto simp: dev_state_def)
qed (simp_all add: dev_state_def usb_of detect_speed_def case_prod_beta)

lemma status_of_stamp: "us_state (usb_status (usb (stamp_wait s))) = us_state (usb_status (usb s))"
  using dev_of(2) [of s] by (simp add: dev_state_def)

lemma device_switch_edge:
  assumes "device_switch s = Some t"
  shows "poll_edge (dev_state s) (dev_state t)"
proof -
  have req: "dev_state (request_descriptor s) = WAIT_TX_INT" by (simp add: request_descriptor_def Let_def dev_of)
  have ret: "dev_state (retry_request s) \<in> {dev_state s, REQUEST_DESCRIPTOR, GENERALERROR}"
    using dev_of(8) [of 500 s] by (simp add: retry_request_def case_prod_beta dev_of(1))
  have chk: "dev_state (check_session s) = dev_state s"
    by (simp add: check_session_def case_prod_beta usb_of dev_state_def)
  have take: "dev_state u \<in> {WAIT_DESCRIPTOR, RUNNING}" if "take_descriptor s = Some u" for u
    using that by (auto simp: take_descriptor_def bind_eq_Some_conv Let_def dev_state_def usb_of status_of_stamp
        split: if_splits)
  note U = device_switch_def USB_DEVICE_STATE.case option.sel case_prod_beta Let_def
  note S = dev_of poll_edge.intros
  have "poll_edge (dev_state s) (dev_state (the (device_switch s)))" if n: "dev_state s \<noteq> READ_DESCRIPTOR"
  proof (cases "dev_state s")
    case IDLE show ?thesis unfolding U IDLE using chk IDLE by (simp add: S)
  next
    case DEBOUNCE show ?thesis unfolding U DEBOUNCE using DEBOUNCE by (simp add: S)
  next
    case USB_RESET show ?thesis unfolding U USB_RESET using USB_RESET by (simp add: S)
  next
    case AFTER_RESET_DELAY show ?thesis unfolding U AFTER_RESET_DELAY using AFTER_RESET_DELAY by (simp add: S)
  next
    case HANDSHAKE show ?thesis unfolding U HANDSHAKE by (simp add: S)
  next
    case REQUEST_DESCRIPTOR show ?thesis unfolding U REQUEST_DESCRIPTOR req by (rule poll_edge.intros)
  next
    case WAIT_TX_INT show ?thesis unfolding U WAIT_TX_INT using WAIT_TX_INT by (simp add: S)
  next
    case WAIT_DESCRIPTOR show ?thesis
      unfolding U WAIT_DESCRIPTOR using ret WAIT_DESCRIPTOR by (auto intro: poll_edge.intros)
  next
    case READ_DESCRIPTOR then show ?thesis using n by simp
  next
    case RUNNING show ?thesis unfolding U RUNNING using RUNNING by (simp add: S)
  next
    case VBUSERROR show ?thesis unfolding U VBUSERROR using VBUSERROR by (simp add: S)
  next
    case GENERALERROR show ?thesis unfolding U GENERALERROR using GENERALERROR by (simp add: S dev_state_def usb_of)
  qed
  then show ?thesis
    using assms take [of t] by (cases "dev_state s = READ_DESCRIPTOR")
      (auto simp: device_switch_def intro: poll_edge.intros)
qed

lemma usb_polling_edge:
  assumes "usb_polling s = Some t"
  shows "poll_edge (dev_state s) (dev_state t)"
proof (cases "dev_state s = RUNNING")
  case False
  then obtain u where u: "device_switch s = Some u"
    "t = MoveToPreviousGuestGPR REG_V0 (descriptor_available (usb_status (usb (the (update_state_machine s)))))
      (the (update_state_machine s))" "update_state_machine s \<noteq> None"
    using assms by (auto simp: usb_polling_def update_state_machine_def bind_eq_Some_conv)
  have "dev_state (the (update_state_machine s)) \<in> {dev_state u, GENERALERROR}"
    using u(1) dev_of(9) [of u] by (simp add: update_state_machine_def case_prod_beta)
      (simp add: dev_state_def usb_of)
  then show ?thesis
    using device_switch_edge [OF u(1)] False unfolding u(2) by (auto simp: dev_of intro: poll_edge.intros)
next
  case True
  obtain u where u: "update_transfer_state_machine s = Some u" "dev_state t = dev_state u"
    using assms True by (auto simp: usb_polling_def bind_eq_Some_conv dev_of)
  have loop: "usb_status (usb v) = usb_status (usb w)" if "data_loop n data sz w = Some v" for n data sz v w
    using that by (induction n arbitrary: w) (auto simp: bind_eq_Some_conv usb_of split: if_splits)
  have "us_state (usb_status (usb u)) = us_state (usb_status (usb s))"
    using u(1) by (auto simp: update_transfer_state_machine_def data_packet_sent_def Let_def bind_eq_Some_conv
        usb_of status_of_stamp dest!: loop split: USB_TRANSFER_STATE.splits if_splits)
  then show ?thesis using u(2) by (simp add: dev_state_def poll_edge.intros)
qed

lemma usb_int_handler_edge: "irq_edge (dev_state s) (dev_state (usb_int_handler s))"
proof -
  define s1 where "s1 = sfr_write (IFSCLR 4) 0x10 s"
  define f where "f = fst (byte_get (USBCSR2 + 2) s1)"
  define s2 where "s2 = snd (byte_get (USBCSR2 + 2) s1)"
  define s3 where "s3 = (if f AND USB_DEVCONN_INT \<noteq> 0 then usb_connected s2 else s2)"
  define s4 where "s4 = (if f AND USB_DEVDISCONN_INT \<noteq> 0 then usb_disconnected s3 else s3)"
  define s5 where "s5 = (if f AND USB_VBUSERR_INT \<noteq> 0 then usb_vbus_error s4 else s4)"
  define s6 where "s6 = snd (field_get USBCSR0 16 1 s5)"
  have d: "dev_state s2 = dev_state s" "dev_state s6 = dev_state s5"
    by (simp_all add: s1_def s2_def s6_def dev_state_def usb_of)
  have c: "dev_state (usb_connected u) = DEBOUNCE" "dev_state (usb_disconnected u) = IDLE"
    "dev_state (usb_vbus_error u) = VBUSERROR" for u
    by (simp_all add: usb_connected_def usb_disconnected_def usb_vbus_error_def dev_state_def usb_of case_prod_beta)
  have s5: "dev_state s5 \<in> {dev_state s, DEBOUNCE, IDLE, VBUSERROR}"
    unfolding s5_def s4_def s3_def using d(1) by (simp add: c)
  have ep: "dev_state (usb_ep0_interrupt s6) =
      (if dev_state s5 = WAIT_TX_INT then HANDSHAKE else if dev_state s5 = WAIT_DESCRIPTOR then READ_DESCRIPTOR
       else dev_state s5)"
    using d(2) by (simp add: usb_ep0_interrupt_def) (simp add: dev_state_def usb_of)
  have h: "usb_int_handler s = (if fst (field_get USBCSR0 16 1 s5) \<noteq> 0 then usb_ep0_interrupt s6 else s6)"
    unfolding usb_int_handler_def case_prod_beta Let_def s6_def s5_def s4_def s3_def s2_def f_def s1_def by (rule refl)
  have "dev_state (usb_int_handler s) \<in> {dev_state s5, dev_state (usb_ep0_interrupt s6)}"
    unfolding h using d(2) by simp
  then show ?thesis using s5 unfolding ep by (auto intro: irq_edge.intros split: if_splits)
qed

text \<open>\<open>IS_B_MODE\<close> never holds, so an idle controller that left the host mode is not restarted.\<close>

lemma no_B_mode: "\<not> fst (IS_B_MODE s)"
proof -
  have "(x AND 1) AND 0x80 = (0 :: u32)" for x by (simp add: and.assoc)
  then show ?thesis by (simp add: IS_B_MODE_def field_get_def case_prod_beta)
qed

lemma idle_only_looks:
  assumes "dev_state s = IDLE" "update_state_machine s = Some t"
  shows "written_to (USBOTG AND 0x1FFFFFFF) (io t) = written_to (USBOTG AND 0x1FFFFFFF) (io s)"
  using assms no_B_mode [of s]
  by (auto simp: update_state_machine_def device_switch_def check_session_def case_prod_beta Let_def IS_B_MODE_def
      IS_OVERCURRENT_def field_get_def sfr_read_def dev_read_def set_status_def set_usb_def DISABLE_POWER_SUPPLY_def
      sfr_write_def dev_write_def PIC32MZ_PBASE_def)

subsection \<open>Initialisation touches the trace and the statics only\<close>

definition hw_only :: "hv \<Rightarrow> hv \<Rightarrow> bool" where
  "hw_only s t \<longleftrightarrow> (\<exists>x y z. t = s\<lparr>io := x, vol_n := y, usb := z\<rparr>)"

lemma hw_only_refl [simp]: "hw_only s s"
  unfolding hw_only_def by (intro exI [of _ "io s"] exI [of _ "vol_n s"] exI [of _ "usb s"]) simp

lemma hw_only_trans [trans]: "hw_only s t \<Longrightarrow> hw_only t u \<Longrightarrow> hw_only s u"
  unfolding hw_only_def by (elim exE) (simp, intro exI, rule refl)

lemma hw_only_upd:
  "hw_only s (s\<lparr>io := x\<rparr>)" "hw_only s (s\<lparr>vol_n := y\<rparr>)" "hw_only s (s\<lparr>usb := z\<rparr>)" "hw_only s (s\<lparr>vol_n := y, io := x\<rparr>)"
proof -
  show "hw_only s (s\<lparr>io := x\<rparr>)"
    unfolding hw_only_def by (intro exI [of _ x] exI [of _ "vol_n s"] exI [of _ "usb s"]) simp
  show "hw_only s (s\<lparr>vol_n := y\<rparr>)"
    unfolding hw_only_def by (intro exI [of _ "io s"] exI [of _ y] exI [of _ "usb s"]) simp
  show "hw_only s (s\<lparr>usb := z\<rparr>)"
    unfolding hw_only_def by (intro exI [of _ "io s"] exI [of _ "vol_n s"] exI [of _ z]) simp
  show "hw_only s (s\<lparr>vol_n := y, io := x\<rparr>)"
    unfolding hw_only_def by (intro exI [of _ x] exI [of _ y] exI [of _ "usb s"]) simp
qed

named_theorems hwo "operations on device registers and on the statics of the driver"

lemma hwo_base [hwo]:
  assumes "hw_only s t"
  shows "hw_only s (sfr_write a v t)" "hw_only s (snd (sfr_read a t))" "hw_only s (snd (mfc0_volatile r t))"
    "hw_only s (set_usb f t)"
  by (rule hw_only_trans [OF assms], simp add: sfr_write_def dev_write_def sfr_read_def dev_read_def mfc0_volatile_def
      set_usb_def Let_def hw_only_upd)+

lemma hwo_fields [hwo]:
  assumes "hw_only s t"
  shows "hw_only s (snd (field_get a i w t))" "hw_only s (field_set a i w x t)" "hw_only s (byte_set a x t)"
    "hw_only s (set_status g t)" "hw_only s (set_transfer st t)" "hw_only s (set_dev_state d t)"
  unfolding field_get_def field_set_def byte_set_def set_status_def set_transfer_def set_dev_state_def
    case_prod_beta Let_def snd_conv
  by (intro hwo_base assms)+

lemma hwo_macros [hwo]:
  assumes "hw_only s t"
  shows "hw_only s (ENABLE_POWER_SUPPLY t)" "hw_only s (OVERCURRENT_PIN_ENABLE t)" "hw_only s (USBID_PIN_PULL_DOWN_F t)"
    "hw_only s (USB_INTERRUPT_CLEAR t)" "hw_only s (USB_INTERRUPT_ENABLE t)" "hw_only s (USB_DMA_INTERRUPT_CLEAR t)"
    "hw_only s (USB_DMA_INTERRUPT_ENABLE t)" "hw_only s (SESSION_ENABLE t)" "hw_only s (usb_interrupt_enable x y z t)"
    "hw_only s (snd (IS_VALID_VBUS t))"
  unfolding ENABLE_POWER_SUPPLY_def OVERCURRENT_PIN_ENABLE_def USBID_PIN_PULL_DOWN_F_def USB_INTERRUPT_CLEAR_def
    USB_INTERRUPT_ENABLE_def USB_DMA_INTERRUPT_CLEAR_def USB_DMA_INTERRUPT_ENABLE_def SESSION_ENABLE_def
    usb_interrupt_enable_def IS_VALID_VBUS_def case_prod_beta Let_def snd_conv
  by (intro hwo_base hwo_fields assms)+

text \<open>The waits only read.\<close>

lemma udelay_loop_hw: "udelay_loop final s = Some t \<Longrightarrow> hw_only s t"
proof (induction s t rule: udelay_loop.raw_induct [where P = "\<lambda>_ s t. hw_only s t", rotated, consumes 1])
  case (1 loop final s t)
  let ?v = "snd (mfc0_volatile CP0_COUNT s)"
  have q: "hw_only s ?v" by (intro hwo hw_only_refl)
  from 1(2) 1(1) [of final ?v t] q show ?case
    using hw_only_trans [OF q, of t] by (auto simp: case_prod_beta split: if_splits)
qed

lemma udelay_hw: "udelay usec s = Some t \<Longrightarrow> hw_only s t \<and> usb t = usb s"
proof -
  have q: "hw_only s (snd (mfc0_volatile CP0_COUNT s))" by (intro hwo hw_only_refl)
  assume u: "udelay usec s = Some t"
  then have "hw_only s t"
    using hw_only_trans [OF q, of t] by (auto simp: udelay_def case_prod_beta dest!: udelay_loop_hw)
  then show ?thesis using quiet_usb [OF udelay_quiet [OF u]] by simp
qed

lemma wait_vbus_hw: "wait_vbus s = Some t \<Longrightarrow> hw_only s t \<and> usb t = usb s"
proof (induction s t rule: wait_vbus.raw_induct [rotated, consumes 1])
  case (1 loop s t)
  let ?u = "snd (IS_VALID_VBUS s)"
  have q: "hw_only s ?u" by (intro hwo hw_only_refl)
  from 1(2) 1(1) [of ?u t] q show ?case
    using hw_only_trans [OF q, of t] by (auto simp: case_prod_beta usb_of split: if_splits)
qed

lemma usb_controller_hw:
  "usb_controller_reset s = Some t \<Longrightarrow> hw_only s t"
  "usb_controller_setup s = Some t \<Longrightarrow> hw_only s t \<and> usb t = usb s"
proof -
  assume "usb_controller_reset s = Some t"
  then obtain u where u: "udelay 10000 (byte_set (USBEOFRST + 3) 0x3 (field_set USBCRCON 2 1 1
      (USBID_PIN_PULL_DOWN_F (OVERCURRENT_PIN_ENABLE (set_transfer TRANSFER_IDLE (set_dev_state IDLE s)))))) = Some u"
    "t = usb_interrupt_enable 0 0 0 (byte_set (USBEOFRST + 3) 0 u)"
    by (auto simp: usb_controller_reset_def bind_eq_Some_conv)
  have "hw_only s u" by (rule hw_only_trans [OF _ udelay_hw [THEN conjunct1, OF u(1)]]) (intro hwo hw_only_refl)
  then show "hw_only s t" unfolding u(2) by (intro hwo)
next
  define s6 where "s6 = usb_interrupt_enable 0xB0 1 0 (ENABLE_POWER_SUPPLY
      (USB_DMA_INTERRUPT_ENABLE (USB_DMA_INTERRUPT_CLEAR (USB_INTERRUPT_ENABLE (USB_INTERRUPT_CLEAR
        (field_set USBCRCON 8 1 0 (field_set USBCRCON 8 1 0 (field_set USBCRCON 7 1 1
          (field_set USBCRCON 9 1 1 (field_set USBCSR0 13 1 0 s))))))))))"
  have q: "hw_only s s6" unfolding s6_def by (intro hwo hw_only_refl)
  have k: "usb s6 = usb s" unfolding s6_def by (simp add: usb_of)
  assume "usb_controller_setup s = Some t"
  then obtain u where u: "wait_vbus s6 = Some u" "t = SESSION_ENABLE u"
    by (auto simp: usb_controller_setup_def s6_def Let_def bind_eq_Some_conv)
  have "hw_only s u" by (rule hw_only_trans [OF q wait_vbus_hw [THEN conjunct1, OF u(1)]])
  then show "hw_only s t \<and> usb t = usb s"
    using wait_vbus_hw [OF u(1)] k unfolding u(2) by (simp add: hwo usb_of)
qed

text \<open>Before a device is connected.\<close>

definition usb_idle :: "usb_statics \<Rightarrow> bool" where
  "usb_idle u \<longleftrightarrow> usb_ok u \<and> us_state (usb_status u) = IDLE"

lemma usb_reset_idle: "usb_idle usb_reset"
  by (simp add: usb_idle_def usb_ok_def status_ok_def usb_reset_def zero_receive_def)

lemma usb_controller_idle:
  assumes "usb_idle (usb s)"
  shows "usb_controller_reset s = Some t \<Longrightarrow> usb_idle (usb t)"
    "usb_controller_setup s = Some t \<Longrightarrow> usb_idle (usb t)"
proof -
  assume "usb_controller_reset s = Some t"
  then obtain u where u: "udelay 10000 (byte_set (USBEOFRST + 3) 0x3 (field_set USBCRCON 2 1 1
      (USBID_PIN_PULL_DOWN_F (OVERCURRENT_PIN_ENABLE (set_transfer TRANSFER_IDLE (set_dev_state IDLE s)))))) = Some u"
    "t = usb_interrupt_enable 0 0 0 (byte_set (USBEOFRST + 3) 0 u)"
    by (auto simp: usb_controller_reset_def bind_eq_Some_conv)
  have "usb u = usb (set_transfer TRANSFER_IDLE (set_dev_state IDLE s))" using udelay_hw [OF u(1)] by (simp add: usb_of)
  then show "usb_idle (usb t)"
    using assms unfolding u(2) by (simp add: usb_of usb_idle_def usb_ok_def status_ok_def)
qed (use assms usb_controller_hw(2) in auto)

end
