(* ===== verification/EthFrame.thy ===== *)
theory EthFrame
  imports Ethernet Usb
begin

text \<open>
  What the operations of the Ethernet driver leave alone: RAM, the device registers and the driver's own
  statics are all they change, and the statics stay well formed.
\<close>

definition drv :: "hv \<Rightarrow> hv \<Rightarrow> bool" where
  "drv s t \<longleftrightarrow> (\<exists>m x y w e. t = s\<lparr>mem := m, io := x, vol_n := y, tx_view := w, eth := e\<rparr>) \<and> (eth_ok (eth s) \<longrightarrow> eth_ok (eth t))"

lemma drvI:
  assumes "t = s\<lparr>mem := m, io := x, vol_n := y, eth := e\<rparr>" "eth_ok (eth s) \<Longrightarrow> eth_ok e"
  shows "drv s t"
proof -
  have "t = s\<lparr>mem := m, io := x, vol_n := y, tx_view := tx_view s, eth := e\<rparr>" using assms(1) by simp
  then have "\<exists>m x y w e. t = s\<lparr>mem := m, io := x, vol_n := y, tx_view := w, eth := e\<rparr>" by (intro exI)
  moreover have "eth t = e" by (simp add: assms(1))
  ultimately show ?thesis using assms(2) unfolding drv_def by (intro conjI) simp_all
qed

lemma drv_view: "drv s (s\<lparr>tx_view := w\<rparr>)"
  unfolding drv_def by (intro conjI exI [of _ "mem s"] exI [of _ "io s"] exI [of _ "vol_n s"] exI [of _ w] exI [of _ "eth s"]) simp_all

lemma drv_refl [simp]: "drv s s"
  by (rule drvI [where m = "mem s" and x = "io s" and y = "vol_n s" and e = "eth s"]) simp_all

lemma drv_trans [trans]: "drv s t \<Longrightarrow> drv t u \<Longrightarrow> drv s u"
  unfolding drv_def by (elim exE conjE, intro conjI) (simp, intro exI, rule refl, simp)

lemma drv_krel: "drv s t \<Longrightarrow> krel s t"
proof -
  assume "drv s t"
  then obtain m x y w e where t: "t = s\<lparr>mem := m, io := x, vol_n := y, tx_view := w, eth := e\<rparr>" and ok: "eth_ok (eth s) \<longrightarrow> eth_ok (eth t)"
    by (auto simp: drv_def)
  have "kstate s \<longrightarrow> kstate t"
    by (simp add: t kstate_def mailboxes_ok_def hv_sched_def sched_inv_def ready_def)
  then show ?thesis using ok by (simp add: krel_def t kept_def tlb_but_window_def)
qed

named_theorems dr "operations of the Ethernet driver that keep drv"

lemma drv_sfr [dr]:
  assumes "drv s t"
  shows "drv s (sfr_write a v t)" "drv s (snd (sfr_read a t))" "drv s (snd (mfc0_volatile r t))"
proof -
  have "drv t (t\<lparr>io := x, vol_n := y\<rparr>)" for x y by (rule drvI [where m = "mem t" and x = x and y = y and e = "eth t"]) simp_all
  note q = drv_trans [OF assms this]
  show "drv s (sfr_write a v t)" using q [of "vol_n t"] by (simp add: sfr_write_def dev_write_def)
  have "drv t (t\<lparr>vol_n := y, io := x\<rparr>)" for x y by (rule drvI [where m = "mem t" and x = x and y = y and e = "eth t"]) simp_all
  then show "drv s (snd (sfr_read a t))" using drv_trans [OF assms] by (simp add: sfr_read_def dev_read_def Let_def)
  show "drv s (snd (mfc0_volatile r t))" using q [of _ "io t"] by (simp add: mfc0_volatile_def)
qed

lemma drv_sfr_read: "sfr_read a s = (v, t) \<Longrightarrow> drv s t"
  using drv_sfr(2) [OF drv_refl, of s a] by simp

lemma drv_volatile: "mfc0_volatile r s = (v, t) \<Longrightarrow> drv s t"
  using drv_sfr(3) [OF drv_refl, of s r] by simp

lemma drv_writes [dr]: "drv s t \<Longrightarrow> drv s (sfr_writes ws t)"
  by (induction ws t rule: sfr_writes.induct) (simp_all add: drv_sfr)

lemma drv_request [dr]: "drv s t \<Longrightarrow> drv s (request_tx d t)"
  unfolding request_tx_def by (rule drv_trans [OF drv_writes drv_view])

lemma drv_set:
  assumes "drv s t" "\<And>x. eth_ok x \<Longrightarrow> eth_ok (f x)"
  shows "drv s (set_eth f t)"
  by (rule drv_trans [OF assms(1)], rule drvI [where m = "mem t" and x = "io t" and y = "vol_n t" and e = "f (eth t)"]) (simp_all add: set_eth_def assms(2))

lemma drv_cursor [dr]:
  assumes "drv s t"
  shows "drv s (set_eth (\<lambda>x. x\<lparr>read_index := a x, desc_offset := b x, read_nbytes := c x\<rparr>) t)"
    "drv s (set_eth (\<lambda>x. x\<lparr>frame_size := a x\<rparr>) t)" "drv s (set_eth (\<lambda>x. x\<lparr>eth_vcpu := v\<rparr>) t)"
    "drv s (set_eth (\<lambda>x. x\<lparr>desc_offset := a x, read_nbytes := b x, frame_size := c x\<rparr>) t)"
    "drv s (set_eth (\<lambda>x. x\<lparr>desc_offset := a x, read_index := b x\<rparr>) t)"
    "drv s (set_eth (\<lambda>x. x\<lparr>read_index := a x, desc_offset := b x, frame_size := c x, read_nbytes := d x\<rparr>) t)"
    "drv s (set_eth (\<lambda>x. x\<lparr>receive_index := INCR_RX_INDEX (receive_index x)\<rparr>) t)"
    "drv s (set_eth (\<lambda>x. x\<lparr>receive_index := 0\<rparr>) t)"
  by (rule drv_set [OF assms], simp add: eth_ok_def INCR_RX_INDEX_def word_less_nat_alt unat_mod)+

lemma drv_port:
  assumes "drv s t" "\<And>e. is_up e \<le> 1 \<Longrightarrow> length (macaddr e) = 6 \<Longrightarrow> is_up (f e) \<le> 1 \<and> length (macaddr (f e)) = 6"
  shows "drv s (set_port f t)"
  unfolding set_port_def by (rule drv_set [OF assms(1)]) (use assms(2) in \<open>simp add: eth_ok_def\<close>)

lemma drv_dev: "drv s (snd (dev_read a s))" "drv s (dev_write a v s)"
proof -
  have "drv s (s\<lparr>io := x, vol_n := y\<rparr>)" "drv s (s\<lparr>vol_n := y, io := x\<rparr>)" for x y
    by (rule drvI [where m = "mem s" and x = x and y = y and e = "eth s"]; simp)+
  then show "drv s (snd (dev_read a s))" by (simp add: dev_read_def Let_def)
  show "drv s (dev_write a v s)"
    unfolding dev_write_def by (rule drvI [where m = "mem s" and y = "vol_n s" and e = "eth s"]) simp_all
qed

lemma drv_mem: "drv s (s\<lparr>mem := m\<rparr>)"
  by (rule drvI [where m = m and x = "io s" and y = "vol_n s" and e = "eth s"]) simp_all

lemma drv_access:
  "ld8 a s = Some (b, t) \<Longrightarrow> drv s t" "st8 a b s = Some t \<Longrightarrow> drv s t"
  "ld32 a s = Some (w, t) \<Longrightarrow> drv s t" "st32 a w s = Some t \<Longrightarrow> drv s t"
  using drv_dev [of s] drv_mem [of s]
  by (auto simp: ld8_def st8_def ld32_def st32_def bind_eq_Some_conv split: if_splits prod.splits)
    (metis snd_conv)+

lemma drv_bytes: "st_bytes a bs s = Some t \<Longrightarrow> drv s t"
proof (induction bs arbitrary: a s)
  case (Cons b bs)
  then obtain u where "st8 a b s = Some u" "st_bytes (a + 1) bs u = Some t" by (auto simp: bind_eq_Some_conv)
  then show ?case using Cons.IH drv_access(2) drv_trans by blast
qed simp

lemma drv_copy: "copy8 n d a s = Some t \<Longrightarrow> drv s t" "copy32 n d a s = Some t \<Longrightarrow> drv s t"
proof -
  show "copy8 n d a s = Some t \<Longrightarrow> drv s t"
  proof (induction n arbitrary: d a s)
    case (Suc n)
    then obtain b u v where "ld8 a s = Some (b, u)" "st8 d b u = Some v" "copy8 n (d + 1) (a + 1) v = Some t"
      by (auto simp: bind_eq_Some_conv)
    then show ?case using Suc.IH drv_access(1) [of a s b u] drv_access(2) [of d b u v] by (meson drv_trans)
  qed simp
  show "copy32 n d a s = Some t \<Longrightarrow> drv s t"
  proof (induction n arbitrary: d a s)
    case (Suc n)
    then obtain b u v where "ld32 a s = Some (b, u)" "st32 d b u = Some v" "copy32 n (d + 4) (a + 4) v = Some t"
      by (auto simp: bind_eq_Some_conv)
    then show ?case using Suc.IH drv_access(3) [of a s b u] drv_access(4) [of d b u v] by (meson drv_trans)
  qed simp
qed

lemma drv_memcpy: "memcpy_hv d a n s = Some t \<Longrightarrow> drv s t"
  by (auto simp: memcpy_hv_def drv_copy split: if_splits)

text \<open>Access to a descriptor.\<close>

lemma drv_desc_read:
  "DESC_EOP d s = Some (v, t) \<Longrightarrow> drv s t" "DESC_BYTECNT d s = Some (v, t) \<Longrightarrow> drv s t"
  "DESC_EOWN d s = Some (v, t) \<Longrightarrow> drv s t" "DESC_FRAMESZ d s = Some (v, t) \<Longrightarrow> drv s t"
  by (auto simp: DESC_EOP_def DESC_BYTECNT_def DESC_EOWN_def DESC_FRAMESZ_def bind_eq_Some_conv dest: drv_access)

lemma drv_rmw: "ld32 d s = Some (h, u) \<Longrightarrow> st32 d w u = Some t \<Longrightarrow> drv s t"
  by (rule drv_trans [OF drv_access(3,4)])

lemma drv_desc_write:
  "DESC_SET_SOP d s = Some t \<Longrightarrow> drv s t" "DESC_SET_EOP d s = Some t \<Longrightarrow> drv s t"
  "DESC_SET_NPV d s = Some t \<Longrightarrow> drv s t" "DESC_SET_EOWN d s = Some t \<Longrightarrow> drv s t"
  "DESC_CLEAR_NPV d s = Some t \<Longrightarrow> drv s t" "DESC_SET_BYTECNT d n s = Some t \<Longrightarrow> drv s t"
  by (auto simp: DESC_SET_SOP_def DESC_SET_EOP_def DESC_SET_NPV_def DESC_SET_EOWN_def DESC_CLEAR_NPV_def
      DESC_SET_BYTECNT_def hdr_or_def bind_eq_Some_conv dest: drv_rmw)

subsection \<open>The PHY and the set-up\<close>

lemma hw_only_drv: "hw_only s t \<Longrightarrow> usb t = usb s \<Longrightarrow> drv s t"
proof -
  assume "hw_only s t" "usb t = usb s"
  then obtain x y where "t = s\<lparr>io := x, vol_n := y\<rparr>" by (auto simp: hw_only_def)
  then show ?thesis using drvI [where s = s and t = t and m = "mem s" and x = x and y = y and e = "eth s"] by simp
qed

lemma drv_delay: "delay_ms n s = Some t \<Longrightarrow> drv s t"
  using udelay_hw hw_only_drv unfolding delay_ms_def by blast

lemma drv_busy_wait: "busy_wait reg bits st to s = Some r \<Longrightarrow> drv s (snd r)"
proof (induction reg bits st to s r rule: busy_wait.raw_induct [rotated, consumes 1])
  case (1 loop reg bits st to s r)
  let ?u = "snd (sfr_read reg s)" and ?v = "snd (mfc0_volatile CP0_COUNT (snd (sfr_read reg s)))"
  have q: "drv s ?u" "drv s ?v" by (intro dr drv_refl)+
  show ?case
    using 1(2) 1(1) [of reg bits st to ?v r] q drv_trans [OF q(2)]
    by (auto simp: case_prod_beta split: if_splits)
qed

lemma drv_mask_wait: "mask_wait m e st to s = Some r \<Longrightarrow> drv s (snd r)"
proof (induction m e st to s r rule: mask_wait.raw_induct [rotated, consumes 1])
  case (1 loop m e st to s r)
  let ?u = "snd (sfr_read EMAC1MRDD s)" and ?v = "snd (mfc0_volatile CP0_COUNT (snd (sfr_read EMAC1MRDD s)))"
  have q: "drv s ?u" "drv s ?v" by (intro dr drv_refl)+
  show ?case
    using 1(2) 1(1) [of m e st to ?v r] q drv_trans [OF q(2)]
    by (auto simp: case_prod_beta split: if_splits)
qed

lemma drv_wait_clear: "wait_clear reg bits s = Some t \<Longrightarrow> drv s t"
proof (induction reg bits s t rule: wait_clear.raw_induct [rotated, consumes 1])
  case (1 loop reg bits s t)
  let ?u = "snd (sfr_read reg s)"
  have q: "drv s ?u" by (intro dr drv_refl)
  show ?case
    using 1(2) 1(1) [of reg bits ?u t] q drv_trans [OF q]
    by (auto simp: case_prod_beta split: if_splits)
qed

text \<open>
  A calculus for the results of a function: \<open>post Q m\<close> is that every result of \<open>m\<close> satisfies \<open>Q\<close>. The rules
  follow the structure of the function, \<open>dw\<close> holds the facts about the calls.
\<close>

definition post :: "('a \<Rightarrow> bool) \<Rightarrow> 'a option \<Rightarrow> bool" where
  "post Q m \<longleftrightarrow> (\<forall>x. m = Some x \<longrightarrow> Q x)"

named_theorems dw "results of the calls"

lemma postD: "post Q m \<Longrightarrow> m = Some x \<Longrightarrow> Q x"
  by (simp add: post_def)

lemma post_pairD: "post (\<lambda>(v, t). Q t) m \<Longrightarrow> m = Some (v, t) \<Longrightarrow> Q t"
  by (auto simp: post_def)

lemma post_pairI: "(\<And>v t. m = Some (v, t) \<Longrightarrow> Q t) \<Longrightarrow> post (\<lambda>(v, t). Q t) m"
  by (auto simp: post_def)

lemma post_intros [intro?]:
  "Q x \<Longrightarrow> post Q (Some x)" "post Q None"
  "(b \<Longrightarrow> post Q m) \<Longrightarrow> (\<not> b \<Longrightarrow> post Q m') \<Longrightarrow> post Q (if b then m else m')"
  by (simp_all add: post_def)

lemma post_bind:
  "post (\<lambda>(v, t). drv s t) m2 \<Longrightarrow> (\<And>v t. drv s t \<Longrightarrow> post Q (f2 v t)) \<Longrightarrow> post Q (m2 \<bind> (\<lambda>(v, t). f2 v t))"
  "post (\<lambda>(u, v, w, t). drv s t) m4 \<Longrightarrow> (\<And>u v w t. drv s t \<Longrightarrow> post Q (f4 u v w t)) \<Longrightarrow>
     post Q (m4 \<bind> (\<lambda>(u, v, w, t). f4 u v w t))"
  "post (drv s) m \<Longrightarrow> (\<And>t. drv s t \<Longrightarrow> post Q (f t)) \<Longrightarrow> post Q (m \<bind> f)"
  by (auto simp: post_def bind_eq_Some_conv)

lemma post_let:
  "drv s (snd p) \<Longrightarrow> (\<And>v t. drv s t \<Longrightarrow> post Q (f2 v t)) \<Longrightarrow> post Q (let (v, t) = p in f2 v t)"
  "drv s t \<Longrightarrow> (\<And>x. drv s x \<Longrightarrow> post Q (f x)) \<Longrightarrow> post Q (Let t f)"
  "(\<And>x. post Q (g x)) \<Longrightarrow> post Q (Let e g)"
  by (auto simp: case_prod_beta)

lemma post_calls [dw]:
  assumes "drv s t"
  shows "post (\<lambda>(b, u). drv s u) (busy_wait reg bits st to t)" "post (\<lambda>(b, u). drv s u) (mask_wait m e st to t)"
    "post (drv s) (delay_ms n t)" "post (drv s) (wait_clear reg bits t)"
    "post (\<lambda>(v, u). drv s u) (ld32 a t)" "post (drv s) (st32 a w t)" "post (drv s) (st_bytes a bs t)"
    "post (drv s) (memcpy_hv d a n t)"
    "post (\<lambda>(v, u). drv s u) (DESC_EOP d t)" "post (\<lambda>(v, u). drv s u) (DESC_EOWN d t)"
    "post (\<lambda>(v, u). drv s u) (DESC_BYTECNT d t)" "post (\<lambda>(v, u). drv s u) (DESC_FRAMESZ d t)"
    "post (drv s) (DESC_SET_SOP d t)" "post (drv s) (DESC_SET_EOP d t)" "post (drv s) (DESC_SET_NPV d t)"
    "post (drv s) (DESC_SET_EOWN d t)" "post (drv s) (DESC_CLEAR_NPV d t)" "post (drv s) (DESC_SET_BYTECNT d k t)"
  unfolding post_def
  by (auto dest!: drv_busy_wait drv_mask_wait drv_delay drv_wait_clear drv_access drv_bytes drv_memcpy drv_desc_read
      drv_desc_write intro: drv_trans [OF assms])

lemma post_pair_Some: "drv s t \<Longrightarrow> post (\<lambda>(v, u). drv s u) (Some (x, t))"
  "drv s t \<Longrightarrow> post (\<lambda>(u, v, w, u). drv s u) (Some (a, b, c, t))"
  by (simp_all add: post_def)

lemmas post_rules = post_pair_Some post_intros post_bind post_let

lemma phy_read_post [dw]: "drv s t \<Longrightarrow> post (\<lambda>(v, u). drv s u) (phy_read addr reg msec t)"
  unfolding phy_read_def by (intro post_rules dw dr | assumption)+

lemma phy_scan_post [dw]: "drv s t \<Longrightarrow> post (\<lambda>(v, u). drv s u) (phy_scan addr reg m e msec t)"
  unfolding phy_scan_def by (intro post_rules dw dr | assumption)+

lemma phy_write_post [dw]: "drv s t \<Longrightarrow> post (\<lambda>(v, u). drv s u) (phy_write addr reg x msec t)"
  unfolding phy_write_def by (intro post_rules dw dr | assumption)+

lemma phy_reset_post [dw]: "drv s t \<Longrightarrow> post (\<lambda>(v, u). drv s u) (phy_reset addr t)"
  unfolding phy_reset_def by (intro post_rules dw dr | assumption)+

lemma setup_post [dw]:
  assumes "drv s t"
  shows "post (drv s) (en_setup f t)" "post (drv s) (en_setup_mac t)" "post (drv s) (en_setup_rmii t)"
    "post (\<lambda>(b, u). drv s u) (devcfg3_fethio t)"
  unfolding en_setup_def en_setup_mac_def en_setup_rmii_def devcfg3_fethio_def
  by (intro post_rules dw dr | assumption | rule assms)+

lemma setup_signals_post [dw]: "drv s t \<Longrightarrow> post (drv s) (setup_signals t)"
  unfolding setup_signals_def by (intro post_rules dw dr | assumption)+

lemma setup_rx_descs_post [dw]: "drv s t \<Longrightarrow> post (drv s) (setup_rx_descs is t)"
proof (induction "is" arbitrary: t)
  case (Cons i "is")
  show ?case unfolding setup_rx_descs.simps by (intro post_rules dw dr Cons.IH | assumption | rule Cons.prems)+
qed (simp add: post_def)

lemma en_setup_dma_post [dw]: "drv s t \<Longrightarrow> post (drv s) (en_setup_dma t)"
  unfolding en_setup_dma_def by (intro post_rules dw dr | assumption)+

lemma phy_poll_post [dw]:
  "drv s t \<Longrightarrow> post (\<lambda>(sp, fd, u). drv s u) (phy_lan87x0a_poll addr sp fd t)"
  unfolding phy_lan87x0a_poll_def
  by (rule post_bind(1) [OF phy_read_post]) (auto simp: post_def)

lemma is_phy_linked_post [dw]:
  assumes "drv s t"
  shows "post (\<lambda>(up, sp, fd, u). drv s u \<and> up \<le> 1) (is_phy_linked addr sp fd t)"
proof -
  have "drv s x" if "phy_read addr 1 1 t = Some (v, x)" for v x
    using phy_read_post [OF assms] that by (auto simp: post_def)
  moreover have "drv s y" if "drv s x" "phy_lan87x0a_poll addr sp fd x = Some (a, b, y)" for a b x y
    using phy_poll_post [OF that(1)] that(2) by (auto simp: post_def)
  ultimately show ?thesis
    unfolding post_def is_phy_linked_def by (auto simp: bind_eq_Some_conv split: if_splits)
qed

subsection \<open>Frames\<close>

lemma rx_copy_drv: "rx_copy buf s = Some t \<Longrightarrow> drv s t"
proof (induction buf s t rule: rx_copy.raw_induct [rotated, consumes 1])
  case (1 loop buf s t)
  have IH: "drv s u \<Longrightarrow> post (drv s) (loop b u)" for b u
    using 1(1) [of b u] drv_trans unfolding post_def by blast
  have "post (drv s) (Some t)"
    unfolding 1(2) [symmetric] by (intro post_rules dw dr IH | assumption | rule drv_refl)+
  then show ?case by (simp add: post_def)
qed

lemma rx_release_drv: "rx_release s = Some t \<Longrightarrow> drv s t"
proof (induction s t rule: rx_release.raw_induct [rotated, consumes 1])
  case (1 loop s t)
  have IH: "drv s u \<Longrightarrow> post (drv s) (loop u)" for u
    using 1(1) [of u] drv_trans unfolding post_def by blast
  have "post (drv s) (Some t)"
    unfolding 1(2) [symmetric] by (intro post_rules dw dr IH | assumption | rule drv_refl)+
  then show ?case by (simp add: post_def)
qed

lemma rx_loops_post [dw]: "drv s t \<Longrightarrow> post (drv s) (rx_copy b t)" "drv s t \<Longrightarrow> post (drv s) (rx_release t)"
  unfolding post_def using rx_copy_drv rx_release_drv drv_trans by blast+

lemma en_ll_input_post [dw]: "drv s t \<Longrightarrow> post (\<lambda>(v, u). drv s u) (en_ll_input b t)"
  unfolding en_ll_input_def by (intro post_rules dw dr | assumption)+

lemma en_ll_output_post [dw]: "drv s t \<Longrightarrow> post (drv s) (en_ll_output b n t)"
  unfolding en_ll_output_def by (intro post_rules dw dr | assumption)+

lemma detect_phy_post [dw]: "drv s t \<Longrightarrow> post (drv s) (detect_phy is t)"
proof (induction "is" arbitrary: t)
  case Nil
  then show ?case by (simp add: post_def drv_port)
next
  case (Cons i "is")
  have "drv s (set_port (\<lambda>e. e\<lparr>phy_addr := of_nat i\<rparr>) t)" by (rule drv_port [OF Cons.prems]) simp
  then show ?case unfolding detect_phy.simps by (intro post_rules dw Cons.IH | assumption)+
qed

lemma read_mac_drv [dr]: "drv s t \<Longrightarrow> drv s (read_mac t)"
proof -
  assume "drv s t"
  then have "drv s (set_port (\<lambda>p. p\<lparr>macaddr := [a, b, c, d, e, f]\<rparr>) (snd (sfr_read EMAC1SA0 (snd (sfr_read EMAC1SA0
      (snd (sfr_read EMAC1SA1 (snd (sfr_read EMAC1SA1 (snd (sfr_read EMAC1SA2 (snd (sfr_read EMAC1SA2 t)))))))))))))" for a b c d e f
    by (intro drv_port) (intro dr, assumption, simp)
  then show ?thesis unfolding read_mac_def Let_def case_prod_beta .
qed

lemma en_init_parts_post [dw]:
  assumes "drv s t"
  shows "post (drv s) (en_bring_up f t)" "post (drv s) (en_identify t)"
proof -
  have up: "drv s (set_port (\<lambda>e. e\<lparr>is_up := 0\<rparr>) u)" if "drv s u" for u
    by (rule drv_port [OF that]) simp
  have id: "drv s (set_port (\<lambda>e. e\<lparr>phy_id := i\<rparr>) u)" if "drv s u" for u i
    by (rule drv_port [OF that]) simp
  show "post (drv s) (en_bring_up f t)"
    unfolding en_bring_up_def by (intro post_rules dw | rule up | assumption | rule assms)+
  show "post (drv s) (en_identify t)"
    unfolding en_identify_def by (intro post_rules dw dr id | assumption | rule assms)+
qed

subsection \<open>Handlers\<close>

lemma ethernet_interrupt_handler_krel:
  assumes "ethernet_interrupt_handler s = Some t"
  shows "krel s t"
proof -
  obtain p u where u: "fast_interrupt_delivery p s = Some u"
    and t: "t = sfr_write ETHIRQCLR (fst (sfr_read ETHIRQ (sfr_write (IFSCLR 4) (push_bit 25 1) u)))
      (snd (sfr_read ETHIRQ (sfr_write (IFSCLR 4) (push_bit 25 1) u)))"
    using assms by (auto simp: ethernet_interrupt_handler_def bind_eq_Some_conv case_prod_beta)
  have "drv u t" unfolding t by (intro dr drv_refl)
  with fast_interrupt_delivery_krel [OF u] show ?thesis by (meson krel_trans drv_krel)
qed

lemma eth_calls_krel:
  "en_get_mac s = Some t \<Longrightarrow> krel s t" "receive_frame s = Some t \<Longrightarrow> krel s t"
  "send_frame s = Some t \<Longrightarrow> krel s t" "en_watchdog s = Some t \<Longrightarrow> krel s t"
proof -
  note mv = quiet_krel [OF MoveTo_quiet] and win = quiet_krel [OF tlbCreateEntry_quiet]
  show "en_get_mac s = Some t \<Longrightarrow> krel s t"
    by (auto simp: en_get_mac_def bind_eq_Some_conv intro: krel_trans [OF win drv_krel [OF drv_bytes]])
  show "receive_frame s = Some t \<Longrightarrow> krel s t"
    using post_pairD [OF en_ll_input_post [OF drv_refl]]
    by (auto simp: receive_frame_def bind_eq_Some_conv intro: krel_trans [OF krel_trans [OF win drv_krel] mv])
  show "krel s t" if st: "send_frame s = Some t"
  proof -
    let ?sz = "MoveFromPreviousGuestGPR REG_A1 s"
    obtain m where m: "cur_vm s = Some m" using st by (cases "cur_vm s") (simp_all add: send_frame_def)
    obtain va s1 where w: "tlbCreateEntry (MoveFromPreviousGuestGPR REG_A0 s) (base_addr m) ?sz 0xF True s = Some (va, s1)"
      using st m by (cases "tlbCreateEntry (MoveFromPreviousGuestGPR REG_A0 s) (base_addr m) ?sz 0xF True s") (auto simp: send_frame_def)
    define buf where "buf = MACH_PHYS_TO_VIRT (MACH_VIRT_TO_PHYS (tx_buf_addr (conf s1)))"
    have f: "copy_count buf va ?sz \<le> 1536"
      using st m w by (cases "copy_count buf va ?sz \<le> 1536") (simp_all add: send_frame_def Let_def buf_def [symmetric])
    obtain s2 where c: "memcpy_hv buf va ?sz s1 = Some s2"
      using st m w f by (cases "memcpy_hv buf va ?sz s1") (simp_all add: send_frame_def Let_def buf_def [symmetric])
    have o: "en_ll_output buf (ucast ?sz) (MoveToPreviousGuestGPR REG_V0 ?sz s2) = Some t"
      using st m w f c by (simp add: send_frame_def Let_def buf_def [symmetric])
    show ?thesis
      by (rule krel_trans [OF krel_trans [OF win [OF w] drv_krel [OF drv_memcpy [OF c]]]
            krel_trans [OF mv drv_krel [OF postD [OF en_ll_output_post [OF drv_refl] o]]]])
  qed
  show "krel s t" if st: "en_watchdog s = Some t"
  proof -
    let ?s1 = "snd (sfr_read ETHCON1 s)"
    obtain up sp fd s2 where l: "is_phy_linked (phy_addr (eth_port (eth ?s1))) True True ?s1 = Some (up, sp, fd, s2)"
      using st by (cases "is_phy_linked (phy_addr (eth_port (eth ?s1))) True True ?s1")
        (auto simp: en_watchdog_def case_prod_beta Let_def)
    have q: "drv s s2" "up \<le> 1"
      using is_phy_linked_post [OF drv_sfr(2) [OF drv_refl]] l by (fastforce simp: post_def)+
    let ?p = "set_port (\<lambda>e. e\<lparr>is_up := up\<rparr>) s2"
    let ?s3 = "MoveToPreviousGuestGPR REG_V0 up ?p"
    have p: "drv s ?p" by (rule drv_port [OF q(1)]) (use q(2) in simp)
    have "post (drv ?s3) (Some t)"
      unfolding st [symmetric] en_watchdog_def
      by (simp add: case_prod_beta l Let_def) (intro post_rules conjI impI dw dr | assumption | rule drv_refl)+
    then have "drv ?s3 t" by (simp add: post_def)
    then show ?thesis by (rule krel_trans [OF krel_trans [OF drv_krel [OF p] mv] drv_krel])
  qed
qed

end
