(* ===== verification/EthRing.thy ===== *)
theory EthRing
  imports EthFrame
begin

text \<open>
  What the receive and transmit paths of the Ethernet driver do to memory: the copy of a frame out of the
  descriptor ring, the return of the descriptors to the controller, the set-up of the ring, and the
  descriptor of a frame that is sent.
\<close>

subsection \<open>Words and bytes in mapped memory\<close>

lemma maps_to_upd [simp]:
  "maps_to (s\<lparr>eth := x\<rparr>) va pa n = maps_to s va pa n" "maps_to (s\<lparr>io := y\<rparr>) va pa n = maps_to s va pa n"
  "maps_to (s\<lparr>vol_n := z\<rparr>) va pa n = maps_to s va pa n"
  by (simp_all add: maps_to_def root_translate_def hw_lookup_def mfc0_def is_ram_def)

lemma maps_to_eth [simp]: "maps_to (set_eth f s) va pa n = maps_to s va pa n"
  by (simp add: set_eth_def)

lemma maps_to_sfr_write [simp]: "maps_to (sfr_write a v s) va pa n = maps_to s va pa n"
  by (simp add: sfr_write_def dev_write_def)

lemma maps_to_shift:
  assumes "maps_to s va pa n" "i + k \<le> n"
  shows "maps_to s (va + of_nat i) (pa + of_nat i) k"
  unfolding maps_to_def
proof (intro allI impI)
  fix j wr assume "j < k"
  then show "root_translate wr (va + of_nat i + of_nat j) s = Some (pa + of_nat i + of_nat j) \<and> is_ram s (pa + of_nat i + of_nat j)"
    using assms maps_toD [OF assms(1), of "i + j"] by (simp add: algebra_simps)
qed

lemma maps_to_le: "maps_to s va pa n \<Longrightarrow> k \<le> n \<Longrightarrow> maps_to s va pa k"
  using maps_to_shift [of s va pa n 0 k] by simp

lemma maps_to_word:
  assumes "maps_to s va pa n" "4 \<le> n" "va AND 3 = 0"
  shows "ld32 va s = Some (mem32 (mem s) pa, s)" "st32 va v s = Some (s\<lparr>mem := set_mem32 (mem s) pa v\<rparr>)"
  using assms maps_toD [OF assms(1), of 0] by (simp_all add: ld32_def st32_def)

lemma align_add: "y AND 3 = 0 \<Longrightarrow> (x + y) AND 3 = x AND 3" for x y :: u32
  using aligned_plus [of y 2 x] by (simp add: mask_eq_exp_minus_1 add.commute)

lemma align_16: "(16 * i) AND 3 = 0" for i :: u32
proof -
  have e: "16 * i = push_bit 4 i" by (simp add: push_bit_eq_mult)
  have m: "(3 :: u32) = mask 2" by (simp add: mask_eq_exp_minus_1)
  show ?thesis unfolding e m by (rule bit_word_eqI) (auto simp: bit_simps)
qed

lemma aligned_4 [simp]:
  "(va + 4) AND 3 = va AND 3" "(va + 12) AND 3 = va AND 3"
  "(va + 16 * i) AND 3 = va AND 3" "(va + 16 * i + 4) AND 3 = va AND 3" for va i :: u32
  by (simp_all add: align_add align_16)

text \<open>The two loops of \<open>memcpy\<close> between disjoint buffers.\<close>

definition apart :: "u32 \<Rightarrow> nat \<Rightarrow> u32 \<Rightarrow> nat \<Rightarrow> bool" where
  "apart a n b k \<longleftrightarrow> (\<forall>i<n. \<forall>j<k. a + of_nat i \<noteq> b + of_nat j)"

lemma apart_le: "apart a n b k \<Longrightarrow> n' \<le> n \<Longrightarrow> k' \<le> k \<Longrightarrow> apart a n' b k'"
  by (simp add: apart_def)

lemma apart_shift: "apart a n b k \<Longrightarrow> i + n' \<le> n \<Longrightarrow> j + k' \<le> k \<Longrightarrow> apart (a + of_nat i) n' (b + of_nat j) k'"
proof -
  assume a: "apart a n b k" "i + n' \<le> n" "j + k' \<le> k"
  have "a + of_nat i + of_nat x \<noteq> b + of_nat j + of_nat y" if "x < n'" "y < k'" for x y
    using a(1) [unfolded apart_def, rule_format, of "i + x" "j + y"] that a(2,3) by (simp add: add.assoc)
  then show ?thesis by (simp add: apart_def)
qed

lemma apart_less:
  assumes "unat a + n \<le> unat b" "unat b + k \<le> 2 ^ 32"
  shows "apart a n b k"
  unfolding apart_def
proof (intro allI impI notI)
  fix i j assume ij: "i < n" "j < k" and e: "a + of_nat i = b + of_nat j"
  have u: "unat (of_nat i :: u32) = i" "unat (of_nat j :: u32) = j"
    using ij assms by (simp_all add: unsigned_of_nat take_bit_nat_eq_self)
  have "unat (a + of_nat i) = unat a + i" "unat (b + of_nat j) = unat b + j"
    using ij assms u by (subst unat_add_u32; simp)+
  then show False using e ij assms by simp
qed

lemma put_bytes_in: "i < length bs \<Longrightarrow> length bs < 2 ^ 32 \<Longrightarrow> put_bytes m pa bs (pa + of_nat i) = bs ! i"
  by (simp add: put_bytes_def unat_of_nat_u32)

lemma put_bytes_out: "(\<And>i. i < length bs \<Longrightarrow> a \<noteq> pa + of_nat i) \<Longrightarrow> put_bytes m pa bs a = m a"
proof -
  assume o: "\<And>i. i < length bs \<Longrightarrow> a \<noteq> pa + of_nat i"
  have "\<not> unat (a - pa) < length bs" using o [of "unat (a - pa)"] by auto
  then show ?thesis by (simp add: put_bytes_def)
qed

lemma bytes_at_put_out: "apart a n b (length bs) \<Longrightarrow> bytes_at (put_bytes m b bs) a n = bytes_at m a n"
  unfolding bytes_at_def apart_def by (intro map_cong refl) (auto intro!: put_bytes_out)

lemma put_bytes_append:
  assumes "length xs + length ys < 2 ^ 32"
  shows "put_bytes (put_bytes m pa xs) (pa + of_nat (length xs)) ys = put_bytes m pa (xs @ ys)"
proof
  fix a
  let ?k = "unat (a - pa)"
  have e: "unat (a - (pa + of_nat (length xs))) = ?k - length xs" if "length xs \<le> ?k"
  proof -
    have "unat (of_nat (length xs) :: u32) = length xs" using assms by (simp add: unat_of_nat_u32)
    then have "of_nat (length xs) \<le> a - pa" using that by (simp add: word_le_nat_alt)
    then show ?thesis using \<open>unat (of_nat (length xs) :: u32) = length xs\<close>
      by (simp add: unat_sub diff_diff_eq [symmetric] del: diff_diff_eq)
  qed
  have o: "length ys \<le> unat (a - (pa + of_nat (length xs)))" if "?k < length xs"
  proof (rule ccontr)
    assume n: "\<not> ?thesis"
    define j where "j = unat (a - (pa + of_nat (length xs)))"
    have j: "j < length ys" "a = pa + of_nat (length xs) + of_nat j" using n by (simp_all add: j_def)
    then have "?k = length xs + j" using assms by (simp add: unat_of_nat_u32 flip: of_nat_add)
    then show False using that by simp
  qed
  show "put_bytes (put_bytes m pa xs) (pa + of_nat (length xs)) ys a = put_bytes m pa (xs @ ys) a"
    using e o by (cases "?k < length xs") (auto simp: put_bytes_def nth_append)
qed

lemma bytes_at_length [simp]: "length (bytes_at m pa n) = n"
  by (simp add: bytes_at_def)

lemma bytes_at_append: "bytes_at m pa (i + k) = bytes_at m pa i @ bytes_at m (pa + of_nat i) k"
  by (rule nth_equalityI) (auto simp: bytes_at_def nth_append add.assoc simp flip: of_nat_add)

lemma apart_Suc: "apart a (Suc n) b (Suc k) \<Longrightarrow> apart (a + 1) n (b + 1) k"
  using apart_shift [of a "Suc n" b "Suc k" 1 n 1 k] by simp

lemma apart_0: "apart a (Suc n) b k \<Longrightarrow> j < k \<Longrightarrow> a \<noteq> b + of_nat j"
  unfolding apart_def by (drule spec [of _ 0]) simp

lemma apart_sym: "apart a n b k \<Longrightarrow> apart b k a n"
  unfolding apart_def by metis

lemma copy8_maps:
  "maps_to s d dp n \<Longrightarrow> maps_to s a ap n \<Longrightarrow> apart dp n ap n \<Longrightarrow> n < 2 ^ 32 \<Longrightarrow>
     copy8 n d a s = Some (s\<lparr>mem := put_bytes (mem s) dp (bytes_at (mem s) ap n)\<rparr>)"
proof (induction n arbitrary: s d dp a ap)
  case 0
  then show ?case by (simp add: bytes_at_def put_bytes_def)
next
  case (Suc n)
  let ?b = "mem s ap"
  let ?u = "s\<lparr>mem := (mem s)(dp := ?b)\<rparr>"
  have "bytes_at (put_bytes (mem s) dp [?b]) (ap + 1) n = bytes_at (mem s) (ap + 1) n"
    using apart_shift [OF apart_sym [OF Suc.prems(3)], of 1 n 0 1] by (intro bytes_at_put_out) simp
  moreover have "put_bytes (mem s) dp [?b] = (mem s)(dp := ?b)" by (auto simp: put_bytes_def fun_eq_iff unat_eq_0)
  ultimately have b: "bytes_at ((mem s)(dp := ?b)) (ap + 1) n = bytes_at (mem s) (ap + 1) n" by simp
  have "copy8 n (d + 1) (a + 1) ?u = Some (?u\<lparr>mem := put_bytes (mem ?u) (dp + 1) (bytes_at (mem ?u) (ap + 1) n)\<rparr>)"
    using Suc.prems by (intro Suc.IH) (auto intro: maps_to_Suc apart_Suc)
  then show ?case
    using maps_to_0 [OF Suc.prems(1), of True] maps_to_0 [OF Suc.prems(2), of False] Suc.prems(4) put_bytes_Cons [of "bytes_at (mem s) (ap + 1) n" "mem s" dp ?b]
    by (simp add: ld8_def st8_def b bytes_at_Suc del: fun_upd_apply)
qed

lemma word_put: "set_mem32 m dp (mem32 m ap) = put_bytes m dp (bytes_at m ap 4)"
proof
  fix a
  have b: "ucast (mem32 m ap) = m ap" "ucast (drop_bit 8 (mem32 m ap)) = m (ap + 1)"
    "ucast (drop_bit 16 (mem32 m ap)) = m (ap + 2)" "ucast (drop_bit 24 (mem32 m ap)) = m (ap + 3)"
    unfolding mem32_def by (rule bit_word_eqI; auto simp: bit_simps dest: bit_imp_le_length)+
  have l: "bytes_at m ap 4 = [m ap, m (ap + 1), m (ap + 2), m (ap + 3)]"
    by (simp add: bytes_at_def numeral_eq_Suc upt_rec)
  show "set_mem32 m dp (mem32 m ap) a = put_bytes m dp (bytes_at m ap 4) a"
  proof (cases "unat (a - dp) < 4")
    case True
    then consider "a = dp" | "a = dp + 1" | "a = dp + 2" | "a = dp + 3"
    proof -
      define k where "k = unat (a - dp)"
      have k: "a = dp + of_nat k" by (simp add: k_def)
      have "k = 0 \<or> k = 1 \<or> k = 2 \<or> k = 3" using True by (auto simp: k_def)
      then show ?thesis using that k by (elim disjE) simp_all
    qed
    then show ?thesis by cases (simp_all add: set_mem32_def b l put_bytes_def)
  next
    case False
    then have "a \<noteq> dp" "a \<noteq> dp + 1" "a \<noteq> dp + 2" "a \<noteq> dp + 3" by auto
    then show ?thesis using False by (simp add: set_mem32_other put_bytes_def)
  qed
qed

lemma copy32_maps:
  "maps_to s d dp (4 * n) \<Longrightarrow> maps_to s a ap (4 * n) \<Longrightarrow> apart dp (4 * n) ap (4 * n) \<Longrightarrow> 4 * n < 2 ^ 32 \<Longrightarrow>
     d AND 3 = 0 \<Longrightarrow> a AND 3 = 0 \<Longrightarrow>
     copy32 n d a s = Some (s\<lparr>mem := put_bytes (mem s) dp (bytes_at (mem s) ap (4 * n))\<rparr>)"
proof (induction n arbitrary: s d dp a ap)
  case 0
  then show ?case by (simp add: bytes_at_def put_bytes_def)
next
  case (Suc n)
  let ?m = "put_bytes (mem s) dp (bytes_at (mem s) ap 4)"
  let ?u = "s\<lparr>mem := ?m\<rparr>"
  have sh: "maps_to s (d + 4) (dp + 4) (4 * n)" "maps_to s (a + 4) (ap + 4) (4 * n)" "apart (dp + 4) (4 * n) (ap + 4) (4 * n)"
    using maps_to_shift [OF Suc.prems(1), of 4 "4 * n"] maps_to_shift [OF Suc.prems(2), of 4 "4 * n"]
      apart_shift [OF Suc.prems(3), of 4 "4 * n" 4 "4 * n"] by simp_all
  have "apart (ap + of_nat 4) (4 * n) (dp + of_nat 0) 4"
    by (rule apart_shift [OF apart_sym [OF Suc.prems(3)]]) simp_all
  then have b: "bytes_at ?m (ap + 4) (4 * n) = bytes_at (mem s) (ap + 4) (4 * n)" by (intro bytes_at_put_out) simp
  have "copy32 n (d + 4) (a + 4) ?u = Some (?u\<lparr>mem := put_bytes (mem ?u) (dp + 4) (bytes_at (mem ?u) (ap + 4) (4 * n))\<rparr>)"
    using sh Suc.prems by (intro Suc.IH) simp_all
  moreover have "put_bytes ?m (dp + 4) (bytes_at (mem s) (ap + 4) (4 * n)) = put_bytes (mem s) dp (bytes_at (mem s) ap (4 * Suc n))"
    using put_bytes_append [of "bytes_at (mem s) ap 4" "bytes_at (mem s) (ap + 4) (4 * n)" "mem s" dp]
      bytes_at_append [of "mem s" ap 4 "4 * n"] Suc.prems(4) by simp
  ultimately show ?case
    using maps_to_word [OF Suc.prems(1) _ Suc.prems(5)] maps_to_word [OF Suc.prems(2) _ Suc.prems(6)]
    by (simp add: b word_put)
qed

lemma memcpy_hv_maps:
  assumes "maps_to s d dp (unat n)" "maps_to s a ap (unat n)" "apart dp (unat n) ap (unat n)" "n < 0x80000000"
  shows "memcpy_hv d a n s = Some (s\<lparr>mem := put_bytes (mem s) dp (bytes_at (mem s) ap (unat n))\<rparr>)"
proof (cases "(d OR a OR n) AND 3 = 0")
  case False
  then show ?thesis using copy8_maps [OF assms(1-3)] copy_count_small [OF assms(4), of d a] unat_u32_less [of n]
    by (simp add: memcpy_hv_def copy_count_def)
next
  case True
  then have "d AND 3 = 0" "a AND 3 = 0" by (simp_all add: bit.conj_disj_distrib2 or_eq_0_iff)
  moreover have "4 * loop_count (drop_bit 2 n) = unat n"
    using copy_count_small [OF assms(4), of d a] True by (simp add: copy_count_def)
  ultimately show ?thesis
    using copy32_maps [of s d dp "loop_count (drop_bit 2 n)" a ap] assms(1-3) True unat_u32_less [of n] by (simp add: memcpy_hv_def)
qed

subsection \<open>Descriptors in memory\<close>

definition desc_hdr :: "(u32 \<Rightarrow> u8) \<Rightarrow> u32 \<Rightarrow> nat \<Rightarrow> u32" where
  "desc_hdr m P i = mem32 m (P + of_nat (16 * i))"

definition desc_addr :: "(u32 \<Rightarrow> u8) \<Rightarrow> u32 \<Rightarrow> nat \<Rightarrow> u32" where
  "desc_addr m P i = mem32 m (P + of_nat (16 * i + 4))"

text \<open>A descriptor the software owns, with \<open>n\<close> bytes at \<open>pa\<close>, the last one of a packet or not.\<close>

definition desc_ready :: "(u32 \<Rightarrow> u8) \<Rightarrow> u32 \<Rightarrow> nat \<Rightarrow> u32 \<Rightarrow> nat \<Rightarrow> bool \<Rightarrow> bool" where
  "desc_ready m P i pa n eop \<longleftrightarrow> i < 48 \<and> 0 < n \<and> n < 2048 \<and>
     desc_hdr m P i AND 0x80 = 0 \<and> drop_bit 16 (desc_hdr m P i) AND 0x7FF = of_nat n \<and>
     (desc_hdr m P i AND 0x40000000 \<noteq> 0 \<longleftrightarrow> eop) \<and> desc_addr m P i = pa"

text \<open>A packet: index of the descriptor, address and length of its part of the frame.\<close>

fun rx_packet :: "(u32 \<Rightarrow> u8) \<Rightarrow> u32 \<Rightarrow> (nat \<times> u32 \<times> nat) list \<Rightarrow> bool" where
  "rx_packet m P [] = False"
| "rx_packet m P [(i, pa, n)] = desc_ready m P i pa n True"
| "rx_packet m P ((i, pa, n) # (j, x) # xs) =
     (desc_ready m P i pa n False \<and> j = (i + 1) mod 48 \<and> rx_packet m P ((j, x) # xs))"

definition seg_total :: "(nat \<times> u32 \<times> nat) list \<Rightarrow> nat" where
  "seg_total segs = sum_list (map (\<lambda>(i, pa, n). n) segs)"

definition seg_bytes :: "(u32 \<Rightarrow> u8) \<Rightarrow> (nat \<times> u32 \<times> nat) list \<Rightarrow> u8 list" where
  "seg_bytes m segs = concat (map (\<lambda>(i, pa, n). bytes_at m pa n) segs)"

text \<open>
  The part of the packet that reaches the guest: the copy stops when what was read equals what is left,
  \<open>c\<close> being what was read before.
\<close>

fun delivered :: "nat \<Rightarrow> (nat \<times> u32 \<times> nat) list \<Rightarrow> (nat \<times> u32 \<times> nat) list" where
  "delivered c [] = []"
| "delivered c ((i, pa, n) # xs) =
     (i, pa, n) # (if c + n = seg_total xs then [] else delivered (c + n) xs)"

text \<open>The headers after the descriptors went back to the controller.\<close>

fun give_back :: "u32 \<Rightarrow> nat list \<Rightarrow> (u32 \<Rightarrow> u8) \<Rightarrow> u32 \<Rightarrow> u8" where
  "give_back P [] m = m"
| "give_back P (i # is) m = give_back P is (set_mem32 m (P + of_nat (16 * i)) (desc_hdr m P i OR 0x80))"

lemma mem32_cong: "(\<And>j. j < 4 \<Longrightarrow> m (a + of_nat j) = m' (a + of_nat j)) \<Longrightarrow> mem32 m a = mem32 m' a"
proof -
  assume c: "\<And>j. j < 4 \<Longrightarrow> m (a + of_nat j) = m' (a + of_nat j)"
  show ?thesis using c [of 0] c [of 1] c [of 2] c [of 3] by (simp add: mem32_def)
qed

lemma mem32_put_out: "apart a 4 b (length bs) \<Longrightarrow> mem32 (put_bytes m b bs) a = mem32 m a"
  unfolding apart_def by (rule mem32_cong, rule put_bytes_out) blast

lemma mem32_set_out: "apart a 4 b 4 \<Longrightarrow> mem32 (set_mem32 m b v) a = mem32 m a"
proof (rule mem32_cong)
  fix j assume a: "apart a 4 b 4" "j < (4 :: nat)"
  then have "a + of_nat j \<noteq> b + of_nat k" if "k < 4" for k using that by (simp add: apart_def)
  from this [of 0] this [of 1] this [of 2] this [of 3]
  show "set_mem32 m b v (a + of_nat j) = m (a + of_nat j)" by (simp add: set_mem32_other)
qed

lemma bytes_at_set_out: "apart a n b 4 \<Longrightarrow> bytes_at (set_mem32 m b v) a n = bytes_at m a n"
proof -
  assume a: "apart a n b 4"
  have "set_mem32 m b v (a + of_nat j) = m (a + of_nat j)" if "j < n" for j
  proof -
    have "a + of_nat j \<noteq> b + of_nat k" if "k < 4" for k using a \<open>j < n\<close> that by (simp add: apart_def)
    from this [of 0] this [of 1] this [of 2] this [of 3] show ?thesis by (simp add: set_mem32_other)
  qed
  then show ?thesis by (simp add: bytes_at_def)
qed

lemma same_block_apart:
  assumes "i + k \<le> j \<or> j + n \<le> i" "i + k < 2 ^ 32" "j + n < 2 ^ 32"
  shows "apart (P + of_nat i) k (P + of_nat j) n"
proof -
  have "i + x = j + y" if "P + of_nat i + of_nat x = P + of_nat j + of_nat y" "x < k" "y < n" for x y
  proof -
    have "(of_nat (i + x) :: u32) = of_nat (j + y)" using that(1) by (simp add: add.assoc)
    then have "unat (of_nat (i + x) :: u32) = unat (of_nat (j + y) :: u32)" by simp
    then show ?thesis using assms(2,3) that(2,3) by (simp only: unat_of_nat_u32)
  qed
  then show ?thesis using assms(1) unfolding apart_def by fastforce
qed

lemma desc_ready_put:
  assumes "apart P 784 b (length bs)"
  shows "desc_ready (put_bytes m b bs) P i pa n e = desc_ready m P i pa n e"
proof (cases "i < 48")
  case True
  have "apart (P + of_nat (16 * i)) 4 b (length bs)" "apart (P + of_nat (16 * i + 4)) 4 b (length bs)"
    using apart_shift [OF assms, of "16 * i" 4 0] apart_shift [OF assms, of "16 * i + 4" 4 0] True by simp_all
  from mem32_put_out [OF this(1)] mem32_put_out [OF this(2)]
  show ?thesis by (simp only: desc_ready_def desc_hdr_def desc_addr_def)
qed (simp add: desc_ready_def)

lemma rx_packet_put:
  "apart P 784 b (length bs) \<Longrightarrow> rx_packet (put_bytes m b bs) P segs = rx_packet m P segs"
  by (induction m P segs rule: rx_packet.induct) (simp_all add: desc_ready_put)

lemma desc_hdr_set:
  assumes "i < 48" "j < 48" "i \<noteq> j"
  shows "desc_hdr (set_mem32 m (P + of_nat (16 * j)) v) P i = desc_hdr m P i"
    "desc_addr (set_mem32 m (P + of_nat (16 * j)) v) P i = desc_addr m P i"
proof -
  have o: "16 * i + 4 \<le> 16 * j \<or> 16 * j + 4 \<le> 16 * i" "16 * i + 8 \<le> 16 * j \<or> 16 * j + 4 \<le> 16 * i + 4"
    using assms(3) by presburger+
  have "apart (P + of_nat (16 * i)) 4 (P + of_nat (16 * j)) 4"
    by (rule same_block_apart [OF o(1)]) (use assms in simp_all)
  moreover have "apart (P + of_nat (16 * i + 4)) 4 (P + of_nat (16 * j)) 4"
    by (rule same_block_apart) (use assms o(2) in \<open>simp_all add: add.commute\<close>)
  ultimately show "desc_hdr (set_mem32 m (P + of_nat (16 * j)) v) P i = desc_hdr m P i"
    "desc_addr (set_mem32 m (P + of_nat (16 * j)) v) P i = desc_addr m P i"
    unfolding desc_hdr_def desc_addr_def by (simp_all only: mem32_set_out)
qed

lemma rx_packet_set:
  "j < 48 \<Longrightarrow> j \<notin> fst ` set segs \<Longrightarrow> rx_packet (set_mem32 m (P + of_nat (16 * j)) v) P segs = rx_packet m P segs"
proof (induction m P segs rule: rx_packet.induct)
  case (2 m P i pa n)
  then show ?case by (auto simp: desc_ready_def desc_hdr_set simp del: of_nat_mult of_nat_add)
next
  case (3 m P i pa n k x xs)
  have "desc_ready (set_mem32 m (P + of_nat (16 * j)) v) P i pa n False = desc_ready m P i pa n False"
    using 3(2,3) by (auto simp: desc_ready_def desc_hdr_set simp del: of_nat_mult of_nat_add)
  moreover have "rx_packet (set_mem32 m (P + of_nat (16 * j)) v) P ((k, x) # xs) = rx_packet m P ((k, x) # xs)"
    using 3(2,3) by (intro 3(1)) auto
  ultimately show ?case by simp
qed simp


subsection \<open>The receive loops\<close>

text \<open>The ring as the driver sees it: the descriptors are mapped, aligned, and at a known place.\<close>

definition descs_at :: "hv \<Rightarrow> u32 \<Rightarrow> bool" where
  "descs_at s P \<longleftrightarrow> maps_to s (rx_desc (eth_port (eth s))) P 784 \<and> rx_desc (eth_port (eth s)) AND 3 = 0"

text \<open>Where the parts of a packet are copied to and from.\<close>

definition rx_places :: "hv \<Rightarrow> u32 \<Rightarrow> u32 \<Rightarrow> u32 \<Rightarrow> (nat \<times> u32 \<times> nat) list \<Rightarrow> bool" where
  "rx_places s P va dp segs \<longleftrightarrow> maps_to s va dp (seg_total segs) \<and> apart P 784 dp (seg_total segs) \<and>
     (\<forall>(i, pa, n)\<in>set segs. maps_to s (MACH_PHYS_TO_VIRT pa) pa n \<and> apart pa n dp (seg_total segs))"

lemma rx_desc_at_of_nat: "rx_desc_at (of_nat i) s = rx_desc (eth_port (eth s)) + of_nat (16 * i)"
  by (simp add: rx_desc_at_def)

lemma desc_access:
  assumes "descs_at s P" "i < 49"
  defines "d \<equiv> rx_desc (eth_port (eth s)) + of_nat (16 * i)"
  shows "ld32 d s = Some (desc_hdr (mem s) P i, s)" "ld32 (d + 4) s = Some (desc_addr (mem s) P i, s)"
    "st32 d v s = Some (s\<lparr>mem := set_mem32 (mem s) (P + of_nat (16 * i)) v\<rparr>)"
    "st32 (d + 4) v s = Some (s\<lparr>mem := set_mem32 (mem s) (P + of_nat (16 * i + 4)) v\<rparr>)"
    "ld32 (d + 12) s = Some (mem32 (mem s) (P + of_nat (16 * i + 12)), s)"
proof -
  let ?D = "rx_desc (eth_port (eth s))"
  have m: "maps_to s (?D + of_nat (16 * i)) (P + of_nat (16 * i)) 4"
    "maps_to s (?D + of_nat (16 * i + 4)) (P + of_nat (16 * i + 4)) 4"
    "maps_to s (?D + of_nat (16 * i + 12)) (P + of_nat (16 * i + 12)) 4"
    using assms(1,2) maps_to_shift [of s ?D P 784] by (simp_all add: descs_at_def del: of_nat_mult of_nat_add)
  have a: "?D AND 3 = 0" using assms(1) by (simp add: descs_at_def)
  have al: "d AND 3 = 0" "(d + 4) AND 3 = 0" "(d + 12) AND 3 = 0" using a by (simp_all add: d_def)
  have e: "d + 4 = ?D + of_nat (16 * i + 4)" "d + 12 = ?D + of_nat (16 * i + 12)" by (simp_all add: d_def)
  show "ld32 d s = Some (desc_hdr (mem s) P i, s)" "st32 d v s = Some (s\<lparr>mem := set_mem32 (mem s) (P + of_nat (16 * i)) v\<rparr>)"
    using maps_to_word [OF m(1) order_refl] al(1) by (simp_all add: desc_hdr_def d_def)
  show "ld32 (d + 4) s = Some (desc_addr (mem s) P i, s)" "st32 (d + 4) v s = Some (s\<lparr>mem := set_mem32 (mem s) (P + of_nat (16 * i + 4)) v\<rparr>)"
    using maps_to_word [OF m(2) order_refl] al(2) unfolding e(1) by (simp_all add: desc_addr_def)
  show "ld32 (d + 12) s = Some (mem32 (mem s) (P + of_nat (16 * i + 12)), s)"
    using maps_to_word [OF m(3) order_refl] al(3) unfolding e(2) by simp
qed

lemma incr_index: "i < 48 \<Longrightarrow> INCR_RX_INDEX (of_nat i) = of_nat ((i + 1) mod 48)"
proof -
  assume i: "i < 48"
  have "unat (of_nat i + 1 :: u32) = i + 1"
    using i unat_of_nat_u32 [of "i + 1"] by (simp add: add.commute)
  then have "unat (INCR_RX_INDEX (of_nat i)) = (i + 1) mod 48" by (simp add: INCR_RX_INDEX_def unat_mod)
  moreover have "unat (of_nat ((i + 1) mod 48) :: u32) = (i + 1) mod 48" by (rule unat_of_nat_u32) simp
  ultimately show ?thesis by (simp only: word_unat_eq_iff)
qed

lemma descs_at_mem [simp]: "descs_at (s\<lparr>mem := m\<rparr>) P = descs_at s P"
  by (simp add: descs_at_def)

text \<open>One round of the copy: the whole part of a descriptor goes to the buffer.\<close>

lemma rx_copy_step:
  assumes ring: "descs_at s P" and ready: "desc_ready (mem s) P i pa n e"
    and cur: "read_index (eth s) = of_nat i" "desc_offset (eth s) = 0" "read_nbytes (eth s) = of_nat c"
      "frame_size (eth s) = of_nat (n + r)"
    and big: "c + n + r < 2 ^ 31"
    and places: "maps_to s va dp n" "maps_to s (MACH_PHYS_TO_VIRT pa) pa n" "apart dp n pa n"
  defines "u \<equiv> s\<lparr>mem := put_bytes (mem s) dp (bytes_at (mem s) pa n),
      eth := (eth s)\<lparr>read_nbytes := of_nat c + of_nat n, frame_size := of_nat r, desc_offset := 0,
        read_index := of_nat ((i + 1) mod 48)\<rparr>\<rparr>"
  shows "rx_copy va s = (if e \<or> c + n = r then Some u else rx_copy (va + of_nat n) u)"
proof -
  let ?n = "of_nat n :: u32"
  have n: "0 < n" "n < 2048" "i < 48" and h: "desc_hdr (mem s) P i AND 0x80 = 0"
    "drop_bit 16 (desc_hdr (mem s) P i) AND 0x7FF = ?n" "(desc_hdr (mem s) P i AND 0x40000000 \<noteq> 0) = e"
    "desc_addr (mem s) P i = pa"
    using ready by (simp_all add: desc_ready_def)
  have u32: "unat (of_nat k :: u32) = k" if "k \<le> c + n + r" for k using that big unat_of_nat_u32 [of k] by simp
  have nz: "frame_size (eth s) \<noteq> 0" using cur(4) n u32 [of "n + r"] by (metis add_eq_0_iff_both_eq_0 less_irrefl unat_0 le_add2 add.assoc)
  have mn: "min ?n (of_nat (n + r)) = ?n" using u32 [of n] u32 [of "n + r"] by (simp add: min_def word_le_nat_alt)
  have cp: "memcpy_hv va (MACH_PHYS_TO_VIRT pa) ?n s = Some (s\<lparr>mem := put_bytes (mem s) dp (bytes_at (mem s) pa n)\<rparr>)"
    using memcpy_hv_maps [of s va dp ?n "MACH_PHYS_TO_VIRT pa" pa] places u32 [of n] n(2) by (simp add: word_less_nat_alt)
  have d: "i < 49" using n(3) by simp
  note acc = desc_access [OF ring d]
  have fs: "of_nat (n + r) - ?n = (of_nat r :: u32)" by simp
  have eq: "(of_nat c + ?n = (of_nat r :: u32)) = (c + n = r)"
    using u32 [of "c + n"] u32 [of r] by (metis add.commute le_add1 of_nat_add)
  show ?thesis
    apply (subst rx_copy.simps)
    using nz h cur mn cp acc fs eq incr_index [OF n(3)]
    by (simp add: DESC_EOWN_def DESC_EOP_def DESC_BYTECNT_def rx_desc_at_of_nat Let_def set_eth_def u_def del: of_nat_mult of_nat_add)
qed

lemma seg_total_Cons [simp]: "seg_total [] = 0" "seg_total ((i, pa, n) # xs) = n + seg_total xs"
  by (simp_all add: seg_total_def)

lemma rx_packet_Cons:
  assumes "rx_packet m P ((i, pa, n) # xs)"
  shows "desc_ready m P i pa n (xs = [])" "xs \<noteq> [] \<Longrightarrow> rx_packet m P xs \<and> fst (hd xs) = (i + 1) mod 48"
  using assms by (cases xs; auto)+

lemma seg_bytes_put:
  "(\<And>i pa n. (i, pa, n) \<in> set segs \<Longrightarrow> apart pa n b (length bs)) \<Longrightarrow> seg_bytes (put_bytes m b bs) segs = seg_bytes m segs"
  unfolding seg_bytes_def by (rule arg_cong [where f = concat], rule map_cong) (auto simp: bytes_at_put_out)

lemma delivered_subset: "set (delivered c segs) \<subseteq> set segs"
  by (induction c segs rule: delivered.induct) auto

lemma seg_bytes_length: "length (seg_bytes m segs) = seg_total segs"
  by (induction segs) (auto simp: seg_bytes_def seg_total_def)

lemma delivered_total: "seg_total (delivered c segs) \<le> seg_total segs"
  by (induction c segs rule: delivered.induct) auto

text \<open>The whole first loop. Only the cursor of the statics changes.\<close>

definition with_cursor :: "eth_statics \<Rightarrow> eth_statics \<Rightarrow> bool" where
  "with_cursor x y \<longleftrightarrow> (\<exists>a b c d. y = x\<lparr>read_index := a, desc_offset := b, frame_size := c, read_nbytes := d\<rparr>)"

lemma rx_copy_packet:
  "rx_packet (mem s) P segs \<Longrightarrow> descs_at s P \<Longrightarrow> rx_places s P va dp segs \<Longrightarrow>
   read_index (eth s) = of_nat (fst (hd segs)) \<Longrightarrow> desc_offset (eth s) = 0 \<Longrightarrow> read_nbytes (eth s) = of_nat c \<Longrightarrow>
   frame_size (eth s) = of_nat (seg_total segs) \<Longrightarrow> c + seg_total segs < 2 ^ 31 \<Longrightarrow>
   \<exists>x. with_cursor (eth s) x \<and> rx_copy va s = Some (s\<lparr>mem := put_bytes (mem s) dp (seg_bytes (mem s) (delivered c segs)), eth := x\<rparr>)"
proof (induction segs arbitrary: s va dp c)
  case (Cons seg xs)
  obtain i pa n where seg: "seg = (i, pa, n)" by (cases seg)
  let ?r = "seg_total xs" and ?m = "put_bytes (mem s) dp (bytes_at (mem s) pa n)"
  let ?u = "s\<lparr>mem := ?m, eth := (eth s)\<lparr>read_nbytes := of_nat c + of_nat n, frame_size := of_nat ?r, desc_offset := 0,
        read_index := of_nat ((i + 1) mod 48)\<rparr>\<rparr>"
  have tot: "seg_total (seg # xs) = n + ?r" by (simp add: seg)
  have ready: "desc_ready (mem s) P i pa n (xs = [])" using rx_packet_Cons(1) Cons.prems(1) seg by blast
  have pl: "maps_to s va dp (n + ?r)" "apart P 784 dp (n + ?r)" "maps_to s (MACH_PHYS_TO_VIRT pa) pa n" "apart pa n dp (n + ?r)"
    "\<And>j qa k. (j, qa, k) \<in> set xs \<Longrightarrow> maps_to s (MACH_PHYS_TO_VIRT qa) qa k \<and> apart qa k dp (n + ?r)"
    using Cons.prems(3) by (auto simp: rx_places_def tot seg)
  have step: "rx_copy va s = (if xs = [] \<or> c + n = ?r then Some ?u else rx_copy (va + of_nat n) ?u)"
    by (rule rx_copy_step [OF Cons.prems(2) ready _ Cons.prems(5,6)])
      (use Cons.prems(4,7,8) tot pl(1,3,4) in \<open>auto simp: seg intro: maps_to_le apart_sym apart_le\<close>)
  have cur: "with_cursor (eth s) (eth ?u)" unfolding with_cursor_def
    by (intro exI [of _ "of_nat ((i + 1) mod 48)"] exI [of _ 0] exI [of _ "of_nat ?r"] exI [of _ "of_nat c + of_nat n"]) simp
  show ?case
  proof (cases "xs = [] \<or> c + n = ?r")
    case True
    then have "delivered c (seg # xs) = [seg]" by (auto simp: seg)
    then show ?thesis using step True cur by (intro exI [of _ "eth ?u"]) (simp add: seg_bytes_def seg)
  next
    case False
    have nx: "rx_packet (mem s) P xs" "fst (hd xs) = (i + 1) mod 48"
      using rx_packet_Cons(2) [of "mem s" P i pa n xs] Cons.prems(1) seg False by auto
    have sub: "apart pa' k dp' k' \<Longrightarrow> apart pa' k (dp' + of_nat 0) k'" for pa' k dp' k' by simp
    have "\<exists>x. with_cursor (eth ?u) x \<and> rx_copy (va + of_nat n) ?u =
        Some (?u\<lparr>mem := put_bytes (mem ?u) (dp + of_nat n) (seg_bytes (mem ?u) (delivered (c + n) xs)), eth := x\<rparr>)"
    proof (rule Cons.IH)
      have a1: "apart P 784 dp n" using pl(2) by (rule apart_le) simp_all
      show "rx_packet (mem ?u) P xs" using nx(1) a1 by (simp add: rx_packet_put)
      show "descs_at ?u P" using Cons.prems(2) by (simp add: descs_at_def)
      have "apart pa' k (dp + of_nat n) ?r" if "apart pa' k dp (n + ?r)" for pa' k
        using apart_shift [OF that, of 0 k n ?r] by simp
      then show "rx_places ?u P (va + of_nat n) (dp + of_nat n) xs"
        using pl maps_to_shift [OF pl(1), of n ?r] by (auto simp: rx_places_def)
    qed (use nx(2) Cons.prems(8) tot in simp_all)
    then obtain x where x: "with_cursor (eth ?u) x" "rx_copy (va + of_nat n) ?u =
        Some (?u\<lparr>mem := put_bytes ?m (dp + of_nat n) (seg_bytes ?m (delivered (c + n) xs)), eth := x\<rparr>)" by auto
    have "apart qa k dp n" if "(j, qa, k) \<in> set (delivered (c + n) xs)" for j qa k
    proof -
      have "(j, qa, k) \<in> set xs" using delivered_subset [of "c + n" xs] that by blast
      then have "apart qa k dp (n + ?r)" using pl(5) by blast
      then show ?thesis by (rule apart_le) simp_all
    qed
    then have b: "seg_bytes ?m (delivered (c + n) xs) = seg_bytes (mem s) (delivered (c + n) xs)"
      by (intro seg_bytes_put) simp
    have len: "length (seg_bytes (mem s) (delivered (c + n) xs)) \<le> ?r" using delivered_total by (simp add: seg_bytes_length)
    have "with_cursor (eth s) x" using cur x(1) unfolding with_cursor_def by (elim exE, intro exI) simp
    moreover have "put_bytes ?m (dp + of_nat n) (seg_bytes ?m (delivered (c + n) xs)) =
        put_bytes (mem s) dp (seg_bytes (mem s) (delivered c (seg # xs)))"
      using False put_bytes_append [of "bytes_at (mem s) pa n" "seg_bytes (mem s) (delivered (c + n) xs)" "mem s" dp] len tot Cons.prems(8)
      unfolding b by (simp add: seg seg_bytes_def)
    ultimately show ?thesis using step x(2) False by (intro exI [of _ x]) simp
  qed
qed simp

text \<open>The second loop: every descriptor of the packet goes back, the buffer count is decremented each time.\<close>

lemma rx_release_step:
  assumes "descs_at s P" "desc_ready (mem s) P i pa n e" "receive_index (eth s) = of_nat i"
  defines "u \<equiv> s\<lparr>mem := set_mem32 (mem s) (P + of_nat (16 * i)) (desc_hdr (mem s) P i OR 0x80),
      io := io s @ [IOWrite (ETHCON1SET AND 0x1FFFFFFF) 1], eth := (eth s)\<lparr>receive_index := of_nat ((i + 1) mod 48)\<rparr>\<rparr>"
  shows "rx_release s = (if e then Some u else rx_release u)"
proof -
  have h: "i < 48" "desc_hdr (mem s) P i AND 0x80 = 0" "(desc_hdr (mem s) P i AND 0x40000000 \<noteq> 0) = e"
    using assms(2) by (simp_all add: desc_ready_def)
  have d: "i < 49" using h(1) by simp
  note acc = desc_access [OF assms(1) d]
  show ?thesis
    using h acc assms(3) incr_index [OF h(1)]
    by (subst rx_release.simps)
      (simp add: DESC_EOWN_def DESC_EOP_def DESC_SET_EOWN_def hdr_or_def rx_desc_at_of_nat Let_def set_eth_def u_def
        sfr_write_def dev_write_def del: of_nat_mult of_nat_add)
qed

lemma rx_release_packet:
  "rx_packet (mem s) P segs \<Longrightarrow> descs_at s P \<Longrightarrow> distinct (map fst segs) \<Longrightarrow> receive_index (eth s) = of_nat (fst (hd segs)) \<Longrightarrow>
   rx_release s = Some (s\<lparr>mem := give_back P (map fst segs) (mem s),
     io := io s @ replicate (length segs) (IOWrite (ETHCON1SET AND 0x1FFFFFFF) 1),
     eth := (eth s)\<lparr>receive_index := of_nat ((fst (last segs) + 1) mod 48)\<rparr>\<rparr>)"
proof (induction segs arbitrary: s)
  case (Cons seg xs)
  obtain i pa n where seg: "seg = (i, pa, n)" by (cases seg)
  let ?u = "s\<lparr>mem := set_mem32 (mem s) (P + of_nat (16 * i)) (desc_hdr (mem s) P i OR 0x80),
      io := io s @ [IOWrite (ETHCON1SET AND 0x1FFFFFFF) 1], eth := (eth s)\<lparr>receive_index := of_nat ((i + 1) mod 48)\<rparr>\<rparr>"
  have ready: "desc_ready (mem s) P i pa n (xs = [])" using rx_packet_Cons(1) Cons.prems(1) seg by blast
  have step: "rx_release s = (if xs = [] then Some ?u else rx_release ?u)"
    by (rule rx_release_step [OF Cons.prems(2) ready]) (use Cons.prems(4) seg in simp)
  show ?case
  proof (cases "xs = []")
    case True
    then show ?thesis using step by (simp add: seg)
  next
    case False
    have nx: "rx_packet (mem s) P xs" "fst (hd xs) = (i + 1) mod 48"
      using rx_packet_Cons(2) [of "mem s" P i pa n xs] Cons.prems(1) seg False by auto
    have i: "i < 48" "i \<notin> fst ` set xs" using ready Cons.prems(3) by (auto simp: desc_ready_def seg)
    have "rx_packet (mem ?u) P xs" using rx_packet_set [OF i] nx(1) by simp
    moreover have "descs_at ?u P" using Cons.prems(2) by (simp add: descs_at_def)
    ultimately have "rx_release ?u = Some (?u\<lparr>mem := give_back P (map fst xs) (mem ?u),
       io := io ?u @ replicate (length xs) (IOWrite (ETHCON1SET AND 0x1FFFFFFF) 1),
       eth := (eth ?u)\<lparr>receive_index := of_nat ((fst (last xs) + 1) mod 48)\<rparr>\<rparr>)"
      using Cons.prems(3) nx(2) by (intro Cons.IH) simp_all
    then show ?thesis using step False by (simp add: seg)
  qed
qed simp

subsection \<open>Reception\<close>

text \<open>
  The state after a packet was received: the part that was delivered is in the buffer, the descriptors
  are back, the ring index stands behind the packet.
\<close>

definition received_state :: "hv \<Rightarrow> u32 \<Rightarrow> u32 \<Rightarrow> (nat \<times> u32 \<times> nat) list \<Rightarrow> hv" where
  "received_state s P dp segs =
     s\<lparr>mem := give_back P (map fst segs) (put_bytes (mem s) dp (seg_bytes (mem s) (delivered 0 segs))),
       io := io s @ replicate (length segs) (IOWrite (ETHCON1SET AND 0x1FFFFFFF) 1),
       eth := (eth s)\<lparr>receive_index := of_nat ((fst (last segs) + 1) mod 48), read_index := 0, desc_offset := 0,
         frame_size := 0, read_nbytes := 0\<rparr>\<rparr>"

lemma en_ll_input_packet:
  assumes up: "is_up (eth_port (eth s)) \<noteq> 0"
    and packet: "rx_packet (mem s) P segs" "distinct (map fst segs)"
    and size: "mem32 (mem s) (P + of_nat (16 * fst (hd segs) + 12)) AND 0xFFFF = of_nat (seg_total segs)"
      "seg_total segs < 65536"
    and ring: "descs_at s P" "receive_index (eth s) = of_nat (fst (hd segs))"
    and places: "rx_places s P va dp segs"
  shows "en_ll_input va s = Some (of_nat (seg_total segs), received_state s P dp segs)"
proof -
  let ?F = "seg_total segs" and ?i = "fst (hd segs)"
  obtain pa n xs where segs: "segs = (?i, pa, n) # xs" using packet(1) by (cases segs) auto
  have ready: "desc_ready (mem s) P ?i pa n (xs = [])" using packet(1) rx_packet_Cons(1) segs by metis
  have i: "?i < 49" and own: "desc_hdr (mem s) P ?i AND 0x80 = 0" using ready by (simp_all add: desc_ready_def)
  have F: "0 < ?F" using ready segs by (metis desc_ready_def seg_total_Cons(2) trans_less_add1)
  have u: "unat (of_nat ?F :: u32) = ?F" using size(2) by (intro unat_of_nat_u32) simp
  have Fz: "(of_nat ?F :: u32) \<noteq> 0" using F u by (metis less_irrefl unat_0)
  have trunc: "ucast (ucast (of_nat ?F :: u32) :: u16) = (of_nat ?F :: u32)"
    using size(2) u by (simp add: word_unat_eq_iff unsigned_ucast_eq unsigned_of_nat take_bit_nat_eq_self)
  let ?s4 = "s\<lparr>eth := (eth s)\<lparr>read_index := of_nat ?i, desc_offset := 0, read_nbytes := 0, frame_size := of_nat ?F\<rparr>\<rparr>"
  obtain x where x: "with_cursor (eth ?s4) x" "rx_copy va ?s4 =
      Some (?s4\<lparr>mem := put_bytes (mem ?s4) dp (seg_bytes (mem ?s4) (delivered 0 segs)), eth := x\<rparr>)"
    using rx_copy_packet [of ?s4 P segs va dp 0] packet(1) ring(1) places size(2)
    by (auto simp: descs_at_def rx_places_def)
  let ?m = "put_bytes (mem s) dp (seg_bytes (mem s) (delivered 0 segs))"
  let ?s5 = "s\<lparr>mem := ?m, eth := x\<rparr>"
  have "apart P 784 dp (length (seg_bytes (mem s) (delivered 0 segs)))"
    using places delivered_total [of 0 segs] by (auto simp: rx_places_def seg_bytes_length intro: apart_le)
  then have p5: "rx_packet (mem ?s5) P segs" using packet(1) by (simp add: rx_packet_put)
  have xe: "eth_port x = eth_port (eth s)" "receive_index x = of_nat ?i" "with_cursor (eth s) x"
    using x(1) ring(2) by (auto simp: with_cursor_def)
  have rel: "rx_release ?s5 = Some (?s5\<lparr>mem := give_back P (map fst segs) ?m,
     io := io s @ replicate (length segs) (IOWrite (ETHCON1SET AND 0x1FFFFFFF) 1),
     eth := x\<lparr>receive_index := of_nat ((fst (last segs) + 1) mod 48)\<rparr>\<rparr>)"
    using rx_release_packet [OF p5 _ packet(2)] ring(1) xe by (simp add: descs_at_def)
  obtain a b c d where xd: "x = (eth s)\<lparr>read_index := a, desc_offset := b, frame_size := c, read_nbytes := d\<rparr>"
    using xe(3) by (auto simp: with_cursor_def)
  let ?s1 = "set_eth (\<lambda>x. x\<lparr>read_index := receive_index x, desc_offset := 0, read_nbytes := 0\<rparr>) s"
  have r1: "descs_at ?s1 P" using ring(1) by (simp add: descs_at_def set_eth_def)
  have "en_ll_input va s = do { s5 \<leftarrow> rx_copy va ?s4; s6 \<leftarrow> rx_release s5;
      Some (of_nat ?F, set_eth (\<lambda>x. x\<lparr>read_index := 0, desc_offset := 0, frame_size := 0, read_nbytes := 0\<rparr>) s6) }"
    using up ring(2) desc_access(1,5) [OF r1 i] own size(1) Fz trunc
    by (simp add: en_ll_input_def Let_def DESC_EOWN_def DESC_FRAMESZ_def rx_desc_at_of_nat set_eth_def del: of_nat_mult of_nat_add)
  then show ?thesis using x(2) rel by (simp add: set_eth_def received_state_def xd)
qed

subsection \<open>What the guest gets\<close>

text \<open>A packet as the controller writes it: every descriptor but the last is full.\<close>

definition full_parts :: "(nat \<times> u32 \<times> nat) list \<Rightarrow> bool" where
  "full_parts segs \<longleftrightarrow> segs \<noteq> [] \<and> (\<forall>(i, pa, n)\<in>set (butlast segs). n = 128) \<and> (\<forall>i pa n. last segs = (i, pa, n) \<longrightarrow> 0 < n \<and> n \<le> 128)"

lemma full_parts_Cons: "full_parts ((i, pa, n) # xs) \<longleftrightarrow> (if xs = [] then 0 < n \<and> n \<le> 128 else n = 128 \<and> full_parts xs)"
  by (auto simp: full_parts_def)

lemma full_parts_pos: "full_parts segs \<Longrightarrow> 0 < seg_total segs"
  by (induction segs) (auto simp: full_parts_Cons full_parts_def split: if_splits)

lemma delivered_full:
  "full_parts segs \<Longrightarrow> delivered (128 * a) segs =
     (if (128 * a + seg_total segs) mod 256 = 0 \<and> 256 * a < 128 * a + seg_total segs
      then take ((128 * a + seg_total segs) div 256 - a) segs else segs)"
proof (induction segs arbitrary: a)
  case (Cons seg xs)
  obtain i pa n where seg: "seg = (i, pa, n)" by (cases seg)
  show ?case
  proof (cases "xs = []")
    case True
    then have n: "0 < n" "n \<le> 128" using Cons.prems by (simp_all add: seg full_parts_Cons)
    have "\<not> ((128 * a + n) mod 256 = 0 \<and> 128 * a < n)" using n by (cases a) auto
    then show ?thesis using True n by (auto simp: seg)
  next
    case False
    then have n: "n = 128" "full_parts xs" using Cons.prems by (simp_all add: seg full_parts_Cons)
    define T where "T = 128 * a + seg_total (seg # xs)"
    have T: "T = 128 * (a + 1) + seg_total xs" by (simp add: T_def seg n)
    have pos: "0 < seg_total xs" by (rule full_parts_pos [OF n(2)])
    have IH: "delivered (128 * (a + 1)) xs =
        (if T mod 256 = 0 \<and> 256 * (a + 1) < T then take (T div 256 - (a + 1)) xs else xs)"
      using Cons.IH [OF n(2), of "a + 1"] unfolding T .
    have d: "delivered (128 * a) (seg # xs) = seg # (if T = 256 * (a + 1) then [] else delivered (128 * (a + 1)) xs)"
      using T by (auto simp: seg n add.commute)
    have c: "T mod 256 = 0 \<and> 256 * a < T \<longleftrightarrow> T = 256 * (a + 1) \<or> T mod 256 = 0 \<and> 256 * (a + 1) < T"
      by (cases "256 dvd T") (auto elim!: dvdE simp: mod_eq_0_iff_dvd)
    have k: "T div 256 - a = Suc (T div 256 - (a + 1))" if "T mod 256 = 0" "256 * (a + 1) < T"
    proof -
      from that(1) obtain q where "T = 256 * q" by auto
      then show ?thesis using that(2) by simp
    qed
    show ?thesis
    proof (cases "T = 256 * (a + 1)")
      case True
      then have "T mod 256 = 0" "256 * a < T" "T div 256 - a = 1" by simp_all
      then show ?thesis using True unfolding T_def [symmetric] d by simp
    next
      case False
      then show ?thesis using k unfolding T_def [symmetric] d IH c by (cases "T mod 256 = 0 \<and> 256 * (a + 1) < T") auto
    qed
  qed
qed (simp add: full_parts_def)

lemma delivered_standard:
  assumes "full_parts segs"
  shows "delivered 0 segs = (if seg_total segs mod 256 = 0 then take (seg_total segs div 256) segs else segs)"
  using delivered_full [OF assms, of 0] full_parts_pos [OF assms] by simp

lemma seg_bytes_take:
  "full_parts segs \<Longrightarrow> 128 * k < seg_total segs \<Longrightarrow> seg_bytes m (take k segs) = take (128 * k) (seg_bytes m segs)"
proof (induction segs arbitrary: k)
  case (Cons seg xs)
  obtain i pa n where seg: "seg = (i, pa, n)" by (cases seg)
  show ?case
  proof (cases k)
    case (Suc j)
    then have x: "xs \<noteq> []" using Cons.prems by (auto simp: seg full_parts_Cons)
    then have n: "n = 128" "full_parts xs" using Cons.prems by (simp_all add: seg full_parts_Cons)
    show ?thesis using Cons.IH [OF n(2), of j] Cons.prems(2) by (simp add: Suc seg n seg_bytes_def)
  qed (simp add: seg_bytes_def)
qed (simp add: full_parts_def)

text \<open>The number of bytes of the frame that reach the guest.\<close>

definition delivered_size :: "nat \<Rightarrow> nat" where
  "delivered_size F = (if F mod 256 = 0 then F div 2 else F)"

lemma delivered_bytes:
  assumes "full_parts segs"
  shows "seg_bytes m (delivered 0 segs) = take (delivered_size (seg_total segs)) (seg_bytes m segs)"
proof (cases "seg_total segs mod 256 = 0")
  case True
  then obtain q where q: "seg_total segs = 256 * q" by auto
  then have "128 * (seg_total segs div 256) = seg_total segs div 2" by simp
  moreover have "128 * (seg_total segs div 256) < seg_total segs" using q full_parts_pos [OF assms] by simp
  ultimately show ?thesis
    using seg_bytes_take [OF assms, of "seg_total segs div 256" m] True
    by (simp add: delivered_standard [OF assms] delivered_size_def)
qed (simp add: delivered_standard [OF assms] delivered_size_def seg_bytes_length)

lemma give_back_out: "(\<And>i j. i \<in> set is \<Longrightarrow> j < 4 \<Longrightarrow> a \<noteq> P + of_nat (16 * i) + of_nat j) \<Longrightarrow> give_back P is m a = m a"
proof (induction P "is" m rule: give_back.induct)
  case (2 P i "is" m)
  have "a \<noteq> P + of_nat (16 * i) + of_nat j" if "j < 4" for j using 2(2) that by simp
  from this [of 0] this [of 1] this [of 2] this [of 3]
  have "set_mem32 m (P + of_nat (16 * i)) (desc_hdr m P i OR 0x80) a = m a" by (simp add: set_mem32_other)
  then show ?case using 2 by simp
qed simp

lemma give_back_owned:
  "set is \<subseteq> {..<48} \<Longrightarrow> distinct is \<Longrightarrow> k < 48 \<Longrightarrow>
     desc_hdr (give_back P is m) P k = (if k \<in> set is then desc_hdr m P k OR 0x80 else desc_hdr m P k)"
proof (induction P "is" m rule: give_back.induct)
  case (2 P i "is" m)
  have "desc_hdr (set_mem32 m (P + of_nat (16 * i)) v) P k = (if k = i then v else desc_hdr m P k)" for v
    using 2(2,4) desc_hdr_set(1) [of k i] by (auto simp: desc_hdr_def mem32_set_mem32 simp del: of_nat_mult)
  then show ?case using 2 by auto
qed simp

subsection \<open>Buffers of the controller\<close>

text \<open>The controller's memory is reached through the uncached segment.\<close>

definition dma_ram :: "hv \<Rightarrow> u32 \<Rightarrow> nat \<Rightarrow> bool" where
  "dma_ram s pa n \<longleftrightarrow> unat pa + n \<le> 0x20000000 \<and> unat pa + n \<le> unat (ram_size (conf s))"

lemma kseg1_or: "unat pa < 0x20000000 \<Longrightarrow> MACH_PHYS_TO_VIRT pa = 0xA0000000 + pa"
proof -
  assume "unat pa < 0x20000000"
  then have m: "pa AND mask 29 = pa" by (intro small_and_mask) simp
  have "pa AND 0xA0000000 = pa AND (mask 29 AND 0xA0000000)" using m by (metis and.assoc)
  also have "mask 29 AND (0xA0000000 :: u32) = 0" by (simp add: mask_eq_exp_minus_1)
  finally have "pa AND 0xA0000000 = 0" by simp
  then show ?thesis unfolding MACH_PHYS_TO_VIRT_def by (simp add: disjunctive_add_eq_or add.commute)
qed

text \<open>The two unmapped segments, cached and not.\<close>

lemma unmapped_maps:
  assumes "dma_ram s pa n" "va = 0x20000000 * c + pa" "c = 4 \<or> c = 5"
  shows "maps_to s va pa n"
  unfolding maps_to_def
proof (intro allI impI)
  fix j wr assume j: "j < n"
  have u: "unat (of_nat j :: u32) = j" "unat pa + j < 0x20000000" "unat pa + j < unat (ram_size (conf s))"
    using j assms(1) unat_of_nat_u32 [of j] by (simp_all add: dma_ram_def)
  then have pj: "unat (pa + of_nat j) = unat pa + j" by (subst unat_add_u32) simp_all
  let ?q = "pa + of_nat j" and ?b = "0x20000000 * c"
  have b: "unat ?b = 0x80000000 \<or> unat ?b = 0xA0000000" using assms(3) by auto
  have uv: "unat (?b + ?q) = unat ?b + unat ?q" using u pj b by (subst unat_add_u32) auto
  have "(?b + ?q) AND mask 29 = ?q AND mask 29"
    by (rule aligned_plus) (use assms(3) in \<open>auto simp: mask_eq_exp_minus_1\<close>)
  moreover have "?q AND mask 29 = ?q" using u pj by (intro small_and_mask) simp
  ultimately have m: "(?b + ?q) AND 0x1FFFFFFF = ?q" by (simp add: mask_eq_exp_minus_1)
  define z where "z = va + of_nat j"
  have "z = ?b + ?q" using assms(2) by (simp add: z_def add.assoc)
  then have "z AND 0x1FFFFFFF = ?q" "unat z = unat ?b + unat ?q" using m uv by simp_all
  then show "root_translate wr (va + of_nat j) s = Some ?q \<and> is_ram s ?q"
    using u pj b unfolding z_def [symmetric] by (auto simp: root_translate_def word_le_nat_alt word_less_nat_alt is_ram_def)
qed

lemma kseg1_maps:
  assumes "dma_ram s pa n"
  shows "maps_to s (MACH_PHYS_TO_VIRT pa) pa n"
proof (cases "n = 0")
  case False
  then show ?thesis
    using assms by (intro unmapped_maps [where c = 5]) (auto simp: dma_ram_def kseg1_or)
qed (simp add: maps_to_def)

lemma kseg0_maps: "dma_ram s pa n \<Longrightarrow> va = 0x80000000 + pa \<Longrightarrow> maps_to s va pa n"
  by (rule unmapped_maps [where c = 4]) simp_all

subsection \<open>The hypercalls\<close>

text \<open>The receive ring at the physical address \<open>P\<close>, with a packet whose parts lie in the controller's memory.\<close>

definition rx_ring :: "hv \<Rightarrow> u32 \<Rightarrow> bool" where
  "rx_ring s P \<longleftrightarrow> rx_desc (eth_port (eth s)) = MACH_PHYS_TO_VIRT P \<and> P AND 3 = 0 \<and> dma_ram s P 784"

definition packet_waiting :: "hv \<Rightarrow> u32 \<Rightarrow> (nat \<times> u32 \<times> nat) list \<Rightarrow> bool" where
  "packet_waiting s P segs \<longleftrightarrow> rx_packet (mem s) P segs \<and> full_parts segs \<and> distinct (map fst segs) \<and>
     mem32 (mem s) (P + of_nat (16 * fst (hd segs) + 12)) AND 0xFFFF = of_nat (seg_total segs) \<and>
     seg_total segs \<le> 1536 \<and> receive_index (eth s) = of_nat (fst (hd segs)) \<and>
     (\<forall>(i, pa, n)\<in>set segs. dma_ram s pa n)"

text \<open>The guest's buffer is outside the controller's memory.\<close>

definition rx_separate :: "u32 \<Rightarrow> u32 \<Rightarrow> (nat \<times> u32 \<times> nat) list \<Rightarrow> bool" where
  "rx_separate P dp segs \<longleftrightarrow> apart P 784 dp (seg_total segs) \<and> (\<forall>(i, pa, n)\<in>set segs. apart pa n dp (seg_total segs))"

lemma kseg1_aligned: "P AND 3 = 0 \<Longrightarrow> MACH_PHYS_TO_VIRT P AND 3 = 0"
  by (simp add: MACH_PHYS_TO_VIRT_def bit.conj_disj_distrib2)

lemma rx_ring_at: "rx_ring s P \<Longrightarrow> descs_at s P"
  by (simp add: rx_ring_def descs_at_def kseg1_maps kseg1_aligned)

lemma receive_frame_packet:
  assumes win: "window_ready s m" "guest_buffer s m (MoveFromPreviousGuestGPR REG_A0 s) MTU"
    and eth: "is_up (eth_port (eth s)) \<noteq> 0" "rx_ring s P" "packet_waiting s P segs"
    and sep: "rx_separate P (guest_phys (base_addr m) (MoveFromPreviousGuestGPR REG_A0 s)) segs"
  obtains s1 where
    "receive_frame s = Some (MoveToPreviousGuestGPR REG_V0 (of_nat (seg_total segs))
       (received_state s1 P (guest_phys (base_addr m) (MoveFromPreviousGuestGPR REG_A0 s)) segs))"
    "eth s1 = eth s" "mem s1 = mem s"
proof -
  let ?a0 = "MoveFromPreviousGuestGPR REG_A0 s"
  let ?dp = "guest_phys (base_addr m) ?a0"
  obtain va s1 where w: "tlbCreateEntry ?a0 (base_addr m) MTU 0xF True s = Some (va, s1)"
    "maps_to s1 va ?dp (unat MTU)" and q: "quiet s s1" "mem s1 = mem s"
    by (rule guest_window [OF window_readyD [OF win(1)] win(2), of True], rule that)
  have e: "eth s1 = eth s" "mem s1 = mem s" "conf s1 = conf s"
    using q by (simp_all add: quiet_def fixed_def kept_def)
  have r: "rx_ring s1 P" using eth(2) by (simp add: rx_ring_def dma_ram_def e)
  have p: "rx_packet (mem s1) P segs" "distinct (map fst segs)"
    "mem32 (mem s1) (P + of_nat (16 * fst (hd segs) + 12)) AND 0xFFFF = of_nat (seg_total segs)" "seg_total segs < 65536"
    "receive_index (eth s1) = of_nat (fst (hd segs))" and le: "seg_total segs \<le> 1536"
    using eth(3) by (simp_all add: packet_waiting_def e)
  have dm: "dma_ram s1 pa n" if "(i, pa, n) \<in> set segs" for i pa n
    using eth(3) that by (auto simp: packet_waiting_def dma_ram_def e)
  have "rx_places s1 P (va) ?dp segs"
    using maps_to_le [OF w(2), of "seg_total segs"] le dm sep kseg1_maps unfolding rx_places_def rx_separate_def by fastforce
  from en_ll_input_packet [OF _ p(1-4) rx_ring_at [OF r] p(5) this] eth(1)
  have "en_ll_input (va) s1 = Some (of_nat (seg_total segs), received_state s1 P ?dp segs)"
    by (simp add: e)
  then have "receive_frame s = Some (MoveToPreviousGuestGPR REG_V0 (of_nat (seg_total segs)) (received_state s1 P ?dp segs))"
    using win(1) w(1) by (simp add: receive_frame_def window_ready_def)
  then show thesis using that [of s1] e by simp
qed

text \<open>The memory after a reception.\<close>

lemma received_mem:
  assumes "packet_waiting s P segs" "rx_separate P dp segs" "dma_ram s P 784"
  defines "m \<equiv> mem (received_state s P dp segs)" and "k \<equiv> delivered_size (seg_total segs)"
  shows "bytes_at m dp k = take k (seg_bytes (mem s) segs)"
    "\<And>i. i < 48 \<Longrightarrow> (desc_hdr m P i AND 0x80 \<noteq> 0) = (i \<in> fst ` set segs \<or> desc_hdr (mem s) P i AND 0x80 \<noteq> 0)"
    "\<And>a. (\<And>j. j < k \<Longrightarrow> a \<noteq> dp + of_nat j) \<Longrightarrow> (\<And>j. j < 784 \<Longrightarrow> a \<noteq> P + of_nat j) \<Longrightarrow> m a = mem s a"
proof -
  let ?bs = "seg_bytes (mem s) (delivered 0 segs)" and ?is = "map fst segs"
  let ?m = "put_bytes (mem s) dp ?bs"
  have fp: "full_parts segs" "seg_total segs \<le> 1536" "distinct ?is" and pk: "rx_packet (mem s) P segs"
    using assms(1) by (simp_all add: packet_waiting_def)
  have bs: "?bs = take k (seg_bytes (mem s) segs)" by (simp add: delivered_bytes [OF fp(1)] k_def)
  have kle: "k \<le> seg_total segs" by (simp add: k_def delivered_size_def)
  have len: "length ?bs = k" using kle by (simp add: bs seg_bytes_length)
  have m: "m = give_back P ?is ?m" by (simp add: m_def received_state_def)
  have i48: "i < 48" if "i \<in> set ?is" for i
    using pk that by (induction "mem s" P segs rule: rx_packet.induct) (auto simp: desc_ready_def)
  have ap: "apart P 784 dp k" using assms(2) kle by (auto simp: rx_separate_def intro: apart_le)
  have out: "m a = ?m a" if "\<And>j. j < 784 \<Longrightarrow> a \<noteq> P + of_nat j" for a
    unfolding m
  proof (rule give_back_out)
    fix i j assume "i \<in> set ?is" "j < (4 :: nat)"
    then have "16 * i + j < 784" using i48 [of i] by simp
    from that [OF this] show "a \<noteq> P + of_nat (16 * i) + of_nat j" by (simp add: add.assoc)
  qed
  show "bytes_at m dp k = take k (seg_bytes (mem s) segs)"
  proof (rule nth_equalityI)
    fix j assume "j < length (bytes_at m dp k)"
    then have j: "j < k" by simp
    have "dp + of_nat j \<noteq> P + of_nat i" if "i < 784" for i using ap j that by (metis apart_def)
    then have "m (dp + of_nat j) = ?bs ! j" using out put_bytes_in [of j ?bs "mem s" dp] j len fp(2) kle by simp
    then show "bytes_at m dp k ! j = take k (seg_bytes (mem s) segs) ! j" using j bs by (simp add: bytes_at_def)
  qed (use len bs in simp)
  show "(desc_hdr m P i AND 0x80 \<noteq> 0) = (i \<in> fst ` set segs \<or> desc_hdr (mem s) P i AND 0x80 \<noteq> 0)" if i: "i < 48" for i
  proof -
    have "apart (P + of_nat (16 * i)) 4 dp (length ?bs)" using apart_shift [OF ap, of "16 * i" 4 0 k] i len by simp
    then have "desc_hdr ?m P i = desc_hdr (mem s) P i" unfolding desc_hdr_def by (rule mem32_put_out)
    moreover have "set ?is \<subseteq> {..<48}" using i48 by auto
    ultimately show ?thesis
      using give_back_owned [of ?is i P ?m] fp(3) i by (auto simp: m bit.conj_disj_distrib2 or_eq_0_iff)
  qed
  show "m a = mem s a" if "\<And>j. j < k \<Longrightarrow> a \<noteq> dp + of_nat j" "\<And>j. j < 784 \<Longrightarrow> a \<noteq> P + of_nat j" for a
    using out [OF that(2)] put_bytes_out [of ?bs a dp "mem s"] that(1) len by simp
qed


subsection \<open>Transmission\<close>

definition tx_ring :: "hv \<Rightarrow> u32 \<Rightarrow> bool" where
  "tx_ring s Q \<longleftrightarrow> tx_desc (eth_port (eth s)) = MACH_PHYS_TO_VIRT Q \<and> Q AND 3 = 0 \<and> dma_ram s Q 112"

lemma virt_phys: "MACH_VIRT_TO_PHYS (MACH_PHYS_TO_VIRT (MACH_VIRT_TO_PHYS x)) = MACH_VIRT_TO_PHYS x"
proof -
  have "(0xA0000000 :: u32) AND 0x1FFFFFFF = 0" by simp
  then show ?thesis by (simp add: MACH_VIRT_TO_PHYS_def MACH_PHYS_TO_VIRT_def bit.conj_disj_distrib2 and.assoc)
qed

lemma phys_virt: "unat Q < 0x20000000 \<Longrightarrow> MACH_VIRT_TO_PHYS (MACH_PHYS_TO_VIRT Q) = Q"
proof -
  assume "unat Q < 0x20000000"
  then have "Q AND mask 29 = Q" by (intro small_and_mask) simp
  then have "MACH_VIRT_TO_PHYS Q = Q" by (simp add: MACH_VIRT_TO_PHYS_def mask_eq_exp_minus_1)
  then show ?thesis using virt_phys [of Q] by simp
qed

text \<open>The header of a frame of \<open>n\<close> bytes in one descriptor: start, end, length, owned by the controller.\<close>

definition tx_header :: "u32 \<Rightarrow> u32" where
  "tx_header n = push_bit 16 n OR 0xC0000080"

lemma en_ll_output_sends:
  assumes ring: "tx_ring s Q" and idle: "fst (sfr_read ETHCON1 s) AND ETH_TXRTS = 0" and sz: "0 < sz" "sz \<le> 1536"
  obtains t where "en_ll_output fr sz s = Some t"
    "desc_hdr (mem t) Q 0 = tx_header (ucast sz)" "desc_addr (mem t) Q 0 = MACH_VIRT_TO_PHYS fr"
    "\<And>a. (\<And>j. j < 8 \<Longrightarrow> a \<noteq> Q + of_nat j) \<Longrightarrow> mem t a = mem s a"
    "io t = io s @ [IORead (ETHCON1 AND 0x1FFFFFFF) (fst (sfr_read ETHCON1 s)), IOWrite (ETHTXST AND 0x1FFFFFFF) Q,
       IOWrite (ETHCON1SET AND 0x1FFFFFFF) ETH_TXRTS]" "tx_view t = mem t"
    "frame t = frame s" "shadow t = shadow s" "cp0 t = cp0 s" "eth t = eth s"
proof -
  let ?s1 = "snd (sfr_read ETHCON1 s)" and ?D = "tx_desc (eth_port (eth s))" and ?A = "MACH_VIRT_TO_PHYS fr"
  have s1: "?s1 = s\<lparr>vol_n := Suc (vol_n s), io := io s @ [IORead (ETHCON1 AND 0x1FFFFFFF) (fst (sfr_read ETHCON1 s))]\<rparr>"
    by (simp add: sfr_read_def dev_read_def Let_def)
  have m: "maps_to (?s1\<lparr>mem := x\<rparr>) ?D Q 112" for x
    using ring kseg1_maps [of "?s1\<lparr>mem := x\<rparr>" Q 112] unfolding s1 by (simp add: tx_ring_def dma_ram_def)
  have al: "?D AND 3 = 0" using ring kseg1_aligned by (simp add: tx_ring_def)
  have w0: "ld32 ?D (?s1\<lparr>mem := x\<rparr>) = Some (mem32 x Q, ?s1\<lparr>mem := x\<rparr>)"
    "st32 ?D v (?s1\<lparr>mem := x\<rparr>) = Some (?s1\<lparr>mem := set_mem32 x Q v\<rparr>)" for x v
    using maps_to_word(1) [OF m _ al] maps_to_word(2) [OF m _ al, where v = v] by simp_all
  have w4: "st32 (?D + 4) v (?s1\<lparr>mem := x\<rparr>) = Some (?s1\<lparr>mem := set_mem32 x (Q + 4) v\<rparr>)" for x v
    using maps_to_word(2) [of "?s1\<lparr>mem := x\<rparr>" "?D + 4" "Q + 4" 4 v] maps_to_shift [OF m, of 4 4 x] al by simp
  have ap: "apart Q 4 (Q + 4) 4" using same_block_apart [of 0 4 4 4 Q] by simp
  have keep: "mem32 (set_mem32 x (Q + 4) v) Q = mem32 x Q" "mem32 (set_mem32 x Q v) (Q + 4) = mem32 x (Q + 4)" for x v
    using ap apart_sym [OF ap] mem32_set_out by blast+
  let ?h = "push_bit 16 (ucast sz) :: u32"
  let ?m2 = "set_mem32 (set_mem32 (mem s) Q 0) (Q + 4) ?A"
  let ?m = "set_mem32 (set_mem32 (set_mem32 (set_mem32 ?m2 Q ?h) Q (?h OR 0x80000000)) Q ((?h OR 0x80000000) OR 0x80)) Q
      (((?h OR 0x80000000) OR 0x80) OR 0x40000000)"
  have se: "?s1\<lparr>mem := mem s\<rparr> = ?s1" and e1: "eth ?s1 = eth s" unfolding s1 by simp_all
  have wc: "wait_clear ETHCON1 ETH_TXRTS s = Some ?s1" using idle by (subst wait_clear.simps) (simp add: case_prod_beta)
  have q: "MACH_VIRT_TO_PHYS ?D = Q"
    using ring phys_virt [of Q] by (simp add: tx_ring_def dma_ram_def)
  let ?t = "request_tx ?D (?s1\<lparr>mem := ?m\<rparr>)"
  have "en_ll_output fr sz s = Some ?t"
    using sz wc w0(2) [of 0 "mem s"] w0 w4 q
    by (simp add: en_ll_output_def DESC_SET_BYTECNT_def DESC_SET_SOP_def DESC_SET_EOWN_def DESC_SET_EOP_def hdr_or_def
        Let_def e1 se keep mem32_set_mem32)
  moreover have "desc_hdr (mem ?t) Q 0 = tx_header (ucast sz)" "desc_addr (mem ?t) Q 0 = ?A"
    by (simp_all add: request_tx_def sfr_write_def dev_write_def desc_hdr_def desc_addr_def mem32_set_mem32 keep tx_header_def or.assoc)
  moreover have "mem ?t a = mem s a" if "\<And>j. j < 8 \<Longrightarrow> a \<noteq> Q + of_nat j" for a
    using that [of 0] that [of 1] that [of 2] that [of 3] that [of 4] that [of 5] that [of 6] that [of 7]
    by (simp add: request_tx_def sfr_write_def dev_write_def set_mem32_other add.assoc)
  ultimately show thesis
    using that [of ?t] by (simp add: request_tx_def sfr_write_def dev_write_def s1 q)
qed

lemma send_frame_sends:
  defines "B \<equiv> \<lambda>s. MACH_VIRT_TO_PHYS (tx_buf_addr (conf s))"
  assumes win: "window_ready s m" "guest_buffer s m (MoveFromPreviousGuestGPR REG_A0 s) (MoveFromPreviousGuestGPR REG_A1 s)"
    and sz: "0 < MoveFromPreviousGuestGPR REG_A1 s" "MoveFromPreviousGuestGPR REG_A1 s \<le> MTU"
    and ring: "tx_ring s Q" "dma_ram s (B s) 1536" "apart Q 8 (B s) 1536"
    and sep: "apart (B s) 1536 (guest_phys (base_addr m) (MoveFromPreviousGuestGPR REG_A0 s)) (unat (MoveFromPreviousGuestGPR REG_A1 s))"
    and idle: "dev (conf s) (vol_n s) (ETHCON1 AND 0x1FFFFFFF) AND ETH_TXRTS = 0"
  obtains t where "send_frame s = Some t" "MoveFromPreviousGuestGPR REG_V0 t = MoveFromPreviousGuestGPR REG_A1 s"
    "bytes_at (mem t) (B s) (unat (MoveFromPreviousGuestGPR REG_A1 s)) =
      bytes_at (mem s) (guest_phys (base_addr m) (MoveFromPreviousGuestGPR REG_A0 s)) (unat (MoveFromPreviousGuestGPR REG_A1 s))"
    "desc_hdr (mem t) Q 0 = tx_header (MoveFromPreviousGuestGPR REG_A1 s)" "desc_addr (mem t) Q 0 = B s"
    "io t = io s @ [IORead (ETHCON1 AND 0x1FFFFFFF) (dev (conf s) (vol_n s) (ETHCON1 AND 0x1FFFFFFF)),
       IOWrite (ETHTXST AND 0x1FFFFFFF) Q, IOWrite (ETHCON1SET AND 0x1FFFFFFF) ETH_TXRTS]" "tx_view t = mem t"
proof -
  let ?a0 = "MoveFromPreviousGuestGPR REG_A0 s" and ?n = "MoveFromPreviousGuestGPR REG_A1 s"
  let ?G = "guest_phys (base_addr m) ?a0" and ?b = "MACH_PHYS_TO_VIRT (B s)"
  obtain va s1 where w: "tlbCreateEntry ?a0 (base_addr m) ?n 0xF True s = Some (va, s1)"
    "maps_to s1 va ?G (unat ?n)" and q: "quiet s s1" "mem s1 = mem s" "io s1 = io s" "vol_n s1 = vol_n s"
    by (rule guest_window [OF window_readyD [OF win(1)] win(2), of True], rule that)
  have e: "eth s1 = eth s" "conf s1 = conf s" using q(1) by (simp_all add: quiet_def fixed_def kept_def)
  have n: "unat ?n \<le> 1536" "?n < 0x80000000" using sz(2) by (simp_all add: word_le_nat_alt word_less_nat_alt)
  let ?m = "put_bytes (mem s) (B s) (bytes_at (mem s) ?G (unat ?n))"
  have mb: "maps_to s1 ?b (B s) (unat ?n)"
    using kseg1_maps [of s1 "B s" "unat ?n"] ring(2) n(1) by (simp add: dma_ram_def e)
  have c: "memcpy_hv ?b va ?n s1 = Some (s1\<lparr>mem := ?m\<rparr>)"
    using memcpy_hv_maps [OF mb w(2) _ n(2)] apart_le [OF sep, of "unat ?n" "unat ?n"] n(1) q(2) by simp
  let ?s3 = "MoveToPreviousGuestGPR REG_V0 ?n (s1\<lparr>mem := ?m\<rparr>)"
  have s3: "mem ?s3 = ?m" "io ?s3 = io s" "eth ?s3 = eth s" "conf ?s3 = conf s" "vol_n ?s3 = vol_n s"
    using q e by (simp_all add: MoveToPreviousGuestGPR_def Let_def split: port.split)
  have r3: "tx_ring ?s3 Q" using ring(1) by (simp add: tx_ring_def dma_ram_def s3)
  have i3: "fst (sfr_read ETHCON1 ?s3) AND ETH_TXRTS = 0" using idle by (simp add: sfr_read_def dev_read_def Let_def s3)
  have u16: "unat (ucast ?n :: u16) = unat ?n"
    using n(1) by (simp add: unsigned_ucast_eq take_bit_nat_eq_self)
  have z: "0 < (ucast ?n :: u16)" "(ucast ?n :: u16) \<le> 1536"
    using sz(1) n(1) u16 by (simp_all add: word_less_nat_alt word_le_nat_alt)
  obtain t where t: "en_ll_output ?b (ucast ?n) ?s3 = Some t"
    "desc_hdr (mem t) Q 0 = tx_header (ucast (ucast ?n :: u16))" "desc_addr (mem t) Q 0 = MACH_VIRT_TO_PHYS ?b"
    "\<And>a. (\<And>j. j < 8 \<Longrightarrow> a \<noteq> Q + of_nat j) \<Longrightarrow> mem t a = ?m a"
    "io t = io s @ [IORead (ETHCON1 AND 0x1FFFFFFF) (fst (sfr_read ETHCON1 ?s3)), IOWrite (ETHTXST AND 0x1FFFFFFF) Q,
       IOWrite (ETHCON1SET AND 0x1FFFFFFF) ETH_TXRTS]" "tx_view t = mem t"
    "frame t = frame ?s3" "shadow t = shadow ?s3" "cp0 t = cp0 ?s3"
    by (rule en_ll_output_sends [OF r3 i3 z, of ?b]) (use s3 that in simp)
  have st: "send_frame s = Some t"
    using win(1) w(1) c t(1) copy_count_small [OF n(2), of ?b va] n(1)
    by (simp add: send_frame_def window_ready_def Let_def e B_def)
  have v0: "MoveFromPreviousGuestGPR REG_V0 t = ?n"
  proof -
    have "conf t = conf s" using postD [OF en_ll_output_post [OF drv_refl] t(1)] s3(4) by (auto simp: drv_def)
    then have "MoveFromPreviousGuestGPR REG_V0 t = MoveFromPreviousGuestGPR REG_V0 ?s3"
      using t(7-9) s3(4) by (simp add: MoveFromPreviousGuestGPR_def getPreviousShadowSet_def mfc0_def split: port.split)
    then show ?thesis by (simp add: MoveFrom_MoveTo)
  qed
  have bb: "bytes_at (mem t) (B s) (unat ?n) = bytes_at (mem s) ?G (unat ?n)"
  proof (rule nth_equalityI)
    fix j assume "j < length (bytes_at (mem t) (B s) (unat ?n))"
    then have j: "j < unat ?n" by simp
    have "B s + of_nat j \<noteq> Q + of_nat i" if "i < 8" for i using ring(3) j n(1) that by (metis apart_def less_le_trans)
    then show "bytes_at (mem t) (B s) (unat ?n) ! j = bytes_at (mem s) ?G (unat ?n) ! j"
      using t(4) j n(1) put_bytes_in [of j "bytes_at (mem s) ?G (unat ?n)" "mem s" "B s"] by (simp add: bytes_at_def)
  qed simp
  have up: "unat (ucast y :: u32) = unat y" for y :: u16
    using unsigned_less [of y, where 'a = nat] by (simp add: unsigned_ucast_eq take_bit_nat_eq_self)
  have uu: "ucast (ucast ?n :: u16) = ?n" unfolding word_unat_eq_iff up by (rule u16)
  show thesis
    by (rule that [OF st v0 bb]) (use t(2,3,5,6) uu virt_phys s3 in \<open>simp_all add: B_def sfr_read_def dev_read_def Let_def\<close>)
qed

lemma send_frame_overrun:
  assumes "MTU < MoveFromPreviousGuestGPR REG_A1 u" "MoveFromPreviousGuestGPR REG_A1 u < 0x80000000"
  shows "send_frame u = None"
proof -
  have "\<not> copy_count d a (MoveFromPreviousGuestGPR REG_A1 u) \<le> 1536" for d a
    using copy_count_small [OF assms(2), of d a] assms(1) by (simp add: word_less_nat_alt)
  then show ?thesis by (auto simp: send_frame_def Let_def bind_eq_None_conv ensure_def)
qed

subsection \<open>The ring after its set-up\<close>

fun fill_rx :: "u32 \<Rightarrow> u32 \<Rightarrow> nat list \<Rightarrow> (u32 \<Rightarrow> u8) \<Rightarrow> u32 \<Rightarrow> u8" where
  "fill_rx P B [] m = m"
| "fill_rx P B (i # is) m =
     (let h = desc_hdr m P i OR 0x80; a = P + of_nat (16 * i) in
      fill_rx P B is (set_mem32 (set_mem32 (set_mem32 m a h) a (h AND NOT 0x100)) (P + of_nat (16 * i + 4)) (MACH_VIRT_TO_PHYS (B + of_nat i * 128))))"

lemma setup_rx_descs_fill:
  "descs_at s P \<Longrightarrow> set is \<subseteq> {..<48} \<Longrightarrow>
     setup_rx_descs (map of_nat is) s = Some (s\<lparr>mem := fill_rx P (rx_buf (eth_port (eth s))) is (mem s)\<rparr>)"
proof (induction "is" arbitrary: s)
  case (Cons i "is")
  have i: "i < 49" using Cons.prems(2) by auto
  have r: "descs_at (s\<lparr>mem := m\<rparr>) P" for m using Cons.prems(1) by simp
  note acc = desc_access [OF Cons.prems(1) i] desc_access [OF r i]
  have same: "mem32 (set_mem32 m (P + of_nat (16 * i)) v) (P + of_nat (16 * i)) = v" for m v by (rule mem32_set_mem32)
  show ?case
    using acc Cons.IH [OF r] Cons.prems(2) same
    by (simp add: DESC_SET_EOWN_def DESC_CLEAR_NPV_def hdr_or_def rx_desc_at_of_nat Let_def desc_hdr_def
        del: of_nat_mult of_nat_add)
qed simp

lemma desc_set_pair:
  assumes "i < 48" "k < 49" "i \<noteq> k"
  shows "desc_hdr (set_mem32 (set_mem32 (set_mem32 m (P + of_nat (16 * i)) u) (P + of_nat (16 * i)) v) (P + of_nat (16 * i + 4)) w) P k = desc_hdr m P k"
    "desc_addr (set_mem32 (set_mem32 (set_mem32 m (P + of_nat (16 * i)) u) (P + of_nat (16 * i)) v) (P + of_nat (16 * i + 4)) w) P k = desc_addr m P k"
proof -
  have ap: "apart (P + of_nat (16 * k + x)) 4 (P + of_nat (16 * i + y)) 4" if "x + 4 \<le> 16" "y + 4 \<le> 16" for x y
  proof (rule same_block_apart)
    have "16 * k + 16 \<le> 16 * i \<or> 16 * i + 16 \<le> 16 * k" using assms(3) by linarith
    then show "16 * k + x + 4 \<le> 16 * i + y \<or> 16 * i + y + 4 \<le> 16 * k + x" using that by linarith
  qed (use assms that in simp_all)
  note a = ap [of 0 0] ap [of 0 4] ap [of 4 0] ap [of 4 4]
  show "desc_hdr (set_mem32 (set_mem32 (set_mem32 m (P + of_nat (16 * i)) u) (P + of_nat (16 * i)) v) (P + of_nat (16 * i + 4)) w) P k = desc_hdr m P k"
    using a(1,2) by (simp add: desc_hdr_def mem32_set_out del: of_nat_mult of_nat_add)
  show "desc_addr (set_mem32 (set_mem32 (set_mem32 m (P + of_nat (16 * i)) u) (P + of_nat (16 * i)) v) (P + of_nat (16 * i + 4)) w) P k = desc_addr m P k"
    using a(3,4) by (simp add: desc_addr_def mem32_set_out del: of_nat_mult of_nat_add)
qed

lemma fill_rx_descs:
  "set is \<subseteq> {..<48} \<Longrightarrow> distinct is \<Longrightarrow> k < 49 \<Longrightarrow>
     desc_hdr (fill_rx P B is m) P k = (if k \<in> set is then (desc_hdr m P k OR 0x80) AND NOT 0x100 else desc_hdr m P k) \<and>
     desc_addr (fill_rx P B is m) P k = (if k \<in> set is then MACH_VIRT_TO_PHYS (B + of_nat k * 128) else desc_addr m P k)"
proof (induction P B "is" m rule: fill_rx.induct)
  case (2 P B i "is" m)
  let ?h = "desc_hdr m P i OR 0x80" and ?a = "P + of_nat (16 * i)"
  let ?m = "set_mem32 (set_mem32 (set_mem32 m ?a ?h) ?a (?h AND NOT 0x100)) (P + of_nat (16 * i + 4)) (MACH_VIRT_TO_PHYS (B + of_nat i * 128))"
  have i: "i < 48" using 2(2) by simp
  have ap: "apart ?a 4 (P + of_nat (16 * i + 4)) 4" by (rule same_block_apart) (use i in simp_all)
  have self: "desc_hdr ?m P i = ?h AND NOT 0x100" "desc_addr ?m P i = MACH_VIRT_TO_PHYS (B + of_nat i * 128)"
    using ap by (simp_all add: desc_hdr_def desc_addr_def mem32_set_out mem32_set_mem32 del: of_nat_mult of_nat_add)
  have other: "desc_hdr ?m P k = desc_hdr m P k" "desc_addr ?m P k = desc_addr m P k" if "k \<noteq> i"
    using desc_set_pair [of i k] i 2(4) that by auto
  have IH: "desc_hdr (fill_rx P B is ?m) P k = (if k \<in> set is then (desc_hdr ?m P k OR 0x80) AND NOT 0x100 else desc_hdr ?m P k) \<and>
     desc_addr (fill_rx P B is ?m) P k = (if k \<in> set is then MACH_VIRT_TO_PHYS (B + of_nat k * 128) else desc_addr ?m P k)"
    using 2(1) [OF refl refl] 2(2-4) by simp
  show ?case using IH self other 2(3) by (cases "k = i") (auto simp: Let_def)
qed simp

lemma zero_words: "x + 4 \<le> n \<Longrightarrow> n < 2 ^ 32 \<Longrightarrow> mem32 (put_bytes m pa (replicate n 0)) (pa + of_nat x) = 0"
proof -
  assume x: "x + 4 \<le> n" "n < 2 ^ 32"
  have "put_bytes m pa (replicate n 0) (pa + of_nat x + of_nat j) = 0" if "j < 4" for j
    using put_bytes_in [of "x + j" "replicate n 0" m pa] x that by (simp add: add.assoc)
  from this [of 0] this [of 1] this [of 2] this [of 3] show ?thesis by (simp add: mem32_def)
qed

lemma st_bytes_zero: "dma_ram s pa n \<Longrightarrow>
  st_bytes (MACH_PHYS_TO_VIRT pa) (replicate n 0) s = Some (s\<lparr>mem := put_bytes (mem s) pa (replicate n 0)\<rparr>)"
  by (intro st_bytes_maps) (auto simp: kseg1_maps dma_ram_def)

text \<open>All descriptors belong to the controller, the last one links back to the first.\<close>

definition ring_linked :: "(u32 \<Rightarrow> u8) \<Rightarrow> u32 \<Rightarrow> u32 \<Rightarrow> bool" where
  "ring_linked m P B \<longleftrightarrow>
     (\<forall>i<48. desc_hdr m P i = (if i = 47 then 0x180 else 0x80) \<and> desc_addr m P i = MACH_VIRT_TO_PHYS (B + of_nat i * 128)) \<and>
     desc_hdr m P 48 = P"

lemma en_setup_dma_ring:
  assumes rx: "rx_ring s P" and tx: "tx_ring s Q" and ap: "apart P 784 Q 112"
  obtains t where "en_setup_dma s = Some t" "ring_linked (mem t) P (rx_buf (eth_port (eth s)))"
    "eth t = (eth s)\<lparr>receive_index := 0\<rparr>" "io t = io s @ [IOWrite (ETHRXST AND 0x1FFFFFFF) P, IOWrite (ETHTXST AND 0x1FFFFFFF) Q]"
proof -
  let ?B = "rx_buf (eth_port (eth s))" and ?is = "[0..<48]"
  have dm: "rx_desc (eth_port (eth s)) = MACH_PHYS_TO_VIRT P" "dma_ram s P 784" "tx_desc (eth_port (eth s)) = MACH_PHYS_TO_VIRT Q" "dma_ram s Q 112"
    using rx tx by (simp_all add: rx_ring_def tx_ring_def)
  have r: "descs_at (s\<lparr>mem := m\<rparr>) P" for m using rx_ring_at [OF rx] by simp
  let ?m1 = "put_bytes (mem s) P (replicate 784 0)"
  let ?m2 = "fill_rx P ?B ?is ?m1"
  let ?m3 = "set_mem32 ?m2 (P + of_nat (16 * 48)) P"
  have s1: "st_bytes (rx_desc_at 0 s) (replicate 784 0) s = Some (s\<lparr>mem := ?m1\<rparr>)"
    using st_bytes_zero [OF dm(2)] by (simp add: rx_desc_at_def dm(1))
  have idx: "set ?is \<subseteq> {..<48}" by auto
  have s2: "setup_rx_descs (map of_nat ?is) (s\<lparr>mem := ?m1\<rparr>) = Some (s\<lparr>mem := ?m2\<rparr>)"
    using setup_rx_descs_fill [OF r idx, of ?m1] by simp
  have p: "MACH_VIRT_TO_PHYS (MACH_PHYS_TO_VIRT P) = P" "MACH_VIRT_TO_PHYS (MACH_PHYS_TO_VIRT Q) = Q"
    using dm(2,4) by (intro phys_virt; simp add: dma_ram_def)+
  have v: "(48 :: u32) = of_nat 48" "(47 :: u32) = of_nat 47" by simp_all
  have at: "rx_desc_at 48 (s\<lparr>mem := m\<rparr>) = MACH_PHYS_TO_VIRT P + of_nat (16 * 48)"
    "rx_desc_at 47 (s\<lparr>mem := m\<rparr>) = MACH_PHYS_TO_VIRT P + of_nat (16 * 47)" "rx_desc_at 0 (s\<lparr>mem := m\<rparr>) = MACH_PHYS_TO_VIRT P" for m
    by (simp_all add: rx_desc_at_def dm(1))
  have s3: "st32 (rx_desc_at 48 (s\<lparr>mem := ?m2\<rparr>)) P (s\<lparr>mem := ?m2\<rparr>) = Some (s\<lparr>mem := ?m3\<rparr>)"
    using desc_access(3) [OF r, of 48 ?m2] unfolding at by (simp add: dm(1) del: of_nat_mult)
  have z: "desc_hdr ?m1 P i = 0" if "i < 49" for i
    using zero_words [of "16 * i" 784 "mem s" P] that by (simp add: desc_hdr_def)
  have hd2: "desc_hdr ?m2 P i = (if i < 48 then 0x80 else 0)" "i < 48 \<Longrightarrow> desc_addr ?m2 P i = MACH_VIRT_TO_PHYS (?B + of_nat i * 128)"
    if "i < 49" for i
    using fill_rx_descs [OF idx distinct_upt that, of P ?B ?m1] z [OF that] by auto
  have out48: "desc_hdr ?m3 P i = desc_hdr ?m2 P i" "desc_addr ?m3 P i = desc_addr ?m2 P i" if "i < 48" for i
  proof -
    have "apart (P + of_nat (16 * i)) 4 (P + of_nat (16 * 48)) 4"
      by (rule same_block_apart) (use that in simp_all)
    moreover have "apart (P + of_nat (16 * i + 4)) 4 (P + of_nat (16 * 48)) 4"
      by (rule same_block_apart) (use that in simp_all)
    ultimately show "desc_hdr ?m3 P i = desc_hdr ?m2 P i" "desc_addr ?m3 P i = desc_addr ?m2 P i"
      unfolding desc_hdr_def desc_addr_def by (simp_all only: mem32_set_out)
  qed
  let ?m4 = "set_mem32 ?m3 (P + of_nat (16 * 47)) 0x180"
  have s4: "DESC_SET_NPV (rx_desc_at 47 (s\<lparr>mem := ?m3\<rparr>)) (s\<lparr>mem := ?m3\<rparr>) = Some (s\<lparr>mem := ?m4\<rparr>)"
    using desc_access(1,3) [OF r, of 47 ?m3] out48(1) [of 47] hd2(1) [of 47] unfolding at
    by (simp add: DESC_SET_NPV_def hdr_or_def dm(1) del: of_nat_mult)
  define s6 where "s6 = sfr_write ETHRXST P (set_eth (\<lambda>x. x\<lparr>receive_index := 0\<rparr>) (s\<lparr>mem := ?m4\<rparr>))"
  have e6: "eth s6 = (eth s)\<lparr>receive_index := 0\<rparr>" "mem s6 = ?m4" "conf s6 = conf s" "io s6 = io s @ [IOWrite (ETHRXST AND 0x1FFFFFFF) P]"
    by (simp_all add: s6_def sfr_write_def dev_write_def set_eth_def)
  let ?s7 = "s6\<lparr>mem := put_bytes ?m4 Q (replicate 112 0)\<rparr>"
  have s7: "st_bytes (MACH_PHYS_TO_VIRT Q) (replicate 112 0) s6 = Some ?s7"
    using st_bytes_zero [of s6 Q 112] dm(4) by (simp add: dma_ram_def e6)
  have tx6: "tx_desc (eth_port (eth s6)) = MACH_PHYS_TO_VIRT Q" "rx_desc_at 0 (set_eth (\<lambda>x. x\<lparr>receive_index := 0\<rparr>) (s\<lparr>mem := ?m4\<rparr>)) = MACH_PHYS_TO_VIRT P"
    using dm by (simp_all add: e6 rx_desc_at_def set_eth_def)
  have run: "en_setup_dma s = Some (sfr_write ETHTXST Q ?s7)"
    using s1 s2 s3 s4 s7 at tx6 p unfolding en_setup_dma_def s6_def by (simp add: Let_def)
  have self47: "desc_addr ?m4 P 47 = desc_addr ?m3 P 47" "desc_hdr ?m4 P 48 = P"
  proof -
    have "apart (P + of_nat (16 * 47 + 4)) 4 (P + of_nat (16 * 47)) 4" "apart (P + of_nat (16 * 48)) 4 (P + of_nat (16 * 47)) 4"
      by (rule same_block_apart; simp)+
    then show "desc_addr ?m4 P 47 = desc_addr ?m3 P 47" "desc_hdr ?m4 P 48 = P"
      unfolding desc_hdr_def desc_addr_def by (simp_all only: mem32_set_out mem32_set_mem32)
  qed
  have out4: "desc_hdr ?m4 P i = (if i = 47 then 0x180 else 0x80)" "desc_addr ?m4 P i = MACH_VIRT_TO_PHYS (?B + of_nat i * 128)"
    if "i < 48" for i
  proof -
    have "desc_hdr ?m4 P 47 = 0x180" by (simp add: desc_hdr_def mem32_set_mem32 del: of_nat_mult)
    then show "desc_hdr ?m4 P i = (if i = 47 then 0x180 else 0x80)" "desc_addr ?m4 P i = MACH_VIRT_TO_PHYS (?B + of_nat i * 128)"
      using desc_hdr_set [of i 47 ?m3 P] out48 [OF that] hd2 [of i] self47(1) that by (cases "i = 47"; simp)+
  qed
  have fin: "desc_hdr (put_bytes ?m4 Q (replicate 112 0)) P i = desc_hdr ?m4 P i"
    "i < 48 \<Longrightarrow> desc_addr (put_bytes ?m4 Q (replicate 112 0)) P i = desc_addr ?m4 P i" if "i < 49" for i
  proof -
    have "apart (P + of_nat (16 * i)) 4 Q 112" using apart_shift [OF ap, of "16 * i" 4 0 112] that by simp
    then show "desc_hdr (put_bytes ?m4 Q (replicate 112 0)) P i = desc_hdr ?m4 P i"
      unfolding desc_hdr_def by (intro mem32_put_out) simp
    assume "i < 48"
    then have "apart (P + of_nat (16 * i + 4)) 4 Q 112" using apart_shift [OF ap, of "16 * i + 4" 4 0 112] by simp
    then show "desc_addr (put_bytes ?m4 Q (replicate 112 0)) P i = desc_addr ?m4 P i"
      unfolding desc_addr_def by (intro mem32_put_out) simp
  qed
  have "ring_linked (mem (sfr_write ETHTXST Q ?s7)) P ?B"
    using out4 fin self47(2) by (simp add: ring_linked_def sfr_write_def dev_write_def)
  then show thesis
    by (rule that [OF run]) (simp_all add: sfr_write_def dev_write_def e6)
qed

subsection \<open>Memory for the rings\<close>

text \<open>A null pointer becomes 0xA0000000, which the test for null lets pass.\<close>

lemma uncached_nz: "uncached r \<noteq> 0"
proof
  assume "uncached r = 0"
  then have "uncached r AND 0x80000000 = 0" by simp
  then show False by (simp add: uncached_def MACH_PHYS_TO_VIRT_def bit.conj_disj_distrib2)
qed

lemma alloc_rings_unchecked:
  assumes "malloc 6144 (heap s) = Some (a, h1)" "malloc 784 h1 = Some (b, h2)" "malloc 112 h2 = Some (c, h3)"
  shows "alloc_rings s = Some (set_port (\<lambda>e. e\<lparr>rx_buf := uncached a, rx_desc := uncached b, tx_desc := uncached c\<rparr>) (s\<lparr>heap := h3\<rparr>))"
  using assms uncached_nz by (simp add: alloc_rings_def Let_def set_port_def set_eth_def)

lemma uncached_None: "uncached None = 0xA0000000"
  by (simp add: uncached_def MACH_PHYS_TO_VIRT_def MACH_VIRT_TO_PHYS_def)

end
