(* ===== verification/EthShared.thy ===== *)
theory EthShared
  imports EthRing
begin

text \<open>
  The Ethernet driver for several VMs, \<open>drivers/pic32mz-ethernet-shared.c\<close>: a small switch. Each VM
  has its own MAC address; a frame taken from the controller on behalf of one VM is handed over, kept
  for the VM it is addressed to, or both. What it shares with the driver for one VM is in Ethernet.
\<close>

subsection \<open>Frame buffers and rings\<close>

text \<open>\<open>b_buf[k].frame\<close>: two words and \<open>MTU\<close> bytes make an element of the array.\<close>

definition frame_addr :: "hv \<Rightarrow> u32 \<Rightarrow> u32" where
  "frame_addr s k = b_buf_addr (conf s) + 1544 * k + 8"

text \<open>The functions that search return -1 when they find nothing.\<close>

fun first_index :: "(nat \<Rightarrow> bool option) \<Rightarrow> nat list \<Rightarrow> u32 option" where
  "first_index P [] = Some (- 1)"
| "first_index P (i # is) = do { hit \<leftarrow> P i; if hit then Some (of_nat i) else first_index P is }"

definition get_vm_buffer_pos :: "u32 \<Rightarrow> hv \<Rightarrow> u32 option" where
  "get_vm_buffer_pos ident s =
     first_index (\<lambda>i. do { c \<leftarrow> arr_get (VMCTRLbuf (eth s)) (int i); Some (cb_vm_id c = ident) }) [0..<unat (vm_counter (eth s))]"

definition get_free_buffer :: "hv \<Rightarrow> u32 option" where
  "get_free_buffer s =
     first_index (\<lambda>i. do { b \<leftarrow> arr_get (b_buf (eth s)) (int i); Some (fb_used b = 0) }) [0..<10]"

fun maccmp_from :: "nat list \<Rightarrow> u8 list \<Rightarrow> u8 list \<Rightarrow> bool" where
  "maccmp_from [] xs ys = True"
| "maccmp_from (i # is) xs ys = (if xs ! i \<noteq> ys ! i then False else maccmp_from is xs ys)"

definition maccmp :: "u8 list \<Rightarrow> u8 list \<Rightarrow> bool" where
  "maccmp mac1 mac2 = maccmp_from [0..<6] mac1 mac2"

definition is_broadcast :: "u8 list \<Rightarrow> bool" where
  "is_broadcast f = maccmp f [0xFF, 0xFF, 0xFF, 0xFF, 0xFF, 0xFF]"

definition get_vm_destination :: "u8 list \<Rightarrow> hv \<Rightarrow> u32 option" where
  "get_vm_destination f s =
     first_index (\<lambda>i. do { c \<leftarrow> arr_get (VMCTRLbuf (eth s)) (int i); Some (maccmp (cb_mac c) f) }) [0..<unat (vm_counter (eth s))]"

text \<open>The ring of a VM: the index of a frame buffer goes in at \<open>input\<close>, comes out at \<open>output\<close>.\<close>

definition queue_frame :: "nat \<Rightarrow> vm_ctrl_buffer \<Rightarrow> vm_ctrl_buffer option" where
  "queue_frame k c =
     do { l \<leftarrow> arr_set (frame_list c) (int (unat (cb_input c))) (Some k);
          Some (c\<lparr>frame_list := l, cb_input := (cb_input c + 1) mod 10\<rparr>) }"

definition next_frame :: "vm_ctrl_buffer \<Rightarrow> (nat \<times> vm_ctrl_buffer) option" where
  "next_frame c =
     do { r \<leftarrow> arr_get (frame_list c) (int (unat (cb_output c)));
          k \<leftarrow> r;
          Some (k, c\<lparr>cb_output := (cb_output c + 1) mod 10\<rparr>) }"

definition queue_to_vm :: "nat \<Rightarrow> nat \<Rightarrow> hv \<Rightarrow> hv option" where
  "queue_to_vm k i s =
     do { c \<leftarrow> arr_get (VMCTRLbuf (eth s)) (int i);
          c1 \<leftarrow> queue_frame k c;
          b \<leftarrow> arr_get (b_buf (eth s)) (int k);
          Some (set_eth (\<lambda>x. x\<lparr>VMCTRLbuf := (VMCTRLbuf x)[i := c1], b_buf := (b_buf x)[k := b\<lparr>fb_used := fb_used b + 1\<rparr>]\<rparr>) s) }"

fun broadcast_to :: "nat list \<Rightarrow> nat \<Rightarrow> nat \<Rightarrow> hv \<Rightarrow> hv option" where
  "broadcast_to [] j k s = Some s"
| "broadcast_to (i # is) j k s =
     (if i = j then broadcast_to is j k s else do { s1 \<leftarrow> queue_to_vm k i s; broadcast_to is j k s1 })"

definition set_frame_size :: "nat \<Rightarrow> u32 \<Rightarrow> hv \<Rightarrow> hv option" where
  "set_frame_size k sz s =
     do { b \<leftarrow> arr_get (b_buf (eth s)) (int k);
          Some (set_eth (\<lambda>x. x\<lparr>b_buf := (b_buf x)[k := b\<lparr>fb_size := sz\<rparr>]\<rparr>) s) }"

abbreviation (input) "count_buffer \<equiv> set_eth (\<lambda>x. x\<lparr>number_used_buffers := number_used_buffers x + 1\<rparr>)"

subsection \<open>Hypercalls\<close>

text \<open>The MAC address of the VM is the device's plus its number, also in the sixth byte of the guest's copy.\<close>

definition en_get_mac_shared :: "hv \<Rightarrow> hv option" where
  "en_get_mac_shared s =
     do { m \<leftarrow> cur_vm s;
          (va, s1) \<leftarrow> tlbCreateEntry (MoveFromPreviousGuestGPR REG_A0 s) (base_addr m) 6 0xF True s;
          s2 \<leftarrow> st_bytes va (macaddr (eth_port (eth s1))) s1;
          (b, s3) \<leftarrow> ld8 (va + 5) s2;
          s4 \<leftarrow> st8 (va + 5) (b + ucast (vm_counter (eth s3))) s3;
          let n = vm_counter (eth s4);
          if n < 2
          then
            do { (mac, s5) \<leftarrow> ld_bytes va 6 s4;
                 c \<leftarrow> arr_get (VMCTRLbuf (eth s5)) (int (unat n));
                 Some (set_eth (\<lambda>x. x\<lparr>VMCTRLbuf := (VMCTRLbuf x)[unat n := c\<lparr>cb_mac := mac, cb_vm_id := vm_ident m\<rparr>],
                                      vm_counter := n + 1\<rparr>) s5) }
          else Some s4 }"

text \<open>A frame that was kept for the VM.\<close>

definition take_stored :: "u32 \<Rightarrow> nat \<Rightarrow> hv \<Rightarrow> hv option" where
  "take_stored va j s =
     do { c \<leftarrow> arr_get (VMCTRLbuf (eth s)) (int j);
          (k, c1) \<leftarrow> next_frame c;
          b \<leftarrow> arr_get (b_buf (eth s)) (int k);
          s1 \<leftarrow> memcpy_hv va (frame_addr s (of_nat k)) (fb_size b) s;
          let left = fb_used b - 1;
          Some (MoveToPreviousGuestGPR REG_V0 (fb_size b)
            (set_eth (\<lambda>x. x\<lparr>b_buf := (b_buf x)[k := b\<lparr>fb_used := left\<rparr>], VMCTRLbuf := (VMCTRLbuf x)[j := c1],
               number_used_buffers := (if left = 0 then number_used_buffers x - 1 else number_used_buffers x)\<rparr>) s1)) }"

text \<open>
  The loop over the frames of the controller. The variables that hold the results of the searches are
  unsigned, so the tests for a negative value are never true: a search that fails yields an index
  outside the arrays.
\<close>

partial_function (option) receive_loop_shared :: "u32 \<Rightarrow> nat \<Rightarrow> hv \<Rightarrow> hv option" where
  "receive_loop_shared va j s =
     do { c \<leftarrow> arr_get (VMCTRLbuf (eth s)) (int j);
          freebuf \<leftarrow> get_free_buffer s;
          let fa = frame_addr s freebuf;
          (framesz, s1) \<leftarrow> en_ll_input fa s;
          if framesz = 0 then Some (MoveToPreviousGuestGPR REG_V0 0 s1)
          else
            do { let k = unat freebuf;
                 ensure (k < 10);
                 (dst, s2) \<leftarrow> ld_bytes fa 6 s1;
                 if maccmp dst (cb_mac c) \<or> is_broadcast dst
                 then
                   do { s3 \<leftarrow> memcpy_hv va fa framesz s2;
                        let s4 = MoveToPreviousGuestGPR REG_V0 framesz s3;
                        (dst2, s5) \<leftarrow> ld_bytes fa 6 s4;
                        if is_broadcast dst2
                        then
                          do { s6 \<leftarrow> set_frame_size k framesz s5;
                               s7 \<leftarrow> broadcast_to [0..<unat (vm_counter (eth s6))] j k s6;
                               Some (count_buffer s7) }
                        else Some s5 }
                 else
                   do { i \<leftarrow> get_vm_destination dst s2;
                        s3 \<leftarrow> queue_to_vm k (unat i) s2;
                        s4 \<leftarrow> set_frame_size k framesz s3;
                        receive_loop_shared va j (count_buffer s4) } } }"

definition receive_frame_shared :: "hv \<Rightarrow> hv option" where
  "receive_frame_shared s =
     do { m \<leftarrow> cur_vm s;
          (va, s1) \<leftarrow> tlbCreateEntry (MoveFromPreviousGuestGPR REG_A0 s) (base_addr m) MTU 0xF True s;
          pos \<leftarrow> get_vm_buffer_pos (vm_ident m) s1;
          let j = unat pos;
          c \<leftarrow> arr_get (VMCTRLbuf (eth s1)) (int j);
          if cb_input c \<noteq> cb_output c then take_stored va j s1 else receive_loop_shared va j s1 }"

text \<open>\<open>en_init\<close>: the arrays are cleared first, and unicast frames for other stations are let in.\<close>

definition en_init_shared :: "hv \<Rightarrow> hv option" where
  "en_init_shared s =
     do { s0 \<leftarrow> st_bytes (b_buf_addr (conf s)) (replicate 15440 0) s;
          s1 \<leftarrow> en_bring_up (0x40 OR 0x10 OR 8 OR 1 OR 4)
                 (set_eth (\<lambda>x. x\<lparr>b_buf := b_buf eth_reset, VMCTRLbuf := VMCTRLbuf eth_reset\<rparr>) s0);
          if 32 \<le> phy_addr (eth_port (eth s1)) then Some (sfr_write ETHCON1 0 s1)
          else
            do { s2 \<leftarrow> en_identify s1;
                 s3 \<leftarrow> alloc_rings s2;
                 en_register [(H_en_watchdog, 4), (H_en_get_mac_shared, 7), (H_send_frame, 5), (H_receive_frame_shared, 6)] s3 } }"

end
