(* ===== verification/EthSwitch.thy ===== *)
theory EthSwitch
  imports EthShared Messaging
begin

text \<open>
  The switch of the shared Ethernet driver: its operations keep the statics well formed, the ring of a
  VM is a bounded buffer of nine frames, and what becomes of a frame for another VM, for a station
  that is not on the device, and of the tenth frame.
\<close>

subsection \<open>The statics stay well formed\<close>

lemma drv_eth: "(eth_ok (eth s) \<Longrightarrow> eth_ok (f (eth s))) \<Longrightarrow> drv s (set_eth f s)"
  by (rule drvI [where m = "mem s" and x = "io s" and y = "vol_n s" and e = "f (eth s)"]) (simp_all add: set_eth_def)

lemma drv_post: "drv s t \<Longrightarrow> (\<And>u. m = Some u \<Longrightarrow> drv t u) \<Longrightarrow> post (drv s) m"
  unfolding post_def using drv_trans by blast

lemma eth_ok_ctrl: "eth_ok x \<Longrightarrow> i < 2 \<Longrightarrow> ctrl_ok c \<Longrightarrow> eth_ok (x\<lparr>VMCTRLbuf := (VMCTRLbuf x)[i := c]\<rparr>)"
  by (auto simp: eth_ok_def dest!: subsetD [OF set_update_subset_insert])

lemma eth_ok_fields:
  "eth_ok x \<Longrightarrow> eth_ok (x\<lparr>b_buf := (b_buf x)[k := b]\<rparr>)" "eth_ok x \<Longrightarrow> eth_ok (x\<lparr>number_used_buffers := n\<rparr>)"
  by (simp_all add: eth_ok_def)

lemma eth_ok_get: "eth_ok x \<Longrightarrow> arr_get (VMCTRLbuf x) (int i) = Some c \<Longrightarrow> ctrl_ok c \<and> i < 2"
  by (auto simp: eth_ok_def arr_get_def split: if_splits)

lemma ring_next_less: "(x + 1) mod 10 < (10 :: u32)"
  by (simp add: word_less_nat_alt unat_mod)

lemma queue_frame_ok: "queue_frame k c = Some c1 \<Longrightarrow> k < 10 \<Longrightarrow> ctrl_ok c \<Longrightarrow> ctrl_ok c1"
  by (auto simp: queue_frame_def bind_eq_Some_conv arr_set_def ctrl_ok_def ring_next_less dest!: subsetD [OF set_update_subset_insert] split: if_splits)

lemma next_frame_ok: "next_frame c = Some (k, c1) \<Longrightarrow> ctrl_ok c \<Longrightarrow> ctrl_ok c1"
  by (auto simp: next_frame_def bind_eq_Some_conv ctrl_ok_def ring_next_less)

lemma queue_to_vm_drv: "queue_to_vm k i s = Some t \<Longrightarrow> k < 10 \<Longrightarrow> drv s t"
proof -
  assume "queue_to_vm k i s = Some t" and k: "k < 10"
  then obtain c c1 b where c: "arr_get (VMCTRLbuf (eth s)) (int i) = Some c" "queue_frame k c = Some c1"
    and t: "t = set_eth (\<lambda>x. x\<lparr>VMCTRLbuf := (VMCTRLbuf x)[i := c1], b_buf := (b_buf x)[k := b\<lparr>fb_used := fb_used b + 1\<rparr>]\<rparr>) s"
    by (auto simp: queue_to_vm_def bind_eq_Some_conv)
  show ?thesis
    unfolding t by (rule drv_eth, rule eth_ok_fields(1) [OF eth_ok_ctrl, simplified]) (use eth_ok_get [OF _ c(1)] queue_frame_ok [OF c(2) k] in auto)
qed

lemma broadcast_to_drv: "broadcast_to is j k s = Some t \<Longrightarrow> k < 10 \<Longrightarrow> drv s t"
proof (induction "is" arbitrary: s)
  case (Cons i "is")
  then show ?case using queue_to_vm_drv drv_trans by (auto simp: bind_eq_Some_conv split: if_splits) blast
qed simp

lemma set_frame_size_drv: "set_frame_size k sz s = Some t \<Longrightarrow> drv s t"
  by (auto simp: set_frame_size_def bind_eq_Some_conv intro!: drv_eth eth_ok_fields)

lemma count_buffer_drv [dr]: "drv s t \<Longrightarrow> drv s (count_buffer t)"
  by (erule drv_trans) (rule drv_eth, rule eth_ok_fields)

lemma shared_post [dw]:
  assumes "drv s t"
  shows "k < 10 \<Longrightarrow> post (drv s) (queue_to_vm k i t)" "k < 10 \<Longrightarrow> post (drv s) (broadcast_to is j k t)"
    "post (drv s) (set_frame_size k sz t)" "post (\<lambda>(v, u). drv s u) (ld_bytes a n t)"
proof -
  have l: "ld_bytes a n t = Some (v, u) \<Longrightarrow> drv t u" for v u t a n
  proof (induction n arbitrary: a t v)
    case (Suc n)
    then obtain b u1 where b: "ld8 a t = Some (b, u1)" "\<exists>v'. ld_bytes (a + 1) n u1 = Some (v', u)" by (auto simp: bind_eq_Some_conv)
    then show ?case using Suc.IH drv_access(1) drv_trans by blast
  qed simp
  show "k < 10 \<Longrightarrow> post (drv s) (queue_to_vm k i t)" by (rule drv_post [OF assms]) (rule queue_to_vm_drv)
  show "k < 10 \<Longrightarrow> post (drv s) (broadcast_to is j k t)" by (rule drv_post [OF assms]) (rule broadcast_to_drv)
  show "post (drv s) (set_frame_size k sz t)" by (rule drv_post [OF assms]) (rule set_frame_size_drv)
  show "post (\<lambda>(v, u). drv s u) (ld_bytes a n t)" unfolding post_def using l drv_trans [OF assms] by auto
qed

text \<open>The results of a hypercall, seen by the rest of the kernel.\<close>

named_theorems kw "results of the calls, up to krel"

lemma kpost_bind:
  "(b \<Longrightarrow> post Q (f0 ())) \<Longrightarrow> post Q (ensure b \<bind> f0)"
  "post (\<lambda>(v, t). krel s t) m2 \<Longrightarrow> (\<And>v t. krel s t \<Longrightarrow> post Q (f2 v t)) \<Longrightarrow> post Q (m2 \<bind> (\<lambda>(v, t). f2 v t))"
  "post (krel s) m \<Longrightarrow> (\<And>t. krel s t \<Longrightarrow> post Q (f t)) \<Longrightarrow> post Q (m \<bind> f)"
  "(\<And>x. m1 = Some x \<Longrightarrow> post Q (f1 x)) \<Longrightarrow> post Q (m1 \<bind> f1)"
  by (auto simp: post_def bind_eq_Some_conv ensure_def split: if_splits)

lemma kpost_let:
  "krel s t \<Longrightarrow> (\<And>x. krel s x \<Longrightarrow> post Q (f x)) \<Longrightarrow> post Q (Let t f)"
  "(\<And>x. x = e \<Longrightarrow> post Q (g x)) \<Longrightarrow> post Q (Let e g)"
  by simp_all

lemma krel_calls [kw]:
  assumes "krel s t"
  shows "post (\<lambda>(v, u). krel s u) (ld_bytes a n t)" "post (\<lambda>(v, u). krel s u) (ld8 a t)" "post (krel s) (st8 a b t)"
    "post (krel s) (st_bytes a bs t)" "post (krel s) (memcpy_hv d a sz t)" "post (\<lambda>(v, u). krel s u) (en_ll_input b' t)"
    "post (krel s) (set_frame_size k sz t)" "k < 10 \<Longrightarrow> post (krel s) (queue_to_vm k i t)"
    "k < 10 \<Longrightarrow> post (krel s) (broadcast_to is j k t)" "post (\<lambda>(v, u). krel s u) (tlbCreateEntry va ba n' 0xF c t)"
proof -
  have d: "post (krel s) m" if "post (drv t) m" for m
    using that krel_trans [OF assms drv_krel] by (auto simp: post_def)
  have d2: "post (\<lambda>(v, u). krel s u) m" if "post (\<lambda>(v, u). drv t u) m" for m :: "('v \<times> hv) option"
    using that krel_trans [OF assms drv_krel] by (fastforce simp: post_def)
  show "post (\<lambda>(v, u). krel s u) (ld8 a t)"
    by (rule d2) (auto simp: post_def dest: drv_access)
  show "post (krel s) (st8 a b t)" by (rule d) (auto simp: post_def dest: drv_access)
  show "post (\<lambda>(v, u). krel s u) (tlbCreateEntry va ba n' 0xF c t)"
    using krel_trans [OF assms quiet_krel [OF tlbCreateEntry_quiet]] by (auto simp: post_def)
  show "post (\<lambda>(v, u). krel s u) (ld_bytes a n t)" "post (krel s) (st_bytes a bs t)" "post (krel s) (memcpy_hv d a sz t)"
    "post (\<lambda>(v, u). krel s u) (en_ll_input b' t)" "post (krel s) (set_frame_size k sz t)"
    "k < 10 \<Longrightarrow> post (krel s) (queue_to_vm k i t)" "k < 10 \<Longrightarrow> post (krel s) (broadcast_to is j k t)"
    by (rule d d2, rule dw, rule drv_refl | assumption)+
qed

lemma krel_upds [kw]:
  "krel s t \<Longrightarrow> krel s (MoveToPreviousGuestGPR r v t)" "krel s t \<Longrightarrow> krel s (count_buffer t)"
  using krel_trans [OF _ quiet_krel [OF MoveTo_quiet]] krel_trans [OF _ drv_krel [OF count_buffer_drv [OF drv_refl]]] by blast+

lemmas kpost_rules = post_intros kpost_let kpost_bind

lemma receive_loop_shared_krel: "receive_loop_shared va j s = Some t \<Longrightarrow> krel s t"
proof (induction va j s t rule: receive_loop_shared.raw_induct [rotated, consumes 1])
  case (1 loop va j s t)
  have IH: "krel s u \<Longrightarrow> post (krel s) (loop va j u)" for u
    using 1(1) [of va j u] krel_trans unfolding post_def by blast
  have "post (krel s) (Some t)"
    unfolding 1(2) [symmetric] by (intro kpost_rules kw IH | assumption | rule krel_refl)+
  then show ?case by (simp add: post_def)
qed

lemma krel_eth:
  assumes "krel s u" "eth_ok (eth s) \<Longrightarrow> eth_ok (eth u) \<Longrightarrow> eth_ok (f (eth u))"
  shows "krel s (set_eth f u)"
proof -
  have "kstate u \<longrightarrow> kstate (set_eth f u)"
    by (simp add: set_eth_def kstate_def mailboxes_ok_def hv_sched_def sched_inv_def ready_def)
  then show ?thesis using assms unfolding krel_def by (auto simp: set_eth_def kept_def tlb_but_window_def)
qed

lemma take_stored_krel: "take_stored va j s = Some t \<Longrightarrow> krel s t"
proof -
  assume "take_stored va j s = Some t"
  then obtain c k c1 b u where c: "arr_get (VMCTRLbuf (eth s)) (int j) = Some c" "next_frame c = Some (k, c1)"
    and u: "memcpy_hv va (frame_addr s (of_nat k)) (fb_size b) s = Some u"
    and t: "t = MoveToPreviousGuestGPR REG_V0 (fb_size b)
      (set_eth (\<lambda>x. x\<lparr>b_buf := (b_buf x)[k := b\<lparr>fb_used := fb_used b - 1\<rparr>], VMCTRLbuf := (VMCTRLbuf x)[j := c1],
        number_used_buffers := (if fb_used b - 1 = 0 then number_used_buffers x - 1 else number_used_buffers x)\<rparr>) u)"
    by (auto simp: take_stored_def bind_eq_Some_conv Let_def)
  have k: "krel s u" by (rule postD [OF krel_calls(5) [OF krel_refl] u])
  show ?thesis
    unfolding t
  proof (intro kw krel_eth [OF k])
    assume ok: "eth_ok (eth s)" "eth_ok (eth u)"
    have "ctrl_ok c1" "j < 2" using eth_ok_get [OF ok(1) c(1)] next_frame_ok [OF c(2)] by simp_all
    then show "eth_ok ((eth u)\<lparr>b_buf := (b_buf (eth u))[k := b\<lparr>fb_used := fb_used b - 1\<rparr>], VMCTRLbuf := (VMCTRLbuf (eth u))[j := c1],
        number_used_buffers := (if fb_used b - 1 = 0 then number_used_buffers (eth u) - 1 else number_used_buffers (eth u))\<rparr>)"
      using eth_ok_fields(2) [OF eth_ok_ctrl [OF eth_ok_fields(1) [OF ok(2)]]] by simp
  qed
qed

lemma receive_frame_shared_krel: "receive_frame_shared s = Some t \<Longrightarrow> krel s t"
proof -
  assume st: "receive_frame_shared s = Some t"
  have a: "krel s u \<Longrightarrow> post (krel s) (take_stored va j u)" "krel s u \<Longrightarrow> post (krel s) (receive_loop_shared va j u)" for u va j
    using krel_trans take_stored_krel receive_loop_shared_krel unfolding post_def by blast+
  have "post (krel s) (Some t)"
    unfolding st [symmetric] receive_frame_shared_def by (intro kpost_rules kw a | assumption | rule krel_refl)+
  then show ?thesis by (simp add: post_def)
qed

lemma st_bytes_length: "ld_bytes a n s = Some (bs, t) \<Longrightarrow> length bs = n"
  by (induction n arbitrary: a s bs) (auto simp: bind_eq_Some_conv)

lemma en_get_mac_shared_krel: "en_get_mac_shared s = Some t \<Longrightarrow> krel s t"
proof -
  assume st: "en_get_mac_shared s = Some t"
  have e: "post (krel s) (Some (set_eth (\<lambda>x. x\<lparr>VMCTRLbuf := (VMCTRLbuf x)[unat n := c\<lparr>cb_mac := mac, cb_vm_id := i\<rparr>], vm_counter := n + 1\<rparr>) u))"
    if "krel s u" "ld_bytes va 6 v = Some (mac, u)" "arr_get (VMCTRLbuf (eth u)) (int (unat n)) = Some c" "n < 2" for u v va mac c n i
  proof -
    have "eth_ok ((eth u)\<lparr>VMCTRLbuf := (VMCTRLbuf (eth u))[unat n := c\<lparr>cb_mac := mac, cb_vm_id := i\<rparr>], vm_counter := n + 1\<rparr>)"
      if ok: "eth_ok (eth u)"
    proof -
      have c: "ctrl_ok (c\<lparr>cb_mac := mac, cb_vm_id := i\<rparr>)" "unat n < 2"
        using eth_ok_get [OF ok \<open>arr_get _ _ = _\<close>] st_bytes_length [OF \<open>ld_bytes _ _ _ = _\<close>] by (auto simp: ctrl_ok_def)
      have n: "n + 1 \<le> 2" using \<open>n < 2\<close> by (rule inc_le)
      show ?thesis using eth_ok_ctrl [OF ok c(2,1)] n by (simp add: eth_ok_def)
    qed
    then show ?thesis using krel_eth [OF that(1)] by (simp add: post_def)
  qed
  have ld: "post Q (ld_bytes a n u \<bind> (\<lambda>(v, w). f v w))"
    if "krel s u" "\<And>v w. ld_bytes a n u = Some (v, w) \<Longrightarrow> krel s w \<Longrightarrow> post Q (f v w)"
    for a n u f and Q :: "hv \<Rightarrow> bool"
    using krel_calls(1) [OF that(1), of a n] that(2) by (auto simp: post_def bind_eq_Some_conv)
  have "post (krel s) (Some t)"
    unfolding st [symmetric] en_get_mac_shared_def
    by (intro ld e kpost_rules kw | assumption | rule krel_refl)+
  then show ?thesis by (simp add: post_def)
qed

subsection \<open>The ring of a VM\<close>

text \<open>The frame buffers that wait in the ring, oldest first.\<close>

definition ring_count :: "vm_ctrl_buffer \<Rightarrow> nat" where
  "ring_count c = (unat (cb_input c) + 10 - unat (cb_output c)) mod 10"

definition stored :: "vm_ctrl_buffer \<Rightarrow> nat list" where
  "stored c = map (\<lambda>i. the (frame_list c ! ((unat (cb_output c) + i) mod 10))) [0..<ring_count c]"

definition frame_ring_ok :: "vm_ctrl_buffer \<Rightarrow> bool" where
  "frame_ring_ok c \<longleftrightarrow> ctrl_ok c \<and> (\<forall>i<ring_count c. frame_list c ! ((unat (cb_output c) + i) mod 10) \<noteq> None)"

lemma mod10: "x < 20 \<Longrightarrow> x mod 10 = (if x < 10 then x else x - 10)" for x :: nat
  by (simp add: mod_if)

lemma ring10:
  fixes i o' :: nat
  assumes "i < 10" "o' < 10"
  defines "n \<equiv> (i + 10 - o') mod 10"
  shows "i = (o' + n) mod 10" "n < 10" "\<And>j. j < n \<Longrightarrow> (o' + j) mod 10 \<noteq> i"
    "((i + 1) mod 10 + 10 - o') mod 10 = (if n = 9 then 0 else n + 1)"
    "0 < n \<Longrightarrow> (i + 10 - (o' + 1) mod 10) mod 10 = n - 1"
proof -
  have n: "n = (if o' \<le> i then i - o' else i + 10 - o')" using assms by (simp add: mod10)
  show "n < 10" by (simp add: n_def)
  show "i = (o' + n) mod 10" "0 < n \<Longrightarrow> (i + 10 - (o' + 1) mod 10) mod 10 = n - 1"
    "((i + 1) mod 10 + 10 - o') mod 10 = (if n = 9 then 0 else n + 1)"
    using assms(1,2) unfolding n by (auto simp: mod10)
  show "(o' + j) mod 10 \<noteq> i" if "j < n" for j
    using that assms(1,2) unfolding n by (auto simp: mod10 split: if_splits)
qed

lemma unat_next10: "x < 10 \<Longrightarrow> unat ((x + 1) mod (10 :: u32)) = (unat x + 1) mod 10"
proof -
  assume "x < 10"
  then have "unat (x + 1) = unat x + 1" by (subst unat_add_u32) (simp_all add: word_less_nat_alt)
  then show ?thesis by (simp add: unat_mod)
qed

lemma ctrl_okD: "ctrl_ok c \<Longrightarrow> unat (cb_input c) < 10 \<and> unat (cb_output c) < 10 \<and> length (frame_list c) = 10"
  by (simp add: ctrl_ok_def word_less_nat_alt)

lemma queue_frame_eq:
  assumes "ctrl_ok c"
  shows "queue_frame k c = Some (c\<lparr>frame_list := (frame_list c)[unat (cb_input c) := Some k], cb_input := (cb_input c + 1) mod 10\<rparr>)"
  using ctrl_okD [OF assms] by (simp add: queue_frame_def arr_set_nat del: of_nat_unat)

lemma queue_frame_stored:
  assumes ok: "frame_ring_ok c" and k: "k < 10" and n: "ring_count c < 9"
  obtains c1 where "queue_frame k c = Some c1" "frame_ring_ok c1" "stored c1 = stored c @ [k]"
proof -
  have c: "ctrl_ok c" "unat (cb_input c) < 10" "unat (cb_output c) < 10" "length (frame_list c) = 10"
    and f: "\<And>i. i < ring_count c \<Longrightarrow> frame_list c ! ((unat (cb_output c) + i) mod 10) \<noteq> None"
    using ok ctrl_okD by (auto simp: frame_ring_ok_def)
  note r = ring10 [OF c(2,3), folded ring_count_def]
  let ?c = "c\<lparr>frame_list := (frame_list c)[unat (cb_input c) := Some k], cb_input := (cb_input c + 1) mod 10\<rparr>"
  have q: "queue_frame k c = Some ?c" by (rule queue_frame_eq [OF c(1)])
  have cnt: "ring_count ?c = Suc (ring_count c)"
    using r(4) n c(1) unat_next10 [of "cb_input c"] by (simp add: ring_count_def ctrl_ok_def)
  have old: "frame_list ?c ! ((unat (cb_output ?c) + i) mod 10) = frame_list c ! ((unat (cb_output c) + i) mod 10)"
    if "i < ring_count c" for i using r(3) [OF that] by simp
  have new: "frame_list ?c ! ((unat (cb_output ?c) + ring_count c) mod 10) = Some k"
    using c(2,4) by (simp add: r(1) [symmetric])
  have "stored ?c = stored c @ [k]"
    unfolding stored_def cnt using old new by (auto simp: upt_Suc_append simp del: upt_Suc vm_ctrl_buffer.simps)
  moreover have "frame_ring_ok ?c"
    unfolding frame_ring_ok_def cnt using queue_frame_ok [OF q k c(1)] old new f by (metis less_Suc_eq option.distinct(1))
  ultimately show thesis using that q by blast
qed

text \<open>A tenth frame makes the ring look empty.\<close>

lemma queue_frame_full:
  assumes "ctrl_ok c" "ring_count c = 9"
  obtains c1 where "queue_frame k c = Some c1" "stored c1 = []"
proof -
  have c: "unat (cb_input c) < 10" "unat (cb_output c) < 10" using ctrl_okD [OF assms(1)] by simp_all
  let ?c = "c\<lparr>frame_list := (frame_list c)[unat (cb_input c) := Some k], cb_input := (cb_input c + 1) mod 10\<rparr>"
  have "ring_count ?c = 0"
    using ring10(4) [OF c] assms unat_next10 [of "cb_input c"] by (simp add: ring_count_def ctrl_ok_def)
  then show thesis using that [OF queue_frame_eq [OF assms(1)]] by (simp add: stored_def)
qed

lemma next_frame_stored:
  assumes ok: "frame_ring_ok c" and st: "stored c = k # ks"
  obtains c1 where "next_frame c = Some (k, c1)" "frame_ring_ok c1" "stored c1 = ks" "cb_input c \<noteq> cb_output c"
proof -
  have c: "ctrl_ok c" "unat (cb_input c) < 10" "unat (cb_output c) < 10" "length (frame_list c) = 10"
    and f: "\<And>i. i < ring_count c \<Longrightarrow> frame_list c ! ((unat (cb_output c) + i) mod 10) \<noteq> None"
    using ok ctrl_okD by (auto simp: frame_ring_ok_def)
  have pos: "0 < ring_count c" using st by (cases "ring_count c") (simp_all add: stored_def)
  then have hd: "frame_list c ! unat (cb_output c) = Some k"
    using st f [of 0] c(3) by (auto simp: stored_def upt_conv_Cons)
  let ?c = "c\<lparr>cb_output := (cb_output c + 1) mod 10\<rparr>"
  have out: "unat (cb_output ?c) = (unat (cb_output c) + 1) mod 10" using c(1) unat_next10 by (simp add: ctrl_ok_def)
  have cnt: "ring_count ?c = ring_count c - 1"
    using ring10(5) [OF c(2,3)] pos out by (simp add: ring_count_def)
  have nf: "next_frame c = Some (k, ?c)" using hd c(3,4) by (simp add: next_frame_def arr_get_nat del: of_nat_unat)
  have sh: "(unat (cb_output ?c) + i) mod 10 = (unat (cb_output c) + Suc i) mod 10" for i
    unfolding out by (simp add: mod_add_left_eq)
  obtain n where n: "ring_count c = Suc n" using pos by (cases "ring_count c") simp_all
  have "stored ?c = ks"
    using st unfolding stored_def cnt sh n upt_map_Suc_shift by simp
  moreover have "frame_ring_ok ?c"
    unfolding frame_ring_ok_def cnt sh n using next_frame_ok [OF nf c(1)] f [of "Suc _", unfolded n] by simp
  moreover have "cb_input c \<noteq> cb_output c" using pos by (auto simp: ring_count_def)
  ultimately show thesis using that nf by blast
qed

interpretation vmring: bounded_buffer frame_ring_ok stored "\<lambda>_. 9" "\<lambda>k. k < 10" "\<lambda>c k. queue_frame k c" next_frame
proof unfold_locales
  show "\<exists>c1. queue_frame k c = Some c1 \<and> frame_ring_ok c1 \<and> stored c1 = stored c @ [k] \<and> (9 :: nat) = 9"
    if "frame_ring_ok c" "k < 10" "length (stored c) < 9" for c k
    using queue_frame_stored [OF that(1,2)] that(3) by (auto simp: stored_def)
  show "\<exists>c1. next_frame c = Some (k, c1) \<and> frame_ring_ok c1 \<and> stored c1 = ks \<and> (9 :: nat) = 9"
    if "frame_ring_ok c" "stored c = k # ks" for c k ks
    using next_frame_stored [OF that] by auto
qed

subsection \<open>Searches\<close>

lemma first_index_find:
  "(\<And>i. i \<in> set is \<Longrightarrow> P i = Some (p i)) \<Longrightarrow>
     first_index P is = Some (case find p is of None \<Rightarrow> - 1 | Some i \<Rightarrow> of_nat i)"
  by (induction "is") auto

definition free_buffer :: "eth_statics \<Rightarrow> nat option" where
  "free_buffer x = find (\<lambda>k. fb_used (b_buf x ! k) = 0) [0..<10]"

definition vm_with_mac :: "eth_statics \<Rightarrow> u8 list \<Rightarrow> nat option" where
  "vm_with_mac x dst = find (\<lambda>i. maccmp (cb_mac (VMCTRLbuf x ! i)) dst) [0..<unat (vm_counter x)]"

definition vm_registered :: "eth_statics \<Rightarrow> u32 \<Rightarrow> nat option" where
  "vm_registered x ident = find (\<lambda>i. cb_vm_id (VMCTRLbuf x ! i) = ident) [0..<unat (vm_counter x)]"

lemma eth_okD:
  assumes "eth_ok x"
  shows "length (b_buf x) = 10" "length (VMCTRLbuf x) = 2" "unat (vm_counter x) \<le> 2"
  using assms by (simp_all add: eth_ok_def word_le_nat_alt)

lemma searches:
  assumes "eth_ok (eth s)"
  shows "get_free_buffer s = Some (case free_buffer (eth s) of None \<Rightarrow> - 1 | Some k \<Rightarrow> of_nat k)"
    "get_vm_destination dst s = Some (case vm_with_mac (eth s) dst of None \<Rightarrow> - 1 | Some i \<Rightarrow> of_nat i)"
    "get_vm_buffer_pos ident s = Some (case vm_registered (eth s) ident of None \<Rightarrow> - 1 | Some i \<Rightarrow> of_nat i)"
  unfolding get_free_buffer_def free_buffer_def get_vm_destination_def vm_with_mac_def get_vm_buffer_pos_def vm_registered_def
  by (rule first_index_find, use eth_okD [OF assms] in \<open>simp add: arr_get_nat\<close>)+

lemma find_upt_less: "find p [0..<n] = Some i \<Longrightarrow> i < n \<and> p i"
  by (auto simp: find_Some_iff)

lemma free_bufferD: "free_buffer x = Some k \<Longrightarrow> k < 10 \<and> fb_used (b_buf x ! k) = 0"
  unfolding free_buffer_def by (rule find_upt_less)

lemma vm_with_macD: "eth_ok x \<Longrightarrow> vm_with_mac x dst = Some i \<Longrightarrow> i < 2"
  unfolding vm_with_mac_def using find_upt_less eth_okD(3) by (metis le_trans less_le_trans)

lemma unat_minus_1: "unat (- 1 :: u32) = 4294967295"
  by (simp add: unsigned_minus_1_eq_mask mask_eq_exp_minus_1)

subsection \<open>A frame for another VM\<close>

lemma queue_to_vm_ok:
  assumes ok: "eth_ok (eth s)" and i: "i < 2" and k: "k < 10"
    and ring: "frame_ring_ok (VMCTRLbuf (eth s) ! i)" "ring_count (VMCTRLbuf (eth s) ! i) < 9"
  obtains c1 where "queue_to_vm k i s = Some (set_eth (\<lambda>x. x\<lparr>VMCTRLbuf := (VMCTRLbuf x)[i := c1],
      b_buf := (b_buf x)[k := (b_buf x ! k)\<lparr>fb_used := fb_used (b_buf x ! k) + 1\<rparr>]\<rparr>) s)"
    "frame_ring_ok c1" "stored c1 = stored (VMCTRLbuf (eth s) ! i) @ [k]" "cb_vm_id c1 = cb_vm_id (VMCTRLbuf (eth s) ! i)"
proof -
  obtain c1 where c1: "queue_frame k (VMCTRLbuf (eth s) ! i) = Some c1" "frame_ring_ok c1"
    "stored c1 = stored (VMCTRLbuf (eth s) ! i) @ [k]"
    by (rule queue_frame_stored [OF ring(1) k ring(2)])
  have v: "cb_vm_id c1 = cb_vm_id (VMCTRLbuf (eth s) ! i)"
    using c1(1) by (auto simp: queue_frame_def bind_eq_Some_conv)
  from c1 have "queue_to_vm k i s = Some (set_eth (\<lambda>x. x\<lparr>VMCTRLbuf := (VMCTRLbuf x)[i := c1],
      b_buf := (b_buf x)[k := (b_buf x ! k)\<lparr>fb_used := fb_used (b_buf x ! k) + 1\<rparr>]\<rparr>) s)"
    using i k eth_okD [OF ok] by (simp add: queue_to_vm_def arr_get_nat set_eth_def)
  then show thesis using that c1 v by blast
qed

lemma en_ll_input_waiting:
  assumes "is_up (eth_port (eth s)) \<noteq> 0" "rx_ring s P" "packet_waiting s P segs" "rx_separate P dp segs"
    "maps_to s va dp 1536"
  shows "en_ll_input va s = Some (of_nat (seg_total segs), received_state s P dp segs)"
proof -
  have p: "rx_packet (mem s) P segs" "distinct (map fst segs)"
    "mem32 (mem s) (P + of_nat (16 * fst (hd segs) + 12)) AND 0xFFFF = of_nat (seg_total segs)" "seg_total segs < 65536"
    "receive_index (eth s) = of_nat (fst (hd segs))" and le: "seg_total segs \<le> 1536"
    and dm: "\<forall>(i, pa, n)\<in>set segs. dma_ram s pa n"
    using assms(3) by (simp_all add: packet_waiting_def)
  have "rx_places s P va dp segs"
    using maps_to_le [OF assms(5) le] assms(4) dm kseg1_maps unfolding rx_places_def rx_separate_def by fastforce
  from en_ll_input_packet [OF assms(1) p(1-4) rx_ring_at [OF assms(2)] p(5) this] show ?thesis .
qed

text \<open>The frame buffer \<open>k\<close> at the physical address \<open>pa\<close>, and the destination of the waiting packet.\<close>

definition frame_dst :: "hv \<Rightarrow> (nat \<times> u32 \<times> nat) list \<Rightarrow> u8 list" where
  "frame_dst s segs = take 6 (seg_bytes (mem s) segs)"

lemma received_dst:
  assumes "packet_waiting s P segs" "rx_separate P dp segs" "dma_ram s P 784" "12 \<le> seg_total segs"
    and "maps_to s va dp 1536"
  shows "ld_bytes va 6 (received_state s P dp segs) = Some (frame_dst s segs, received_state s P dp segs)"
proof -
  let ?r = "received_state s P dp segs" and ?k = "delivered_size (seg_total segs)"
  have k: "6 \<le> ?k" using assms(4) unfolding delivered_size_def by presburger
  have r: "?r = (s\<lparr>mem := mem ?r, io := io ?r, eth := eth ?r\<rparr>)" by (simp add: received_state_def)
  have "maps_to ?r va dp 6"
    using maps_to_le [OF assms(5), of 6] by (subst r) simp
  from ld_bytes_maps [OF this] have "ld_bytes va 6 ?r = Some (bytes_at (mem ?r) dp 6, ?r)" .
  moreover have "bytes_at (mem ?r) dp 6 = take 6 (bytes_at (mem ?r) dp ?k)"
    using k bytes_at_append [of "mem ?r" dp 6 "?k - 6"] by simp
  ultimately show ?thesis using k by (simp add: received_mem(1) [OF assms(1-3)] frame_dst_def)
qed

text \<open>What polling on behalf of VM \<open>j\<close> does with a packet that is not for it.\<close>

definition foreign_packet :: "hv \<Rightarrow> u32 \<Rightarrow> nat \<Rightarrow> nat \<Rightarrow> u32 \<Rightarrow> (nat \<times> u32 \<times> nat) list \<Rightarrow> bool" where
  "foreign_packet s P j k pa segs \<longleftrightarrow> eth_ok (eth s) \<and> j < 2 \<and> free_buffer (eth s) = Some k \<and>
     is_up (eth_port (eth s)) \<noteq> 0 \<and> rx_ring s P \<and> packet_waiting s P segs \<and> 12 \<le> seg_total segs \<and>
     rx_separate P pa segs \<and> frame_addr s (of_nat k) = 0x80000000 + pa \<and> dma_ram s pa 1536 \<and>
     \<not> maccmp (frame_dst s segs) (cb_mac (VMCTRLbuf (eth s) ! j)) \<and> \<not> is_broadcast (frame_dst s segs)"

lemma foreign_packet_buffer: "foreign_packet s P j k pa segs \<Longrightarrow> conf t = conf s \<Longrightarrow> maps_to t (frame_addr t (of_nat k)) pa 1536"
  by (rule kseg0_maps) (simp_all add: foreign_packet_def dma_ram_def frame_addr_def)

lemma foreign_packet_cong:
  "eth t = eth s \<Longrightarrow> mem t = mem s \<Longrightarrow> conf t = conf s \<Longrightarrow> foreign_packet t P j k pa segs = foreign_packet s P j k pa segs"
  by (simp add: foreign_packet_def rx_ring_def packet_waiting_def dma_ram_def frame_addr_def frame_dst_def)

lemma receive_loop_foreign:
  assumes f: "foreign_packet s P j k pa segs"
  defines "u \<equiv> received_state s P pa segs"
  shows "receive_loop_shared va j s =
    do { i \<leftarrow> get_vm_destination (frame_dst s segs) u; s3 \<leftarrow> queue_to_vm k (unat i) u;
         s4 \<leftarrow> set_frame_size k (of_nat (seg_total segs)) s3; receive_loop_shared va j (count_buffer s4) }"
proof -
  have ok: "eth_ok (eth s)" "j < 2" and free: "free_buffer (eth s) = Some k"
    and pk: "is_up (eth_port (eth s)) \<noteq> 0" "rx_ring s P" "packet_waiting s P segs" "12 \<le> seg_total segs"
      "rx_separate P pa segs"
    and dst: "\<not> maccmp (frame_dst s segs) (cb_mac (VMCTRLbuf (eth s) ! j))" "\<not> is_broadcast (frame_dst s segs)"
    using f by (simp_all add: foreign_packet_def)
  have fa: "maps_to s (frame_addr s (of_nat k)) pa 1536" by (rule foreign_packet_buffer [OF f refl])
  let ?F = "seg_total segs"
  have c: "arr_get (VMCTRLbuf (eth s)) (int j) = Some (VMCTRLbuf (eth s) ! j)"
    using ok eth_okD(2) by (simp add: arr_get_nat)
  have g: "get_free_buffer s = Some (of_nat k)" using searches(1) [OF ok(1)] free by simp
  have k: "k < 10" "unat (of_nat k :: u32) = k" using free_bufferD [OF free] by (simp_all add: unat_of_nat_u32)
  have F: "?F \<le> 1536" using pk(3) by (simp add: packet_waiting_def)
  then have nz: "(of_nat ?F :: u32) \<noteq> 0" using pk(4) unat_of_nat_u32 [of ?F] by (auto simp: word_unat_eq_iff)
  have ld: "ld_bytes (frame_addr s (of_nat k)) 6 u = Some (frame_dst s segs, u)"
    using received_dst [OF pk(3,5) _ pk(4) fa] pk(2) unfolding u_def rx_ring_def by blast
  have rx: "en_ll_input (frame_addr s (of_nat k)) s = Some (of_nat ?F, u)"
    unfolding u_def by (rule en_ll_input_waiting [OF pk(1-3,5) fa])
  show ?thesis
    by (subst receive_loop_shared.simps) (simp add: c g rx nz k ld dst)
qed

lemma received_eth:
  "VMCTRLbuf (eth (received_state s P pa segs)) = VMCTRLbuf (eth s)" "b_buf (eth (received_state s P pa segs)) = b_buf (eth s)"
  "vm_counter (eth (received_state s P pa segs)) = vm_counter (eth s)" "conf (received_state s P pa segs) = conf s"
  by (simp_all add: received_state_def)

lemma received_vm_with_mac [simp]: "vm_with_mac (eth (received_state s P pa segs)) dst = vm_with_mac (eth s) dst"
  by (simp add: vm_with_mac_def received_eth)

lemma received_eth_ok: "eth_ok (eth s) \<Longrightarrow> eth_ok (eth (received_state s P pa segs))"
  by (simp add: received_state_def eth_ok_def word_less_nat_alt unat_of_nat_u32)

text \<open>The frame is kept in a free buffer and queued for the VM it is addressed to.\<close>

definition switched :: "hv \<Rightarrow> nat \<Rightarrow> nat \<Rightarrow> vm_ctrl_buffer \<Rightarrow> u32 \<Rightarrow> hv" where
  "switched s k i c sz = set_eth (\<lambda>x. x\<lparr>VMCTRLbuf := (VMCTRLbuf x)[i := c],
     b_buf := (b_buf x)[k := (b_buf x ! k)\<lparr>fb_used := fb_used (b_buf x ! k) + 1, fb_size := sz\<rparr>],
     number_used_buffers := number_used_buffers x + 1\<rparr>) s"

lemma receive_loop_forwards:
  assumes f: "foreign_packet s P j k pa segs" and i: "vm_with_mac (eth s) (frame_dst s segs) = Some i"
    and ring: "frame_ring_ok (VMCTRLbuf (eth s) ! i)" "ring_count (VMCTRLbuf (eth s) ! i) < 9"
  obtains c where "receive_loop_shared va j s =
      receive_loop_shared va j (switched (received_state s P pa segs) k i c (of_nat (seg_total segs)))"
    "frame_ring_ok c" "stored c = stored (VMCTRLbuf (eth s) ! i) @ [k]" "i < 2" "cb_vm_id c = cb_vm_id (VMCTRLbuf (eth s) ! i)"
proof -
  let ?u = "received_state s P pa segs"
  have ok: "eth_ok (eth s)" "free_buffer (eth s) = Some k" using f by (simp_all add: foreign_packet_def)
  have i2: "i < 2" "unat (of_nat i :: u32) = i" using vm_with_macD [OF ok(1) i] by (simp_all add: unat_of_nat_u32)
  have k: "k < 10" using free_bufferD [OF ok(2)] by simp
  note uok = received_eth_ok [OF ok(1), of P pa segs]
  obtain c where c: "queue_to_vm k i ?u = Some (set_eth (\<lambda>x. x\<lparr>VMCTRLbuf := (VMCTRLbuf x)[i := c],
      b_buf := (b_buf x)[k := (b_buf x ! k)\<lparr>fb_used := fb_used (b_buf x ! k) + 1\<rparr>]\<rparr>) ?u)"
    "frame_ring_ok c" "stored c = stored (VMCTRLbuf (eth s) ! i) @ [k]" "cb_vm_id c = cb_vm_id (VMCTRLbuf (eth s) ! i)"
    by (rule queue_to_vm_ok [OF uok i2(1) k]) (use ring in \<open>simp_all add: received_eth\<close>)
  have "receive_loop_shared va j s = receive_loop_shared va j (switched ?u k i c (of_nat (seg_total segs)))"
    using i2 k eth_okD(1) [OF uok]
    by (simp add: receive_loop_foreign [OF f] searches(2) [OF uok] i c(1) set_frame_size_def set_eth_def switched_def arr_get_nat)
  then show thesis using that c i2(1) by blast
qed

text \<open>A frame for no VM of the device indexes behind the array, and so does a frame when all buffers are in use.\<close>

lemma receive_loop_unknown:
  assumes f: "foreign_packet s P j k pa segs" and i: "vm_with_mac (eth s) (frame_dst s segs) = None"
  shows "receive_loop_shared va j s = None"
proof -
  have ok: "eth_ok (eth (received_state s P pa segs))"
    by (rule received_eth_ok) (use f in \<open>simp add: foreign_packet_def\<close>)
  have "queue_to_vm k (unat (- 1 :: u32)) (received_state s P pa segs) = None"
    using eth_okD(2) [OF ok] by (simp add: queue_to_vm_def arr_get_def unat_minus_1)
  then show ?thesis by (simp add: receive_loop_foreign [OF f] searches(2) [OF ok] i)
qed

lemma receive_loop_no_buffer:
  assumes "eth_ok (eth s)" "free_buffer (eth s) = None" "en_ll_input (frame_addr s (- 1)) s = Some (sz, t)" "sz \<noteq> 0"
  shows "receive_loop_shared va j s = None"
proof -
  have "\<not> unat (- 1 :: u32) < 10" by (simp add: unat_minus_1)
  then show ?thesis
    using assms searches(1) [OF assms(1)]
    by (subst receive_loop_shared.simps) (cases "arr_get (VMCTRLbuf (eth s)) (int j)"; simp)
qed

lemma MoveTo_eth [simp]: "eth (MoveToPreviousGuestGPR r v s) = eth s"
  by (auto simp: MoveToPreviousGuestGPR_def Let_def split: port.split)

text \<open>The VM takes the oldest frame that was kept for it.\<close>

lemma take_stored_ok:
  assumes ok: "eth_ok (eth s)" and j: "j < 2" and ring: "frame_ring_ok (VMCTRLbuf (eth s) ! j)"
    "stored (VMCTRLbuf (eth s) ! j) = k # ks" and k: "fb_size (b_buf (eth s) ! k) \<le> 1536"
    and places: "maps_to s (frame_addr s (of_nat k)) pa 1536" "maps_to s va dp 1536" "apart dp 1536 pa 1536"
  obtains t c where "take_stored va j s = Some t" "MoveFromPreviousGuestGPR REG_V0 t = fb_size (b_buf (eth s) ! k)"
    "mem t = put_bytes (mem s) dp (bytes_at (mem s) pa (unat (fb_size (b_buf (eth s) ! k))))"
    "VMCTRLbuf (eth t) = (VMCTRLbuf (eth s))[j := c]" "frame_ring_ok c" "stored c = ks"
    "b_buf (eth t) = (b_buf (eth s))[k := (b_buf (eth s) ! k)\<lparr>fb_used := fb_used (b_buf (eth s) ! k) - 1\<rparr>]"
proof -
  let ?n = "fb_size (b_buf (eth s) ! k)"
  obtain c where c: "next_frame (VMCTRLbuf (eth s) ! j) = Some (k, c)" "frame_ring_ok c" "stored c = ks"
    by (rule next_frame_stored [OF ring])
  let ?c = "VMCTRLbuf (eth s) ! j"
  have fl: "ctrl_ok ?c" using ring(1) by (simp add: frame_ring_ok_def)
  have "frame_list ?c ! unat (cb_output ?c) = Some k"
    using c(1) ctrl_okD [OF fl] by (simp add: next_frame_def arr_get_nat del: of_nat_unat split: bind_split_asm)
  then have "Some k \<in> set (frame_list ?c)" using ctrl_okD [OF fl] by (metis nth_mem)
  then have k10: "k < 10" using fl by (simp add: ctrl_ok_def)
  have n: "unat ?n \<le> 1536" "?n < 0x80000000" using k by (simp_all add: word_le_nat_alt word_less_nat_alt)
  have m: "memcpy_hv va (frame_addr s (of_nat k)) ?n s =
      Some (s\<lparr>mem := put_bytes (mem s) dp (bytes_at (mem s) pa (unat ?n))\<rparr>)"
    by (rule memcpy_hv_maps [OF maps_to_le [OF places(2)] maps_to_le [OF places(1)] apart_le [OF places(3)]]) (use n in auto)
  obtain t where t: "take_stored va j s = Some t" "t = MoveToPreviousGuestGPR REG_V0 ?n
      (set_eth (\<lambda>x. x\<lparr>b_buf := (b_buf x)[k := (b_buf (eth s) ! k)\<lparr>fb_used := fb_used (b_buf (eth s) ! k) - 1\<rparr>],
        VMCTRLbuf := (VMCTRLbuf x)[j := c], number_used_buffers := (if fb_used (b_buf (eth s) ! k) - 1 = 0
          then number_used_buffers x - 1 else number_used_buffers x)\<rparr>) (s\<lparr>mem := put_bytes (mem s) dp (bytes_at (mem s) pa (unat ?n))\<rparr>))"
    using j k10 eth_okD [OF ok] c(1) m by (simp add: take_stored_def arr_get_nat Let_def)
  show thesis
    by (rule that [OF t(1) _ _ _ c(2,3)]) (simp_all add: t(2) MoveFrom_MoveTo hv_simps set_eth_def)
qed

text \<open>No packet is waiting: the descriptor at the receive index belongs to the controller.\<close>

definition ring_drained :: "hv \<Rightarrow> u32 \<Rightarrow> bool" where
  "ring_drained s P \<longleftrightarrow> (\<exists>i<48. receive_index (eth s) = of_nat i \<and> desc_hdr (mem s) P i AND 0x80 \<noteq> 0)"

lemma en_ll_input_drained:
  assumes "is_up (eth_port (eth s)) \<noteq> 0" "rx_ring s P" "ring_drained s P"
  shows "en_ll_input va s = Some (0, set_eth (\<lambda>x. x\<lparr>read_index := receive_index x, desc_offset := 0, read_nbytes := 0\<rparr>) s)"
proof -
  obtain i where i: "i < 48" "receive_index (eth s) = of_nat i" "desc_hdr (mem s) P i AND 0x80 \<noteq> 0"
    using assms(3) by (auto simp: ring_drained_def)
  let ?s1 = "set_eth (\<lambda>x. x\<lparr>read_index := receive_index x, desc_offset := 0, read_nbytes := 0\<rparr>) s"
  have "descs_at ?s1 P" using rx_ring_at [OF assms(2)] by (simp add: descs_at_def set_eth_def)
  from desc_access(1) [OF this, of i] i assms(1) show ?thesis
    by (simp add: en_ll_input_def Let_def DESC_EOWN_def rx_desc_at_of_nat set_eth_def del: of_nat_mult of_nat_add)
qed

lemma receive_loop_drained:
  assumes "eth_ok (eth s)" "j < 2" "is_up (eth_port (eth s)) \<noteq> 0" "rx_ring s P" "ring_drained s P"
  shows "receive_loop_shared va j s = Some (MoveToPreviousGuestGPR REG_V0 0
    (set_eth (\<lambda>x. x\<lparr>read_index := receive_index x, desc_offset := 0, read_nbytes := 0\<rparr>) s))"
proof -
  have c: "arr_get (VMCTRLbuf (eth s)) (int j) = Some (VMCTRLbuf (eth s) ! j)"
    using assms(1,2) eth_okD(2) by (simp add: arr_get_nat)
  obtain f where f: "get_free_buffer s = Some f" using searches(1) [OF assms(1)] by blast
  show ?thesis
    by (subst receive_loop_shared.simps) (simp add: c f en_ll_input_drained [OF assms(3-5)])
qed

text \<open>The packet is the last one in the ring: the descriptor behind it is the controller's.\<close>

definition last_packet :: "hv \<Rightarrow> u32 \<Rightarrow> (nat \<times> u32 \<times> nat) list \<Rightarrow> bool" where
  "last_packet s P segs \<longleftrightarrow> desc_hdr (mem s) P ((fst (last segs) + 1) mod 48) AND 0x80 \<noteq> 0"

lemma stored_empty: "ctrl_ok c \<Longrightarrow> stored c = [] \<longleftrightarrow> cb_input c = cb_output c"
proof -
  assume "ctrl_ok c"
  then have c: "unat (cb_input c) < 10" "unat (cb_output c) < 10" using ctrl_okD by simp_all
  have "ring_count c = 0 \<longleftrightarrow> unat (cb_input c) = unat (cb_output c)"
    using c by (auto simp: ring_count_def mod10)
  then show ?thesis by (auto simp: stored_def word_unat_eq_iff)
qed

text \<open>From the controller's memory to the guest: VM \<open>j\<close> polls, VM \<open>i\<close> takes the frame.\<close>

lemma bytes_at_put: "k \<le> length bs \<Longrightarrow> length bs < 2 ^ 32 \<Longrightarrow> bytes_at (put_bytes m dp bs) dp k = take k bs"
  by (rule nth_equalityI) (simp_all add: bytes_at_def put_bytes_in)

lemma bytes_at_take: "k \<le> n \<Longrightarrow> bytes_at m pa k = take k (bytes_at m pa n)"
  using bytes_at_append [of m pa k "n - k"] by simp

text \<open>VM \<open>j\<close> polls: the packet is kept for VM \<open>i\<close>, and \<open>j\<close> gets nothing.\<close>

lemma switch_keeps:
  assumes f: "foreign_packet s P j k pa segs" and i: "vm_with_mac (eth s) (frame_dst s segs) = Some i"
    and ring: "frame_ring_ok (VMCTRLbuf (eth s) ! i)" "stored (VMCTRLbuf (eth s) ! i) = []" and last: "last_packet s P segs"
  obtains t where "receive_loop_shared va j s = Some t" "MoveFromPreviousGuestGPR REG_V0 t = 0"
    "eth_ok (eth t)" "i < 2" "frame_ring_ok (VMCTRLbuf (eth t) ! i)" "stored (VMCTRLbuf (eth t) ! i) = [k]"
    "fb_size (b_buf (eth t) ! k) = of_nat (seg_total segs)" "conf t = conf s" "\<And>d. vm_registered (eth t) d = vm_registered (eth s) d"
    "bytes_at (mem t) pa (delivered_size (seg_total segs)) = take (delivered_size (seg_total segs)) (seg_bytes (mem s) segs)"
proof -
  let ?u = "received_state s P pa segs" and ?F = "seg_total segs" and ?d = "delivered_size (seg_total segs)"
  have cnt: "ring_count (VMCTRLbuf (eth s) ! i) < 9" using ring(2) by (simp add: stored_def)
  obtain c where c: "receive_loop_shared va j s = receive_loop_shared va j (switched ?u k i c (of_nat ?F))"
    "frame_ring_ok c" "stored c = stored (VMCTRLbuf (eth s) ! i) @ [k]" "i < 2" "cb_vm_id c = cb_vm_id (VMCTRLbuf (eth s) ! i)"
    by (rule receive_loop_forwards [OF f i ring(1) cnt])
  let ?s1 = "switched ?u k i c (of_nat ?F)"
  have ok: "eth_ok (eth s)" "j < 2" and k: "k < 10" and up: "is_up (eth_port (eth s)) \<noteq> 0"
    and pk: "packet_waiting s P segs" "rx_separate P pa segs" "rx_ring s P"
    using f free_bufferD [of "eth s" k] by (simp_all add: foreign_packet_def)
  note len = eth_okD [OF ok(1)]
  have ok1: "eth_ok (eth ?s1)"
    using received_eth_ok [OF ok(1)] c(2,4) unfolding switched_def
    by (auto simp: set_eth_def eth_ok_def frame_ring_ok_def dest!: subsetD [OF set_update_subset_insert])
  have e1: "VMCTRLbuf (eth ?s1) ! i = c" "fb_size (b_buf (eth ?s1) ! k) = of_nat ?F" "mem ?s1 = mem ?u" "conf ?s1 = conf s"
    "eth_port (eth ?s1) = eth_port (eth s)" "receive_index (eth ?s1) = of_nat ((fst (last segs) + 1) mod 48)"
    "vm_counter (eth ?s1) = vm_counter (eth s)"
    using c(4) k len by (simp_all add: switched_def set_eth_def received_state_def)
  have dr: "dma_ram s P 784" using pk(3) by (simp add: rx_ring_def)
  have up1: "is_up (eth_port (eth ?s1)) \<noteq> 0" "rx_ring ?s1 P" using up pk(3) e1 by (simp_all add: rx_ring_def dma_ram_def)
  have dr1: "ring_drained ?s1 P"
    unfolding ring_drained_def e1(3,6)
    by (rule exI [of _ "(fst (last segs) + 1) mod 48"]) (use last received_mem(2) [OF pk(1,2) dr] in \<open>simp add: last_packet_def\<close>)
  define t where "t = MoveToPreviousGuestGPR REG_V0 0
    (set_eth (\<lambda>x. x\<lparr>read_index := receive_index x, desc_offset := 0, read_nbytes := 0\<rparr>) ?s1)"
  have run: "receive_loop_shared va j s = Some t"
    unfolding c(1) t_def by (rule receive_loop_drained [OF ok1 ok(2) up1 dr1])
  have et: "eth t = (eth ?s1)\<lparr>read_index := receive_index (eth ?s1), desc_offset := 0, read_nbytes := 0\<rparr>"
    "mem t = mem ?s1" "conf t = conf ?s1"
    by (simp_all add: t_def hv_simps) (simp_all add: set_eth_def)
  have "cb_vm_id (VMCTRLbuf (eth t) ! x) = cb_vm_id (VMCTRLbuf (eth s) ! x)" for x
    using c(4,5) len(2) by (cases "x = i") (simp_all add: et switched_def set_eth_def received_state_def)
  then have reg: "vm_registered (eth t) d = vm_registered (eth s) d" for d
    using e1(7) by (simp add: vm_registered_def et)
  show thesis
  proof (rule that [OF run])
    show "bytes_at (mem t) pa ?d = take ?d (seg_bytes (mem s) segs)"
      unfolding et e1 by (rule received_mem(1) [OF pk(1,2) dr])
  qed (use ok1 c e1 et ring(2) reg in \<open>simp_all add: t_def MoveFrom_MoveTo eth_ok_def\<close>)
qed

text \<open>The two hypercalls, with the window on the buffer of the caller and the search for its control block.\<close>

lemma receive_shared_polls:
  assumes win: "window_ready s m" "guest_buffer s m (MoveFromPreviousGuestGPR REG_A0 s) MTU"
    and own: "eth_ok (eth s)" "vm_registered (eth s) (vm_ident m) = Some j"
  obtains va s1 where "eth s1 = eth s" "mem s1 = mem s" "conf s1 = conf s"
    "maps_to s1 va (guest_phys (base_addr m) (MoveFromPreviousGuestGPR REG_A0 s)) 1536" "j < 2"
    "receive_frame_shared s = (if stored (VMCTRLbuf (eth s) ! j) = [] then receive_loop_shared va j s1 else take_stored va j s1)"
proof -
  let ?a0 = "MoveFromPreviousGuestGPR REG_A0 s"
  obtain va s1 where w: "tlbCreateEntry ?a0 (base_addr m) MTU 0xF True s = Some (va, s1)"
    "maps_to s1 va (guest_phys (base_addr m) ?a0) (unat MTU)" and q: "quiet s s1" "mem s1 = mem s"
    by (rule guest_window [OF window_readyD [OF win(1)] win(2), of True], rule that)
  have e: "eth s1 = eth s" "conf s1 = conf s" using q by (simp_all add: quiet_def fixed_def kept_def)
  have j: "j < 2" using own eth_okD(3) find_upt_less unfolding vm_registered_def by (metis le_trans less_le_trans)
  have pos: "get_vm_buffer_pos (vm_ident m) s1 = Some (of_nat j)" "unat (of_nat j :: u32) = j" "uint (of_nat j :: u32) = int j"
    using searches(3) [of s1] own j by (simp_all add: e unat_of_nat_u32 uint_nat del: of_nat_unat)
  have c: "arr_get (VMCTRLbuf (eth s1)) (int j) = Some (VMCTRLbuf (eth s) ! j)" "ctrl_ok (VMCTRLbuf (eth s) ! j)"
    using j eth_okD(2) [OF own(1)] own(1) by (auto simp: arr_get_nat e eth_ok_def)
  have "receive_frame_shared s = (if cb_input (VMCTRLbuf (eth s) ! j) \<noteq> cb_output (VMCTRLbuf (eth s) ! j)
      then take_stored va j s1 else receive_loop_shared va j s1)"
    using win(1) w(1) pos c(1) by (simp add: receive_frame_shared_def window_ready_def)
  then show thesis using that [OF e(1) q(2) e(2), of va] w(2) j by (simp add: stored_empty [OF c(2)])
qed

lemma switch_end_to_end:
  assumes win: "window_ready s mj" "guest_buffer s mj (MoveFromPreviousGuestGPR REG_A0 s) MTU"
    and own: "vm_registered (eth s) (vm_ident mj) = Some j" "stored (VMCTRLbuf (eth s) ! j) = []"
    and f: "foreign_packet s P j k pa segs" and i: "vm_with_mac (eth s) (frame_dst s segs) = Some i"
    and ring: "frame_ring_ok (VMCTRLbuf (eth s) ! i)" "stored (VMCTRLbuf (eth s) ! i) = []" and last: "last_packet s P segs"
  obtains t where "receive_frame_shared s = Some t" "MoveFromPreviousGuestGPR REG_V0 t = 0" "stored (VMCTRLbuf (eth t) ! i) = [k]"
    "\<And>u (mi :: vm_t). bytes_at (mem u) pa 1536 = bytes_at (mem t) pa 1536 \<Longrightarrow> eth u = eth t \<Longrightarrow> conf u = conf s \<Longrightarrow> window_ready u mi \<Longrightarrow>
       guest_buffer u mi (MoveFromPreviousGuestGPR REG_A0 u) MTU \<Longrightarrow> vm_registered (eth s) (vm_ident mi) = Some i \<Longrightarrow>
       apart (guest_phys (base_addr mi) (MoveFromPreviousGuestGPR REG_A0 u)) 1536 pa 1536 \<Longrightarrow>
       \<exists>w. receive_frame_shared u = Some w \<and> MoveFromPreviousGuestGPR REG_V0 w = of_nat (seg_total segs) \<and>
         bytes_at (mem w) (guest_phys (base_addr mi) (MoveFromPreviousGuestGPR REG_A0 u)) (delivered_size (seg_total segs)) =
           take (delivered_size (seg_total segs)) (seg_bytes (mem s) segs) \<and>
         stored (VMCTRLbuf (eth w) ! i) = []"
proof -
  let ?F = "seg_total segs" and ?d = "delivered_size (seg_total segs)"
  have ok: "eth_ok (eth s)" and pk: "packet_waiting s P segs" using f by (simp_all add: foreign_packet_def)
  obtain va s1 where s1: "eth s1 = eth s" "mem s1 = mem s" "conf s1 = conf s"
    "receive_frame_shared s = receive_loop_shared va j s1"
    by (rule receive_shared_polls [OF win ok own(1)]) (use own(2) in simp)
  have f1: "foreign_packet s1 P j k pa segs" using f foreign_packet_cong [OF s1(1-3)] by simp
  obtain t where t: "receive_loop_shared va j s1 = Some t" "MoveFromPreviousGuestGPR REG_V0 t = 0"
    "eth_ok (eth t)" "i < 2" "frame_ring_ok (VMCTRLbuf (eth t) ! i)" "stored (VMCTRLbuf (eth t) ! i) = [k]"
    "fb_size (b_buf (eth t) ! k) = of_nat ?F" "conf t = conf s"
    "\<And>d. vm_registered (eth t) d = vm_registered (eth s) d"
    "bytes_at (mem t) pa ?d = take ?d (seg_bytes (mem s) segs)"
    by (rule switch_keeps [OF f1, where va = va]) (use i ring last s1 in \<open>simp_all add: frame_dst_def last_packet_def\<close>)
  have F: "?F \<le> 1536" "?d \<le> ?F" using pk by (simp_all add: packet_waiting_def delivered_size_def)
  have uF: "unat (of_nat ?F :: u32) = ?F" using F by (intro unat_of_nat_u32) simp
  show thesis
  proof (rule that [OF _ t(2,6)])
    show "receive_frame_shared s = Some t" using s1(4) t(1) by simp
    fix u :: hv and mi :: vm_t
    let ?dp = "guest_phys (base_addr mi) (MoveFromPreviousGuestGPR REG_A0 u)"
    assume u: "bytes_at (mem u) pa 1536 = bytes_at (mem t) pa 1536" "eth u = eth t" "conf u = conf s"
      and w: "window_ready u mi" "guest_buffer u mi (MoveFromPreviousGuestGPR REG_A0 u) MTU"
      and reg: "vm_registered (eth s) (vm_ident mi) = Some i" and ap: "apart ?dp 1536 pa 1536"
    have oku: "eth_ok (eth u)" using t(3) u(2) by simp
    have reg': "vm_registered (eth u) (vm_ident mi) = Some i" using reg t(9) u(2) by simp
    obtain va' u1 where u1: "eth u1 = eth u" "mem u1 = mem u" "conf u1 = conf u" "maps_to u1 va' ?dp 1536"
      "receive_frame_shared u = take_stored va' i u1"
      by (rule receive_shared_polls [OF w oku reg']) (use t(6) u(2) in simp)
    have fa: "maps_to u1 (frame_addr u1 (of_nat k)) pa 1536"
      by (rule foreign_packet_buffer [OF f]) (use u1 u t in simp)
    have sz: "fb_size (b_buf (eth u1) ! k) \<le> 1536" unfolding u1(1) u(2) t(7) word_le_nat_alt using F uF by simp
    obtain v c where v: "take_stored va' i u1 = Some v" "MoveFromPreviousGuestGPR REG_V0 v = of_nat ?F"
      "mem v = put_bytes (mem u) ?dp (bytes_at (mem u) pa ?F)" "VMCTRLbuf (eth v) = (VMCTRLbuf (eth u))[i := c]" "stored c = []"
      by (rule take_stored_ok [OF _ t(4) _ _ sz fa u1(4) ap, where ks = "[]"]) (use t u u1 oku uF in auto)
    have "bytes_at (mem v) ?dp ?d = take ?d (bytes_at (mem u) pa ?F)"
      unfolding v(3) by (rule bytes_at_put) (use F in auto)
    also have "\<dots> = bytes_at (mem u) pa ?d" by (rule bytes_at_take [symmetric, OF F(2)])
    also have "\<dots> = bytes_at (mem t) pa ?d"
      using F u(1) bytes_at_take [of ?d 1536 "mem u" pa] bytes_at_take [of ?d 1536 "mem t" pa] by simp
    finally have b: "bytes_at (mem v) ?dp ?d = take ?d (seg_bytes (mem s) segs)" using t(10) by simp
    have "stored (VMCTRLbuf (eth v) ! i) = []" using v(4,5) t(4) eth_okD(2) [OF oku] by simp
    then show "\<exists>w. receive_frame_shared u = Some w \<and> MoveFromPreviousGuestGPR REG_V0 w = of_nat ?F \<and>
         bytes_at (mem w) ?dp ?d = take ?d (seg_bytes (mem s) segs) \<and> stored (VMCTRLbuf (eth w) ! i) = []"
      using u1(5) v(1,2) b by auto
  qed
qed

lemma switch_unknown:
  assumes win: "window_ready s mj" "guest_buffer s mj (MoveFromPreviousGuestGPR REG_A0 s) MTU"
    and own: "vm_registered (eth s) (vm_ident mj) = Some j" "stored (VMCTRLbuf (eth s) ! j) = []"
    and f: "foreign_packet s P j k pa segs" and i: "vm_with_mac (eth s) (frame_dst s segs) = None"
  shows "receive_frame_shared s = None"
proof -
  have ok: "eth_ok (eth s)" using f by (simp add: foreign_packet_def)
  obtain va s1 where s1: "eth s1 = eth s" "mem s1 = mem s" "conf s1 = conf s"
    "receive_frame_shared s = receive_loop_shared va j s1"
    by (rule receive_shared_polls [OF win ok own(1)]) (use own(2) in simp)
  have "foreign_packet s1 P j k pa segs" using f foreign_packet_cong [OF s1(1-3)] by simp
  then show ?thesis using receive_loop_unknown i s1 by (simp add: frame_dst_def)
qed

end
