(* ===== verification/Kernel.thy ===== *)
theory Kernel
  imports InterVM VirtualIO IntRedirect FlashPerf Uart InstrEmul Timer EthSwitch
begin

text \<open>
  The kernel put together: the functions behind the three tables of pointers, the guest exit and
  general exception handlers (\<open>sys/kernel/exception.c\<close>), the driver initialisers
  (\<open>sys/kernel/driver.c\<close>) and the boot sequence (\<open>hyper_init\<close> of \<open>hal.c\<close>). External drivers
  enter as the functions \<open>xcall\<close>, \<open>xirq\<close> and \<open>xinit\<close>, and \<open>board\<close> is
  \<open>early_platform_init\<close>; Boards gives those of the repository.
\<close>

subsection \<open>Dispatch\<close>

definition run_hypercall :: "(nat \<Rightarrow> hv \<Rightarrow> hv option) \<Rightarrow> hypercall_t \<Rightarrow> hv \<Rightarrow> hv option" where
  "run_hypercall xcall h s =
     (case h of
        H_get_vm_id \<Rightarrow> get_vm_id s
      | H_intervm_send_msg \<Rightarrow> intervm_send_msg s
      | H_intervm_recv_msg \<Rightarrow> intervm_recv_msg s
      | H_guest_is_up \<Rightarrow> guest_is_up s
      | H_write_address \<Rightarrow> write_address s
      | H_read_address \<Rightarrow> read_address s
      | H_reenable_interrupt \<Rightarrow> reenable_interrupt s
      | H_flash_read \<Rightarrow> flash_read s
      | H_flash_write \<Rightarrow> flash_write s
      | H_performance_counter_start \<Rightarrow> Some (performance_counter_start s)
      | H_performance_counter_stop \<Rightarrow> performance_counter_stop s
      | H_uart_send \<Rightarrow> (case c_port (conf s) of PIC32MZ \<Rightarrow> uart_send s | BAIKAL_T1 \<Rightarrow> uart_send_baikal s)
      | H_usb_polling \<Rightarrow> usb_polling s
      | H_get_descriptor \<Rightarrow> get_descriptor s
      | H_usb_send_data \<Rightarrow> usb_send_data s
      | H_en_watchdog \<Rightarrow> en_watchdog s
      | H_en_get_mac \<Rightarrow> en_get_mac s
      | H_send_frame \<Rightarrow> send_frame s
      | H_receive_frame \<Rightarrow> receive_frame s
      | H_en_get_mac_shared \<Rightarrow> en_get_mac_shared s
      | H_receive_frame_shared \<Rightarrow> receive_frame_shared s
      | H_ext n \<Rightarrow> xcall n s)"

subsection \<open>Exceptions\<close>

definition guest_exit_exception :: "(nat \<Rightarrow> hv \<Rightarrow> hv option) \<Rightarrow> hv \<Rightarrow> hv option" where
  "guest_exit_exception xcall s =
     do { let guestcause = getGCauseCode s;
          let epc = getEPC s;
          s1 \<leftarrow> (if guestcause = 0 then Some (snd (instruction_emulation epc s))
                else if guestcause = 2 then hypercall_execution (run_hypercall xcall) s
                else Some s);
          p \<leftarrow> vcpu_executing s1;
          s2 \<leftarrow> upd_vcpu p (\<lambda>v. v\<lparr>pc := epc + 4\<rparr>) s1;
          v \<leftarrow> vcpus s2 p;
          let s3 = setEPC (pc v) s2;
          if state v = VCPU_BLOCKED then run_scheduler s3 else Some s3 }"

definition general_exception_handler :: "(nat \<Rightarrow> hv \<Rightarrow> hv option) \<Rightarrow> hv \<Rightarrow> hv option" where
  "general_exception_handler xcall s =
     (if getCauseCode s = 0x1B then guest_exit_exception xcall s else None)"

definition run_handler ::
  "(nat \<Rightarrow> hv \<Rightarrow> hv option) \<Rightarrow> (nat \<Rightarrow> hv \<Rightarrow> hv option) \<Rightarrow> handler_vector_t \<Rightarrow> hv \<Rightarrow> hv option" where
  "run_handler xcall xirq h s =
     (case h of
        I_timer_interrupt_handler \<Rightarrow>
          (case c_port (conf s) of
             PIC32MZ \<Rightarrow> timer_interrupt_handler s | BAIKAL_T1 \<Rightarrow> timer_interrupt_handler_baikal s)
      | I_interrupt_injection \<Rightarrow> interrupt_injection s
      | I_transfer_tx_done \<Rightarrow> transfer_tx_done s
      | I_general_exception_handler \<Rightarrow> general_exception_handler xcall s
      | I_usb_int_handler \<Rightarrow> Some (usb_int_handler s)
      | I_ethernet_interrupt_handler \<Rightarrow> ethernet_interrupt_handler s
      | I_ext n \<Rightarrow> xirq n s)"

subsection \<open>Boot\<close>

definition run_initcall :: "(nat \<Rightarrow> hv \<Rightarrow> hv option) \<Rightarrow> initcall_t \<Rightarrow> hv \<Rightarrow> hv option" where
  "run_initcall xinit d s =
     (case d of
        D_interrupt_init \<Rightarrow>
          Some (case c_port (conf s) of PIC32MZ \<Rightarrow> interrupt_init_pic32mz s | BAIKAL_T1 \<Rightarrow> interrupt_init_baikal s)
      | D_uart_driver_init \<Rightarrow>
          Some (case c_port (conf s) of PIC32MZ \<Rightarrow> uart_driver_init s | BAIKAL_T1 \<Rightarrow> uart_driver_init_baikal s)
      | D_intervm_init \<Rightarrow> Some (intervm_init s)
      | D_virtual_io_init \<Rightarrow> virtual_io_init s
      | D_interrupt_redirect_init \<Rightarrow> interrupt_redirect_init s
      | D_flash_puf_init \<Rightarrow> Some (flash_puf_init s)
      | D_performance_init \<Rightarrow> Some (performance_init s)
      | D_usb_start \<Rightarrow> usb_start s
      | D_en_init \<Rightarrow> en_init s
      | D_en_init_shared \<Rightarrow> en_init_shared s
      | D_ext n \<Rightarrow> xinit n s)"

fun drivers_initialization :: "(nat \<Rightarrow> hv \<Rightarrow> hv option) \<Rightarrow> initcall_t list \<Rightarrow> hv \<Rightarrow> hv option" where
  "drivers_initialization xinit [] s = Some s"
| "drivers_initialization xinit (d # ds) s =
     do { s1 \<leftarrow> run_initcall xinit d s; drivers_initialization xinit ds s1 }"

definition hyper_init :: "(hv \<Rightarrow> hv option) \<Rightarrow> (nat \<Rightarrow> hv \<Rightarrow> hv option) \<Rightarrow> hv \<Rightarrow> hv option" where
  "hyper_init board xinit s =
     do { s1 \<leftarrow> board s;
          let (r, s2) = LowLevelProcInit s1;
          ensure (r = 0);
          h \<leftarrow> init_mem (heap_start (conf s2)) (heap_size (conf s2)) (heap s2);
          s3 \<leftarrow> initializeMachines (s2\<lparr>heap := h\<rparr>);
          s4 \<leftarrow> drivers_initialization xinit (drivers_table (conf s3)) s3;
          Some (case c_port (conf s4) of PIC32MZ \<Rightarrow> start_timer s4 | BAIKAL_T1 \<Rightarrow> start_timer_baikal s4) }"

end
