(* ===== verification/System.thy ===== *)
theory System
  imports Kernel
begin

text \<open>
  The hypervisor as a transition system: exceptions and interrupts are handled by the kernel,
  between them a guest runs. Every handler of every driver keeps the kernel relation, so what
  the boot establishes holds in all reachable states.
\<close>

subsection \<open>Hypercalls keep the kernel relation\<close>

lemma get_vm_id_quiet: "get_vm_id s = Some t \<Longrightarrow> quiet s t"
  by (auto simp: get_vm_id_def bind_eq_Some_conv intro: MoveTo_quiet)

lemma guest_is_up_quiet: "guest_is_up s = Some t \<Longrightarrow> quiet s t"
  by (auto simp: guest_is_up_def bind_eq_Some_conv intro: MoveTo_quiet split: option.split_asm)

lemma intervm_send_krel:
  assumes "intervm_send_msg s = Some t"
  shows "krel s t"
proof -
  let ?a0 = "MoveFromPreviousGuestGPR REG_A0 s" and ?a1 = "MoveFromPreviousGuestGPR REG_A1 s"
    and ?n = "MoveFromPreviousGuestGPR REG_A2 s"
  have ret: "krel s (MoveToPreviousGuestGPR REG_V0 r s)" for r by (rule quiet_krel [OF MoveTo_quiet])
  show ?thesis
  proof (cases "MESSAGE_SZ < ?n")
    case True
    then show ?thesis using assms ret by (auto simp: intervm_send_msg_def)
  next
    case False
    then have n: "unat ?n \<le> 256" by (simp add: MESSAGE_SZ_def word_less_nat_alt)
    obtain r where r: "get_vcpu_from_id ?a0 s = Some r"
      using assms False by (cases "get_vcpu_from_id ?a0 s") (simp_all add: intervm_send_msg_def)
    show ?thesis
    proof (cases r)
      case None
      then show ?thesis using assms False r ret by (auto simp: intervm_send_msg_def)
    next
      case (Some p)
      obtain v where v: "vcpus s p = Some v"
        using assms False r Some by (cases "vcpus s p") (simp_all add: intervm_send_msg_def)
      consider "vc_init v \<noteq> 0" | "vc_init v = 0" "num_messages (messages v) = MESSAGELIST_SZ"
        | "vc_init v = 0" "num_messages (messages v) \<noteq> MESSAGELIST_SZ" by blast
      then show ?thesis
      proof cases
        case 1
        then show ?thesis using assms False r Some v ret by (auto simp: intervm_send_msg_def)
      next
        case 2
        let ?u = "s\<lparr>vcpus := (vcpus s)(p \<mapsto> v\<lparr>guestclt2 := guestclt2 v OR push_bit GUESTCLT2_GRIPL_SHIFT GUEST_INTERVM_INT\<rparr>)\<rparr>"
        have "krel s ?u" by (rule krel_upd [OF v]) (simp_all add: vstat_def)
        moreover have "t = MoveToPreviousGuestGPR REG_V0 MESSAGE_FULL ?u"
          using assms False r Some v 2 by (simp add: intervm_send_msg_def)
        ultimately show ?thesis using krel_quiet_trans(1) [OF _ MoveTo_quiet] by simp
      next
        case 3
        obtain m where m: "cur_vm s = Some m"
          using assms False r Some v 3 by (cases "cur_vm s") (simp_all add: intervm_send_msg_def)
        let ?w = "tlbCreateEntry ?a1 (base_addr m) ?n 0xF False s"
        obtain va s1 where w: "?w = Some (va, s1)"
          using assms False r Some v 3 m by (cases ?w) (auto simp: intervm_send_msg_def)
        obtain bs s2 where l: "ld_bytes va (unat ?n) s1 = Some (bs, s2)"
          using assms False r Some v 3 m w by (cases "ld_bytes va (unat ?n) s1") (auto simp: intervm_send_msg_def)
        have q: "quiet s s2" by (rule quiet_trans [OF tlbCreateEntry_quiet [OF w] bytes_quiet(1) [OF l]])
        have v2: "vcpus s2 p = Some v" using v quiet_fields(3) [OF q] by simp
        obtain b1 where b1: "buf_put bs ?n (vm_ident m) (messages v) = Some b1"
          using assms False r Some v 3 m w l v2
          by (cases "buf_put bs ?n (vm_ident m) (messages v)") (simp_all add: intervm_send_msg_def)
        let ?v3 = "v\<lparr>messages := b1, guestclt2 := guestclt2 v OR intervm_bit (c_port (conf s2))\<rparr>"
        let ?s3 = "MoveToPreviousGuestGPR REG_V0 ?n (s2\<lparr>vcpus := (vcpus s2)(p \<mapsto> ?v3)\<rparr>)"
        have t: "fast_interrupt_delivery p ?s3 = Some t"
          using assms False r Some v 3 m w l v2 b1 by (simp add: intervm_send_msg_def Let_def)
        have ok: "msgs_ok b1" if box: "msgs_ok (messages v)"
        proof -
          have "length (inbox (messages v)) \<noteq> 5"
          proof
            assume "length (inbox (messages v)) = 5"
            then have "unat (num_messages (messages v)) = unat (5 :: u32)" by simp
            then show False using 3 by (simp only: MESSAGELIST_SZ_def word_unat_eq_iff)
          qed
          then have five: "length (inbox (messages v)) < 5" using box by (simp add: msgs_ok_def)
          have len: "length bs = unat ?n" by (rule ld_bytes_length [OF l])
          have "length (snd (vm_ident m, bs)) \<le> 256" using len n by simp
          then obtain b' where "box_put (messages v) (vm_ident m, bs) = Some b'" "msgs_ok b'"
            using mailbox.put_ok [OF box _ five] by blast
          then show ?thesis using b1 len by (simp add: box_put_def)
        qed
        have "krel s2 (s2\<lparr>vcpus := (vcpus s2)(p \<mapsto> ?v3)\<rparr>)"
          by (rule krel_upd [OF v2]) (use ok in \<open>simp_all add: vstat_def\<close>)
        then have "krel s ?s3" using krel_quiet_trans(2) [OF q] krel_quiet_trans(1) [OF _ MoveTo_quiet] by blast
        then show ?thesis by (rule krel_trans [OF _ fast_interrupt_delivery_krel [OF t]])
      qed
    qed
  qed
qed

lemma intervm_recv_krel:
  assumes "intervm_recv_msg s = Some t"
  shows "krel s t"
proof -
  obtain p where p: "vcpu_executing s = Some p" using assms by (cases "vcpu_executing s") (simp_all add: intervm_recv_msg_def)
  obtain v where v: "vcpus s p = Some v" using assms p by (cases "vcpus s p") (simp_all add: intervm_recv_msg_def)
  let ?b = "messages v"
  show ?thesis
  proof (cases "num_messages ?b = 0")
    case True
    then have "t = MoveToPreviousGuestGPR REG_V0 MESSAGE_EMPTY s"
      using assms p v by (simp add: intervm_recv_msg_def)
    then show ?thesis using quiet_krel [OF MoveTo_quiet] by simp
  next
    case False
    obtain slot where slot: "buf_front ?b = Some slot"
      using assms p v False by (cases "buf_front ?b") (simp_all add: intervm_recv_msg_def)
    obtain m where m: "cur_vm s = Some m"
      using assms p v False slot by (cases "cur_vm s") (simp_all add: intervm_recv_msg_def)
    let ?w = "tlbCreateEntry (MoveFromPreviousGuestGPR REG_A0 s) (base_addr m) (msg_size slot) 0xF False s"
    obtain va s1 where w: "?w = Some (va, s1)"
      using assms p v False slot m by (cases ?w) (auto simp: intervm_recv_msg_def)
    let ?bs = "take (unat (msg_size slot)) (message slot)"
    have len: "unat (msg_size slot) \<le> length (message slot)"
      using assms p v False slot m w by (cases "unat (msg_size slot) \<le> length (message slot)") (simp_all add: intervm_recv_msg_def Let_def)
    obtain s2 where st: "st_bytes va ?bs s1 = Some s2"
      using assms p v False slot m w len by (cases "st_bytes va ?bs s1") (simp_all add: intervm_recv_msg_def Let_def)
    let ?bit = "intervm_bit (c_port (conf s))"
    let ?s3 = "MoveToPreviousGuestGPR REG_A0 (source_id slot) (MoveToPreviousGuestGPR REG_V0 (msg_size slot) s2)"
    let ?s4 = "setGuestCTL2 (getGuestCTL2 ?s3 AND NOT ?bit) ?s3"
    let ?v = "v\<lparr>messages := buf_drop ?b, guestclt2 := guestclt2 v AND NOT ?bit\<rparr>"
    have t: "t = ?s4\<lparr>vcpus := (vcpus ?s4)(p \<mapsto> ?v)\<rparr>"
      using assms p v False slot m w len st by (simp add: intervm_recv_msg_def Let_def)
    have "quiet s s2" by (rule quiet_trans [OF tlbCreateEntry_quiet [OF w] bytes_quiet(2) [OF st]])
    also have "quiet s2 ?s4"
      unfolding setGuestCTL2_def by (rule quiet_trans [OF quiet_trans [OF MoveTo_quiet MoveTo_quiet] mtc0_quiet(1)])
    finally have q: "quiet s ?s4" .
    have v4: "vcpus ?s4 p = Some v" using v quiet_fields(3) [OF q] by simp
    have ok: "msgs_ok (buf_drop ?b)" if box: "msgs_ok ?b"
    proof -
      have "inbox ?b \<noteq> []" using False by (auto simp: inbox_def unat_gt_0)
      then obtain x xs where "inbox ?b = x # xs" by (cases "inbox ?b") auto
      from mailbox.get_ok [OF box this] show ?thesis using False slot by (auto simp: box_get_def)
    qed
    have "krel ?s4 t" unfolding t by (rule krel_upd [OF v4]) (use ok in \<open>simp_all add: vstat_def\<close>)
    then show ?thesis by (rule krel_quiet_trans(2) [OF q])
  qed
qed

lemma uart_fill_quiet: "uart_fill n va i s = Some (j, t) \<Longrightarrow> quiet s t"
proof (induction n arbitrary: i s)
  case (Suc n)
  obtain sta s1 where r: "sfr_read (UARTSTAT (conf s)) s = (sta, s1)" by fastforce
  have q1: "quiet s s1" by (rule sfr_quiet(2) [OF r])
  show ?case
  proof (cases "sta AND USTA_UTXBF = 0")
    case False
    then show ?thesis using Suc.prems r q1 by simp
  next
    case True
    obtain c s2 where l: "ld8 (va + i) s1 = Some (c, s2)"
      using Suc.prems r True by (cases "ld8 (va + i) s1") auto
    have "uart_fill n va (i + 1) (sfr_write (UARTTXREG (conf s2)) (char_word c) s2) = Some (j, t)"
      using Suc.prems r True l by simp
    from Suc.IH [OF this] show ?thesis
      by (rule quiet_trans [OF quiet_trans [OF quiet_trans [OF q1 access_quiet(1) [OF l]] sfr_quiet(1)]])
  qed
qed simp

lemma scheduler_transfer_interrupt_krel:
  assumes "scheduler_transfer_interrupt addr next_char sz s = Some t"
  shows "krel s t"
proof -
  obtain p where p: "vcpu_executing s = Some p"
    using assms by (cases "vcpu_executing s") (simp_all add: scheduler_transfer_interrupt_def)
  obtain v where v: "vcpus s p = Some v"
    using assms p by (cases "vcpus s p") (simp_all add: scheduler_transfer_interrupt_def)
  let ?s1 = "if active_transfer s < 0
      then (sfr_write (IECSET (uart_irq_reg s)) (uart_irq_bit s) s)\<lparr>active_transfer := sint (vc_ident v - 1)\<rparr> else s"
  have q1: "quiet s ?s1" using quiet_trans [OF sfr_quiet(1) quiet_upd(10)] by simp
  obtain ts where u: "upd_vcpu p (\<lambda>v. v\<lparr>state := VCPU_BLOCKED\<rparr>) (?s1\<lparr>transfers := ts\<rparr>) = Some t"
    using assms p v unfolding scheduler_transfer_interrupt_def Let_def by (auto simp: bind_eq_Some_conv)
  have "krel (?s1\<lparr>transfers := ts\<rparr>) t" by (rule upd_vcpu_krel [OF u]) (simp add: vstat_def)
  then show ?thesis by (rule krel_quiet_trans(2) [OF quiet_trans [OF q1 quiet_upd(9)]])
qed

lemma uart_send_krel:
  assumes "uart_send s = Some t"
  shows "krel s t"
proof -
  let ?a0 = "MoveFromPreviousGuestGPR REG_A0 s" and ?n = "MoveFromPreviousGuestGPR REG_A1 s"
  obtain m where m: "cur_vm s = Some m" using assms by (cases "cur_vm s") (simp_all add: uart_send_def)
  let ?w = "tlbCreateEntry ?a0 (base_addr m) ?n 0xF True s"
  obtain va s1 where w: "?w = Some (va, s1)" using assms m by (cases ?w) (auto simp: uart_send_def)
  let ?f = "if active_transfer s1 < 0 then uart_fill (unat ?n) va 0 s1 else Some (0, s1)"
  obtain i s2 where f: "?f = Some (i, s2)" using assms m w by (cases ?f) (auto simp: uart_send_def)
  have "quiet s1 s2" using f uart_fill_quiet by (cases "active_transfer s1 < 0") auto
  then have q: "quiet s s2" by (rule quiet_trans [OF tlbCreateEntry_quiet [OF w]])
  let ?g = "if i < ?n then scheduler_transfer_interrupt ?a0 i ?n s2 else Some s2"
  have e: "uart_send s = do { s3 \<leftarrow> ?g; Some (MoveToPreviousGuestGPR REG_V0 ?n s3) }"
    unfolding uart_send_def Let_def m bind.bind_lunit w prod.case f by (rule refl)
  obtain s3 where g: "?g = Some s3" "t = MoveToPreviousGuestGPR REG_V0 ?n s3"
    using assms unfolding e bind_eq_Some_conv by auto
  have "krel s2 s3" using g(1) scheduler_transfer_interrupt_krel by (cases "i < ?n") auto
  then have "krel s s3" by (rule krel_quiet_trans(2) [OF q])
  then show ?thesis unfolding g(2) by (rule krel_quiet_trans(1) [OF _ MoveTo_quiet])
qed

lemma wait_lsr_quiet: "wait_lsr s = Some t \<Longrightarrow> quiet s t"
proof (induction s t rule: wait_lsr.raw_induct [rotated, consumes 1])
  case (1 loop s t)
  obtain v s1 where r: "sfr_read UART0_LSR s = (v, s1)" by fastforce
  have q: "quiet s s1" by (rule sfr_quiet(2) [OF r])
  from 1(2) r show ?case using q quiet_trans [OF q 1(1)] by (auto split: if_splits)
qed

lemma uart_poll_quiet: "uart_poll n va i s = Some t \<Longrightarrow> quiet s t"
proof (induction n arbitrary: i s)
  case (Suc n)
  obtain s1 where w: "wait_lsr s = Some s1" using Suc.prems by (cases "wait_lsr s") simp_all
  obtain c s2 where l: "ld8 (va + i) s1 = Some (c, s2)" using Suc.prems w by (cases "ld8 (va + i) s1") auto
  have "uart_poll n va (i + 1) (sfr_write UART0_RBR (char_word c) s2) = Some t" using Suc.prems w l by simp
  from Suc.IH [OF this] show ?case
    by (rule quiet_trans [OF quiet_trans [OF quiet_trans [OF wait_lsr_quiet [OF w] access_quiet(1) [OF l]] sfr_quiet(1)]])
qed simp

lemma uart_send_baikal_quiet:
  assumes "uart_send_baikal s = Some t"
  shows "quiet s t"
proof -
  let ?n = "MoveFromPreviousGuestGPR REG_A1 s"
  obtain m where m: "cur_vm s = Some m" using assms by (cases "cur_vm s") (simp_all add: uart_send_baikal_def)
  let ?w = "tlbCreateEntry (MoveFromPreviousGuestGPR REG_A0 s) (base_addr m) ?n 0xF False s"
  obtain va s1 where w: "?w = Some (va, s1)" using assms m by (cases ?w) (auto simp: uart_send_baikal_def)
  obtain s2 where p: "uart_poll (unat ?n) va 0 s1 = Some s2"
    using assms m w by (cases "uart_poll (unat ?n) va 0 s1") (auto simp: uart_send_baikal_def)
  have "t = MoveToPreviousGuestGPR REG_V0 ?n s2" using assms m w p by (simp add: uart_send_baikal_def)
  then show ?thesis
    using quiet_trans [OF quiet_trans [OF tlbCreateEntry_quiet [OF w] uart_poll_quiet [OF p]] MoveTo_quiet] by simp
qed

lemma transfer_tx_done_krel:
  assumes "transfer_tx_done s = Some t"
  shows "krel s t"
proof -
  define j where "j = unat (word_of_int (active_transfer s) :: u32)"
  define s1 where "s1 = sfr_write (IFSCLR (uart_irq_reg s)) (uart_irq_bit s) s"
  note D = transfer_tx_done_def Let_def j_def [symmetric] s1_def [symmetric]
  obtain ti where ti: "arr_get (transfers s1) (int j) = Some ti"
    using assms unfolding D by (cases "arr_get (transfers s1) (int j)") simp_all
  obtain p where p: "tr_vcpu ti = Some p" using assms unfolding D ti by (cases "tr_vcpu ti") simp_all
  obtain v where v: "vcpus s1 p = Some v" using assms unfolding D ti bind.bind_lunit p by (cases "vcpus s1 p") simp_all
  obtain m where m: "vms s1 (vc_vm v) = Some m"
    using assms unfolding D ti bind.bind_lunit p v by (cases "vms s1 (vc_vm v)") simp_all
  let ?w = "tlbCreateEntry (buf_addr ti) (base_addr m) (tr_size ti) 0xF True s1"
  obtain va s2 where w: "?w = Some (va, s2)"
    using assms unfolding D ti bind.bind_lunit p v m by (cases ?w) auto
  let ?f = "uart_fill (unat (tr_size ti) - unat (next_character ti)) va (next_character ti) s2"
  obtain i s3 where f: "?f = Some (i, s3)"
    using assms unfolding D ti bind.bind_lunit p v m w prod.case by (cases ?f) auto
  have "quiet s s1" unfolding s1_def by (rule sfr_quiet(1))
  also note tlbCreateEntry_quiet [OF w]
  also note uart_fill_quiet [OF f]
  finally have q: "quiet s s3" .
  let ?t1 = "ti\<lparr>next_character := i\<rparr>"
  show ?thesis
  proof (cases "tr_size ?t1 \<le> i")
    case False
    have "t = s3\<lparr>transfers := (transfers s3)[j := ?t1]\<rparr>"
      using assms unfolding D ti bind.bind_lunit p v m w prod.case f if_not_P [OF False] by simp
    then show ?thesis using quiet_krel [OF quiet_trans [OF q quiet_upd(9)]] by simp
  next
    case True
    let ?u = "upd_vcpu p (\<lambda>v. v\<lparr>state := VCPU_RUNNING\<rparr>) s3"
    obtain s4 where s4: "?u = Some s4"
      using assms unfolding D ti bind.bind_lunit p v m w prod.case f if_P [OF True] by (cases ?u) simp_all
    have "krel s3 s4" by (rule upd_vcpu_krel [OF s4]) (simp add: vstat_def)
    then have k4: "krel s s4" by (rule krel_quiet_trans(2) [OF q])
    let ?ts = "(transfers s4)[j := ?t1\<lparr>tr_vcpu := None\<rparr>]" and ?s5 = "s4\<lparr>transfers := (transfers s4)[j := ?t1\<lparr>tr_vcpu := None\<rparr>]\<rparr>"
    let ?n = "next_transfer [0..<NVMACHINES (conf ?s5)] ?ts"
    obtain k where k: "?n = Some k"
      using assms unfolding D ti bind.bind_lunit p v m w prod.case f if_P [OF True] s4 by (cases ?n) simp_all
    have "t = (case k of Some j' \<Rightarrow> ?s5\<lparr>active_transfer := int j'\<rparr>
        | None \<Rightarrow> (sfr_write (IECCLR (uart_irq_reg ?s5)) (uart_irq_bit ?s5) ?s5)\<lparr>active_transfer := - 1\<rparr>)"
      using assms unfolding D ti bind.bind_lunit p v m w prod.case f if_P [OF True] s4 k by (cases k) simp_all
    moreover have "quiet ?s5 (case k of Some j' \<Rightarrow> ?s5\<lparr>active_transfer := int j'\<rparr>
        | None \<Rightarrow> (sfr_write (IECCLR (uart_irq_reg ?s5)) (uart_irq_bit ?s5) ?s5)\<lparr>active_transfer := - 1\<rparr>)"
      using quiet_trans [OF sfr_quiet(1) quiet_upd(10)] by (cases k) simp_all
    ultimately show ?thesis
      using krel_quiet_trans(1) [OF krel_quiet_trans(1) [OF k4 quiet_upd(9)]] by simp
  qed
qed

subsection \<open>Dispatch\<close>

lemma usb_calls_krel:
  "usb_polling s = Some t \<Longrightarrow> krel s t" "usb_send_data s = Some t \<Longrightarrow> krel s t"
  "get_descriptor s = Some t \<Longrightarrow> krel s t" "krel s (usb_int_handler s)"
  by (simp_all add: uquiet_krel usb_polling_uq usb_polling_ok usb_send_data_uq usb_send_data_ok quiet_krel
      get_descriptor_quiet usb_int_handler_uq usb_int_handler_ok)

lemma run_hypercall_krel:
  assumes "run_hypercall xcall h s = Some t" "\<And>n s t. xcall n s = Some t \<Longrightarrow> krel s t"
  shows "krel s t"
  using assms
  by (cases h; cases "c_port (conf s)")
    (auto simp: run_hypercall_def intro: quiet_krel get_vm_id_quiet guest_is_up_quiet write_address_quiet
      read_address_quiet flash_read_quiet flash_write_quiet performance_counter_stop_quiet uart_send_baikal_quiet
      performance_counter_start_quiet intervm_send_krel intervm_recv_krel reenable_interrupt_krel uart_send_krel usb_calls_krel eth_calls_krel
      en_get_mac_shared_krel receive_frame_shared_krel)

lemma hypercall_execution_krel:
  assumes "hypercall_execution (run_hypercall xcall) s = Some t" "\<And>n s t. xcall n s = Some t \<Longrightarrow> krel s t"
  shows "krel s t"
  using assms run_hypercall_krel [OF _ assms(2)]
  by (auto simp: hypercall_execution_def Let_def intro: quiet_krel MoveTo_quiet split: if_splits)

lemma guest_exit_exception_krel:
  assumes "guest_exit_exception xcall s = Some t" and k: "kstate s"
    and ext: "\<And>n s t. xcall n s = Some t \<Longrightarrow> krel s t"
  shows "krel s t"
proof -
  let ?c = "if getGCauseCode s = 0 then Some (snd (instruction_emulation (getEPC s) s))
    else if getGCauseCode s = 2 then hypercall_execution (run_hypercall xcall) s else Some s"
  obtain s1 where s1: "?c = Some s1" using assms(1) by (cases ?c) (simp_all add: guest_exit_exception_def)
  have k1: "krel s s1"
    using s1 quiet_krel [OF instruction_emulation_quiet] hypercall_execution_krel [OF _ ext]
    by (auto split: if_splits)
  obtain p where p: "vcpu_executing s1 = Some p"
    using assms(1) s1 by (cases "vcpu_executing s1") (simp_all add: guest_exit_exception_def Let_def)
  let ?u = "upd_vcpu p (\<lambda>v. v\<lparr>pc := getEPC s + 4\<rparr>) s1"
  obtain s2 where s2: "?u = Some s2"
    using assms(1) s1 p by (cases ?u) (simp_all add: guest_exit_exception_def Let_def)
  obtain v where v: "vcpus s2 p = Some v"
    using assms(1) s1 p s2 by (cases "vcpus s2 p") (simp_all add: guest_exit_exception_def Let_def)
  have "krel s1 s2" by (rule upd_vcpu_krel [OF s2]) (simp add: vstat_def)
  then have k3: "krel s (setEPC (pc v) s2)"
    unfolding setEPC_def by (rule krel_quiet_trans(1) [OF krel_trans [OF k1] mtc0_quiet(1)])
  have "(if state v = VCPU_BLOCKED then run_scheduler (setEPC (pc v) s2) else Some (setEPC (pc v) s2)) = Some t"
    using assms(1) s1 p s2 v by (simp add: guest_exit_exception_def Let_def)
  then show ?thesis
    using k3 run_scheduler_krel [OF _ kstate_krel [OF k3 k]] krel_trans [OF k3] by (auto split: if_splits)
qed

lemma general_exception_handler_krel:
  assumes "general_exception_handler xcall s = Some t" "kstate s" "\<And>n s t. xcall n s = Some t \<Longrightarrow> krel s t"
  shows "krel s t"
  using assms guest_exit_exception_krel [OF _ assms(2,3)]
  by (auto simp: general_exception_handler_def split: if_splits)

lemma inject_one_krel:
  assumes "inject_one e s = Some t"
  shows "krel s t"
proof (cases "vcpus s (im_vcpu e) = None")
  case False
  then show ?thesis by (rule inject_one_ok) (use assms in simp)
next
  case True
  let ?irq = "irq_number e" and ?bit = "irq_bit (irq_number e)"
  obtain flags s1 where r: "sfr_read (IFS (drop_bit 5 ?irq)) s = (flags, s1)" by fastforce
  define s2 where "s2 = sfr_write (IFSCLR (drop_bit 5 ?irq)) ?bit s1"
  define s3 where "s3 = sfr_write (IECCLR (drop_bit 5 ?irq)) ?bit s2"
  have q1: "quiet s s1" by (rule sfr_quiet(2) [OF r])
  have q2: "quiet s s2" unfolding s2_def by (rule quiet_trans [OF q1 sfr_quiet(1)])
  have q3: "quiet s s3" unfolding s3_def by (rule quiet_trans [OF q2 sfr_quiet(1)])
  have no: "upd_vcpu (im_vcpu e) f s3 = None" for f
    using True quiet_fields(3) [OF q3] by (simp add: upd_vcpu_def)
  have "quiet s t"
    using assms no q1 q2 quiet_trans [OF q3 mtc0_quiet(1)]
    unfolding inject_one_def Let_def r prod.case s2_def [symmetric] s3_def [symmetric] setGuestCTL2_def
    by (auto split: if_splits)
  then show ?thesis by (rule quiet_krel)
qed

lemma interrupt_injection_krel: "interrupt_injection s = Some t \<Longrightarrow> krel s t"
proof -
  have loop: "interrupt_injection_loop is s = Some t \<Longrightarrow> krel s t" for "is" s
  proof (induction "is" arbitrary: s)
    case (Cons i "is")
    then obtain e u where "inject_one e s = Some u" "interrupt_injection_loop is u = Some t"
      by (auto simp: bind_eq_Some_conv)
    then show ?case using krel_trans [OF inject_one_krel Cons.IH] by blast
  qed simp
  show "interrupt_injection s = Some t \<Longrightarrow> krel s t" unfolding interrupt_injection_def by (rule loop)
qed

lemma run_handler_krel:
  assumes "run_handler xcall xirq h s = Some t" and k: "kstate s"
    and ext: "\<And>n s t. xcall n s = Some t \<Longrightarrow> krel s t" "\<And>n s t. xirq n s = Some t \<Longrightarrow> krel s t"
  shows "krel s t"
proof -
  have tim: "timer_interrupt_handler s = Some t \<Longrightarrow> krel s t" "timer_interrupt_handler_baikal s = Some t \<Longrightarrow> krel s t"
    using timer_interrupt_handler_ok [OF k] timer_interrupt_handler_baikal_ok [OF k] by (metis option.inject)+
  show ?thesis
    using assms(1) tim usb_calls_krel(4) ethernet_interrupt_handler_krel transfer_tx_done_krel interrupt_injection_krel ext general_exception_handler_krel [OF _ k ext(1)]
    by (cases h) (auto simp: run_handler_def split: port.splits)
qed

subsection \<open>The transition system\<close>

text \<open>
  What a guest may do between two entries of the hypervisor: change its memory, its registers, its
  CP0 context and the devices. The kernel's own data are out of its reach.
\<close>

definition guest_runs :: "hv \<Rightarrow> hv \<Rightarrow> bool" where
  "guest_runs s t \<longleftrightarrow> t = s\<lparr>mem := mem t, gcp0 := gcp0 t, cp0 := cp0 t, shadow := shadow t, frame := frame t,
     io := io t, vol_n := vol_n t, ie := ie t\<rparr>"

inductive hv_step :: "(nat \<Rightarrow> hv \<Rightarrow> hv option) \<Rightarrow> (nat \<Rightarrow> hv \<Rightarrow> hv option) \<Rightarrow> hv \<Rightarrow> hv \<Rightarrow> bool"
  for xcall xirq where
  guest: "guest_runs s t \<Longrightarrow> hv_step xcall xirq s t"
| exc: "general_exception_handler xcall s = Some t \<Longrightarrow> hv_step xcall xirq s t"
| irq: "Some h \<in> set (interrupt_handlers s) \<Longrightarrow> run_handler xcall xirq h s = Some t \<Longrightarrow> hv_step xcall xirq s t"

inductive hv_reach :: "(nat \<Rightarrow> hv \<Rightarrow> hv option) \<Rightarrow> (nat \<Rightarrow> hv \<Rightarrow> hv option) \<Rightarrow> hv \<Rightarrow> hv \<Rightarrow> bool"
  for xcall xirq s0 where
  start: "hv_reach xcall xirq s0 s0"
| step: "hv_reach xcall xirq s0 s \<Longrightarrow> hv_step xcall xirq s t \<Longrightarrow> hv_reach xcall xirq s0 t"

inductive_cases hv_stepE: "hv_step xcall xirq s t"
inductive_simps hv_step_simps: "hv_step xcall xirq s t"

lemma guest_runs_quiet: "guest_runs s t \<Longrightarrow> quiet s t"
proof -
  assume "guest_runs s t"
  then obtain a b c d e f g h where "t = s\<lparr>mem := a, gcp0 := b, cp0 := c, shadow := d, frame := e, io := f, vol_n := g, ie := h\<rparr>"
    unfolding guest_runs_def by blast
  then show ?thesis by (simp add: quiet_def fixed_def kept_def tlb_but_window_def)
qed

lemma hv_step_krel:
  assumes "hv_step xcall xirq s t" "kstate s"
    "\<And>n s t. xcall n s = Some t \<Longrightarrow> krel s t" "\<And>n s t. xirq n s = Some t \<Longrightarrow> krel s t"
  shows "krel s t"
  using assms(1)
proof (cases rule: hv_step.cases)
  case guest
  then show ?thesis by (rule quiet_krel [OF guest_runs_quiet])
next
  case exc
  then show ?thesis by (rule general_exception_handler_krel [OF _ assms(2,3)])
next
  case (irq h)
  show ?thesis by (rule run_handler_krel [OF irq(2) assms(2)]) (fact assms(3,4))+
qed

lemma hv_reach_krel:
  assumes "hv_reach xcall xirq s0 s" "kstate s0"
    "\<And>n s t. xcall n s = Some t \<Longrightarrow> krel s t" "\<And>n s t. xirq n s = Some t \<Longrightarrow> krel s t"
  shows "krel s0 s"
  using assms(1)
proof induction
  case (step s t)
  have "krel s t" by (rule hv_step_krel [OF step.hyps(2) kstate_krel [OF step.IH assms(2)] assms(3,4)])
  with step.IH show ?case by (rule krel_trans)
qed simp

end
