(* ===== verification/Startup.thy ===== *)
theory Startup
  imports System
begin

text \<open>
  The boot sequence as a whole: what the driver initialisers leave alone, and the state in which
  \<open>hyper_init\<close> waits for the first timer interrupt.
\<close>

subsection \<open>The driver initialisers do not touch the machines\<close>

definition machines_same :: "hv \<Rightarrow> hv \<Rightarrow> bool" where
  "machines_same s t \<longleftrightarrow> conf t = conf s \<and> vms t = vms s \<and> vcpus t = vcpus s \<and>
     vcpu_ready_list t = vcpu_ready_list s \<and> vcpu_executing t = vcpu_executing s \<and> pending t = pending s \<and> tlb t = tlb s \<and>
     (usb_idle (usb s) \<longrightarrow> usb_idle (usb t)) \<and> (eth_ok (eth s) \<longrightarrow> eth_ok (eth t))"

lemma same_refl [simp]: "machines_same s s"
  by (simp add: machines_same_def)

lemma same_trans [trans]: "machines_same s t \<Longrightarrow> machines_same t u \<Longrightarrow> machines_same s u"
  by (simp add: machines_same_def)

lemma same_ops:
  "machines_same s (sfr_write a v s)" "machines_same s (mtc0 r sel v s)"
  "machines_same s (snd (sfr_read a s))" "machines_same s (snd (mfc0_volatile r s))"
  "machines_same s (snd (register_hypercall f c s))" "machines_same s (snd (register_interrupt h s))"
  "machines_same s (snd (register_interrupt_baikal h k s))"
  by (simp_all add: machines_same_def sfr_write_def dev_write_def mtc0_def sfr_read_def dev_read_def Let_def
      mfc0_volatile_def register_hypercall_def register_interrupt_def register_interrupt_baikal_def split: option.split)

lemma same_upd [simp]:
  "machines_same s (s\<lparr>hypercall_table := x1\<rparr>)" "machines_same s (s\<lparr>interrupt_handlers := x2\<rparr>)"
  "machines_same s (s\<lparr>vmconf_p := x3\<rparr>)" "machines_same s (s\<lparr>transfers := x4\<rparr>)" "machines_same s (s\<lparr>ie := x5\<rparr>)"
  "machines_same s (s\<lparr>interrupt_mapping_sz := x6\<rparr>)" "machines_same s (s\<lparr>interrupt_mapping_list := x7\<rparr>)"
  "machines_same s (s\<lparr>heap := x8, interrupt_mapping_list := x7\<rparr>)" "machines_same s (s\<lparr>heap := x8\<rparr>)"
  by (simp_all add: machines_same_def)

lemma same_read: "sfr_read a s = (v, t) \<Longrightarrow> machines_same s t"
  using same_ops(3) [of s a] by simp

lemma same_count: "mfc0_volatile r s = (v, t) \<Longrightarrow> machines_same s t"
  using same_ops(4) [of s r] by simp

lemma same_hypercall: "register_hypercall f c s = (r, t) \<Longrightarrow> machines_same s t"
  using same_ops(5) [of s f c] by simp

lemma same_interrupt: "register_interrupt h s = (r, t) \<Longrightarrow> machines_same s t"
  using same_ops(6) [of s h] by simp

lemma intervm_init_same: "machines_same s (intervm_init s)"
  by (auto simp: intervm_init_def Let_def split: prod.split intro: same_trans dest!: same_hypercall)
    (metis same_trans same_ops(5))

lemma fill_vmconf_p_same: "fill_vmconf_p is s = Some t \<Longrightarrow> machines_same s t"
proof (induction "is" arbitrary: s)
  case (Cons i "is")
  then obtain x where "fill_vmconf_p is (s\<lparr>vmconf_p := x\<rparr>) = Some t" by (auto simp: bind_eq_Some_conv)
  from Cons.IH [OF this] show ?case by (rule same_trans [OF same_upd(3)])
qed simp

lemma virtual_io_init_same:
  assumes "virtual_io_init s = Some t"
  shows "machines_same s t"
proof -
  obtain r1 s1 where 1: "register_hypercall H_write_address 11 s = (r1, s1)" by fastforce
  obtain r2 s2 where 2: "register_hypercall H_read_address 12 s1 = (r2, s2)" by fastforce
  have "machines_same s s2" by (rule same_trans [OF same_hypercall [OF 1] same_hypercall [OF 2]])
  then show ?thesis
    using assms 1 2 same_hypercall [OF 1] same_trans [OF _ fill_vmconf_p_same]
    by (auto simp: virtual_io_init_def split: if_splits)
qed

lemma count_redirects_same: "count_redirects is s = Some t \<Longrightarrow> machines_same s t"
proof (induction "is" arbitrary: s)
  case (Cons i "is")
  then obtain x where "count_redirects is (s\<lparr>interrupt_mapping_sz := x\<rparr>) = Some t" by (auto simp: bind_eq_Some_conv)
  from Cons.IH [OF this] show ?case by (rule same_trans [OF same_upd(6)])
qed simp

lemma config_redirect_same: "config_redirect j rs p offset k s = Some t \<Longrightarrow> machines_same s t"
  by (auto simp: config_redirect_def bind_eq_Some_conv Let_def machines_same_def hv_simps sfr_write_def dev_write_def)

lemma config_redirects_same: "config_redirects js rs p offset k s = Some (n, t) \<Longrightarrow> machines_same s t"
proof (induction js arbitrary: k s)
  case (Cons j js)
  then obtain s1 where "config_redirect j rs p offset k s = Some s1" "config_redirects js rs p offset (k + 1) s1 = Some (n, t)"
    by (auto simp: bind_eq_Some_conv)
  then show ?case using same_trans [OF config_redirect_same Cons.IH] by blast
qed simp

lemma config_all_redirects_same: "config_all_redirects is offset k s = Some t \<Longrightarrow> machines_same s t"
proof (induction "is" arbitrary: k s)
  case (Cons i "is")
  then obtain js rs p n s1 where "config_redirects js rs p offset k s = Some (n, s1)"
    "config_all_redirects is offset n s1 = Some t"
    by (auto simp: bind_eq_Some_conv)
  then show ?case using same_trans [OF config_redirects_same Cons.IH] by blast
qed simp

lemma interrupt_redirect_init_same:
  assumes "interrupt_redirect_init s = Some t"
  shows "machines_same s t"
proof -
  obtain s1 where 1: "count_redirects [0..<NVMACHINES (conf s)] s = Some s1"
    using assms by (cases "count_redirects [0..<NVMACHINES (conf s)] s") (simp_all add: interrupt_redirect_init_def)
  have k1: "machines_same s s1" by (rule count_redirects_same [OF 1])
  obtain off s2 where 2: "register_interrupt I_interrupt_injection s1 = (off, s2)" by fastforce
  obtain rc s3 where 3: "register_hypercall H_reenable_interrupt 13 s2 = (rc, s3)" by fastforce
  have k3: "machines_same s s3"
    by (rule same_trans [OF same_trans [OF k1 same_interrupt [OF 2]] same_hypercall [OF 3]])
  show ?thesis
  proof (cases "interrupt_mapping_sz s1 = 0")
    case True
    then show ?thesis using assms 1 k1 by (simp add: interrupt_redirect_init_def)
  next
    case False
    show ?thesis
    proof (cases "rc < 0")
      case True
      then show ?thesis using assms 1 2 3 k3 False by (simp add: interrupt_redirect_init_def)
    next
      case ok: False
      obtain lst h where m: "malloc (interrupt_mapping_sz s3 * 12) (heap s3) = Some (lst, h)"
        using assms 1 2 3 False ok
        by (cases "malloc (interrupt_mapping_sz s3 * 12) (heap s3)") (auto simp: interrupt_redirect_init_def)
      let ?s4 = "s3\<lparr>heap := h, interrupt_mapping_list :=
          (case lst of None \<Rightarrow> [] | Some a \<Rightarrow> replicate (unat (interrupt_mapping_sz s3 * 12) div 12) None)\<rparr>"
      have "config_all_redirects [0..<NVMACHINES (conf ?s4)] off 0 ?s4 = Some t"
        using assms 1 2 3 False ok m by (simp add: interrupt_redirect_init_def Let_def)
      from config_all_redirects_same [OF this] show ?thesis
        using same_trans [OF k3 same_trans [OF same_upd(8)]] by blast
    qed
  qed
qed

lemma flash_puf_init_same: "machines_same s (flash_puf_init s)"
  unfolding flash_puf_init_def by (auto split: prod.split intro: same_trans same_hypercall same_ops(5))

lemma performance_init_same: "machines_same s (performance_init s)"
  unfolding performance_init_def by (auto split: prod.split intro: same_trans same_hypercall same_ops(5))

lemma uart_driver_init_same: "machines_same s (uart_driver_init s)"
proof -
  obtain r s1 where 1: "register_hypercall H_uart_send 18 s = (r, s1)" by fastforce
  obtain off s2 where 2: "register_interrupt I_transfer_tx_done s1 = (off, s2)" by fastforce
  let ?s3 = "sfr_write (PIC32MZ_PBASE (0x10540 + push_bit 2 (UART_IRQ_TX (conf s2)))) off s2"
  obtain sta s4 where 4: "sfr_read (UARTSTAT (conf ?s3)) ?s3 = (sta, s4)" by fastforce
  have k2: "machines_same s s2" by (rule same_trans [OF same_hypercall [OF 1] same_interrupt [OF 2]])
  have k4: "machines_same s s4" by (rule same_trans [OF same_trans [OF k2 same_ops(1)] same_read [OF 4]])
  have w: "machines_same s4 (sfr_write a1 v1 (sfr_write a2 v2 (sfr_write a3 v3 (sfr_write a4 v4 s4))))" for a1 v1 a2 v2 a3 v3 a4 v4
    by (rule same_trans [OF same_trans [OF same_trans [OF same_ops(1) same_ops(1)] same_ops(1)] same_ops(1)])
  show ?thesis
    using 1 2 4 k2 same_hypercall [OF 1] same_trans [OF same_trans [OF k4 w] same_upd(4)]
    by (simp add: uart_driver_init_def Let_def)
qed

lemma usb_start_same:
  assumes "usb_start s = Some t"
  shows "machines_same s t"
proof -
  have hw: "machines_same u v" if "hw_only u v" "usb_idle (usb u) \<Longrightarrow> usb_idle (usb v)" for u v
    using that by (auto simp: hw_only_def machines_same_def)
  obtain off s1 where 1: "register_interrupt I_usb_int_handler s = (off, s1)" by fastforce
  obtain r1 s3 where 3: "register_hypercall H_usb_polling 8 (sfr_write (OFF 132) off s1) = (r1, s3)" by fastforce
  obtain r2 s4 where 4: "register_hypercall H_get_descriptor 9 s3 = (r2, s4)" by fastforce
  obtain r3 s5 where 5: "register_hypercall H_usb_send_data 10 s4 = (r3, s5)" by fastforce
  have k3: "machines_same s s3"
    by (rule same_trans [OF same_trans [OF same_interrupt [OF 1] same_ops(1)] same_hypercall [OF 3]])
  have k4: "machines_same s s4" by (rule same_trans [OF k3 same_hypercall [OF 4]])
  have k5: "machines_same s s5" by (rule same_trans [OF k4 same_hypercall [OF 5]])
  have c: "machines_same s5 t" if "usb_controller_reset s5 = Some s6" "usb_controller_setup s6 = Some t" for s6
    by (rule same_trans [OF hw hw]; rule usb_controller_hw usb_controller_hw(2) [THEN conjunct1] usb_controller_idle)
      (rule that | assumption)+
  show ?thesis
    using assms 1 3 4 5 k3 k4 k5 same_trans [OF k5 c]
    by (auto simp: usb_start_def bind_eq_Some_conv split: if_splits)
qed

lemma drv_same: "drv s t \<Longrightarrow> machines_same s t"
  by (auto simp: drv_def machines_same_def)

lemma alloc_rings_same:
  assumes "alloc_rings s = Some t"
  shows "machines_same s t"
proof -
  obtain x y z h where t: "t = set_port (\<lambda>e. e\<lparr>rx_buf := x, rx_desc := y, tx_desc := z\<rparr>) (s\<lparr>heap := h\<rparr>)"
    using assms by (auto simp: alloc_rings_def Let_def bind_eq_Some_conv split: if_splits)
  have "drv (s\<lparr>heap := h\<rparr>) t" unfolding t by (rule drv_port [OF drv_refl]) simp
  then show ?thesis by (rule same_trans [OF same_upd(9) drv_same])
qed

lemma register_calls_same: "machines_same s (snd (register_calls cs s))"
proof (induction cs arbitrary: s)
  case (Cons c cs)
  obtain h k where c: "c = (h, k)" by fastforce
  obtain r u where r: "register_hypercall h k s = (r, u)" by fastforce
  show ?case
    using same_hypercall [OF r] same_trans [OF same_hypercall [OF r] Cons.IH] by (simp add: c r)
qed simp

lemma en_enable_interrupts_same: "machines_same s (en_enable_interrupts s)"
proof -
  obtain off u where u: "register_interrupt I_ethernet_interrupt_handler s = (off, u)" by fastforce
  have "drv u (en_enable_interrupts s)"
    unfolding en_enable_interrupts_def u Let_def case_prod_beta fst_conv snd_conv by (intro dr drv_refl)
  then show ?thesis by (rule same_trans [OF same_interrupt [OF u] drv_same])
qed

lemma en_register_same:
  assumes "en_register calls s = Some t"
  shows "machines_same s t"
proof -
  define x where "x = snd (register_calls calls s)"
  let ?y = "\<lambda>n. set_eth (\<lambda>z. z\<lparr>eth_vcpu := n\<rparr>) x"
  have x: "machines_same s x" unfolding x_def by (rule register_calls_same)
  have y: "machines_same s (?y n)" for n
    by (rule same_trans [OF x drv_same]) (intro dr drv_refl)
  have "t = x \<or> (\<exists>n. t = ?y n \<or> t = en_enable_interrupts (?y n))"
    using assms unfolding en_register_def case_prod_beta Let_def x_def [symmetric]
    by (auto simp: bind_eq_Some_conv split: if_splits)
  then show ?thesis using x y same_trans [OF y en_enable_interrupts_same] by blast
qed

text \<open>Both versions of \<open>en_init\<close> end alike.\<close>

lemma en_init_tail_same:
  assumes u: "en_bring_up fl s = Some u"
    "(if 32 \<le> phy_addr (eth_port (eth u)) then Some (sfr_write ETHCON1 0 u)
      else do { s2 \<leftarrow> en_identify u; s3 \<leftarrow> alloc_rings s2; en_register cs s3 }) = Some t"
  shows "machines_same s t"
proof -
  have q: "drv s u" by (rule postD [OF en_init_parts_post(1) [OF drv_refl] u(1)])
  show ?thesis
  proof (cases "32 \<le> phy_addr (eth_port (eth u))")
    case True
    then have "t = sfr_write ETHCON1 0 u" using u(2) by simp
    then show ?thesis using drv_same [OF drv_sfr(1) [OF q]] by blast
  next
    case False
    then obtain v w where "en_identify u = Some v" "alloc_rings v = Some w" "en_register cs w = Some t"
      using u(2) by (auto simp: bind_eq_Some_conv)
    then show ?thesis
      using drv_same [OF postD [OF en_init_parts_post(2) [OF q]]] alloc_rings_same en_register_same same_trans by blast
  qed
qed

lemma bind_SomeE: "m \<bind> f = Some y \<Longrightarrow> (\<And>x. m = Some x \<Longrightarrow> f x = Some y \<Longrightarrow> P) \<Longrightarrow> P"
  by (auto simp: bind_eq_Some_conv)

lemma en_init_same: "en_init s = Some t \<Longrightarrow> machines_same s t"
  unfolding en_init_def by (erule bind_SomeE, rule en_init_tail_same)

lemma en_init_shared_same: "en_init_shared s = Some t \<Longrightarrow> machines_same s t"
proof -
  assume st: "en_init_shared s = Some t"
  let ?f = "\<lambda>x. x\<lparr>b_buf := b_buf eth_reset, VMCTRLbuf := VMCTRLbuf eth_reset\<rparr>"
  obtain s0 where s0: "st_bytes (b_buf_addr (conf s)) (replicate 15440 0) s = Some s0"
    using st by (cases "st_bytes (b_buf_addr (conf s)) (replicate 15440 0) s") (simp_all add: en_init_shared_def)
  have "eth_ok (?f x)" if "eth_ok x" for x
    using that by (simp add: eth_ok_def eth_reset_def ctrl_ok_def)
  then have "drv s (set_eth ?f s0)" by (rule drv_set [OF drv_bytes [OF s0]])
  moreover have "machines_same (set_eth ?f s0) t"
    using st unfolding en_init_shared_def s0 bind.bind_lunit by - (erule bind_SomeE, rule en_init_tail_same)
  ultimately show ?thesis using drv_same same_trans by blast
qed

lemma interrupt_init_same:
  "machines_same s (interrupt_init_pic32mz s)" "machines_same s (interrupt_init_baikal s)"
proof -
  show "machines_same s (interrupt_init_pic32mz s)"
    unfolding interrupt_init_pic32mz_def Let_def
    by (simp add: machines_same_def hv_simps sfr_write_def dev_write_def)
  show "machines_same s (interrupt_init_baikal s)"
    by (simp add: interrupt_init_baikal_def machines_same_def hv_simps sfr_write_def dev_write_def sfr_read_def dev_read_def Let_def)
qed

lemma start_timer_same: "machines_same s (start_timer s)" "machines_same s (start_timer_baikal s)"
proof -
  show "machines_same s (start_timer s)"
    by (simp add: start_timer_def machines_same_def hv_simps sfr_write_def dev_write_def mfc0_volatile_def
        register_interrupt_def Let_def split: option.split)
  show "machines_same s (start_timer_baikal s)"
    by (simp add: start_timer_baikal_def machines_same_def hv_simps sfr_write_def dev_write_def
        register_interrupt_baikal_def Let_def)
qed

lemma run_initcall_same:
  assumes "run_initcall xinit d s = Some t" "\<And>n s t. xinit n s = Some t \<Longrightarrow> machines_same s t"
  shows "machines_same s t"
proof -
  note init = intervm_init_same flash_puf_init_same performance_init_same uart_driver_init_same interrupt_init_same
    same_ops(5) [of s H_uart_send 18]
  show ?thesis
    using assms by (cases d) (auto simp: run_initcall_def uart_driver_init_baikal_def init split: port.splits
        dest: virtual_io_init_same interrupt_redirect_init_same usb_start_same en_init_same en_init_shared_same)
qed

lemma drivers_initialization_same:
  assumes "\<And>n s t. xinit n s = Some t \<Longrightarrow> machines_same s t"
  shows "drivers_initialization xinit ds s = Some t \<Longrightarrow> machines_same s t"
proof (induction ds arbitrary: s)
  case (Cons d ds)
  then obtain u where u: "run_initcall xinit d s = Some u" "drivers_initialization xinit ds u = Some t"
    by (auto simp: bind_eq_Some_conv)
  show ?case by (rule same_trans [OF run_initcall_same [OF u(1) assms] Cons.IH [OF u(2)]])
qed simp

lemma initializeMachines_usb: "initializeMachines s = Some t \<Longrightarrow> usb t = usb s"
proof -
  have w: "tlbEntryWrite e u = Some v \<Longrightarrow> usb v = usb u" for e u v
    by (auto simp: tlbEntryWrite_def tlb_commit_def setGuestRID_def Let_def hv_simps split: if_splits)
  have f: "fill_tlb is gid cs es u = Some (es', v) \<Longrightarrow> usb v = usb u" for "is" gid cs es es' u v
    by (induction "is" arbitrary: es u) (auto simp: bind_eq_Some_conv Let_def dest!: w)
  have a: "alloc_gpr u = Some (g, v) \<Longrightarrow> usb v = usb u" for u g v
    by (auto simp: alloc_gpr_def Let_def bind_eq_Some_conv)
  have c: "usb v = usb u" if cv: "create_vcpu m e q u = Some (x, v)" for m e q u x v
  proof -
    obtain h g s2 z where h: "(if num_shadow_gprs u < next_vcpu_id u
        then do { (g, s2) \<leftarrow> alloc_gpr (u\<lparr>heap := h\<rparr>); Some (if num_shadow_gprs u = 0 then 0 else 1, Some g, s2) }
        else Some (next_vcpu_id u, None, u\<lparr>heap := h\<rparr>)) = Some (z, g, s2)" "usb v = usb s2"
      using cv unfolding create_vcpu_def Let_def bind_eq_Some_conv
      by (elim exE conjE) (auto simp: bind_eq_Some_conv simp del: if_split_asm)
    show ?thesis
      using h by (cases "num_shadow_gprs u < next_vcpu_id u") (auto simp: bind_eq_Some_conv dest!: a)
  qed
  have vm: "create_vm cf u = Some (x, v) \<Longrightarrow> usb v = usb u" for cf u x v
    by (auto simp: create_vm_def bind_eq_Some_conv Let_def dest!: f c)
  have vms: "create_vms is u = Some v \<Longrightarrow> usb v = usb u" for "is" u v
    by (induction "is" arbitrary: u) (auto simp: bind_eq_Some_conv dest!: vm)
  show "initializeMachines s = Some t \<Longrightarrow> usb t = usb s"
    by (auto simp: initializeMachines_def bind_eq_Some_conv dest!: vms)
qed

lemma machines_same_kstate: "machines_same s t \<Longrightarrow> kstate s \<Longrightarrow> kstate t"
proof -
  assume m: "machines_same s t" and k: "kstate s"
  from k obtain ps where ps: "hv_sched s ps" "dom (vcpus s) = set ps" "mailboxes_ok s" by (auto simp: kstate_def)
  have "hv_sched t ps" by (rule hv_sched_cong [OF ps(1)]) (use m in \<open>auto simp: machines_same_def\<close>)
  then show ?thesis using ps(2,3) m by (auto simp: kstate_def mailboxes_ok_def machines_same_def)
qed

subsection \<open>From reset to the first interrupt\<close>

lemma zero_mailbox: "msgs_ok (messages zero_vcpu)"
  by (simp add: msgs_ok_def zero_vcpu_def slot_ok_def)

lemma boot_kstate:
  assumes B: "boot_state cap b a s ps" and q: "QUANTUM_SCHEDULER_MS (conf s) \<noteq> 0" "vcpu_executing s = None"
  shows "kstate s"
proof -
  have "mailboxes_ok s"
    unfolding mailboxes_ok_def
  proof (intro allI impI)
    fix p v assume v: "vcpus s p = Some v"
    then have "p \<in> set ps" using B by (auto simp: boot_state_def)
    then obtain i where "vcpu_of s i p" by (rule boot_state_vcpu [OF B])
    then show "msgs_ok (messages v)" using v zero_mailbox by (auto simp: vcpu_of_def)
  qed
  moreover have "dom (vcpus s) = set ps" using B by (auto simp: boot_state_def)
  ultimately show ?thesis using boot_hv_sched [OF B q] by (auto simp: kstate_def)
qed

text \<open>
  Whatever the board, the processor and the drivers do: if \<open>hyper_init\<close> comes to the first wait and
  the reset state and the configuration were sane, the VMs are those of the configuration and the
  scheduler state is well formed.
\<close>

lemma hyper_init_ok:
  assumes "hyper_init board xinit s = Some t"
    and board: "\<And>s1 u h. board s = Some s1 \<Longrightarrow> snd (LowLevelProcInit s1) = u \<Longrightarrow>
       init_mem (heap_start (conf u)) (heap_size (conf u)) (heap u) = Some h \<Longrightarrow>
       (\<exists>b a. reset_state b a (u\<lparr>heap := h\<rparr>) \<and> boot_cost (conf u) < a) \<and> conf u = conf s \<and> tlb u = tlb s \<and> usb u = usb s"
    and conf: "sane_conf (conf s)" "conf_tlb_entries (conf s) \<le> length (tlb s)"
    and xinit: "\<And>n s t. xinit n s = Some t \<Longrightarrow> machines_same s t"
  obtains ps where "kstate t" "length ps = NVMACHINES (conf s)" "conf t = conf s"
    "\<And>i. i < NVMACHINES (conf s) \<Longrightarrow> vcpu_of t i (ps ! i)" "dom (vcpus t) = set ps"
    "\<And>i. conf_tlb_entries (conf s) \<le> i \<Longrightarrow> i < length (tlb s) \<Longrightarrow> window_slot i t"
    "usb_idle (usb s) \<Longrightarrow> usb_idle (usb t)"
proof -
  obtain s1 where s1: "board s = Some s1" using assms(1) by (cases "board s") (simp_all add: hyper_init_def)
  obtain r u where u: "LowLevelProcInit s1 = (r, u)" by fastforce
  have r: "r = 0" using assms(1) s1 u by (cases "r = 0") (simp_all add: hyper_init_def)
  let ?m = "init_mem (heap_start (conf u)) (heap_size (conf u)) (heap u)"
  obtain h where h: "?m = Some h" using assms(1) s1 u r by (cases ?m) (simp_all add: hyper_init_def)
  from board [OF s1 _ h] u obtain b a where R: "reset_state b a (u\<lparr>heap := h\<rparr>)" "boot_cost (conf u) < a"
    and c: "conf u = conf s" "tlb u = tlb s" "usb u = usb s" by auto
  have s3: "sane_conf (conf (u\<lparr>heap := h\<rparr>))" "boot_cost (conf (u\<lparr>heap := h\<rparr>)) < a"
    "conf_tlb_entries (conf (u\<lparr>heap := h\<rparr>)) \<le> length (tlb (u\<lparr>heap := h\<rparr>))"
    using conf R c by simp_all
  obtain v ps a' where v: "initializeMachines (u\<lparr>heap := h\<rparr>) = Some v"
    "boot_state (NVMACHINES (conf s)) b a' v ps" "length ps = NVMACHINES (conf s)" "conf v = conf s"
    "length (tlb v) = length (tlb s)" "unat (next_tlbindex v) = conf_tlb_entries (conf s)" "vcpu_executing v = None"
    by (rule initializeMachines_boot [OF R(1) s3]) (use c in auto)
  obtain w where w: "drivers_initialization xinit (drivers_table (conf v)) v = Some w"
    using assms(1) s1 u r h v(1) by (cases "drivers_initialization xinit (drivers_table (conf v)) v") (simp_all add: hyper_init_def)
  have t: "t = (case c_port (conf w) of PIC32MZ \<Rightarrow> start_timer w | BAIKAL_T1 \<Rightarrow> start_timer_baikal w)"
    using assms(1) s1 u r h v(1) w by (simp add: hyper_init_def)
  have "machines_same w t" unfolding t using start_timer_same by (simp split: port.split)
  with drivers_initialization_same [OF xinit w] have m: "machines_same v t" by (rule same_trans)
  have "kstate v" by (rule boot_kstate [OF v(2)]) (use conf(1) v(4,7) in \<open>auto simp: sane_conf_def\<close>)
  then have k: "kstate t" by (rule machines_same_kstate [OF m])
  have vo: "vcpu_of t i (ps ! i)" if "i < NVMACHINES (conf s)" for i
    using v(2,3) that m unfolding boot_state_def vcpu_of_def machines_same_def by auto
  have d: "dom (vcpus t) = set ps" using v(2) m by (simp add: boot_state_def machines_same_def)
  have ws: "window_slot i t" if "conf_tlb_entries (conf s) \<le> i" "i < length (tlb s)" for i
    using boot_window [OF v(2), of i] that v(5,6) m by (simp add: window_slot_def machines_same_def)
  show thesis
    by (rule that [OF k v(3) _ vo d ws]) (use v(4) m initializeMachines_usb [OF v(1)] c(3) in \<open>simp_all add: machines_same_def\<close>)
qed

end
