(* ===== verification/LinkedList.thy ===== *)
theory LinkedList
  imports KRMalloc
begin

text \<open>
  The linked lists of \<open>sys/lib/linkedlist.c\<close>. A node is an eight byte block of the heap
  whose fields are \<open>node_elem\<close> and \<open>node_next\<close>; \<open>NULL\<close> is \<open>None\<close>. The walks along
  the chain are partial functions.
\<close>

record ll_state =
  ll_heap :: mheap
  node_elem :: "nat \<Rightarrow> nat"
  node_next :: "nat \<Rightarrow> nat option"

partial_function (option) list_last :: "nat \<Rightarrow> ll_state \<Rightarrow> nat option" where
  "list_last t2 s = (case node_next s t2 of None \<Rightarrow> Some t2 | Some n \<Rightarrow> list_last n s)"

definition list_append :: "nat option \<Rightarrow> nat \<Rightarrow> ll_state \<Rightarrow> (int \<times> nat option \<times> ll_state) option" where
  "list_append lst item s =
     do { (t, h) \<leftarrow> malloc 8 (ll_heap s);
          case t of
            None \<Rightarrow> Some (- 1, lst, s\<lparr>ll_heap := h\<rparr>)
          | Some t1 \<Rightarrow>
              do { let s1 = s\<lparr>ll_heap := h, node_elem := (node_elem s)(t1 := item),
                             node_next := (node_next s)(t1 := None)\<rparr>;
                   case lst of
                     None \<Rightarrow> Some (0, Some t1, s1)
                   | Some l \<Rightarrow>
                       do { t2 \<leftarrow> list_last l s1;
                            Some (0, lst, s1\<lparr>node_next := (node_next s1)(t2 := Some t1)\<rparr>) } } }"

partial_function (option) list_remove_all :: "nat option \<Rightarrow> ll_state \<Rightarrow> (int \<times> ll_state) option" where
  "list_remove_all lst s =
     (case lst of
        None \<Rightarrow> Some (0, s)
      | Some aux \<Rightarrow>
          do { h1 \<leftarrow> free (node_elem s aux) (ll_heap s);
               h2 \<leftarrow> free aux h1;
               list_remove_all (node_next s aux) (s\<lparr>ll_heap := h2\<rparr>) })"

partial_function (option) list_count_loop :: "nat \<Rightarrow> int \<Rightarrow> ll_state \<Rightarrow> int option" where
  "list_count_loop t1 i s =
     (case node_next s t1 of
        None \<Rightarrow> Some i
      | Some n \<Rightarrow> do { i1 \<leftarrow> iadd i 1; list_count_loop n i1 s })"

definition list_count :: "nat option \<Rightarrow> ll_state \<Rightarrow> int option" where
  "list_count lst s = (case lst of None \<Rightarrow> None | Some t1 \<Rightarrow> list_count_loop t1 0 s)"

subsection \<open>Chains of nodes\<close>

fun lchain :: "ll_state \<Rightarrow> nat option \<Rightarrow> nat list \<Rightarrow> bool" where
  "lchain s l [] \<longleftrightarrow> l = None"
| "lchain s l (p # ps) \<longleftrightarrow> l = Some p \<and> lchain s (node_next s p) ps"

lemma lchain_cong:
  "(\<And>p. p \<in> set ps \<Longrightarrow> node_next t p = node_next s p) \<Longrightarrow> lchain t l ps = lchain s l ps"
  by (induction ps arbitrary: l) auto

lemma list_last_chain:
  "lchain s (Some l) ps \<Longrightarrow> list_last l s = Some (last ps)"
proof (induction ps arbitrary: l)
  case Nil
  then show ?case by simp
next
  case (Cons p ps)
  show ?case
  proof (cases ps)
    case Nil
    then show ?thesis using Cons.prems by (simp add: list_last.simps [of p])
  next
    case (Cons q qs)
    then show ?thesis using Cons.IH [of q] Cons.prems by (simp add: list_last.simps [of p])
  qed
qed

lemma lchain_snoc:
  "lchain s l ps \<Longrightarrow> ps \<noteq> [] \<Longrightarrow> distinct ps \<Longrightarrow> t \<notin> set ps \<Longrightarrow> node_next s t = None \<Longrightarrow>
     lchain (s\<lparr>node_next := (node_next s)(last ps := Some t)\<rparr>) l (ps @ [t])"
proof (induction ps arbitrary: l)
  case Nil
  then show ?case by simp
next
  case (Cons p ps)
  show ?case
  proof (cases "ps = []")
    case True
    then show ?thesis using Cons.prems by auto
  next
    case False
    then have "p \<noteq> last ps" using Cons.prems by auto
    then show ?thesis using Cons.IH [of "node_next s p"] Cons.prems False by simp
  qed
qed

lemma list_append_chain:
  assumes chain: "lchain s l ps" "distinct ps"
    and mal: "malloc 8 (ll_heap s) = Some (Some t, h)" and fresh: "t \<notin> set ps"
  obtains l' s' where "list_append l item s = Some (0, l', s')" "lchain s' l' (ps @ [t])"
    "node_elem s' = (node_elem s)(t := item)" "ll_heap s' = h"
proof -
  let ?s1 = "s\<lparr>ll_heap := h, node_elem := (node_elem s)(t := item), node_next := (node_next s)(t := None)\<rparr>"
  have chain1: "lchain ?s1 l ps" using chain(1) fresh by (subst lchain_cong [where s = s]) auto
  show thesis
  proof (cases l)
    case None
    then have "ps = []" using chain(1) by (cases ps) auto
    then show ?thesis using that [of "Some t" ?s1] None mal
      by (simp add: list_append_def Let_def)
  next
    case (Some p)
    then have ne: "ps \<noteq> []" using chain(1) by auto
    have "list_last p ?s1 = Some (last ps)" using chain1 Some by (intro list_last_chain) simp
    moreover have "lchain (?s1\<lparr>node_next := (node_next ?s1)(last ps := Some t)\<rparr>) l (ps @ [t])"
      using lchain_snoc [OF chain1 ne chain(2) fresh] by simp
    ultimately show ?thesis
      using that [of l "?s1\<lparr>node_next := (node_next ?s1)(last ps := Some t)\<rparr>"] Some mal
      by (simp add: list_append_def Let_def)
  qed
qed

lemma list_append_no_memory:
  "malloc 8 (ll_heap s) = Some (None, h) \<Longrightarrow> list_append l item s = Some (- 1, l, s\<lparr>ll_heap := h\<rparr>)"
  by (simp add: list_append_def)

text \<open>The count starts at the successor of the first node, so the first node is left out.\<close>

lemma list_count_loop_chain:
  "lchain s (Some t) ps \<Longrightarrow> 0 \<le> i \<Longrightarrow> i + int (length ps) < 2 ^ 31 \<Longrightarrow>
     list_count_loop t i s = Some (i + int (length ps) - 1)"
proof (induction ps arbitrary: t i)
  case Nil
  then show ?case by simp
next
  case (Cons p ps)
  show ?case
  proof (cases ps)
    case Nil
    then show ?thesis using Cons.prems by (simp add: list_count_loop.simps [of p])
  next
    case (Cons q qs)
    then have "iadd i 1 = Some (i + 1)" using Cons.prems by (simp add: iadd_def in_s32_def)
    then show ?thesis using Cons.IH [of q "i + 1"] Cons.prems Cons
      by (simp add: list_count_loop.simps [of p])
  qed
qed

lemma list_count_chain:
  "lchain s l ps \<Longrightarrow> length ps < 2 ^ 31 \<Longrightarrow>
     list_count l s = (if ps = [] then None else Some (int (length ps) - 1))"
proof (cases ps)
  case (Cons a qs)
  assume "lchain s l ps" "length ps < 2 ^ 31"
  then show ?thesis using Cons list_count_loop_chain [of s a "a # qs" 0]
    by (simp add: list_count_def)
qed (simp add: list_count_def)

end
