(* ===== verification/GuestStr.thy ===== *)
theory GuestStr
  imports Libc
begin

text \<open>
  The string and memory routines of the bare-metal guests, \<open>bare-metal-apps/lib/libc.c\<close>, on the byte
  memory of Libc. A name that the kernel's library has too ends in \<open>_guest\<close>. \<open>char\<close> is signed
  (\<open>sc\<close>). A null pointer is \<open>None\<close> in the result, \<open>Some (...)\<close> around it means that the routine returns.
\<close>

definition sc :: "u8 \<Rightarrow> int" where
  "sc c = sint c"

subsection \<open>Copying and concatenation\<close>

partial_function (option) strcpy_guest_loop :: "bmem \<Rightarrow> nat \<Rightarrow> nat \<Rightarrow> bmem option" where
  "strcpy_guest_loop m dst src =
     (let c = m src; m' = m(dst := c) in
      if c \<noteq> 0 then strcpy_guest_loop m' (Suc dst) (Suc src) else Some m')"

definition strcpy_guest :: "bmem \<Rightarrow> nat \<Rightarrow> nat \<Rightarrow> bmem option" where
  "strcpy_guest m dst src = strcpy_guest_loop m dst src"

text \<open>The first argument is \<open>n - i\<close>, the rounds left.\<close>

fun strncpy_loop :: "nat \<Rightarrow> bmem \<Rightarrow> nat \<Rightarrow> nat \<Rightarrow> bmem" where
  "strncpy_loop 0 m s1 s2 = m"
| "strncpy_loop (Suc k) m s1 s2 =
     (let c = m s2; m' = m(s1 := c) in
      if c = 0 then fill_bytes m' (Suc s1) 0 k else strncpy_loop k m' (Suc s1) (Suc s2))"

definition strncpy :: "bmem \<Rightarrow> nat \<Rightarrow> nat \<Rightarrow> int \<Rightarrow> bmem" where
  "strncpy m s1 s2 n = strncpy_loop (nat n) m s1 s2"

partial_function (option) str_end :: "bmem \<Rightarrow> nat \<Rightarrow> nat option" where
  "str_end m s = (if m s \<noteq> 0 then str_end m (Suc s) else Some s)"

definition strcat :: "bmem \<Rightarrow> nat \<Rightarrow> nat \<Rightarrow> bmem option" where
  "strcat m dst src = do { e \<leftarrow> str_end m dst; strcpy_guest_loop m e src }"

partial_function (option) strncat_loop :: "bmem \<Rightarrow> nat \<Rightarrow> nat \<Rightarrow> int \<Rightarrow> bmem option" where
  "strncat_loop m s1 s2 n =
     (let c = m s2; m' = m(s1 := c) in
      if c = 0 then Some m'
      else do { n1 \<leftarrow> iadd n (- 1);
                if n1 < 0 then Some (m'(s1 := 0)) else strncat_loop m' (Suc s1) (Suc s2) n1 })"

definition strncat :: "bmem \<Rightarrow> nat \<Rightarrow> nat \<Rightarrow> int \<Rightarrow> bmem option" where
  "strncat m s1 s2 n = do { e \<leftarrow> str_end m s1; strncat_loop m e s2 n }"

subsection \<open>Comparison and length\<close>

partial_function (option) strcmp_guest :: "bmem \<Rightarrow> nat \<Rightarrow> nat \<Rightarrow> int option" where
  "strcmp_guest m s1 s2 =
     (if m s1 = m s2
      then (if m s1 = 0 then Some 0 else strcmp_guest m (Suc s1) (Suc s2))
      else Some (sc (m s1) - sc (m s2)))"

fun strncmp_loop :: "nat \<Rightarrow> bmem \<Rightarrow> nat \<Rightarrow> nat \<Rightarrow> int" where
  "strncmp_loop 0 m s1 s2 = 0"
| "strncmp_loop (Suc k) m s1 s2 =
     (if m s1 = m s2
      then (if m s1 = 0 then 0 else strncmp_loop k m (Suc s1) (Suc s2))
      else sc (m s1) - sc (m s2))"

text \<open>\<open>--n\<close> overflows for the least integer; a count that is not positive compares nothing.\<close>

definition strncmp :: "bmem \<Rightarrow> nat \<Rightarrow> nat \<Rightarrow> int \<Rightarrow> int option" where
  "strncmp m s1 s2 n = do { ensure (n \<noteq> - (2 ^ 31)); Some (strncmp_loop (nat n) m s1 s2) }"

partial_function (option) strlen_guest_loop :: "bmem \<Rightarrow> nat \<Rightarrow> nat \<Rightarrow> nat option" where
  "strlen_guest_loop m s n = (if m s \<noteq> 0 then strlen_guest_loop m (Suc s) (n + 1) else Some n)"

definition strlen_guest :: "bmem \<Rightarrow> nat \<Rightarrow> nat option" where
  "strlen_guest m s = strlen_guest_loop m s 0"

subsection \<open>Searching\<close>

partial_function (option) strstr_match :: "bmem \<Rightarrow> nat \<Rightarrow> nat \<Rightarrow> nat \<Rightarrow> nat option" where
  "strstr_match m str fnd i =
     (if m (str + i) = m (fnd + i) \<and> m (fnd + i) \<noteq> 0 then strstr_match m str fnd (Suc i) else Some i)"

partial_function (option) strstr :: "bmem \<Rightarrow> nat \<Rightarrow> nat \<Rightarrow> nat option option" where
  "strstr m str fnd =
     do { i \<leftarrow> strstr_match m str fnd 0;
          if m (fnd + i) = 0 then Some (Some str)
          else if m str = 0 then Some None
          else strstr m (Suc str) fnd }"

partial_function (option) strchr :: "bmem \<Rightarrow> nat \<Rightarrow> u8 \<Rightarrow> nat option option" where
  "strchr m s c =
     (if m s \<noteq> c then (if m s = 0 then Some None else strchr m (Suc s) c) else Some (Some s))"

partial_function (option) strpbrk :: "bmem \<Rightarrow> nat \<Rightarrow> nat \<Rightarrow> nat option option" where
  "strpbrk m str cset =
     (if m str = 0 then Some None
      else do { r \<leftarrow> strchr m cset (m str);
                case r of None \<Rightarrow> strpbrk m (Suc str) cset | Some _ \<Rightarrow> Some (Some str) })"

subsection \<open>Tokens\<close>

text \<open>The pointer \<open>*pp\<close> is passed and returned as a value: the token, the new \<open>*pp\<close>, the memory.\<close>

definition strsep :: "bmem \<Rightarrow> nat option \<Rightarrow> nat \<Rightarrow> (nat option \<times> nat option \<times> bmem) option" where
  "strsep m pp delim =
     (case pp of
        None \<Rightarrow> Some (None, None, m)
      | Some p \<Rightarrow>
          do { r \<leftarrow> strpbrk m p delim;
               case r of
                 Some q \<Rightarrow> Some (Some p, Some (q + 1), m(q := 0))
               | None \<Rightarrow> Some (Some p, None, m) })"

partial_function (option) span_has :: "bmem \<Rightarrow> nat \<Rightarrow> u8 \<Rightarrow> bool option" where
  "span_has m spanp c = (if m spanp = 0 then Some False else if c = m spanp then Some True else span_has m (Suc spanp) c)"

partial_function (option) strtok_skip :: "bmem \<Rightarrow> nat \<Rightarrow> nat \<Rightarrow> nat option" where
  "strtok_skip m s delim =
     do { b \<leftarrow> span_has m delim (m s); if b then strtok_skip m (Suc s) delim else Some s }"

text \<open>The second loop compares with the delimiters and their terminating zero.\<close>

partial_function (option) span_has0 :: "bmem \<Rightarrow> nat \<Rightarrow> u8 \<Rightarrow> bool option" where
  "span_has0 m spanp c = (if m spanp = c then Some True else if m spanp \<noteq> 0 then span_has0 m (Suc spanp) c else Some False)"

partial_function (option) strtok_end :: "bmem \<Rightarrow> nat \<Rightarrow> nat \<Rightarrow> (nat option \<times> bmem) option" where
  "strtok_end m s delim =
     do { b \<leftarrow> span_has0 m delim (m s);
          if b then (if m s = 0 then Some (None, m) else Some (Some (Suc s), m(s := 0)))
          else strtok_end m (Suc s) delim }"

text \<open>\<open>last\<close> is the static variable; the result is the token, the new \<open>last\<close> and the memory.\<close>

definition strtok :: "bmem \<Rightarrow> nat option \<Rightarrow> nat \<Rightarrow> nat option \<Rightarrow> (nat option \<times> nat option \<times> bmem) option" where
  "strtok m s delim lst =
     (case (case s of None \<Rightarrow> lst | Some p \<Rightarrow> Some p) of
        None \<Rightarrow> Some (None, lst, m)
      | Some p \<Rightarrow>
          do { tok \<leftarrow> strtok_skip m p delim;
               if m tok = 0 then Some (None, None, m)
               else do { (lst1, m1) \<leftarrow> strtok_end m (Suc tok) delim; Some (Some tok, lst1, m1) } })"

subsection \<open>Memory\<close>

definition memcpy_guest :: "bmem \<Rightarrow> nat \<Rightarrow> nat \<Rightarrow> u32 \<Rightarrow> bmem" where
  "memcpy_guest m dst src n = copy_bytes m dst src (unat n)"

fun copy_down :: "bmem \<Rightarrow> nat \<Rightarrow> nat \<Rightarrow> nat \<Rightarrow> bmem" where
  "copy_down m d s 0 = m"
| "copy_down m d s (Suc n) = copy_down (m(d + n := m (s + n))) d s n"

definition memmove :: "bmem \<Rightarrow> nat \<Rightarrow> nat \<Rightarrow> u32 \<Rightarrow> bmem" where
  "memmove m dst src n =
     (if dst \<le> src then copy_bytes m dst src (unat n) else copy_down m dst src (unat n))"

fun memcmp_loop :: "nat \<Rightarrow> bmem \<Rightarrow> nat \<Rightarrow> nat \<Rightarrow> int" where
  "memcmp_loop 0 m r1 r2 = 0"
| "memcmp_loop (Suc n) m r1 r2 =
     (if m r1 = m r2 then memcmp_loop n m (Suc r1) (Suc r2) else if sc (m r1) < sc (m r2) then - 1 else 1)"

definition memcmp :: "bmem \<Rightarrow> nat \<Rightarrow> nat \<Rightarrow> u32 \<Rightarrow> int" where
  "memcmp m cs ct n = memcmp_loop (unat n) m cs ct"

definition memset_guest :: "bmem \<Rightarrow> nat \<Rightarrow> u32 \<Rightarrow> u32 \<Rightarrow> bmem" where
  "memset_guest m s c n = fill_bytes m s (ucast c) (unat n)"

text \<open>\<open>strdup\<close> allocates with the guest's \<open>malloc\<close>, whose answer is the argument \<open>aux\<close>; null is written through.\<close>

definition strdup :: "bmem \<Rightarrow> nat \<Rightarrow> nat option \<Rightarrow> bmem option" where
  "strdup m s aux =
     do { n \<leftarrow> strlen_guest m s; a \<leftarrow> aux; Some (memcpy_guest m a s (of_nat n + 1)) }"

subsection \<open>Copying is concatenation of strings\<close>

lemma str_end_cstr: "cstr m p bs \<Longrightarrow> str_end m p = Some (p + length bs)"
  by (induction bs arbitrary: p) (simp_all add: str_end.simps)

lemma strlen_guest_loop_cstr: "cstr m p bs \<Longrightarrow> strlen_guest_loop m p n = Some (n + length bs)"
  by (induction bs arbitrary: p n) (simp_all add: strlen_guest_loop.simps)

lemma strlen_guest_cstr: "cstr m p bs \<Longrightarrow> strlen_guest m p = Some (length bs)"
  by (simp add: strlen_guest_def strlen_guest_loop_cstr)

lemma strcpy_guest_strcpy:
  "cstr m src bs \<Longrightarrow> dest \<le> src \<or> src + length bs < dest \<Longrightarrow>
     strcpy_guest_loop m dest src = strcpy_loop m dest src"
proof (induction bs arbitrary: m dest src)
  case Nil
  then show ?case by (simp add: strcpy_loop.simps [of m dest src] strcpy_guest_loop.simps [of m dest src] Let_def)
next
  case (Cons b bs)
  have "cstr (m(dest := m src)) (Suc src) bs"
    using Cons.prems by (cases "dest \<le> src") (auto simp: cstr_upd_below cstr_upd_above)
  moreover have "Suc dest \<le> Suc src \<or> Suc src + length bs < Suc dest" using Cons.prems(2) by auto
  ultimately have "strcpy_guest_loop (m(dest := m src)) (Suc dest) (Suc src) =
      strcpy_loop (m(dest := m src)) (Suc dest) (Suc src)" by (rule Cons.IH)
  then show ?case
    by (simp add: strcpy_loop.simps [of m dest src] strcpy_guest_loop.simps [of m dest src] Let_def)
qed

lemma strcpy_guest_ok:
  assumes "cstr m src bs" "dst \<le> src \<or> src + length bs < dst"
  shows "\<exists>m'. strcpy_guest m dst src = Some m' \<and> cstr m' dst bs \<and> (\<forall>q. q < dst \<or> dst + length bs < q \<longrightarrow> m' q = m q)"
  using strcpy_loop_cstr [OF assms] strcpy_guest_strcpy [OF assms] by (simp add: strcpy_guest_def)

lemma cstr_iff_nth:
  "cstr m p bs \<longleftrightarrow> (\<forall>i<length bs. m (p + i) = bs ! i \<and> bs ! i \<noteq> 0) \<and> m (p + length bs) = 0"
proof (induction bs arbitrary: p)
  case (Cons b bs)
  then show ?case by (auto simp: less_Suc_eq_0_disj)
qed simp

lemma cstr_append: "cstr m p (xs @ ys) \<longleftrightarrow> (\<forall>i<length xs. m (p + i) = xs ! i \<and> xs ! i \<noteq> 0) \<and> cstr m (p + length xs) ys"
proof (induction xs arbitrary: p)
  case (Cons x xs)
  then show ?case by (auto simp: less_Suc_eq_0_disj)
qed simp

lemma cstr_nth: "cstr m p bs \<Longrightarrow> i < length bs \<Longrightarrow> m (p + i) = bs ! i \<and> bs ! i \<noteq> 0"
  by (simp add: cstr_iff_nth)

lemma cstr_frame: "cstr m p bs \<Longrightarrow> (\<And>q. p \<le> q \<Longrightarrow> q \<le> p + length bs \<Longrightarrow> m' q = m q) \<Longrightarrow> cstr m' p bs"
  by (simp add: cstr_iff_nth)

lemma strcat_ok:
  assumes "cstr m dst xs" "cstr m src ys" "src + length ys < dst \<or> dst + length xs \<le> src"
  shows "\<exists>m'. strcat m dst src = Some m' \<and> cstr m' dst (xs @ ys) \<and>
    (\<forall>q. q < dst \<or> dst + length xs + length ys < q \<longrightarrow> m' q = m q)"
proof -
  have "dst + length xs \<le> src \<or> src + length ys < dst + length xs" using assms(3) by auto
  from strcpy_guest_ok [OF assms(2) this] obtain m' where
    m': "strcpy_guest m (dst + length xs) src = Some m'" "cstr m' (dst + length xs) ys"
      "\<forall>q. q < dst + length xs \<or> dst + length xs + length ys < q \<longrightarrow> m' q = m q" by blast
  have "cstr m' dst (xs @ ys)" using m' cstr_nth [OF assms(1)] by (simp add: cstr_append)
  then show ?thesis using m' by (simp add: strcat_def str_end_cstr [OF assms(1)] strcpy_guest_def)
qed

text \<open>\<open>strncpy\<close> fills exactly \<open>n\<close> bytes: the string cut at \<open>n\<close>, then zeros; it need not end in one.\<close>

lemma strncpy_loop_ok:
  "cstr m s2 bs \<Longrightarrow> s1 + k \<le> s2 \<or> s2 + length bs < s1 \<Longrightarrow>
     strncpy_loop k m s1 s2 q =
       (if s1 \<le> q \<and> q < s1 + k then (if q - s1 < length bs then bs ! (q - s1) else 0) else m q)"
proof (induction k arbitrary: m s1 s2 bs)
  case (Suc k)
  show ?case
  proof (cases bs)
    case Nil
    then show ?thesis using Suc.prems(1) by (auto simp: Let_def fill_bytes_apply)
  next
    case (Cons b cs)
    have c: "cstr (m(s1 := b)) (Suc s2) cs"
      using Suc.prems Cons by (cases "s1 < Suc s2") (auto simp: cstr_upd_below cstr_upd_above)
    have "Suc s1 + k \<le> Suc s2 \<or> Suc s2 + length cs < Suc s1" using Suc.prems(2) Cons by auto
    note IH = Suc.IH [OF c this]
    have "q - s1 = Suc (q - Suc s1)" if "Suc s1 \<le> q" using that by simp
    then show ?thesis using Suc.prems(1) Cons by (auto simp: Let_def IH)
  qed
qed auto

lemma strncpy_ok:
  "cstr m s2 bs \<Longrightarrow> s1 + nat n \<le> s2 \<or> s2 + length bs < s1 \<Longrightarrow>
     strncpy m s1 s2 n q =
       (if s1 \<le> q \<and> q < s1 + nat n then (if q - s1 < length bs then bs ! (q - s1) else 0) else m q)"
  by (simp add: strncpy_def strncpy_loop_ok)

text \<open>\<open>strncat\<close> appends at most \<open>n\<close> bytes and always a terminating zero.\<close>

lemma strncat_loop_ok:
  "cstr m s2 bs \<Longrightarrow> s1 + length bs < s2 \<or> s2 + length bs < s1 \<Longrightarrow> int n < 2 ^ 31 \<Longrightarrow>
     \<exists>m'. strncat_loop m s1 s2 (int n) = Some m' \<and> cstr m' s1 (take n bs) \<and> (\<forall>q. q < s1 \<longrightarrow> m' q = m q)"
proof (induction bs arbitrary: m s1 s2 n)
  case Nil
  then show ?case by (simp add: strncat_loop.simps [of m s1 s2] Let_def)
next
  case (Cons b bs)
  have b: "m s2 = b" "b \<noteq> 0" using Cons.prems(1) by auto
  have i: "iadd (int n) (- 1) = Some (int n - 1)"
    using iadd_Some [of "int n" "- 1"] Cons.prems(3) by (simp add: in_s32_def)
  show ?case
  proof (cases n)
    case 0
    then show ?thesis using b i by (simp add: strncat_loop.simps [of m s1 s2] Let_def)
  next
    case (Suc k)
    have c: "cstr (m(s1 := b)) (Suc s2) bs"
      using Cons.prems by (cases "s1 < Suc s2") (auto simp: cstr_upd_below cstr_upd_above)
    have "Suc s1 + length bs < Suc s2 \<or> Suc s2 + length bs < Suc s1" using Cons.prems(2) by auto
    from Cons.IH [OF c this, of k] Cons.prems(3) Suc obtain m' where
      m': "strncat_loop (m(s1 := b)) (Suc s1) (Suc s2) (int k) = Some m'" "cstr m' (Suc s1) (take k bs)"
        "\<forall>q. q < Suc s1 \<longrightarrow> m' q = (m(s1 := b)) q" by (auto simp del: fun_upd_apply)
    have "strncat_loop m s1 s2 (int n) = Some m'"
      using m'(1) i b Suc by (simp add: strncat_loop.simps [of m s1 s2] Let_def)
    then show ?thesis using m'(2,3) b Suc by (intro exI [of _ m']) simp
  qed
qed

subsection \<open>Order of strings and of memory\<close>

text \<open>Both comparisons order bytes as signed characters.\<close>

fun slex :: "u8 list \<Rightarrow> u8 list \<Rightarrow> bool" where
  "slex [] ys = (ys \<noteq> [] \<and> 0 < sc (hd ys))"
| "slex (x # xs) [] = (sc x < 0)"
| "slex (x # xs) (y # ys) = (if x = y then slex xs ys else sc x < sc y)"

lemma sc_inj [simp]: "sc x = sc y \<longleftrightarrow> x = y"
  by (auto simp: sc_def intro: signed_word_eqI)

lemma sc_0 [simp]: "sc 0 = 0"
  by (simp add: sc_def)

lemma strcmp_guest_cstr:
  "cstr m s1 xs \<Longrightarrow> cstr m s2 ys \<Longrightarrow>
     \<exists>r. strcmp_guest m s1 s2 = Some r \<and> (r = 0 \<longleftrightarrow> xs = ys) \<and> (r < 0 \<longleftrightarrow> slex xs ys)"
proof (induction xs arbitrary: s1 s2 ys)
  case Nil
  then show ?case by (cases ys) (auto simp: strcmp_guest.simps [of m s1 s2] sc_inj [of 0, simplified])
next
  case (Cons x xs)
  show ?case
  proof (cases ys)
    case Nil
    then show ?thesis using Cons.prems
      by (auto simp: strcmp_guest.simps [of m s1 s2] sc_inj [of _ 0, simplified])
  next
    case (Cons y zs)
    then show ?thesis using Cons.IH [of "Suc s1" "Suc s2" zs] Cons.prems
      by (cases "x = y") (auto simp: strcmp_guest.simps [of m s1 s2])
  qed
qed

lemma strncmp_loop_take:
  "cstr m s1 xs \<Longrightarrow> cstr m s2 ys \<Longrightarrow> strncmp_loop k m s1 s2 = 0 \<longleftrightarrow> take k xs = take k ys"
proof (induction k arbitrary: s1 s2 xs ys)
  case (Suc k)
  then show ?case by (cases xs; cases ys) (auto simp: sc_inj [of 0, simplified] sc_inj [of _ 0, simplified])
qed simp

lemma memcmp_loop_eq_0:
  "memcmp_loop n m r1 r2 = 0 \<longleftrightarrow> (\<forall>i<n. m (r1 + i) = m (r2 + i))"
  by (induction n arbitrary: r1 r2) (auto simp: less_Suc_eq_0_disj)

lemma memcmp_eq_0: "memcmp m cs ct n = 0 \<longleftrightarrow> (\<forall>i<unat n. m (cs + i) = m (ct + i))"
  by (simp add: memcmp_def memcmp_loop_eq_0)

subsection \<open>Searching\<close>

lemma strchr_cstr:
  "cstr m s bs \<Longrightarrow> c \<noteq> 0 \<Longrightarrow>
     strchr m s c = Some (if c \<in> set bs then Some (s + length (takeWhile (\<lambda>b. b \<noteq> c) bs)) else None)"
proof (induction bs arbitrary: s)
  case Nil
  then show ?case by (simp add: strchr.simps [of m s])
next
  case (Cons b bs)
  then show ?case by (cases "b = c") (auto simp: strchr.simps [of m s])
qed

text \<open>The end of a string is found too.\<close>

lemma strchr_0: "cstr m s bs \<Longrightarrow> strchr m s 0 = Some (Some (s + length bs))"
proof (induction bs arbitrary: s)
  case Nil
  then show ?case by (simp add: strchr.simps [of m s])
next
  case (Cons b bs)
  then show ?case by (simp add: strchr.simps [of m s])
qed

lemma strpbrk_cstr:
  "cstr m s bs \<Longrightarrow> cstr m d ds \<Longrightarrow>
     strpbrk m s d = Some (if \<exists>b\<in>set bs. b \<in> set ds
       then Some (s + length (takeWhile (\<lambda>b. b \<notin> set ds) bs)) else None)"
proof (induction bs arbitrary: s)
  case Nil
  then show ?case by (simp add: strpbrk.simps [of m s])
next
  case (Cons b bs)
  then show ?case by (cases "b \<in> set ds") (auto simp: strpbrk.simps [of m s] strchr_cstr)
qed

lemma strstr_match_cstr:
  "cstr m (p + i) xs \<Longrightarrow> cstr m (f + i) ys \<Longrightarrow>
     \<exists>j. strstr_match m p f i = Some j \<and> (m (f + j) = 0 \<longleftrightarrow> take (length ys) xs = ys)"
proof (induction ys arbitrary: i xs)
  case Nil
  then show ?case by (simp add: strstr_match.simps [of m p f i])
next
  case (Cons y ys)
  show ?case
  proof (cases xs)
    case Nil
    then show ?thesis using Cons.prems by (auto simp: strstr_match.simps [of m p f i])
  next
    case xs: (Cons x zs)
    have "\<exists>j. strstr_match m p f (Suc i) = Some j \<and> (m (f + j) = 0 \<longleftrightarrow> take (length ys) zs = ys)"
      using Cons.IH [of "Suc i" zs] Cons.prems xs by simp
    then show ?thesis using Cons.prems xs
      by (cases "x = y") (auto simp: strstr_match.simps [of m p f i])
  qed
qed

text \<open>The first position at which a text occurs.\<close>

fun find_first :: "'a list \<Rightarrow> 'a list \<Rightarrow> nat option" where
  "find_first ys [] = (if ys = [] then Some 0 else None)"
| "find_first ys (x # xs) =
     (if take (length ys) (x # xs) = ys then Some 0 else map_option Suc (find_first ys xs))"

lemma find_first_Some:
  "find_first ys xs = Some i \<longleftrightarrow>
     i \<le> length xs \<and> take (length ys) (drop i xs) = ys \<and> (\<forall>j<i. take (length ys) (drop j xs) \<noteq> ys)"
proof (induction xs arbitrary: i)
  case (Cons x xs)
  then show ?case by (cases i) (auto simp: less_Suc_eq_0_disj)
qed auto

lemma find_first_None:
  "find_first ys xs = None \<longleftrightarrow> (\<forall>i. take (length ys) (drop i xs) \<noteq> ys)"
proof (induction xs)
  case (Cons x xs)
  have "(\<forall>i. take (length ys) (drop i (x # xs)) \<noteq> ys) \<longleftrightarrow>
      take (length ys) (x # xs) \<noteq> ys \<and> (\<forall>i. take (length ys) (drop i xs) \<noteq> ys)"
    by (metis drop0 drop_Suc_Cons not0_implies_Suc)
  with Cons show ?case by auto
qed auto

lemma strstr_cstr:
  "cstr m p xs \<Longrightarrow> cstr m f ys \<Longrightarrow> strstr m p f = Some (map_option (\<lambda>i. p + i) (find_first ys xs))"
proof (induction xs arbitrary: p)
  case Nil
  then show ?case using strstr_match_cstr [of m p 0 "[]" f ys] by (auto simp: strstr.simps [of m p])
next
  case (Cons x xs)
  have "strstr m (Suc p) f = Some (map_option (\<lambda>i. Suc p + i) (find_first ys xs))"
    using Cons by (simp del: add_Suc)
  moreover have "(+) (Suc p) = (\<lambda>i. Suc (p + i))" by auto
  ultimately show ?case using strstr_match_cstr [of m p 0 "x # xs" f ys] Cons.prems
    by (auto simp: strstr.simps [of m p] option.map_comp comp_def)
qed

subsection \<open>Tokens\<close>

text \<open>The specification: the maximal runs of bytes that are no delimiters, in order.\<close>

function tokens :: "'a set \<Rightarrow> 'a list \<Rightarrow> 'a list list" where
  "tokens D bs =
     (let r = dropWhile (\<lambda>b. b \<in> D) bs in
      if r = [] then [] else takeWhile (\<lambda>b. b \<notin> D) r # tokens D (dropWhile (\<lambda>b. b \<notin> D) r))"
  by pat_completeness auto
termination
proof (relation "measure (\<lambda>(D, bs). length bs)", goal_cases)
  case (2 D bs x)
  then have "x \<noteq> []" "hd x \<notin> D" using hd_dropWhile [of "\<lambda>b. b \<in> D" bs] by auto
  then have "length (dropWhile (\<lambda>b. b \<notin> D) x) < length x"
    by (cases x) (auto simp: le_imp_less_Suc length_dropWhile_le)
  moreover have "length x \<le> length bs" using 2 by (simp add: length_dropWhile_le)
  ultimately show ?case by simp
qed simp

declare tokens.simps [simp del]

lemma tokens_delim: "b \<in> D \<Longrightarrow> tokens D (b # bs) = tokens D bs"
  by (simp add: tokens.simps [of D "b # bs"] tokens.simps [of D bs])

lemma span_has_cstr: "cstr m d ds \<Longrightarrow> span_has m d c = Some (c \<in> set ds)"
  by (induction ds arbitrary: d) (auto simp: span_has.simps)

lemma span_has0_cstr: "cstr m d ds \<Longrightarrow> span_has0 m d c = Some (c = 0 \<or> c \<in> set ds)"
  by (induction ds arbitrary: d) (auto simp: span_has0.simps)

lemma cstr_no_0: "cstr m p bs \<Longrightarrow> 0 \<notin> set bs"
  by (induction bs arbitrary: p) auto

lemma strtok_skip_cstr:
  "cstr m p bs \<Longrightarrow> cstr m d ds \<Longrightarrow>
     strtok_skip m p d = Some (p + length (takeWhile (\<lambda>b. b \<in> set ds) bs))"
proof (induction bs arbitrary: p)
  case Nil
  then show ?case using cstr_no_0 by (auto simp: strtok_skip.simps [of m p] span_has_cstr)
next
  case (Cons b bs)
  then show ?case by (auto simp: strtok_skip.simps [of m p] span_has_cstr)
qed

lemma strtok_end_cstr:
  "cstr m p bs \<Longrightarrow> cstr m d ds \<Longrightarrow>
     strtok_end m p d = Some (let e = p + length (takeWhile (\<lambda>b. b \<notin> set ds) bs) in
       if dropWhile (\<lambda>b. b \<notin> set ds) bs = [] then (None, m) else (Some (Suc e), m(e := 0)))"
proof (induction bs arbitrary: p)
  case Nil
  then show ?case by (simp add: strtok_end.simps [of m p] span_has0_cstr)
next
  case (Cons b bs)
  then show ?case by (auto simp: strtok_end.simps [of m p] span_has0_cstr Let_def)
qed

lemma cstr_drop: "cstr m p (xs @ ys) \<Longrightarrow> cstr m (p + length xs) ys"
  by (simp add: cstr_append)

lemma cstr_cut: "cstr m p (xs @ y # ys) \<Longrightarrow> cstr (m(p + length xs := 0)) p xs"
  by (simp only: cstr_append) (simp add: cstr_iff_nth)

text \<open>One call: the token found, and the string that the next call starts from.\<close>

lemma strtok_cstr:
  assumes s: "cstr m p bs" and d: "cstr m d ds" and t: "(case s of None \<Rightarrow> lst | Some p \<Rightarrow> Some p) = Some p"
    and dis: "d + length ds < p \<or> p + length bs < d"
  shows "tokens (set ds) bs = [] \<and> strtok m s d lst = Some (None, None, m) \<or>
    (\<exists>w ws a m' lst'. tokens (set ds) bs = w # ws \<and> strtok m s d lst = Some (Some a, lst', m') \<and> cstr m' a w \<and>
       p \<le> a \<and> (\<forall>q. q < p \<or> p + length bs < q \<longrightarrow> m' q = m q) \<and>
       (case lst' of None \<Rightarrow> ws = []
        | Some p' \<Rightarrow> a + length w < p' \<and>
            (\<exists>bs'. cstr m' p' bs' \<and> tokens (set ds) bs' = ws \<and> p' + length bs' = p + length bs)))"
proof -
  let ?D = "set ds"
  let ?sk = "takeWhile (\<lambda>b. b \<in> ?D) bs" and ?r = "dropWhile (\<lambda>b. b \<in> ?D) bs"
  let ?a = "p + length ?sk"
  have r: "cstr m ?a ?r" using s by (intro cstr_drop) simp
  have skip: "strtok_skip m p d = Some ?a" by (rule strtok_skip_cstr [OF s d])
  show ?thesis
  proof (cases ?r)
    case Nil
    have "m ?a = 0" using r unfolding Nil by simp
    then have "strtok m s d lst = Some (None, None, m)" by (simp add: strtok_def t skip)
    moreover have "tokens ?D bs = []" using Nil by (simp add: tokens.simps [of ?D bs])
    ultimately show ?thesis by blast
  next
    case (Cons x xs)
    have x: "x \<notin> ?D" using hd_dropWhile [of "\<lambda>b. b \<in> ?D" bs] Cons by simp
    let ?w = "takeWhile (\<lambda>b. b \<notin> ?D) xs" and ?ys = "dropWhile (\<lambda>b. b \<notin> ?D) xs"
    let ?e = "Suc ?a + length ?w"
    have "length bs = length ?sk + length ?r" by (metis length_append takeWhile_dropWhile_id)
    moreover have "length xs = length ?w + length ?ys" by (metis length_append takeWhile_dropWhile_id)
    ultimately have len: "p + length bs = ?e + length ?ys" using Cons by simp
    have tk: "tokens ?D bs = (x # ?w) # tokens ?D ?ys" using Cons x by (simp add: tokens.simps [of ?D bs])
    have mx: "m ?a = x" "x \<noteq> 0" and xs: "cstr m (Suc ?a) xs" using r Cons by auto
    note fin = strtok_end_cstr [OF xs d]
    show ?thesis
    proof (cases ?ys)
      case Nil
      then have "strtok m s d lst = Some (Some ?a, None, m)"
        using mx by (simp add: strtok_def t skip fin)
      moreover have "cstr m ?a (x # ?w)" using Nil xs mx by (metis append_Nil2 cstr.simps(2) takeWhile_dropWhile_id)
      moreover have "tokens ?D ?ys = []" unfolding Nil by (simp add: tokens.simps)
      ultimately show ?thesis using tk by fastforce
    next
      case (Cons y zs)
      let ?m = "m(?e := 0)"
      have y: "y \<in> ?D" using hd_dropWhile [of "\<lambda>b. b \<notin> ?D" xs] Cons by simp
      have split: "xs = ?w @ y # zs" unfolding Cons [symmetric] by simp
      have cut: "cstr ?m (Suc ?a) ?w" by (rule cstr_cut [of m "Suc ?a" ?w y zs]) (use xs split in simp)
      have "strtok m s d lst = Some (Some ?a, Some (Suc ?e), ?m)"
        using mx Cons by (simp add: strtok_def t skip fin Let_def)
      moreover have "cstr ?m ?a (x # ?w)" using cut mx by simp
      moreover have "cstr m ?e (y # zs)" by (rule cstr_drop) (use xs split in simp)
      then have "cstr ?m (Suc ?e) zs" by (simp add: cstr_upd_below)
      moreover have "tokens ?D zs = tokens ?D ?ys" using y Cons by (simp add: tokens_delim)
      moreover have "Suc ?e + length zs = p + length bs" using len Cons by simp
      moreover have "p \<le> ?a" "?a + length (x # ?w) < Suc ?e" by simp_all
      moreover have "\<forall>q. q < p \<or> p + length bs < q \<longrightarrow> ?m q = m q" using len Cons by simp
      ultimately show ?thesis using tk
        by (intro disjI2 exI [of _ "x # ?w"] exI [of _ "tokens ?D ?ys"] exI [of _ ?a] exI [of _ ?m]
            exI [of _ "Some (Suc ?e)"]) auto
    qed
  qed
qed

text \<open>Calling it until it returns null: the first call has the string, the others the static pointer.\<close>

fun strtok_run :: "nat \<Rightarrow> bmem \<Rightarrow> nat option \<Rightarrow> nat \<Rightarrow> nat option \<Rightarrow> (nat list \<times> bmem) option" where
  "strtok_run k m s d lst =
     (case strtok m s d lst of
        Some (None, lst', m') \<Rightarrow> Some ([], m')
      | Some (Some a, lst', m') \<Rightarrow>
          (case k of 0 \<Rightarrow> None | Suc k' \<Rightarrow> map_option (\<lambda>(as, m2). (a # as, m2)) (strtok_run k' m' None d lst'))
      | None \<Rightarrow> None)"

declare strtok_run.simps [simp del]

lemma strtok_run_cstr:
  "cstr m p bs \<Longrightarrow> cstr m d ds \<Longrightarrow> (case s of None \<Rightarrow> lst | Some p \<Rightarrow> Some p) = Some p \<Longrightarrow>
   d + length ds < p \<or> p + length bs < d \<Longrightarrow> length (tokens (set ds) bs) \<le> k \<Longrightarrow>
   \<exists>as m'. strtok_run k m s d lst = Some (as, m') \<and> list_all2 (cstr m') as (tokens (set ds) bs) \<and>
     (\<forall>q. q < p \<or> p + length bs < q \<longrightarrow> m' q = m q)"
proof (induction k arbitrary: m p bs s lst)
  case 0
  then show ?case using strtok_cstr [OF "0.prems"(1-4)] by (auto simp: strtok_run.simps [of 0 m s])
next
  case (Suc k)
  let ?D = "set ds"
  consider "tokens ?D bs = []" "strtok m s d lst = Some (None, None, m)"
    | w ws a m' lst' where "tokens ?D bs = w # ws" "strtok m s d lst = Some (Some a, lst', m')" "cstr m' a w"
       "p \<le> a" "\<forall>q. q < p \<or> p + length bs < q \<longrightarrow> m' q = m q"
       "case lst' of None \<Rightarrow> ws = []
        | Some p' \<Rightarrow> a + length w < p' \<and>
            (\<exists>bs'. cstr m' p' bs' \<and> tokens ?D bs' = ws \<and> p' + length bs' = p + length bs)"
    using strtok_cstr [OF Suc.prems(1-4)] by blast
  then show ?case
  proof cases
    case 1
    then show ?thesis by (auto simp: strtok_run.simps [of "Suc k" m s])
  next
    case 2
    show ?thesis
    proof (cases lst')
      case None
      have "strtok_run k m' None d None = Some ([], m')" by (simp add: strtok_run.simps strtok_def)
      then show ?thesis using 2 None by (auto simp: strtok_run.simps [of "Suc k" m s])
    next
      case (Some p')
      then obtain bs' where b: "cstr m' p' bs'" "tokens ?D bs' = ws" "p' + length bs' = p + length bs" "a + length w < p'"
        using 2(6) by auto
      have "cstr m' d ds" using Suc.prems(2,4) 2(5) by (intro cstr_frame [of m d ds m']) auto
      moreover have "d + length ds < p' \<or> p' + length bs' < d" using Suc.prems(4) b 2(4) by auto
      ultimately obtain as m2 where m2: "strtok_run k m' None d lst' = Some (as, m2)"
        "list_all2 (cstr m2) as ws" "\<forall>q. q < p' \<or> p' + length bs' < q \<longrightarrow> m2 q = m' q"
        using Suc.IH [OF b(1), where s = None and lst = lst'] Suc.prems(5) 2(1) Some b(2) by auto
      have "cstr m2 a w" using 2(3) m2(3) b(4) by (intro cstr_frame [of m' a w m2]) auto
      moreover have "\<forall>q. q < p \<or> p + length bs < q \<longrightarrow> m2 q = m q" using 2(4,5) m2(3) b(3,4) by auto
      ultimately show ?thesis using 2 m2 by (auto simp: strtok_run.simps [of "Suc k" m s])
    qed
  qed
qed

subsection \<open>Overlapping copies\<close>

lemma copy_down_apply:
  "s < d \<Longrightarrow> copy_down m d s n q = (if d \<le> q \<and> q < d + n then m (s + (q - d)) else m q)"
proof (induction n arbitrary: m)
  case (Suc n)
  then show ?case by (auto simp: less_Suc_eq)
qed auto

text \<open>\<open>memmove\<close> moves the old bytes whatever the overlap.\<close>

lemma memmove_apply:
  "memmove m dst src n q = (if dst \<le> q \<and> q < dst + unat n then m (src + (q - dst)) else m q)"
  by (simp add: memmove_def copy_bytes_apply copy_safe_def copy_down_apply)

lemma memcpy_guest_apply:
  "copy_safe dst src (unat n) \<Longrightarrow>
     memcpy_guest m dst src n q = (if dst \<le> q \<and> q < dst + unat n then m (src + (q - dst)) else m q)"
  by (simp add: memcpy_guest_def copy_bytes_apply)

lemma memset_guest_apply:
  "memset_guest m s c n q = (if s \<le> q \<and> q < s + unat n then ucast c else m q)"
  by (simp add: memset_guest_def fill_bytes_apply)

text \<open>\<open>strdup\<close> copies the terminating zero with the string, and fails on an allocation that fails.\<close>

lemma strdup_ok:
  assumes "cstr m s bs" "length bs < 2 ^ 32 - 1" "copy_safe a s (length bs + 1)"
  shows "\<exists>m'. strdup m s (Some a) = Some m' \<and> cstr m' a bs" "strdup m s None = None"
proof -
  have "unat (of_nat (length bs) + 1 :: u32) = length bs + 1"
    using assms(2) by (simp add: unat_of_nat [where 'a = 32, of "Suc (length bs)", simplified] add.commute)
  then have "cstr (memcpy_guest m a s (of_nat (length bs) + 1)) a bs"
    using assms(1,3) by (simp add: cstr_iff_nth memcpy_guest_apply)
  then show "\<exists>m'. strdup m s (Some a) = Some m' \<and> cstr m' a bs" "strdup m s None = None"
    by (simp_all add: strdup_def strlen_guest_cstr [OF assms(1)])
qed

end
