(* ===== verification/SoftFloat.thy ===== *)
theory SoftFloat
  imports Prelude
begin

text \<open>
  Single precision arithmetic in software for the bare-metal guests,
  \<open>bare-metal-apps/lib/libc.c\<close>. A \<open>float\<close> is its 32-bit pattern. Mantissas and exponents are the
  signed integers of the code; every product or negation that could leave 32 bits is checked
  (\<open>None\<close>), the remaining ones are in range by the size of the fields.
\<close>

subsection \<open>Fields\<close>

definition SIGNBIT :: u32 where "SIGNBIT = 0x80000000"

definition HIDDEN :: u32 where "HIDDEN = 0x800000"

definition SIGN :: "u32 \<Rightarrow> u32" where
  "SIGN fp = fp AND SIGNBIT"

definition EXP :: "u32 \<Rightarrow> int" where
  "EXP fp = uint (drop_bit 23 fp AND 0xFF)"

definition MANT :: "u32 \<Rightarrow> u32" where
  "MANT fp = (fp AND 0x7FFFFF) OR HIDDEN"

definition PACK :: "u32 \<Rightarrow> int \<Rightarrow> u32 \<Rightarrow> u32" where
  "PACK s e m = s OR push_bit 23 (word_of_int e) OR m"

definition EXCESS :: int where "EXCESS = 126"

subsection \<open>Addition and subtraction\<close>

text \<open>
  \<open>>>\<close> on a negative mantissa is the arithmetic shift, division rounding down. The loop that
  normalises up does not end for a zero mantissa.
\<close>

partial_function (option) normalize_up :: "int \<Rightarrow> int \<Rightarrow> (int \<times> int) option" where
  "normalize_up mant1 exp1 =
     (if (word_of_int mant1 :: u32) AND 0xE0000000 = 0 then normalize_up (2 * mant1) (exp1 - 1)
      else Some (mant1, exp1))"

definition normalize_down :: "int \<Rightarrow> int \<Rightarrow> int \<times> int" where
  "normalize_down mant1 exp1 =
     (if (word_of_int mant1 :: u32) AND 0x40000000 \<noteq> 0 then (mant1 div 2, exp1 + 1) else (mant1, exp1))"

definition round_pack :: "u32 \<Rightarrow> int \<Rightarrow> int \<Rightarrow> u32 option" where
  "round_pack sign mant exp =
     do { (m1, e1) \<leftarrow> normalize_up mant exp;
          let (m2, e2) = normalize_down m1 e1;
          let m3 = m2 + (if (word_of_int m2 :: u32) AND 0x40 \<noteq> 0 then 0x20 else 0x1F);
          let (m4, e4) = normalize_down m3 e2;
          Some (PACK sign e4 (word_of_int (m4 div 64) AND NOT HIDDEN)) }"

definition addsf3 :: "u32 \<Rightarrow> u32 \<Rightarrow> u32 option" where
  "addsf3 a1 a2 =
     (if a1 = 0 then Some a2
      else if a2 = 0 then Some a1
      else
        (let exp1 = EXP a1; exp2 = EXP a2 in
         if exp1 > exp2 + 25 then Some a1
         else if exp2 > exp1 + 25 then Some a2
         else
           (let mant1 = uint (MANT a1) * 64;
                mant2 = uint (MANT a2) * 64;
                mant1 = (if SIGN a1 \<noteq> 0 then - mant1 else mant1);
                mant2 = (if SIGN a2 \<noteq> 0 then - mant2 else mant2);
                (mant1, mant2, exp1) =
                  (if exp1 > exp2 then (mant1, mant2 div 2 ^ nat (exp1 - exp2), exp1)
                   else (mant1 div 2 ^ nat (exp2 - exp1), mant2, exp2));
                mant1 = mant1 + mant2
            in if mant1 < 0 then round_pack SIGNBIT (- mant1) exp1
               else if mant1 = 0 then Some 0
               else round_pack 0 mant1 exp1)))"

definition subsf3 :: "u32 \<Rightarrow> u32 \<Rightarrow> u32 option" where
  "subsf3 a1 a2 =
     (if a2 = 0 then Some a1
      else if a1 = 0 then Some (a2 XOR SIGNBIT)
      else addsf3 a1 (a2 XOR SIGNBIT))"

subsection \<open>Comparison\<close>

definition cmpsf2 :: "u32 \<Rightarrow> u32 \<Rightarrow> int" where
  "cmpsf2 a1 a2 =
     (if SIGN a1 \<noteq> 0 \<and> SIGN a2 \<noteq> 0
      then (let l1 = sint (a1 XOR SIGNBIT); l2 = sint (a2 XOR SIGNBIT) in
            if l1 > l2 then - 1 else if l1 < l2 then 1 else 0)
      else (if sint a1 < sint a2 then - 1 else if sint a1 > sint a2 then 1 else 0))"

definition ltsf2 :: "u32 \<Rightarrow> u32 \<Rightarrow> int" where
  "ltsf2 a b = - (if cmpsf2 a b < 0 then 1 else 0)"

definition lesf2 :: "u32 \<Rightarrow> u32 \<Rightarrow> int" where
  "lesf2 a b = (if cmpsf2 a b > 0 then 1 else 0)"

definition gtsf2 :: "u32 \<Rightarrow> u32 \<Rightarrow> int" where
  "gtsf2 a b = (if cmpsf2 a b > 0 then 1 else 0)"

definition gesf2 :: "u32 \<Rightarrow> u32 \<Rightarrow> int" where
  "gesf2 a b = (if cmpsf2 a b \<ge> 0 then 1 else 0) - 1"

definition eqsf2 :: "u32 \<Rightarrow> u32 \<Rightarrow> int" where
  "eqsf2 a b = (if a = b then 0 else 1)"

definition nesf2 :: "u32 \<Rightarrow> u32 \<Rightarrow> int" where
  "nesf2 a b = (if a \<noteq> b then 1 else 0)"

subsection \<open>Multiplication and division\<close>

definition mulsf3 :: "u32 \<Rightarrow> u32 \<Rightarrow> u32 option" where
  "mulsf3 a1 a2 =
     (if a1 = 0 \<or> a2 = 0 then Some 0
      else
        (let sign = SIGN a1 XOR SIGN a2;
             exp = EXP a1 - EXCESS + EXP a2;
             m1 = MANT a1; m2 = MANT a2
         in do { p \<leftarrow> imul (uint (drop_bit 8 m1)) (uint (drop_bit 8 m2));
                 let result = word_of_int p + drop_bit 8 ((m1 AND 0xFF) * drop_bit 8 m2)
                                + drop_bit 8 ((m2 AND 0xFF) * drop_bit 8 m1);
                 let result = drop_bit 2 result;
                 let (result, exp) =
                   (if result AND 0x20000000 \<noteq> 0 then (drop_bit 6 (result + 0x20), exp)
                    else (drop_bit 5 (result + 0x10), exp - 1));
                 let (result, exp) =
                   (if result AND push_bit 1 HIDDEN \<noteq> 0 then (drop_bit 1 result, exp + 1) else (result, exp));
                 Some (PACK sign exp (result AND NOT HIDDEN)) }))"

fun div_bits :: "nat \<Rightarrow> u32 \<Rightarrow> u32 \<Rightarrow> u32 \<Rightarrow> u32 \<Rightarrow> u32" where
  "div_bits 0 mk m1 m2 result = result"
| "div_bits (Suc n) mk m1 m2 result =
     (if mk = 0 then result
      else if m2 \<le> m1 then div_bits n (drop_bit 1 mk) (push_bit 1 (m1 - m2)) m2 (result OR mk)
      else div_bits n (drop_bit 1 mk) (push_bit 1 m1) m2 result)"

text \<open>
  The mask starts at bit 24, so 25 rounds and the test of the empty mask end the loop. For a zero
  divisor the code converts the integers \<open>0xFFFFFFFF\<close> and \<open>0x7FFFFFFF\<close> to \<open>float\<close>; rounded they are
  \<open>2^32\<close> and \<open>2^31\<close>.
\<close>

definition divsf3 :: "u32 \<Rightarrow> u32 \<Rightarrow> u32" where
  "divsf3 a1 a2 =
     (let exp = EXP a1 - EXP a2 + EXCESS;
          sign = SIGN a1 XOR SIGN a2
      in if a2 = 0 then (if sign \<noteq> 0 then 0x4F800000 else 0x4F000000)
         else if a1 = 0 then 0
         else
           (let m1 = MANT a1; m2 = MANT a2;
                (m1, exp) = (if m1 < m2 then (push_bit 1 m1, exp - 1) else (m1, exp));
                result = div_bits 26 0x1000000 m1 m2 0;
                result = drop_bit 1 (result + 1)
            in PACK sign (exp + 1) (result AND NOT HIDDEN)))"

definition negsf2 :: "u32 \<Rightarrow> u32" where
  "negsf2 a1 = (if a1 = 0 then 0 else a1 XOR SIGNBIT)"

subsection \<open>Conversion\<close>

definition fixsfsi :: "u32 \<Rightarrow> int" where
  "fixsfsi a =
     (let ae = uint (drop_bit 23 a AND 0xFF);
          af = uint (0x00800000 OR (a AND 0x007FFFFF)) * 128;
          shift = - (ae - 0x80 - 29);
          af = (if 0 < shift then (if shift < 31 then af div 2 ^ nat shift else 0) else af)
      in if drop_bit 31 a \<noteq> 0 then - af else af)"

definition fixunssfsi :: "u32 \<Rightarrow> u32" where
  "fixunssfsi a = word_of_int (fixsfsi a)"

function float_down :: "u32 \<Rightarrow> u32 \<Rightarrow> u32 \<times> u32" where
  "float_down ae af = (if af AND 0xFF000000 \<noteq> 0 then float_down (ae + 1) (drop_bit 1 af) else (ae, af))"
  by pat_completeness auto
termination
  by (relation "measure (\<lambda>(_, af). unat af)")
    (auto simp: drop_bit_Suc unat_div unat_gt_0 intro!: div_less_dividend)

partial_function (option) float_up :: "u32 \<Rightarrow> u32 \<Rightarrow> (u32 \<times> u32) option" where
  "float_up ae af = (if af AND 0xFF800000 = 0 then float_up (ae - 1) (push_bit 1 af) else Some (ae, af))"

definition float_of :: "u32 \<Rightarrow> u32 \<Rightarrow> u32 option" where
  "float_of as af =
     (if af = 0 then Some 0
      else do { let (ae, af) = float_down (0x80 + 22) af;
                (ae, af) \<leftarrow> float_up ae af;
                Some (push_bit 31 as OR push_bit 23 ae OR (af AND 0x007FFFFF)) })"

definition floatsisf :: "int \<Rightarrow> u32 option" where
  "floatsisf af =
     do { ensure (af \<noteq> - (2 ^ 31));
          float_of (if af \<ge> 0 then 0 else 1) (word_of_int (if af \<ge> 0 then af else - af)) }"

definition floatunsisf :: "u32 \<Rightarrow> u32 option" where
  "floatunsisf af = float_of 0 af"


subsection \<open>The fields of a pattern\<close>

declare float_down.simps [simp del] bit_numeral_word_iff [simp del]

lemma bit_consts:
  "bit SIGNBIT n \<longleftrightarrow> n = 31" "bit HIDDEN n \<longleftrightarrow> n = 23" "bit (0x7FFFFF :: u32) n \<longleftrightarrow> n < 23" "bit (0xFF :: u32) n \<longleftrightarrow> n < 8"
proof -
  have c: "SIGNBIT = 2 ^ 31" "HIDDEN = 2 ^ 23" "(0x7FFFFF :: u32) = mask 23" "(0xFF :: u32) = mask 8"
    by (simp_all add: SIGNBIT_def HIDDEN_def mask_eq_exp_minus_1)
  show "bit SIGNBIT n \<longleftrightarrow> n = 31" "bit HIDDEN n \<longleftrightarrow> n = 23" "bit (0x7FFFFF :: u32) n \<longleftrightarrow> n < 23" "bit (0xFF :: u32) n \<longleftrightarrow> n < 8"
    unfolding c by (simp_all only: bit_exp_iff bit_mask_iff possible_bit_word) auto
qed

lemma EXP_word: "word_of_int (EXP a) = drop_bit 23 a AND 0xFF"
  by (simp add: EXP_def)

lemma EXP_range: "0 \<le> EXP a" "EXP a < 256"
proof -
  show "0 \<le> EXP a" by (simp add: EXP_def)
  have "drop_bit 23 a AND 0xFF \<le> 0xFF" by (rule word_and_le1)
  then show "EXP a < 256" by (simp add: EXP_def word_le_def)
qed

lemma bit_PACK: "bit (PACK s e m) n \<longleftrightarrow> bit s n \<or> (23 \<le> n \<and> n < 32 \<and> bit (word_of_int e :: u32) (n - 23)) \<or> bit m n"
  by (auto simp: PACK_def bit_simps)

lemma pack_fields: "PACK (SIGN a) (EXP a) (MANT a AND NOT HIDDEN) = a"
proof (rule bit_word_eqI)
  fix n assume "n < LENGTH(32)"
  then consider "n < 23" | "23 \<le> n" "n < 31" | "n = 31" by fastforce
  then show "bit (PACK (SIGN a) (EXP a) (MANT a AND NOT HIDDEN)) n = bit a n"
    unfolding bit_PACK EXP_word SIGN_def MANT_def
    by cases (auto simp: bit_and_iff bit_or_iff bit_not_iff bit_consts bit_drop_bit_eq possible_bit_word)
qed

lemma MANT_range: "2 ^ 23 \<le> uint (MANT a)" "uint (MANT a) < 2 ^ 24"
proof -
  have h: "bit (MANT a) 23" by (simp add: MANT_def bit_or_iff bit_consts)
  have t: "take_bit 24 (MANT a) = MANT a"
    by (rule bit_word_eqI) (auto simp: MANT_def bit_take_bit_iff bit_or_iff bit_and_iff bit_consts)
  then show u: "uint (MANT a) < 2 ^ 24" by (metis take_bit_int_less_exp unsigned_take_bit_eq)
  from h have "odd (uint (MANT a) div 2 ^ 23)" by (simp only: bit_iff_odd [symmetric] bit_uint_iff) simp
  then have "uint (MANT a) div 2 ^ 23 \<noteq> 0" by auto
  then show "2 ^ 23 \<le> uint (MANT a)"
    by (metis div_pos_pos_trivial linorder_not_le uint_ge_0)
qed

lemma SIGN_cases: "SIGN a = 0 \<or> SIGN a = SIGNBIT"
proof -
  have "bit (SIGN a) n \<longleftrightarrow> n = 31 \<and> bit a 31" for n by (auto simp: SIGN_def bit_and_iff bit_consts)
  then have "SIGN a = (if bit a 31 then SIGNBIT else 0)" by (intro bit_word_eqI) (auto simp: bit_consts)
  then show ?thesis by simp
qed

lemma negsf2_negsf2: "a \<noteq> SIGNBIT \<Longrightarrow> negsf2 (negsf2 a) = a"
proof -
  assume a: "a \<noteq> SIGNBIT"
  have "a XOR SIGNBIT \<noteq> 0" using a by (metis xor.right_neutral xor.assoc xor_self_eq)
  then show ?thesis by (auto simp: negsf2_def xor.assoc)
qed

subsection \<open>Arithmetic identities\<close>

lemma uint_drop: "uint (drop_bit n w) = uint w div 2 ^ n" for w :: "'a::len word"
proof -
  have "uint (drop_bit n w) = drop_bit n (uint w)" by transfer (simp add: drop_bit_take_bit)
  then show ?thesis by (simp only: drop_bit_eq_div)
qed

lemma uint_woi_small: "uint (word_of_int (k mod 256 * 0x80) :: u32) = k mod 256 * 0x80"
  by (subst uint_word_of_int) (simp add: take_bit_int_eq_self)

lemma uint_MANT_shift: "uint (drop_bit 8 (MANT a)) = uint (MANT a) div 256" "uint (MANT a AND 0xFF) = uint (MANT a) mod 256"
proof -
  show "uint (drop_bit 8 (MANT a)) = uint (MANT a) div 256"
    by (simp only: uint_drop) simp
  have "MANT a AND 0xFF = take_bit 8 (MANT a)" by (simp add: take_bit_eq_mask mask_eq_exp_minus_1)
  then have "uint (MANT a AND 0xFF) = take_bit 8 (uint (MANT a))" by (simp only: unsigned_take_bit_eq)
  then show "uint (MANT a AND 0xFF) = uint (MANT a) mod 256" by (simp add: take_bit_eq_mod)
qed

lemma imul_commute: "imul a b = imul b a"
  by (simp add: imul_def mult.commute)

lemma mulsf3_commute: "mulsf3 a b = mulsf3 b a"
proof -
  let ?x = "drop_bit 8 (MANT a)" and ?y = "drop_bit 8 (MANT b)"
  let ?xy = "drop_bit 8 ((MANT a AND 0xFF) * ?y)" and ?yx = "drop_bit 8 ((MANT b AND 0xFF) * ?x)"
  have "p + ?xy + ?yx = p + ?yx + ?xy" for p by simp
  moreover have "imul (uint ?x) (uint ?y) = imul (uint ?y) (uint ?x)" by (rule imul_commute)
  moreover have "SIGN a XOR SIGN b = SIGN b XOR SIGN a" by (rule xor.commute)
  moreover have "EXP a - EXCESS + EXP b = EXP b - EXCESS + EXP a" by simp
  moreover have "a = 0 \<or> b = 0 \<longleftrightarrow> b = 0 \<or> a = 0" by blast
  ultimately show ?thesis unfolding mulsf3_def Let_def by (simp only:)
qed

lemma cmpsf2_antisym: "cmpsf2 a b = - cmpsf2 b a"
  by (auto simp: cmpsf2_def Let_def)

lemma addsf3_commute: "addsf3 a b = addsf3 b a"
proof (cases "EXP a = EXP b")
  case True
  then show ?thesis by (auto simp: addsf3_def Let_def add.commute)
next
  case False
  then have "EXP a < EXP b \<or> EXP b < EXP a" by auto
  then show ?thesis by (auto simp: addsf3_def Let_def add.commute)
qed

lemma addsf3_zero: "addsf3 a 0 = Some a" "addsf3 0 a = Some a"
  by (auto simp: addsf3_def)

lemma and_pow_0: "uint x < 2 ^ n \<Longrightarrow> x AND 2 ^ n = 0" for x :: "'a::len word"
proof -
  assume "uint x < 2 ^ n"
  then have "uint x div 2 ^ n = 0" by (simp add: div_pos_pos_trivial)
  then have "\<not> bit (uint x) n" by (simp only: bit_iff_odd) simp
  then show ?thesis by (simp add: and_exp_eq_0_iff_not_bit bit_uint_iff) (metis bit_imp_le_length)
qed

text \<open>A product of mantissas one of which is a power of two is exact.\<close>

lemma mulsf3_one:
  assumes "a \<noteq> 0"
  shows "mulsf3 0x3F800000 a = Some a"
proof -
  let ?m = "uint (MANT a)"
  define r where "r = word_of_int (0x8000 * (?m div 256)) + drop_bit 8 ((MANT a AND 0xFF) * 0x8000)"
  have one: "EXP 0x3F800000 = 127" "SIGN 0x3F800000 = 0" "MANT 0x3F800000 = 0x800000"
    by (simp_all add: EXP_def SIGN_def MANT_def SIGNBIT_def HIDDEN_def)
  have "uint (MANT a AND 0xFF) * 0x8000 < 2 ^ 32" unfolding uint_MANT_shift by simp
  then have "uint ((MANT a AND 0xFF) * 0x8000) = ?m mod 256 * 0x8000"
    by (simp add: uint_word_ariths uint_MANT_shift)
  then have d: "drop_bit 8 ((MANT a AND 0xFF) * 0x8000) = word_of_int (?m mod 256 * 0x80)"
    by (intro word_uint_eqI) (simp only: uint_drop uint_woi_small, simp)
  have "0x8000 * (?m div 256) + ?m mod 256 * 0x80 = 0x80 * ?m"
    using mult_div_mod_eq [of 256 ?m] by linarith
  then have r: "r = word_of_int (0x80 * ?m)"
    unfolding r_def d by (simp flip: of_int_add of_int_mult)
  have im: "imul (uint (drop_bit 8 (MANT 0x3F800000))) (uint (drop_bit 8 (MANT a))) = Some (0x8000 * (?m div 256))"
  proof -
    have "0 \<le> ?m div 256" "?m div 256 < 65536" using MANT_range [of a] by auto
    then show ?thesis by (simp add: imul_def one uint_MANT_shift in_s32_def)
  qed
  have m: "2 ^ 23 \<le> ?m" "?m < 2 ^ 24" by (fact MANT_range)+
  have r2: "uint (drop_bit 2 r) = 0x20 * ?m"
  proof -
    have "uint r = 0x80 * ?m mod 2 ^ LENGTH(32)" unfolding r by (rule uint_word_of_int)
    then have "uint r = 0x80 * ?m" using m by simp
    then show ?thesis by (simp only: uint_drop) simp
  qed
  have no_round: "drop_bit 2 r AND 0x20000000 = 0"
    using and_pow_0 [of "drop_bit 2 r" 29] r2 m by simp
  have "uint (drop_bit 2 r + 0x10) = 0x20 * ?m + 0x10"
    using r2 m by (simp add: uint_word_ariths)
  then have r5: "drop_bit 5 (drop_bit 2 r + 0x10) = MANT a"
    by (intro word_uint_eqI) (simp only: uint_drop, simp)
  have no_carry: "MANT a AND push_bit 1 HIDDEN = 0"
    using and_pow_0 [of "MANT a" 24] m by (simp add: HIDDEN_def)
  have "mulsf3 0x3F800000 a = Some (PACK (SIGN a) (EXP a) (MANT a AND NOT HIDDEN))"
    using assms im no_round r5 no_carry
    unfolding mulsf3_def Let_def one by (simp add: r_def EXCESS_def)
  then show ?thesis by (simp add: pack_fields)
qed


subsection \<open>Conversion to and from integers\<close>

lemma high_bits_zero: "n < 32 \<Longrightarrow> x AND NOT (mask n) = 0 \<longleftrightarrow> uint x < 2 ^ n" for x :: u32
proof -
  assume n: "n < 32"
  have "x AND NOT (mask n) = 0 \<longleftrightarrow> take_bit n x = x"
  proof
    assume z: "x AND NOT (mask n) = 0"
    show "take_bit n x = x"
    proof (rule bit_word_eqI)
      fix i assume "i < LENGTH(32)"
      have "\<not> bit (x AND NOT (mask n)) i" by (simp add: z)
      then show "bit (take_bit n x) i = bit x i"
        using \<open>i < LENGTH(32)\<close> by (auto simp: bit_and_iff bit_not_iff bit_mask_iff bit_take_bit_iff possible_bit_word)
    qed
  next
    assume t: "take_bit n x = x"
    show "x AND NOT (mask n) = 0"
      by (subst t [symmetric], rule bit_word_eqI) (auto simp: bit_and_iff bit_not_iff bit_mask_iff bit_take_bit_iff)
  qed
  also have "\<dots> \<longleftrightarrow> take_bit n (uint x) = uint x"
    by (metis unsigned_take_bit_eq word_uint_eqI)
  also have "\<dots> \<longleftrightarrow> uint x < 2 ^ n" by (simp add: take_bit_int_eq_self_iff)
  finally show ?thesis .
qed

lemma top_masks: "(0xFF800000 :: u32) = NOT (mask 23)" "(0xFF000000 :: u32) = NOT (mask 24)"
  by (simp_all add: mask_eq_exp_minus_1)

lemma below_masks: "x AND 0xFF800000 = 0 \<longleftrightarrow> uint x < 2 ^ 23" "x AND 0xFF000000 = 0 \<longleftrightarrow> uint x < 2 ^ 24" for x :: u32
  unfolding top_masks by (rule high_bits_zero; simp)+

lemma float_up_ok:
  assumes "0 < uint af" "uint af < 2 ^ 24"
  shows "\<exists>k\<le>23. \<exists>af'. float_up ae af = Some (ae - of_nat k, af') \<and> uint af' = uint af * 2 ^ k \<and> 2 ^ 23 \<le> uint af' \<and> uint af' < 2 ^ 24"
proof -
  have "\<exists>k\<le>j. \<exists>af'. float_up ae af = Some (ae - of_nat k, af') \<and> uint af' = uint af * 2 ^ k \<and> 2 ^ 23 \<le> uint af' \<and> uint af' < 2 ^ 24"
    if "2 ^ (23 - j) \<le> uint af" "uint af < 2 ^ 24" "j \<le> 23" for j and ae af :: u32
    using that
  proof (induction j arbitrary: ae af)
    case 0
    then have "af AND 0xFF800000 \<noteq> 0" by (simp add: below_masks)
    then show ?case using 0 by (simp add: float_up.simps [of ae af])
  next
    case (Suc j)
    show ?case
    proof (cases "uint af < 2 ^ 23")
      case True
      have u: "uint (push_bit 1 af) = 2 * uint af" using True by (simp add: push_bit_eq_mult uint_word_ariths)
      have "(2 :: int) ^ (23 - j) = 2 * 2 ^ (23 - Suc j)" using Suc.prems(3) by (simp add: Suc_diff_Suc flip: power_Suc)
      then have "2 ^ (23 - j) \<le> uint (push_bit 1 af)" "uint (push_bit 1 af) < 2 ^ 24" "j \<le> 23"
        using Suc.prems True u by simp_all
      from Suc.IH [OF this, of "ae - 1"] obtain k af' where "k \<le> j" "float_up (ae - 1) (push_bit 1 af) = Some (ae - 1 - of_nat k, af')"
        "uint af' = uint (push_bit 1 af) * 2 ^ k" "2 ^ 23 \<le> uint af'" "uint af' < 2 ^ 24" by blast
      moreover have "af AND 0xFF800000 = 0" using True by (simp add: below_masks)
      ultimately show ?thesis unfolding u
        by (intro exI [of _ "Suc k"] conjI exI [of _ af']) (simp_all add: float_up.simps [of ae af] algebra_simps)
    next
      case False
      then have "af AND 0xFF800000 \<noteq> 0" by (simp add: below_masks)
      then show ?thesis using False Suc.prems by (intro exI [of _ 0]) (simp add: float_up.simps [of ae af])
    qed
  qed
  from this [of 23 af ae] assms show ?thesis by simp
qed

lemma bit_below: "uint x < 2 ^ n \<Longrightarrow> bit x k \<Longrightarrow> k < n" for x :: "'a::len word"
proof (rule ccontr)
  assume "uint x < 2 ^ n" "bit x k" "\<not> k < n"
  moreover from this have "(2 :: int) ^ n \<le> 2 ^ k" by (intro power_increasing) auto
  ultimately have "uint x < 2 ^ k" by linarith
  then have "x AND 2 ^ k = 0" by (rule and_pow_0)
  then show False using \<open>bit x k\<close> by (simp add: and_exp_eq_0_iff_not_bit)
qed

lemma float_fields:
  fixes m :: u32
  assumes "2 ^ 23 \<le> uint m" "uint m < 2 ^ 24" "uint e < 2 ^ 8" "uint sg < 2 ^ 1"
  defines "f \<equiv> push_bit 31 sg OR push_bit 23 e OR (m AND 0x7FFFFF)"
  shows "drop_bit 31 f = sg" "drop_bit 23 f AND 0xFF = e" "0x800000 OR (f AND 0x7FFFFF) = m"
proof -
  note b = bit_below [OF assms(2)] bit_below [OF assms(3)] bit_below [OF assms(4)]
  have h: "bit m 23"
  proof (rule ccontr)
    assume n: "\<not> bit m 23"
    have "m AND NOT (mask 23) = 0"
    proof (rule bit_word_eqI)
      fix n' assume "n' < LENGTH(32)"
      have "\<not> (bit m n' \<and> 23 \<le> n')" using n bit_below [OF assms(2), of n'] by (cases "n' = 23") auto
      then show "bit (m AND NOT (mask 23)) n' = bit 0 n'"
        using \<open>n' < LENGTH(32)\<close> by (auto simp: bit_and_iff bit_not_iff bit_mask_iff possible_bit_word)
    qed
    then show False using high_bits_zero [of 23 m] assms(1) by simp
  qed
  have bf: "bit f n \<longleftrightarrow> (31 \<le> n \<and> n < 32 \<and> bit sg (n - 31)) \<or> (23 \<le> n \<and> n < 32 \<and> bit e (n - 23)) \<or> (bit m n \<and> n < 23)" for n
    by (auto simp: f_def bit_or_iff bit_and_iff bit_push_bit_iff bit_consts)
  show "drop_bit 31 f = sg"
    by (rule bit_word_eqI) (auto simp: bit_drop_bit_eq bf dest: b)
  show "drop_bit 23 f AND 0xFF = e"
    by (rule bit_word_eqI) (auto simp: bit_drop_bit_eq bit_and_iff bit_consts bf dest: b)
  have "(0x800000 :: u32) = HIDDEN" by (simp add: HIDDEN_def)
  then show "0x800000 OR (f AND 0x7FFFFF) = m"
    by (intro bit_word_eqI) (use h in \<open>auto simp: bit_or_iff bit_and_iff bit_consts bf dest: b\<close>)
qed

lemma float_of_ok:
  assumes "0 < uint af" "uint af < 2 ^ 24" "uint sg < 2 ^ 1"
  shows "\<exists>f. float_of sg af = Some f \<and> fixsfsi f = (if sg = 0 then uint af else - uint af)"
proof -
  have d: "float_down 150 af = (150, af)" using assms(2) by (simp add: float_down.simps below_masks)
  obtain k af' where k: "k \<le> 23" "float_up 150 af = Some (150 - of_nat k, af')" "uint af' = uint af * 2 ^ k"
    "2 ^ 23 \<le> uint af'" "uint af' < 2 ^ 24"
    using float_up_ok [OF assms(1,2), of 150] by blast
  have e: "uint (150 - of_nat k :: u32) = 150 - int k"
  proof -
    have u: "unat (of_nat k :: u32) = k" using k(1) by (simp add: unat_of_nat take_bit_nat_eq_self)
    have "of_nat k \<le> (150 :: u32)" unfolding word_le_nat_alt u using k(1) by simp
    then have "unat (150 - of_nat k :: u32) = 150 - k" unfolding unat_sub [OF \<open>of_nat k \<le> (150 :: u32)\<close>] u by simp
    then show ?thesis using k(1) by (simp add: uint_nat of_nat_diff)
  qed
  let ?f = "push_bit 31 sg OR push_bit 23 (150 - of_nat k) OR (af' AND 0x7FFFFF)"
  have "uint (150 - of_nat k :: u32) < 2 ^ 8" unfolding e by simp
  note F = float_fields [OF k(4,5) this assms(3)]
  have "float_of sg af = Some ?f"
    using d k(2) assms(1) by (auto simp: float_of_def)
  moreover have "uint af' * 128 div 2 ^ (7 + k) = uint af"
  proof -
    have "uint af' * 128 = uint af * 2 ^ (7 + k)" unfolding k(3) by (simp add: power_add)
    then show ?thesis by simp
  qed
  then have "fixsfsi ?f = (if sg = 0 then uint af else - uint af)"
    using k(1) unfolding fixsfsi_def F Let_def e by (simp add: nat_add_distrib add.commute)
  ultimately show ?thesis by blast
qed

lemma floatsisf_fixsfsi:
  assumes "\<bar>i\<bar> < 2 ^ 24"
  shows "\<exists>f. floatsisf i = Some f \<and> fixsfsi f = i"
proof (cases "i = 0")
  case False
  let ?w = "word_of_int \<bar>i\<bar> :: u32"
  have w: "uint ?w = \<bar>i\<bar>" using assms by (simp add: uint_word_of_int)
  have "uint (if i \<ge> 0 then 0 else 1 :: u32) < 2 ^ 1" by simp
  from float_of_ok [OF _ _ this, of ?w] obtain f where
    "float_of (if i \<ge> 0 then 0 else 1) ?w = Some f" "fixsfsi f = (if (if i \<ge> 0 then 0 else 1 :: u32) = 0 then uint ?w else - uint ?w)"
    using w assms False by auto
  moreover have "(if i \<ge> 0 then i else - i) = \<bar>i\<bar>" by simp
  moreover have "i \<noteq> - (2 ^ 31)" using assms by auto
  ultimately show ?thesis using w by (auto simp: floatsisf_def split: if_splits)
qed (simp add: floatsisf_def float_of_def fixsfsi_def)

subsection \<open>Comparison is a linear order on the patterns\<close>

text \<open>
  The order: negative patterns by falling magnitude, then the others. It is that of the numbers they
  stand for, except that minus zero comes before zero.
\<close>

definition float_key :: "u32 \<Rightarrow> int" where
  "float_key a = (if SIGN a \<noteq> 0 then - 1 - sint (a XOR SIGNBIT) else sint a)"

lemma sign_neg: "SIGN a \<noteq> 0 \<longleftrightarrow> sint a < 0"
proof -
  have "SIGN a \<noteq> 0 \<longleftrightarrow> bit a 31"
    using and_exp_eq_0_iff_not_bit [of a 31] by (simp add: SIGN_def SIGNBIT_def)
  then show ?thesis using bit_last_iff [of a] by simp
qed

lemma cmpsf2_key: "cmpsf2 a b = (if float_key a < float_key b then - 1 else if float_key b < float_key a then 1 else 0)"
proof -
  have x: "SIGN c \<noteq> 0 \<Longrightarrow> 0 \<le> sint (c XOR SIGNBIT)" for c
  proof -
    assume "SIGN c \<noteq> 0"
    then have "\<not> bit (c XOR SIGNBIT) 31"
      using and_exp_eq_0_iff_not_bit [of c 31] by (simp add: bit_xor_iff bit_consts) (simp add: SIGN_def SIGNBIT_def)
    then show "0 \<le> sint (c XOR SIGNBIT)" using bit_last_iff [of "c XOR SIGNBIT"] by (simp add: not_less)
  qed
  show ?thesis
    using x [of a] x [of b] sign_neg [of a] sign_neg [of b]
    by (auto simp: cmpsf2_def float_key_def Let_def)
qed

subsection \<open>Addition always returns\<close>

lemma normalize_up_total:
  assumes "0 < m" "m < 2 ^ 31"
  shows "\<exists>m' e'. normalize_up m e = Some (m', e') \<and> 2 ^ 29 \<le> m' \<and> m' < 2 ^ 31"
  using assms
proof (induction "nat (2 ^ 29 - m)" arbitrary: m e rule: less_induct)
  case less
  have u: "uint (word_of_int m :: u32) = m" using less.prems by (simp add: uint_word_of_int)
  have t: "(word_of_int m :: u32) AND 0xE0000000 = 0 \<longleftrightarrow> m < 2 ^ 29"
  proof -
    have "(0xE0000000 :: u32) = NOT (mask 29)" by (simp add: mask_eq_exp_minus_1)
    then show ?thesis using high_bits_zero [of 29 "word_of_int m"] u by simp
  qed
  show ?case
  proof (cases "m < 2 ^ 29")
    case True
    then have "nat (2 ^ 29 - 2 * m) < nat (2 ^ 29 - m)" "0 < 2 * m" "2 * m < 2 ^ 31" using less.prems by simp_all
    from less.hyps [OF this, of "e - 1"] show ?thesis
      using True t by (simp add: normalize_up.simps [of m e])
  next
    case False
    then show ?thesis using t less.prems by (simp add: normalize_up.simps [of m e])
  qed
qed

lemma round_pack_total: "0 < m \<Longrightarrow> m < 2 ^ 31 \<Longrightarrow> \<exists>r. round_pack sg m e = Some r"
  using normalize_up_total [of m e] by (auto simp: round_pack_def Let_def split: prod.split)

lemma shifted_mant:
  fixes m :: int
  assumes "\<bar>m\<bar> < 2 ^ 30"
  shows "\<bar>m div 2 ^ k\<bar> \<le> 2 ^ 30"
proof -
  have "- (2 ^ 30) div 2 ^ k \<le> m div 2 ^ k" using assms by (intro zdiv_mono1) auto
  moreover have "m div 2 ^ k \<le> 2 ^ 30 div 2 ^ k" using assms by (intro zdiv_mono1) auto
  moreover have "(2 :: int) ^ 30 div 2 ^ k \<le> 2 ^ 30 div 1" by (intro zdiv_mono2) auto
  moreover have "- (2 ^ 30) div 1 \<le> - (2 ^ 30) div (2 :: int) ^ k"
  proof -
    have "(- (2 ^ 30) :: int) * 2 ^ k \<le> - (2 ^ 30) * 1" by (intro mult_left_mono_neg) auto
    then have "(- (2 ^ 30) * 2 ^ k :: int) div 2 ^ k \<le> - (2 ^ 30) div 2 ^ k" by (intro zdiv_mono1) auto
    moreover have "(- (2 ^ 30) * 2 ^ k) div 2 ^ k = (- (2 ^ 30) :: int)" by (rule nonzero_mult_div_cancel_right) simp
    ultimately show ?thesis by simp
  qed
  ultimately show ?thesis by auto
qed

lemma addsf3_total: "\<exists>r. addsf3 a b = Some r"
proof -
  let ?ma = "if SIGN a \<noteq> 0 then - (uint (MANT a) * 64) else uint (MANT a) * 64"
  let ?mb = "if SIGN b \<noteq> 0 then - (uint (MANT b) * 64) else uint (MANT b) * 64"
  have r: "\<bar>?ma\<bar> < 2 ^ 30" "\<bar>?mb\<bar> < 2 ^ 30" using MANT_range [of a] MANT_range [of b] by auto
  have sum: "\<exists>r. (if x + y < 0 then round_pack SIGNBIT (- (x + y)) e else if x + y = 0 then Some 0 else round_pack 0 (x + y) e) = Some r"
    if "\<bar>x\<bar> < 2 ^ 30" "\<bar>y\<bar> \<le> 2 ^ 30" for x y e :: int
    using that round_pack_total [of "- (x + y)" SIGNBIT e] round_pack_total [of "x + y" 0 e] by auto
  define S where "S x y e = (if x + y < 0 then round_pack SIGNBIT (- (x + y)) e else if x + y = 0 then Some 0 else round_pack 0 (x + y) e)"
    for x y e :: int
  have core: "addsf3 a b = (if a = 0 then Some b else if b = 0 then Some a else if EXP a > EXP b + 25 then Some a
      else if EXP b > EXP a + 25 then Some b
      else if EXP a > EXP b then S ?ma (?mb div 2 ^ nat (EXP a - EXP b)) (EXP a)
      else S (?ma div 2 ^ nat (EXP b - EXP a)) ?mb (EXP b))"
    by (cases "EXP a > EXP b") (simp_all only: addsf3_def S_def Let_def if_True if_False prod.case)
  have "\<exists>r. S ?ma (?mb div 2 ^ k) e = Some r" for k e
    unfolding S_def by (rule sum [OF r(1) shifted_mant [OF r(2)]])
  moreover have "\<exists>r. S (?ma div 2 ^ k) ?mb e = Some r" for k e
    using sum [OF r(2) shifted_mant [OF r(1)], of k e] unfolding S_def by (simp only: add.commute)
  ultimately show ?thesis unfolding core by (simp only: option.inject split: if_split) blast
qed

end
