(* ===== verification/GuestText.thy ===== *)
theory GuestText
  imports GuestStr SoftFloat
begin

text \<open>
  Numbers, text and time in the library of the bare-metal guests, \<open>bare-metal-apps/lib/libc.c\<close>:
  conversions, formatted output and the batching of console output. The guests are built
  with software floating point and short doubles, so a \<open>float\<close> or \<open>double\<close> is the 32-bit pattern of
  SoftFloat and each arithmetic operator on one is the library's own routine. Strings that are only read
  from front to back are byte lists; a routine that walks past the zero byte is \<open>None\<close>.
\<close>

subsection \<open>Numbers\<close>

definition strtol_digit :: "u32 \<Rightarrow> u32 option" where
  "strtol_digit ch =
     (if 48 \<le> ch \<and> ch \<le> 57 then Some (ch - 48)
      else if 65 \<le> ch \<and> ch \<le> 90 then Some (ch - 65 + 10)
      else if 97 \<le> ch \<and> ch \<le> 122 then Some (ch - 97 + 10)
      else None)"

text \<open>The rounds left, the string pointer and the value; a letter is a digit whatever the base.\<close>

fun strtol_loop :: "nat \<Rightarrow> bmem \<Rightarrow> nat \<Rightarrow> u32 \<Rightarrow> u32 \<Rightarrow> nat \<times> u32" where
  "strtol_loop 0 m s base val = (s, val)"
| "strtol_loop (Suc k) m s base val =
     (case strtol_digit (scast (m s)) of
        None \<Rightarrow> (Suc s, val)
      | Some d \<Rightarrow> strtol_loop k m (Suc s) base (val * base + d))"

text \<open>The value and \<open>*end\<close>.\<close>

definition strtol :: "bmem \<Rightarrow> nat \<Rightarrow> u32 \<Rightarrow> (u32 \<times> nat) option" where
  "strtol m s base =
     (let (neg, s) = (if m s = 45 then (True, Suc s) else (False, s));
          (base, s) = (if m s = 48 \<and> m (Suc s) = 120 then (16, s + 2) else (base, s));
          (s, val) = strtol_loop 9 m s base 0
      in if neg then do { ensure (val \<noteq> 0x80000000); Some (- val, s - 1) } else Some (val, s - 1))"

fun atoi_skip :: "u8 list \<Rightarrow> bool \<times> u8 list" where
  "atoi_skip (c # s) =
     (if c = 32 \<or> c = 9 then atoi_skip s
      else if c = 45 then (True, s)
      else if c = 43 then (False, s)
      else (False, c # s))"
| "atoi_skip [] = (False, [])"

fun atoi_loop :: "u8 list \<Rightarrow> int \<Rightarrow> int option" where
  "atoi_loop (c # s) n =
     (if 48 \<le> c \<and> c \<le> 57
      then do { a \<leftarrow> imul n 10; b \<leftarrow> iadd a (uint c); d \<leftarrow> iadd b (- 48); atoi_loop s d }
      else Some n)"
| "atoi_loop [] n = Some n"

definition atoi :: "u8 list \<Rightarrow> int option" where
  "atoi s = (let (f, s1) = atoi_skip s in map_option (\<lambda>n. if f then - n else n) (atoi_loop s1 0))"

definition itoa_table :: "u8 list" where
  "itoa_table = map of_char ''zyxwvutsrqponmlkjihgfedcba9876543210123456789abcdefghijklmnopqrstuvwxyz''"

function itoa_guest_digits :: "int \<Rightarrow> int \<Rightarrow> u8 list" where
  "itoa_guest_digits i base =
     (let q = i sdiv base; c = itoa_table ! nat (35 + (i - q * base))
      in c # (if base < 2 \<or> q = 0 then [] else itoa_guest_digits q base))"
  by pat_completeness auto
termination
proof (relation "measure (\<lambda>(i, base). nat \<bar>i\<bar>)", goal_cases)
  case (2 i base q c)
  then have "i \<noteq> 0" by auto
  moreover have "\<bar>i sdiv base\<bar> = \<bar>i\<bar> div base"
    using 2 \<open>i \<noteq> 0\<close> by (simp add: signed_divide_int_def abs_mult abs_sgn_eq pos_imp_zdiv_nonneg_iff abs_of_nonneg)
  moreover have "\<bar>i\<bar> div base < \<bar>i\<bar>" using 2 \<open>i \<noteq> 0\<close> by (intro int_div_less_self) auto
  ultimately show ?case using 2 by simp
qed simp

text \<open>
  The last \<open>tmp_value\<close> has the sign of \<open>i\<close>. The text is reversed in place, by the loop that the kernel's
  \<open>itoa\<close> has too.
\<close>

definition itoa_text :: "int \<Rightarrow> int \<Rightarrow> u8 list" where
  "itoa_text i base =
     (if base < 2 \<or> 36 < base then []
      else (let buf = itoa_guest_digits i base @ (if i < 0 then [45] else [])
            in swap_loop id buf 0 (length buf)))"

definition itoa_guest :: "bmem \<Rightarrow> int \<Rightarrow> nat \<Rightarrow> int \<Rightarrow> bmem" where
  "itoa_guest m i s base = store_bytes m s (itoa_text i base @ [0])"

definition abs_guest :: "int \<Rightarrow> int option" where
  "abs_guest n = (if 0 \<le> n then Some n else do { ensure (n \<noteq> - (2 ^ 31)); Some (- n) })"

definition random :: "u32 \<Rightarrow> u32 \<times> u32" where
  "random rand1 =
     (let r = rand1 * 1103515245 + 12345 in (drop_bit 16 r AND 32767, r))"

definition srand :: "u32 \<Rightarrow> u32" where
  "srand seed = seed"

definition toupper :: "u32 \<Rightarrow> u32" where
  "toupper ch = (if 97 \<le> ch \<and> ch \<le> 122 then 65 + (ch - 97) else ch)"

definition tolower :: "u32 \<Rightarrow> u32" where
  "tolower ch = (if 65 \<le> ch \<and> ch \<le> 90 then 97 + (ch - 65) else ch)"

subsection \<open>Console output in batches\<close>

definition STRHYPERSZ :: nat where "STRHYPERSZ = 1024"

text \<open>The static buffer, and the messages handed to the hypercall \<open>uart_send\<close> so far.\<close>

record strhyper_t =
  sh_str :: "u8 list"
  sh_size :: nat
  sh_sent :: "u8 list list"

definition strhyper_init :: strhyper_t where
  "strhyper_init = \<lparr>sh_str = replicate STRHYPERSZ 0, sh_size = 0, sh_sent = []\<rparr>"

definition flush :: "strhyper_t \<Rightarrow> strhyper_t" where
  "flush g = g\<lparr>sh_sent := sh_sent g @ [take (sh_size g) (sh_str g)], sh_size := 0\<rparr>"

text \<open>\<open>printchar\<close> without a target string.\<close>

definition printchar :: "u8 \<Rightarrow> strhyper_t \<Rightarrow> strhyper_t option" where
  "printchar c g =
     do { str \<leftarrow> arr_set (sh_str g) (int (sh_size g)) c;
          let g1 = g\<lparr>sh_str := str, sh_size := sh_size g + 1\<rparr>;
          Some (if sh_size g1 = STRHYPERSZ then flush g1 else g1) }"

fun emit :: "u8 list \<Rightarrow> strhyper_t \<Rightarrow> strhyper_t option" where
  "emit [] g = Some g"
| "emit (c # cs) g = do { g1 \<leftarrow> printchar c g; emit cs g1 }"

definition puts_guest :: "u8 list \<Rightarrow> strhyper_t \<Rightarrow> strhyper_t option" where
  "puts_guest str g = do { g1 \<leftarrow> emit str g; Some (if 0 < sh_size g1 then flush g1 else g1) }"

text \<open>\<open>gets\<close> on the values that \<open>getchar\<close> returns; it waits for ever when they end.\<close>

fun gets_loop :: "u32 list \<Rightarrow> bmem \<Rightarrow> nat \<Rightarrow> (int \<times> nat \<times> bmem \<times> u32 list) option" where
  "gets_loop [] m cs = None"
| "gets_loop (x # xs) m cs =
     (if sint x \<noteq> 10 \<and> 0 \<le> sint x then gets_loop xs (m(cs := ucast x)) (Suc cs)
      else Some (sint x, cs, m, xs))"

definition gets :: "bmem \<Rightarrow> nat \<Rightarrow> u32 list \<Rightarrow> (nat option \<times> bmem \<times> u32 list) option" where
  "gets m s inp =
     do { (c, cs, m1, rest) \<leftarrow> gets_loop inp m s;
          Some (if c < 0 \<and> cs = s then (None, m1, rest) else (Some s, m1(cs := 0), rest)) }"

subsection \<open>Formatted output\<close>

text \<open>The bytes of \<open>prints\<close>; their number is the count it returns.\<close>

definition prints_guest :: "u8 list \<Rightarrow> int \<Rightarrow> u32 \<Rightarrow> u8 list" where
  "prints_guest str width pad =
     (let padchar = (if 0 < width \<and> pad AND PAD_ZERO \<noteq> 0 then 48 else 32);
          width = (if 0 < width then (if int (length str) \<ge> width then 0 else width - int (length str)) else width)
      in if pad AND PAD_RIGHT = 0 then replicate (nat width) padchar @ str
         else str @ replicate (nat width) padchar)"

text \<open>\<open>print_buf\<close> has 30 bytes, 29 of them for digits and the sign.\<close>

definition printi_guest :: "int \<Rightarrow> nat \<Rightarrow> bool \<Rightarrow> int \<Rightarrow> u32 \<Rightarrow> u8 \<Rightarrow> u8 list option" where
  "printi_guest i b sg width pad letbase =
     (if i = 0 then Some (prints_guest [48] width pad)
      else
        do { let neg = (sg \<and> b = 10 \<and> i < 0);
             ensure (\<not> (neg \<and> i = - (2 ^ 31)));
             let u = (if neg then nat (- i) else nat (i mod 2 ^ 32));
             (s, room) \<leftarrow> printi_digits u b letbase 29 [];
             if neg
             then (if width \<noteq> 0 \<and> pad AND PAD_ZERO \<noteq> 0
                   then Some (45 # prints_guest s (width - 1) pad)
                   else do { ensure (0 < room); Some (prints_guest (45 # s) width pad) })
             else Some (prints_guest s width pad) })"

abbreviation (input) "f_zero \<equiv> (0 :: u32)"
abbreviation (input) "f_one \<equiv> (0x3F800000 :: u32)"
abbreviation (input) "f_ten \<equiv> (0x41200000 :: u32)"

definition is_space :: "u8 \<Rightarrow> bool" where
  "is_space c \<longleftrightarrow> c = 32 \<or> c = 9 \<or> c = 10 \<or> c = 13"

definition is_digit :: "u8 \<Rightarrow> bool" where
  "is_digit c \<longleftrightarrow> 48 \<le> c \<and> c \<le> 57"

text \<open>\<open>val = 10.0f * val + (p[i] - '0')\<close>, and for the decimals \<open>power *= 10.0f\<close>.\<close>

definition atof_digit :: "u32 \<Rightarrow> u8 \<Rightarrow> u32 option" where
  "atof_digit val c =
     do { a \<leftarrow> mulsf3 f_ten val; d \<leftarrow> floatsisf (uint c - 48); addsf3 a d }"

fun atof_int :: "u8 list \<Rightarrow> u32 \<Rightarrow> (u32 \<times> u8 list) option" where
  "atof_int [] val = Some (val, [])"
| "atof_int (c # p) val =
     (if is_digit c then do { v \<leftarrow> atof_digit val c; atof_int p v } else Some (val, c # p))"

fun atof_frac :: "u8 list \<Rightarrow> u32 \<Rightarrow> u32 \<Rightarrow> (u32 \<times> u32) option" where
  "atof_frac [] val pow = Some (val, pow)"
| "atof_frac (c # p) val pow =
     (if is_digit c
      then do { v \<leftarrow> atof_digit val c; w \<leftarrow> mulsf3 pow f_ten; atof_frac p v w }
      else Some (val, pow))"

definition atof :: "u8 list \<Rightarrow> u32 option" where
  "atof p =
     (let p = dropWhile is_space p;
          sign = (if p \<noteq> [] \<and> hd p = 45 then - 1 else 1);
          p = (if p \<noteq> [] \<and> (hd p = 43 \<or> hd p = 45) then tl p else p)
      in do { (val, p) \<leftarrow> atof_int p f_zero;
              let p = (if p \<noteq> [] \<and> hd p = 46 then tl p else p);
              (val, pow) \<leftarrow> atof_frac p val f_one;
              sg \<leftarrow> floatsisf sign;
              sv \<leftarrow> mulsf3 sg val;
              Some (divsf3 sv pow) })"

text \<open>The zeros in front of the decimals; a negative \<open>f1\<close> keeps the loop going.\<close>

partial_function (option) lead_zeros :: "int \<Rightarrow> int \<Rightarrow> u8 list option" where
  "lead_zeros i f1 = (if f1 < i then do { zs \<leftarrow> lead_zeros (i div 10) f1; Some (48 # zs) } else Some [])"

fun precision :: "nat \<Rightarrow> int \<Rightarrow> int option" where
  "precision 0 v = Some v"
| "precision (Suc n) v = do { w \<leftarrow> imul v 10; precision n w }"

text \<open>The conversions e, E, g, G and f are the same: sign, integral part, a point, \<open>precision_n\<close> decimals.\<close>

definition print_float :: "u32 \<Rightarrow> int \<Rightarrow> u8 list option" where
  "print_float f precision_n =
     do { let neg = (ltsf2 f f_zero < 0);
          let f = (if neg then negsf2 f else f);
          let whole = fixsfsi f;
          precision_v \<leftarrow> precision (nat precision_n) 1;
          w \<leftarrow> floatsisf whole;
          r \<leftarrow> subsf3 f w;
          pv \<leftarrow> floatsisf precision_v;
          p \<leftarrow> mulsf3 r pv;
          let f1 = fixsfsi p;
          zs \<leftarrow> lead_zeros (precision_v div 10) f1;
          Some ((if neg then [45] else []) @ itoa_text whole 10 @ [46] @ zs @
                (if f1 \<noteq> 0 then itoa_text f1 10 else [])) }"

datatype gva = GInt int | GStr "u8 list option" | GFloat u32

text \<open>
  One conversion whose letter is \<open>c\<close>: the bytes, the count, the rest of the format and of the arguments.
  Behind a point come the number of decimals and a letter that is not looked at. The characters
  of a \<open>float\<close> are not counted.
\<close>

definition conv_guest :: "u8 \<Rightarrow> u8 list \<Rightarrow> gva list \<Rightarrow> int \<Rightarrow> u32 \<Rightarrow> (u8 list \<times> nat \<times> u8 list \<times> gva list) option" where
  "conv_guest c f args width pad =
     (let int_arg = (\<lambda>b sg l. case args of
            GInt i # as \<Rightarrow> map_option (\<lambda>bs. (bs, length bs, f, as)) (printi_guest i b sg width pad l)
          | _ \<Rightarrow> None);
          float_arg = (\<lambda>n f. case args of
            GFloat x # as \<Rightarrow> map_option (\<lambda>bs. (bs, 0, f, as)) (print_float x n)
          | _ \<Rightarrow> None)
      in if c = 115 then
           (case args of
              GStr s # as \<Rightarrow>
                (let bs = prints_guest (case s of None \<Rightarrow> [40, 110, 117, 108, 108, 41] | Some t \<Rightarrow> t) width pad
                 in Some (bs, length bs, f, as))
            | _ \<Rightarrow> None)
         else if c = 100 then int_arg 10 True 97
         else if c = 120 then int_arg 16 False 97
         else if c = 88 then int_arg 16 False 65
         else if c = 117 then int_arg 10 False 97
         else if c = 99 then
           (case args of
              GInt i # as \<Rightarrow>
                (let scr = word_of_int i :: u8; bs = prints_guest (if scr = 0 then [] else [scr]) width pad
                 in Some (bs, length bs, f, as))
            | _ \<Rightarrow> None)
         else if c = 46 then (case f of d # l # f1 \<Rightarrow> float_arg (sint d - 48) f1 | _ \<Rightarrow> None)
         else if c \<in> {101, 69, 103, 71, 102} then float_arg 6 f
         else Some ([], 0, f, args))"

text \<open>The loop over the format, with the flags and the width read as in the kernel's \<open>print\<close>.\<close>

fun print_guest :: "nat \<Rightarrow> u8 list \<Rightarrow> gva list \<Rightarrow> (u8 list \<times> nat) option" where
  "print_guest k [] args = Some ([], 0)"
| "print_guest 0 (c # f) args = None"
| "print_guest (Suc k) (c # f) args =
     (if c \<noteq> 37 then map_option (\<lambda>(out, pc). (c # out, pc + 1)) (print_guest k f args)
      else
        (case f of
           [] \<Rightarrow> Some ([], 0)
         | d # f1 \<Rightarrow>
             if d = 37 then map_option (\<lambda>(out, pc). (37 # out, pc + 1)) (print_guest k f1 args)
             else
               (let (f2, pad) = (if d = 45 then (f1, PAD_RIGHT) else (f, 0));
                    (f3, pad) = fmt_zeros f2 pad
                in case fmt_width f3 0 of
                     Some (e # f4, width) \<Rightarrow>
                       do { (o1, n, f5, args') \<leftarrow> conv_guest e f4 args width pad;
                            (out, pc) \<leftarrow> print_guest k f5 args';
                            Some (o1 @ out, n + pc) }
                   | _ \<Rightarrow> None)))"

text \<open>Each round consumes a character of the format, so its length is fuel enough.\<close>

definition printf_guest :: "u8 list \<Rightarrow> gva list \<Rightarrow> strhyper_t \<Rightarrow> (nat \<times> strhyper_t) option" where
  "printf_guest fmt args g =
     do { (out, pc) \<leftarrow> print_guest (length fmt) fmt args;
          g1 \<leftarrow> emit out g;
          Some (pc, flush g1) }"

definition sprintf_guest :: "bmem \<Rightarrow> nat \<Rightarrow> u8 list \<Rightarrow> gva list \<Rightarrow> (nat \<times> bmem) option" where
  "sprintf_guest m out fmt args =
     do { (bs, pc) \<leftarrow> print_guest (length fmt) fmt args; Some (pc, store_bytes m out (bs @ [0])) }"

subsection \<open>Time\<close>

definition calc_diff_time :: "u32 \<Rightarrow> u32 \<Rightarrow> u32" where
  "calc_diff_time now old = (if old \<le> now then now - old else 0xFFFFFFFF - (old - now))"

text \<open>\<open>MILISECOND\<close>, the ticks of a millisecond, is fixed by the build; \<open>now\<close> is the Count register.\<close>

definition wait_time :: "u32 \<Rightarrow> u32 \<Rightarrow> u32 \<Rightarrow> u32 \<Rightarrow> bool" where
  "wait_time MILISECOND now old_time ms_delay =
     (let diff_time = (if old_time \<le> now then now - old_time else 0xFFFFFFFF - (old_time - now))
      in ms_delay * MILISECOND < diff_time)"

text \<open>\<open>mdelay\<close> on the successive readings of Count, the first one being the start.\<close>

fun mdelay_loop :: "u32 \<Rightarrow> u32 \<Rightarrow> u32 \<Rightarrow> u32 list \<Rightarrow> u32 list option" where
  "mdelay_loop MILISECOND now msec [] = None"
| "mdelay_loop MILISECOND now msec (c # cs) =
     (if wait_time MILISECOND c now msec then Some cs else mdelay_loop MILISECOND now msec cs)"

definition mdelay :: "u32 \<Rightarrow> u32 \<Rightarrow> u32 list \<Rightarrow> u32 list option" where
  "mdelay MILISECOND msec cs = (case cs of [] \<Rightarrow> None | now # cs' \<Rightarrow> mdelay_loop MILISECOND now msec cs')"

definition time :: "u32 \<Rightarrow> nat option \<Rightarrow> (nat \<Rightarrow> u32) \<Rightarrow> u32 \<times> (nat \<Rightarrow> u32)" where
  "time count t m = (count, case t of None \<Rightarrow> m | Some a \<Rightarrow> m(a := count))"

subsection \<open>itoa\<close>

text \<open>The character of a digit, in any base up to 36.\<close>

definition digit36 :: "nat \<Rightarrow> u8" where
  "digit36 t = (if t < 10 then word_of_nat t + 48 else word_of_nat t + 87)"

lemma itoa_table_eq: "itoa_table = map (\<lambda>k. digit36 (nat \<bar>int k - 35\<bar>)) [0..<71]"
  by code_simp

lemma itoa_table_digit: "t < 36 \<Longrightarrow> itoa_table ! (35 + t) = digit36 t \<and> itoa_table ! (35 - t) = digit36 t"
  unfolding itoa_table_eq by (auto simp del: upt_conv_Cons)

declare itoa_guest_digits.simps [simp del]

lemma itoa_guest_digits_rev:
  "1 < b \<Longrightarrow> b \<le> 36 \<Longrightarrow> i \<noteq> 0 \<Longrightarrow>
     rev (itoa_guest_digits i (int b)) = map digit36 (digits b (nat \<bar>i\<bar>))"
proof (induction "nat \<bar>i\<bar>" arbitrary: i rule: less_induct)
  case less
  let ?u = "nat \<bar>i\<bar>" and ?q = "i sdiv int b"
  have q: "?q = sgn i * (\<bar>i\<bar> div int b)"
    using less.prems by (simp add: signed_divide_int_def)
  have aq: "nat \<bar>?q\<bar> = ?u div b"
    using less.prems by (simp add: q abs_mult nat_div_distrib pos_imp_zdiv_nonneg_iff)
  have "i - ?q * int b = sgn i * int (?u mod b)"
  proof -
    have "i = sgn i * \<bar>i\<bar>" by (simp add: sgn_mult_abs)
    moreover have "\<bar>i\<bar> = \<bar>i\<bar> div int b * int b + \<bar>i\<bar> mod int b" by simp
    ultimately have "i - ?q * int b = sgn i * (\<bar>i\<bar> mod int b)"
      unfolding q by (metis (no_types, lifting) add_diff_cancel_left' distrib_left mult.assoc)
    then show ?thesis by (simp add: zmod_int)
  qed
  moreover have "?u mod b < 36" using less.prems(1,2) by (meson less_le_trans mod_less_divisor zero_less_one order_less_trans)
  ultimately have c: "itoa_table ! nat (35 + (i - ?q * int b)) = digit36 (?u mod b)"
    using itoa_table_digit [of "?u mod b"] less.prems(3)
    by (cases "0 < i") (auto simp: nat_diff_distrib nat_add_distrib)
  show ?case
  proof (cases "?q = 0")
    case True
    then have "?u div b = 0" using aq by simp
    then show ?thesis using True c less.prems
      by (simp add: itoa_guest_digits.simps [of i] digits.simps [of b ?u])
  next
    case False
    have "nat \<bar>?q\<bar> < ?u" unfolding aq using less.prems by (intro div_less_dividend) auto
    from less.hyps [OF this less.prems(1,2) False] show ?thesis
      using False c less.prems by (simp add: itoa_guest_digits.simps [of i] digits.simps [of b ?u] aq)
  qed
qed

lemma itoa_text_digits:
  assumes "1 < b" "b \<le> 36"
  shows "itoa_text i (int b) =
    (if i = 0 then [48] else (if i < 0 then [45] else []) @ map digit36 (digits b (nat \<bar>i\<bar>)))"
proof (cases "i = 0")
  case True
  have "itoa_guest_digits 0 (int b) = [48]"
    using itoa_table_digit [of 0] by (simp add: itoa_guest_digits.simps [of 0] digit36_def signed_divide_int_def)
  then show ?thesis using True assms swap_loop_rev [of id "[48 :: u8]"] by (simp add: itoa_text_def)
next
  case False
  then show ?thesis using assms
    by (simp add: itoa_text_def Let_def swap_loop_rev [of id] itoa_guest_digits_rev del: length_append)
qed

lemma itoa_text_dec: "itoa_text i 10 = dec_text i"
proof -
  have "map digit36 (digits 10 u) = map (\<lambda>t. word_of_nat t + 48) (digits 10 u)" for u
    using digits_less [of 10 u] by (auto simp: digit36_def)
  then show ?thesis using itoa_text_digits [of 10 i] by (simp add: dec_text_def)
qed

subsection \<open>Reading numbers back\<close>

lemma dec_char: "t < 10 \<Longrightarrow> uint (word_of_nat t + 48 :: u8) = int t + 48"
proof -
  assume "t < 10"
  then have "t = 0 \<or> t = 1 \<or> t = 2 \<or> t = 3 \<or> t = 4 \<or> t = 5 \<or> t = 6 \<or> t = 7 \<or> t = 8 \<or> t = 9" by arith
  then show ?thesis by (elim disjE) simp_all
qed

lemma dec_char_range: "t < 10 \<Longrightarrow> 48 \<le> (word_of_nat t + 48 :: u8) \<and> (word_of_nat t + 48 :: u8) \<le> 57"
  using dec_char [of t] by (simp add: word_le_def)

lemma num_of_Cons: "foldl (\<lambda>v d. v * 10 + d) n (d # ds) = foldl (\<lambda>v d. v * 10 + d) (n * 10 + d) ds"
  by simp

lemma foldl_ge: "(n :: nat) \<le> foldl (\<lambda>v d. v * 10 + d) n ds"
proof (induction ds arbitrary: n)
  case (Cons d ds)
  have "n \<le> n * 10 + d" by simp
  also have "\<dots> \<le> foldl (\<lambda>v d. v * 10 + d) (n * 10 + d) ds" by (rule Cons.IH)
  finally show ?case by simp
qed simp

lemma atoi_loop_digits:
  "\<forall>d\<in>set ds. d < 10 \<Longrightarrow> foldl (\<lambda>v d. v * 10 + d) n ds + 48 < 2 ^ 31 \<Longrightarrow>
     atoi_loop (map (\<lambda>t. word_of_nat t + 48) ds) (int n) = Some (int (foldl (\<lambda>v d. v * 10 + d) n ds))"
proof (induction ds arbitrary: n)
  case (Cons d ds)
  have "n * 10 + d + 48 < 2 ^ 31" using Cons.prems(2) foldl_ge [of "n * 10 + d" ds] by simp
  then have "imul (int n) 10 = Some (int n * 10)" "iadd (int n * 10) (int d + 48) = Some (int n * 10 + (int d + 48))"
    "iadd (int n * 10 + (int d + 48)) (- 48) = Some (int n * 10 + int d)"
    by (simp_all add: imul_def iadd_def in_s32_def)
  moreover have "atoi_loop (map (\<lambda>t. word_of_nat t + 48) ds) (int n * 10 + int d) = Some (int (foldl (\<lambda>v d. v * 10 + d) (n * 10 + d) ds))"
    using Cons.IH [of "n * 10 + d"] Cons.prems by simp
  ultimately show ?case using Cons.prems(1) dec_char [of d] dec_char_range [of d] by simp
qed simp

text \<open>The character is added before \<open>'0'\<close> is subtracted, so the greatest 48 numbers overflow.\<close>

lemma atoi_dec_text:
  assumes "\<bar>i\<bar> + 48 < 2 ^ 31"
  shows "atoi (dec_text i) = Some i"
proof (cases "i = 0")
  case True
  then show ?thesis by (simp add: dec_text_def atoi_def imul_def iadd_def in_s32_def)
next
  case False
  let ?ds = "digits 10 (nat \<bar>i\<bar>)" and ?t = "map (\<lambda>t. word_of_nat t + 48 :: u8) (digits 10 (nat \<bar>i\<bar>))"
  have lt: "\<forall>d\<in>set ?ds. d < 10" by (rule digits_less) simp
  have v: "foldl (\<lambda>v d. v * 10 + d) 0 ?ds = nat \<bar>i\<bar>"
    using num_of_digits [of 10 "nat \<bar>i\<bar>"] by (simp add: num_of_def)
  have loop: "atoi_loop ?t 0 = Some \<bar>i\<bar>" using atoi_loop_digits [OF lt, of 0] assms v by simp
  obtain d ds where ds: "?ds = d # ds" "d < 10"
    using length_digits_pos [of 10 "nat \<bar>i\<bar>"] False lt by (cases ?ds) auto
  have "48 \<le> (word_of_nat d + 48 :: u8)" using dec_char_range [OF ds(2)] by simp
  moreover have "w \<notin> {32, 9, 43, 45}" if "48 \<le> w" for w :: u8 using that by auto
  ultimately have "(word_of_nat d + 48 :: u8) \<notin> {32, 9, 43, 45}" by blast
  then have "atoi_skip ?t = (False, ?t)" using ds by simp
  moreover have "atoi_skip (45 # ?t) = (True, ?t)" by simp
  ultimately show ?thesis using False loop by (cases "0 < i") (auto simp: dec_text_def atoi_def)
qed

lemma atoi_loop_append:
  "\<forall>d\<in>set ds. d < 10 \<Longrightarrow> foldl (\<lambda>v d. v * 10 + d) n ds + 48 < 2 ^ 31 \<Longrightarrow>
     atoi_loop (map (\<lambda>t. word_of_nat t + 48) ds @ cs) (int n) = atoi_loop cs (int (foldl (\<lambda>v d. v * 10 + d) n ds))"
proof (induction ds arbitrary: n)
  case (Cons d ds)
  have "n * 10 + d + 48 < 2 ^ 31" using Cons.prems(2) foldl_ge [of "n * 10 + d" ds] by simp
  then have "imul (int n) 10 = Some (int n * 10)" "iadd (int n * 10) (int d + 48) = Some (int n * 10 + (int d + 48))"
    "iadd (int n * 10 + (int d + 48)) (- 48) = Some (int n * 10 + int d)"
    by (simp_all add: imul_def iadd_def in_s32_def)
  moreover have "atoi_loop (map (\<lambda>t. word_of_nat t + 48) ds @ cs) (int n * 10 + int d) =
      atoi_loop cs (int (foldl (\<lambda>v d. v * 10 + d) (n * 10 + d) ds))"
    using Cons.IH [of "n * 10 + d"] Cons.prems by simp
  ultimately show ?case using Cons.prems(1) dec_char [of d] dec_char_range [of d] by simp
qed simp

lemma last_digit_overflow:
  "m * 10 + d = n \<Longrightarrow> 0 \<le> m \<Longrightarrow> 0 \<le> d \<Longrightarrow> 2147483600 \<le> n \<Longrightarrow> n < 2147483648 \<Longrightarrow>
     imul m 10 = Some (m * 10) \<and> iadd (m * 10) (d + 48) = None"
  by (simp add: imul_def iadd_def in_s32_def)

lemma atoi_dec_text_overflow:
  assumes "2 ^ 31 \<le> \<bar>i\<bar> + 48" "\<bar>i\<bar> < 2 ^ 31"
  shows "atoi (dec_text i) = None"
proof -
  define u where "u = nat \<bar>i\<bar>"
  have u: "2147483600 \<le> u" "u < 2147483648" using assms unfolding u_def by auto
  let ?ds = "digits 10 (u div 10)" and ?c = "\<lambda>t. word_of_nat t + 48 :: u8"
  have dig: "digits 10 u = ?ds @ [u mod 10]" using u by (simp add: digits.simps [of 10 u])
  have lt: "\<forall>d\<in>set (digits 10 u). d < 10" by (rule digits_less) simp
  have v: "foldl (\<lambda>v d. v * 10 + d) 0 ?ds = u div 10" using num_of_digits [of 10 "u div 10"] by (simp add: num_of_def)
  have d10: "u mod 10 < 10" by simp
  have "int (u div 10) * 10 + int (u mod 10) = int u" by presburger
  then have "imul (int (u div 10)) 10 = Some (int (u div 10) * 10) \<and> iadd (int (u div 10) * 10) (int (u mod 10) + 48) = None"
    by (rule last_digit_overflow) (use u in simp_all)
  then have last: "atoi_loop [?c (u mod 10)] (int (u div 10)) = None"
    using dec_char [OF d10] dec_char_range [OF d10] by simp
  have "atoi_loop (map ?c ?ds @ [?c (u mod 10)]) (int 0) = atoi_loop [?c (u mod 10)] (int (u div 10))"
  proof (subst atoi_loop_append)
    show "\<forall>d\<in>set ?ds. d < 10" using lt unfolding dig by simp
    show "foldl (\<lambda>v d. v * 10 + d) 0 ?ds + 48 < 2 ^ 31" unfolding v using u by simp
  qed (simp only: v)
  then have "atoi_loop (map ?c ?ds @ [?c (u mod 10)]) (int 0) = None" unfolding last .
  then have loop: "atoi_loop (map ?c (digits 10 u)) 0 = None" unfolding dig map_append list.map int_ops(1) .
  have "digits 10 u \<noteq> []" unfolding dig by (rule snoc_eq_iff_butlast [THEN iffD1, OF refl, THEN conjunct1])
  then obtain d ds where ds: "digits 10 u = d # ds" by (cases "digits 10 u") simp_all
  have d: "d < 10" using lt unfolding ds by simp
  have "48 \<le> ?c d" using dec_char_range [OF d] by simp
  moreover have "w \<notin> {32, 9, 43, 45}" if "48 \<le> w" for w :: u8 using that by auto
  ultimately have "?c d \<notin> {32, 9, 43, 45}" by blast
  then have sk: "atoi_skip (map ?c (digits 10 u)) = (False, map ?c (digits 10 u))" using ds by simp
  have "atoi_skip (45 # map ?c (digits 10 u)) = (True, map ?c (digits 10 u))" by simp
  moreover have "dec_text i = (if i < 0 then [45] else []) @ map ?c (digits 10 u)"
    using u unfolding dec_text_def u_def by simp
  ultimately show ?thesis using sk loop by (simp add: atoi_def)
qed

text \<open>\<open>strtol\<close> reads at most nine digits; behind the ninth, \<open>*end\<close> is one character short.\<close>

lemma strtol_loop_digits:
  "\<forall>i<length ds. strtol_digit (scast (m (s + i))) = Some (ds ! i) \<Longrightarrow> length ds \<le> k \<Longrightarrow>
   (length ds = k \<or> strtol_digit (scast (m (s + length ds))) = None) \<Longrightarrow>
   strtol_loop k m s base v =
     (if length ds = k then s + k else s + length ds + 1, foldl (\<lambda>v d. v * base + d) v ds)"
proof (induction ds arbitrary: k s v)
  case Nil
  then show ?case by (cases k) auto
next
  case (Cons d ds)
  then obtain k' where k: "k = Suc k'" by (cases k) auto
  have "strtol_digit (scast (m s)) = Some d" using Cons.prems(1) by (metis add_0_right length_greater_0_conv list.distinct(1) nth_Cons_0)
  moreover have "\<forall>i<length ds. strtol_digit (scast (m (Suc s + i))) = Some (ds ! i)"
    using Cons.prems(1) by fastforce
  moreover have "length ds = k' \<or> strtol_digit (scast (m (Suc s + length ds))) = None"
    using Cons.prems(3) k by simp
  ultimately show ?case using Cons.IH [of "Suc s" k' "v * base + d"] Cons.prems(2) k by simp
qed

lemma strtol_ok:
  assumes "\<forall>i<length ds. strtol_digit (scast (m (s + i))) = Some (ds ! i)"
    "strtol_digit (scast (m (s + length ds))) = None" "m s \<noteq> 45" "\<not> (m s = 48 \<and> m (Suc s) = 120)"
  shows "length ds < 9 \<Longrightarrow> strtol m s base = Some (foldl (\<lambda>v d. v * base + d) 0 ds, s + length ds)"
    and "length ds = 9 \<Longrightarrow> strtol m s base = Some (foldl (\<lambda>v d. v * base + d) 0 ds, s + 8)"
  using assms strtol_loop_digits [OF assms(1), of 9 base 0] by (auto simp: strtol_def)

subsection \<open>Batched output\<close>

text \<open>What has been printed: the messages sent and the buffer.\<close>

definition printed :: "strhyper_t \<Rightarrow> u8 list" where
  "printed g = concat (sh_sent g) @ take (sh_size g) (sh_str g)"

definition strhyper_ok :: "strhyper_t \<Rightarrow> bool" where
  "strhyper_ok g \<longleftrightarrow> length (sh_str g) = STRHYPERSZ \<and> sh_size g < STRHYPERSZ \<and>
     (\<forall>b\<in>set (sh_sent g). length b \<le> STRHYPERSZ)"

lemma strhyper_init_ok: "strhyper_ok strhyper_init" "printed strhyper_init = []"
  by (simp_all add: strhyper_ok_def strhyper_init_def STRHYPERSZ_def printed_def)

lemma flush_ok:
  assumes "length (sh_str g) = STRHYPERSZ" "sh_size g \<le> STRHYPERSZ" "\<forall>b\<in>set (sh_sent g). length b \<le> STRHYPERSZ"
  shows "strhyper_ok (flush g) \<and> printed (flush g) = printed g \<and> concat (sh_sent (flush g)) = printed g"
  using assms by (auto simp: strhyper_ok_def flush_def printed_def STRHYPERSZ_def)

lemma printchar_ok:
  assumes "strhyper_ok g"
  shows "\<exists>g'. printchar c g = Some g' \<and> strhyper_ok g' \<and> printed g' = printed g @ [c]"
proof -
  let ?g = "g\<lparr>sh_str := (sh_str g)[sh_size g := c], sh_size := sh_size g + 1\<rparr>"
  have a: "arr_set (sh_str g) (int (sh_size g)) c = Some ((sh_str g)[sh_size g := c])"
    using assms by (intro arr_set_nat) (simp add: strhyper_ok_def)
  have p: "printed ?g = printed g @ [c]"
    using assms by (simp add: printed_def strhyper_ok_def take_Suc_conv_app_nth)
  have "strhyper_ok (flush ?g) \<and> printed (flush ?g) = printed ?g \<and> concat (sh_sent (flush ?g)) = printed ?g"
    by (rule flush_ok) (use assms in \<open>auto simp: strhyper_ok_def\<close>)
  then show ?thesis using a p assms by (auto simp: printchar_def Let_def strhyper_ok_def)
qed

lemma emit_ok: "strhyper_ok g \<Longrightarrow> \<exists>g'. emit cs g = Some g' \<and> strhyper_ok g' \<and> printed g' = printed g @ cs"
proof (induction cs arbitrary: g)
  case (Cons c cs)
  from printchar_ok [OF Cons.prems, of c] obtain g1 where
    g1: "printchar c g = Some g1" "strhyper_ok g1" "printed g1 = printed g @ [c]" by blast
  from Cons.IH [OF g1(2)] g1 show ?case by auto
qed simp

lemma strhyper_flush:
  "strhyper_ok g \<Longrightarrow> strhyper_ok (flush g) \<and> printed (flush g) = printed g \<and> concat (sh_sent (flush g)) = printed g"
  by (rule flush_ok) (auto simp: strhyper_ok_def)

lemma puts_guest_ok:
  assumes "strhyper_ok g"
  shows "\<exists>g'. puts_guest str g = Some g' \<and> strhyper_ok g' \<and> sh_size g' = 0 \<and>
    concat (sh_sent g') = printed g @ str"
proof -
  from emit_ok [OF assms, of str] obtain g1 where
    g1: "emit str g = Some g1" "strhyper_ok g1" "printed g1 = printed g @ str" by blast
  then show ?thesis using strhyper_flush [OF g1(2)]
    by (cases "0 < sh_size g1") (auto simp: puts_guest_def printed_def flush_def)
qed

lemma printf_guest_ok:
  assumes "strhyper_ok g" "print_guest (length fmt) fmt args = Some (out, pc)"
  shows "\<exists>g'. printf_guest fmt args g = Some (pc, g') \<and> strhyper_ok g' \<and> sh_size g' = 0 \<and>
    concat (sh_sent g') = printed g @ out"
proof -
  from emit_ok [OF assms(1), of out] obtain g1 where
    g1: "emit out g = Some g1" "strhyper_ok g1" "printed g1 = printed g @ out" by blast
  then show ?thesis using strhyper_flush [OF g1(2)] assms(2) by (auto simp: printf_guest_def flush_def)
qed

subsection \<open>Conversions in a format\<close>

lemma prints_guest_prints: "prints_guest = prints"
  by (intro ext) (simp add: prints_guest_def prints_def Let_def)

text \<open>The larger buffer makes no difference to a conversion that fits the kernel's.\<close>

lemma printi_digits_room:
  "printi_digits u b l room acc = Some (s, r) \<Longrightarrow> printi_digits u b l (room + k) acc = Some (s, r + k)"
proof (induction u b l room acc rule: printi_digits.induct)
  case (1 u b l room acc)
  show ?case
  proof (cases "u = 0 \<or> b \<le> 1")
    case True
    then show ?thesis using "1.prems" by (simp add: printi_digits.simps [of u b])
  next
    case False
    then have "room \<noteq> 0" using "1.prems" by (auto simp: printi_digits.simps [of u b] split: if_splits)
    moreover from this have "room + k - 1 = room - 1 + k" by simp
    ultimately show ?thesis using 1 False by (simp add: printi_digits.simps [of u b])
  qed
qed

lemma printi_guest_printi:
  assumes "printi i b sg width pad l = Some s"
  shows "printi_guest i b sg width pad l = Some s"
proof (cases "i = 0")
  case True
  then show ?thesis using assms by (simp add: printi_def printi_guest_def prints_guest_prints)
next
  case False
  let ?neg = "sg \<and> b = 10 \<and> i < 0"
  let ?u = "if ?neg then nat (- i) else nat (i mod 2 ^ 32)"
  show ?thesis
  proof (cases "printi_digits ?u b l 11 []")
    case None
    then show ?thesis using assms False by (simp add: printi_def Let_def bind_eq_Some_conv split del: if_split)
  next
    case (Some tr)
    obtain t r where tr: "tr = (t, r)" by force
    have "printi_digits ?u b l 29 [] = Some (t, r + 18)"
      using printi_digits_room [of ?u b l 11 "[]" t r 18] Some tr by simp
    then show ?thesis using assms False Some tr
      unfolding printi_def printi_guest_def prints_guest_prints Let_def
      by (cases "ensure (\<not> (?neg \<and> i = - (2 ^ 31)))"; cases ?neg; cases "width \<noteq> 0 \<and> pad AND PAD_ZERO \<noteq> 0"; cases "0 < r")
        (auto simp: ensure_def)
  qed
qed

lemma print_guest_dec:
  assumes "in_s32 i" "i \<noteq> - (2 ^ 31)"
  shows "print_guest (Suc (Suc 0)) [37, 100] [GInt i] = Some (dec_text i, length (dec_text i))"
  using printi_guest_printi [OF printi_signed_dec [OF assms, of 97]]
  by (simp add: conv_guest_def Let_def)

subsection \<open>Time\<close>

text \<open>When the counter has wrapped the time measured is one tick short.\<close>

lemma calc_diff_time_eq: "calc_diff_time now old = (if old \<le> now then now - old else now - old - 1)"
  by (simp add: calc_diff_time_def)

lemma wait_time_eq: "wait_time MILISECOND now old ms \<longleftrightarrow> ms * MILISECOND < calc_diff_time now old"
  by (simp add: wait_time_def calc_diff_time_def Let_def)

lemma mdelay_loop_Some:
  "mdelay_loop MILISECOND now msec cs = Some rest \<longleftrightarrow>
     (\<exists>pre c. cs = pre @ c # rest \<and> wait_time MILISECOND c now msec \<and> (\<forall>x\<in>set pre. \<not> wait_time MILISECOND x now msec))"
proof (induction cs)
  case (Cons c cs)
  show ?case
  proof (cases "wait_time MILISECOND c now msec")
    case True
    then show ?thesis by (auto simp: Cons_eq_append_conv)
  next
    case False
    then show ?thesis using Cons by (auto simp: Cons_eq_append_conv intro: exI [of _ "c # _"])
  qed
qed simp

lemma tolower_toupper: "97 \<le> c \<Longrightarrow> c \<le> 122 \<Longrightarrow> tolower (toupper c) = c" for c :: u32
proof -
  assume a: "97 \<le> c" "c \<le> 122"
  then have "97 \<le> uint c" "uint c \<le> 122" by (simp_all add: word_le_def)
  moreover from this have "uint (c - 32) = uint c - 32" by (simp add: uint_word_ariths)
  ultimately have "65 \<le> c - 32" "c - 32 \<le> 90" by (simp_all add: word_le_def)
  then show ?thesis using a by (simp add: tolower_def toupper_def algebra_simps)
qed

lemma gets_loop_line:
  "\<forall>x\<in>set xs. 0 \<le> sint x \<and> sint x \<noteq> 10 \<Longrightarrow>
     gets_loop (xs @ 10 # rest) m cs = Some (10, cs + length xs, store_bytes m cs (map ucast xs), rest)"
  by (induction xs arbitrary: m cs) auto

lemma gets_line:
  "\<forall>x\<in>set xs. 0 \<le> sint x \<and> sint x \<noteq> 10 \<Longrightarrow>
     gets m s (xs @ 10 # rest) = Some (Some s, (store_bytes m s (map ucast xs))(s + length xs := 0), rest)"
  by (simp add: gets_def gets_loop_line)

end
