(* ===== verification/Demo.thy ===== *)
theory Demo
  imports Startup Fairness LinkedList Libc GuestText
begin

text \<open>
  A small system on which the properties are exercised: the Baikal port, two VMs with one VCPU
  each at the heap addresses 100 and 200, the first one in execution, and a TLB whose last slot is
  the window of the hypervisor.
\<close>

definition demo_vmconf :: "u32 \<Rightarrow> u32 \<Rightarrow> vmconf_t" where
  "demo_vmconf base prio = \<lparr>cfg_vm_name = ''vm'', ram_base = base, cfg_os_type = 0, cfg_priority = prio,
     fast_int_sz = 1, fast_interrupts = [2], interrupt_redirect_sz = 0, interrupt_redirect = [],
     num_tlb_entries = 1,
     cfg_tlb = [\<lparr>cfg_entrylo0 = 0x100, cfg_entrylo1 = 0x101, cfg_pagemask = 0, cfg_entryhi = 0x80000, cfg_coherency = 2\<rparr>],
     devices_mapping_sz = 1, devices = [\<lparr>start_addr = 0xBF822000, dm_size = 0x20\<rparr>]\<rparr>"

definition demo_conf :: "port \<Rightarrow> hv_conf" where
  "demo_conf p = \<lparr>c_port = p, NVMACHINES = 2, VMCONF = [demo_vmconf 0x80100000 50, demo_vmconf 0x80200000 100],
     QUANTUM_SCHEDULER_MS = 10, GUEST_QUANTUM_MS = 1, CPU_FREQ = 200000000, UARTSTAT = 0xBF822210,
     UARTTXREG = 0xBF822220, UART_IRQ_TX = 147, cpu_idle_addr = 0x80001000, heap_start = 0x1000, heap_size = 0x4000,
     heap_junk = (\<lambda>_. 0), drivers_table = [D_intervm_init, D_virtual_io_init], buffer_tx_addr = 0x8000, tx_buf_addr = 0x80009000, b_buf_addr = 0x8000A000,
     CPU_SPEED = 200000000, ram_size = 0x8000000,
     dev = (\<lambda>n a. if a = 0x1F822210 \<and> 1 < n then 0x200 else 0), volatile_cp0 = (\<lambda>n r. of_nat n)\<rparr>"

definition demo_vm :: "u32 \<Rightarrow> vmconf_t \<Rightarrow> vm_t" where
  "demo_vm i c = \<lparr>vm_name = ''vm'', vm_ident = i, base_addr = ram_base c, os_type = 0, vm_init = 1, vmconf = c,
     ntlbent = 1, tlbentries = []\<rparr>"

definition demo_vcpu :: "u32 \<Rightarrow> u32 \<Rightarrow> nat \<Rightarrow> vcpu_t" where
  "demo_vcpu i prio m = zero_vcpu\<lparr>vc_ident := i, priority := prio, priority_rem := prio, vc_vm := m, gpr := Some (1000 + m)\<rparr>"

definition demo_entry :: "u32 \<Rightarrow> tlb_hw" where
  "demo_entry g = \<lparr>hw_guestid = g, hw_lo0 = 0x4006, hw_lo1 = 0x4046, hw_mask = 0, hw_hi = 0x80000000\<rparr>"

definition demo_ring :: "nat queue_t" where
  "demo_ring = \<lparr>q_size = 3, q_elem = 2, q_head = 0, q_tail = 2, q_data = 500, q_self = 600, q_arr = [100, 200, 0]\<rparr>"

definition demo :: "port \<Rightarrow> hv" where
  "demo p = \<lparr>conf = demo_conf p, cp0 = (\<lambda>_. 0), gcp0 = (\<lambda>_. 0), shadow = (\<lambda>_ _. 0), frame = (\<lambda>_. 0), ie = True,
     tlb = [Some (demo_entry 1), Some (demo_entry 2)] @ replicate 14 None, mem = (\<lambda>a. ucast a), io = [], vol_n = 0, tx_view = (\<lambda>_. 0),
     heap = \<lparr>freep = None, sfreep = None, sfree_ptr = 0, sfree_size = 0, hdr_ptr = (\<lambda>_. 0), hdr_size = (\<lambda>_. 0)\<rparr>,
     vms = [10 \<mapsto> demo_vm 1 (demo_vmconf 0x80100000 50), 20 \<mapsto> demo_vm 2 (demo_vmconf 0x80200000 100)],
     vcpus = [100 \<mapsto> demo_vcpu 1 50 10, 200 \<mapsto> demo_vcpu 2 100 20],
     gpr_areas = (\<lambda>_ _. 0), vcpu_ready_list = Some demo_ring, vcpu_executing = Some 100, tick_count = 0, pending = 0,
     next_vm_id = 3, next_tlbindex = 2, next_vcpu_id = 3, hypercall_table = replicate 30 None,
     interrupt_handlers = replicate (case p of PIC32MZ \<Rightarrow> 10 | BAIKAL_T1 \<Rightarrow> 64) None,
     vmconf_p = [Some (demo_vmconf 0x80100000 50), Some (demo_vmconf 0x80200000 100)],
     transfers = replicate 2 zero_transfer, active_transfer = - 1, interrupt_mapping_sz = 0, interrupt_mapping_list = [],
     timer_past = 0, usb = usb_reset, eth = eth_reset, test_ticks = 0\<rparr>"

text \<open>A hypercall with three arguments in the registers of the Baikal port.\<close>

definition demo_call :: "u32 \<Rightarrow> u32 \<Rightarrow> u32 \<Rightarrow> hv" where
  "demo_call x y z = (demo BAIKAL_T1)\<lparr>frame := (\<lambda>_. 0)(4 := x, 5 := y, 6 := z)\<rparr>"

text \<open>The machine before the boot, with its heap set up.\<close>

definition demo_heap :: mheap where
  "demo_heap = \<lparr>freep = Some 0x1000, sfreep = None, sfree_ptr = 0, sfree_size = 0, hdr_ptr = (\<lambda>_. 0x1000), hdr_size = (\<lambda>_. 2000)\<rparr>"

definition demo_reset :: hv where
  "demo_reset = (demo BAIKAL_T1)\<lparr>vcpus := (\<lambda>_. None), vms := (\<lambda>_. None), tlb := replicate 16 None, vcpu_executing := None,
     vcpu_ready_list := None, next_vm_id := 1, next_vcpu_id := 1, next_tlbindex := 0, heap := demo_heap\<rparr>"

lemmas demo_defs = demo_def demo_conf_def demo_vmconf_def demo_vm_def demo_vcpu_def zero_vcpu_def demo_ring_def demo_entry_def

lemma demo_simps [simp]:
  "conf (demo p) = demo_conf p" "c_port (demo_conf p) = p" "vcpu_executing (demo p) = Some 100"
  "vcpus (demo p) 100 = Some (demo_vcpu 1 50 10)" "vcpus (demo p) 200 = Some (demo_vcpu 2 100 20)"
  "vcpu_ready_list (demo p) = Some demo_ring" "pending (demo p) = 0" "tick_count (demo p) = 0"
  "vms (demo p) 10 = Some (demo_vm 1 (demo_vmconf 0x80100000 50))"
  "vms (demo p) 20 = Some (demo_vm 2 (demo_vmconf 0x80200000 100))"
  "QUANTUM_SCHEDULER_MS (demo_conf p) = 10" "NVMACHINES (demo_conf p) = 2" "ram_size (demo_conf p) = 0x8000000"
  by (simp_all add: demo_defs)

lemma demo_vcpu_simps [simp]:
  "vc_ident (demo_vcpu i q m) = i" "priority (demo_vcpu i q m) = q" "priority_rem (demo_vcpu i q m) = q"
  "critical (demo_vcpu i q m) = 0" "state (demo_vcpu i q m) = VCPU_RUNNING" "vc_vm (demo_vcpu i q m) = m"
  "vc_init (demo_vcpu i q m) = 0" "guestclt2 (demo_vcpu i q m) = 0" "gpr (demo_vcpu i q m) = Some (1000 + m)"
  "messages (demo_vcpu i q m) = messages zero_vcpu"
  by (simp_all add: demo_vcpu_def zero_vcpu_def)

lemma demo_vm_simps [simp]:
  "vm_ident (demo_vm i c) = i" "base_addr (demo_vm i c) = ram_base c" "vmconf (demo_vm i c) = c"
  "ram_base (demo_vmconf b q) = b" "cfg_priority (demo_vmconf b q) = q"
  by (simp_all add: demo_vm_def demo_vmconf_def)

lemma demo_call_simps [simp]:
  "conf (demo_call x y z) = demo_conf BAIKAL_T1" "vcpus (demo_call x y z) = vcpus (demo BAIKAL_T1)"
  "vms (demo_call x y z) = vms (demo BAIKAL_T1)" "vcpu_executing (demo_call x y z) = Some 100"
  "mem (demo_call x y z) = mem (demo BAIKAL_T1)" "tlb (demo_call x y z) = tlb (demo BAIKAL_T1)"
  "MoveFromPreviousGuestGPR REG_A0 (demo_call x y z) = x" "MoveFromPreviousGuestGPR REG_A1 (demo_call x y z) = y"
  "MoveFromPreviousGuestGPR REG_A2 (demo_call x y z) = z"
  by (simp_all add: demo_call_def MoveFromPreviousGuestGPR_def demo_def)

lemma demo_vcpus: "vcpus (demo p) = [100 \<mapsto> demo_vcpu 1 50 10, 200 \<mapsto> demo_vcpu 2 100 20]"
  by (simp add: demo_def)

lemma demo_ring_ok: "ring_inv demo_ring" "ring_items demo_ring = [100, 200]" "ring_cap demo_ring = 2"
  by (simp_all add: ring_inv_def demo_ring_def ring_items_def ring_at_def ring_cap_def numeral_2_eq_2 upt_conv_Cons)

lemma demo_calm: "calm (demo p) [100, 200]"
  using demo_ring_ok by (simp add: calm_def sched_inv_def ready_def crit_bit_def)

lemma demo_sched: "hv_sched (demo p) [100, 200]"
  using demo_calm by (simp add: hv_sched_def calm_def)

lemma demo_kstate: "kstate (demo p)"
proof -
  have "dom (vcpus (demo p)) = {100, 200}" by (auto simp: demo_vcpus)
  moreover have "mailboxes_ok (demo p)"
    using zero_mailbox by (auto simp: mailboxes_ok_def demo_vcpus split: if_splits)
  ultimately show ?thesis using demo_sched [of p] unfolding kstate_def by (intro conjI exI [of _ "[100, 200]"]) simp_all
qed

lemma demo_call_sched: "hv_sched (demo_call x y z) [100, 200]"
  by (rule hv_sched_cong [OF demo_sched [of BAIKAL_T1]]) (simp_all add: demo_call_def)

lemma demo_window_slot: "window_slot 15 (demo p)"
proof -
  have "hw_guestid e \<noteq> 0" if "j < 16" "j \<noteq> 15" "tlb (demo p) ! j = Some e" for j e
    using that by (auto simp: demo_def demo_entry_def nth_append nth_Cons' split: if_splits)
  then show ?thesis by (simp add: window_slot_def demo_def)
qed

lemma demo_window: "window_ready (demo_call x y z) (demo_vm 1 (demo_vmconf 0x80100000 50))"
  using demo_window_slot [of BAIKAL_T1]
  by (simp add: window_ready_def vm_window_def window_slot_def cur_vm_def cur_vcpu_def)

lemma demo_buffer:
  assumes "unat n \<le> 4096" "ram_size (conf s) = 0x8000000"
  shows "guest_buffer s (demo_vm i (demo_vmconf 0x80100000 q)) 0x80000010 n"
    "guest_buffer s (demo_vm i (demo_vmconf 0x80200000 q)) 0x80000010 n"
proof -
  have "is_ram s (b + of_nat j)" if "j < 4096" "unat b < 0x300000" for j b
  proof -
    have "unat (of_nat j :: u32) = j" using that by (simp add: unat_of_nat take_bit_nat_eq_self)
    then have "unat (b + of_nat j :: u32) = unat b + j" using that by (subst unat_add_u32) simp_all
    then show ?thesis using that assms(2) by (simp add: is_ram_def word_less_nat_alt)
  qed
  from this [where b = "0x100010"] this [where b = "0x200010"]
  show "guest_buffer s (demo_vm i (demo_vmconf 0x80100000 q)) 0x80000010 n"
    "guest_buffer s (demo_vm i (demo_vmconf 0x80200000 q)) 0x80000010 n"
    using assms(1) by (simp_all add: guest_buffer_def guest_phys_def)
qed

lemma demo_bytes:
  assumes "k \<le> 2"
  shows "bytes_at (mem (demo p)) (guest_phys 0x80100000 0x80000010) k = take k [0x10, 0x11]"
proof -
  consider "k = 0" | "k = Suc 0" | "k = Suc (Suc 0)" using assms by linarith
  then show ?thesis by cases (simp_all add: bytes_at_def guest_phys_def demo_def)
qed

lemma demo_reset_ok: "reset_state 0x1000 16000 demo_reset" "sane_conf (conf demo_reset)"
  "boot_cost (conf demo_reset) < 16000" "conf_tlb_entries (conf demo_reset) \<le> length (tlb demo_reset)"
  by (simp_all add: reset_state_def demo_reset_def heap_ready_def one_block_def demo_heap_def sane_conf_def good_conf_def
      boot_cost_def vm_cost_def alloc_cost_def GPR_SIZE_def demo_defs)

text \<open>The machine at power on: the heap not yet set up, a processor with the virtualization module.\<close>

definition demo_off :: hv where
  "demo_off = demo_reset\<lparr>heap := demo_heap\<lparr>freep := None\<rparr>,
     cp0 := (\<lambda>_. 0)((CP0_CONFIG3, 3) := 0x00800000, (CP0_GUESTCTL0, 6) := GUESTCTL0_G1),
     conf := (demo_conf BAIKAL_T1)\<lparr>drivers_table := [D_intervm_init]\<rparr>\<rparr>"

lemma demo_off_proc: "fst (LowLevelProcInit demo_off) = 0" "snd (LowLevelProcInit demo_off) = demo_off\<lparr>cp0 := cp0 (snd (LowLevelProcInit demo_off))\<rparr>"
  by (simp_all add: LowLevelProcInit_def demo_off_def hasVZ_def isRootMode_def isRootASID_def hasGuestID_def
      has1KPageSupport_def ConfigureGPRShadow_def num_shadow_gprs_def setGTOffset_def mfc0_def mtc0_def Let_def)

lemma demo_off_heap:
  obtains h where "init_mem (heap_start (conf demo_off)) (heap_size (conf demo_off)) (heap demo_off) = Some h"
    "heap_ready h 0x1008 16376"
proof -
  have "freep (demo_heap\<lparr>freep := None\<rparr>) = None" "unat (0x3FF8 :: u32) + 7 < 2 ^ 32" by simp_all
  from HeapInit_one_block [OF this, of "0x1008"] obtain h where
    "HeapInit 0x1008 0x3FF8 (demo_heap\<lparr>freep := None\<rparr>) = Some h" "one_block 0x1008 2047 h" by auto
  then show thesis using that by (simp add: init_mem_def demo_conf_def demo_off_def heap_ready_def)
qed

lemma demo_off_reset:
  assumes "heap_ready h 0x1008 16376"
  shows "reset_state 0x1008 16376 (demo_off\<lparr>cp0 := c, heap := h\<rparr>)"
  using demo_reset_ok(1) assms by (simp add: reset_state_def demo_off_def)

lemma demo_off_conf: "tlb demo_off = replicate 16 None" "sane_conf (conf demo_off)" "boot_cost (conf demo_off) < 16376"
  "conf_tlb_entries (conf demo_off) \<le> 16" "NVMACHINES (conf demo_off) = 2"
  using demo_reset_ok(2,3) by (simp_all add: demo_off_def demo_reset_def sane_conf_def boot_cost_def demo_conf_def demo_vmconf_def)

lemma demo_off_low:
  obtains c where "LowLevelProcInit demo_off = (0, demo_off\<lparr>cp0 := c\<rparr>)"
  using demo_off_proc by (metis prod.collapse)

lemma demo_off_boots: "\<exists>t. hyper_init Some xinit demo_off = Some t"
proof -
  obtain h where h: "init_mem (heap_start (conf demo_off)) (heap_size (conf demo_off)) (heap demo_off) = Some h"
    "heap_ready h 0x1008 16376" by (rule demo_off_heap)
  obtain c where c: "LowLevelProcInit demo_off = (0, demo_off\<lparr>cp0 := c\<rparr>)" by (rule demo_off_low)
  let ?s = "demo_off\<lparr>cp0 := c, heap := h\<rparr>"
  obtain s' ps a' where s': "initializeMachines ?s = Some s'" "conf s' = conf ?s"
    by (rule initializeMachines_boot [OF demo_off_reset [OF h(2), of c]]) (use demo_off_conf in simp_all)
  have "drivers_table (conf demo_off) = [D_intervm_init]" by (simp add: demo_off_def)
  then show ?thesis using h(1) c s' by (simp add: hyper_init_def run_initcall_def)
qed

text \<open>A text with the delimiter \<open>','\<close> at 100, and the set of delimiters at 200.\<close>

definition demo_text :: bmem where
  "demo_text = (\<lambda>_. 0)(100 := 44, 101 := 97, 102 := 44, 103 := 44, 104 := 98, 105 := 99, 200 := 44)"

subsection \<open>A running USB device with a transfer to start\<close>

definition demo_usb :: "u8 list \<Rightarrow> hv" where
  "demo_usb bs = (demo PIC32MZ)\<lparr>usb := usb_reset\<lparr>
     usb_status := (usb_status usb_reset)\<lparr>us_state := RUNNING, connected := 1, descriptor_available := 1\<rparr>,
     usb_transfer_status := \<lparr>ut_state = TRANSFER_START, pkt_sz = 0\<rparr>, buffer_tx := bs @ replicate (64 - length bs) 0\<rparr>\<rparr>"

lemma demo_usb_ok:
  assumes "length bs \<le> 64"
  shows "usb_ok (usb (demo_usb bs))" "dev_state (demo_usb bs) = RUNNING" "transfer_state (demo_usb bs) = TRANSFER_START"
  using assms by (simp_all add: demo_usb_def usb_ok_def status_ok_def usb_reset_def zero_receive_def dev_state_def
      transfer_state_def)

subsection \<open>A packet in the receive ring\<close>

text \<open>
  Descriptor 0 at 0xB000 holds a packet of 60 bytes at 0xD000, addressed to 00:01:02:03:04:05, the second
  VM; the caller is the first one. Descriptor 1 belongs to the controller.
\<close>

definition demo_eth_mem :: "u32 \<Rightarrow> u8" where
  "demo_eth_mem = set_mem32 (set_mem32 (set_mem32 (set_mem32 (\<lambda>a. ucast a) 0xB000 0xC03C0000) 0xB004 0xD000) 0xB00C 60) 0xB010 0x80"

definition demo_ctrl :: "u32 \<Rightarrow> u8 list \<Rightarrow> vm_ctrl_buffer" where
  "demo_ctrl i mac = \<lparr>cb_vm_id = i, cb_mac = mac, cb_input = 0, cb_output = 0, frame_list = replicate 10 None\<rparr>"

definition demo_eth :: "u32 \<Rightarrow> hv" where
  "demo_eth n = (demo_call 0x80000010 n 0)\<lparr>mem := demo_eth_mem, eth := eth_reset\<lparr>
     eth_port := (eth_port eth_reset)\<lparr>is_up := 1, rx_desc := 0xA000B000, tx_desc := 0xA000C000\<rparr>,
     VMCTRLbuf := [demo_ctrl 1 [9, 9, 9, 9, 9, 9], demo_ctrl 2 [0, 1, 2, 3, 4, 5]], vm_counter := 2\<rparr>\<rparr>"

lemma demo_eth_simps [simp]:
  "conf (demo_eth n) = demo_conf BAIKAL_T1" "mem (demo_eth n) = demo_eth_mem" "vol_n (demo_eth n) = 0"
  "MoveFromPreviousGuestGPR REG_A0 (demo_eth n) = 0x80000010" "MoveFromPreviousGuestGPR REG_A1 (demo_eth n) = n"
  by (simp_all add: demo_eth_def demo_call_def demo_def MoveFromPreviousGuestGPR_def)

lemma demo_eth_window: "window_ready (demo_eth n) (demo_vm 1 (demo_vmconf 0x80100000 50))"
  using demo_window [of "0x80000010" n 0]
  by (simp add: demo_eth_def window_ready_def vm_window_def window_slot_def cur_vm_def cur_vcpu_def)

lemma demo_eth_window_two:
  "window_ready ((demo_eth n)\<lparr>mem := m, eth := e, vcpu_executing := Some 200\<rparr>) (demo_vm 2 (demo_vmconf 0x80200000 100))"
  using demo_window_slot [of BAIKAL_T1]
  by (simp add: demo_eth_def window_ready_def vm_window_def window_slot_def cur_vm_def cur_vcpu_def)

lemma demo_eth_ram: "unat pa + k < 0x8000000 \<Longrightarrow> dma_ram (demo_eth n) pa k"
  by (simp add: dma_ram_def demo_conf_def)

lemma demo_eth_rings: "rx_ring (demo_eth n) 0xB000" "tx_ring (demo_eth n) 0xC000"
  using demo_eth_ram [of "0xB000" 784] demo_eth_ram [of "0xC000" 112]
  by (simp_all add: rx_ring_def tx_ring_def MACH_PHYS_TO_VIRT_def) (simp_all add: demo_eth_def)

lemma demo_eth_packet: "packet_waiting (demo_eth n) 0xB000 [(0, 0xD000, 60)]"
proof -
  have m: "mem32 demo_eth_mem 0xB000 = 0xC03C0000" "mem32 demo_eth_mem 0xB004 = 0xD000" "mem32 demo_eth_mem 0xB00C = 60"
    by (simp_all add: demo_eth_mem_def mem32_def set_mem32_def)
  have r: "desc_ready demo_eth_mem 0xB000 0 0xD000 60 True"
    by (simp add: desc_ready_def desc_hdr_def desc_addr_def m)
  then show ?thesis
    using demo_eth_ram [of "0xD000" 60 n] m
    by (simp add: packet_waiting_def full_parts_def seg_total_def) (simp add: demo_eth_def eth_reset_def)
qed

lemma demo_eth_ok: "eth_ok (eth (demo_eth n))" "is_up (eth_port (eth (demo_eth n))) = 1"
  by (simp_all add: demo_eth_def eth_ok_def eth_reset_def demo_ctrl_def ctrl_ok_def)

lemma demo_eth_bytes: "j < 60 \<Longrightarrow> demo_eth_mem (0xD000 + of_nat j) = of_nat j"
proof -
  assume j: "j < 60"
  have u: "unat (of_nat j :: u32) = j" using j by (intro unat_of_nat_u32) simp
  have "unat (0xD000 + of_nat j :: u32) = 0xD000 + j" using j u by (subst unat_add_u32) simp_all
  then have "0xD000 + of_nat j \<noteq> (c :: u32)" if "unat c < 0xD000" for c using that by auto
  then have "demo_eth_mem (0xD000 + of_nat j) = ucast (0xD000 + of_nat j :: u32)"
    by (simp add: demo_eth_mem_def set_mem32_def)
  also have "\<dots> = (of_nat (0xD000 + j) :: u8)"
  proof -
    have "ucast (of_nat k :: u32) = (of_nat k :: u8)" for k by transfer simp
    from this [of "0xD000 + j"] show ?thesis by simp
  qed
  finally show ?thesis by simp
qed

end
