(* ===== verification/SoftInt.thy ===== *)
theory SoftInt
  imports Prelude
begin

text \<open>
  Integer arithmetic in software for the bare-metal guests, \<open>bare-metal-apps/lib/libc.c\<close>:
  multiplication, division and 64-bit shifts as the compiler's run-time support names them (without
  the leading underscores). Signed values are words read by \<open>sint\<close>; a signed negation or sum that
  overflows and a shift by 32 or more are undefined and \<open>None\<close>. The theorems compare each routine
  with the arithmetic it stands for.
\<close>

subsection \<open>The two halves of a 64-bit value\<close>

definition dw_low :: "u64 \<Rightarrow> u32" where
  "dw_low u = ucast u"

definition dw_high :: "u64 \<Rightarrow> u32" where
  "dw_high u = ucast (drop_bit 32 u)"

definition dw_all :: "u32 \<Rightarrow> u32 \<Rightarrow> u64" where
  "dw_all high low = push_bit 32 (ucast high) OR ucast low"

text \<open>Signed negation and sum.\<close>

definition neg_s :: "'a::len word \<Rightarrow> 'a word option" where
  "neg_s x = (if sint x = - (2 ^ (LENGTH('a) - 1)) then None else Some (- x))"

definition add_s :: "'a::len word \<Rightarrow> 'a word \<Rightarrow> 'a word option" where
  "add_s x y = (if sint x + sint y = sint (x + y) then Some (x + y) else None)"

lemma unat_half_less: "x \<noteq> 0 \<Longrightarrow> unat (x div 2) < unat x" for x :: "'a::len word"
  by (metis div_less_dividend drop_bit_Suc drop_bit_0 One_nat_def drop_bit_eq_div one_less_numeral_iff power_one_right
      semiring_norm(76) unat_div unat_drop_bit_eq unat_gt_0)

subsection \<open>Multiplication\<close>

function mulsi3_loop :: "u32 \<Rightarrow> u32 \<Rightarrow> u32 \<Rightarrow> u32" where
  "mulsi3_loop answer a b =
     (if b = 0 then answer
      else mulsi3_loop (if b AND 1 \<noteq> 0 then answer + a else answer) (push_bit 1 a) (drop_bit 1 b))"
  by pat_completeness auto
termination
  by (relation "measure (\<lambda>(_, _, b). unat b)") (auto simp: drop_bit_Suc unat_half_less)

definition mulsi3 :: "u32 \<Rightarrow> u32 \<Rightarrow> u32" where
  "mulsi3 a b = mulsi3_loop 0 a b"

definition muldsi3 :: "u32 \<Rightarrow> u32 \<Rightarrow> u64" where
  "muldsi3 a b =
     (let lower_mask = 0xFFFF;
          low = (a AND lower_mask) * (b AND lower_mask);
          t = drop_bit 16 low;
          low = low AND lower_mask;
          t = t + drop_bit 16 a * (b AND lower_mask);
          low = low + push_bit 16 (t AND lower_mask);
          high = drop_bit 16 t;
          t = drop_bit 16 low;
          low = low AND lower_mask;
          t = t + drop_bit 16 b * (a AND lower_mask);
          low = low + push_bit 16 (t AND lower_mask);
          high = high + drop_bit 16 t;
          high = high + drop_bit 16 a * drop_bit 16 b
      in dw_all high low)"

definition muldi3 :: "u64 \<Rightarrow> u64 \<Rightarrow> u64 option" where
  "muldi3 a b =
     (let r = muldsi3 (dw_low a) (dw_low b)
      in do { c \<leftarrow> add_s (mulsi3 (dw_high a) (dw_low b)) (mulsi3 (dw_low a) (dw_high b));
              h \<leftarrow> add_s (dw_high r) c;
              Some (dw_all h (dw_low r)) })"

subsection \<open>Unsigned division\<close>

partial_function (option) udivmodsi4_up :: "u32 \<Rightarrow> u32 \<Rightarrow> u32 \<Rightarrow> (u32 \<times> u32) option" where
  "udivmodsi4_up num den bt =
     (if den < num \<and> bt \<noteq> 0 \<and> den AND 0x80000000 = 0
      then udivmodsi4_up num (push_bit 1 den) (push_bit 1 bt) else Some (den, bt))"

function udivmodsi4_down :: "u32 \<Rightarrow> u32 \<Rightarrow> u32 \<Rightarrow> u32 \<Rightarrow> u32 \<times> u32" where
  "udivmodsi4_down num den bt res =
     (if bt = 0 then (num, res)
      else if den \<le> num
      then udivmodsi4_down (num - den) (drop_bit 1 den) (drop_bit 1 bt) (res OR bt)
      else udivmodsi4_down num (drop_bit 1 den) (drop_bit 1 bt) res)"
  by pat_completeness auto
termination
  by (relation "measure (\<lambda>(_, _, bt, _). unat bt)") (auto simp: drop_bit_Suc unat_half_less)

definition udivmodsi4 :: "u32 \<Rightarrow> u32 \<Rightarrow> bool \<Rightarrow> u32 option" where
  "udivmodsi4 num den modwanted =
     do { (den1, bt) \<leftarrow> udivmodsi4_up num den 1;
          let (num1, res) = udivmodsi4_down num den1 bt 0;
          Some (if modwanted then num1 else res) }"

definition udivsi3 :: "u32 \<Rightarrow> u32 \<Rightarrow> u32 option" where
  "udivsi3 a b = udivmodsi4 a b False"

definition umodsi3 :: "u32 \<Rightarrow> u32 \<Rightarrow> u32 option" where
  "umodsi3 a b = udivmodsi4 a b True"

partial_function (option) udivmoddi4_up :: "u64 \<Rightarrow> u64 \<Rightarrow> (u64 \<times> u64) option" where
  "udivmoddi4_up den qbit =
     (if 0 \<le> sint den then udivmoddi4_up (push_bit 1 den) (push_bit 1 qbit) else Some (den, qbit))"

function udivmoddi4_down :: "u64 \<Rightarrow> u64 \<Rightarrow> u64 \<Rightarrow> u64 \<Rightarrow> u64 \<times> u64" where
  "udivmoddi4_down num den qbit quot =
     (if qbit = 0 then (num, quot)
      else if den \<le> num
      then udivmoddi4_down (num - den) (drop_bit 1 den) (drop_bit 1 qbit) (quot + qbit)
      else udivmoddi4_down num (drop_bit 1 den) (drop_bit 1 qbit) quot)"
  by pat_completeness auto
termination
  by (relation "measure (\<lambda>(_, _, q, _). unat q)") (auto simp: drop_bit_Suc unat_half_less)

text \<open>The result is the quotient with the remainder the code stores through \<open>rem_p\<close>.\<close>

definition udivmoddi4 :: "u64 \<Rightarrow> u64 \<Rightarrow> (u64 \<times> u64) option" where
  "udivmoddi4 num den =
     (if den = 0 then None
      else do { (den1, qbit) \<leftarrow> udivmoddi4_up den 1;
                let (num1, quot) = udivmoddi4_down num den1 qbit 0;
                Some (quot, num1) })"

definition umoddi3 :: "u64 \<Rightarrow> u64 \<Rightarrow> u64 option" where
  "umoddi3 num den = map_option snd (udivmoddi4 num den)"

definition udivdi3 :: "u64 \<Rightarrow> u64 \<Rightarrow> u64 option" where
  "udivdi3 num den = map_option fst (udivmoddi4 num den)"

subsection \<open>Signed division\<close>

definition abs_s :: "'a::len word \<Rightarrow> ('a word \<times> bool) option" where
  "abs_s x = (if sint x < 0 then do { y \<leftarrow> neg_s x; Some (y, True) } else Some (x, False))"

definition divsi3 :: "u32 \<Rightarrow> u32 \<Rightarrow> u32 option" where
  "divsi3 a b =
     do { (a1, na) \<leftarrow> abs_s a; (b1, nb) \<leftarrow> abs_s b;
          res \<leftarrow> udivmodsi4 a1 b1 False;
          if na \<noteq> nb then neg_s res else Some res }"

definition modsi3 :: "u32 \<Rightarrow> u32 \<Rightarrow> u32 option" where
  "modsi3 a b =
     do { (a1, na) \<leftarrow> abs_s a; (b1, _) \<leftarrow> abs_s b;
          res \<leftarrow> udivmodsi4 a1 b1 True;
          if na then neg_s res else Some res }"

definition moddi3 :: "u64 \<Rightarrow> u64 \<Rightarrow> u64 option" where
  "moddi3 num den =
     do { (n1, nn) \<leftarrow> abs_s num; (d1, nd) \<leftarrow> abs_s den;
          (_, v) \<leftarrow> udivmoddi4 n1 d1;
          if nn \<noteq> nd then neg_s v else Some v }"

definition divdi3 :: "u64 \<Rightarrow> u64 \<Rightarrow> u64 option" where
  "divdi3 num den =
     do { (n1, nn) \<leftarrow> abs_s num; (d1, nd) \<leftarrow> abs_s den;
          (v, _) \<leftarrow> udivmoddi4 n1 d1;
          if nn \<noteq> nd then neg_s v else Some v }"

subsection \<open>Shifts of 64-bit values\<close>

text \<open>
  \<open>bm = 32 - b\<close> is unsigned, so \<open>bm <= 0\<close> holds for \<open>b = 32\<close> only; a larger amount runs into a
  32-bit shift by \<open>bm\<close>.
\<close>

definition ashldi3 :: "u64 \<Rightarrow> u32 \<Rightarrow> u64 option" where
  "ashldi3 u b =
     (if b = 0 then Some u
      else let bm = 32 - b in
        if bm \<le> 0
        then do { h \<leftarrow> shl (dw_low u) (unat (- bm)); Some (dw_all h 0) }
        else do { carries \<leftarrow> shr (dw_low u) (unat bm);
                  l \<leftarrow> shl (dw_low u) (unat b);
                  h \<leftarrow> shl (dw_high u) (unat b);
                  Some (dw_all (h OR carries) l) })"

definition sshr :: "u32 \<Rightarrow> nat \<Rightarrow> u32 option" where
  "sshr x n = (if n < 32 then Some (signed_drop_bit n x) else None)"

definition ashrdi3 :: "u64 \<Rightarrow> u32 \<Rightarrow> u64 option" where
  "ashrdi3 u b =
     (if b = 0 then Some u
      else let bm = 32 - b in
        if bm \<le> 0
        then do { h \<leftarrow> sshr (dw_high u) 31; l \<leftarrow> shr (dw_low u) (unat (- bm)); Some (dw_all h l) }
        else do { carries \<leftarrow> shl (dw_high u) (unat bm);
                  h \<leftarrow> sshr (dw_high u) (unat b);
                  l \<leftarrow> shr (dw_low u) (unat b);
                  Some (dw_all h (l OR carries)) })"

definition lshrdi3 :: "u64 \<Rightarrow> u32 \<Rightarrow> u64 option" where
  "lshrdi3 u b =
     (if b = 0 then Some u
      else let bm = 32 - b in
        if bm \<le> 0
        then do { l \<leftarrow> shr (dw_high u) (unat (- bm)); Some (dw_all 0 l) }
        else do { carries \<leftarrow> shl (dw_high u) (unat bm);
                  h \<leftarrow> shr (dw_high u) (unat b);
                  l \<leftarrow> shr (dw_low u) (unat b);
                  Some (dw_all h (l OR carries)) })"


subsection \<open>Multiplication is multiplication\<close>

declare mulsi3_loop.simps [simp del] udivmodsi4_down.simps [simp del] udivmoddi4_down.simps [simp del]

lemma mulsi3_loop_eq: "mulsi3_loop answer a b = answer + a * b"
proof (induction answer a b rule: mulsi3_loop.induct)
  case (1 answer a b)
  show ?case
  proof (cases "b = 0")
    case True
    then show ?thesis by (simp add: mulsi3_loop.simps)
  next
    case False
    have p: "push_bit 1 a = 2 * a" "drop_bit 1 b = b div 2" by (simp_all add: push_bit_eq_mult drop_bit_eq_div mult.commute)
    have b: "b = 2 * (b div 2) + b mod 2" by (rule mult_div_mod_eq [symmetric])
    have "mulsi3_loop answer a b = (if b AND 1 \<noteq> 0 then answer + a else answer) + 2 * a * (b div 2)"
      using 1 [OF False] False unfolding p by (simp add: mulsi3_loop.simps [of answer a b] drop_bit_Suc mult.commute [of a 2])
    also have "\<dots> = answer + a * (2 * (b div 2) + b mod 2)"
      by (simp add: and_one_eq algebra_simps odd_iff_mod_2_eq_one)
    finally show ?thesis unfolding b [symmetric] .
  qed
qed

lemma mulsi3_eq: "mulsi3 a b = a * b"
  by (simp add: mulsi3_def mulsi3_loop_eq)

lemma unat_low16: "unat (x AND 0xFFFF) = unat x mod 65536" for x :: u32
proof -
  have "x AND 0xFFFF = take_bit 16 x" by (simp add: take_bit_eq_mask mask_eq_exp_minus_1)
  then have "unat (x AND 0xFFFF) = take_bit 16 (unat x)" by (simp only: unsigned_take_bit_eq)
  then show ?thesis by (simp add: take_bit_eq_mod)
qed

lemma unat_high16: "unat (drop_bit 16 x) = unat x div 65536" for x :: u32
proof -
  have "unat (drop_bit 16 x) = drop_bit 16 (unat x)" by (rule unat_drop_bit_eq)
  then show ?thesis by (simp only: drop_bit_eq_div) simp
qed

lemma unat_mult_small: "unat x * unat y < 2 ^ 32 \<Longrightarrow> unat (x * y) = unat x * unat y" for x y :: u32
  by (simp add: unat_word_ariths)

lemma unat_up16: "unat x < 65536 \<Longrightarrow> unat (push_bit 16 x) = unat x * 65536" for x :: u32
  by (simp add: push_bit_eq_mult unat_word_ariths)

lemma unat_dw_all: "unat (dw_all h l) = unat h * 2 ^ 32 + unat l"
proof -
  have "dw_all h l = push_bit 32 (ucast h) + ucast l"
    unfolding dw_all_def by (rule disjunctive_add [symmetric]) (auto simp: bit_simps dest: bit_imp_le_length)
  moreover have "unat h < 4294967296" "unat l < 4294967296" by (rule unat_u32_less)+
  ultimately show ?thesis
    by (simp add: unat_word_ariths push_bit_eq_mult unsigned_ucast_eq take_bit_eq_mod)
qed

lemma dw_parts: "dw_all (dw_high u) (dw_low u) = u"
  unfolding dw_all_def dw_high_def dw_low_def
  by (rule bit_word_eqI) (auto simp: bit_simps)

lemma dw_high_all [simp]: "dw_high (dw_all h l) = h" and dw_low_all [simp]: "dw_low (dw_all h l) = l"
  unfolding dw_all_def dw_high_def dw_low_def
  by (rule bit_word_eqI; auto simp: bit_simps dest: bit_imp_le_length)+

text \<open>The schoolbook product of 16-bit digits, over the natural numbers.\<close>

lemma schoolbook16:
  fixes al ah bl bh :: nat
  assumes "al < 65536" "ah < 65536" "bl < 65536" "bh < 65536"
  defines "t1 \<equiv> al * bl div 65536 + ah * bl"
  defines "l2 \<equiv> al * bl mod 65536 + t1 mod 65536 * 65536"
  defines "t3 \<equiv> l2 div 65536 + bh * al"
  defines "l4 \<equiv> l2 mod 65536 + t3 mod 65536 * 65536"
  shows "(t1 div 65536 + t3 div 65536 + ah * bh) * 4294967296 + l4 = (ah * 65536 + al) * (bh * 65536 + bl)"
proof -
  have "(al * bl mod 65536 + t1 mod 65536 * 65536) div 65536 = t1 mod 65536" by simp
  then have l2: "l2 div 65536 = t1 mod 65536" "l2 mod 65536 = al * bl mod 65536" by (simp_all add: l2_def)
  have "(t1 div 65536 + t3 div 65536 + ah * bh) * 4294967296 + l4 =
     (t1 div 65536 * 65536 + (t3 div 65536 * 65536 + t3 mod 65536)) * 65536 + ah * bh * 4294967296 + al * bl mod 65536"
    unfolding l4_def l2(2) by (simp only: distrib_right mult.assoc)
  also have "\<dots> = (t1 div 65536 * 65536 + t1 mod 65536 + bh * al) * 65536 + ah * bh * 4294967296 + al * bl mod 65536"
    unfolding l2(1) [folded t3_def] t3_def by simp
  also have "\<dots> = (al * bl div 65536 + ah * bl + bh * al) * 65536 + ah * bh * 4294967296 + al * bl mod 65536"
    by (simp add: t1_def)
  also have "\<dots> = (al * bl div 65536 * 65536 + al * bl mod 65536) + (ah * bl + bh * al) * 65536 + ah * bh * 4294967296"
    by (simp add: algebra_simps)
  also have "\<dots> = (ah * 65536 + al) * (bh * 65536 + bl)" by (simp add: algebra_simps)
  finally show ?thesis .
qed

lemma small_products:
  fixes x y z :: nat
  assumes "x < 65536" "y < 65536" "z < 65536"
  shows "x * y < 2 ^ 32" "z + x * y < 2 ^ 32"
proof -
  have "x * y \<le> 65535 * 65535" using assms by (intro mult_le_mono) auto
  then show "x * y < 2 ^ 32" "z + x * y < 2 ^ 32" using assms(3) by simp_all
qed

lemma muldsi3_eq: "unat (muldsi3 a b) = unat a * unat b"
proof -
  let ?al = "unat a mod 65536" and ?ah = "unat a div 65536" and ?bl = "unat b mod 65536" and ?bh = "unat b div 65536"
  let ?M = "0xFFFF :: u32"
  have sm: "?al < 65536" "?ah < 65536" "?bl < 65536" "?bh < 65536"
    using unat_u32_less [of a] unat_u32_less [of b] by auto
  have up: "unat (push_bit 16 (x AND ?M)) = unat x mod 65536 * 65536" for x
    by (rule unat_up16 [of "x AND ?M", unfolded unat_low16]) simp
  have join: "unat ((x AND ?M) + push_bit 16 (y AND ?M)) = unat x mod 65536 + unat y mod 65536 * 65536" for x y
  proof (subst unat_add_u32)
    have "unat x mod 65536 < 65536" "unat y mod 65536 < 65536" by simp_all
    then show "unat (x AND ?M) + unat (push_bit 16 (y AND ?M)) < 4294967296" unfolding up unat_low16 by linarith
  qed (simp only: up unat_low16)
  define low t where "low = (a AND ?M) * (b AND ?M)" and "t = drop_bit 16 low + drop_bit 16 a * (b AND ?M)"
  have low: "unat low = ?al * ?bl"
    unfolding low_def using small_products(1) [OF sm(1,3,3)] by (subst unat_mult_small) (simp_all only: unat_low16)
  have "unat low div 65536 < 65536" using unat_u32_less [of low] by auto
  then have t: "unat t = ?al * ?bl div 65536 + ?ah * ?bl"
    unfolding t_def using small_products [OF sm(2,3), of "unat low div 65536"] low
    by (subst unat_add_u32) (simp_all add: unat_mult_small unat_low16 unat_high16)
  define low2 t2 where "low2 = (low AND ?M) + push_bit 16 (t AND ?M)" and "t2 = drop_bit 16 low2 + drop_bit 16 b * (a AND ?M)"
  have low2: "unat low2 = unat low mod 65536 + unat t mod 65536 * 65536"
    unfolding low2_def by (rule join)
  have "unat low2 div 65536 < 65536" using unat_u32_less [of low2] by auto
  then have t2: "unat t2 = unat low2 div 65536 + ?bh * ?al"
    unfolding t2_def using small_products [OF sm(4,1), of "unat low2 div 65536"]
    by (subst unat_add_u32) (simp_all add: unat_mult_small unat_low16 unat_high16)
  define low4 high where "low4 = (low2 AND ?M) + push_bit 16 (t2 AND ?M)"
    and "high = drop_bit 16 t + drop_bit 16 t2 + drop_bit 16 a * drop_bit 16 b"
  have low4: "unat low4 = unat low2 mod 65536 + unat t2 mod 65536 * 65536"
    unfolding low4_def by (rule join)
  let ?H = "unat t div 65536 + unat t2 div 65536 + ?ah * ?bh"
  have "?H * 4294967296 + unat low4 = (?ah * 65536 + ?al) * (?bh * 65536 + ?bl)"
    unfolding low4 t2 low2 t low by (rule schoolbook16 [OF sm])
  then have total: "?H * 4294967296 + unat low4 = unat a * unat b" by (simp only: div_mult_mod_eq)
  have "unat a * unat b < 4294967296 * 4294967296"
    using unat_u32_less [of a] unat_u32_less [of b] by (intro mult_strict_mono) auto
  then have H: "?H < 4294967296" using total by (metis add_lessD1 mult_less_cancel2)
  have "unat high = ?H"
    unfolding high_def using H small_products(1) [OF sm(2,4,4)]
    by (subst unat_add_u32, simp add: unat_add_u32 unat_mult_small unat_high16)+ (simp add: unat_add_u32 unat_mult_small unat_high16)
  then have "unat (dw_all high low4) = unat a * unat b" using total by (simp add: unat_dw_all)
  then show ?thesis by (simp add: muldsi3_def Let_def low_def t_def low2_def t2_def low4_def high_def)
qed

lemma muldsi3_word: "muldsi3 a b = ucast a * ucast b"
proof -
  have "unat a * unat b < 4294967296 * 4294967296"
    using unat_u32_less [of a] unat_u32_less [of b] by (intro mult_strict_mono) auto
  then have "unat (ucast a * ucast b :: u64) = unat a * unat b"
    by (simp add: unat_word_ariths unsigned_ucast_eq take_bit_eq_mod mod_less order_less_trans [OF unat_u32_less])
  then show ?thesis by (metis muldsi3_eq word_unat_eq_iff)
qed

subsection \<open>Division is division\<close>

lemma push1_unat: "2 * unat x < 2 ^ LENGTH('a) \<Longrightarrow> unat (push_bit 1 x) = 2 * unat x" for x :: "'a::len word"
proof -
  assume "2 * unat x < 2 ^ LENGTH('a)"
  then have "unat (x + x) = unat x + unat x" by (intro unat_add_lem [THEN iffD1]) simp
  then show ?thesis by (simp add: push_bit_eq_mult mult_2_right)
qed

lemma drop1_unat: "unat (drop_bit 1 x) = unat x div 2" for x :: "'a::len word"
  using unat_drop_bit_eq [of 1 x] by (simp only: drop_bit_eq_div power_one_right)

lemma top_bit_u32: "x AND 0x80000000 = 0 \<longleftrightarrow> unat x < 2 ^ 31" for x :: u32
proof -
  have "x AND 2 ^ 31 = 0 \<longleftrightarrow> \<not> bit x 31" by (rule and_exp_eq_0_iff_not_bit)
  moreover have "bit x 31 \<longleftrightarrow> 2 ^ 31 \<le> unat x"
  proof -
    have "bit x 31 \<longleftrightarrow> odd (unat x div 2 ^ 31)"
      by (simp only: bit_iff_odd [symmetric] bit_unsigned_iff) simp
    moreover have "unat x div 2 ^ 31 < 2" using unat_u32_less [of x] by auto
    ultimately show ?thesis by (auto simp: less_2_cases_iff div_eq_0_iff)
  qed
  ultimately show ?thesis by (simp add: not_le)
qed

text \<open>The scaling loop: divisor and bit are shifted together until the divisor reaches the number or its top bit.\<close>

lemma udivmodsi4_up_ok:
  assumes "0 < unat d" "unat den = unat d * 2 ^ k" "unat bt = 2 ^ k" "unat d * 2 ^ k < 2 ^ 32"
  shows "\<exists>j den' bt'. udivmodsi4_up num den bt = Some (den', bt') \<and> unat den' = unat d * 2 ^ j \<and> unat bt' = 2 ^ j \<and>
    unat d * 2 ^ j < 2 ^ 32 \<and> unat num < unat d * 2 ^ Suc j"
  using assms(2-4)
proof (induction "32 - k" arbitrary: k den bt rule: less_induct)
  case less
  have k: "k < 32"
  proof (rule ccontr)
    assume "\<not> k < 32"
    then have "(2 :: nat) ^ 32 \<le> 2 ^ k" by (intro power_increasing) auto
    moreover have "2 ^ k \<le> unat d * 2 ^ k" using assms(1) by simp
    ultimately show False using less.prems by linarith
  qed
  show ?case
  proof (cases "den < num \<and> bt \<noteq> 0 \<and> den AND 0x80000000 = 0")
    case True
    then have small: "2 * unat den < 2 ^ 32" by (simp add: top_bit_u32)
    have "unat bt \<le> unat den" using less.prems assms(1) by simp
    then have "2 * unat bt < 2 ^ 32" using small by linarith
    note p = push1_unat [of den] push1_unat [of bt] small this
    then have "unat (push_bit 1 den) = unat d * 2 ^ Suc k" "unat (push_bit 1 bt) = 2 ^ Suc k"
      using p unfolding less.prems(1,2) by simp_all
    moreover have "unat d * 2 ^ Suc k < 2 ^ 32" using small less.prems by simp
    ultimately show ?thesis using less.hyps [of "Suc k"] k True
      by (subst udivmodsi4_up.simps) simp
  next
    case False
    have "bt \<noteq> 0" using less.prems(2) by (metis power_not_zero unsigned_0 zero_neq_numeral)
    then have "unat num \<le> unat den \<or> 2 ^ 31 \<le> unat den"
      using False by (auto simp: top_bit_u32 word_less_nat_alt not_less)
    moreover have "0 < unat den" using less.prems(1) assms(1) by simp
    ultimately have "unat num < 2 * unat den" using unat_u32_less [of num] by auto
    then have "unat num < unat d * 2 ^ Suc k" using less.prems(1) by simp
    then show ?thesis using False less.prems by (subst udivmodsi4_up.simps) auto
  qed
qed

text \<open>The subtraction loop computes quotient and remainder bit by bit.\<close>

lemma div_mod_step:
  fixes n d :: nat
  assumes "n < d * 2 ^ Suc j" "0 < d"
  shows "if d * 2 ^ j \<le> n then n - d * 2 ^ j < d * 2 ^ j \<and> n div d = 2 ^ j + (n - d * 2 ^ j) div d \<and> n mod d = (n - d * 2 ^ j) mod d
    else n < d * 2 ^ j"
proof (cases "d * 2 ^ j \<le> n")
  case True
  define m where "m = n - d * 2 ^ j"
  have n: "n = m + d * 2 ^ j" using True by (simp add: m_def)
  have "m < d * 2 ^ j" using assms(1) n by simp
  then show ?thesis using assms(2) unfolding n by simp
qed simp

lemma or_disjoint_pow:
  fixes r :: "'a::len word"
  assumes "2 ^ Suc j dvd unat r" "unat bt = 2 ^ j" "unat r + 2 ^ j < 2 ^ LENGTH('a)"
  shows "unat (r OR bt) = unat r + 2 ^ j" "2 ^ j dvd unat (r OR bt)"
proof -
  have b: "\<not> bit (unat r) j"
    using assms(1) by (auto simp: bit_iff_odd dvd_def)
  have "of_nat (unat bt) = (of_nat (2 ^ j) :: 'a word)" using assms(2) by simp
  then have "bt = 2 ^ j" by simp
  then have "bit bt n \<longleftrightarrow> n = j \<and> n < LENGTH('a)" for n by (auto simp: bit_exp_iff possible_bit_word)
  then have "r OR bt = r + bt"
    using b by (intro disjunctive_add [symmetric]) (auto simp: bit_unsigned_iff)
  then show u: "unat (r OR bt) = unat r + 2 ^ j"
    using assms(2,3) by (simp add: unat_word_ariths)
  have "(2 :: nat) ^ j dvd unat r" using assms(1) by (meson dvd_trans le_imp_power_dvd le_SucI order_refl)
  then show "2 ^ j dvd unat (r OR bt)" unfolding u by simp
qed

lemma udivmodsi4_down_ok:
  assumes "0 < unat d"
  shows "unat num < unat d * 2 ^ Suc j \<Longrightarrow> unat den = unat d * 2 ^ j \<Longrightarrow> unat bt = 2 ^ j \<Longrightarrow> 2 ^ Suc j dvd unat res \<Longrightarrow>
    unat res + unat num div unat d < 2 ^ 32 \<Longrightarrow>
    \<exists>num' res'. udivmodsi4_down num den bt res = (num', res') \<and> unat num' = unat num mod unat d \<and>
      unat res' = unat res + unat num div unat d"
proof (induction j arbitrary: num den bt res)
  case 0
  have b: "bt \<noteq> 0" "drop_bit 1 bt = 0" using 0(3) drop1_unat [of bt] by (auto simp: word_unat_eq_iff)
  show ?case
  proof (cases "unat d \<le> unat num")
    case True
    have q: "unat num div unat d = 1" "unat num mod unat d = unat num - unat d"
      using div_mod_step [of "unat num" "unat d" 0] 0(1) assms True by auto
    have "unat (res OR bt) = unat res + 1"
      using or_disjoint_pow(1) [of 0 res bt] 0(3,4,5) q(1) by simp
    moreover have "unat (num - den) = unat num - unat d" using 0(2) True by (simp add: unat_sub word_le_nat_alt)
    ultimately show ?thesis
      using 0(2) b True q by (simp add: udivmodsi4_down.simps [of num] udivmodsi4_down.simps [of "num - den"] word_le_nat_alt)
  next
    case False
    then show ?thesis
      using 0(2) b by (simp add: udivmodsi4_down.simps word_le_nat_alt)
  qed
next
  case (Suc j)
  have d': "unat (drop_bit 1 den) = unat d * 2 ^ j" "unat (drop_bit 1 bt) = 2 ^ j"
    unfolding drop1_unat Suc.prems(2,3) by simp_all
  have b: "bt \<noteq> 0" using Suc.prems(3) by auto
  show ?case
  proof (cases "unat d * 2 ^ Suc j \<le> unat num")
    case True
    note q = div_mod_step [OF Suc.prems(1) assms, unfolded if_P [OF True]]
    have sub: "unat (num - den) = unat num - unat d * 2 ^ Suc j"
      using True Suc.prems(2) by (simp add: unat_sub word_le_nat_alt)
    have o: "unat (res OR bt) = unat res + 2 ^ Suc j" "2 ^ Suc j dvd unat (res OR bt)"
      using or_disjoint_pow [OF Suc.prems(4,3)] Suc.prems(5) q by simp_all
    have "udivmodsi4_down num den bt res = udivmodsi4_down (num - den) (drop_bit 1 den) (drop_bit 1 bt) (res OR bt)"
      using b True Suc.prems(2) by (subst udivmodsi4_down.simps) (simp add: word_le_nat_alt)
    moreover have "\<exists>num' res'. udivmodsi4_down (num - den) (drop_bit 1 den) (drop_bit 1 bt) (res OR bt) = (num', res') \<and>
        unat num' = unat (num - den) mod unat d \<and> unat res' = unat (res OR bt) + unat (num - den) div unat d"
      using q Suc.prems(5) by (intro Suc.IH d' o(2)) (simp_all add: sub o(1))
    ultimately show ?thesis using q by (auto simp: sub o(1))
  next
    case False
    have "2 ^ Suc j dvd unat res" using Suc.prems(4) by (meson dvd_trans le_imp_power_dvd le_SucI order_refl)
    moreover have "udivmodsi4_down num den bt res = udivmodsi4_down num (drop_bit 1 den) (drop_bit 1 bt) res"
      using b False Suc.prems(2) by (subst udivmodsi4_down.simps) (simp add: word_le_nat_alt)
    ultimately show ?thesis using Suc.IH [OF _ d'] False Suc.prems(5) by simp
  qed
qed

lemma udivmodsi4_ok:
  assumes "den \<noteq> 0"
  shows "udivmodsi4 num den w = Some (if w then num mod den else num div den)"
proof -
  have d: "0 < unat den" using assms by (simp add: unat_gt_0)
  obtain j den' bt' where up: "udivmodsi4_up num den 1 = Some (den', bt')" "unat den' = unat den * 2 ^ j" "unat bt' = 2 ^ j"
    "unat num < unat den * 2 ^ Suc j"
    using udivmodsi4_up_ok [OF d, of den 0 1 num] unat_u32_less [of den] by auto
  have "unat num div unat den \<le> unat num" by simp
  then have "unat (0 :: u32) + unat num div unat den < 2 ^ 32"
    using order_le_less_trans [OF _ unat_u32_less [of num]] by simp
  then obtain n r where "udivmodsi4_down num den' bt' 0 = (n, r)" "unat n = unat num mod unat den" "unat r = unat num div unat den"
    using udivmodsi4_down_ok [OF d up(4,2,3), of 0] by auto
  then show ?thesis using up(1) by (auto simp: udivmodsi4_def word_unat_eq_iff unat_div unat_mod)
qed

lemma unat_u64_less: "unat x < 18446744073709551616" for x :: u64
  by (rule order_less_le_trans [OF unsigned_less]) simp

lemma sint_nonneg_u64: "0 \<le> sint x \<longleftrightarrow> unat x < 2 ^ 63" for x :: u64
proof -
  have "0 \<le> sint x \<longleftrightarrow> \<not> bit x 63" using bit_last_iff [of x] by (simp add: not_less [symmetric])
  moreover have "bit x 63 \<longleftrightarrow> odd (unat x div 2 ^ 63)"
    by (simp only: bit_iff_odd [symmetric] bit_unsigned_iff) simp
  moreover have "unat x div 2 ^ 63 < 2" using unat_u64_less [of x] by auto
  ultimately show ?thesis by (auto simp: less_2_cases_iff div_eq_0_iff)
qed

lemma udivmoddi4_up_ok:
  assumes "0 < unat d" "unat den = unat d * 2 ^ k" "unat q = 2 ^ k" "unat d * 2 ^ k < 2 ^ 64"
  shows "\<exists>j den' q'. udivmoddi4_up den q = Some (den', q') \<and> unat den' = unat d * 2 ^ j \<and> unat q' = 2 ^ j \<and>
    2 ^ 63 \<le> unat d * 2 ^ j"
  using assms(2-4)
proof (induction "64 - k" arbitrary: k den q rule: less_induct)
  case less
  have k: "k < 64"
  proof (rule ccontr)
    assume "\<not> k < 64"
    then have "(2 :: nat) ^ 64 \<le> 2 ^ k" by (intro power_increasing) auto
    moreover have "2 ^ k \<le> unat d * 2 ^ k" using assms(1) by simp
    ultimately show False using less.prems by linarith
  qed
  show ?case
  proof (cases "0 \<le> sint den")
    case True
    then have small: "2 * unat den < 2 ^ 64" by (simp add: sint_nonneg_u64)
    have "unat q \<le> unat den" using less.prems assms(1) by simp
    then have "2 * unat q < 2 ^ 64" using small by linarith
    note p = push1_unat [of den] push1_unat [of q] small this
    then have "unat (push_bit 1 den) = unat d * 2 ^ Suc k" "unat (push_bit 1 q) = 2 ^ Suc k"
      unfolding less.prems(1,2) by simp_all
    moreover have "unat d * 2 ^ Suc k < 2 ^ 64" using small less.prems by simp
    ultimately show ?thesis using less.hyps [of "Suc k"] k True
      by (subst udivmoddi4_up.simps) simp
  next
    case False
    then show ?thesis using less.prems by (subst udivmoddi4_up.simps) (auto simp: sint_nonneg_u64)
  qed
qed

lemma udivmoddi4_down_ok:
  assumes "0 < unat d"
  shows "unat num < unat d * 2 ^ Suc j \<Longrightarrow> unat den = unat d * 2 ^ j \<Longrightarrow> unat q = 2 ^ j \<Longrightarrow>
    unat quot + unat num div unat d < 2 ^ 64 \<Longrightarrow>
    \<exists>num' quot'. udivmoddi4_down num den q quot = (num', quot') \<and> unat num' = unat num mod unat d \<and>
      unat quot' = unat quot + unat num div unat d"
proof (induction j arbitrary: num den q quot)
  case 0
  have b: "q \<noteq> 0" "drop_bit 1 q = 0" using 0(3) drop1_unat [of q] by (auto simp: word_unat_eq_iff)
  show ?case
  proof (cases "unat d \<le> unat num")
    case True
    have r: "unat num div unat d = 1" "unat num mod unat d = unat num - unat d"
      using div_mod_step [of "unat num" "unat d" 0] 0(1) assms True by auto
    have "unat (quot + q) = unat quot + 1" using 0(3,4) r(1) by (simp add: unat_word_ariths)
    moreover have "unat (num - den) = unat num - unat d" using 0(2) True by (simp add: unat_sub word_le_nat_alt)
    ultimately show ?thesis
      using 0(2) b True r by (simp add: udivmoddi4_down.simps [of num] udivmoddi4_down.simps [of "num - den"] word_le_nat_alt)
  next
    case False
    then show ?thesis using 0(2) b by (simp add: udivmoddi4_down.simps word_le_nat_alt)
  qed
next
  case (Suc j)
  have d': "unat (drop_bit 1 den) = unat d * 2 ^ j" "unat (drop_bit 1 q) = 2 ^ j"
    unfolding drop1_unat Suc.prems(2,3) by simp_all
  have b: "q \<noteq> 0" using Suc.prems(3) by auto
  show ?case
  proof (cases "unat d * 2 ^ Suc j \<le> unat num")
    case True
    note r = div_mod_step [OF Suc.prems(1) assms, unfolded if_P [OF True]]
    have sub: "unat (num - den) = unat num - unat d * 2 ^ Suc j"
      using True Suc.prems(2) by (simp add: unat_sub word_le_nat_alt)
    have o: "unat (quot + q) = unat quot + 2 ^ Suc j"
      using Suc.prems(3,4) r by (simp add: unat_word_ariths)
    have "udivmoddi4_down num den q quot = udivmoddi4_down (num - den) (drop_bit 1 den) (drop_bit 1 q) (quot + q)"
      using b True Suc.prems(2) by (subst udivmoddi4_down.simps) (simp add: word_le_nat_alt)
    moreover have "\<exists>num' quot'. udivmoddi4_down (num - den) (drop_bit 1 den) (drop_bit 1 q) (quot + q) = (num', quot') \<and>
        unat num' = unat (num - den) mod unat d \<and> unat quot' = unat (quot + q) + unat (num - den) div unat d"
      using r Suc.prems(4) by (intro Suc.IH d') (simp_all add: sub o)
    ultimately show ?thesis using r by (auto simp: sub o)
  next
    case False
    have "udivmoddi4_down num den q quot = udivmoddi4_down num (drop_bit 1 den) (drop_bit 1 q) quot"
      using b False Suc.prems(2) by (subst udivmoddi4_down.simps) (simp add: word_le_nat_alt)
    then show ?thesis using Suc.IH [OF _ d'] False Suc.prems(4) by simp
  qed
qed

lemma udivmoddi4_ok: "udivmoddi4 num den = (if den = 0 then None else Some (num div den, num mod den))"
proof (cases "den = 0")
  case False
  have d: "0 < unat den" using False by (simp add: unat_gt_0)
  obtain j den' q' where up: "udivmoddi4_up den 1 = Some (den', q')" "unat den' = unat den * 2 ^ j" "unat q' = 2 ^ j"
    "2 ^ 63 \<le> unat den * 2 ^ j"
    using udivmoddi4_up_ok [OF d, of den 0 1] unat_u64_less [of den] by auto
  have "unat num < unat den * 2 ^ Suc j" using up(4) unat_u64_less [of num] by simp
  moreover have "unat num div unat den \<le> unat num" by simp
  then have "unat (0 :: u64) + unat num div unat den < 2 ^ 64"
    using order_le_less_trans [OF _ unat_u64_less [of num]] by simp
  ultimately obtain n r where "udivmoddi4_down num den' q' 0 = (n, r)" "unat n = unat num mod unat den" "unat r = unat num div unat den"
    using udivmoddi4_down_ok [OF d _ up(2,3), of num 0] by auto
  then show ?thesis using up(1) False by (auto simp: udivmoddi4_def word_unat_eq_iff unat_div unat_mod)
qed (simp add: udivmoddi4_def)

subsection \<open>Division by zero\<close>

lemma udivmodsi4_up_zero:
  assumes "num \<noteq> 0"
  shows "k \<le> 32 \<Longrightarrow> udivmodsi4_up num 0 (2 ^ k) = Some (0, 0)"
proof (induction "32 - k" arbitrary: k rule: less_induct)
  case less
  show ?case
  proof (cases "k = 32")
    case True
    then have "(2 :: u32) ^ k = 0" by simp
    then show ?thesis by (simp add: udivmodsi4_up.simps [of num 0])
  next
    case False
    then have "(2 :: u32) ^ k \<noteq> 0" using less.prems by (simp add: word_exp_length_eq_0)
    moreover have "push_bit 1 ((2 :: u32) ^ k) = 2 ^ Suc k" by (simp add: push_bit_eq_mult)
    ultimately show ?thesis
      using less.hyps [of "Suc k"] less.prems False assms
      by (subst udivmodsi4_up.simps) (simp add: word_less_nat_alt unat_gt_0 mult.commute)
  qed
qed

lemma udivmodsi4_zero: "udivmodsi4 num 0 w = Some (if w then num else if num = 0 then 1 else 0)"
proof (cases "num = 0")
  case True
  then show ?thesis
    by (simp add: udivmodsi4_def udivmodsi4_up.simps [of 0 0 1] udivmodsi4_down.simps [of 0 0 1] udivmodsi4_down.simps [of 0 0 0])
next
  case False
  then show ?thesis
    using udivmodsi4_up_zero [OF False, of 0] by (simp add: udivmodsi4_def udivmodsi4_down.simps [of num 0 0])
qed

subsection \<open>Signed division\<close>

lemma sint_small_pos:
  assumes "0 \<le> r" "r < 2 ^ (LENGTH('a) - 1)"
  shows "sint (word_of_int r :: 'a::len word) = r" "uint (word_of_int r :: 'a word) = r"
proof -
  have "r < 2 ^ LENGTH('a)" using assms(2) by (rule order_less_le_trans) (simp add: power_increasing)
  then show "uint (word_of_int r :: 'a word) = r" using assms(1) by (simp add: uint_word_of_int)
  show "sint (word_of_int r :: 'a word) = r"
    using assms by (simp add: sint_sbintrunc' signed_take_bit_int_eq_self)
qed

lemma neg_s_small:
  assumes "0 \<le> r" "r < 2 ^ (LENGTH('a) - 1)"
  shows "neg_s (word_of_int r :: 'a::len word) = Some (word_of_int (- r))"
proof -
  have "r \<noteq> - (2 ^ (LENGTH('a) - 1))" using assms(1) by (metis linorder_not_less neg_less_0_iff_less zero_less_numeral zero_less_power)
  then show ?thesis using assms by (simp add: neg_s_def sint_small_pos)
qed

abbreviation (input) smin :: "'a::len itself \<Rightarrow> int" where
  "smin t \<equiv> - (2 ^ (LENGTH('a) - 1))"

lemma abs_s_eq:
  "abs_s x = (if sint x = smin TYPE('a) then None else Some (word_of_int \<bar>sint x\<bar>, sint x < 0))" for x :: "'a::len word"
  by (auto simp: abs_s_def neg_s_def)

lemma abs_sint_less: "sint x \<noteq> smin TYPE('a) \<Longrightarrow> \<bar>sint x\<bar> < 2 ^ (LENGTH('a) - 1)" for x :: "'a::len word"
  using sint_greater_eq [of x] sint_less [of x] by (auto simp: abs_if)

lemma div_mod_abs:
  fixes a b :: "'a::len word"
  assumes "sint a \<noteq> smin TYPE('a)" "sint b \<noteq> smin TYPE('a)"
  shows "(word_of_int \<bar>sint a\<bar> div word_of_int \<bar>sint b\<bar> :: 'a word) = word_of_int (\<bar>sint a\<bar> div \<bar>sint b\<bar>)"
    "(word_of_int \<bar>sint a\<bar> mod word_of_int \<bar>sint b\<bar> :: 'a word) = word_of_int (\<bar>sint a\<bar> mod \<bar>sint b\<bar>)"
    "\<bar>sint a\<bar> div \<bar>sint b\<bar> < 2 ^ (LENGTH('a) - 1)" "\<bar>sint a\<bar> mod \<bar>sint b\<bar> < 2 ^ (LENGTH('a) - 1)"
proof -
  note A = abs_sint_less [OF assms(1)] and B = abs_sint_less [OF assms(2)]
  show "(word_of_int \<bar>sint a\<bar> div word_of_int \<bar>sint b\<bar> :: 'a word) = word_of_int (\<bar>sint a\<bar> div \<bar>sint b\<bar>)"
    "(word_of_int \<bar>sint a\<bar> mod word_of_int \<bar>sint b\<bar> :: 'a word) = word_of_int (\<bar>sint a\<bar> mod \<bar>sint b\<bar>)"
    using A B by (simp_all add: word_div_def word_mod_def sint_small_pos)
  have "\<bar>sint a\<bar> div \<bar>sint b\<bar> \<le> \<bar>sint a\<bar>" 
  proof (cases "sint b = 0")
    case False
    then have "\<bar>sint a\<bar> div \<bar>sint b\<bar> \<le> \<bar>sint a\<bar> div 1" by (intro zdiv_mono2) auto
    then show ?thesis by simp
  qed simp
  then show "\<bar>sint a\<bar> div \<bar>sint b\<bar> < 2 ^ (LENGTH('a) - 1)" using A by linarith
  show "\<bar>sint a\<bar> mod \<bar>sint b\<bar> < 2 ^ (LENGTH('a) - 1)"
  proof (cases "sint b = 0")
    case False
    then have "\<bar>sint a\<bar> mod \<bar>sint b\<bar> < \<bar>sint b\<bar>" by simp
    then show ?thesis using B by linarith
  qed (use A in simp)
qed

lemma abs_s_nonzero: "b \<noteq> 0 \<Longrightarrow> sint b \<noteq> smin TYPE('a) \<Longrightarrow> (word_of_int \<bar>sint b\<bar> :: 'a word) \<noteq> 0" for b :: "'a::len word"
proof -
  assume "b \<noteq> 0" "sint b \<noteq> smin TYPE('a)"
  moreover from this have "sint b \<noteq> 0" by (metis signed_word_eqI signed_0)
  ultimately show ?thesis
    using sint_small_pos(1) [of "\<bar>sint b\<bar>", where 'a = 'a] abs_sint_less [of b] by (metis abs_ge_zero abs_eq_0 signed_0)
qed

lemma sdiv_by_abs: "a sdiv b = (if (a < 0) \<noteq> (b < 0) then - (\<bar>a\<bar> div \<bar>b\<bar>) else \<bar>a\<bar> div \<bar>b\<bar>)"
  and smod_by_abs: "a smod b = (if a < 0 then - (\<bar>a\<bar> mod \<bar>b\<bar>) else \<bar>a\<bar> mod \<bar>b\<bar>)" for a b :: int
  by (auto simp: signed_divide_int_def signed_modulo_int_def sgn_if)

text \<open>The common part of the signed routines: the unsigned result on the absolute values, negated on demand.\<close>

lemma neg_if_s:
  fixes a b :: "'a::len word"
  assumes "sint a \<noteq> smin TYPE('a)" "sint b \<noteq> smin TYPE('a)"
  shows "(if w then neg_s (word_of_int \<bar>sint a\<bar> div word_of_int \<bar>sint b\<bar>) else Some (word_of_int \<bar>sint a\<bar> div word_of_int \<bar>sint b\<bar>))
      = Some (word_of_int (if w then - (\<bar>sint a\<bar> div \<bar>sint b\<bar>) else \<bar>sint a\<bar> div \<bar>sint b\<bar>) :: 'a::len word)"
    "(if w then neg_s (word_of_int \<bar>sint a\<bar> mod word_of_int \<bar>sint b\<bar>) else Some (word_of_int \<bar>sint a\<bar> mod word_of_int \<bar>sint b\<bar>))
      = Some (word_of_int (if w then - (\<bar>sint a\<bar> mod \<bar>sint b\<bar>) else \<bar>sint a\<bar> mod \<bar>sint b\<bar>) :: 'a word)"
proof -
  have nonneg: "0 \<le> \<bar>sint a\<bar> div \<bar>sint b\<bar>" "0 \<le> \<bar>sint a\<bar> mod \<bar>sint b\<bar>"
    by (simp_all add: div_int_pos_iff) (cases "sint b = 0"; simp)
  note D = div_mod_abs [OF assms]
  show "(if w then neg_s (word_of_int \<bar>sint a\<bar> div word_of_int \<bar>sint b\<bar>) else Some (word_of_int \<bar>sint a\<bar> div word_of_int \<bar>sint b\<bar>))
      = Some (word_of_int (if w then - (\<bar>sint a\<bar> div \<bar>sint b\<bar>) else \<bar>sint a\<bar> div \<bar>sint b\<bar>) :: 'a::len word)"
    unfolding D(1) using neg_s_small [OF nonneg(1) D(3)] by (cases w) (simp_all only: if_True if_False)
  show "(if w then neg_s (word_of_int \<bar>sint a\<bar> mod word_of_int \<bar>sint b\<bar>) else Some (word_of_int \<bar>sint a\<bar> mod word_of_int \<bar>sint b\<bar>))
      = Some (word_of_int (if w then - (\<bar>sint a\<bar> mod \<bar>sint b\<bar>) else \<bar>sint a\<bar> mod \<bar>sint b\<bar>) :: 'a word)"
    unfolding D(2) using neg_s_small [OF nonneg(2) D(4)] by (cases w) (simp_all only: if_True if_False)
qed

lemma si3_ok:
  assumes "b \<noteq> 0"
  shows "divsi3 a b = (if sint a = smin TYPE(32) \<or> sint b = smin TYPE(32) then None else Some (word_of_int (sint a sdiv sint b)))"
    "modsi3 a b = (if sint a = smin TYPE(32) \<or> sint b = smin TYPE(32) then None else Some (word_of_int (sint a smod sint b)))"
proof -
  show "divsi3 a b = (if sint a = smin TYPE(32) \<or> sint b = smin TYPE(32) then None else Some (word_of_int (sint a sdiv sint b)))"
  proof (cases "sint a = smin TYPE(32) \<or> sint b = smin TYPE(32)")
    case False
    then show ?thesis
      using neg_if_s(1) [of a b "(sint a < 0) \<noteq> (sint b < 0)"] abs_s_nonzero [OF assms]
      by (simp only: divsi3_def abs_s_eq udivmodsi4_ok sdiv_by_abs if_False Option.bind.simps prod.case de_Morgan_disj simp_thms HOL.if_cancel)
  qed (auto simp: divsi3_def abs_s_eq)
  show "modsi3 a b = (if sint a = smin TYPE(32) \<or> sint b = smin TYPE(32) then None else Some (word_of_int (sint a smod sint b)))"
  proof (cases "sint a = smin TYPE(32) \<or> sint b = smin TYPE(32)")
    case False
    then show ?thesis
      using neg_if_s(2) [of a b "sint a < 0"] abs_s_nonzero [OF assms]
      by (simp only: modsi3_def abs_s_eq udivmodsi4_ok smod_by_abs if_False if_True Option.bind.simps prod.case de_Morgan_disj simp_thms)
  qed (auto simp: modsi3_def abs_s_eq)
qed

text \<open>\<open>moddi3\<close> gives the remainder the sign of the quotient: with a negative divisor it is negated.\<close>

lemma di3_ok:
  assumes "b \<noteq> 0"
  shows "divdi3 a b = (if sint a = smin TYPE(64) \<or> sint b = smin TYPE(64) then None else Some (word_of_int (sint a sdiv sint b)))"
    "moddi3 a b = (if sint a = smin TYPE(64) \<or> sint b = smin TYPE(64) then None
       else Some (word_of_int (if sint b < 0 then - (sint a smod sint b) else sint a smod sint b)))"
proof -
  show "divdi3 a b = (if sint a = smin TYPE(64) \<or> sint b = smin TYPE(64) then None else Some (word_of_int (sint a sdiv sint b)))"
  proof (cases "sint a = smin TYPE(64) \<or> sint b = smin TYPE(64)")
    case False
    then show ?thesis
      using neg_if_s(1) [of a b "(sint a < 0) \<noteq> (sint b < 0)"] abs_s_nonzero [OF assms]
      by (simp only: divdi3_def abs_s_eq udivmoddi4_ok sdiv_by_abs if_False Option.bind.simps prod.case de_Morgan_disj simp_thms)
  qed (auto simp: divdi3_def abs_s_eq)
  show "moddi3 a b = (if sint a = smin TYPE(64) \<or> sint b = smin TYPE(64) then None
       else Some (word_of_int (if sint b < 0 then - (sint a smod sint b) else sint a smod sint b)))"
  proof (cases "sint a = smin TYPE(64) \<or> sint b = smin TYPE(64)")
    case False
    then have "moddi3 a b = Some (word_of_int (if (sint a < 0) \<noteq> (sint b < 0) then - (\<bar>sint a\<bar> mod \<bar>sint b\<bar>) else \<bar>sint a\<bar> mod \<bar>sint b\<bar>))"
      using neg_if_s(2) [of a b "(sint a < 0) \<noteq> (sint b < 0)"] abs_s_nonzero [OF assms]
      by (simp only: moddi3_def abs_s_eq udivmoddi4_ok if_False Option.bind.simps prod.case de_Morgan_disj simp_thms)
    then show ?thesis using False by (auto simp: smod_by_abs)
  qed (auto simp: moddi3_def abs_s_eq)
qed

text \<open>
  The 64-bit product is right when it is defined: the two crossed products are added, and the sum added to the upper
  half, as signed integers, and a sum that overflows is undefined even where the product itself fits.
\<close>

lemma dw_all_eq: "dw_all h l = ucast h * 2 ^ 32 + ucast l"
proof -
  have "dw_all h l = push_bit 32 (ucast h) + ucast l" unfolding dw_all_def
    by (rule disjunctive_add [symmetric]) (auto simp: bit_simps dest: bit_imp_le_length)
  then show ?thesis by (simp add: push_bit_eq_mult)
qed

lemma dw_all_halves: "dw_all (dw_high u) (dw_low u) = u"
  by (rule bit_word_eqI) (auto simp: dw_all_def dw_high_def dw_low_def bit_simps)

lemma shift_ucast: "(ucast (word_of_int i :: u32) :: u64) * 2 ^ 32 = word_of_int (i * 2 ^ 32)"
proof -
  have "(ucast (word_of_int i :: u32) :: u64) = word_of_int (take_bit 32 i)" by (simp add: ucast_eq unsigned_of_int)
  then have "(ucast (word_of_int i :: u32) :: u64) * 2 ^ 32 = word_of_int (take_bit 32 i * 2 ^ 32)" by simp
  also have "\<dots> = word_of_int (i * 2 ^ 32)"
    using mod_mult_mult2 [of i 4294967296 4294967296] unfolding word_of_int_eq_iff by (simp add: take_bit_eq_mod)
  finally show ?thesis .
qed

lemma high_sum:
  "(ucast (x + y :: u32) :: u64) * 2 ^ 32 = ucast x * 2 ^ 32 + ucast y * 2 ^ 32"
  "(ucast (x * y :: u32) :: u64) * 2 ^ 32 = ucast x * ucast y * 2 ^ 32"
proof -
  have u: "(ucast w :: u64) = word_of_int (uint w)" for w :: u32 by (rule ucast_eq)
  have w: "x + y = word_of_int (uint x + uint y)" "x * y = word_of_int (uint x * uint y)"
    by (simp_all only: wi_hom_add [symmetric] wi_hom_mult [symmetric] word_of_int_uint)
  have "(ucast (x + y :: u32) :: u64) * 2 ^ 32 = word_of_int ((uint x + uint y) * 2 ^ 32)"
    unfolding w(1) by (rule shift_ucast)
  also have "\<dots> = word_of_int (uint x) * 2 ^ 32 + word_of_int (uint y) * 2 ^ 32"
    by (simp only: distrib_right wi_hom_add [symmetric] wi_hom_mult [symmetric] word_of_int_2p)
  finally show "(ucast (x + y :: u32) :: u64) * 2 ^ 32 = ucast x * 2 ^ 32 + ucast y * 2 ^ 32" by (simp only: u)
  have "(ucast (x * y :: u32) :: u64) * 2 ^ 32 = word_of_int ((uint x * uint y) * 2 ^ 32)"
    unfolding w(2) by (rule shift_ucast)
  also have "\<dots> = word_of_int (uint x) * word_of_int (uint y) * 2 ^ 32"
    by (simp only: wi_hom_mult [symmetric] word_of_int_2p)
  finally show "(ucast (x * y :: u32) :: u64) * 2 ^ 32 = ucast x * ucast y * 2 ^ 32" by (simp only: u)
qed

lemma halves_product: "K * K = 0 \<Longrightarrow> (A * K + B) * (C * K + D) = B * D + A * D * K + B * C * K" for K :: "'a::comm_ring"
  by (simp add: algebra_simps)

lemma muldi3_ok:
  "muldi3 a b = None \<or> muldi3 a b = Some (a * b)"
  "dw_high a = 0 \<Longrightarrow> dw_high b = 0 \<Longrightarrow> muldi3 a b = Some (a * b)"
proof -
  let ?r = "muldsi3 (dw_low a) (dw_low b)"
  let ?c = "dw_high a * dw_low b + dw_low a * dw_high b"
  have split: "u = ucast (dw_high u) * 2 ^ 32 + ucast (dw_low u)" for u :: u64
    using dw_all_halves [of u] by (simp add: dw_all_eq)
  have halves: "(x + y) + z = (x + z) + y" for x y z :: u64 by simp
  have "dw_all (dw_high ?r + ?c) (dw_low ?r) = (ucast (dw_high ?r) * 2 ^ 32 + ucast (dw_low ?r)) + ucast ?c * 2 ^ 32"
    unfolding dw_all_eq high_sum(1) [of "dw_high ?r"] by (rule halves)
  also have "\<dots> = ?r + ucast ?c * 2 ^ 32" using split [of ?r] by simp
  also have "\<dots> = ucast (dw_low a) * ucast (dw_low b) + ucast (dw_high a) * ucast (dw_low b) * 2 ^ 32 +
      ucast (dw_low a) * ucast (dw_high b) * 2 ^ 32"
    by (simp only: muldsi3_word high_sum add_ac)
  also have "\<dots> = (ucast (dw_high a) * 2 ^ 32 + ucast (dw_low a)) * (ucast (dw_high b) * 2 ^ 32 + ucast (dw_low b))"
    by (rule halves_product [symmetric]) simp
  also have "\<dots> = a * b" using split [of a] split [of b] by simp
  finally have p: "dw_all (dw_high ?r + ?c) (dw_low ?r) = a * b" .
  show "muldi3 a b = None \<or> muldi3 a b = Some (a * b)"
    using p by (simp add: muldi3_def mulsi3_eq add_s_def Let_def)
  show "muldi3 a b = Some (a * b)" if "dw_high a = 0" "dw_high b = 0"
    using p that by (simp add: muldi3_def mulsi3_eq add_s_def Let_def)
qed

lemma muldi3_overflow: "muldi3 (- (2 ^ 31)) (- (2 ^ 31)) = None"
  by (simp add: muldi3_def mulsi3_eq add_s_def Let_def dw_high_def dw_low_def)

end
