(* ===== verification/Genconf.thy ===== *)
theory Genconf
  imports Libc
begin

text \<open>
  The configuration generator, \<open>platform/cfg_reader/genconf.c\<close>: it reads a configuration through
  libconfig and writes \<open>include/config.h\<close>, from which the hypervisor is compiled. libconfig is a
  parameter: the record of the functions that are called. A step that writes the output file is a function on the
  file; it returns a code that is not zero (\<open>Inl\<close>) or a value (\<open>Inr\<close>), and is undefined (\<open>None\<close>)
  where the code overruns a buffer or reads through null.
\<close>

subsection \<open>Steps on the output file\<close>

text \<open>A file takes \<open>of_room\<close> more bytes; what does not fit is lost and \<open>fwrite\<close> reports it.\<close>

record ofile =
  of_text :: string
  of_room :: int

type_synonym 'a gen = "ofile \<Rightarrow> ((int + 'a) \<times> ofile) option"

definition EXIT_FAILURE :: int where "EXIT_FAILURE = 1"

definition gret :: "'a \<Rightarrow> 'a gen" where
  "gret x f = Some (Inr x, f)"

definition gfail :: "int \<Rightarrow> 'a gen" where
  "gfail code f = Some (Inl code, f)"

definition gundef :: "'a gen" where
  "gundef f = None"

definition gbind :: "'a gen \<Rightarrow> ('a \<Rightarrow> 'b gen) \<Rightarrow> 'b gen" where
  "gbind m k f =
     (case m f of
        None \<Rightarrow> None
      | Some (Inl code, f1) \<Rightarrow> Some (Inl code, f1)
      | Some (Inr x, f1) \<Rightarrow> k x f1)"

fun gseq :: "unit gen list \<Rightarrow> unit gen" where
  "gseq [] = gret ()"
| "gseq (m # ms) = gbind m (\<lambda>_. gseq ms)"

text \<open>A value that can be undefined, as a step.\<close>

definition gopt :: "'a option \<Rightarrow> 'a gen" where
  "gopt x = (case x of None \<Rightarrow> gundef | Some y \<Rightarrow> gret y)"

definition write_to_conf_file :: "string \<Rightarrow> unit gen" where
  "write_to_conf_file str f =
     (let n = (if int (length str) \<le> of_room f then length str else nat (of_room f));
          f1 = f\<lparr>of_text := of_text f @ take n str, of_room := of_room f - int n\<rparr>
      in Some (if n \<noteq> length str then Inl EXIT_FAILURE else Inr (), f1))"

definition NL :: char where "NL = CHR 0x0A"
definition TAB :: char where "TAB = CHR 0x09"
definition QUOTE :: char where "QUOTE = CHR 0x22"

definition tabs :: "nat \<Rightarrow> string" where
  "tabs n = replicate n TAB"

definition initial_msg :: "string \<Rightarrow> unit gen" where
  "initial_msg conf_name =
     gseq [write_to_conf_file (''/* THIS FILE IS AUTOMATICALLY GENERATED. DO NOT MODIFY IT. */'' @ [NL]),
           write_to_conf_file ''/* See the input xml in '',
           write_to_conf_file conf_name,
           write_to_conf_file ('' */'' @ [NL, NL]),
           write_to_conf_file (''#ifndef __CONFIG_H'' @ [NL] @ ''#define __CONFIG_H'' @ [NL, NL]),
           write_to_conf_file (''#include <vm.h>'' @ [NL, NL]),
           write_to_conf_file (''#include <arch.h>'' @ [NL, NL])]"

definition insert_blank_line :: "unit gen" where
  "insert_blank_line = write_to_conf_file [NL]"

subsection \<open>Text\<close>

definition STRSZ :: nat where "STRSZ = 128"
definition LARGESTR :: nat where "LARGESTR = 1024"

text \<open>
  \<open>strings_cat\<close>: a null argument ends the list. A string that would exceed the buffer ends the loop; one
  that fills it exactly makes \<open>strcat\<close> store its zero byte behind the buffer.
\<close>

fun strings_cat_loop :: "nat \<Rightarrow> nat \<Rightarrow> string \<Rightarrow> string option list \<Rightarrow> string option" where
  "strings_cat_loop sz tot dest [] = Some dest"
| "strings_cat_loop sz tot dest (None # cs) = Some dest"
| "strings_cat_loop sz tot dest (Some c # cs) =
     (let tot = tot + length c in
      if sz < tot then Some dest
      else if tot = sz then None
      else strings_cat_loop sz tot (dest @ c) cs)"

definition strings_cat :: "nat \<Rightarrow> string option list \<Rightarrow> string option" where
  "strings_cat sz cs = strings_cat_loop sz 0 [] cs"

text \<open>\<open>strings_cat(str, STRSZ, ...)\<close> followed by the write of \<open>str\<close>.\<close>

definition write_cat :: "string option list \<Rightarrow> unit gen" where
  "write_cat cs = gbind (gopt (strings_cat STRSZ cs)) write_to_conf_file"

text \<open>The conversions \<open>%d\<close>, \<open>%x\<close> and \<open>%05x\<close> of the C library.\<close>

definition digit_chr :: "int \<Rightarrow> char" where
  "digit_chr t = (if t < 10 then char_of (48 + t) else char_of (87 + t))"

function numeral_digits :: "int \<Rightarrow> int \<Rightarrow> string" where
  "numeral_digits b u = (if u \<le> 0 \<or> b \<le> 1 then [] else numeral_digits b (u div b) @ [digit_chr (u mod b)])"
  by pat_completeness auto
termination
  by (relation "measure (\<lambda>(b, u). nat u)") (auto intro: int_div_less_self)

definition fmt_d :: "int \<Rightarrow> string" where
  "fmt_d i = (if i = 0 then ''0'' else (if i < 0 then ''-'' else []) @ numeral_digits 10 \<bar>i\<bar>)"

definition fmt_x :: "u32 \<Rightarrow> string" where
  "fmt_x w = (if w = 0 then ''0'' else numeral_digits 16 (uint w))"

definition fmt_05x :: "u32 \<Rightarrow> string" where
  "fmt_05x w = replicate (5 - length (fmt_x w)) CHR ''0'' @ fmt_x w"

subsection \<open>Memory sizes\<close>

record mem_sizes_def =
  md_mask :: u32
  md_value :: u32
  md_name :: string

definition msz :: "string \<Rightarrow> u32 \<Rightarrow> u32 \<Rightarrow> mem_sizes_def" where
  "msz n v m = \<lparr>md_mask = m, md_value = v, md_name = n\<rparr>"

definition PageSizes :: "mem_sizes_def list" where
  "PageSizes =
     [msz ''PAGEMASK_4KB'' 4096 0xFFF, msz ''PAGEMASK_16KB'' 16384 0x3FFF,
      msz ''PAGEMASK_64KB'' 65536 0xFFFF, msz ''PAGEMASK_256KB'' 262144 0x3FFFF,
      msz ''PAGEMASK_1MB'' 1048576 0xFFFFF, msz ''PAGEMASK_4MB'' 4194304 0x3FFFFF,
      msz ''PAGEMASK_16MB'' 16777216 0xFFFFFF, msz ''PAGEMASK_256MB'' 268435456 0xFFFFFFF]"

definition MemSizes :: "mem_sizes_def list" where
  "MemSizes =
     [msz ''MEM_SIZE_4KB'' 4096 0, msz ''MEM_SIZE_8KB'' 8192 0, msz ''MEM_SIZE_16KB'' 16384 0,
      msz ''MEM_SIZE_32KB'' 32768 0, msz ''MEM_SIZE_64KB'' 65536 0, msz ''MEM_SIZE_128KB'' 131072 0,
      msz ''MEM_SIZE_256KB'' 262144 0, msz ''MEM_SIZE_512KB'' 524288 0, msz ''MEM_SIZE_1MB'' 1048576 0,
      msz ''MEM_SIZE_2MB'' 2097152 0, msz ''MEM_SIZE_4MB'' 4194304 0, msz ''MEM_SIZE_8MB'' 8388608 0,
      msz ''MEM_SIZE_16MB'' 16777216 0, msz ''MEM_SIZE_32MB'' 33554432 0]"

fun get_value_from_str :: "mem_sizes_def list \<Rightarrow> string \<Rightarrow> u32" where
  "get_value_from_str [] str_name = 0"
| "get_value_from_str (d # ds) str_name =
     (if md_name d = str_name then md_value d else get_value_from_str ds str_name)"

fun find_size :: "mem_sizes_def list \<Rightarrow> u32 \<Rightarrow> mem_sizes_def option" where
  "find_size [] v = None"
| "find_size (d # ds) v = (if md_value d = v then Some d else find_size ds v)"

text \<open>The page and whether two of them are used; the size is a signed parameter, halved by C's division.\<close>

definition select_page_mask :: "u32 \<Rightarrow> mem_sizes_def list \<Rightarrow> (mem_sizes_def \<times> bool) option" where
  "select_page_mask mem_size page_sizes =
     (let half_sz = word_of_int (sint mem_size sdiv 2) in
      case find_size page_sizes half_sz of
        Some d \<Rightarrow> Some (d, True)
      | None \<Rightarrow> map_option (\<lambda>d. (d, False)) (find_size page_sizes mem_size))"

definition kseg0_addr_to_physical :: "u32 \<Rightarrow> u32" where
  "kseg0_addr_to_physical addr = drop_bit 12 (addr AND 0x1FFFFFFF)"

definition calculate_mem_base :: "mem_sizes_def \<Rightarrow> u32 \<Rightarrow> u32" where
  "calculate_mem_base page_size mem_base =
     (if mem_base mod md_value page_size \<noteq> 0
      then (mem_base + md_value page_size) AND NOT (md_mask page_size) else mem_base)"

text \<open>The step returns the new \<open>*mem_base\<close>.\<close>

definition process_tlb_entry :: "u32 \<Rightarrow> u32 \<Rightarrow> u32 \<Rightarrow> string \<Rightarrow> u32 gen" where
  "process_tlb_entry mem_size mem_base va coherency =
     gbind (write_to_conf_file (tabs 3 @ ''{'' @ [NL])) (\<lambda>_.
       case select_page_mask mem_size PageSizes of
         None \<Rightarrow> gfail EXIT_FAILURE
       | Some (page_size, dual_entry) \<Rightarrow>
           (let mem_base = calculate_mem_base page_size mem_base;
                lo = (\<lambda>n a. write_cat [Some (tabs 4 @ ''entrylo'' @ n @ '': ''),
                       Some (''0x'' @ fmt_05x (kseg0_addr_to_physical a)), Some ('','' @ [NL])])
            in gbind (gseq
                 [lo ''0'' mem_base,
                  if dual_entry then lo ''1'' (mem_base + mem_size div 2)
                  else write_to_conf_file (tabs 4 @ ''entrylo1: 0,'' @ [NL]),
                  write_cat [Some (tabs 4 @ ''pagemask: ''), Some (md_name page_size), Some ('','' @ [NL])],
                  write_cat [Some (tabs 4 @ ''entryhi: ''),
                    Some (''0x'' @ fmt_05x (kseg0_addr_to_physical va)), Some ('','' @ [NL])],
                  write_cat [Some (tabs 4 @ ''coherency: ''), Some coherency, Some [NL]],
                  write_to_conf_file (tabs 3 @ ''},'' @ [NL])])
               (\<lambda>_. gret mem_base)))"

subsection \<open>The input\<close>

text \<open>
  The functions of libconfig that are called, on configurations \<open>'c\<close> and settings \<open>'s\<close>. A lookup
  that fails and a null pointer are \<open>None\<close>.
\<close>

record ('c, 's) libconfig =
  config_lookup :: "'c \<Rightarrow> string \<Rightarrow> 's option"
  config_lookup_int :: "'c \<Rightarrow> string \<Rightarrow> int option"
  config_setting_length :: "'s \<Rightarrow> nat"
  config_setting_get_elem :: "'s \<Rightarrow> nat \<Rightarrow> 's option"
  config_setting_get_string_elem :: "'s \<Rightarrow> nat \<Rightarrow> string option"
  config_setting_lookup :: "'s \<Rightarrow> string \<Rightarrow> 's option"
  config_setting_lookup_string :: "'s \<Rightarrow> string \<Rightarrow> string option"
  config_setting_lookup_int :: "'s \<Rightarrow> string \<Rightarrow> int option"

definition when_some :: "'a option \<Rightarrow> ('a \<Rightarrow> unit gen) \<Rightarrow> unit gen" where
  "when_some x k = (case x of None \<Rightarrow> gret () | Some y \<Rightarrow> k y)"

definition gen_system_configuration :: "('c, 's) libconfig \<Rightarrow> 'c \<Rightarrow> unit gen" where
  "gen_system_configuration L cfg =
     gseq
       [when_some (config_lookup L cfg ''system.debug'') (\<lambda>setting.
          gseq (write_to_conf_file (''/* Debug UART prints */'' @ [NL]) #
            map (\<lambda>i. write_cat [Some ''#define '', config_setting_get_string_elem L setting i, Some [NL]])
              [0..<config_setting_length L setting])),
        insert_blank_line,
        write_to_conf_file (''/* Hypervisor kernel configuration */'' @ [NL]),
        write_cat [Some ''#define MILISECOND '', Some ''('', Some ''(CPU_FREQ/2)'', Some ''/ 1000)'', Some [NL]],
        when_some (config_lookup_int L cfg ''system.uart_speed'') (\<lambda>value.
          write_cat [Some ''#define UART_SPEED '', Some (fmt_d value), Some [NL]]),
        when_some (config_lookup_int L cfg ''system.scheduler_quantum_ms'') (\<lambda>value.
          if value < 3 then gfail (- 1)
          else write_cat [Some ''#define QUANTUM_SCHEDULER_MS '', Some (fmt_d value), Some ('' '' @ [NL])]),
        when_some (config_lookup_int L cfg ''system.guest_quantum_ms'') (\<lambda>value.
          write_cat [Some ''#define GUEST_QUANTUM_MS '', Some (fmt_d value), Some ('' '' @ [NL])]),
        insert_blank_line]"

subsection \<open>The virtual machines\<close>

text \<open>The constants that depend on the port; \<open>b\<close> is the macro \<open>BAIKAL_T1\<close>.\<close>

definition VMS_RAM_VIRTUAL_BASE_ADDRESS :: u32 where "VMS_RAM_VIRTUAL_BASE_ADDRESS = 0x80000000"

definition VMS_DATA_INTERMEDIATE_BASE_ADDRESS :: "bool \<Rightarrow> u32" where
  "VMS_DATA_INTERMEDIATE_BASE_ADDRESS b = (if b then 0x80010000 else 0x80008000)"

definition VMS_CODE_INTERMEDIATE_BASE_ADDRESS :: "bool \<Rightarrow> u32" where
  "VMS_CODE_INTERMEDIATE_BASE_ADDRESS b = (if b then 0x80010000 else 0x9D008000)"

definition VMS_CODE_VIRTUAL_BASE_ADDRESS :: "bool \<Rightarrow> u32" where
  "VMS_CODE_VIRTUAL_BASE_ADDRESS b = (if b then 0x80000000 else 0x9D000000)"

definition TOTAL_TLB_ENTRIES :: "bool \<Rightarrow> nat" where
  "TOTAL_TLB_ENTRIES b = (if b then 63 else 15)"

text \<open>The variables that live across the machines.\<close>

record vms_state =
  g_number :: nat
  g_data :: u32
  g_code :: u32
  g_tlb :: nat
  g_apps :: string
  g_info :: string

definition required :: "'a option \<Rightarrow> 'a gen" where
  "required x = (case x of None \<Rightarrow> gfail EXIT_FAILURE | Some y \<Rightarrow> gret y)"

definition required_size :: "string \<Rightarrow> u32 gen" where
  "required_size name =
     (let v = get_value_from_str MemSizes name in if v = 0 then gfail EXIT_FAILURE else gret v)"

text \<open>\<open>strcat\<close> to a buffer of \<open>n\<close> bytes.\<close>

definition append_within :: "nat \<Rightarrow> string \<Rightarrow> string \<Rightarrow> string option" where
  "append_within n xs ys = (if length xs + length ys < n then Some (xs @ ys) else None)"

definition vm_priority :: "('c, 's) libconfig \<Rightarrow> 's \<Rightarrow> int" where
  "vm_priority L vm_conf =
     (case config_setting_lookup_int L vm_conf ''priority'' of
        None \<Rightarrow> 100
      | Some p \<Rightarrow> if (255 :: u32) < word_of_int p then 100 else p)"

definition gen_devices :: "('c, 's) libconfig \<Rightarrow> 's \<Rightarrow> unit gen" where
  "gen_devices L vm_conf =
     when_some (config_setting_lookup L vm_conf ''device_mapping'') (\<lambda>s.
       (let int_sz = config_setting_length L s in
        gseq
          ([write_to_conf_file (tabs 2 @ ''devices_mapping_sz: '' @ fmt_d (int int_sz) @ '','' @ [NL]),
            write_to_conf_file (tabs 2 @ ''devices: (const struct device_mapping_t const []) {'' @ [NL])] @
           concat (map (\<lambda>i.
             (let device_name = config_setting_get_string_elem L s i in
              [write_to_conf_file (tabs 3 @ ''{'' @ [NL]),
               write_cat [Some (tabs 4 @ ''start_addr: ''), device_name, Some (''_BASE,'' @ [NL])],
               write_cat [Some (tabs 4 @ ''size: ''), device_name, Some (''_SIZE,'' @ [NL])],
               write_to_conf_file (tabs 3 @ ''},'' @ [NL])])) [0..<int_sz]) @
           [write_to_conf_file (tabs 2 @ ''},'' @ [NL])])))"

text \<open>The arrays of interrupts: the property, the name of the length and of the array are the arguments.\<close>

definition gen_int_array :: "('c, 's) libconfig \<Rightarrow> 's \<Rightarrow> string \<Rightarrow> string \<Rightarrow> unit gen" where
  "gen_int_array L vm_conf name sz_name =
     when_some (config_setting_lookup L vm_conf name) (\<lambda>s.
       (let int_sz = config_setting_length L s in
        gseq
          ([write_to_conf_file (tabs 2 @ sz_name @ '': '' @ fmt_d (int int_sz) @ '','' @ [NL]),
            write_to_conf_file (tabs 2 @ name @ '': (uint32_t []) {'')] @
           concat (map (\<lambda>i.
             (if 0 < i then [write_to_conf_file '', ''] else []) @
             [gbind (gopt (config_setting_get_string_elem L s i)) write_to_conf_file]) [0..<int_sz]) @
           [write_to_conf_file ('' },'' @ [NL])])))"

text \<open>A memory mapping; the coherency is looked up in the group of the machine.\<close>

definition gen_memory_map :: "('c, 's) libconfig \<Rightarrow> 's \<Rightarrow> 's \<Rightarrow> unit gen" where
  "gen_memory_map L vm_conf mm =
     gbind (required (config_setting_lookup_int L mm ''base_addr'')) (\<lambda>base_addr.
     gbind (required (config_setting_lookup_string L mm ''page_size'')) (\<lambda>name.
     gbind (required_size name) (\<lambda>page_size.
     gbind (gopt (case config_setting_lookup_string L vm_conf ''coherency'' of
                    None \<Rightarrow> Some ''UNCACHED''
                  | Some c \<Rightarrow> if length c < STRSZ then Some c else None)) (\<lambda>coherency.
     gbind (process_tlb_entry page_size (word_of_int base_addr) (word_of_int base_addr) coherency)
       (\<lambda>_. gret ())))))"

definition gen_flash :: "bool \<Rightarrow> ('c, 's) libconfig \<Rightarrow> 's \<Rightarrow> u32 \<Rightarrow> (u32 \<times> u32) gen" where
  "gen_flash b L vm_conf code =
     (case config_setting_lookup_string L vm_conf ''flash_size_bytes'' of
        None \<Rightarrow> if b then gret (0, code) else gfail EXIT_FAILURE
      | Some name \<Rightarrow>
          gbind (required_size name) (\<lambda>flash_size.
          gbind (process_tlb_entry flash_size code (VMS_CODE_VIRTUAL_BASE_ADDRESS b) ''WRITE_BACK'')
            (\<lambda>code'. gret (flash_size, code'))))"

text \<open>Names, type and priority of a machine; the result is its name and the list of applications.\<close>

definition gen_vm_head :: "('c, 's) libconfig \<Rightarrow> 's \<Rightarrow> string \<Rightarrow> (string \<times> string) gen" where
  "gen_vm_head L vm_conf apps =
     gbind (required (config_setting_lookup_string L vm_conf ''app_name'')) (\<lambda>name.
     gbind (gopt (if length name < STRSZ then Some name else None)) (\<lambda>app_name.
     gbind (required (config_setting_lookup_string L vm_conf ''os_type'')) (\<lambda>os_type.
     gbind (gopt (if os_type \<noteq> ''LINUX''
                  then do { a \<leftarrow> append_within STRSZ apps app_name; append_within STRSZ a '' '' }
                  else Some apps)) (\<lambda>apps'.
     gbind (gseq
       [write_cat [Some (tabs 2 @ ''vm_name: '' @ [QUOTE]), Some app_name, Some ([QUOTE] @ '','' @ [NL])],
        write_cat [Some (tabs 2 @ ''os_type: ''), Some os_type, Some ('','' @ [NL])],
        write_cat [Some (tabs 2 @ ''priority: ''), Some (fmt_d (vm_priority L vm_conf)), Some ('','' @ [NL])]])
     (\<lambda>_. gret (app_name, apps'))))))"

definition vm_tlb_entries :: "bool \<Rightarrow> ('c, 's) libconfig \<Rightarrow> 's \<Rightarrow> nat" where
  "vm_tlb_entries b L vm_conf =
     (case config_setting_lookup L vm_conf ''memory_maps'' of None \<Rightarrow> 0 | Some m \<Rightarrow> config_setting_length L m) +
     (if b then 1 else 2)"

definition gen_maps :: "('c, 's) libconfig \<Rightarrow> 's \<Rightarrow> unit gen" where
  "gen_maps L vm_conf =
     when_some (config_setting_lookup L vm_conf ''memory_maps'') (\<lambda>mem_maps.
       gseq (map (\<lambda>j. gbind (gopt (config_setting_get_elem L mem_maps j)) (gen_memory_map L vm_conf))
         [0..<config_setting_length L mem_maps]))"

text \<open>
  The TLB entries of a machine and its \<open>ram_base\<close>: the result is the RAM size, the RAM base, the flash size
  and the flash base.
\<close>

definition gen_vm_tlb :: "bool \<Rightarrow> ('c, 's) libconfig \<Rightarrow> 's \<Rightarrow> u32 \<Rightarrow> u32 \<Rightarrow> (u32 \<times> u32 \<times> u32 \<times> u32) gen" where
  "gen_vm_tlb b L vm_conf data code =
     gbind (write_to_conf_file (tabs 2 @ ''tlb: (const struct tlb_entries const []){'' @ [NL])) (\<lambda>_.
     gbind (required (config_setting_lookup_string L vm_conf ''RAM_size_bytes'')) (\<lambda>ram_name.
     gbind (required_size ram_name) (\<lambda>ram_size.
     gbind (process_tlb_entry ram_size data VMS_RAM_VIRTUAL_BASE_ADDRESS ''WRITE_BACK'') (\<lambda>data'.
     gbind (gen_flash b L vm_conf code) (\<lambda>(flash_size, code').
     gbind (gen_maps L vm_conf) (\<lambda>_.
     gbind (write_to_conf_file (tabs 2 @ ''},'' @ [NL])) (\<lambda>_.
     gbind (write_to_conf_file (tabs 2 @ ''ram_base: 0x'' @ fmt_x data' @ [NL])) (\<lambda>_.
     gret (ram_size, data', flash_size, code')))))))))"

text \<open>The line of \<open>vms_info\<close>.\<close>

definition vm_info_line :: "string \<Rightarrow> u32 \<Rightarrow> u32 \<Rightarrow> u32 \<Rightarrow> string option" where
  "vm_info_line app_name size1 ram_size code =
     strings_cat STRSZ [Some app_name, Some ('' '' @ [TAB]),
       Some (fmt_d (sint size1) @ '' '' @ [TAB] @ fmt_d (sint ram_size) @ '' '' @ [TAB] @ ''0x'' @ fmt_x code @ [NL])]"

definition gen_vm :: "bool \<Rightarrow> ('c, 's) libconfig \<Rightarrow> 's \<Rightarrow> vms_state \<Rightarrow> vms_state gen" where
  "gen_vm b L vm_conf g =
     gbind (gen_vm_head L vm_conf (g_apps g)) (\<lambda>(app_name, apps).
     gbind (gseq
       [gen_devices L vm_conf,
        gen_int_array L vm_conf ''fast_interrupts'' ''fast_int_sz'',
        gen_int_array L vm_conf ''interrupt_redirect'' ''interrupt_redirect_sz'',
        write_to_conf_file (tabs 2 @ ''num_tlb_entries: 0x'' @ fmt_x (of_nat (vm_tlb_entries b L vm_conf)) @ '','' @ [NL])]) (\<lambda>_.
      if TOTAL_TLB_ENTRIES b < g_tlb g + vm_tlb_entries b L vm_conf then gfail EXIT_FAILURE
      else
        gbind (gen_vm_tlb b L vm_conf (g_data g) (g_code g)) (\<lambda>(ram_size, data, flash_size, code).
        gbind (gopt (do { line \<leftarrow> vm_info_line app_name (if b then ram_size else flash_size) ram_size code;
                          append_within LARGESTR (g_info g) line })) (\<lambda>vms_info.
        gbind (write_to_conf_file (tabs 1 @ ''},'' @ [NL])) (\<lambda>_.
        gret \<lparr>g_number = g_number g + 1, g_data = data + ram_size,
              g_code = code + (if b then ram_size else flash_size),
              g_tlb = g_tlb g + vm_tlb_entries b L vm_conf, g_apps = apps, g_info = vms_info\<rparr>)))))"

fun gen_vm_list :: "bool \<Rightarrow> ('c, 's) libconfig \<Rightarrow> 's \<Rightarrow> nat list \<Rightarrow> vms_state \<Rightarrow> vms_state gen" where
  "gen_vm_list b L setting [] g = gret g"
| "gen_vm_list b L setting (i # is) g =
     gbind (write_to_conf_file (tabs 1 @ ''{ /* VM#'' @ fmt_d (int (g_number g)) @ '' */'' @ [NL])) (\<lambda>_.
     gbind (gopt (config_setting_get_elem L setting i)) (\<lambda>vm_conf.
     gbind (gen_vm b L vm_conf g) (gen_vm_list b L setting is)))"

definition vms_start :: "bool \<Rightarrow> vms_state" where
  "vms_start b =
     \<lparr>g_number = 1, g_data = VMS_DATA_INTERMEDIATE_BASE_ADDRESS b, g_code = VMS_CODE_INTERMEDIATE_BASE_ADDRESS b,
      g_tlb = 0, g_apps = [],
      g_info = ''VM name '' @ [TAB] @ (if b then ''code_size '' else ''flash_size '') @ [TAB] @ ''ram_size '' @ [TAB] @
               '' address_start'' @ [NL]\<rparr>"

text \<open>The result is \<open>app_list\<close>, \<open>vm_count\<close> and \<open>vms_info\<close>.\<close>

definition gen_conf_vms :: "bool \<Rightarrow> ('c, 's) libconfig \<Rightarrow> 'c \<Rightarrow> (string \<times> nat \<times> string) gen" where
  "gen_conf_vms b L cfg =
     gbind (write_to_conf_file (''/* VMs mapping */'' @ [NL])) (\<lambda>_.
     gbind (required (config_lookup L cfg ''virtual_machines'')) (\<lambda>setting.
     gbind (write_to_conf_file (''static const struct vmconf_t const VMCONF[] = {'' @ [NL])) (\<lambda>_.
     (let num_el = config_setting_length L setting in
      gbind (gen_vm_list b L setting [0..<num_el] (vms_start b)) (\<lambda>g.
      gbind (write_to_conf_file (''};'' @ [NL])) (\<lambda>_.
      gret (g_apps g, num_el, g_info g)))))))"

definition write_vm_number :: "nat \<Rightarrow> string \<Rightarrow> unit gen" where
  "write_vm_number vm_count app_list =
     gseq [insert_blank_line,
           write_cat [Some ''/* Virtual Machine names: '', Some app_list, Some ('' */'' @ [NL])],
           write_cat [Some ''#define NVMACHINES '', Some (fmt_d (int vm_count)), Some [NL]]]"

definition rt_vm_list :: "unit gen" where
  "rt_vm_list = gseq [insert_blank_line, write_to_conf_file (''#endif'' @ [NL, NL])]"

text \<open>\<open>write_str_to_file\<close> on the file that \<open>fopen\<close> gives.\<close>

definition write_str_to_file :: "string \<Rightarrow> ofile option \<Rightarrow> int \<times> ofile option" where
  "write_str_to_file str f =
     (case f of
        None \<Rightarrow> (EXIT_FAILURE, None)
      | Some f1 \<Rightarrow>
          (let n = (if int (length str) \<le> of_room f1 then length str else nat (of_room f1));
               f2 = f1\<lparr>of_text := of_text f1 @ take n str, of_room := of_room f1 - int n\<rparr>
           in (if n \<noteq> length str then EXIT_FAILURE else 0, Some f2)))"

text \<open>
  \<open>main\<close>: the arguments, what \<open>config_read_file\<close> gives for a name, the two files as \<open>fopen\<close> gives them. The
  result is the exit code, the two files and the line printed for the build. The memory for
  \<open>vms_info\<close> is assumed to be available.
\<close>

definition genconf_main ::
  "bool \<Rightarrow> ('c, 's) libconfig \<Rightarrow> string list \<Rightarrow> (string \<Rightarrow> 'c option) \<Rightarrow> ofile option \<Rightarrow> ofile option \<Rightarrow>
     (int \<times> ofile option \<times> ofile option \<times> string) option" where
  "genconf_main b L argv config_read_file outfile info =
     (if length argv < 2 then Some (EXIT_FAILURE, outfile, info, [])
      else case config_read_file (argv ! 1) of
        None \<Rightarrow> Some (EXIT_FAILURE, outfile, info, [])
      | Some cfg \<Rightarrow>
          (case outfile of
             None \<Rightarrow> Some (EXIT_FAILURE, None, info, [])
           | Some f0 \<Rightarrow>
               do { (r1, f1) \<leftarrow> gbind (gseq [initial_msg (argv ! 1), gen_system_configuration L cfg])
                                 (\<lambda>_. gen_conf_vms b L cfg) f0;
                    case r1 of
                      Inl _ \<Rightarrow> Some (EXIT_FAILURE, Some f1, info, [])
                    | Inr (app_list, vm_count, vms_info) \<Rightarrow>
                        (let (ret, info1) = write_str_to_file vms_info info in
                         if ret \<noteq> 0 then Some (EXIT_FAILURE, Some f1, info1, [])
                         else do { (r2, f2) \<leftarrow> gseq [write_vm_number vm_count app_list, rt_vm_list] f1;
                                   case r2 of
                                     Inl _ \<Rightarrow> Some (EXIT_FAILURE, Some f2, info1, [])
                                   | Inr _ \<Rightarrow> Some (0, Some f2, info1, app_list @ [NL]) }) }))"

subsection \<open>What a step that succeeds has done\<close>

lemma gbind_Inr:
  "gbind m k f = Some (Inr y, f') \<longleftrightarrow> (\<exists>x f1. m f = Some (Inr x, f1) \<and> k x f1 = Some (Inr y, f'))"
  by (auto simp: gbind_def split: option.splits sum.splits)

lemma gret_Inr [simp]: "gret x f = Some (Inr y, f') \<longleftrightarrow> x = y \<and> f = f'"
  by (auto simp: gret_def)

lemma gfail_Inr [simp]: "gfail c f \<noteq> Some (Inr y, f')"
  by (simp add: gfail_def)

lemma gundef_Inr [simp]: "gundef f \<noteq> Some r"
  by (simp add: gundef_def)

lemma gopt_Inr [simp]: "gopt x f = Some (Inr y, f') \<longleftrightarrow> x = Some y \<and> f = f'"
  by (auto simp: gopt_def split: option.splits)

lemma required_Inr [simp]: "required x f = Some (Inr y, f') \<longleftrightarrow> x = Some y \<and> f = f'"
  by (auto simp: required_def split: option.splits)

lemma required_size_Inr [simp]:
  "required_size n f = Some (Inr y, f') \<longleftrightarrow> y = get_value_from_str MemSizes n \<and> y \<noteq> 0 \<and> f = f'"
  by (auto simp: required_size_def Let_def)

lemma write_Inr:
  "write_to_conf_file s f = Some (Inr (), f') \<longleftrightarrow>
     (s = [] \<or> int (length s) \<le> of_room f) \<and> f' = f\<lparr>of_text := of_text f @ s, of_room := of_room f - int (length s)\<rparr>"
  by (cases s) (auto simp: write_to_conf_file_def Let_def min_def)

text \<open>Every step only appends to the file, and accounts for the room it takes.\<close>

definition appends :: "'a gen \<Rightarrow> bool" where
  "appends m \<longleftrightarrow> (\<forall>f r f'. m f = Some (r, f') \<longrightarrow>
     (\<exists>t. of_text f' = of_text f @ t \<and> of_room f = int (length t) + of_room f'))"

lemma appendsD: "appends m \<Longrightarrow> m f = Some (r, f') \<Longrightarrow> \<exists>t. of_text f' = of_text f @ t \<and> of_room f = int (length t) + of_room f'"
  by (simp add: appends_def)

named_theorems appends_intros "steps that only append"

lemma appends_basic [appends_intros]:
  "appends (gret x)" "appends (gfail c)" "appends gundef" "appends (gopt y)" "appends (required y)" "appends (required_size n)"
  by (auto simp: appends_def gret_def gfail_def gundef_def gopt_def required_def required_size_def Let_def
      split: option.splits if_splits)

lemma appends_write [appends_intros]: "appends (write_to_conf_file s)"
  by (auto simp: appends_def write_to_conf_file_def Let_def)

lemma appends_gbind [appends_intros]:
  assumes "appends m" "\<And>x. appends (k x)"
  shows "appends (gbind m k)"
  unfolding appends_def
proof (intro allI impI)
  fix f r f' assume a: "gbind m k f = Some (r, f')"
  then obtain s f1 where m: "m f = Some (s, f1)" by (auto simp: gbind_def split: option.splits)
  obtain t where t: "of_text f1 = of_text f @ t" "of_room f = int (length t) + of_room f1"
    using appendsD [OF assms(1) m] by blast
  show "\<exists>t. of_text f' = of_text f @ t \<and> of_room f = int (length t) + of_room f'"
  proof (cases s)
    case (Inl c)
    then show ?thesis using a m t by (auto simp: gbind_def)
  next
    case (Inr x)
    then have "k x f1 = Some (r, f')" using a m by (simp add: gbind_def)
    from appendsD [OF assms(2) this] obtain u where "of_text f' = of_text f1 @ u" "of_room f1 = int (length u) + of_room f'"
      by blast
    with t show ?thesis by (intro exI [of _ "t @ u"]) simp
  qed
qed

lemma appends_gseq [appends_intros]: "(\<And>m. m \<in> set ms \<Longrightarrow> appends m) \<Longrightarrow> appends (gseq ms)"
  by (induction ms) (auto intro!: appends_intros)

lemma appends_when_some [appends_intros]: "(\<And>y. appends (k y)) \<Longrightarrow> appends (when_some x k)"
  by (cases x) (auto simp: when_some_def intro!: appends_intros)

lemma appends_write_cat [appends_intros]: "appends (write_cat cs)"
  by (auto simp: write_cat_def intro!: appends_intros)

lemma appends_blank [appends_intros]: "appends insert_blank_line"
  by (simp add: insert_blank_line_def appends_write)

lemma appends_process_tlb_entry [appends_intros]: "appends (process_tlb_entry sz base va c)"
  by (auto simp: process_tlb_entry_def Let_def intro!: appends_intros split: option.splits prod.splits)

lemma appends_initial_msg [appends_intros]: "appends (initial_msg n)"
  by (auto simp: initial_msg_def intro!: appends_intros)

lemma appends_system [appends_intros]: "appends (gen_system_configuration L cfg)"
  by (auto simp: gen_system_configuration_def intro!: appends_intros)

lemma appends_parts [appends_intros]:
  "appends (gen_devices L vm)" "appends (gen_int_array L vm n z)" "appends (gen_memory_map L vm mm)"
  "appends (gen_maps L vm)" "appends (gen_flash b L vm code)" "appends (gen_vm_head L vm apps)"
  by (auto simp: gen_devices_def gen_int_array_def gen_memory_map_def gen_maps_def gen_flash_def gen_vm_head_def Let_def
      intro!: appends_intros split: option.splits if_splits)

lemma appends_gen_vm_tlb [appends_intros]: "appends (gen_vm_tlb b L vm d c)"
  unfolding gen_vm_tlb_def by (auto intro!: appends_intros split: prod.splits)

lemma appends_gen_vm [appends_intros]: "appends (gen_vm b L vm g)"
  unfolding gen_vm_def by (auto intro!: appends_intros split: prod.splits)

lemma appends_gen_vm_list [appends_intros]: "appends (gen_vm_list b L s is g)"
  by (induction "is" arbitrary: g) (auto intro!: appends_intros)

lemma appends_gen_conf_vms [appends_intros]: "appends (gen_conf_vms b L cfg)"
  unfolding gen_conf_vms_def Let_def by (auto intro!: appends_intros)

lemma appends_tail [appends_intros]: "appends (write_vm_number n a)" "appends rt_vm_list"
  by (auto simp: write_vm_number_def rt_vm_list_def intro!: appends_intros)

subsection \<open>Sizes and alignment\<close>

text \<open>Every size of the configuration language has a page; a page's mask is its size less one.\<close>

lemma get_value_in: "get_value_from_str ds n \<noteq> 0 \<Longrightarrow> get_value_from_str ds n \<in> md_value ` set ds"
  by (induction ds) (auto split: if_splits)

lemma find_size_in: "find_size ds v = Some d \<Longrightarrow> d \<in> set ds \<and> md_value d = v"
  by (induction ds) (auto split: if_splits)

lemma MemSizes_values:
  "md_value ` set MemSizes = {4096, 8192, 16384, 32768, 65536, 131072, 262144, 524288, 1048576, 2097152, 4194304,
     8388608, 16777216, 33554432}"
  by (simp add: MemSizes_def msz_def insert_commute)

lemma mem_size_page:
  assumes "v \<in> md_value ` set MemSizes"
  shows "\<exists>p. select_page_mask v PageSizes = Some p \<and> fst p \<in> set PageSizes \<and>
     v = (if snd p then 2 * md_value (fst p) else md_value (fst p))"
proof -
  have s: "sint (4096 :: u32) = 4096" "sint (8192 :: u32) = 8192" "sint (16384 :: u32) = 16384" "sint (32768 :: u32) = 32768"
    "sint (65536 :: u32) = 65536" "sint (131072 :: u32) = 131072" "sint (262144 :: u32) = 262144" "sint (524288 :: u32) = 524288"
    "sint (1048576 :: u32) = 1048576" "sint (2097152 :: u32) = 2097152" "sint (4194304 :: u32) = 4194304"
    "sint (8388608 :: u32) = 8388608" "sint (16777216 :: u32) = 16777216" "sint (33554432 :: u32) = 33554432"
    by simp_all
  show ?thesis using assms unfolding MemSizes_values
    by (elim insertE emptyE) (simp_all add: select_page_mask_def s PageSizes_def msz_def signed_divide_int_def)
qed

lemma PageSizes_ok:
  assumes "d \<in> set PageSizes"
  shows "\<exists>n. 12 \<le> n \<and> n \<le> 28 \<and> md_value d = 2 ^ n \<and> md_mask d = mask n"
proof -
  have "\<exists>n\<in>{12, 14, 16, 18, 20, 22, 24, 28}. md_value d = 2 ^ n \<and> md_mask d = mask n"
    using assms unfolding PageSizes_def msz_def list.set
    by (elim insertE emptyE) (simp_all add: mask_eq_exp_minus_1)
  then obtain n :: nat where "n \<in> {12, 14, 16, 18, 20, 22, 24, 28}" "md_value d = 2 ^ n" "md_mask d = mask n" by blast
  moreover from this(1) have "12 \<le> n" "n \<le> 28" by auto
  ultimately show ?thesis by blast
qed

text \<open>The next multiple of the page size, if that is below the end of the address space.\<close>

lemma unat_and_not_mask: "unat (w AND NOT (mask n)) = unat w div 2 ^ n * 2 ^ n" for w :: "'a::len word"
proof -
  have "w AND NOT (mask n) = push_bit n (drop_bit n w)" by (rule bit_word_eqI) (auto simp: bit_simps)
  moreover have "unat w div 2 ^ n * 2 ^ n < 2 ^ LENGTH('a)"
    by (rule order_le_less_trans [OF _ unsigned_less [of w]]) simp
  moreover have "unat (push_bit n (drop_bit n w)) = take_bit LENGTH('a) (push_bit n (unat (drop_bit n w)))"
    by (simp only: unsigned_push_bit_eq)
  moreover have "unat (drop_bit n w) = unat w div 2 ^ n" by (simp only: unat_drop_bit_eq) (simp only: drop_bit_eq_div)
  ultimately show ?thesis by (simp add: push_bit_eq_mult [where 'a = nat] take_bit_eq_mod)
qed

lemma unat_exp32: "n < 32 \<Longrightarrow> unat (2 ^ n :: u32) = 2 ^ n"
proof -
  assume n: "n < 32"
  then have "(0 :: u32) < 2 ^ n" by (simp add: word_gt_0)
  then have "uint (2 ^ n :: u32) = 2 ^ n" by (rule uint_2p)
  then show ?thesis by (metis nat_numeral nat_power_eq unat_eq_nat_uint zero_le_numeral)
qed

lemma calculate_mem_base_ok:
  assumes "d \<in> set PageSizes" "unat x + unat (md_value d) \<le> 2 ^ 32 - 1"
  shows "unat (md_value d) dvd unat (calculate_mem_base d x)" "unat x \<le> unat (calculate_mem_base d x)"
    "unat (calculate_mem_base d x) < unat x + unat (md_value d)"
proof -
  obtain n where n: "12 \<le> n" "n \<le> 28" "md_value d = 2 ^ n" "md_mask d = mask n" using PageSizes_ok [OF assms(1)] by blast
  have p: "unat (2 ^ n :: u32) = 2 ^ n" using n(2) by (intro unat_exp32) simp
  have m: "unat (x mod 2 ^ n) = unat x mod 2 ^ n" by (simp add: unat_mod p)
  have s: "unat (x + 2 ^ n) = unat x + 2 ^ n" using assms(2) n(3) p by (subst unat_add_u32) simp_all
  show "unat (md_value d) dvd unat (calculate_mem_base d x)"
  proof (cases "x mod 2 ^ n = 0")
    case True
    then have "unat x mod 2 ^ n = 0" using m by simp
    then show ?thesis using True by (simp add: calculate_mem_base_def n p dvd_eq_mod_eq_0)
  qed (simp add: calculate_mem_base_def n p unat_and_not_mask)
  show "unat x \<le> unat (calculate_mem_base d x)"
  proof (cases "x mod 2 ^ n = 0")
    case False
    have "unat x = unat x div 2 ^ n * 2 ^ n + unat x mod 2 ^ n" by (simp only: div_mult_mod_eq)
    moreover have "unat x mod 2 ^ n < 2 ^ n" by simp
    ultimately have "unat x \<le> unat x div 2 ^ n * 2 ^ n + 2 ^ n" by linarith
    moreover have "(unat x + 2 ^ n) div 2 ^ n = unat x div 2 ^ n + 1" by (rule div_add_self2) simp
    ultimately have "unat x \<le> (unat x + 2 ^ n) div 2 ^ n * 2 ^ n" by (simp only: add_mult_distrib nat_mult_1)
    then show ?thesis using False by (simp add: calculate_mem_base_def n unat_and_not_mask s)
  qed (simp add: calculate_mem_base_def n)
  show "unat (calculate_mem_base d x) < unat x + unat (md_value d)"
  proof (cases "x mod 2 ^ n = 0")
    case True
    then show ?thesis by (simp add: calculate_mem_base_def n p)
  next
    case False
    then have "0 < unat x mod 2 ^ n" using m by (metis bot_nat_0.not_eq_extremum unat_eq_0)
    then have "unat x div 2 ^ n * 2 ^ n < unat x" by (metis div_mult_mod_eq less_add_same_cancel1)
    moreover have "(unat x + 2 ^ n) div 2 ^ n = unat x div 2 ^ n + 1" by (rule div_add_self2) simp
    ultimately show ?thesis
      using False by (simp add: calculate_mem_base_def n p unat_and_not_mask s add_mult_distrib del: div_add_self2)
  qed
qed

subsection \<open>The layout of the machines in RAM\<close>

text \<open>The abstract layout: base and size of the RAM of each machine, from the list of the sizes.\<close>

fun ram_layout :: "u32 \<Rightarrow> u32 list \<Rightarrow> (u32 \<times> u32) list" where
  "ram_layout d [] = []"
| "ram_layout d (r # rs) =
     (let base = calculate_mem_base (fst (the (select_page_mask r PageSizes))) d
      in (base, r) # ram_layout (base + r) rs)"

text \<open>The texts occur one behind the other.\<close>

fun in_order :: "string list \<Rightarrow> string \<Rightarrow> bool" where
  "in_order [] t = True"
| "in_order (s # ss) t = (\<exists>u v. t = u @ s @ v \<and> in_order ss v)"

lemma in_order_append: "in_order ss t \<Longrightarrow> in_order ss (u @ t)"
  by (cases ss) (auto, metis append.assoc)

definition ram_line :: "u32 \<Rightarrow> string" where
  "ram_line base = ''ram_base: 0x'' @ fmt_x base @ [NL]"

lemma process_tlb_entry_Inr:
  "process_tlb_entry sz base va c f = Some (Inr base', f') \<Longrightarrow>
     \<exists>p. select_page_mask sz PageSizes = Some p \<and> base' = calculate_mem_base (fst p) base"
  by (auto simp: process_tlb_entry_def Let_def gbind_Inr split: option.splits prod.splits)

text \<open>The RAM size a machine asks for.\<close>

definition vm_ram :: "('c, 's) libconfig \<Rightarrow> 's \<Rightarrow> u32" where
  "vm_ram L vm_conf = (case config_setting_lookup_string L vm_conf ''RAM_size_bytes'' of
     None \<Rightarrow> 0 | Some n \<Rightarrow> get_value_from_str MemSizes n)"

lemma gen_vm_tlb_Inr:
  assumes "gen_vm_tlb b L vm data code f = Some (Inr (ram, data', fl, code'), f')"
  shows "ram = vm_ram L vm \<and> ram \<noteq> 0 \<and> data' = calculate_mem_base (fst (the (select_page_mask ram PageSizes))) data \<and>
    (\<exists>t. of_text f' = of_text f @ t @ ram_line data')"
proof -
  obtain f0 n f3 f4 f5 f6 f7 where
    0: "write_to_conf_file (tabs 2 @ ''tlb: (const struct tlb_entries const []){'' @ [NL]) f = Some (Inr (), f0)" and
    n: "config_setting_lookup_string L vm ''RAM_size_bytes'' = Some n" "ram = get_value_from_str MemSizes n" "ram \<noteq> 0" and
    3: "process_tlb_entry ram data VMS_RAM_VIRTUAL_BASE_ADDRESS ''WRITE_BACK'' f0 = Some (Inr data', f3)" and
    4: "gen_flash b L vm code f3 = Some (Inr (fl, code'), f4)" and
    5: "gen_maps L vm f4 = Some (Inr (), f5)" and
    6: "write_to_conf_file (tabs 2 @ ''},'' @ [NL]) f5 = Some (Inr (), f6)" and
    7: "write_to_conf_file (tabs 2 @ ''ram_base: 0x'' @ fmt_x data' @ [NL]) f6 = Some (Inr (), f')"
    using assms unfolding gen_vm_tlb_def by (fastforce simp: gbind_Inr split: prod.splits)
  obtain t0 where t0: "of_text f0 = of_text f @ t0" using appendsD [OF appends_write 0] by blast
  obtain t3 where t3: "of_text f3 = of_text f0 @ t3" using appendsD [OF appends_process_tlb_entry 3] by blast
  obtain t4 where t4: "of_text f4 = of_text f3 @ t4" using appendsD [OF appends_parts(5) 4] by blast
  obtain t5 where t5: "of_text f5 = of_text f4 @ t5" using appendsD [OF appends_parts(4) 5] by blast
  have "of_text f' = of_text f5 @ tabs 2 @ ''},'' @ [NL] @ tabs 2 @ ram_line data'"
    using 6 7 by (simp add: write_Inr ram_line_def)
  then have "of_text f' = of_text f @ (t0 @ t3 @ t4 @ t5 @ tabs 2 @ ''},'' @ [NL] @ tabs 2) @ ram_line data'"
    using t0 t3 t4 t5 by simp
  moreover have "ram = vm_ram L vm" using n by (simp add: vm_ram_def)
  ultimately show ?thesis using n(3) process_tlb_entry_Inr [OF 3] by fastforce
qed

lemma vm_ram_size: "vm_ram L vm \<noteq> 0 \<Longrightarrow> vm_ram L vm \<in> md_value ` set MemSizes"
  using get_value_in by (fastforce simp: vm_ram_def split: option.splits)

lemma gen_vm_Inr:
  assumes "gen_vm b L vm g f = Some (Inr g', f')"
  obtains base t v where "vm_ram L vm \<noteq> 0" "base = calculate_mem_base (fst (the (select_page_mask (vm_ram L vm) PageSizes))) (g_data g)"
    "g_data g' = base + vm_ram L vm" "g_number g' = g_number g + 1" "g_tlb g' = g_tlb g + vm_tlb_entries b L vm"
    "g_tlb g' \<le> TOTAL_TLB_ENTRIES b" "of_text f' = of_text f @ t @ ram_line base @ v"
proof -
  obtain nm ap f1 f2 ram data fl code f3 line where
    1: "gen_vm_head L vm (g_apps g) f = Some (Inr (nm, ap), f1)" and
    2: "gseq [gen_devices L vm, gen_int_array L vm ''fast_interrupts'' ''fast_int_sz'',
        gen_int_array L vm ''interrupt_redirect'' ''interrupt_redirect_sz'',
        write_to_conf_file (tabs 2 @ ''num_tlb_entries: 0x'' @ fmt_x (of_nat (vm_tlb_entries b L vm)) @ '','' @ [NL])] f1
        = Some (Inr (), f2)" and
    t: "g_tlb g + vm_tlb_entries b L vm \<le> TOTAL_TLB_ENTRIES b" and
    3: "gen_vm_tlb b L vm (g_data g) (g_code g) f2 = Some (Inr (ram, data, fl, code), f3)" and
    4: "write_to_conf_file (tabs 1 @ ''},'' @ [NL]) f3 = Some (Inr (), f')" and
    g: "g_number g' = g_number g + 1" "g_data g' = data + ram" "g_tlb g' = g_tlb g + vm_tlb_entries b L vm"
    using assms unfolding gen_vm_def
    by (fastforce simp: gbind_Inr not_less simp del: gseq.simps split: prod.splits if_splits)
  obtain t1 where t1: "of_text f1 = of_text f @ t1" using appendsD [OF appends_parts(6) 1] by blast
  have "appends (gseq [gen_devices L vm, gen_int_array L vm ''fast_interrupts'' ''fast_int_sz'',
        gen_int_array L vm ''interrupt_redirect'' ''interrupt_redirect_sz'',
        write_to_conf_file (tabs 2 @ ''num_tlb_entries: 0x'' @ fmt_x (of_nat (vm_tlb_entries b L vm)) @ '','' @ [NL])])"
    by (auto intro!: appends_intros)
  from appendsD [OF this 2] obtain t2 where t2: "of_text f2 = of_text f1 @ t2" by blast
  from gen_vm_tlb_Inr [OF 3] obtain t3 where
    r: "ram = vm_ram L vm" "ram \<noteq> 0" "data = calculate_mem_base (fst (the (select_page_mask ram PageSizes))) (g_data g)"
      "of_text f3 = of_text f2 @ t3 @ ram_line data" by blast
  have "of_text f' = of_text f @ (t1 @ t2 @ t3) @ ram_line data @ tabs 1 @ ''},'' @ [NL]"
    using 4 t1 t2 r(4) by (simp add: write_Inr)
  with that show thesis using r g t by metis
qed

text \<open>All machines: their RAM is laid out as the abstract layout says, and the file says so in order.\<close>

lemma gen_vm_list_Inr:
  "gen_vm_list b L setting is g f = Some (Inr g', f') \<Longrightarrow>
   \<exists>vms t. length vms = length is \<and> (\<forall>k<length is. config_setting_get_elem L setting (is ! k) = Some (vms ! k)) \<and>
     (\<forall>vm\<in>set vms. vm_ram L vm \<in> md_value ` set MemSizes) \<and>
     g_tlb g' = g_tlb g + (\<Sum>vm\<leftarrow>vms. vm_tlb_entries b L vm) \<and> (is \<noteq> [] \<longrightarrow> g_tlb g' \<le> TOTAL_TLB_ENTRIES b) \<and>
     of_text f' = of_text f @ t \<and> in_order (map (\<lambda>x. ram_line (fst x)) (ram_layout (g_data g) (map (vm_ram L) vms))) t"
proof (induction "is" arbitrary: g f)
  case Nil
  then show ?case by (intro exI [of _ "[]"]) simp
next
  case (Cons i "is")
  obtain f1 vm g1 f2 where
    1: "write_to_conf_file (tabs 1 @ ''{ /* VM#'' @ fmt_d (int (g_number g)) @ '' */'' @ [NL]) f = Some (Inr (), f1)" and
    e: "config_setting_get_elem L setting i = Some vm" and
    2: "gen_vm b L vm g f1 = Some (Inr g1, f2)" and
    3: "gen_vm_list b L setting is g1 f2 = Some (Inr g', f')"
    using Cons.prems by (auto simp: gbind_Inr)
  obtain base t v where v: "vm_ram L vm \<noteq> 0" "base = calculate_mem_base (fst (the (select_page_mask (vm_ram L vm) PageSizes))) (g_data g)"
    "g_data g1 = base + vm_ram L vm" "g_tlb g1 = g_tlb g + vm_tlb_entries b L vm"
    "g_tlb g1 \<le> TOTAL_TLB_ENTRIES b" "of_text f2 = of_text f1 @ t @ ram_line base @ v"
    by (rule gen_vm_Inr [OF 2])
  from Cons.IH [OF 3] obtain vms u where
    IH: "length vms = length is" "\<forall>k<length is. config_setting_get_elem L setting (is ! k) = Some (vms ! k)"
      "\<forall>vm\<in>set vms. vm_ram L vm \<in> md_value ` set MemSizes"
      "g_tlb g' = g_tlb g1 + (\<Sum>vm\<leftarrow>vms. vm_tlb_entries b L vm)" "is \<noteq> [] \<longrightarrow> g_tlb g' \<le> TOTAL_TLB_ENTRIES b"
      "of_text f' = of_text f2 @ u" "in_order (map (\<lambda>x. ram_line (fst x)) (ram_layout (g_data g1) (map (vm_ram L) vms))) u"
    by blast
  let ?t = "tabs 1 @ ''{ /* VM#'' @ fmt_d (int (g_number g)) @ '' */'' @ [NL]"
  let ?u = "(?t @ t) @ ram_line base @ v @ u"
  have whole: "of_text f' = of_text f @ ?u"
    using 1 v(6) IH(6) by (simp add: write_Inr)
  have lay: "ram_layout (g_data g) (map (vm_ram L) (vm # vms)) =
      (base, vm_ram L vm) # ram_layout (g_data g1) (map (vm_ram L) vms)"
    by (simp add: v(2,3) Let_def)
  have o1: "in_order (map (\<lambda>x. ram_line (fst x)) (ram_layout (g_data g1) (map (vm_ram L) vms))) (v @ u)"
    by (rule in_order_append [OF IH(7)])
  have ord: "in_order (map (\<lambda>x. ram_line (fst x)) (ram_layout (g_data g) (map (vm_ram L) (vm # vms)))) ?u"
    unfolding lay unfolding list.map in_order.simps fst_conv
    by (rule exI [of _ "?t @ t"], rule exI [of _ "v @ u"], rule conjI [OF refl o1])
  have bound: "i # is \<noteq> [] \<longrightarrow> g_tlb g' \<le> TOTAL_TLB_ENTRIES b"
  proof (cases "is")
    case Nil
    then have "vms = []" using IH(1) by simp
    then show ?thesis using v(5) IH(4) by simp
  qed (use IH(5) in simp)
  have len: "length (vm # vms) = length (i # is)" using IH(1) by simp
  have elems: "\<forall>k<length (i # is). config_setting_get_elem L setting ((i # is) ! k) = Some ((vm # vms) ! k)"
    using IH(2) e by (auto simp: less_Suc_eq_0_disj)
  have ram: "\<forall>vm\<in>set (vm # vms). vm_ram L vm \<in> md_value ` set MemSizes"
    using IH(3) vm_ram_size [OF v(1)] by simp
  have tlb: "g_tlb g' = g_tlb g + (\<Sum>vm\<leftarrow>vm # vms. vm_tlb_entries b L vm)" using IH(4) v(4) by simp
  show ?case
    by (intro exI [of _ "vm # vms"] exI [of _ ?u] conjI len elems ram tlb bound whole ord)
qed

text \<open>The layout: aligned, in order and without overlap, as long as it stays below the end of memory.\<close>

lemma mem_size_bounds:
  assumes "r \<in> md_value ` set MemSizes"
  shows "unat r \<le> 0x2000000 \<and> unat (md_value (fst (the (select_page_mask r PageSizes)))) \<le> 0x1000000 \<and>
    0 < unat r \<and> fst (the (select_page_mask r PageSizes)) \<in> set PageSizes"
proof -
  obtain p where p: "select_page_mask r PageSizes = Some p" "fst p \<in> set PageSizes"
    "r = (if snd p then 2 * md_value (fst p) else md_value (fst p))" using mem_size_page [OF assms] by blast
  have r: "unat r \<le> 0x2000000" "0 < unat r" using assms unfolding MemSizes_values by auto
  obtain n where n: "n \<le> 28" "md_value (fst p) = 2 ^ n" using PageSizes_ok [OF p(2)] by blast
  have "unat (md_value (fst p)) \<le> 0x1000000"
  proof (cases "snd p")
    case True
    have e: "r = 2 ^ Suc n" using True p(3) n by simp
    then have "unat r = 2 ^ Suc n" using n unat_exp32 [of "Suc n"] by (simp del: power_Suc)
    then show ?thesis using r(1) n unat_exp32 [of n] by simp
  next
    case False
    then have "r = md_value (fst p)" using p(3) by simp
    moreover have "md_value (fst p) \<noteq> 33554432" using p(2) by (auto simp: PageSizes_def msz_def)
    ultimately show ?thesis using assms unfolding MemSizes_values by auto
  qed
  then show ?thesis using r p by simp
qed

definition page_of :: "u32 \<Rightarrow> nat" where
  "page_of r = unat (md_value (fst (the (select_page_mask r PageSizes))))"

lemma ram_layout_ok:
  "\<forall>r\<in>set rs. r \<in> md_value ` set MemSizes \<Longrightarrow> unat d + length rs * 0x3000000 < 2 ^ 32 \<Longrightarrow>
   (\<forall>(base, r)\<in>set (ram_layout d rs). unat d \<le> unat base \<and> unat base + unat r \<le> unat d + length rs * 0x3000000 \<and>
      page_of r dvd unat base) \<and>
   sorted_wrt (\<lambda>(b1, r1) (b2, r2). unat b1 + unat r1 \<le> unat b2) (ram_layout d rs)"
proof (induction rs arbitrary: d)
  case (Cons r rs)
  let ?p = "fst (the (select_page_mask r PageSizes))"
  let ?base = "calculate_mem_base ?p d"
  have b: "unat r \<le> 0x2000000" "unat (md_value ?p) \<le> 0x1000000" "0 < unat r" "?p \<in> set PageSizes"
    using mem_size_bounds [of r] Cons.prems(1) by auto
  have "unat d + unat (md_value ?p) \<le> 2 ^ 32 - 1" using b(2) Cons.prems(2) by simp
  note c = calculate_mem_base_ok [OF b(4) this]
  have s: "unat (?base + r) = unat ?base + unat r"
    by (rule unat_add_u32) (use c b Cons.prems(2) in simp)
  have "unat (?base + r) + length rs * 0x3000000 < 2 ^ 32" using s c(3) b Cons.prems(2) by simp
  from Cons.IH [OF _ this] Cons.prems(1) have IH:
    "\<forall>(b1, r1)\<in>set (ram_layout (?base + r) rs). unat ?base + unat r \<le> unat b1 \<and>
       unat b1 + unat r1 \<le> unat ?base + unat r + length rs * 0x3000000 \<and> page_of r1 dvd unat b1"
    "sorted_wrt (\<lambda>(b1, r1) (b2, r2). unat b1 + unat r1 \<le> unat b2) (ram_layout (?base + r) rs)"
    by (simp_all add: s)
  have "unat ?base + unat r \<le> unat d + 0x3000000" using c(3) b by simp
  then show ?case using IH c(1,2) b(3) by (fastforce simp: Let_def page_of_def)
qed simp

subsection \<open>A configuration that is accepted\<close>

lemma gseq_last_Inr: "gseq (ms @ ns) f = Some (Inr (), f') \<longleftrightarrow> (\<exists>f1. gseq ms f = Some (Inr (), f1) \<and> gseq ns f1 = Some (Inr (), f'))"
  by (induction ms arbitrary: f) (auto simp: gbind_Inr)

lemma gen_system_Inr:
  assumes "gen_system_configuration L cfg f = Some (Inr (), f')"
    "config_lookup_int L cfg ''system.scheduler_quantum_ms'' = Some q"
  shows "3 \<le> q"
  using assms by (auto simp: gen_system_configuration_def gbind_Inr when_some_def split: if_splits)

definition start_room :: "bool \<Rightarrow> nat \<Rightarrow> bool" where
  "start_room b n \<longleftrightarrow> unat (VMS_DATA_INTERMEDIATE_BASE_ADDRESS b) + n * 0x3000000 < 2 ^ 32"

lemma pic_room: "2 * n \<le> TOTAL_TLB_ENTRIES False \<Longrightarrow> start_room False n"
  by (simp add: start_room_def TOTAL_TLB_ENTRIES_def VMS_DATA_INTERMEDIATE_BASE_ADDRESS_def)

lemma in_order_more: "in_order ss u \<Longrightarrow> in_order ss (u @ w)"
  by (induction ss arbitrary: u) (auto, metis append.assoc)

lemma gen_conf_vms_Inr:
  assumes "gen_conf_vms b L cfg f = Some (Inr (apps, cnt, infos), f')"
  obtains setting vms t where "config_lookup L cfg ''virtual_machines'' = Some setting"
    "cnt = config_setting_length L setting" "length vms = cnt"
    "\<forall>k<cnt. config_setting_get_elem L setting k = Some (vms ! k)"
    "(\<Sum>vm\<leftarrow>vms. vm_tlb_entries b L vm) \<le> TOTAL_TLB_ENTRIES b"
    "\<forall>vm\<in>set vms. vm_ram L vm \<in> md_value ` set MemSizes"
    "of_text f' = of_text f @ t"
    "in_order (map (\<lambda>x. ram_line (fst x)) (ram_layout (VMS_DATA_INTERMEDIATE_BASE_ADDRESS b) (map (vm_ram L) vms))) t"
proof -
  obtain setting f1 f2 g f3 where
    1: "write_to_conf_file (''/* VMs mapping */'' @ [NL]) f = Some (Inr (), f1)" and
    s: "config_lookup L cfg ''virtual_machines'' = Some setting" and
    2: "write_to_conf_file (''static const struct vmconf_t const VMCONF[] = {'' @ [NL]) f1 = Some (Inr (), f2)" and
    3: "gen_vm_list b L setting [0..<config_setting_length L setting] (vms_start b) f2 = Some (Inr g, f3)" and
    4: "write_to_conf_file (''};'' @ [NL]) f3 = Some (Inr (), f')" and c: "cnt = config_setting_length L setting"
    using assms unfolding gen_conf_vms_def Let_def by (fastforce simp: gbind_Inr)
  from gen_vm_list_Inr [OF 3] obtain vms t where v: "length vms = length [0..<cnt]"
    "\<forall>k<length [0..<cnt]. config_setting_get_elem L setting ([0..<cnt] ! k) = Some (vms ! k)"
    "\<forall>vm\<in>set vms. vm_ram L vm \<in> md_value ` set MemSizes"
    "g_tlb g = g_tlb (vms_start b) + (\<Sum>vm\<leftarrow>vms. vm_tlb_entries b L vm)"
    "[0..<cnt] \<noteq> [] \<longrightarrow> g_tlb g \<le> TOTAL_TLB_ENTRIES b" "of_text f3 = of_text f2 @ t"
    "in_order (map (\<lambda>x. ram_line (fst x)) (ram_layout (g_data (vms_start b)) (map (vm_ram L) vms))) t"
    unfolding c by blast
  obtain h where h: "of_text f2 = of_text f @ h" using 1 2 by (auto simp: write_Inr)
  have txt1: "of_text f' = of_text f @ h @ t @ ''};'' @ [NL]" using 4 v(6) h by (simp add: write_Inr)
  have "in_order (map (\<lambda>x. ram_line (fst x)) (ram_layout (VMS_DATA_INTERMEDIATE_BASE_ADDRESS b) (map (vm_ram L) vms)))
      (h @ t @ ''};'' @ [NL])"
    using v(7) by (intro in_order_append in_order_more) (simp add: vms_start_def)
  moreover have "(\<Sum>vm\<leftarrow>vms. vm_tlb_entries b L vm) \<le> TOTAL_TLB_ENTRIES b"
    using v(1,4,5) by (cases cnt) (simp_all add: vms_start_def)
  ultimately show thesis using that s c v(1,2,3) txt1 by simp
qed

lemma two_entries: "2 * length vms \<le> (\<Sum>vm\<leftarrow>vms. vm_tlb_entries False L vm)"
  by (induction vms) (auto simp: vm_tlb_entries_def)

lemma sum_unit: "\<forall>x. a \<noteq> Inl x \<Longrightarrow> a = Inr ()"
  by (cases a) auto

text \<open>The exit code 0 of the generator.\<close>

lemma genconf_main_0:
  assumes "genconf_main b L argv rd outfile info = Some (0, out', info', line)"
  obtains cfg f0 f1 f2 f apps cnt infos where "rd (argv ! 1) = Some cfg" "outfile = Some f0" "out' = Some f"
    "gseq [initial_msg (argv ! 1), gen_system_configuration L cfg] f0 = Some (Inr (), f1)"
    "gen_conf_vms b L cfg f1 = Some (Inr (apps, cnt, infos), f2)"
    "gseq [write_vm_number cnt apps, rt_vm_list] f2 = Some (Inr (), f)"
proof -
  have "\<not> length argv < 2" using assms by (auto simp: genconf_main_def EXIT_FAILURE_def)
  moreover obtain cfg where cfg: "rd (argv ! 1) = Some cfg"
    using assms by (cases "rd (argv ! 1)") (auto simp: genconf_main_def EXIT_FAILURE_def split: if_splits)
  moreover obtain f0 where f0: "outfile = Some f0"
    using assms cfg by (cases outfile) (auto simp: genconf_main_def EXIT_FAILURE_def split: if_splits)
  ultimately obtain r1 f2 where 1: "gbind (gseq [initial_msg (argv ! 1), gen_system_configuration L cfg])
      (\<lambda>_. gen_conf_vms b L cfg) f0 = Some (r1, f2)"
    "(case r1 of Inl _ \<Rightarrow> Some (EXIT_FAILURE, Some f2, info, [])
      | Inr (app_list, vm_count, vms_info) \<Rightarrow>
          (let (ret, info1) = write_str_to_file vms_info info in
           if ret \<noteq> 0 then Some (EXIT_FAILURE, Some f2, info1, [])
           else do { (r2, f2) \<leftarrow> gseq [write_vm_number vm_count app_list, rt_vm_list] f2;
                     case r2 of
                       Inl _ \<Rightarrow> Some (EXIT_FAILURE, Some f2, info1, [])
                     | Inr _ \<Rightarrow> Some (0, Some f2, info1, app_list @ [NL]) })) = Some (0, out', info', line)"
    using assms by (auto simp: genconf_main_def bind_eq_Some_conv simp del: gseq.simps)
  obtain apps cnt infos where r1: "r1 = Inr (apps, cnt, infos)"
    using 1(2) by (cases r1) (auto simp: EXIT_FAILURE_def)
  then obtain r2 f where 2: "gseq [write_vm_number cnt apps, rt_vm_list] f2 = Some (r2, f)" "r2 = Inr ()" "out' = Some f"
    using 1(2) by (auto simp: EXIT_FAILURE_def bind_eq_Some_conv simp del: gseq.simps split: prod.splits if_splits sum.splits
        dest!: sum_unit)
  from 1(1) r1 obtain f1 where "gseq [initial_msg (argv ! 1), gen_system_configuration L cfg] f0 = Some (Inr (), f1)"
    "gen_conf_vms b L cfg f1 = Some (Inr (apps, cnt, infos), f2)"
    unfolding r1 gbind_Inr by (metis old.unit.exhaust)
  then show thesis using that cfg f0 2 by simp
qed

text \<open>What the exit code 0 guarantees about the configuration and the file.\<close>

lemma genconf_layout_ok:
  assumes "genconf_main b L argv rd outfile info = Some (0, out', info', line)"
  shows "\<exists>cfg setting vms f t. rd (argv ! 1) = Some cfg \<and> config_lookup L cfg ''virtual_machines'' = Some setting \<and>
    out' = Some f \<and> length vms = config_setting_length L setting \<and>
    (\<forall>k<length vms. config_setting_get_elem L setting k = Some (vms ! k)) \<and>
    (\<forall>q. config_lookup_int L cfg ''system.scheduler_quantum_ms'' = Some q \<longrightarrow> 3 \<le> q) \<and>
    (\<Sum>vm\<leftarrow>vms. vm_tlb_entries b L vm) \<le> TOTAL_TLB_ENTRIES b \<and>
    (\<exists>u. of_text f = u @ t) \<and>
    in_order (map (\<lambda>x. ram_line (fst x)) (ram_layout (VMS_DATA_INTERMEDIATE_BASE_ADDRESS b) (map (vm_ram L) vms))) t \<and>
    (start_room b (length vms) \<longrightarrow>
      sorted_wrt (\<lambda>(b1, r1) (b2, r2). unat b1 + unat r1 \<le> unat b2)
        (ram_layout (VMS_DATA_INTERMEDIATE_BASE_ADDRESS b) (map (vm_ram L) vms)) \<and>
      (\<forall>(base, r)\<in>set (ram_layout (VMS_DATA_INTERMEDIATE_BASE_ADDRESS b) (map (vm_ram L) vms)).
         page_of r dvd unat base \<and> unat base + unat r < 2 ^ 32)) \<and>
    (\<not> b \<longrightarrow> start_room b (length vms))"
proof -
  let ?B = "VMS_DATA_INTERMEDIATE_BASE_ADDRESS b"
  obtain cfg f0 f1 f2 f apps cnt infos where m: "rd (argv ! 1) = Some cfg" "out' = Some f"
    "gseq [initial_msg (argv ! 1), gen_system_configuration L cfg] f0 = Some (Inr (), f1)"
    "gen_conf_vms b L cfg f1 = Some (Inr (apps, cnt, infos), f2)"
    "gseq [write_vm_number cnt apps, rt_vm_list] f2 = Some (Inr (), f)" by (rule genconf_main_0 [OF assms])
  obtain setting vms t where v: "config_lookup L cfg ''virtual_machines'' = Some setting"
    "cnt = config_setting_length L setting" "length vms = cnt"
    "\<forall>k<cnt. config_setting_get_elem L setting k = Some (vms ! k)"
    "(\<Sum>vm\<leftarrow>vms. vm_tlb_entries b L vm) \<le> TOTAL_TLB_ENTRIES b"
    "\<forall>vm\<in>set vms. vm_ram L vm \<in> md_value ` set MemSizes" "of_text f2 = of_text f1 @ t"
    "in_order (map (\<lambda>x. ram_line (fst x)) (ram_layout ?B (map (vm_ram L) vms))) t"
    by (rule gen_conf_vms_Inr [OF m(4)])
  have "appends (gseq [write_vm_number cnt apps, rt_vm_list])" by (auto intro!: appends_intros)
  from appendsD [OF this m(5)] obtain w where w: "of_text f = of_text f2 @ w" by blast
  have o: "in_order (map (\<lambda>x. ram_line (fst x)) (ram_layout ?B (map (vm_ram L) vms))) (t @ w)"
    by (rule in_order_more [OF v(8)])
  have txt1: "of_text f = of_text f1 @ t @ w" using w v(7) by simp
  have q: "\<forall>q. config_lookup_int L cfg ''system.scheduler_quantum_ms'' = Some q \<longrightarrow> 3 \<le> q"
    using m(3) gen_system_Inr by (fastforce simp: gbind_Inr)
  have lay: "sorted_wrt (\<lambda>(b1, r1) (b2, r2). unat b1 + unat r1 \<le> unat b2) (ram_layout ?B (map (vm_ram L) vms)) \<and>
      (\<forall>(base, r)\<in>set (ram_layout ?B (map (vm_ram L) vms)). page_of r dvd unat base \<and> unat base + unat r < 2 ^ 32)"
    if "start_room b (length vms)"
    using ram_layout_ok [of "map (vm_ram L) vms" ?B] v(6) that unfolding start_room_def by fastforce
  have room: "\<not> b \<longrightarrow> start_room b (length vms)"
    using pic_room [of "length vms"] two_entries [of vms L] v(5) by auto
  show ?thesis
    by (rule exI [of _ cfg], rule exI [of _ setting], rule exI [of _ vms], rule exI [of _ f], rule exI [of _ "t @ w"])
      (use m v(1-5) o txt1 q lay room in simp)
qed

subsection \<open>A small configuration\<close>

definition demo_lib :: "(unit, nat) libconfig" where
  "demo_lib =
     \<lparr>config_lookup = (\<lambda>_ p. if p = ''virtual_machines'' then Some 0 else None),
      config_lookup_int = (\<lambda>_ p. if p = ''system.scheduler_quantum_ms'' then Some 10 else None),
      config_setting_length = (\<lambda>s. if s = 0 then 2 else 0),
      config_setting_get_elem = (\<lambda>s i. Some (Suc i)),
      config_setting_get_string_elem = (\<lambda>_ _. None),
      config_setting_lookup = (\<lambda>_ _. None),
      config_setting_lookup_string = (\<lambda>s p.
        if p = ''app_name'' then Some ''ping'' else if p = ''os_type'' then Some ''BARE_METAL''
        else if p = ''RAM_size_bytes'' then Some ''MEM_SIZE_64KB''
        else if p = ''flash_size_bytes'' then Some ''MEM_SIZE_128KB'' else None),
      config_setting_lookup_int = (\<lambda>_ p. if p = ''priority'' then Some 50 else None)\<rparr>"

definition demo_run :: "(int \<times> ofile option \<times> ofile option \<times> string) option" where
  "demo_run = genconf_main False demo_lib [''genconf'', ''two.cfg''] (\<lambda>_. Some ())
     (Some \<lparr>of_text = [], of_room = 5000\<rparr>) (Some \<lparr>of_text = [], of_room = 5000\<rparr>)"

lemma demo_run_0: "map_option fst demo_run = Some 0"
  by code_simp

lemma demo_layout:
  "map (\<lambda>x. ram_line (fst x)) (ram_layout 0x80008000 (map (vm_ram demo_lib) [1, 2])) = [ram_line 0x80010000, ram_line 0x80020000]"
  by code_simp

lemma demo_lib_simps:
  "config_lookup demo_lib () ''virtual_machines'' = Some 0" "config_setting_length demo_lib 0 = 2"
  "config_setting_get_elem demo_lib 0 k = Some (Suc k)"
  by (simp_all add: demo_lib_def)

end
