(* ===== verification/EthPhy.thy ===== *)
theory EthPhy
  imports EthRing
begin

text \<open>
  The dialogue with the PHY always comes to an end: every polling loop is bounded by a timeout, so it
  returns when the free running counter advances. The counter may be read as rarely as the program
  does, provided it makes less than a quarter of its range between two reads.
\<close>

subsection \<open>A counter that advances\<close>

definition count_advances :: "hv_conf \<Rightarrow> (nat \<Rightarrow> nat) \<Rightarrow> bool" where
  "count_advances c g \<longleftrightarrow> (\<forall>n. volatile_cp0 c n CP0_COUNT = of_nat (g n) \<and> g n < g (Suc n) \<and> g (Suc n) \<le> g n + 2 ^ 29)"

lemma count_step: "count_advances c g \<Longrightarrow> g n < g (Suc n) \<and> g (Suc n) \<le> g n + 2 ^ 29"
  by (simp add: count_advances_def)

lemma count_read: "count_advances (conf s) g \<Longrightarrow> mfc0_volatile CP0_COUNT s = (of_nat (g (vol_n s)), s\<lparr>vol_n := Suc (vol_n s)\<rparr>)"
  by (simp add: count_advances_def mfc0_volatile_def)

lemma sfr_read_upd: "sfr_read a s = (dev (conf s) (vol_n s) (a AND 0x1FFFFFFF),
    s\<lparr>vol_n := Suc (vol_n s), io := io s @ [IORead (a AND 0x1FFFFFFF) (dev (conf s) (vol_n s) (a AND 0x1FFFFFFF))]\<rparr>)"
  by (simp add: sfr_read_def dev_read_def Let_def)

lemma elapsed:
  assumes "a \<le> b" "b - a < 2 ^ 32"
  shows "unat (of_nat b - of_nat a :: u32) = b - a"
proof -
  have "of_nat b - of_nat a = (of_nat (b - a) :: u32)" using assms(1) by (simp add: of_nat_diff)
  then show ?thesis using assms(2) by (simp only: unat_of_nat_u32)
qed

subsection \<open>The loops\<close>

text \<open>\<open>a\<close> is the time at the start; the loop is entered at most a quarter of the range after the timeout.\<close>

lemma busy_wait_returns:
  assumes "count_advances (conf s) g" "a \<le> g (vol_n s)" "g (vol_n s) \<le> a + unat timeout + 2 ^ 30" "unat timeout < 2 ^ 31"
  shows "\<exists>r. busy_wait reg bits (of_nat a) timeout s = Some r"
  using assms(1-3)
proof (induction "a + unat timeout + 2 ^ 30 - g (vol_n s)" arbitrary: s rule: less_induct)
  case less
  let ?s1 = "snd (sfr_read reg s)" and ?k = "vol_n s"
  let ?s2 = "?s1\<lparr>vol_n := Suc (Suc ?k)\<rparr>"
  have s1: "conf ?s1 = conf s" "vol_n ?s1 = Suc ?k" by (simp_all add: sfr_read_upd)
  have c: "mfc0_volatile CP0_COUNT ?s1 = (of_nat (g (Suc ?k)), ?s2)" using count_read [of ?s1 g] less.prems(1) s1 by simp
  have st: "g ?k < g (Suc ?k)" "g (Suc ?k) \<le> g ?k + 2 ^ 29" "g (Suc ?k) < g (Suc (Suc ?k))" "g (Suc (Suc ?k)) \<le> g (Suc ?k) + 2 ^ 29"
    using count_step [OF less.prems(1)] by blast+
  have e: "unat (of_nat (g (Suc ?k)) - of_nat a :: u32) = g (Suc ?k) - a"
    using st(1,2) less.prems(2,3) assms(4) by (intro elapsed) simp_all
  show ?case
  proof (cases "fst (sfr_read reg s) AND bits = 0 \<or> timeout < of_nat (g (Suc ?k)) - of_nat a")
    case True
    then show ?thesis by (subst busy_wait.simps) (auto simp: case_prod_beta c)
  next
    case False
    then have "g (Suc ?k) - a \<le> unat timeout" using e by (simp add: word_less_nat_alt)
    then have "\<exists>r. busy_wait reg bits (of_nat a) timeout ?s2 = Some r"
      using less.prems st s1 by (intro less.hyps) simp_all
    then show ?thesis using False by (subst busy_wait.simps) (auto simp: case_prod_beta c)
  qed
qed

lemma mask_wait_returns:
  assumes "count_advances (conf s) g" "a \<le> g (vol_n s)" "g (vol_n s) \<le> a + unat timeout + 2 ^ 30" "unat timeout < 2 ^ 31"
  shows "\<exists>r. mask_wait m x (of_nat a) timeout s = Some r"
  using assms(1-3)
proof (induction "a + unat timeout + 2 ^ 30 - g (vol_n s)" arbitrary: s rule: less_induct)
  case less
  let ?s1 = "snd (sfr_read EMAC1MRDD s)" and ?k = "vol_n s"
  let ?s2 = "?s1\<lparr>vol_n := Suc (Suc ?k)\<rparr>" and ?hit = "(if fst (sfr_read EMAC1MRDD s) AND m = m then 1 else 0) = x"
  have s1: "conf ?s1 = conf s" "vol_n ?s1 = Suc ?k" by (simp_all add: sfr_read_upd)
  have c: "mfc0_volatile CP0_COUNT ?s1 = (of_nat (g (Suc ?k)), ?s2)" using count_read [of ?s1 g] less.prems(1) s1 by simp
  have st: "g ?k < g (Suc ?k)" "g (Suc ?k) \<le> g ?k + 2 ^ 29" "g (Suc ?k) < g (Suc (Suc ?k))" "g (Suc (Suc ?k)) \<le> g (Suc ?k) + 2 ^ 29"
    using count_step [OF less.prems(1)] by blast+
  have e: "unat (of_nat (g (Suc ?k)) - of_nat a :: u32) = g (Suc ?k) - a"
    using st(1,2) less.prems(2,3) assms(4) by (intro elapsed) simp_all
  show ?case
  proof (cases "?hit \<or> timeout < of_nat (g (Suc ?k)) - of_nat a")
    case True
    then show ?thesis by (subst mask_wait.simps) (auto simp: case_prod_beta c)
  next
    case False
    then have "g (Suc ?k) - a \<le> unat timeout" using e by (simp add: word_less_nat_alt)
    then have "\<exists>r. mask_wait m x (of_nat a) timeout ?s2 = Some r"
      using less.prems st s1 by (intro less.hyps) simp_all
    then show ?thesis using False by (subst mask_wait.simps) (auto simp: case_prod_beta c)
  qed
qed

lemma udelay_loop_returns:
  assumes "count_advances (conf s) g" "g (vol_n s) \<le> f + 2 ^ 30" "f \<le> g (vol_n s) + 2 ^ 30"
  shows "\<exists>t. udelay_loop (of_nat f) s = Some t"
  using assms
proof (induction "f + 2 ^ 30 - g (vol_n s)" arbitrary: s rule: less_induct)
  case less
  let ?k = "vol_n s"
  have c: "mfc0_volatile CP0_COUNT s = (of_nat (g ?k), s\<lparr>vol_n := Suc ?k\<rparr>)" by (rule count_read [OF less.prems(1)])
  have st: "g ?k < g (Suc ?k)" "g (Suc ?k) \<le> g ?k + 2 ^ 29" using count_step [OF less.prems(1)] by blast+
  show ?case
  proof (cases "f \<le> g ?k")
    case True
    then have "unat (of_nat (g ?k) - of_nat f :: u32) = g ?k - f" using less.prems(2) by (intro elapsed) simp_all
    then have "0 \<le> sint (of_nat (g ?k) - of_nat f :: u32)" using True less.prems(2) by (subst sint_small32) simp_all
    then show ?thesis by (subst udelay_loop.simps) (simp add: c)
  next
    case False
    then have "\<exists>t. udelay_loop (of_nat f) (s\<lparr>vol_n := Suc ?k\<rparr>) = Some t"
      using less.prems st by (intro less.hyps) simp_all
    then show ?thesis by (subst udelay_loop.simps) (simp add: c)
  qed
qed

text \<open>A millisecond at the rates in use.\<close>

definition slow_enough :: "hv_conf \<Rightarrow> bool" where
  "slow_enough c \<longleftrightarrow> CPU_FREQ c div 1000000 \<le> 4000"

lemma delay_returns:
  assumes "count_advances (conf s) g" "slow_enough (conf s)"
  shows "\<exists>t. delay_ms 1 s = Some t"
proof -
  let ?d = "1000 * (CPU_FREQ (conf s) div 1000000) div 2" and ?k = "vol_n s"
  have "unat (CPU_FREQ (conf s) div 1000000) \<le> 4000" using assms(2) by (simp add: slow_enough_def word_le_nat_alt)
  then have "unat (1000 * (CPU_FREQ (conf s) div 1000000)) = 1000 * unat (CPU_FREQ (conf s) div 1000000)"
    by (subst unat_mult_lem [THEN iffD1]) simp_all
  then have d: "unat ?d \<le> 2000000" using \<open>unat (CPU_FREQ (conf s) div 1000000) \<le> 4000\<close> by (simp add: unat_div)
  have st: "g ?k < g (Suc ?k)" "g (Suc ?k) \<le> g ?k + 2 ^ 29" using count_step [OF assms(1)] by blast+
  have "\<exists>t. udelay_loop (of_nat (g ?k + unat ?d)) (s\<lparr>vol_n := Suc ?k\<rparr>) = Some t"
    by (rule udelay_loop_returns) (use assms(1) st d in \<open>simp, linarith?\<close>)+
  then show ?thesis by (simp add: delay_ms_def udelay_def count_read [OF assms(1)])
qed

subsection \<open>The functions\<close>

text \<open>Results of a function that returns; the accesses to the PHY change neither the configuration nor the statics.\<close>

definition yields :: "('a \<Rightarrow> bool) \<Rightarrow> 'a option \<Rightarrow> bool" where
  "yields Q m \<longleftrightarrow> (\<exists>x. m = Some x \<and> Q x)"

definition calm_phy :: "hv_conf \<Rightarrow> eth_statics \<Rightarrow> hv \<Rightarrow> bool" where
  "calm_phy c e s \<longleftrightarrow> conf s = c \<and> eth s = e"

lemma yields_intros:
  "Q x \<Longrightarrow> yields Q (Some x)"
  "(b \<Longrightarrow> yields Q m) \<Longrightarrow> (\<not> b \<Longrightarrow> yields Q m') \<Longrightarrow> yields Q (if b then m else m')"
  by (simp_all add: yields_def)

lemma yields_bind:
  "yields (\<lambda>(v, t). calm_phy c e t) m2 \<Longrightarrow> (\<And>v t. calm_phy c e t \<Longrightarrow> yields Q (f2 v t)) \<Longrightarrow> yields Q (m2 \<bind> (\<lambda>(v, t). f2 v t))"
  "yields (calm_phy c e) m \<Longrightarrow> (\<And>t. calm_phy c e t \<Longrightarrow> yields Q (f t)) \<Longrightarrow> yields Q (m \<bind> f)"
  by (auto simp: yields_def bind_eq_Some_conv)

lemma yields_let:
  "calm_phy c e (snd p) \<Longrightarrow> (\<And>v t. calm_phy c e t \<Longrightarrow> yields Q (f2 v t)) \<Longrightarrow> yields Q (let (v, t) = p in f2 v t)"
  by (simp add: case_prod_beta)

text \<open>The time taken from the counter, and the state right after.\<close>

lemma yields_count:
  "count_advances c g \<Longrightarrow> calm_phy c e s \<Longrightarrow>
   (\<And>k t. calm_phy c e t \<Longrightarrow> vol_n t = Suc k \<Longrightarrow> yields Q (f (of_nat (g k)) t)) \<Longrightarrow>
   yields Q (let (v, t) = mfc0_volatile CP0_COUNT s in f v t)"
  using count_read [of s g] by (simp add: calm_phy_def)

lemma calm_ops:
  "calm_phy c e (sfr_write a v s) = calm_phy c e s" "calm_phy c e (sfr_writes ws s) = calm_phy c e s"
  "calm_phy c e (snd (sfr_read a s)) = calm_phy c e s" "vol_n (sfr_write a v s) = vol_n s"
proof -
  show w: "calm_phy c e (sfr_write a v s) = calm_phy c e s" for a v s by (simp add: calm_phy_def sfr_write_def dev_write_def)
  show "calm_phy c e (sfr_writes ws s) = calm_phy c e s" by (induction ws s rule: sfr_writes.induct) (simp_all add: w)
  show "calm_phy c e (snd (sfr_read a s)) = calm_phy c e s" "vol_n (sfr_write a v s) = vol_n s"
    by (simp_all add: calm_phy_def sfr_read_upd sfr_write_def dev_write_def)
qed

lemma calm_waits:
  "busy_wait reg bits st to s = Some r \<Longrightarrow> calm_phy (conf s) (eth s) (snd r)"
  "mask_wait m x st to s = Some r \<Longrightarrow> calm_phy (conf s) (eth s) (snd r)"
  "delay_ms n s = Some t \<Longrightarrow> calm_phy (conf s) (eth s) t"
proof -
  show "busy_wait reg bits st to s = Some r \<Longrightarrow> calm_phy (conf s) (eth s) (snd r)"
  proof (induction reg bits st to s r rule: busy_wait.raw_induct [rotated, consumes 1])
    case (1 loop reg bits st to s r)
    then show ?case by (auto simp: case_prod_beta calm_phy_def sfr_read_upd mfc0_volatile_def split: if_splits)
  qed
  show "mask_wait m x st to s = Some r \<Longrightarrow> calm_phy (conf s) (eth s) (snd r)"
  proof (induction m x st to s r rule: mask_wait.raw_induct [rotated, consumes 1])
    case (1 loop m x st to s r)
    show ?case
      using 1(2) 1(1) [of m x st to "snd (mfc0_volatile CP0_COUNT (snd (sfr_read EMAC1MRDD s)))" r]
      by (auto simp: case_prod_beta calm_phy_def sfr_read_upd mfc0_volatile_def Let_def split: if_split_asm)
  qed
  show "delay_ms n s = Some t \<Longrightarrow> calm_phy (conf s) (eth s) t"
    using udelay_hw [of "n * 1000" s t] by (auto simp: delay_ms_def hw_only_def calm_phy_def)
qed

lemma wait_yields:
  assumes "count_advances c g" "calm_phy c e u" "vol_n u = Suc k" "unat timeout < 2 ^ 31"
  shows "yields (\<lambda>(b, t). calm_phy c e t) (busy_wait reg bits (of_nat (g k)) timeout u)"
    "yields (\<lambda>(b, t). calm_phy c e t) (mask_wait m x (of_nat (g k)) timeout u)"
proof -
  have st: "g k < g (Suc k)" "g (Suc k) \<le> g k + 536870912" using count_step [OF assms(1), of k] by simp_all
  have cu: "conf u = c" "eth u = e" using assms(2) by (simp_all add: calm_phy_def)
  have "count_advances (conf u) g" using assms(1) cu by simp
  moreover have "g k \<le> g (vol_n u)" "g (vol_n u) \<le> g k + unat timeout + 2 ^ 30"
    unfolding assms(3) using st by (simp, simp)
  ultimately have "\<exists>r. busy_wait reg bits (of_nat (g k)) timeout u = Some r" "\<exists>r. mask_wait m x (of_nat (g k)) timeout u = Some r"
    using busy_wait_returns mask_wait_returns assms(4) by blast+
  then show "yields (\<lambda>(b, t). calm_phy c e t) (busy_wait reg bits (of_nat (g k)) timeout u)"
    "yields (\<lambda>(b, t). calm_phy c e t) (mask_wait m x (of_nat (g k)) timeout u)"
    using calm_waits(1,2) [of _ _ _ _ u] cu by (fastforce simp: yields_def)+
qed

lemma delay_yields:
  assumes "count_advances c g" "slow_enough c" "calm_phy c e u"
  shows "yields (calm_phy c e) (delay_ms 1 u)"
  using delay_returns [of u g] assms calm_waits(3) [of 1 u] by (auto simp: yields_def calm_phy_def)

lemma phy_timeout_less: "msec \<le> 500 \<Longrightarrow> unat (phy_timeout msec s) < 2 ^ 31"
proof -
  assume "msec \<le> 500"
  then have m: "unat msec \<le> 500" by (simp add: word_le_nat_alt)
  have c: "unat (CPU_SPEED (conf s) div 2000) \<le> 2147483" using unat_u32_less [of "CPU_SPEED (conf s)"] by (simp add: unat_div)
  have "unat msec * unat (CPU_SPEED (conf s) div 2000) \<le> 500 * 2147483" by (rule mult_le_mono [OF m c])
  moreover from this have "unat (phy_timeout msec s) = unat msec * unat (CPU_SPEED (conf s) div 2000)"
    unfolding phy_timeout_def by (subst unat_mult_lem [THEN iffD1]) simp_all
  ultimately show ?thesis by simp
qed

text \<open>The same steps prove all the functions.\<close>

lemmas phy_steps = yields_let yields_bind yields_intros wait_yields delay_yields phy_timeout_less

lemma phy_write_yields:
  assumes "count_advances c g" "slow_enough c" "msec \<le> 500" "calm_phy c e s"
  shows "yields (\<lambda>(v, t). calm_phy c e t) (phy_write addr reg x msec s)"
  unfolding phy_write_def Let_def [of "phy_timeout msec _"]
  by (rule yields_count phy_steps assms(1) assms(2) assms(3) assms(4) | simp add: calm_ops; fail | assumption)+

lemma phy_read_yields:
  assumes "count_advances c g" "slow_enough c" "msec \<le> 500" "calm_phy c e s"
  shows "yields (\<lambda>(v, t). calm_phy c e t) (phy_read addr reg msec s)"
  unfolding phy_read_def Let_def [of "phy_timeout msec _"] Let_def [of "sfr_write _ _ _"] Let_def [of "sfr_writes _ _"]
  by (rule yields_count phy_steps assms(1) assms(2) assms(3) assms(4) | simp add: calm_ops; fail | assumption)+

lemma phy_scan_yields:
  assumes "count_advances c g" "slow_enough c" "msec \<le> 500" "calm_phy c e s"
  shows "yields (\<lambda>(v, t). calm_phy c e t) (phy_scan addr reg m x msec s)"
  unfolding phy_scan_def Let_def [of "phy_timeout msec _"]
  by (rule yields_count phy_steps assms(1) assms(2) assms(3) assms(4) | simp add: calm_ops; fail | assumption)+

lemma phy_reset_yields:
  assumes "count_advances c g" "slow_enough c" "calm_phy c e s"
  shows "yields (\<lambda>(v, t). calm_phy c e t) (phy_reset addr s)"
proof -
  note w = phy_write_yields [OF assms(1,2)] phy_read_yields [OF assms(1,2)] phy_scan_yields [OF assms(1,2)]
  show ?thesis
    unfolding phy_reset_def
    by (rule yields_bind yields_intros w assms(3) | simp; fail | assumption)+
qed

text \<open>The answers of the PHY: a half word, or -1 for a timeout.\<close>

lemma phy_read_range: "phy_read addr reg msec s = Some (v, t) \<Longrightarrow> v = - 1 \<or> v \<le> 0xFFFF"
  by (auto simp: phy_read_def bind_eq_Some_conv case_prod_beta Let_def word_and_le1 split: if_splits)

lemma phy_reset_range: "phy_reset addr s = Some (v, t) \<Longrightarrow> v = - 1 \<or> v = 0"
  by (auto simp: phy_reset_def bind_eq_Some_conv split: if_splits)

text \<open>
  The search ends with the first address that answers, or with 32. \<open>no_phy_at is s u\<close>: from \<open>s\<close>, the addresses \<open>is\<close>
  are tried in order, the reset fails at each, and the state after that is \<open>u\<close>.
\<close>

abbreviation (input) try_at :: "nat \<Rightarrow> hv \<Rightarrow> (u32 \<times> hv) option" where
  "try_at i s \<equiv> phy_reset (of_nat i) (set_port (\<lambda>e. e\<lparr>phy_addr := of_nat i\<rparr>) s)"

fun no_phy_at :: "nat list \<Rightarrow> hv \<Rightarrow> hv \<Rightarrow> bool" where
  "no_phy_at [] s u \<longleftrightarrow> u = s"
| "no_phy_at (i # is) s u \<longleftrightarrow> (\<exists>s1. try_at i s = Some (- 1, s1) \<and> no_phy_at is s1 u)"

lemma detect_phy_run:
  assumes "count_advances c g" "slow_enough c" "conf s = c"
  shows "\<exists>u t. detect_phy is s = Some t \<and>
    (no_phy_at is s u \<and> t = set_port (\<lambda>e. e\<lparr>phy_addr := 32\<rparr>) u \<or>
     (\<exists>xs i ys. is = xs @ i # ys \<and> no_phy_at xs s u \<and> try_at i u = Some (0, t) \<and> phy_addr (eth_port (eth t)) = of_nat i))"
  using assms(3)
proof (induction "is" arbitrary: s)
  case Nil
  show ?case by simp
next
  case (Cons i "is")
  let ?s = "set_port (\<lambda>e. e\<lparr>phy_addr := of_nat i\<rparr>) s"
  have "calm_phy c (eth ?s) ?s" using Cons.prems(1) by (simp add: set_port_def set_eth_def calm_phy_def)
  then obtain r w where w: "try_at i s = Some (r, w)" "calm_phy c (eth ?s) w"
    using phy_reset_yields [OF assms(1,2)] by (fastforce simp: yields_def)
  show ?case
  proof (cases "0 \<le>s r")
    case True
    then have "r = 0" using phy_reset_range [OF w(1)] by (auto simp: word_sle_eq)
    moreover have "phy_addr (eth_port (eth w)) = of_nat i" using w(2) by (simp add: calm_phy_def set_port_def set_eth_def)
    ultimately show ?thesis using True w(1)
      by (intro exI [of _ s] exI [of _ w] conjI disjI2 exI [of _ "[]"] exI [of _ i] exI [of _ "is"]) auto
  next
    case False
    then have r: "r = - 1" using phy_reset_range [OF w(1)] by (auto simp: word_sle_eq)
    have "conf w = c" using w(2) by (simp add: calm_phy_def)
    from Cons.IH [OF this] obtain u t where ut: "detect_phy is w = Some t"
      "no_phy_at is w u \<and> t = set_port (\<lambda>e. e\<lparr>phy_addr := 32\<rparr>) u \<or>
       (\<exists>xs k ys. is = xs @ k # ys \<and> no_phy_at xs w u \<and> try_at k u = Some (0, t) \<and> phy_addr (eth_port (eth t)) = of_nat k)" by blast
    have d: "detect_phy (i # is) s = Some t" using w(1) False ut(1) by simp
    have n: "no_phy_at (i # xs) s u" if "no_phy_at xs w u" for xs using that w(1) r by auto
    from ut(2) show ?thesis
    proof (elim disjE exE conjE)
      assume "no_phy_at is w u" "t = set_port (\<lambda>e. e\<lparr>phy_addr := 32\<rparr>) u"
      then show ?thesis using d n by blast
    next
      fix xs k ys
      assume "is = xs @ k # ys" "no_phy_at xs w u" "try_at k u = Some (0, t)" "phy_addr (eth_port (eth t)) = of_nat k"
      moreover from this have "i # is = (i # xs) @ k # ys" by simp
      ultimately show ?thesis using d n by metis
    qed
  qed
qed

lemma upt_split_at: "[0..<n] = xs @ i # ys \<Longrightarrow> i < n \<and> xs = [0..<i]"
proof -
  assume e: "[0..<n] = xs @ i # ys"
  then have n: "length xs < n" by (metis length_append length_Cons length_upt diff_zero less_add_Suc1 add_Suc_right)
  then have "[0..<n] ! length xs = length xs" by simp
  then have "i = length xs" using e by (simp add: nth_append)
  moreover have "xs = take (length xs) [0..<n]" using e by simp
  then have "xs = [0..<length xs]" using n by (simp add: take_upt)
  ultimately show ?thesis using n by simp
qed

lemma detect_phy_returns:
  assumes "count_advances c g" "slow_enough c" "conf s = c"
  shows "\<exists>u t. detect_phy [0..<32] s = Some t \<and>
    (no_phy_at [0..<32] s u \<and> t = set_port (\<lambda>e. e\<lparr>phy_addr := 32\<rparr>) u \<or>
     (\<exists>a<32. no_phy_at [0..<a] s u \<and> try_at a u = Some (0, t) \<and> phy_addr (eth_port (eth t)) = of_nat a))"
  using detect_phy_run [OF assms, of "[0..<32]"] upt_split_at by blast

end
