(* ===== verification/GuestNet.thy ===== *)
theory GuestNet
  imports InterVM GuestText
begin

text \<open>
  The side of the bare-metal guests: the message list and its interrupt handler
  (\<open>bare-metal-apps/lib/network.c\<close>), registration and dispatch of interrupts (\<open>platform.c\<close> of both ports)
  and the adapter to the network stack (\<open>eth.c\<close>). Hypercalls enter as functions of a state \<open>'h\<close> of the
  world outside the guest; the mailbox of InterVM is one such world. The list is a second instance of
  \<open>bounded_buffer\<close>, and the way of a message from the sender's hypercall to the receiving program is the step
  relation \<open>mail_step\<close>.
\<close>

subsection \<open>Messages\<close>

text \<open>
  \<open>struct message_list_t\<close> has the fields of the hypervisor's buffer. Its messages are arrays of 255 bytes; the
  compiler pads the structure with one byte behind the array, so that a slot has room for 256 bytes before
  the next one begins. The answer of \<open>ipc_recv\<close> is \<open>v0\<close>, \<open>a0\<close> and the bytes that were written.
\<close>

type_synonym recv_answer = "u32 \<times> u32 \<times> u8 list"

definition irq_store :: "recv_answer \<Rightarrow> message_buffer_t \<Rightarrow> message_buffer_t option" where
  "irq_store r g =
     (case r of (v0, a0, bs) \<Rightarrow>
        do { slot \<leftarrow> arr_get (message_list g) (int (unat (mb_in g)));
             slot1 \<leftarrow> msg_write slot bs;
             Some (g\<lparr>message_list := (message_list g)[unat (mb_in g) := slot1\<lparr>msg_size := v0, source_id := a0\<rparr>]\<rparr>) })"

partial_function (option) irq_network_loop ::
  "(u32 \<Rightarrow> 'h \<Rightarrow> (recv_answer \<times> 'h) option) \<Rightarrow> message_buffer_t \<Rightarrow> 'h \<Rightarrow> (message_buffer_t \<times> 'h) option" where
  "irq_network_loop ipc_recv g h =
     (if num_messages g < MESSAGELIST_SZ
      then
        do { (r, h1) \<leftarrow> ipc_recv (mb_in g) h;
             g1 \<leftarrow> irq_store r g;
             if fst r = MESSAGE_EMPTY then Some (g1, h1)
             else
               do { let g2 = g1\<lparr>mb_in := (mb_in g1 + 1) mod MESSAGELIST_SZ, num_messages := num_messages g1 + 1\<rparr>;
                    if fst r = 0 then Some (g2, h1) else irq_network_loop ipc_recv g2 h1 } }
      else Some (g, h))"

definition irq_network ::
  "(u32 \<Rightarrow> 'h \<Rightarrow> (recv_answer \<times> 'h) option) \<Rightarrow> message_buffer_t \<Rightarrow> 'h \<Rightarrow> (message_buffer_t \<times> 'h) option" where
  "irq_network ipc_recv g h =
     (if num_messages g = MESSAGELIST_SZ then Some (g, h) else irq_network_loop ipc_recv g h)"

text \<open>
  \<open>ReceiveMessage\<close>: the wait for a message, during which interrupts run (\<open>env k\<close> is what happens in its
  \<open>k\<close>-th round), and the removal of the oldest one, cut to the size of the buffer.
\<close>

partial_function (option) wait_message :: "(nat \<Rightarrow> message_buffer_t \<Rightarrow> message_buffer_t) \<Rightarrow> nat \<Rightarrow> message_buffer_t \<Rightarrow> message_buffer_t option" where
  "wait_message env k g = (if num_messages g \<noteq> 0 then Some g else wait_message env (Suc k) (env k g))"

definition take_message :: "u32 \<Rightarrow> message_buffer_t \<Rightarrow> ((u32 \<times> u32 \<times> u8 list) \<times> message_buffer_t) option" where
  "take_message bufsz g =
     do { slot \<leftarrow> arr_get (message_list g) (int (unat (mb_out g)));
          let sz = (if bufsz < msg_size slot then bufsz else msg_size slot);
          ensure (unat sz \<le> length (message slot));
          Some ((sz, source_id slot, take (unat sz) (message slot)),
                g\<lparr>mb_out := (mb_out g + 1) mod MESSAGELIST_SZ, num_messages := num_messages g - 1\<rparr>) }"

definition ReceiveMessage ::
  "(nat \<Rightarrow> message_buffer_t \<Rightarrow> message_buffer_t) \<Rightarrow> u32 \<Rightarrow> bool \<Rightarrow> message_buffer_t \<Rightarrow>
     ((u32 \<times> u32 \<times> u8 list) option \<times> message_buffer_t) option" where
  "ReceiveMessage env bufsz block g =
     (if num_messages g = 0 \<and> \<not> block then Some (None, g)
      else
        do { g1 \<leftarrow> (if num_messages g = 0 then wait_message env 0 g else Some g);
             (r, g2) \<leftarrow> take_message bufsz g1;
             Some (Some r, g2) })"

text \<open>The format and the arguments \<open>printf\<close> gets for an error.\<close>

definition print_net_error :: "u32 \<Rightarrow> string \<times> u32 list" where
  "print_net_error e =
     (let nl = CHR 0x0A in
      if e = MESSAGE_VCPU_NOT_FOUND then (nl # ''Target VCPU not found.'', [])
      else if e = MESSAGE_FULL then (nl # ''Message queue full on the target VCPU.'', [])
      else if e = MESSAGE_TOO_BIG then (nl # ''Message too big.'', [])
      else if e = MESSAGE_EMPTY then (nl # ''Receiver queue empty.'', [])
      else if e = MESSAGE_VCPU_NOT_INIT then (nl # ''Target VCPU not initialized.'', [])
      else (nl # ''Unkown error 0x%x'', [e]))"

subsection \<open>Interrupts\<close>

text \<open>A handler goes into every table entry a bit of the mask names, until one is free.\<close>

fun interrupt_register_from :: "nat list \<Rightarrow> 'f \<Rightarrow> u32 \<Rightarrow> 'f option list \<Rightarrow> bool \<times> 'f option list" where
  "interrupt_register_from [] handler irq hs = (False, hs)"
| "interrupt_register_from (i # is) handler irq hs =
     (if irq AND push_bit i 1 \<noteq> 0 \<and> hs ! i = None then (True, hs[i := Some handler])
      else interrupt_register_from is handler irq hs)"

definition interrupt_register :: "'f \<Rightarrow> u32 \<Rightarrow> 'f option list \<Rightarrow> bool \<times> 'f option list" where
  "interrupt_register handler irq hs = interrupt_register_from [0..<10] handler irq hs"

lemma drop_bit_less: "drop_bit 1 r \<noteq> 0 \<Longrightarrow> unat (drop_bit 1 r) < unat r" for r :: u32
proof -
  assume "drop_bit 1 r \<noteq> 0"
  then have "r \<noteq> 0" by auto
  then have "0 < unat r" by (simp add: unat_gt_0)
  then have "unat r div 2 < unat r" by simp
  then show ?thesis by (simp add: drop_bit_Suc unat_div)
qed

text \<open>\<open>_irq_handler\<close>: the loop over the pending levels, lowest first. \<open>run\<close> is the call through the pointer.\<close>

function irq_dispatch :: "('f \<Rightarrow> 's \<Rightarrow> 's option) \<Rightarrow> 'f option list \<Rightarrow> nat \<Rightarrow> u32 \<Rightarrow> 's \<Rightarrow> 's option" where
  "irq_dispatch run hs i ripl s =
     do { s1 \<leftarrow> (if ripl AND 1 \<noteq> 0
                 then do { h \<leftarrow> arr_get hs (int i); case h of None \<Rightarrow> Some s | Some f \<Rightarrow> run f s }
                 else Some s);
          let ripl1 = drop_bit 1 ripl;
          if ripl1 \<noteq> 0 then irq_dispatch run hs (Suc i) ripl1 s1 else Some s1 }"
  by pat_completeness auto

termination
  by (relation "measure (\<lambda>(run, hs, i, ripl, s). unat ripl)") (use drop_bit_less in auto)

definition irq_handler :: "('f \<Rightarrow> 's \<Rightarrow> 's option) \<Rightarrow> 'f option list \<Rightarrow> u32 \<Rightarrow> 's \<Rightarrow> 's option" where
  "irq_handler run hs cause s = irq_dispatch run hs 0 (drop_bit 10 (cause AND 0x3FC00)) s"

text \<open>
  \<open>init_network\<close>: the interrupt is enabled (a macro of the port, on the Status register) and the handler
  registered before the list is cleared.
\<close>

definition ENABLE_INTERVM_INT :: "port \<Rightarrow> u32 \<Rightarrow> u32" where
  "ENABLE_INTERVM_INT p status =
     (case p of PIC32MZ \<Rightarrow> status | BAIKAL_T1 \<Rightarrow> status OR push_bit 2 (push_bit 8 GUEST_INTERVM_INT))"

definition init_network :: "port \<Rightarrow> 'f \<Rightarrow> u32 \<times> 'f option list \<times> message_buffer_t \<Rightarrow> u32 \<times> 'f option list \<times> message_buffer_t" where
  "init_network p irq = (\<lambda>(status, hs, g).
     (ENABLE_INTERVM_INT p status, snd (interrupt_register irq GUEST_INTERVM_INT hs),
      \<lparr>mb_in = 0, mb_out = 0, num_messages = 0,
        message_list = replicate 5 \<lparr>source_id = 0, msg_size = 0, message = replicate 256 0\<rparr>\<rparr>))"

text \<open>
  \<open>init_proc\<close> of the two ports, on the CP0 registers of the guest and the table of handlers. It runs with
  interrupts disabled, between \<open>di\<close> and \<open>ei\<close>.
\<close>

definition init_proc_pic32mz :: "(nat \<times> nat \<Rightarrow> u32) \<times> 'f option list \<Rightarrow> (nat \<times> nat \<Rightarrow> u32) \<times> 'f option list" where
  "init_proc_pic32mz = (\<lambda>(g, hs).
     (let g1 = g((15, 1) := 0x9D000000);
          g2 = g1((13, 0) := g1 (13, 0) OR 0x00800000);
          g3 = g2((12, 0) := g2 (12, 0) AND NOT 0x00400000);
          g4 = g3((12, 1) := g3 (12, 1) OR push_bit 5 8)
      in (g4, replicate 10 None)))"

definition init_proc_baikal :: "(nat \<times> nat \<Rightarrow> u32) \<times> 'f option list \<Rightarrow> (nat \<times> nat \<Rightarrow> u32) \<times> 'f option list" where
  "init_proc_baikal = (\<lambda>(g, hs).
     (let g1 = g((15, 1) := 0x80000000);
          g2 = g1((13, 0) := g1 (13, 0) OR 0x00800000);
          g3 = g2((12, 0) := g2 (12, 0) AND NOT (0x4 OR 0x00400000));
          g4 = g3((12, 1) := g3 (12, 1) AND push_bit 5 0x1F);
          g5 = g4((12, 0) := g4 (12, 0) AND NOT (push_bit 8 0xFF))
      in (g5, replicate 10 None)))"

subsection \<open>The adapter to the network stack\<close>

text \<open>
  \<open>eth_watchdog\<close>: \<open>now\<close> and \<open>later\<close> are the two readings of Count, \<open>eth_watch\<close> the hypercall. The state
  is the link state, the time of the last check and the world.
\<close>

definition eth_watchdog :: "u32 \<Rightarrow> u32 \<Rightarrow> u32 \<Rightarrow> ('h \<Rightarrow> u32 \<times> 'h) \<Rightarrow> u32 \<Rightarrow> u32 \<times> u32 \<times> 'h \<Rightarrow> u32 \<times> u32 \<times> 'h" where
  "eth_watchdog MILISECOND now later eth_watch ms_delay = (\<lambda>(link_state, time, h).
     if wait_time MILISECOND now time ms_delay
     then let (l, h1) = eth_watch h in (l, later, h1)
     else (link_state, time, h))"

text \<open>
  \<open>eth_poll\<close>: \<open>recv\<close> is the hypercall \<open>eth_recv_frame\<close>, which answers the signed size and the frame,
  \<open>stack\<close> is \<open>pico_stack_recv\<close> of the network stack.
\<close>

function eth_poll :: "('h \<Rightarrow> (int \<times> u8 list) \<times> 'h) \<Rightarrow> (u8 list \<Rightarrow> 'h \<Rightarrow> 'h) \<Rightarrow> int \<Rightarrow> 'h \<Rightarrow> int \<times> 'h" where
  "eth_poll recv stack loop_score h =
     (if 0 < loop_score
      then let ((sz, frame), h1) = recv h
           in if sz \<le> 0 then (loop_score, h1) else eth_poll recv stack (loop_score - 1) (stack frame h1)
      else (loop_score, h))"
  by pat_completeness auto

termination by (relation "measure (\<lambda>(recv, stack, n, h). nat n)") auto

subsection \<open>The message list is a queue\<close>

text \<open>What the guest adds to its list and takes out of it, as pairs of source and contents.\<close>

definition list_put :: "message_buffer_t \<Rightarrow> u32 \<times> u8 list \<Rightarrow> message_buffer_t option" where
  "list_put g m = map_option (\<lambda>g1. g1\<lparr>mb_in := (mb_in g1 + 1) mod MESSAGELIST_SZ, num_messages := num_messages g1 + 1\<rparr>)
     (irq_store (of_nat (length (snd m)), m) g)"

definition list_take :: "message_buffer_t \<Rightarrow> ((u32 \<times> u8 list) \<times> message_buffer_t) option" where
  "list_take g = (if num_messages g = 0 then None else map_option (\<lambda>((sz, m), g1). (m, g1)) (take_message 256 g))"

lemma list_put_eq: "list_put g m = box_put g m"
  by (auto simp: list_put_def box_put_def buf_put_def irq_store_def case_prod_beta split: bind_split)

lemma take_message_eq:
  assumes ok: "msgs_ok g" and ne: "inbox g = (src, bs) # ms"
  shows "\<exists>g'. take_message bufsz g = Some ((of_nat (min (unat bufsz) (length bs)), src, take (unat bufsz) bs), g') \<and>
     msgs_ok g' \<and> inbox g' = ms"
proof -
  from box_get_ok [OF ok ne] obtain g' where
    get: "box_get g = Some ((src, bs), g')" and g': "msgs_ok g'" "inbox g' = ms" by blast
  then obtain slot where slot: "buf_front g = Some slot" "msg_of slot = (src, bs)" "g' = buf_drop g"
    by (auto simp: box_get_def split: if_splits bind_splits)
  have "length (inbox g) = Suc (length ms)" using ne by simp
  then have n: "unat (num_messages g) = Suc (length ms)" by simp
  have o: "unat (mb_out g) < 5" "length (message_list g) = 5" using ok by (auto simp: msgs_ok_def)
  have slot': "slot = message_list g ! unat (mb_out g)"
    using slot(1) o by (simp add: buf_front_def arr_get_nat del: of_nat_unat)
  have "unat (msg_size (message_list g ! ((unat (mb_out g) + 0) mod 5))) \<le> 256"
    using ok n by (auto simp: msgs_ok_def)
  then have sz: "unat (msg_size slot) \<le> 256" using o by (simp add: slot')
  have len: "length (message slot) = 256" using ok o by (auto simp: msgs_ok_def slot_ok_def slot')
  have bs: "bs = take (unat (msg_size slot)) (message slot)" "source_id slot = src"
    using slot(2) by (auto simp: msg_of_def)
  define sz1 where "sz1 = (if bufsz < msg_size slot then bufsz else msg_size slot)"
  have le: "unat sz1 = min (unat bufsz) (unat (msg_size slot))"
    by (auto simp: sz1_def word_less_nat_alt)
  have "take_message bufsz g = Some ((sz1, src, take (unat sz1) (message slot)), g')"
    using slot o le sz len bs(2)
    by (cases "bufsz < msg_size slot")
       (simp_all add: take_message_def slot' arr_get_nat sz1_def word_less_nat_alt Let_def buf_drop_def del: of_nat_unat)
  moreover have "length bs = unat (msg_size slot)" using bs(1) sz len by simp
  moreover have "sz1 = of_nat (min (unat bufsz) (unat (msg_size slot)))" by (simp flip: le)
  moreover have "take (unat sz1) (message slot) = take (unat bufsz) bs" using bs(1) by (simp add: le take_take)
  ultimately show ?thesis using g' by simp
qed

lemma inbox_lengths: "msgs_ok b \<Longrightarrow> m \<in> set (inbox b) \<Longrightarrow> length (snd m) \<le> 256"
  by (auto simp: inbox_def msg_of_def msgs_ok_def min.coboundedI1)

lemma list_take_ok: "msgs_ok g \<Longrightarrow> inbox g = m # ms \<Longrightarrow> \<exists>g'. list_take g = Some (m, g') \<and> msgs_ok g' \<and> inbox g' = ms"
proof -
  assume a: "msgs_ok g" "inbox g = m # ms"
  have "length (inbox g) = Suc (length ms)" using a by simp
  then have "num_messages g \<noteq> 0" by auto
  moreover have "length (snd m) \<le> 256" using inbox_lengths [OF a(1)] a(2) by simp
  ultimately show ?thesis
    using take_message_eq [of g "fst m" "snd m" ms 256] a by (cases m) (auto simp: list_take_def)
qed

interpretation guestlist: bounded_buffer msgs_ok inbox "\<lambda>_. 5" "\<lambda>m. length (snd m) \<le> 256" list_put list_take
  by unfold_locales (use box_put_ok list_take_ok in \<open>auto simp: list_put_eq\<close>)

subsection \<open>From the mailbox to the list\<close>

text \<open>
  The hypercall \<open>ipc_recv\<close> on the mailbox the hypervisor keeps (\<open>intervm_recv_msg\<close>, InterVM): an empty
  mailbox leaves \<open>a0\<close>, the address of the slot, in its place.
\<close>

definition mailbox_recv :: "(u32 \<Rightarrow> u32) \<Rightarrow> u32 \<Rightarrow> message_buffer_t \<Rightarrow> (recv_answer \<times> message_buffer_t) option" where
  "mailbox_recv slot_addr i b =
     (case box_get b of
        None \<Rightarrow> Some ((MESSAGE_EMPTY, slot_addr i, []), b)
      | Some (m, b1) \<Rightarrow> Some ((of_nat (length (snd m)), m), b1))"

text \<open>The messages one run of the handler moves: until the list is full, and no further than an empty message.\<close>

fun drained :: "nat \<Rightarrow> (u32 \<times> u8 list) list \<Rightarrow> (u32 \<times> u8 list) list" where
  "drained 0 ms = []"
| "drained (Suc n) [] = []"
| "drained (Suc n) (m # ms) = m # (if snd m = [] then [] else drained n ms)"

lemma drained_take: "\<forall>m\<in>set ms. snd m \<noteq> [] \<Longrightarrow> drained n ms = take n ms"
  by (induction n ms rule: drained.induct) auto

lemma drained_Nil [simp]: "drained n [] = []"
  by (cases n) simp_all

lemma irq_store_empty:
  assumes ok: "msgs_ok g" and room: "length (inbox g) < 5"
  shows "\<exists>g1. irq_store (v, a, []) g = Some g1 \<and> msgs_ok g1 \<and> inbox g1 = inbox g"
proof -
  let ?i = "unat (mb_in g)" and ?o = "unat (mb_out g)" and ?n = "unat (num_messages g)"
  have i: "?i = (?o + ?n) mod 5" "?i < 5" "length (message_list g) = 5" "?n < 5"
    using ok room by (auto simp: msgs_ok_def)
  define s1 where "s1 = (message_list g ! ?i)\<lparr>msg_size := v, source_id := a\<rparr>"
  define g1 where "g1 = g\<lparr>message_list := (message_list g)[?i := s1]\<rparr>"
  have st: "irq_store (v, a, []) g = Some g1"
    using i(2,3) by (simp add: irq_store_def arr_get_nat msg_write_def g1_def s1_def del: of_nat_unat)
  have old: "message_list g1 ! ((?o + k) mod 5) = message_list g ! ((?o + k) mod 5)" if "k < ?n" for k
    using ring5_free [OF that i(4), of ?o] i(1) by (simp add: g1_def)
  have "inbox g1 = inbox g" using old by (simp add: inbox_def g1_def)
  moreover have "slot_ok x" if "x \<in> set (message_list g1)" for x
    using that ok i set_update_subset_insert [of "message_list g" ?i s1]
    by (auto simp: g1_def s1_def msgs_ok_def slot_ok_def)
  then have "msgs_ok g1" using ok old by (auto simp: msgs_ok_def g1_def)
  ultimately show ?thesis using st by blast
qed

lemma irq_network_loop_drains:
  assumes "msgs_ok g" "msgs_ok b"
  shows "\<exists>g' b'. irq_network_loop (mailbox_recv slot_addr) g b = Some (g', b') \<and> msgs_ok g' \<and> msgs_ok b' \<and>
     inbox g' = inbox g @ drained (5 - length (inbox g)) (inbox b) \<and>
     inbox b = drained (5 - length (inbox g)) (inbox b) @ inbox b'"
  using assms
proof (induction "5 - length (inbox g)" arbitrary: g b)
  case 0
  then have "unat (num_messages g) = 5" by (auto simp: msgs_ok_def)
  then have "\<not> num_messages g < MESSAGELIST_SZ" by (simp add: word_less_nat_alt MESSAGELIST_SZ_def)
  then have "irq_network_loop (mailbox_recv slot_addr) g b = Some (g, b)" by (simp add: irq_network_loop.simps)
  then show ?case using 0 by simp
next
  case (Suc n)
  then have room: "length (inbox g) < 5" by simp
  then have lt: "num_messages g < MESSAGELIST_SZ" by (simp add: word_less_nat_alt MESSAGELIST_SZ_def)
  show ?case
  proof (cases "inbox b")
    case Nil
    then have "length (inbox b) = 0" by simp
    then have "num_messages b = 0" by (simp add: unat_eq_0)
    then have "mailbox_recv slot_addr (mb_in g) b = Some ((MESSAGE_EMPTY, slot_addr (mb_in g), []), b)"
      by (simp add: mailbox_recv_def box_get_def)
    with irq_store_empty [OF Suc.prems(1) room, of MESSAGE_EMPTY "slot_addr (mb_in g)"] lt Suc.prems Nil Suc.hyps(2)
    show ?thesis by (subst irq_network_loop.simps) auto
  next
    case (Cons m ms)
    from box_get_ok [OF Suc.prems(2) Cons] obtain b1 where
      b1: "box_get b = Some (m, b1)" "msgs_ok b1" "inbox b1 = ms" by blast
    have len: "length (snd m) \<le> 256" using inbox_lengths [OF Suc.prems(2)] Cons by simp
    from guestlist.put_ok [OF Suc.prems(1) len room] obtain g1 g2 where
      st: "irq_store (of_nat (length (snd m)), m) g = Some g1" and
      g2: "g2 = g1\<lparr>mb_in := (mb_in g1 + 1) mod MESSAGELIST_SZ, num_messages := num_messages g1 + 1\<rparr>"
        "msgs_ok g2" "inbox g2 = inbox g @ [m]"
      by (auto simp: list_put_def)
    have sz: "unat (of_nat (length (snd m)) :: u32) = length (snd m)" using len by (rule unat_le_256)
    have ne: "of_nat (length (snd m)) \<noteq> MESSAGE_EMPTY"
      using sz len by (auto simp: MESSAGE_EMPTY_def)
    have z: "(of_nat (length (snd m)) :: u32) = 0 \<longleftrightarrow> snd m = []"
      using unat_eq_0 [of "of_nat (length (snd m)) :: u32"] unfolding sz by simp
    have run: "irq_network_loop (mailbox_recv slot_addr) g b =
        (if snd m = [] then Some (g2, b1) else irq_network_loop (mailbox_recv slot_addr) g2 b1)"
      using st lt ne z by (subst irq_network_loop.simps) (simp add: mailbox_recv_def b1(1) g2(1) Let_def)
    have "n = 5 - length (inbox g2)" using g2(3) Suc.hyps(2) by simp
    moreover from Suc.hyps(1) [OF this g2(2) b1(2)] obtain g' b' where
      r: "irq_network_loop (mailbox_recv slot_addr) g2 b1 = Some (g', b')" "msgs_ok g'" "msgs_ok b'"
        "inbox g' = inbox g2 @ drained (5 - length (inbox g2)) ms"
        "ms = drained (5 - length (inbox g2)) ms @ inbox b'"
      unfolding b1(3) by blast
    ultimately have r': "inbox g' = inbox g2 @ drained n ms" "drained n ms @ inbox b' = ms" by metis+
    have dr: "drained (5 - length (inbox g)) (inbox b) = m # (if snd m = [] then [] else drained n ms)"
      unfolding Cons Suc.hyps(2) [symmetric] by simp
    show ?thesis
    proof (cases "snd m = []")
      case True
      then show ?thesis unfolding run dr using g2(2,3) b1(2,3) Cons by simp
    next
      case False
      then show ?thesis unfolding run dr using r(1-3) r' g2(3) Cons by simp
    qed
  qed
qed

lemma irq_network_drains:
  assumes "msgs_ok g" "msgs_ok b"
  shows "\<exists>g' b'. irq_network (mailbox_recv slot_addr) g b = Some (g', b') \<and> msgs_ok g' \<and> msgs_ok b' \<and>
     inbox g' = inbox g @ drained (5 - length (inbox g)) (inbox b) \<and>
     inbox b = drained (5 - length (inbox g)) (inbox b) @ inbox b'"
  using irq_network_loop_drains [OF assms, of slot_addr] assms
  by (auto simp: irq_network_def MESSAGELIST_SZ_def)

lemma take_message_bounds:
  assumes "msgs_ok g" "inbox g \<noteq> []"
  shows "ReceiveMessage env bufsz block g = map_option (\<lambda>(r, g'). (Some r, g')) (take_message bufsz g)"
proof -
  have "length (inbox g) \<noteq> 0" using assms(2) by (simp del: inbox_length)
  then have "num_messages g \<noteq> 0" by auto
  then show ?thesis by (auto simp: ReceiveMessage_def map_option_case split: bind_split option.splits)
qed

text \<open>A receiver that waits gets the message that ends the wait; without one it never returns.\<close>

lemma wait_message_ends:
  "(\<forall>j<n. num_messages (gs j) = 0) \<Longrightarrow> num_messages (gs n) \<noteq> 0 \<Longrightarrow> (\<forall>j<n. env (k + j) (gs j) = gs (Suc j)) \<Longrightarrow>
     wait_message env k (gs 0) = Some (gs n)"
proof (induction n arbitrary: gs k)
  case (Suc n)
  have "wait_message env (Suc k) (gs (Suc 0)) = Some (gs (Suc n))"
    using Suc.prems by (intro Suc.IH [of "\<lambda>j. gs (Suc j)"]) (auto simp: less_Suc_eq_0_disj)
  moreover have "env k (gs 0) = gs (Suc 0)" using Suc.prems(3) by force
  ultimately show ?case using Suc.prems(1) by (subst wait_message.simps) simp
qed (simp add: wait_message.simps)

text \<open>
  The way of a message from \<open>intervm_send_msg\<close> of another machine to \<open>ReceiveMessage\<close>: what was sent,
  the mailbox, the list of the guest, and what its program received.
\<close>

type_synonym mail_state = "(u32 \<times> u8 list) list \<times> message_buffer_t \<times> message_buffer_t \<times> (u32 \<times> u8 list) list"

inductive mail_step :: "(u32 \<Rightarrow> u32) \<Rightarrow> mail_state \<Rightarrow> mail_state \<Rightarrow> bool" for slot_addr where
  send: "num_messages b \<noteq> MESSAGELIST_SZ \<Longrightarrow> length (snd m) \<le> 256 \<Longrightarrow> box_put b m = Some b1 \<Longrightarrow>
    mail_step slot_addr (sent, b, g, got) (sent @ [m], b1, g, got)"
| interrupt: "irq_network (mailbox_recv slot_addr) g b = Some (g1, b1) \<Longrightarrow>
    mail_step slot_addr (sent, b, g, got) (sent, b1, g1, got)"
| receive: "256 \<le> bufsz \<Longrightarrow> ReceiveMessage env bufsz False g = Some (Some (sz, m), g1) \<Longrightarrow>
    mail_step slot_addr (sent, b, g, got) (sent, b, g1, got @ [m])"

inductive_cases mail_stepE: "mail_step slot_addr (sent, b, g, got) s"

definition mail_ok :: "mail_state \<Rightarrow> bool" where
  "mail_ok = (\<lambda>(sent, b, g, got). msgs_ok b \<and> msgs_ok g \<and> sent = got @ inbox g @ inbox b)"

lemma take_message_None: "num_messages g = 0 \<Longrightarrow> ReceiveMessage env bufsz False g = Some (None, g)"
  by (simp add: ReceiveMessage_def)

lemma mail_step_ok: "mail_step slot_addr s t \<Longrightarrow> mail_ok s \<Longrightarrow> mail_ok t"
proof (induction rule: mail_step.induct)
  case (send b m b1 sent g got)
  then have ok: "msgs_ok b" and "unat (num_messages b) \<noteq> 5"
    by (auto simp: mail_ok_def MESSAGELIST_SZ_def word_unat_eq_iff)
  moreover have "unat (num_messages b) \<le> 5" using ok by (simp add: msgs_ok_def)
  ultimately have "length (inbox b) < 5" by simp
  from box_put_ok [OF ok send(2) this] send show ?case by (auto simp: mail_ok_def)
next
  case (interrupt g b g1 b1 sent got)
  then show ?case using irq_network_drains [of g b slot_addr] by (auto simp: mail_ok_def)
next
  case (receive bufsz env g sz m g1 sent b got)
  then have ok: "msgs_ok g" by (simp add: mail_ok_def)
  have "num_messages g \<noteq> 0" using receive(2) by (auto simp: take_message_None)
  then have "length (inbox g) \<noteq> 0" by (simp add: unat_eq_0)
  then obtain x ms where x: "inbox g = x # ms" by (cases "inbox g") auto
  have "length (snd x) \<le> 256" using inbox_lengths [OF ok] x by simp
  moreover have "256 \<le> unat bufsz" using receive(1) by (simp add: word_le_nat_alt)
  ultimately have "take (unat bufsz) (snd x) = snd x" by simp
  then show ?case
    using receive take_message_eq [of g "fst x" "snd x" ms bufsz] ok x
    by (auto simp: mail_ok_def take_message_bounds)
qed

lemma mail_steps_ok: "(mail_step slot_addr)\<^sup>*\<^sup>* s t \<Longrightarrow> mail_ok s \<Longrightarrow> mail_ok t"
  by (induction rule: rtranclp_induct) (auto intro: mail_step_ok)

definition empty_messages :: message_buffer_t where
  "empty_messages = \<lparr>mb_in = 0, mb_out = 0, num_messages = 0,
     message_list = replicate 5 \<lparr>source_id = 0, msg_size = 0, message = replicate 256 0\<rparr>\<rparr>"

lemma empty_messages_ok [simp]: "msgs_ok empty_messages" "inbox empty_messages = []"
  by (simp_all add: msgs_ok_def empty_messages_def slot_ok_def inbox_def)

lemma init_network_empty: "snd (snd (init_network p irq x)) = empty_messages"
  by (simp add: init_network_def empty_messages_def case_prod_beta)

subsection \<open>Registration and dispatch\<close>

fun run_handlers :: "('f \<Rightarrow> 's \<Rightarrow> 's option) \<Rightarrow> 'f option list \<Rightarrow> 's \<Rightarrow> 's option" where
  "run_handlers run [] s = Some s"
| "run_handlers run (None # hs) s = run_handlers run hs s"
| "run_handlers run (Some f # hs) s = run f s \<bind> run_handlers run hs"

lemma bind_no_handlers [simp]: "x \<bind> run_handlers run [] = x"
  by (cases x) simp_all

lemma and_one_bit: "r AND 1 \<noteq> 0 \<longleftrightarrow> bit r 0" for r :: u32
  by (simp add: and_one_eq bit_0 odd_iff_mod_2_eq_one)

lemma irq_dispatch_spec:
  "unat r < 2 ^ n \<Longrightarrow> i + n \<le> length hs \<Longrightarrow>
     irq_dispatch run hs i r s = run_handlers run (map (\<lambda>k. hs ! (i + k)) (filter (bit r) [0..<n])) s"
proof (induction n arbitrary: i r s)
  case 0
  then show ?case by (simp add: unat_eq_0)
next
  case (Suc n)
  define r1 where "r1 = drop_bit 1 r"
  have lt: "unat r1 < 2 ^ n" using Suc.prems(1) by (simp add: drop_bit_Suc unat_div r1_def)
  have IH: "irq_dispatch run hs (Suc i) r1 s' = run_handlers run (map (\<lambda>k. hs ! (Suc i + k)) (filter (bit r1) [0..<n])) s'" for s'
    using Suc.prems(2) by (intro Suc.IH [OF lt]) simp
  have rest: "(if r1 \<noteq> 0 then irq_dispatch run hs (Suc i) r1 s' else Some s') =
      run_handlers run (map (\<lambda>k. hs ! (Suc i + k)) (filter (bit r1) [0..<n])) s'" for s'
    using IH [of s'] by (cases "r1 = 0") (simp_all del: irq_dispatch.simps)
  have up: "filter (bit r) [0..<Suc n] = (if bit r 0 then [0] else []) @ map Suc (filter (bit r1) [0..<n])"
    by (simp add: upt_conv_Cons filter_map comp_def bit_drop_bit_eq r1_def del: upt_Suc flip: map_Suc_upt)
  have get: "arr_get hs (int i) = Some (hs ! i)" using Suc.prems(2) by (simp add: arr_get_nat)
  have "irq_dispatch run hs i r s =
      (if bit r 0 then case hs ! i of None \<Rightarrow> Some s | Some f \<Rightarrow> run f s else Some s) \<bind>
        run_handlers run (map (\<lambda>k. hs ! (Suc i + k)) (filter (bit r1) [0..<n]))"
    unfolding irq_dispatch.simps [of run hs i r s] Let_def r1_def [symmetric] and_one_bit rest get by simp
  also have "\<dots> = run_handlers run (map (\<lambda>k. hs ! (i + k)) (filter (bit r) [0..<Suc n])) s"
    unfolding up by (cases "hs ! i") (auto simp: comp_def)
  finally show ?case .
qed

lemma irq_handler_spec:
  assumes "length hs = 10"
  shows "irq_handler run hs cause s = run_handlers run (map (\<lambda>k. hs ! k) (filter (\<lambda>k. bit cause (10 + k)) [0..<8])) s"
proof -
  let ?r = "drop_bit 10 (cause AND 0x3FC00)"
  have m: "(0x3FC00 :: u32) = push_bit 10 (mask 8)" by (simp add: mask_eq_exp_minus_1 push_bit_eq_mult)
  have r: "?r = take_bit 8 (drop_bit 10 cause)"
    unfolding m by (rule bit_word_eqI) (auto simp: bit_simps)
  have "unat ?r < 2 ^ 8" unfolding r unsigned_take_bit_eq by (rule take_bit_nat_less_exp)
  then have "irq_dispatch run hs 0 ?r s = run_handlers run (map (\<lambda>k. hs ! (0 + k)) (filter (bit ?r) [0..<8])) s"
    using assms by (intro irq_dispatch_spec) auto
  moreover have "filter (bit ?r) [0..<8] = filter (\<lambda>k. bit cause (10 + k)) [0..<8]"
    unfolding r by (rule filter_cong) (auto simp: bit_simps)
  ultimately show ?thesis by (simp add: irq_handler_def)
qed

lemma and_level: "(2 :: u32) ^ i AND 2 ^ k \<noteq> 0 \<longleftrightarrow> i = k" if "i < 32"
proof -
  have "(2 :: u32) ^ i AND 2 ^ k = (if i = k then 2 ^ i else 0)"
    by (rule bit_word_eqI) (auto simp: bit_simps)
  then show ?thesis using that by simp
qed

lemma interrupt_register_from_level:
  "i < 32 \<Longrightarrow> distinct ks \<Longrightarrow>
     interrupt_register_from ks f (2 ^ i) hs =
       (if i \<in> set ks \<and> hs ! i = None then (True, hs[i := Some f]) else (False, hs))"
  by (induction ks) (auto simp: and_level)

lemma interrupt_register_level:
  "i < 10 \<Longrightarrow> interrupt_register f (2 ^ i) hs =
     (if hs ! i = None then (True, hs[i := Some f]) else (False, hs))"
  by (simp add: interrupt_register_def interrupt_register_from_level del: interrupt_register_from.simps)

lemma filter_upt_eq: "i < n \<Longrightarrow> filter (\<lambda>k. k = i) [0..<n] = [i]"
  by (induction n) (auto simp: less_Suc_eq)

lemma no_handlers: "\<forall>k\<in>set ks. k < n \<Longrightarrow> run_handlers run (map (\<lambda>k. replicate n None ! k) ks) s = Some s"
  by (induction ks) auto

text \<open>The network stack gets the frames in order, at most \<open>loop_score\<close> of them, and no more after an empty poll.\<close>

lemma eth_poll_frames:
  "\<forall>f\<in>set fs. f \<noteq> [] \<Longrightarrow>
     eth_poll (\<lambda>(pend, got). case pend of [] \<Rightarrow> ((-1, []), pend, got) | f # rest \<Rightarrow> ((int (length f), f), rest, got))
       (\<lambda>f (pend, got). (pend, got @ [f])) (int n) (fs, got) =
     (int (n - length fs), drop n fs, got @ take n fs)"
proof (induction n arbitrary: fs got)
  case (Suc n)
  then show ?case by (cases fs) (auto simp: Let_def eth_poll.simps [of _ _ "1 + int n"])
qed simp

end
