(* ===== verification/GuestMalloc.thy ===== *)
theory GuestMalloc
  imports GuestStr PhysMem
begin

text \<open>
  The allocator of the bare-metal guests, \<open>bare-metal-apps/lib/malloc.c\<close>: a chain of headers in the heap itself,
  each with the pointer to the next one and a size whose lowest bit marks a used block. Memory is the byte
  memory of the guest library and a header is two little-endian words in it, so headers that overlap
  overwrite each other as they do in the code.
\<close>

subsection \<open>The code\<close>

definition ldw :: "bmem \<Rightarrow> nat \<Rightarrow> u32" where
  "ldw m a = ucast (m a) OR push_bit 8 (ucast (m (a + 1))) OR push_bit 16 (ucast (m (a + 2))) OR push_bit 24 (ucast (m (a + 3)))"

definition stw :: "nat \<Rightarrow> u32 \<Rightarrow> bmem \<Rightarrow> bmem" where
  "stw a v m = m(a := ucast v, a + 1 := ucast (drop_bit 8 v), a + 2 := ucast (drop_bit 16 v), a + 3 := ucast (drop_bit 24 v))"

text \<open>\<open>struct mem_block\<close>: \<open>next\<close> at offset 0, \<open>size\<close> at offset 4, 8 bytes.\<close>

definition mb_next :: "bmem \<Rightarrow> u32 \<Rightarrow> u32" where "mb_next m p = ldw m (unat p)"
definition mb_size :: "bmem \<Rightarrow> u32 \<Rightarrow> u32" where "mb_size m p = ldw m (unat (p + 4))"
definition set_next :: "u32 \<Rightarrow> u32 \<Rightarrow> bmem \<Rightarrow> bmem" where "set_next p v m = stw (unat p) v m"
definition set_size :: "u32 \<Rightarrow> u32 \<Rightarrow> bmem \<Rightarrow> bmem" where "set_size p v m = stw (unat (p + 4)) v m"

definition align4 :: "u32 \<Rightarrow> u32" where "align4 x = push_bit 2 (drop_bit 2 (x + 3))"

record guest_heap =
  gh_mem :: bmem
  gh_free :: u32
  gh_heap :: u32

definition guest_init_mem :: "u32 \<Rightarrow> u32 \<Rightarrow> guest_heap \<Rightarrow> guest_heap" where
  "guest_init_mem hstart hsize g =
     (let p = (hstart + 8) AND 0xFFFFFFFC;
          len = align4 ((hsize - 8) AND 0xFFFFFFFC);
          q = p + 4 - 8;
          m1 = set_next p q (gh_mem g);
          m2 = set_size p (len - 8 - 8) m1;
          m3 = set_next q 0 m2;
          m4 = set_size q 0 m3
      in \<lparr>gh_mem = m4, gh_free = mb_size m4 p, gh_heap = p\<rparr>)"

text \<open>The loops of \<open>malloc\<close>. Following a null pointer is \<open>None\<close>, and so is a chain that never ends.\<close>

partial_function (option) skip_used :: "bmem \<Rightarrow> u32 \<Rightarrow> u32 option" where
  "skip_used m p =
     (if p = 0 then None else if mb_size m p AND 1 \<noteq> 0 then skip_used m (mb_next m p) else Some p)"

partial_function (option) skip_free :: "bmem \<Rightarrow> u32 \<Rightarrow> u32 option" where
  "skip_free m p =
     (if p = 0 then None
      else if mb_size m p AND 1 = 0 \<and> mb_next m p \<noteq> 0 then skip_free m (mb_next m p) else Some p)"

partial_function (option) find_block :: "u32 \<Rightarrow> bmem \<Rightarrow> u32 \<Rightarrow> u32 \<Rightarrow> (u32 option \<times> bmem) option" where
  "find_block sz m p q =
     (if mb_next m p = 0 then Some (Some p, m)
      else
        do { p1 \<leftarrow> skip_used m p;
             let q1 = (if mb_size m p AND 1 \<noteq> 0 then p1 else q);
             p2 \<leftarrow> skip_free m p1;
             let m1 = (if p2 \<noteq> 0 then set_next q1 p2 (set_size q1 (p2 - q1 - 8) m) else m);
             if mb_next m1 p2 = 0 \<and> mb_size m1 q1 < sz + 8 then Some (None, m1)
             else if sz + 8 \<le> mb_size m1 q1 then Some (Some q1, m1)
             else find_block sz m1 p2 q1 })"

definition guest_malloc :: "u32 \<Rightarrow> guest_heap \<Rightarrow> (u32 \<times> guest_heap) option" where
  "guest_malloc size0 g =
     (let sz = align4 size0 in
      do { (r, m) \<leftarrow> find_block sz (gh_mem g) (gh_heap g) (gh_heap g);
           case r of
             None \<Rightarrow> Some (0, g\<lparr>gh_mem := m\<rparr>)
           | Some p \<Rightarrow>
               do { let psize = (mb_size m p AND NOT 1) - sz - 8;
                    let r = mb_next m p;
                    let m1 = set_next p (p + sz + 8) m;
                    let m2 = set_size p (sz OR 1) m1;
                    let n = mb_next m2 p;
                    let m3 = set_size n psize (set_next n r m2);
                    Some (p + 8, g\<lparr>gh_mem := m3, gh_free := gh_free g - (sz + 8)\<rparr>) } })"

definition guest_free :: "u32 \<Rightarrow> guest_heap \<Rightarrow> guest_heap" where
  "guest_free ptr g =
     (let p = ptr - 8;
          m1 = set_size p (mb_size (gh_mem g) p AND NOT 1) (gh_mem g)
      in g\<lparr>gh_mem := m1, gh_free := gh_free g + (mb_size m1 p + 8)\<rparr>)"

definition guest_calloc :: "u32 \<Rightarrow> u32 \<Rightarrow> guest_heap \<Rightarrow> (u32 \<times> guest_heap) option" where
  "guest_calloc qty type_size g =
     do { (buf, g1) \<leftarrow> guest_malloc (qty * type_size) g;
          Some (buf, if buf \<noteq> 0 then g1\<lparr>gh_mem := memset_guest (gh_mem g1) (unat buf) 0 (qty * type_size)\<rparr> else g1) }"

definition guest_realloc :: "u32 \<Rightarrow> u32 \<Rightarrow> guest_heap \<Rightarrow> (u32 \<times> guest_heap) option" where
  "guest_realloc ptr sz g =
     (if sz <s 0 then Some (0, g)
      else if ptr = 0 then guest_malloc sz g
      else
        do { (buf, g1) \<leftarrow> guest_malloc sz g;
             Some (buf, if buf \<noteq> 0
                        then guest_free ptr (g1\<lparr>gh_mem := memcpy_guest (gh_mem g1) (unat buf) (unat ptr) sz\<rparr>)
                        else g1) })"

subsection \<open>Headers in memory\<close>

lemma ldw_stw [simp]: "ldw (stw a v m) a = v"
  using word32_bytes [of v] by (simp add: ldw_def stw_def)

lemma ldw_stw_other: "a + 4 \<le> b \<or> b + 4 \<le> a \<Longrightarrow> ldw (stw a v m) b = ldw m b"
  by (auto simp: ldw_def stw_def)

lemma stw_other: "b < a \<or> a + 4 \<le> b \<Longrightarrow> stw a v m b = m b"
  by (auto simp: stw_def)

lemma header_of_nat:
  "n < 4294967296 \<Longrightarrow> mb_next m (of_nat n) = ldw m n"
  "n + 4 < 4294967296 \<Longrightarrow> mb_size m (of_nat n) = ldw m (n + 4)"
  "n < 4294967296 \<Longrightarrow> set_next (of_nat n) v m = stw n v m"
  "n + 4 < 4294967296 \<Longrightarrow> set_size (of_nat n) v m = stw (n + 4) v m"
  using unat_of_nat_u32 [of n] unat_of_nat_u32 [of "n + 4"]
  by (simp_all add: mb_next_def mb_size_def set_next_def set_size_def add.commute)

lemma of_nat_u32_zero: "n < 4294967296 \<Longrightarrow> (of_nat n :: u32) = 0 \<longleftrightarrow> n = 0"
  using unat_of_nat_u32 [of n] unat_eq_0 [of "of_nat n :: u32"] by simp

definition up4 :: "nat \<Rightarrow> nat" where "up4 n = 4 * ((n + 3) div 4)"

lemma up4_bounds: "n \<le> up4 n" "4 dvd up4 n"
  unfolding up4_def by (linarith, simp)

lemma align4_up4: "n + 3 < 4294967296 \<Longrightarrow> align4 (of_nat n) = of_nat (up4 n)"
proof -
  assume n: "n + 3 < 4294967296"
  have "unat (of_nat n + 3 :: u32) = n + 3" using unat_of_nat_u32 [of "n + 3"] n by (simp add: add.commute)
  then have "unat (drop_bit 2 (of_nat n + 3 :: u32)) = (n + 3) div 4"
    by (simp add: drop_bit_eq_div unat_div)
  then have "drop_bit 2 (of_nat n + 3 :: u32) = of_nat ((n + 3) div 4)" using n by (simp add: word_unat_eq_iff unat_of_nat_u32)
  then show ?thesis by (simp add: align4_def up4_def push_bit_eq_mult)
qed

lemma even_word: "w AND 1 = 0 \<longleftrightarrow> even w" for w :: u32
  by (simp add: and_one_eq even_iff_mod_2_eq_zero)

lemma used_bit: "(w OR 1) AND 1 \<noteq> 0" for w :: u32
  by (simp add: and_one_eq bit_0 even_or_iff odd_iff_mod_2_eq_one [symmetric])

lemma even_of_nat4: "4 dvd n \<Longrightarrow> even (of_nat n :: u32)"
  by (auto elim!: dvdE simp: even_mult_iff)

lemma even_and_not1: "even (w AND NOT 1)" for w :: u32
  by (simp add: even_and_iff)

subsection \<open>The chain after a number of requests\<close>

text \<open>
  Blocks of sizes \<open>szs\<close> lie one behind the other from \<open>h\<close>, all used; behind them is the header of the
  remaining space. Its \<open>next\<close> is null after the first request and points back to the second block later.
\<close>

definition blk :: "nat \<Rightarrow> nat list \<Rightarrow> nat \<Rightarrow> nat" where
  "blk h szs i = h + (\<Sum>s\<leftarrow>take i szs. s + 8)"

definition heap_top :: "nat \<Rightarrow> nat list \<Rightarrow> nat" where "heap_top h szs = blk h szs (length szs)"

definition laid :: "bmem \<Rightarrow> nat \<Rightarrow> nat list \<Rightarrow> bool" where
  "laid m h szs \<longleftrightarrow> szs \<noteq> [] \<and> 0 < h \<and> 4 dvd h \<and> (\<forall>s\<in>set szs. 4 dvd s) \<and> heap_top h szs + 8 \<le> 4294967296 \<and>
     (\<forall>i<length szs. ldw m (blk h szs i) = of_nat (blk h szs (Suc i)) \<and> ldw m (blk h szs i + 4) = of_nat (szs ! i) OR 1) \<and>
     ldw m (heap_top h szs) = (if length szs = 1 then 0 else of_nat (blk h szs 1)) \<and>
     even (ldw m (heap_top h szs + 4))"

lemma blk_0 [simp]: "blk h szs 0 = h"
  by (simp add: blk_def)

lemma blk_Suc: "i < length szs \<Longrightarrow> blk h szs (Suc i) = blk h szs i + szs ! i + 8"
  by (simp add: blk_def take_Suc_conv_app_nth)

lemma blk_mono: "i \<le> j \<Longrightarrow> blk h szs i \<le> blk h szs j"
  by (auto simp: blk_def le_iff_add take_add)

lemma blk_le_top: "blk h szs i \<le> heap_top h szs"
  unfolding heap_top_def using blk_mono [of i "length szs" h szs] by (cases "i \<le> length szs") (simp_all add: blk_def)

lemma blk_lt_top: "i < length szs \<Longrightarrow> blk h szs i + 8 \<le> heap_top h szs"
  using blk_le_top [of h szs "Suc i"] by (simp add: blk_Suc)

lemma blk_append: "i \<le> length szs \<Longrightarrow> blk h (szs @ [s]) i = blk h szs i"
  by (simp add: blk_def)

lemma top_append: "heap_top h (szs @ [s]) = heap_top h szs + s + 8"
  by (simp add: heap_top_def blk_def)

lemma blk_pos: "0 < h \<Longrightarrow> 0 < blk h szs i"
  by (simp add: blk_def)

lemma blk_dvd: "4 dvd h \<Longrightarrow> \<forall>s\<in>set szs. 4 dvd s \<Longrightarrow> 4 dvd blk h szs i"
proof -
  assume "4 dvd h" and s: "\<forall>s\<in>set szs. 4 dvd s"
  have sum: "4 dvd (\<Sum>s\<leftarrow>xs. s + 8)" if "\<forall>s\<in>set xs. 4 dvd s" for xs :: "nat list"
    using that by (induction xs) auto
  have "4 dvd (\<Sum>s\<leftarrow>take i szs. s + 8)" using s by (intro sum) (auto dest: in_set_takeD)
  then show "4 dvd blk h szs i" using \<open>4 dvd h\<close> by (simp add: blk_def)
qed

lemma skip_used_laid:
  assumes l: "laid m h szs" and "i \<le> length szs"
  shows "skip_used m (of_nat (blk h szs i)) = Some (of_nat (heap_top h szs))"
  using assms(2)
proof (induction "length szs - i" arbitrary: i)
  case 0
  have "even (ldw m (heap_top h szs + 4))" "heap_top h szs + 8 \<le> 4294967296" "0 < heap_top h szs"
    using l by (auto simp: laid_def heap_top_def blk_pos)
  moreover have "i = length szs" using 0 by simp
  ultimately show ?case
    by (subst skip_used.simps) (simp add: of_nat_u32_zero header_of_nat even_word flip: heap_top_def)
next
  case (Suc n)
  then have i: "i < length szs" by simp
  have b: "blk h szs i + 8 \<le> heap_top h szs" by (rule blk_lt_top [OF i])
  have t: "heap_top h szs + 8 \<le> 4294967296" "0 < blk h szs i"
    "ldw m (blk h szs i) = of_nat (blk h szs (Suc i))" "ldw m (blk h szs i + 4) = of_nat (szs ! i) OR 1"
    using l i by (auto simp: laid_def blk_pos)
  have "skip_used m (of_nat (blk h szs (Suc i))) = Some (of_nat (heap_top h szs))"
    using Suc by (intro Suc.hyps(1)) auto
  then show ?case using t b used_bit [of "of_nat (szs ! i)"]
    by (subst skip_used.simps) (simp add: of_nat_u32_zero header_of_nat)
qed

lemma of_nat_back:
  assumes "p \<le> n" "n - p + 8 \<le> 4294967296"
  shows "of_nat p - of_nat n - 8 = (of_nat (4294967296 - (n - p) - 8) :: u32)"
proof -
  have "(of_nat (4294967296 - (n - p) - 8) :: u32) = of_nat 4294967296 - of_nat (n - p) - of_nat 8"
    using assms by (simp only: of_nat_diff)
  also have "\<dots> = of_nat p - of_nat n - 8" using assms(1) by (simp add: of_nat_diff)
  finally show ?thesis by simp
qed

text \<open>Where the walk over the free space ends: at the top itself after the first request, at the second block later.\<close>

definition walk_end :: "nat \<Rightarrow> nat list \<Rightarrow> nat" where
  "walk_end h szs = (if length szs = 1 then heap_top h szs else blk h szs 1)"

lemma walk_end_bounds: "laid m h szs \<Longrightarrow> walk_end h szs \<le> heap_top h szs \<and> 0 < walk_end h szs"
  using blk_le_top [of h szs 1] by (auto simp: walk_end_def laid_def heap_top_def blk_pos)

lemma skip_free_laid:
  assumes l: "laid m h szs"
  shows "skip_free m (of_nat (heap_top h szs)) = Some (of_nat (walk_end h szs))"
proof -
  let ?t = "heap_top h szs" and ?b = "blk h szs 1"
  have t: "?t + 8 \<le> 4294967296" "0 < ?t" "even (ldw m (?t + 4))"
    "ldw m ?t = (if length szs = 1 then 0 else of_nat ?b)"
    using l by (auto simp: laid_def heap_top_def blk_pos)
  show ?thesis
  proof (cases "length szs = 1")
    case True
    then show ?thesis using t by (subst skip_free.simps) (simp add: header_of_nat of_nat_u32_zero walk_end_def)
  next
    case False
    then have i: "1 < length szs" using l by (cases szs) (auto simp: laid_def)
    have b: "?b + 8 \<le> ?t" "0 < ?b" "ldw m (?b + 4) = of_nat (szs ! 1) OR 1"
      using l i blk_lt_top [OF i, of h] by (auto simp: laid_def blk_pos)
    have "skip_free m (of_nat ?b) = Some (of_nat ?b)"
      using b t(1) used_bit [of "of_nat (szs ! 1)"] by (subst skip_free.simps) (simp add: header_of_nat of_nat_u32_zero)
    then show ?thesis using t b False
      by (subst skip_free.simps) (simp add: header_of_nat of_nat_u32_zero even_word walk_end_def)
  qed
qed

lemma find_block_laid:
  assumes l: "laid m h szs" and room: "heap_top h szs + sz + 16 \<le> 4294967296"
  defines "t \<equiv> heap_top h szs" and "w \<equiv> walk_end h szs"
  shows "find_block (of_nat sz) m (of_nat h) (of_nat h) =
     Some (Some (of_nat t), stw t (of_nat w) (stw (t + 4) (of_nat (4294967296 - (t - w) - 8)) m))"
proof -
  let ?n = "4294967296 - (t - w) - 8"
  let ?m = "stw t (of_nat w) (stw (t + 4) (of_nat ?n) m)"
  have len: "0 < length szs" and h: "0 < h" using l by (auto simp: laid_def)
  have b0: "ldw m h = of_nat (blk h szs 1)" "ldw m (h + 4) = of_nat (szs ! 0) OR 1" "h + 8 \<le> t"
    using l len blk_lt_top [OF len, of h] by (fastforce simp: laid_def t_def)+
  have b1: "0 < blk h szs 1" "blk h szs 1 \<le> t" using h by (auto simp: blk_pos blk_le_top t_def)
  have w: "w \<le> t" "0 < w" using walk_end_bounds [OF l] by (auto simp: w_def t_def)
  have t: "t + sz + 16 \<le> 4294967296" "0 < t" using room w by (auto simp: t_def)
  have nx: "ldw ?m w \<noteq> 0"
  proof (cases "w = t")
    case True
    then show ?thesis using t by (simp add: of_nat_u32_zero)
  next
    case False
    then have one: "1 < length szs" using len by (cases szs) (auto simp: w_def t_def walk_end_def)
    then have wb: "w = blk h szs 1" using False by (auto simp: w_def walk_end_def)
    have "ldw m w = of_nat (blk h szs 2)" using l one by (auto simp: laid_def wb numeral_2_eq_2)
    moreover have "w + 8 \<le> t" using blk_lt_top [OF one, of h] by (simp add: wb t_def)
    moreover have "0 < blk h szs 2" "blk h szs 2 \<le> t" using h by (auto simp: blk_pos blk_le_top t_def)
    ultimately show ?thesis using t by (simp add: ldw_stw_other of_nat_u32_zero)
  qed
  have un: "unat (of_nat ?n :: u32) = ?n" using t w by (intro unat_of_nat_u32) simp
  have us: "unat (of_nat sz + 8 :: u32) = sz + 8" using unat_of_nat_u32 [of "sz + 8"] t by (simp add: add.commute)
  have sz: "of_nat sz + 8 \<le> (of_nat ?n :: u32)" using t w unfolding word_le_nat_alt un us by simp
  have bk: "of_nat w - of_nat t - 8 = (of_nat ?n :: u32)" using w t by (intro of_nat_back) auto
  have m1: "set_next (of_nat t) (of_nat w) (set_size (of_nat t) (of_nat ?n) m) = ?m" using t by (simp add: header_of_nat)
  have nx': "mb_next ?m (of_nat w) = ldw ?m w" using w t by (simp add: header_of_nat)
  have sz': "mb_size ?m (of_nat t) = of_nat ?n" using t by (simp add: header_of_nat ldw_stw_other)
  have u: "skip_used m (of_nat h) = Some (of_nat t)" using skip_used_laid [OF l, of 0] by (simp add: t_def)
  have f: "skip_free m (of_nat t) = Some (of_nat w)" unfolding t_def w_def by (rule skip_free_laid [OF l])
  have mh: "mb_next m (of_nat h) = of_nat (blk h szs 1)" "mb_size m (of_nat h) = of_nat (szs ! 0) OR 1"
    using b0 t by (simp_all add: header_of_nat)
  have nz: "of_nat (blk h szs 1) \<noteq> (0 :: u32)" "of_nat w \<noteq> (0 :: u32)" using b1 w t by (simp_all add: of_nat_u32_zero)
  have ub: "(of_nat (szs ! 0) OR 1 :: u32) AND 1 \<noteq> 0" by (rule used_bit)
  show ?thesis
    by (subst find_block.simps) (simp only: mh nz ub u f if_True if_False Let_def bind.simps bk m1 nx' nx sz' sz simp_thms)
qed

lemma guest_malloc_laid:
  assumes l: "laid (gh_mem g) h szs" and hp: "gh_heap g = of_nat h" and room: "heap_top h szs + up4 n + 16 \<le> 4294967296"
  shows "\<exists>g'. guest_malloc (of_nat n) g = Some (of_nat (heap_top h szs + 8), g') \<and> gh_heap g' = of_nat h \<and>
     laid (gh_mem g') h (szs @ [up4 n]) \<and> (\<forall>a. (a < heap_top h szs \<or> heap_top h szs + up4 n + 16 \<le> a \<or>
       (heap_top h szs + 8 \<le> a \<and> a < heap_top h szs + up4 n + 8)) \<longrightarrow> gh_mem g' a = gh_mem g a)"
proof -
  define t where "t = heap_top h szs"
  define w where "w = walk_end h szs"
  define e where "e = t + up4 n + 8"
  let ?n = "4294967296 - (t - w) - 8"
  let ?m = "stw t (of_nat w) (stw (t + 4) (of_nat ?n) (gh_mem g))"
  let ?ps = "(of_nat ?n AND NOT 1) - of_nat (up4 n) - 8 :: u32"
  define m' where "m' = stw (e + 4) ?ps (stw e (of_nat w) (stw (t + 4) (of_nat (up4 n) OR 1) (stw t (of_nat e) ?m)))"
  have n: "n + 3 < 4294967296" using room up4_bounds(1) [of n] by linarith
  have h: "0 < h" "4 dvd h" "\<forall>s\<in>set szs. 4 dvd s" "szs \<noteq> []" using l by (auto simp: laid_def)
  have w: "w \<le> t" "0 < w" using walk_end_bounds [OF l] by (auto simp: w_def t_def)
  have e: "e + 8 \<le> 4294967296" "t + 8 \<le> e" using room by (auto simp: e_def t_def)
  have fb: "find_block (of_nat (up4 n)) (gh_mem g) (of_nat h) (of_nat h) = Some (Some (of_nat t), ?m)"
    unfolding t_def w_def using room by (intro find_block_laid [OF l]) simp
  have e': "of_nat t + of_nat (up4 n) + 8 = (of_nat e :: u32)" by (simp add: e_def)
  have run: "guest_malloc (of_nat n) g = Some (of_nat (t + 8), g\<lparr>gh_mem := m', gh_free := gh_free g - (of_nat (up4 n) + 8)\<rparr>)"
    using e by (simp add: guest_malloc_def Let_def align4_up4 [OF n] hp fb header_of_nat e' ldw_stw_other m'_def)
  have frame: "m' a = gh_mem g a" if "a < t \<or> e + 8 \<le> a \<or> t + 8 \<le> a \<and> a < e" for a
    using that e by (auto simp: m'_def stw_other)
  have old: "ldw m' a = ldw (gh_mem g) a" if "a + 4 \<le> t" for a
    using that e by (simp add: m'_def ldw_stw_other)
  have at_t: "ldw m' t = of_nat e" "ldw m' (t + 4) = of_nat (up4 n) OR 1" "ldw m' e = of_nat w" "ldw m' (e + 4) = ?ps"
    using e by (simp_all add: m'_def ldw_stw_other)
  have e2: "heap_top h (szs @ [up4 n]) = e" by (simp add: top_append e_def t_def)
  have w2: "blk h (szs @ [up4 n]) 1 = w"
    using h(4) by (cases szs) (auto simp: w_def walk_end_def heap_top_def blk_def)
  have ch: "ldw m' (blk h (szs @ [up4 n]) i) = of_nat (blk h (szs @ [up4 n]) (Suc i)) \<and>
      ldw m' (blk h (szs @ [up4 n]) i + 4) = of_nat ((szs @ [up4 n]) ! i) OR 1" if "i < length (szs @ [up4 n])" for i
  proof (cases "i = length szs")
    case True
    moreover have "blk h (szs @ [up4 n]) i = t" using True by (simp add: blk_append t_def heap_top_def)
    moreover have "blk h (szs @ [up4 n]) (Suc i) = e" using e2 True by (simp add: heap_top_def)
    ultimately show ?thesis using at_t by simp
  next
    case False
    then have i: "i < length szs" using that by simp
    have "blk h szs i + 8 \<le> t" using blk_lt_top [OF i, of h] by (simp add: t_def)
    then show ?thesis using i l by (simp add: old blk_append laid_def nth_append)
  qed
  have "even ?ps" using even_and_not1 even_of_nat4 [OF up4_bounds(2) [of n]] by (simp add: even_diff_iff)
  then have "laid m' h (szs @ [up4 n])"
    unfolding laid_def e2 using h e(1) at_t(3,4) ch up4_bounds(2) [of n] by (auto simp: w2 [simplified])
  then show ?thesis using run frame hp by (auto simp: t_def e_def)
qed

subsection \<open>From the start of the heap\<close>

text \<open>
  \<open>init_mem\<close> takes the size of the variable \<open>krnl_heap\<close> for the size of the heap, so the end marker lies over
  the first header and clears its \<open>next\<close>: the first request is granted without a check.
\<close>

lemma guest_malloc_first:
  assumes h: "gh_heap (guest_init_mem hstart hsize g) = of_nat h" "0 < h" "4 dvd h" and room: "h + up4 n + 16 \<le> 4294967296"
  shows "\<exists>g'. guest_malloc (of_nat n) (guest_init_mem hstart hsize g) = Some (of_nat (h + 8), g') \<and> gh_heap g' = of_nat h \<and>
     laid (gh_mem g') h [up4 n]"
proof -
  define e where "e = h + (up4 n + 8)"
  obtain k where k: "h = 4 * k" using h(3) by (rule dvdE)
  then have h4: "4 \<le> h" using h(2) by simp
  define len where "len = align4 ((hsize - 8) AND 0xFFFFFFFC) - 8 - 8"
  define m0 where "m0 = stw h 0 (stw (h - 4) 0 (stw (h + 4) len (stw h (of_nat (h - 4)) (gh_mem g))))"
  have n: "n + 3 < 4294967296" using room up4_bounds(1) [of n] by linarith
  have q: "of_nat h - 4 = (of_nat (h - 4) :: u32)" using h4 by (simp add: of_nat_diff)
  have qs: "set_size (of_nat (h - 4)) v m = stw h v m" for v m
    using h4 room header_of_nat(4) [of "h - 4" v m] by simp
  have st: "(hstart + 8) AND 0xFFFFFFFC = (of_nat h :: u32)" using h(1) by (simp add: guest_init_mem_def Let_def)
  have init: "guest_init_mem hstart hsize g = \<lparr>gh_mem = m0, gh_free = ldw m0 (h + 4), gh_heap = of_nat h\<rparr>"
    using room h4 by (simp add: guest_init_mem_def Let_def st q qs header_of_nat m0_def len_def del: of_nat_diff)
  have m0: "ldw m0 h = 0" "ldw m0 (h + 4) = len" using h4 by (simp_all add: m0_def ldw_stw_other)
  have fb: "find_block (of_nat (up4 n)) m0 (of_nat h) (of_nat h) = Some (Some (of_nat h), m0)"
    using m0 room by (subst find_block.simps) (simp add: header_of_nat)
  let ?ps = "(len AND NOT 1) - of_nat (up4 n) - 8 :: u32"
  define m' where "m' = stw (e + 4) ?ps (stw e 0 (stw (h + 4) (of_nat (up4 n) OR 1) (stw h (of_nat e) m0)))"
  have e: "e + 8 \<le> 4294967296" "h + 8 \<le> e" using room by (auto simp: e_def)
  have e': "of_nat h + of_nat (up4 n) + 8 = (of_nat e :: u32)" by (simp add: e_def)
  have "\<exists>g'. guest_malloc (of_nat n) (guest_init_mem hstart hsize g) = Some (of_nat (h + 8), g') \<and> gh_heap g' = of_nat h \<and> gh_mem g' = m'"
    using e m0 by (simp add: guest_malloc_def Let_def align4_up4 [OF n] init fb header_of_nat e' ldw_stw_other m'_def)
  moreover have "even ?ps" using even_and_not1 even_of_nat4 [OF up4_bounds(2) [of n]] by (simp add: even_diff_iff)
  then have "laid m' h [up4 n]"
    using h(2,3) e up4_bounds(2) [of n] by (simp add: laid_def heap_top_def blk_def m'_def ldw_stw_other add.assoc flip: e_def)
  ultimately show ?thesis by auto
qed

fun mallocs :: "u32 list \<Rightarrow> guest_heap \<Rightarrow> (u32 list \<times> guest_heap) option" where
  "mallocs [] g = Some ([], g)"
| "mallocs (n # ns) g = do { (p, g1) \<leftarrow> guest_malloc n g; (ps, g2) \<leftarrow> mallocs ns g1; Some (p # ps, g2) }"

lemma mallocs_laid:
  "laid (gh_mem g) h szs \<Longrightarrow> gh_heap g = of_nat h \<Longrightarrow> heap_top h (szs @ map up4 ns) + 8 \<le> 4294967296 \<Longrightarrow>
     \<exists>g'. mallocs (map of_nat ns) g =
         Some (map (\<lambda>i. of_nat (blk h (szs @ map up4 ns) (length szs + i) + 8)) [0..<length ns], g') \<and>
       gh_heap g' = of_nat h \<and> laid (gh_mem g') h (szs @ map up4 ns) \<and>
       (\<forall>i<length szs. \<forall>a. blk h szs i + 8 \<le> a \<and> a < blk h szs (Suc i) \<longrightarrow> gh_mem g' a = gh_mem g a)"
proof (induction ns arbitrary: g szs)
  case (Cons n ns)
  let ?all = "szs @ map up4 (n # ns)"
  have "heap_top h (szs @ [up4 n]) \<le> heap_top h ?all"
    by (simp add: heap_top_def blk_def)
  then have room: "heap_top h szs + up4 n + 16 \<le> 4294967296" using Cons.prems(3) by (simp add: top_append)
  from guest_malloc_laid [OF Cons.prems(1,2) room] obtain g1 where
    g1: "guest_malloc (of_nat n) g = Some (of_nat (heap_top h szs + 8), g1)" "gh_heap g1 = of_nat h"
      "laid (gh_mem g1) h (szs @ [up4 n])" "\<forall>a. a < heap_top h szs \<longrightarrow> gh_mem g1 a = gh_mem g a" by auto
  from Cons.IH [OF g1(3,2)] Cons.prems(3) obtain g' where
    g': "mallocs (map of_nat ns) g1 = Some (map (\<lambda>i. of_nat (blk h ?all (Suc (length szs) + i) + 8)) [0..<length ns], g')"
      "gh_heap g' = of_nat h" "laid (gh_mem g') h ?all"
      "\<forall>i<Suc (length szs). \<forall>a. blk h (szs @ [up4 n]) i + 8 \<le> a \<and> a < blk h (szs @ [up4 n]) (Suc i) \<longrightarrow> gh_mem g' a = gh_mem g1 a"
    by auto
  have "blk h ?all (length szs) = heap_top h szs" by (simp add: blk_def heap_top_def)
  then have "map (\<lambda>i. of_nat (blk h ?all (length szs + i) + 8)) [0..<length (n # ns)] =
      of_nat (heap_top h szs + 8) # map (\<lambda>i. of_nat (blk h ?all (Suc (length szs) + i) + 8) :: u32) [0..<length ns]"
    by (simp add: upt_conv_Cons map_Suc_upt [symmetric] del: upt_Suc)
  then have run: "mallocs (map of_nat (n # ns)) g =
      Some (map (\<lambda>i. of_nat (blk h ?all (length szs + i) + 8)) [0..<length (n # ns)], g')"
    using g1(1) g'(1) by simp
  have "gh_mem g' a = gh_mem g a" if i: "i < length szs" and a: "blk h szs i + 8 \<le> a" "a < blk h szs (Suc i)" for i a
  proof -
    have "blk h szs (Suc i) \<le> heap_top h szs" by (rule blk_le_top)
    then have "gh_mem g1 a = gh_mem g a" using a g1(4) by simp
    moreover have "blk h (szs @ [up4 n]) i = blk h szs i" "blk h (szs @ [up4 n]) (Suc i) = blk h szs (Suc i)"
      using i by (simp_all add: blk_append)
    then have "gh_mem g' a = gh_mem g1 a" using g'(4) i a by (metis less_SucI)
    ultimately show ?thesis by simp
  qed
  then show ?case using run g'(2,3) by blast
qed simp

text \<open>
  Once the second block is free and the ones behind it are, the walk over free blocks goes round for ever: the top
  points back to the second block. So a request after that does not return.
\<close>

lemma skip_free_cycle: "skip_free m p = Some r \<Longrightarrow> p \<in> P \<Longrightarrow>
    (\<forall>q\<in>P. q \<noteq> 0 \<and> mb_size m q AND 1 = 0 \<and> mb_next m q \<in> P) \<Longrightarrow> False"
proof (induction m p r rule: skip_free.raw_induct [rotated, consumes 1])
  case (1 f m p r)
  then show ?case by (auto split: if_splits)
qed

lemma guest_malloc_stuck:
  assumes l: "laid (gh_mem g) h [s, s2]" and hp: "gh_heap g = of_nat h"
  shows "guest_malloc n (guest_free (of_nat (blk h [s, s2] 1 + 8)) g) = None"
proof -
  define b where "b = blk h [s, s2] 1"
  define t where "t = heap_top h [s, s2]"
  define m where "m = stw (b + 4) (ldw (gh_mem g) (b + 4) AND NOT 1) (gh_mem g)"
  have ch: "\<forall>i<2. ldw (gh_mem g) (blk h [s, s2] i) = of_nat (blk h [s, s2] (Suc i)) \<and>
      ldw (gh_mem g) (blk h [s, s2] i + 4) = of_nat ([s, s2] ! i) OR 1"
    and top: "ldw (gh_mem g) t = of_nat b" "even (ldw (gh_mem g) (t + 4))" "t + 8 \<le> 4294967296" "0 < h"
    using l by (auto simp: laid_def t_def b_def numeral_2_eq_2)
  have o: "h + 8 \<le> b" "b + 8 \<le> t" using blk_lt_top [of 1 "[s, s2]" h] by (simp_all add: b_def t_def blk_def)
  have t': "blk h [s, s2] 2 = t" by (simp add: t_def heap_top_def numeral_2_eq_2)
  have g: "ldw (gh_mem g) h = of_nat b" "ldw (gh_mem g) (h + 4) = of_nat s OR 1" "ldw (gh_mem g) b = of_nat t"
    using ch t' by (auto simp: b_def numeral_2_eq_2 less_Suc_eq_0_disj)
  have b8: "of_nat (b + 8) - 8 = (of_nat b :: u32)" by simp
  have fr: "gh_mem (guest_free (of_nat (b + 8)) g) = m" "gh_heap (guest_free (of_nat (b + 8)) g) = of_nat h"
    using o top(3) hp by (simp_all add: guest_free_def Let_def b8 header_of_nat m_def del: of_nat_add)
  have hd: "mb_next m (of_nat h) = of_nat b" "mb_size m (of_nat h) = of_nat s OR 1"
      "mb_next m (of_nat b) = of_nat t" "mb_size m (of_nat b) = ldw (gh_mem g) (b + 4) AND NOT 1"
      "mb_next m (of_nat t) = of_nat b" "mb_size m (of_nat t) = ldw (gh_mem g) (t + 4)"
    using o top g by (simp_all add: m_def header_of_nat ldw_stw_other)
  have nz: "of_nat h \<noteq> (0 :: u32)" "of_nat b \<noteq> (0 :: u32)" "of_nat t \<noteq> (0 :: u32)" using o top by (simp_all add: of_nat_u32_zero)
  have ev: "mb_size m (of_nat b) AND 1 = 0" "mb_size m (of_nat t) AND 1 = 0"
    unfolding hd(4,6) even_word using top(2) even_and_not1 by auto
  have u: "skip_used m (of_nat b) = Some (of_nat b)" using nz ev by (subst skip_used.simps) simp
  have u0: "skip_used m (of_nat h) = Some (of_nat b)"
    using nz u used_bit [of "of_nat s"] by (subst skip_used.simps) (simp add: hd)
  have "skip_free m (of_nat b) = None"
  proof (cases "skip_free m (of_nat b)")
    case (Some r)
    have "\<forall>q\<in>{of_nat b, of_nat t}. q \<noteq> 0 \<and> mb_size m q AND 1 = 0 \<and> mb_next m q \<in> {of_nat b, of_nat t}"
      using nz ev hd(3,5) by simp
    from skip_free_cycle [OF Some _ this] show ?thesis by simp
  qed simp
  then have "find_block z m (of_nat h) (of_nat h) = None" for z
    using nz u0 used_bit [of "of_nat s"] by (subst find_block.simps) (simp add: hd)
  then show ?thesis unfolding b_def [symmetric] guest_malloc_def fr Let_def by simp
qed

lemma masked_aligned_4: "4 dvd unat (w AND 0xFFFFFFFC)" for w :: u32
proof -
  have "take_bit 2 (w AND 0xFFFFFFFC) = 0"
  proof (rule bit_word_eqI)
    fix n assume "n < LENGTH(32)"
    have m: "(0xFFFFFFFC :: u32) = NOT (mask 2)" by (simp add: mask_eq_exp_minus_1)
    show "bit (take_bit 2 (w AND 0xFFFFFFFC)) n = bit (0 :: u32) n" unfolding m by (auto simp: bit_simps)
  qed
  then have "unat (take_bit 2 (w AND 0xFFFFFFFC)) = 0" by (simp only: unat_0)
  then have "take_bit 2 (unat (w AND 0xFFFFFFFC)) = 0" by (simp only: unsigned_take_bit_eq)
  then show ?thesis by (simp add: take_bit_eq_mod dvd_eq_mod_eq_0)
qed

text \<open>The block of the \<open>i\<close>-th of a number of requests.\<close>

definition nth_block :: "nat \<Rightarrow> nat list \<Rightarrow> nat \<Rightarrow> nat" where
  "nth_block h ns i = h + (\<Sum>n\<leftarrow>take i ns. up4 n + 8) + 8"

lemma nth_block_blk: "nth_block h ns i = blk h (map up4 ns) i + 8"
  by (simp add: nth_block_def blk_def take_map comp_def)

lemma mallocs_from_start:
  assumes h: "h = unat ((hstart + 8) AND 0xFFFFFFFC)" "0 < h"
    and room: "nth_block h (xs @ ys) (length (xs @ ys)) \<le> 4294967296" and ne: "xs \<noteq> []"
  shows "\<exists>g1 g2. mallocs (map of_nat xs) (guest_init_mem hstart hsize g) = Some (map (\<lambda>i. of_nat (nth_block h xs i)) [0..<length xs], g1) \<and>
    mallocs (map of_nat ys) g1 = Some (map (\<lambda>i. of_nat (nth_block h (xs @ ys) (length xs + i))) [0..<length ys], g2) \<and>
    (\<forall>i<length xs. \<forall>a. nth_block h xs i \<le> a \<and> a < nth_block h xs i + up4 (xs ! i) \<longrightarrow> gh_mem g2 a = gh_mem g1 a) \<and>
    (length xs = 2 \<longrightarrow> guest_malloc n (guest_free (of_nat (nth_block h xs 1)) g1) = None)"
proof -
  obtain x xs' where xs: "xs = x # xs'" using ne by (cases xs) auto
  have top: "heap_top h (map up4 (xs @ ys)) + 8 \<le> 4294967296"
    using room by (simp add: nth_block_blk heap_top_def)
  have mono: "heap_top h (map up4 as) \<le> heap_top h (map up4 (as @ bs))" for as bs by (simp add: heap_top_def blk_def)
  have top1: "heap_top h (map up4 xs) + 8 \<le> 4294967296" using top mono [of xs ys] by linarith
  have "heap_top h (map up4 [x]) \<le> heap_top h (map up4 xs)" using mono [of "[x]" xs'] by (simp add: xs)
  then have r0: "h + up4 x + 16 \<le> 4294967296" using top1 by (simp add: heap_top_def blk_def)
  have d: "4 dvd h" unfolding h(1) by (rule masked_aligned_4)
  have hp: "gh_heap (guest_init_mem hstart hsize g) = of_nat h" by (simp add: guest_init_mem_def Let_def h(1))
  from guest_malloc_first [OF hp h(2) d r0] obtain g0 where
    g0: "guest_malloc (of_nat x) (guest_init_mem hstart hsize g) = Some (of_nat (h + 8), g0)" "gh_heap g0 = of_nat h"
      "laid (gh_mem g0) h [up4 x]" by blast
  from mallocs_laid [OF g0(3,2), of xs'] top1 obtain g1 where
    g1: "mallocs (map of_nat xs') g0 = Some (map (\<lambda>i. of_nat (blk h (map up4 xs) (Suc i) + 8)) [0..<length xs'], g1)"
      "gh_heap g1 = of_nat h" "laid (gh_mem g1) h (map up4 xs)" by (auto simp: xs)
  from mallocs_laid [OF g1(3,2), of ys] top obtain g2 where
    g2: "mallocs (map of_nat ys) g1 = Some (map (\<lambda>i. of_nat (blk h (map up4 (xs @ ys)) (length xs + i) + 8)) [0..<length ys], g2)"
      "\<forall>i<length xs. \<forall>a. blk h (map up4 xs) i + 8 \<le> a \<and> a < blk h (map up4 xs) (Suc i) \<longrightarrow> gh_mem g2 a = gh_mem g1 a"
    by auto
  have "map (\<lambda>i. of_nat (nth_block h xs i)) [0..<length xs] =
      of_nat (h + 8) # map (\<lambda>i. of_nat (blk h (map up4 xs) (Suc i) + 8) :: u32) [0..<length xs']"
    by (simp add: xs upt_conv_Cons map_Suc_upt [symmetric] nth_block_blk del: upt_Suc)
  then have "mallocs (map of_nat xs) (guest_init_mem hstart hsize g) = Some (map (\<lambda>i. of_nat (nth_block h xs i)) [0..<length xs], g1)"
    using g0(1) g1(1) by (simp add: xs)
  moreover have "guest_malloc n (guest_free (of_nat (nth_block h xs 1)) g1) = None" if two: "length xs = 2"
  proof -
    obtain y where "xs = [x, y]" using two unfolding xs by (cases xs') auto
    then show ?thesis using guest_malloc_stuck [of g1 h "up4 x" "up4 y" n] g1(2,3) by (simp add: nth_block_blk)
  qed
  moreover have "nth_block h xs i + up4 (xs ! i) = blk h (map up4 xs) (Suc i)" if "i < length xs" for i
    using that by (simp add: nth_block_blk blk_Suc)
  ultimately show ?thesis using g2 by (auto simp: nth_block_blk)
qed

end
