(* ===== verification/Boards.thy ===== *)
theory Boards
  imports Startup
begin

text \<open>
  The boards (\<open>platform/*/board\<close>): console, early set-up and the reset button, and the three test drivers
  (\<open>drivers/pic32mz-timer-test.c\<close>, \<open>drivers/pic32mz-interrupt-latency-test.c\<close>,
  \<open>drivers/t1-baikal-UART-test.c\<close>). With them no part of the kernel is a parameter: they take
  the places of \<open>board\<close>, \<open>xinit\<close> and \<open>xirq\<close>. The messages \<open>INFO\<close> prints are left out.
\<close>

subsection \<open>Registers\<close>

abbreviation (input) T2CON :: u32 where "T2CON \<equiv> 0xBF840200"
abbreviation (input) TMR2 :: u32 where "TMR2 \<equiv> 0xBF840210"
abbreviation (input) TMR3 :: u32 where "TMR3 \<equiv> 0xBF840410"
abbreviation (input) PR2 :: u32 where "PR2 \<equiv> 0xBF840220"
abbreviation (input) PR3 :: u32 where "PR3 \<equiv> 0xBF840420"
abbreviation (input) PORTD :: u32 where "PORTD \<equiv> 0xBF860320"
abbreviation (input) LATFSET :: u32 where "LATFSET \<equiv> 0xBF860538"
abbreviation (input) LATFCLR :: u32 where "LATFCLR \<equiv> 0xBF860534"
abbreviation (input) TRISDSET :: u32 where "TRISDSET \<equiv> 0xBF860318"
abbreviation (input) CNPUDSET :: u32 where "CNPUDSET \<equiv> 0xBF860358"
abbreviation (input) TRISFCLR :: u32 where "TRISFCLR \<equiv> 0xBF860514"
abbreviation (input) CNPUFCLR :: u32 where "CNPUFCLR \<equiv> 0xBF860554"
abbreviation (input) CNPDFCLR :: u32 where "CNPDFCLR \<equiv> 0xBF860564"
abbreviation (input) ANSELFCLR :: u32 where "ANSELFCLR \<equiv> 0xBF860504"
abbreviation (input) CNCONDSET :: u32 where "CNCONDSET \<equiv> 0xBF860378"
abbreviation (input) CNENDSET :: u32 where "CNENDSET \<equiv> 0xBF860388"
abbreviation (input) TRISBSET :: u32 where "TRISBSET \<equiv> 0xBF860118"
abbreviation (input) CNPUBSET :: u32 where "CNPUBSET \<equiv> 0xBF860158"
abbreviation (input) CNCONBSET :: u32 where "CNCONBSET \<equiv> 0xBF860178"
abbreviation (input) CNENBSET :: u32 where "CNENBSET \<equiv> 0xBF860188"
abbreviation (input) PORTB :: u32 where "PORTB \<equiv> 0xBF860120"
abbreviation (input) RSWRST :: u32 where "RSWRST \<equiv> 0xBF801250"
abbreviation (input) U2RXR :: u32 where "U2RXR \<equiv> 0xBF801470"
abbreviation (input) RPB14R :: u32 where "RPB14R \<equiv> 0xBF801578"
abbreviation (input) U2STA :: u32 where "U2STA \<equiv> 0xBF822210"
abbreviation (input) U2BRG :: u32 where "U2BRG \<equiv> 0xBF822240"
abbreviation (input) U2MODE :: u32 where "U2MODE \<equiv> 0xBF822200"
abbreviation (input) U2STASET :: u32 where "U2STASET \<equiv> 0xBF822218"
abbreviation (input) U2TXREG :: u32 where "U2TXREG \<equiv> 0xBF822220"
abbreviation (input) U2RXREG :: u32 where "U2RXREG \<equiv> 0xBF822230"
abbreviation (input) U6RXR :: u32 where "U6RXR \<equiv> 0xBF801490"
abbreviation (input) RPF2R :: u32 where "RPF2R \<equiv> 0xBF801648"
abbreviation (input) U6STA :: u32 where "U6STA \<equiv> 0xBF822A10"
abbreviation (input) U6BRG :: u32 where "U6BRG \<equiv> 0xBF822A40"
abbreviation (input) U6MODE :: u32 where "U6MODE \<equiv> 0xBF822A00"
abbreviation (input) U6STASET :: u32 where "U6STASET \<equiv> 0xBF822A18"
abbreviation (input) U4STA :: u32 where "U4STA \<equiv> 0xBF822610"
abbreviation (input) U4BRG :: u32 where "U4BRG \<equiv> 0xBF822640"
abbreviation (input) U4MODE :: u32 where "U4MODE \<equiv> 0xBF822600"
abbreviation (input) U4STASET :: u32 where "U4STASET \<equiv> 0xBF822618"
abbreviation (input) U4TXREG :: u32 where "U4TXREG \<equiv> 0xBF822620"
abbreviation (input) U4RXREG :: u32 where "U4RXREG \<equiv> 0xBF822630"
abbreviation (input) U1RXR :: u32 where "U1RXR \<equiv> 0xBF801468"
abbreviation (input) RPD15R :: u32 where "RPD15R \<equiv> 0xBF8015FC"
abbreviation (input) U1STA :: u32 where "U1STA \<equiv> 0xBF822010"
abbreviation (input) U1BRG :: u32 where "U1BRG \<equiv> 0xBF822040"
abbreviation (input) U1MODE :: u32 where "U1MODE \<equiv> 0xBF822000"
abbreviation (input) U1STASET :: u32 where "U1STASET \<equiv> 0xBF822018"
abbreviation (input) U1TXREG :: u32 where "U1TXREG \<equiv> 0xBF822020"
abbreviation (input) U1RXREG :: u32 where "U1RXREG \<equiv> 0xBF822030"
abbreviation (input) ANSELBCLR :: u32 where "ANSELBCLR \<equiv> 0xBF860104"
abbreviation (input) TRISBCLR :: u32 where "TRISBCLR \<equiv> 0xBF860114"
abbreviation (input) TRISDCLR :: u32 where "TRISDCLR \<equiv> 0xBF860314"
abbreviation (input) TRISFSET :: u32 where "TRISFSET \<equiv> 0xBF860518"
abbreviation (input) SDI1R :: u32 where "SDI1R \<equiv> 0xBF80149C"
abbreviation (input) RPF5R :: u32 where "RPF5R \<equiv> 0xBF801654"
abbreviation (input) SPI1BRG :: u32 where "SPI1BRG \<equiv> 0xBF821030"
abbreviation (input) SPI1CON :: u32 where "SPI1CON \<equiv> 0xBF821000"
abbreviation (input) UART0_IER :: u32 where "UART0_IER \<equiv> 0xBF04A004"

subsection \<open>Console\<close>

datatype board = Starter_Kit | Wifire | Curiosity | Baikal_Board

text \<open>
  The baud rate generator: two boards write the division out, one uses the macro \<open>BRG_BAUD\<close>. A rate
  of 0 is a division by zero.
\<close>

definition uart_brg :: "u32 \<Rightarrow> u32 \<Rightarrow> u32 option" where
  "uart_brg sysclk baudrate =
     (if 16 * baudrate = 0 then None else Some (((sysclk div 2) div (16 * baudrate) - 1) + 1))"

definition BRG_BAUD :: "u32 \<Rightarrow> u32 \<Rightarrow> u32 option" where
  "BRG_BAUD fr bd = (if bd = 0 then None else Some ((fr div 8 + bd) div bd div 2 - 1))"

definition init_uart_starter :: "u32 \<Rightarrow> u32 \<Rightarrow> u32 \<Rightarrow> hv \<Rightarrow> hv option" where
  "init_uart_starter baudrate_u2 baudrate_u6 sysclk s =
     do { let s1 = sfr_writes [(U2RXR, 1), (RPB14R, 2), (U2STA, 0)] s;
          b2 \<leftarrow> uart_brg sysclk baudrate_u2;
          let s2 = sfr_writes [(U2BRG, b2), (U2MODE, 0x8000), (U2STASET, 0x1400), (U6RXR, 3), (RPF2R, 4), (U6STA, 0)] s1;
          b6 \<leftarrow> uart_brg sysclk baudrate_u6;
          Some (sfr_writes [(U6BRG, b6), (U6MODE, 0x8000), (U6STASET, 0x1400)] s2) }"

definition init_uart_curiosity :: "u32 \<Rightarrow> u32 \<Rightarrow> u32 \<Rightarrow> hv \<Rightarrow> hv option" where
  "init_uart_curiosity baudrate_u2 baudrate_u6 sysclk s =
     do { let s1 = sfr_writes [(U1RXR, 3), (RPD15R, 1), (U1STA, 0)] s;
          b \<leftarrow> uart_brg sysclk baudrate_u2;
          Some (sfr_writes [(U1BRG, b), (U1MODE, 0x8000), (U1STASET, 0x1400)] s1) }"

definition init_uart_wifire :: "u32 \<Rightarrow> u32 \<Rightarrow> u32 \<Rightarrow> hv \<Rightarrow> hv option" where
  "init_uart_wifire baudrate_u4 baudrate_u1 sysclk s =
     do { b \<leftarrow> BRG_BAUD (CPU_SPEED (conf s) div 2) baudrate_u4;
          Some (sfr_writes [(U4BRG, b), (U4STA, 0), (U4MODE, 0x8000), (U4STASET, 0x1400)] s) }"

text \<open>\<open>putchar\<close> and \<open>getchar\<close> wait for the UART, possibly for ever. Those of the Baikal board use UART 0, and its \<open>getchar\<close> has no body.\<close>

definition putchar_starter :: "u8 \<Rightarrow> hv \<Rightarrow> hv option" where
  "putchar_starter c s = do { s1 \<leftarrow> wait_clear U2STA USTA_UTXBF s; Some (sfr_write U2TXREG (ucast c) s1) }"

definition putchar_wifire :: "u8 \<Rightarrow> hv \<Rightarrow> hv option" where
  "putchar_wifire c s = do { s1 \<leftarrow> wait_clear U4STA USTA_UTXBF s; Some (sfr_write U4TXREG (char_word c) s1) }"

definition putchar_curiosity :: "u8 \<Rightarrow> hv \<Rightarrow> hv option" where
  "putchar_curiosity c s = do { s1 \<leftarrow> wait_clear U1STA USTA_UTXBF s; Some (sfr_write U1TXREG (ucast c) s1) }"

definition putchar_baikal :: "u8 \<Rightarrow> hv \<Rightarrow> hv option" where
  "putchar_baikal c s = do { s1 \<leftarrow> wait_lsr s; Some (sfr_write UART0_RBR (ucast c) s1) }"

definition board_putchar :: "board \<Rightarrow> u8 \<Rightarrow> hv \<Rightarrow> hv option" where
  "board_putchar b =
     (case b of Starter_Kit \<Rightarrow> putchar_starter | Wifire \<Rightarrow> putchar_wifire | Curiosity \<Rightarrow> putchar_curiosity
      | Baikal_Board \<Rightarrow> putchar_baikal)"

definition kbhit :: "hv \<Rightarrow> u32 \<times> hv" where
  "kbhit s = (let (v, s1) = sfr_read U4STA s in (v AND 1, s1))"

partial_function (option) wait_key :: "hv \<Rightarrow> hv option" where
  "wait_key s = (let (k, s1) = kbhit s in if k = 0 then wait_key s1 else Some s1)"

definition getchar_wifire :: "hv \<Rightarrow> (u32 \<times> hv) option" where
  "getchar_wifire s = map_option (sfr_read U4RXREG) (wait_key s)"

partial_function (option) wait_set :: "u32 \<Rightarrow> u32 \<Rightarrow> hv \<Rightarrow> hv option" where
  "wait_set reg bits s =
     (let (v, s1) = sfr_read reg s in if v AND bits \<noteq> 0 then Some s1 else wait_set reg bits s1)"

definition getchar_starter :: "hv \<Rightarrow> (u32 \<times> hv) option" where
  "getchar_starter s = map_option (sfr_read U2RXREG) (wait_set U2STA 1 s)"

definition getchar_curiosity :: "hv \<Rightarrow> (u32 \<times> hv) option" where
  "getchar_curiosity s = map_option (sfr_read U1RXREG) (wait_set U1STA 1 s)"

subsection \<open>Early set-up\<close>

definition early_platform_init_starter :: "hv \<Rightarrow> hv option" where
  "early_platform_init_starter s =
     map_option (sfr_writes [(ANSELBCLR, 8), (TRISBCLR, 8), (TRISDCLR, 2), (TRISFCLR, 0x20), (TRISFSET, 0x10),
         (LATFSET, 0x10), (SDI1R, 2), (RPF5R, 5), (SPI1BRG, 4), (SPI1CON, 0x8120)])
       (init_uart_starter 115200 9600 (CPU_FREQ (conf s)) s)"

definition early_platform_init_wifire :: "hv \<Rightarrow> hv option" where
  "early_platform_init_wifire s = init_uart_wifire 115200 9600 (CPU_FREQ (conf s)) s"

definition early_platform_init_curiosity :: "hv \<Rightarrow> hv option" where
  "early_platform_init_curiosity s = init_uart_curiosity 115200 0 (CPU_FREQ (conf s)) s"

definition early_platform_init_baikal :: "hv \<Rightarrow> hv option" where
  "early_platform_init_baikal s = Some s"

definition early_platform_init :: "board \<Rightarrow> hv \<Rightarrow> hv option" where
  "early_platform_init b =
     (case b of Starter_Kit \<Rightarrow> early_platform_init_starter | Wifire \<Rightarrow> early_platform_init_wifire
      | Curiosity \<Rightarrow> early_platform_init_curiosity | Baikal_Board \<Rightarrow> early_platform_init_baikal)"

subsection \<open>The reset button of the Starter Kit\<close>

text \<open>
  \<open>SoftReset\<close> ends in a loop; \<open>reset_sequence\<close> is the state in which it waits there for the reset that the last
  read triggers.
\<close>

definition reset_sequence :: "hv \<Rightarrow> hv option" where
  "reset_sequence s =
     do { s1 \<leftarrow> udelay 1000000 s;
          let s2 = sfr_writes [(NVMKEY, 0), (NVMKEY, 0xAA996655), (NVMKEY, 0x556699AA)] s1;
          let s3 = sfr_or RSWRST 1 s2;
          Some (snd (sfr_read RSWRST s3)) }"

definition SoftReset :: "hv \<Rightarrow> hv option" where
  "SoftReset s = do { _ \<leftarrow> reset_sequence s; None }"

partial_function (option) wait_for_reset :: "hv \<Rightarrow> hv option" where
  "wait_for_reset s =
     (let (v, s1) = sfr_read PORTB s in
      if v AND push_bit 12 1 = 0 then do { s2 \<leftarrow> SoftReset s1; wait_for_reset s2 } else wait_for_reset s1)"

definition sw1_button_handler :: "hv \<Rightarrow> hv option" where
  "sw1_button_handler s = SoftReset (sfr_writes [(IFSCLR 3, push_bit 23 1), (IECCLR 3, push_bit 23 1)] s)"

definition sw1_button_interrupt_init :: "hv \<Rightarrow> hv" where
  "sw1_button_interrupt_init s =
     (let s1 = sfr_writes [(TRISBSET, push_bit 12 1), (CNPUBSET, push_bit 12 1)] s;
          (offset, s2) = register_interrupt (I_ext 3) s1
      in sfr_writes [(OFF 119, offset), (CNCONBSET, 0x8000), (CNENBSET, push_bit 12 1), (IPC 29, push_bit 24 0x1F),
           (IFSCLR 3, push_bit 23 1), (IECSET 3, push_bit 23 1)] s2)"

subsection \<open>Test drivers\<close>

definition timer_interrupt_hander :: "board \<Rightarrow> hv \<Rightarrow> hv option" where
  "timer_interrupt_hander b s =
     (let (f, s1) = sfr_read (IFS 0) s;
          s2 = (if f AND 0x4000 \<noteq> 0 then sfr_write (IFSCLR 0) 0x4000 s1 else s1);
          s3 = s2\<lparr>test_ticks := test_ticks s2 + 1\<rparr>
      in if test_ticks s3 mod 50000 = 0 then board_putchar b 33 s3 else Some s3)"

definition timer_test_init :: "hv \<Rightarrow> hv" where
  "timer_test_init s =
     (let interval = 10 * 1000 :: u32;
          (offset, s1) = register_interrupt (I_ext 0) s;
          s2 = sfr_writes [(OFF 14, offset), (T2CON, 0), (TMR2, 0), (TMR3, 0), (PR2, interval AND 0xFFFF),
                 (PR3, drop_bit 16 interval), (IPCSET 2, 0x1F00), (IFSCLR 0, 0x200), (IECSET 0, 0x200),
                 (IPCSET 3, 0x1F0000), (IFSCLR 0, 0x4000), (IECSET 0, 0x4000)] s1
      in sfr_or T2CON 0x8008 s2)"

definition latency_interrupt_handler :: "hv \<Rightarrow> hv" where
  "latency_interrupt_handler s =
     (let s1 = sfr_write (IFSCLR 3) (push_bit 25 1) s;
          (v, s2) = sfr_read PORTD s1
      in sfr_write (if v AND push_bit 10 1 \<noteq> 0 then LATFSET else LATFCLR) (push_bit 4 1) s2)"

definition start_latency_init :: "hv \<Rightarrow> hv" where
  "start_latency_init s =
     (let s1 = sfr_writes [(TRISDSET, push_bit 10 1), (CNPUDSET, push_bit 10 1), (TRISFCLR, push_bit 4 1),
                 (LATFCLR, push_bit 4 1), (CNPUFCLR, push_bit 4 1), (CNPDFCLR, push_bit 4 1), (ANSELFCLR, push_bit 4 1)] s;
          (offset, s2) = register_interrupt (I_ext 1) s1
      in sfr_writes [(OFF 121, offset), (CNCONDSET, 0x8000), (CNENDSET, push_bit 10 1), (IPC 30, push_bit 8 0x1F),
           (IFSCLR 3, push_bit 25 1), (IECSET 3, push_bit 25 1)] s2)"

partial_function (option) uart_echo :: "hv \<Rightarrow> hv option" where
  "uart_echo s =
     (let (l, s1) = sfr_read UART0_LSR s in
      if l AND 1 \<noteq> 0
      then let (a, s2) = sfr_read UART0_RBR s1 in uart_echo (sfr_write UART0_RBR (char_word (ucast a)) s2)
      else Some s1)"

partial_function (option) uart_drain :: "hv \<Rightarrow> hv option" where
  "uart_drain s =
     (let (l, s1) = sfr_read UART0_LSR s in
      if l AND 1 \<noteq> 0 then uart_drain (snd (sfr_read UART0_RBR s1)) else Some s1)"

definition uart_init :: "hv \<Rightarrow> hv option" where
  "uart_init s =
     (let (r, s1) = register_interrupt_baikal (I_ext 2) 3 s in
      if r = 0 then Some s1
      else
        do { s2 \<leftarrow> uart_drain s1;
             let s3 = sfr_write UART0_IER 1 s2;
             let s4 = mtc0 CP0_STATUS 0 (mfc0 CP0_STATUS 0 s3 OR push_bit 8 8) s3;
             let s5 = sfr_writes [(0xBBDC0000 + 0x2000 + 48 * 0x20, 1), (0xBBDC0000 + 0x500 + 48 * 4, 0x80000001)] s4;
             let s6 = sfr_or (0xBBDC0000 + 0x100 + 4) (push_bit 16 1) s5;
             Some (sfr_write (0xBBDC0000 + 0x380 + 4) (push_bit 16 1) s6) })"

text \<open>The external entries of the tables.\<close>

definition test_irq :: "board \<Rightarrow> nat \<Rightarrow> hv \<Rightarrow> hv option" where
  "test_irq b n s =
     (if n = 0 then timer_interrupt_hander b s
      else if n = 1 then Some (latency_interrupt_handler s)
      else if n = 2 then uart_echo s
      else if n = 3 then sw1_button_handler s
      else None)"

definition test_init :: "nat \<Rightarrow> hv \<Rightarrow> hv option" where
  "test_init n s =
     (if n = 0 then Some (timer_test_init s)
      else if n = 1 then Some (start_latency_init s)
      else if n = 2 then uart_init s
      else if n = 3 then Some (sw1_button_interrupt_init s)
      else None)"

subsection \<open>What boards and test drivers leave alone\<close>

text \<open>They access device registers, and one counts its interrupts; nothing else changes.\<close>

definition devices_only :: "hv \<Rightarrow> hv \<Rightarrow> bool" where
  "devices_only s t \<longleftrightarrow> (\<exists>x y n. t = s\<lparr>io := x, vol_n := y, test_ticks := n\<rparr>)"

named_theorems devices_intros "operations that only access devices"

lemma devices_refl [simp, devices_intros]: "devices_only s s"
proof -
  have "s = s\<lparr>io := io s, vol_n := vol_n s, test_ticks := test_ticks s\<rparr>" by simp
  then show ?thesis unfolding devices_only_def by blast
qed

lemma devices_trans [trans]: "devices_only s t \<Longrightarrow> devices_only t u \<Longrightarrow> devices_only s u"
proof -
  assume "devices_only s t" "devices_only t u"
  then obtain x y n x' y' n' where "t = s\<lparr>io := x, vol_n := y, test_ticks := n\<rparr>" "u = t\<lparr>io := x', vol_n := y', test_ticks := n'\<rparr>"
    unfolding devices_only_def by blast
  then have "u = s\<lparr>io := x', vol_n := y', test_ticks := n'\<rparr>" by simp
  then show ?thesis unfolding devices_only_def by blast
qed

lemma devices_io: "devices_only s (s\<lparr>io := x\<rparr>)" "devices_only s (s\<lparr>vol_n := y, io := x\<rparr>)" "devices_only s (s\<lparr>test_ticks := n\<rparr>)"
proof -
  have "s\<lparr>io := x\<rparr> = s\<lparr>io := x, vol_n := vol_n s, test_ticks := test_ticks s\<rparr>"
    "s\<lparr>vol_n := y, io := x\<rparr> = s\<lparr>io := x, vol_n := y, test_ticks := test_ticks s\<rparr>"
    "s\<lparr>test_ticks := n\<rparr> = s\<lparr>io := io s, vol_n := vol_n s, test_ticks := n\<rparr>" by simp_all
  then show "devices_only s (s\<lparr>io := x\<rparr>)" "devices_only s (s\<lparr>vol_n := y, io := x\<rparr>)" "devices_only s (s\<lparr>test_ticks := n\<rparr>)"
    unfolding devices_only_def by blast+
qed

lemma devices_step [devices_intros]:
  "devices_only s t \<Longrightarrow> devices_only s (sfr_write a v t)"
  "devices_only s t \<Longrightarrow> devices_only s (snd (sfr_read a t))"
  "devices_only s t \<Longrightarrow> devices_only s (t\<lparr>test_ticks := n\<rparr>)"
  by (auto simp: sfr_write_def dev_write_def sfr_read_def dev_read_def Let_def intro: devices_io devices_trans)

lemma devices_read: "sfr_read a s = (v, t) \<Longrightarrow> devices_only s t"
  using devices_step(2) [OF devices_refl, of s a] by simp

lemma devices_or [devices_intros]: "devices_only s t \<Longrightarrow> devices_only s (sfr_or a x t)"
  by (auto simp: sfr_or_def split: prod.split intro: devices_intros dest: devices_read devices_trans)

lemma devices_writes [devices_intros]: "devices_only s t \<Longrightarrow> devices_only s (sfr_writes ws t)"
  by (induction ws t rule: sfr_writes.induct) (auto intro: devices_intros)

lemma devices_wait_clear: "wait_clear reg bits s = Some t \<Longrightarrow> devices_only s t"
proof (induction reg bits s t rule: wait_clear.raw_induct [rotated, consumes 1])
  case (1 loop reg bits s t)
  have q: "devices_only s (snd (sfr_read reg s))" by (intro devices_intros)
  show ?case using 1(2) 1(1) q devices_trans [OF q] by (auto simp: Let_def case_prod_beta split: if_splits)
qed

lemma devices_wait_lsr: "wait_lsr s = Some t \<Longrightarrow> devices_only s t"
proof (induction s t rule: wait_lsr.raw_induct [rotated, consumes 1])
  case (1 loop s t)
  have q: "devices_only s (snd (sfr_read UART0_LSR s))" by (intro devices_intros)
  show ?case using 1(2) 1(1) q devices_trans [OF q] by (auto simp: Let_def case_prod_beta split: if_splits)
qed

lemma devices_echo: "uart_echo s = Some t \<Longrightarrow> devices_only s t"
proof (induction s t rule: uart_echo.raw_induct [rotated, consumes 1])
  case (1 loop s t)
  let ?s1 = "snd (sfr_read UART0_LSR s)"
  have q: "devices_only s ?s1" "devices_only s (sfr_write UART0_RBR v (snd (sfr_read UART0_RBR ?s1)))" for v
    by (intro devices_intros)+
  show ?case using 1(2) 1(1) q(1) devices_trans [OF q(2)] by (auto simp: Let_def case_prod_beta split: if_splits)
qed

lemma devices_drain: "uart_drain s = Some t \<Longrightarrow> devices_only s t"
proof (induction s t rule: uart_drain.raw_induct [rotated, consumes 1])
  case (1 loop s t)
  let ?s1 = "snd (sfr_read UART0_LSR s)"
  have q: "devices_only s ?s1" "devices_only s (snd (sfr_read UART0_RBR ?s1))" by (intro devices_intros)+
  show ?case using 1(2) 1(1) q(1) devices_trans [OF q(2)] by (auto simp: Let_def case_prod_beta split: if_splits)
qed

lemma devices_quiet: "devices_only s t \<Longrightarrow> quiet s t"
  by (auto simp: devices_only_def quiet_def fixed_def kept_def tlb_but_window_def)

lemma devices_same: "devices_only s t \<Longrightarrow> machines_same s t"
  by (auto simp: devices_only_def machines_same_def)

lemma board_putchar_devices: "board_putchar b c s = Some t \<Longrightarrow> devices_only s t"
  by (cases b) (auto simp: board_putchar_def putchar_starter_def putchar_wifire_def putchar_curiosity_def putchar_baikal_def
      bind_eq_Some_conv intro: devices_intros dest!: devices_wait_clear devices_wait_lsr)

lemma early_platform_init_devices: "early_platform_init b s = Some t \<Longrightarrow> devices_only s t"
  by (cases b) (auto simp: early_platform_init_def early_platform_init_starter_def early_platform_init_wifire_def
      early_platform_init_curiosity_def early_platform_init_baikal_def init_uart_starter_def init_uart_wifire_def
      init_uart_curiosity_def bind_eq_Some_conv intro!: devices_intros)

lemma SoftReset_never [simp]: "SoftReset s = None"
  by (simp add: SoftReset_def)

lemma test_irq_krel: "test_irq b n s = Some t \<Longrightarrow> krel s t"
proof -
  have t: "devices_only s t" if "timer_interrupt_hander b s = Some t" for s t
  proof -
    let ?s1 = "snd (sfr_read (IFS 0) s)"
    have "devices_only s ?s1" "devices_only s (sfr_write (IFSCLR 0) 0x4000 ?s1)" by (intro devices_intros)+
    then have q: "devices_only s ((if fst (sfr_read (IFS 0) s) AND 0x4000 \<noteq> 0 then sfr_write (IFSCLR 0) 0x4000 ?s1 else ?s1)\<lparr>test_ticks := n\<rparr>)" for n
      by (auto intro: devices_intros)
    show ?thesis
      using that q devices_trans [OF q board_putchar_devices]
      by (auto simp: timer_interrupt_hander_def Let_def case_prod_beta split: if_split_asm)
  qed
  have l: "devices_only s (latency_interrupt_handler s)" for s
    by (auto simp: latency_interrupt_handler_def Let_def case_prod_beta intro!: devices_intros)
  assume "test_irq b n s = Some t"
  then have "devices_only s t" using t l devices_echo by (auto simp: test_irq_def sw1_button_handler_def split: if_split_asm)
  then show "krel s t" by (rule quiet_krel [OF devices_quiet])
qed

lemma register_same: "devices_only s u \<Longrightarrow> machines_same s (sfr_writes ws (snd (register_interrupt h u)))"
  by (rule same_trans [OF devices_same same_trans [OF same_ops(6) devices_same [OF devices_writes [OF devices_refl]]]])

lemma test_init_same: "test_init n s = Some t \<Longrightarrow> machines_same s t"
proof -
  have a: "machines_same s (timer_test_init s)" for s
    unfolding timer_test_init_def Let_def case_prod_beta
    by (rule same_trans [OF register_same devices_same [OF devices_or]]) (rule devices_refl)+
  have b: "machines_same s (start_latency_init s)" for s
    unfolding start_latency_init_def Let_def case_prod_beta by (intro register_same devices_intros)
  have c: "machines_same s (sw1_button_interrupt_init s)" for s
    unfolding sw1_button_interrupt_init_def Let_def case_prod_beta by (intro register_same devices_intros)
  have d: "machines_same s t" if u: "uart_init s = Some t" for s t
  proof -
    let ?s1 = "snd (register_interrupt_baikal (I_ext 2) 3 s)"
    note s1 = same_ops(7) [of s "I_ext 2" 3]
    show ?thesis
    proof (cases "fst (register_interrupt_baikal (I_ext 2) 3 s) = 0")
      case True
      then show ?thesis using u s1 by (simp add: uart_init_def Let_def case_prod_beta)
    next
      case False
      then obtain s2 where s2: "uart_drain ?s1 = Some s2" using u
        by (cases "uart_drain ?s1") (simp_all add: uart_init_def Let_def case_prod_beta)
      let ?s3 = "sfr_write UART0_IER 1 s2"
      let ?s4 = "mtc0 CP0_STATUS 0 (mfc0 CP0_STATUS 0 ?s3 OR push_bit 8 8) ?s3"
      have "machines_same s ?s4"
        by (rule same_trans [OF s1 same_trans [OF devices_same [OF devices_drain [OF s2]] same_trans [OF same_ops(1) same_ops(2)]]])
      moreover have "devices_only ?s4 t"
        using u s2 False by (auto simp: uart_init_def Let_def case_prod_beta intro!: devices_intros)
      ultimately show ?thesis using devices_same same_trans by blast
    qed
  qed
  show "test_init n s = Some t \<Longrightarrow> machines_same s t"
    using a b c d by (auto simp: test_init_def split: if_splits)
qed

subsection \<open>The complete system\<close>

definition cp0_only :: "hv \<Rightarrow> hv \<Rightarrow> bool" where
  "cp0_only s t \<longleftrightarrow> (\<exists>c. t = s\<lparr>cp0 := c\<rparr>)"

lemma cp0_only_refl: "cp0_only s s"
proof -
  have "s = s\<lparr>cp0 := cp0 s\<rparr>" by simp
  then show ?thesis unfolding cp0_only_def by blast
qed

lemma cp0_only_mtc0: "cp0_only s t \<Longrightarrow> cp0_only s (mtc0 r k v t)"
  by (auto simp: cp0_only_def mtc0_def)

lemma LowLevelProcInit_cp0: "cp0_only s (snd (LowLevelProcInit s))"
  unfolding LowLevelProcInit_def Disable1KPageSupport_def ConfigureGPRShadow_def setGTOffset_def Let_def case_prod_beta
  by (simp add: cp0_only_refl cp0_only_mtc0)

lemma complete_start:
  assumes boot: "hyper_init (early_platform_init b) test_init s = Some t0"
    and "init_mem (heap_start (conf s)) (heap_size (conf s)) (heap s) = Some h"
      "reset_state bs a (s\<lparr>heap := h\<rparr>)" "boot_cost (conf s) < a"
    and conf: "sane_conf (conf s)" "conf_tlb_entries (conf s) \<le> length (tlb s)"
  obtains ps where "kstate t0" "length ps = NVMACHINES (conf s)" "conf t0 = conf s"
    "\<And>i. i < NVMACHINES (conf s) \<Longrightarrow> vcpu_of t0 i (ps ! i)" "dom (vcpus t0) = set ps"
    "\<And>i. conf_tlb_entries (conf s) \<le> i \<Longrightarrow> i < length (tlb s) \<Longrightarrow> window_slot i t0"
    "usb_idle (usb s) \<Longrightarrow> usb_idle (usb t0)"
proof (rule hyper_init_ok [OF boot _ conf])
  fix s1 u h'
  assume s1: "early_platform_init b s = Some s1" and u: "snd (LowLevelProcInit s1) = u"
    and h': "init_mem (heap_start (conf u)) (heap_size (conf u)) (heap u) = Some h'"
  obtain x y n where "s1 = s\<lparr>io := x, vol_n := y, test_ticks := n\<rparr>"
    using early_platform_init_devices [OF s1] unfolding devices_only_def by blast
  moreover obtain c where "u = s1\<lparr>cp0 := c\<rparr>" using LowLevelProcInit_cp0 [of s1] u unfolding cp0_only_def by blast
  ultimately have u': "u = s\<lparr>cp0 := c, io := x, vol_n := y, test_ticks := n\<rparr>" by simp
  then have "h' = h" using h' assms(2) by simp
  then have "reset_state bs a (u\<lparr>heap := h'\<rparr>)" using assms(3) by (simp add: reset_state_def u')
  then show "(\<exists>b a. reset_state b a (u\<lparr>heap := h'\<rparr>) \<and> boot_cost (conf u) < a) \<and> conf u = conf s \<and> tlb u = tlb s \<and> usb u = usb s"
    using assms(4) u' by auto
qed (use test_init_same that in blast)+

lemma uart_brg_eq: "16 * baudrate \<noteq> 0 \<Longrightarrow> uart_brg sysclk baudrate = Some ((sysclk div 2) div (16 * baudrate))"
  by (simp add: uart_brg_def)

text \<open>The one subtracted is added back, so the divisor is one more than \<open>BRG_BAUD\<close> gives for the same clock.\<close>

lemma uart_brg_off_by_one: "uart_brg 200000000 115200 = Some 54 \<and> BRG_BAUD (200000000 div 2) 115200 = Some 53"
  by (simp add: uart_brg_def BRG_BAUD_def)

text \<open>A test interrupt whose timer flag is set acknowledges it, and every 50000th prints.\<close>

lemma timer_interrupt_hander_quiet_ticks:
  "(test_ticks s + 1) mod 50000 \<noteq> 0 \<Longrightarrow>
     \<exists>t. timer_interrupt_hander b s = Some t \<and> test_ticks t = test_ticks s + 1"
  by (auto simp: timer_interrupt_hander_def Let_def case_prod_beta sfr_read_def dev_read_def sfr_write_def dev_write_def)

lemma latency_answer:
  "\<exists>v. io (latency_interrupt_handler s) = io s @ [IOWrite (IFSCLR 3 AND 0x1FFFFFFF) 0x2000000, IORead 0x1F860320 v,
     IOWrite (if bit v 10 then 0x1F860538 else 0x1F860534) 16]"
proof -
  have "v AND 0x400 \<noteq> 0 \<longleftrightarrow> bit v 10" for v :: u32
    by (simp add: bit_iff_and_push_bit_not_eq_0)
  then show ?thesis
    by (simp add: latency_interrupt_handler_def Let_def case_prod_beta sfr_read_def dev_read_def sfr_write_def dev_write_def)
qed

text \<open>The reset sequence ends with the key words in order, the reset bit and the read that triggers the reset.\<close>

lemma reset_sequence_trace:
  assumes "reset_sequence s = Some t"
  shows "\<exists>tr v w. io t = tr @ [IOWrite 0x1F800610 0, IOWrite 0x1F800610 0xAA996655, IOWrite 0x1F800610 0x556699AA,
     IORead 0x1F801250 v, IOWrite 0x1F801250 (v OR 1), IORead 0x1F801250 w]"
  using assms
  by (auto simp: reset_sequence_def bind_eq_Some_conv sfr_or_def Let_def case_prod_beta sfr_read_def dev_read_def sfr_write_def dev_write_def)

lemma wait_for_reset_never: "wait_for_reset s = None"
proof (cases "wait_for_reset s")
  case (Some t)
  then have False
  proof (induction s t rule: wait_for_reset.raw_induct [rotated, consumes 1])
    case (1 loop s t)
    then show ?case by (auto simp: Let_def case_prod_beta split: if_splits)
  qed
  then show ?thesis ..
qed simp

end
