(* ===== verification/GuestUart.thy ===== *)
theory GuestUart
  imports PhysMem
begin

text \<open>
  The serial ports of the bare-metal guests, \<open>bare-metal-apps/platform/*/uart.c\<close>. A guest reaches its registers
  directly or, on the Wifire board with \<open>VIRTUALIZED_IO\<close>, by the hypercalls \<open>readio\<close> and \<open>writeio\<close>: \<open>rd\<close> and \<open>wr\<close> are
  the accesses, on a state \<open>'d\<close> of the devices. \<open>serial_port\<close>, the static variable of the file, is the number of the
  port in use.
\<close>

subsection \<open>The code\<close>

abbreviation (input) GU1STA :: u32 where "GU1STA \<equiv> 0xBF822010"
abbreviation (input) GU1RXREG :: u32 where "GU1RXREG \<equiv> 0xBF822030"
abbreviation (input) GU2STA :: u32 where "GU2STA \<equiv> 0xBF822210"
abbreviation (input) GU2TXREG :: u32 where "GU2TXREG \<equiv> 0xBF822220"
abbreviation (input) GU2RXREG :: u32 where "GU2RXREG \<equiv> 0xBF822230"
abbreviation (input) GU4STA :: u32 where "GU4STA \<equiv> 0xBF822610"
abbreviation (input) GU4TXREG :: u32 where "GU4TXREG \<equiv> 0xBF822620"
abbreviation (input) GU6STA :: u32 where "GU6STA \<equiv> 0xBF822A10"
abbreviation (input) GU6TXREG :: u32 where "GU6TXREG \<equiv> 0xBF822A20"
abbreviation (input) GU6RXREG :: u32 where "GU6RXREG \<equiv> 0xBF822A30"

type_synonym 'd reader = "u32 \<Rightarrow> 'd \<Rightarrow> u32 \<times> 'd"
type_synonym 'd writer = "u32 \<Rightarrow> u32 \<Rightarrow> 'd \<Rightarrow> 'd"

partial_function (option) wait_room :: "'d reader \<Rightarrow> u32 \<Rightarrow> 'd \<Rightarrow> 'd option" where
  "wait_room rd sta d = (let (v, d1) = rd sta d in if v AND 0x200 \<noteq> 0 then wait_room rd sta d1 else Some d1)"

text \<open>\<open>while (!kbhit())\<close>, for the \<open>kbhit\<close> of each board.\<close>

partial_function (option) await_key :: "('d \<Rightarrow> u32 \<times> 'd) \<Rightarrow> 'd \<Rightarrow> 'd option" where
  "await_key hit d = (let (k, d1) = hit d in if k = 0 then await_key hit d1 else Some d1)"

definition serial_select_starter :: "u32 \<Rightarrow> u32 \<Rightarrow> u32 \<times> u32" where
  "serial_select_starter serial_number serial_port =
     (if serial_number = 2 then (2, 2) else if serial_number = 6 then (6, 6) else (- 1, serial_port))"

definition guest_putchar_starter :: "'d reader \<Rightarrow> 'd writer \<Rightarrow> u32 \<Rightarrow> u32 \<Rightarrow> 'd \<Rightarrow> 'd option" where
  "guest_putchar_starter rd wr serial_port value d =
     (if serial_port = 2 then map_option (wr GU2TXREG value) (wait_room rd GU2STA d)
      else if serial_port = 6 then map_option (wr GU6TXREG value) (wait_room rd GU6STA d)
      else Some d)"

definition guest_kbhit_starter :: "'d reader \<Rightarrow> u32 \<Rightarrow> 'd \<Rightarrow> u32 \<times> 'd" where
  "guest_kbhit_starter rd serial_port d =
     (if serial_port = 2 then (let (v, d1) = rd GU2STA d in (v AND 1, d1))
      else if serial_port = 6 then (let (v, d1) = rd GU6STA d in (v AND 1, d1))
      else (0, d))"

definition guest_getchar_starter :: "'d reader \<Rightarrow> u32 \<Rightarrow> 'd \<Rightarrow> (u32 \<times> 'd) option" where
  "guest_getchar_starter rd serial_port d =
     do { d1 \<leftarrow> await_key (guest_kbhit_starter rd serial_port) d;
          Some (if serial_port = 2 then rd GU2RXREG d1 else if serial_port = 6 then rd GU6RXREG d1 else (0, d1)) }"

definition serial_select_wifire :: "u32 \<Rightarrow> u32 \<Rightarrow> u32 \<times> u32" where
  "serial_select_wifire serial_number serial_port = (if serial_number = 4 then (4, 4) else (- 1, serial_port))"

definition guest_putchar_wifire :: "'d reader \<Rightarrow> 'd writer \<Rightarrow> u32 \<Rightarrow> 'd \<Rightarrow> 'd option" where
  "guest_putchar_wifire rd wr value d = map_option (wr GU4TXREG value) (wait_room rd GU4STA d)"

definition guest_kbhit_wifire :: "'d reader \<Rightarrow> 'd \<Rightarrow> u32 \<times> 'd" where
  "guest_kbhit_wifire rd d = (let (v, d1) = rd GU4STA d in (v AND 1, d1))"

definition guest_getchar_wifire :: "'d reader \<Rightarrow> 'd \<Rightarrow> (u32 \<times> 'd) option" where
  "guest_getchar_wifire rd d = map_option (rd GU2RXREG) (await_key (guest_kbhit_wifire rd) d)"

definition serial_select_curiosity :: "u32 \<Rightarrow> u32 \<Rightarrow> u32 \<times> u32" where
  "serial_select_curiosity serial_number serial_port = (if serial_number = 1 then (1, 1) else (- 1, serial_port))"

definition guest_kbhit_curiosity :: "'d reader \<Rightarrow> u32 \<Rightarrow> 'd \<Rightarrow> u32 \<times> 'd" where
  "guest_kbhit_curiosity rd serial_port d =
     (if serial_port = 1 then (let (v, d1) = rd GU1STA d in (v AND 1, d1)) else (0, d))"

definition guest_getchar_curiosity :: "'d reader \<Rightarrow> u32 \<Rightarrow> 'd \<Rightarrow> (u32 \<times> 'd) option" where
  "guest_getchar_curiosity rd serial_port d =
     do { d1 \<leftarrow> await_key (guest_kbhit_curiosity rd serial_port) d;
          Some (if serial_port = 1 then rd GU1RXREG d1 else (0, d1)) }"

partial_function (option) wait_lsr_guest :: "'d reader \<Rightarrow> 'd \<Rightarrow> 'd option" where
  "wait_lsr_guest rd d = (let (v, d1) = rd 0xBF04A014 d in if v AND 0x40 = 0 then wait_lsr_guest rd d1 else Some d1)"

definition guest_putchar_baikal :: "'d reader \<Rightarrow> 'd writer \<Rightarrow> u32 \<Rightarrow> 'd \<Rightarrow> 'd option" where
  "guest_putchar_baikal rd wr value d = map_option (wr 0xBF04A000 value) (wait_lsr_guest rd d)"

definition guest_getchar_baikal :: u32 where "guest_getchar_baikal = 0"

subsection \<open>On a trace of accesses\<close>

text \<open>The devices as answers to the successive reads, with the trace of what was done.\<close>

definition trace_rd :: "(nat \<Rightarrow> u32 \<Rightarrow> u32) \<Rightarrow> io_event list reader" where
  "trace_rd ans a tr = (ans (length tr) a, tr @ [IORead a (ans (length tr) a)])"

definition trace_wr :: "io_event list writer" where
  "trace_wr a v tr = tr @ [IOWrite a v]"

text \<open>The answers to the reads of one register, \<open>n\<close> of them.\<close>

definition reads_of :: "(nat \<Rightarrow> u32 \<Rightarrow> u32) \<Rightarrow> u32 \<Rightarrow> nat \<Rightarrow> nat \<Rightarrow> io_event list" where
  "reads_of ans a k n = map (\<lambda>i. IORead a (ans (k + i) a)) [0..<n]"

lemma reads_of_Suc: "reads_of ans a k (Suc n) = IORead a (ans k a) # reads_of ans a (Suc k) n"
  by (simp add: reads_of_def upt_conv_Cons map_Suc_upt [symmetric] comp_def del: upt_Suc)

lemma wait_room_trace:
  "(\<forall>i<n. ans (length tr + i) sta AND 0x200 \<noteq> 0) \<Longrightarrow> ans (length tr + n) sta AND 0x200 = 0 \<Longrightarrow>
     wait_room (trace_rd ans) sta tr = Some (tr @ reads_of ans sta (length tr) (Suc n))"
proof (induction n arbitrary: tr)
  case 0
  then show ?case by (subst wait_room.simps) (simp add: trace_rd_def reads_of_def)
next
  case (Suc n)
  let ?t = "tr @ [IORead sta (ans (length tr) sta)]"
  have "wait_room (trace_rd ans) sta ?t = Some (?t @ reads_of ans sta (length ?t) (Suc n))"
    using Suc.prems by (intro Suc.IH) auto
  moreover have "ans (length tr) sta AND 0x200 \<noteq> 0" using Suc.prems(1) by force
  ultimately show ?case
    by (subst wait_room.simps) (simp add: trace_rd_def reads_of_Suc [of _ _ _ "Suc n"])
qed

lemma await_key_trace:
  assumes "\<And>d. hit d = (let (v, d1) = trace_rd ans sta d in (v AND 1, d1))"
  shows "(\<forall>i<n. ans (length tr + i) sta AND 1 = 0) \<Longrightarrow> ans (length tr + n) sta AND 1 \<noteq> 0 \<Longrightarrow>
     await_key hit tr = Some (tr @ reads_of ans sta (length tr) (Suc n))"
proof (induction n arbitrary: tr)
  case 0
  then show ?case by (subst await_key.simps) (simp add: assms trace_rd_def reads_of_def)
next
  case (Suc n)
  let ?t = "tr @ [IORead sta (ans (length tr) sta)]"
  have "await_key hit ?t = Some (?t @ reads_of ans sta (length ?t) (Suc n))"
    using Suc.prems by (intro Suc.IH) auto
  moreover have "ans (length tr) sta AND 1 = 0" using Suc.prems(1) by force
  ultimately show ?case
    by (subst await_key.simps) (simp add: assms trace_rd_def reads_of_Suc [of _ _ _ "Suc n"])
qed

text \<open>The selected port of the Starter Kit sends the character once there is room, and nothing on the other.\<close>

lemma starter_putchar_selected:
  assumes "serial_select_starter p q = (p, p)" "p = 2 \<and> sta = GU2STA \<and> tx = GU2TXREG \<or> p = 6 \<and> sta = GU6STA \<and> tx = GU6TXREG"
    and "\<forall>i<n. ans (length tr + i) sta AND 0x200 \<noteq> 0" "ans (length tr + n) sta AND 0x200 = 0"
  shows "guest_putchar_starter (trace_rd ans) trace_wr p c tr = Some (tr @ reads_of ans sta (length tr) (Suc n) @ [IOWrite tx c])"
  using assms(2) wait_room_trace [of n ans tr sta, OF assms(3,4)] by (auto simp: guest_putchar_starter_def trace_wr_def)

text \<open>On the Wifire board \<open>getchar\<close> waits for UART 4 and then reads the receive register of UART 2.\<close>

lemma wifire_getchar_wrong_port:
  assumes "\<forall>i<n. ans (length tr + i) GU4STA AND 1 = 0" "ans (length tr + n) GU4STA AND 1 \<noteq> 0"
  shows "map_option fst (guest_getchar_wifire (trace_rd ans) tr) = Some (ans (length tr + Suc n) GU2RXREG)"
proof -
  have h: "guest_kbhit_wifire (trace_rd ans) d = (let (v, d1) = trace_rd ans GU4STA d in (v AND 1, d1))" for d
    by (simp add: guest_kbhit_wifire_def)
  show ?thesis using await_key_trace [of _ ans GU4STA n tr, OF h assms]
    by (simp add: guest_getchar_wifire_def trace_rd_def reads_of_def)
qed

text \<open>A refused selection leaves the port as it was.\<close>

lemma serial_select_refuses:
  "n \<noteq> 2 \<Longrightarrow> n \<noteq> 6 \<Longrightarrow> serial_select_starter n p = (- 1, p)"
  "n \<noteq> 4 \<Longrightarrow> serial_select_wifire n p = (- 1, p)"
  "n \<noteq> 1 \<Longrightarrow> serial_select_curiosity n p = (- 1, p)"
  by (simp_all add: serial_select_starter_def serial_select_wifire_def serial_select_curiosity_def)

end
