(* ===== verification/GuestApps.thy ===== *)
theory GuestApps
  imports GuestNet GuestMalloc
begin

text \<open>
  Guest programs that exercise the library: the two sides of the ping-pong measurement
  (\<open>bare-metal-apps/apps/ping/ping.c\<close>, \<open>apps/pong/pong.c\<close>) and the allocator sample
  (\<open>apps/malloc_sample/malloc_sample.c\<close>), a round of the main loop at a time. The text they print is left out.
\<close>

subsection \<open>Ping\<close>

record ping_stats =
  worst_one_way :: u32
  worst_round_trip :: u32
  best_one_way :: u32
  best_round_trip :: u32
  average_one_way :: u32
  average_round_trip :: u32

definition ping_start :: ping_stats where
  "ping_start = \<lparr>worst_one_way = 0, worst_round_trip = 0, best_one_way = 9999999, best_round_trip = 9999999,
     average_one_way = 0, average_round_trip = 0\<rparr>"

definition CPU_TICK_TO_US :: "u32 \<Rightarrow> u32 \<Rightarrow> u32 option" where
  "CPU_TICK_TO_US freq ticks = (if freq div 2 div 100000 = 0 then None else Some (ticks div (freq div 2 div 100000)))"

text \<open>
  A round: \<open>posted\<close> is the answer of \<open>SendMessage\<close>, \<open>reply\<close> that of \<open>ReceiveMessage\<close>, \<open>one_way\<close> the first word of the
  message buffer after it; \<open>timestart\<close> and \<open>timenow\<close> are the two readings of Count.
\<close>

definition ping_round :: "u32 \<Rightarrow> u32 \<times> int \<times> int \<times> u32 \<times> u32 \<Rightarrow> ping_stats \<Rightarrow> ping_stats option" where
  "ping_round freq = (\<lambda>(timestart, posted, reply, timenow, one_way) st.
     if posted < 0 \<or> reply < 0 \<or> reply = 0 then Some st
     else
       do { d \<leftarrow> CPU_TICK_TO_US freq (calc_diff_time timenow timestart);
            let st1 = st\<lparr>average_round_trip := average_round_trip st + d,
                         worst_round_trip := (if worst_round_trip st < d then d else worst_round_trip st),
                         best_round_trip := (if d < best_round_trip st then d else best_round_trip st)\<rparr>;
            e \<leftarrow> CPU_TICK_TO_US freq one_way;
            Some (st1\<lparr>average_one_way := average_one_way st1 + e,
                      worst_one_way := (if worst_one_way st1 < e then e else worst_one_way st1),
                      best_one_way := (if e < best_one_way st1 then e else best_one_way st1)\<rparr>) })"

fun ping_rounds :: "u32 \<Rightarrow> (u32 \<times> int \<times> int \<times> u32 \<times> u32) list \<Rightarrow> ping_stats \<Rightarrow> ping_stats option" where
  "ping_rounds freq [] st = Some st"
| "ping_rounds freq (r # rs) st = do { st1 \<leftarrow> ping_round freq r st; ping_rounds freq rs st1 }"

definition next_message_size :: "u32 \<Rightarrow> u32" where
  "next_message_size n = (if 256 < n + 64 then 64 else n + 64)"

subsection \<open>Pong\<close>

text \<open>
  A round: the message goes to the front of the buffer of 1024 bytes, its first word is the time it was sent
  at, and the buffer goes back to the sender with the time that has passed in its place. The result is what is handed to
  \<open>SendMessage\<close>, with the list and the buffer.
\<close>

definition pong_round ::
  "(nat \<Rightarrow> message_buffer_t \<Rightarrow> message_buffer_t) \<Rightarrow> u32 \<Rightarrow> message_buffer_t \<times> bmem \<Rightarrow>
     ((u32 \<times> u8 list) \<times> message_buffer_t \<times> bmem) option" where
  "pong_round env timenow = (\<lambda>(g, buf).
     do { (r, g1) \<leftarrow> ReceiveMessage env 1024 True g;
          (ret, source, bs) \<leftarrow> r;
          let buf1 = (\<lambda>i. if i < length bs then bs ! i else buf i);
          let diff_time = calc_diff_time timenow (ldw buf1 0);
          let buf2 = stw 0 diff_time buf1;
          Some ((source, map buf2 [0..<unat ret]), g1, buf2) })"

subsection \<open>The allocator sample\<close>

definition fill_count :: "nat \<Rightarrow> nat \<Rightarrow> bmem \<Rightarrow> bmem" where
  "fill_count p n m = (\<lambda>a. if p \<le> a \<and> a < p + n then of_nat (a - p) else m a)"

definition malloc_sample_round :: "guest_heap \<Rightarrow> (bool \<times> guest_heap) option" where
  "malloc_sample_round g =
     do { (buffer, g1) \<leftarrow> guest_malloc 2048 g;
          (buffer2, g2) \<leftarrow> guest_malloc 2048 g1;
          ensure (buffer \<noteq> 0 \<and> buffer2 \<noteq> 0);
          let m1 = fill_count (unat buffer) 2048 (gh_mem g2);
          let m2 = memcpy_guest m1 (unat buffer2) (unat buffer) 2048;
          let ret = memcmp m2 (unat buffer) (unat buffer2) 2048;
          Some (ret = 0, guest_free buffer2 (guest_free buffer (g2\<lparr>gh_mem := m2\<rparr>))) }"

subsection \<open>What they do\<close>

lemma ping_round_ok:
  assumes "0 \<le> posted" "0 < reply" "CPU_TICK_TO_US freq (calc_diff_time t1 t0) = Some d" "CPU_TICK_TO_US freq w = Some e"
  shows "ping_round freq (t0, posted, reply, t1, w) st =
    Some \<lparr>worst_one_way = max (worst_one_way st) e, worst_round_trip = max (worst_round_trip st) d,
      best_one_way = min (best_one_way st) e, best_round_trip = min (best_round_trip st) d,
      average_one_way = average_one_way st + e, average_round_trip = average_round_trip st + d\<rparr>"
proof -
  have c: "\<not> (posted < 0 \<or> reply < 0 \<or> reply = 0)" using assms(1,2) by simp
  have m: "(if x < y then y else x) = max x y" "(if y < x then y else x) = min x y" for x y :: u32 by auto
  show ?thesis unfolding ping_round_def prod.case if_not_P [OF c] 
    by (simp add: assms(3,4) Let_def m split del: if_split)
qed

text \<open>After a number of answered rounds the statistics are the maximum, the minimum and the sum of the times.\<close>

lemma ping_rounds_stats:
  assumes "\<forall>(t0, a, b, t1, w)\<in>set rs. 0 \<le> a \<and> 0 < b" "freq div 2 div 100000 = u" "u \<noteq> 0"
  defines "trips \<equiv> map (\<lambda>(t0, a, b, t1, w). calc_diff_time t1 t0 div u) rs" and "ways \<equiv> map (\<lambda>(t0, a, b, t1, w). w div u) rs"
  shows "ping_rounds freq rs st =
    Some \<lparr>worst_one_way = fold max ways (worst_one_way st), worst_round_trip = fold max trips (worst_round_trip st),
      best_one_way = fold min ways (best_one_way st), best_round_trip = fold min trips (best_round_trip st),
      average_one_way = average_one_way st + sum_list ways, average_round_trip = average_round_trip st + sum_list trips\<rparr>"
  using assms(1) unfolding trips_def ways_def
proof (induction rs arbitrary: st)
  case (Cons r rs)
  obtain t0 a b t1 w where r: "r = (t0, a, b, t1, w)" by (cases r)
  have "ping_round freq r st = Some \<lparr>worst_one_way = max (worst_one_way st) (w div u),
      worst_round_trip = max (worst_round_trip st) (calc_diff_time t1 t0 div u), best_one_way = min (best_one_way st) (w div u),
      best_round_trip = min (best_round_trip st) (calc_diff_time t1 t0 div u),
      average_one_way = average_one_way st + w div u, average_round_trip = average_round_trip st + calc_diff_time t1 t0 div u\<rparr>"
    unfolding r using Cons.prems assms(2,3) by (intro ping_round_ok) (auto simp: r CPU_TICK_TO_US_def)
  then show ?case using Cons by (simp add: r max.commute min.commute add.assoc)
qed simp

text \<open>
  At 200 MHz Count goes up 100 times a microsecond: a second is 100000 units of \<open>CPU_TICK_TO_US\<close>, not a million, so
  its unit is ten microseconds.
\<close>

lemma tick_to_us_tens: "CPU_TICK_TO_US 200000000 100000000 = Some 100000" "CPU_TICK_TO_US 200000000 100 = Some 0"
  by (simp_all add: CPU_TICK_TO_US_def)

lemma next_message_size_cycle:
  "next_message_size 64 = 128" "next_message_size 128 = 192" "next_message_size 192 = 256" "next_message_size 256 = 64"
  by (simp_all add: next_message_size_def)

text \<open>Pong answers the oldest message: to its sender, with the same length and contents but for the first word.\<close>

lemma pong_round_ok:
  assumes ok: "msgs_ok g" and ne: "inbox g = (src, bs) # ms" and len: "4 \<le> length bs"
  shows "\<exists>g' buf'. pong_round env now (g, buf) =
      Some ((src, map (stw 0 (calc_diff_time now (ldw (\<lambda>i. bs ! i) 0)) (\<lambda>i. bs ! i)) [0..<4] @ drop 4 bs), g', buf') \<and>
    msgs_ok g' \<and> inbox g' = ms"
proof -
  have l: "length bs \<le> 256" using inbox_lengths [OF ok, of "(src, bs)"] ne by simp
  from take_message_eq [OF ok ne, of 1024] take_message_bounds [OF ok, of env 1024 True] ne l obtain g' where
    g': "ReceiveMessage env 1024 True g = Some (Some (of_nat (length bs), src, bs), g')" "msgs_ok g'" "inbox g' = ms"
    by (auto simp: min_def)
  let ?b1 = "\<lambda>i. if i < length bs then bs ! i else buf i"
  have w: "ldw ?b1 0 = ldw (\<lambda>i. bs ! i) 0" proof -
    have "0 < length bs" "1 < length bs" "2 < length bs" "3 < length bs" using len by auto
    then show ?thesis by (simp add: ldw_def)
  qed
  have n: "unat (of_nat (length bs) :: u32) = length bs" using l by (rule unat_le_256)
  have up: "[0..<length bs] = [0..<4] @ [4..<length bs]" proof -
    obtain k where "length bs = 4 + k" using le_Suc_ex [OF len] by blast
    then show ?thesis using upt_add_eq_append [of 0 4 k] by (simp only: le0 simp_thms)
  qed
  have "map (stw 0 x ?b1) [4..<length bs] = drop 4 bs" for x
    using len by (intro nth_equalityI) (auto simp: stw_def)
  moreover have "map (stw 0 x ?b1) [0..<4] = map (stw 0 x (\<lambda>i. bs ! i)) [0..<4]" for x
    by (intro map_cong) (auto simp: stw_def)
  ultimately show ?thesis using g' by (auto simp: pong_round_def Let_def w n up)
qed

text \<open>
  The allocator sample works once. Its first round finds both blocks equal; after it has given them back, the chain of free
  blocks from the start of the heap is circular, and the first request of the second round never returns.
\<close>

lemma both_freed_stuck:
  assumes l: "laid (gh_mem g) h [s, s2]" and hp: "gh_heap g = of_nat h"
  shows "guest_malloc n (guest_free (of_nat (blk h [s, s2] 1 + 8)) (guest_free (of_nat (h + 8)) g)) = None"
proof -
  define b where "b = blk h [s, s2] 1"
  define t where "t = heap_top h [s, s2]"
  define m0 where "m0 = stw (h + 4) (ldw (gh_mem g) (h + 4) AND NOT 1) (gh_mem g)"
  define m where "m = stw (b + 4) (ldw m0 (b + 4) AND NOT 1) m0"
  have ch: "\<forall>i<2. ldw (gh_mem g) (blk h [s, s2] i) = of_nat (blk h [s, s2] (Suc i))"
    and top: "ldw (gh_mem g) t = of_nat b" "even (ldw (gh_mem g) (t + 4))" "t + 8 \<le> 4294967296" "0 < h"
    using l by (auto simp: laid_def t_def b_def numeral_2_eq_2)
  have o: "h + 8 \<le> b" "b + 8 \<le> t" using blk_lt_top [of 1 "[s, s2]" h] by (simp_all add: b_def t_def blk_def)
  have t': "blk h [s, s2] 2 = t" by (simp add: t_def heap_top_def numeral_2_eq_2)
  have g: "ldw (gh_mem g) h = of_nat b" "ldw (gh_mem g) b = of_nat t"
    using ch t' by (auto simp: b_def numeral_2_eq_2 less_Suc_eq_0_disj)
  have p8: "of_nat (x + 8) - 8 = (of_nat x :: u32)" for x by simp
  have f0: "gh_mem (guest_free (of_nat (h + 8)) g) = m0" "gh_heap (guest_free (of_nat (h + 8)) g) = of_nat h"
    using o top(3) hp by (simp_all add: guest_free_def Let_def p8 header_of_nat m0_def del: of_nat_add)
  let ?g = "guest_free (of_nat (b + 8)) (guest_free (of_nat (h + 8)) g)"
  have fr: "gh_mem ?g = m" "gh_heap ?g = of_nat h"
    using o top(3) f0 unfolding guest_free_def [of "of_nat (b + 8)"]
    by (simp_all add: Let_def p8 header_of_nat m_def del: of_nat_add)
  have hd: "mb_next m (of_nat h) = of_nat b" "mb_size m (of_nat h) = ldw (gh_mem g) (h + 4) AND NOT 1"
      "mb_next m (of_nat b) = of_nat t" "mb_size m (of_nat b) = ldw m0 (b + 4) AND NOT 1"
      "mb_next m (of_nat t) = of_nat b" "mb_size m (of_nat t) = ldw (gh_mem g) (t + 4)"
    using o top g by (simp_all add: m_def m0_def header_of_nat ldw_stw_other)
  have nz: "of_nat h \<noteq> (0 :: u32)" "of_nat b \<noteq> (0 :: u32)" "of_nat t \<noteq> (0 :: u32)" using o top by (simp_all add: of_nat_u32_zero)
  have ev: "mb_size m (of_nat h) AND 1 = 0" "mb_size m (of_nat b) AND 1 = 0" "mb_size m (of_nat t) AND 1 = 0"
    unfolding hd(2,4,6) even_word using top(2) even_and_not1 by auto
  have u: "skip_used m (of_nat h) = Some (of_nat h)" using nz ev by (subst skip_used.simps) simp
  have "skip_free m (of_nat h) = None"
  proof (cases "skip_free m (of_nat h)")
    case (Some r)
    have "\<forall>q\<in>{of_nat h, of_nat b, of_nat t}. q \<noteq> 0 \<and> mb_size m q AND 1 = 0 \<and> mb_next m q \<in> {of_nat h, of_nat b, of_nat t}"
      using nz ev hd(1,3,5) by simp
    from skip_free_cycle [OF Some _ this] show ?thesis by simp
  qed simp
  then have "find_block z m (of_nat h) (of_nat h) = None" for z
    using nz u by (subst find_block.simps) (simp add: hd)
  then show ?thesis unfolding b_def [symmetric] guest_malloc_def fr Let_def by simp
qed

lemma ldw_cong: "(\<And>i. a \<le> i \<Longrightarrow> i < a + 4 \<Longrightarrow> m i = m' i) \<Longrightarrow> ldw m a = ldw m' a"
  by (simp add: ldw_def)

lemma malloc_sample_once:
  assumes h: "h = unat ((hstart + 8) AND 0xFFFFFFFC)" "0 < h" and room: "h + 4120 \<le> 4294967296"
  shows "\<exists>g'. malloc_sample_round (guest_init_mem hstart hsize g) = Some (True, g') \<and> malloc_sample_round g' = None"
proof -
  have d: "4 dvd h" unfolding h(1) by (rule masked_aligned_4)
  have hp: "gh_heap (guest_init_mem hstart hsize g) = of_nat h" by (simp add: guest_init_mem_def Let_def h(1))
  have u: "up4 2048 = 2048" by (simp add: up4_def)
  from guest_malloc_first [OF hp h(2) d, of 2048] room obtain g1 where
    g1: "guest_malloc 2048 (guest_init_mem hstart hsize g) = Some (of_nat (h + 8), g1)" "gh_heap g1 = of_nat h"
      "laid (gh_mem g1) h [2048]" by (auto simp: u)
  have tp: "heap_top h [2048] = h + 2056" "heap_top h [2048, 2048] = h + 4112" "blk h [2048, 2048] 1 = h + 2056"
    by (simp_all add: heap_top_def blk_def)
  from guest_malloc_laid [OF g1(3,2), of 2048] room obtain g2 where
    g2: "guest_malloc 2048 g1 = Some (of_nat (h + 2064), g2)" "gh_heap g2 = of_nat h" "laid (gh_mem g2) h [2048, 2048]"
    by (auto simp: u tp)
  define m1 where "m1 = fill_count (h + 8) 2048 (gh_mem g2)"
  define m2 where "m2 = memcpy_guest m1 (h + 2064) (h + 8) 2048"
  have un: "unat (of_nat (h + 8) :: u32) = h + 8" "unat (of_nat (h + 2064) :: u32) = h + 2064"
    using room by (intro unat_of_nat_u32; simp)+
  have nz: "of_nat (h + 8) \<noteq> (0 :: u32)" "of_nat (h + 2064) \<noteq> (0 :: u32)" using room by (simp_all add: of_nat_u32_zero del: of_nat_add)
  have cp: "m2 q = (if h + 2064 \<le> q \<and> q < h + 2064 + 2048 then m1 (h + 8 + (q - (h + 2064))) else m1 q)" for q
    unfolding m2_def by (subst memcpy_guest_apply) (auto simp: copy_safe_def)
  have eq: "memcmp m2 (h + 8) (h + 2064) 2048 = 0"
    by (auto simp: memcmp_eq_0 cp)
  have keep: "m2 q = gh_mem g2 q" if "q < h + 8 \<or> h + 2056 \<le> q \<and> q < h + 2064 \<or> h + 4112 \<le> q" for q
    using that by (auto simp: cp m1_def fill_count_def)
  have wk: "ldw m2 a = ldw (gh_mem g2) a" if "a \<in> {h, h + 4, h + 2056, h + 2060, h + 4112, h + 4116}" for a
    using that by (intro ldw_cong keep) auto
  have blks: "blk h [2048, 2048] i \<in> {h, h + 2056}" if "i < 2" for i
    using that by (auto simp: blk_def less_Suc_eq numeral_2_eq_2)
  have "laid m2 h [2048, 2048]"
  proof -
    have "ldw m2 (blk h [2048, 2048] i) = ldw (gh_mem g2) (blk h [2048, 2048] i)"
         "ldw m2 (blk h [2048, 2048] i + 4) = ldw (gh_mem g2) (blk h [2048, 2048] i + 4)" if "i < 2" for i
      using blks [OF that] by (auto intro!: wk)
    then show ?thesis using g2(3) by (simp add: laid_def tp wk numeral_2_eq_2)
  qed
  moreover have b8: "h + 2064 = blk h [2048, 2048] 1 + 8" unfolding tp(3) by simp
  ultimately have stuck: "guest_malloc 2048 (guest_free (of_nat (h + 2064)) (guest_free (of_nat (h + 8)) (g2\<lparr>gh_mem := m2\<rparr>))) = None"
    unfolding b8 using g2(2) by (intro both_freed_stuck) simp_all
  have "malloc_sample_round (guest_init_mem hstart hsize g) =
      Some (True, guest_free (of_nat (h + 2064)) (guest_free (of_nat (h + 8)) (g2\<lparr>gh_mem := m2\<rparr>)))"
    unfolding malloc_sample_round_def g1(1) bind.simps prod.case g2(1) un m1_def [symmetric] m2_def [symmetric] Let_def eq
    using nz by (simp del: of_nat_add add: ensure_def)
  then show ?thesis using stuck by (simp add: malloc_sample_round_def)
qed

end
