(* ===== verification/Spec2Isabelle.thy ===== *)
theory Spec2Isabelle
  imports Demo SoftInt Genconf EthPhy GuestNet GuestMalloc Boards GuestUart GuestApps
begin

text \<open>
  The prpl-hypervisor: a small hypervisor for MIPS processors with the virtualization module, on
  two ports, PIC32MZ and Baikal-T1. It boots a fixed set of virtual machines from a configuration
  compiled in, schedules their virtual CPUs by a priority round robin with a fast path for
  interrupts, and serves the guests by hypercalls that drivers register: messages between virtual
  machines, guarded device access, console output, redirection of interrupts, flash pages,
  performance counters. All paths below are relative to \<open>src/\<close>.

  The machine state is one record, \<open>hv\<close> in Machine: the CP0 registers of the root and of the guest
  context, the shadow register sets and the register frame of the trap, the TLB, the RAM as a map
  from physical addresses to bytes, the device registers as a log of accesses with the values the
  devices answer as part of the configuration, and the global variables of the C files. VMs and VCPUs
  are structures on the heap: maps from addresses to records, allocated by the model of the
  allocator. A C function is a HOL function on the state with an option result: \<open>None\<close> means that the
  code does not return properly (null dereference, array index out of range, division by zero, TLB
  exception in root mode, a loop that does not end). Properties that a function returns are proved as
  such, \<open>f s = Some ...\<close>. Machine integers are words of the C width; the fields the code declares
  signed and computes with are integers with the wrap-around written out.

  Prelude: C integers, checked arrays, the interface \<open>bounded_buffer\<close> of a queue and its lemmas.
  Libc (\<open>sys/lib/libc.c\<close>): memory and string functions, \<open>itoa\<close>, the \<open>printf\<close> family; text round trips.
  KRMalloc (\<open>sys/lib/malloc.c\<close>): the free-list allocator; blocks it hands out are disjoint.
  Queue (\<open>sys/lib/queue.c\<close>): the ring buffer; an instance of the queue interface.
  LinkedList (\<open>sys/lib/linkedlist.c\<close>): chains of nodes on an explicit heap.
  Machine, PhysMem: the data of the kernel and how loads and stores reach memory.
  Hal (\<open>arch/mips/common/hal.c\<close>, \<open>tlb.c\<close>) and TlbMap: processor access, what a TLB window maps.
  Vcpu (\<open>arch/mips/common/vcpu.c\<close>, \<open>gpr_context.c\<close>): saving and restoring contexts.
  Scheduler, SchedSpec, SchedInv, Fairness (\<open>sys/kernel/scheduler.c\<close>): the code, the abstract
  scheduler and the refinement, the invariant and totality, progress.
  Vm, Boot (\<open>sys/kernel/vm.c\<close>): creation of the machines and what it establishes.
  Hypercall (\<open>sys/kernel/hypercall.c\<close>, \<open>interrupts.c\<close> of both ports): the tables.
  InterVM, Messaging (\<open>drivers/inter-vm-comm.c\<close>), VirtualIO (\<open>drivers/virtual-io.c\<close>),
  IntRedirect (\<open>drivers/pic32mz-interrupt-redirect.c\<close>), FlashPerf (\<open>drivers/pic32mz-puf-flash.c\<close>,
  \<open>drivers/performance-counter.c\<close>), Uart (\<open>uart_driver.c\<close> of both ports), InstrEmul
  (\<open>instruction_emulation.c\<close>), Timer (\<open>timer.c\<close> of both ports): the drivers.
  SfrBits, Usb (\<open>drivers/pic32mz-usb.c\<close>): the USB device controller, its two state machines.
  Ethernet, EthFrame, EthRing, EthPhy (\<open>drivers/pic32mz-ethernet.c\<close>): the Ethernet controller: the code, what its
  operations leave alone, the paths of a frame through the descriptor rings in memory, termination of the
  PHY accesses. EthShared, EthSwitch (\<open>drivers/pic32mz-ethernet-shared.c\<close>): the version for several VMs, which forwards
  frames between them through rings that are an instance of \<open>bounded_buffer\<close>.
  Frame: the relation \<open>krel\<close> every operation of the running kernel keeps.
  Kernel, System, Startup (\<open>sys/kernel/exception.c\<close>, \<open>driver.c\<close>, \<open>hyper_init\<close>): the handlers put
  together, the hypervisor as a step relation with its reachable states, and the start.
  SoftInt, SoftFloat, GuestStr, GuestText (\<open>bare-metal-apps/lib/libc.c\<close>): the library linked into the
  bare-metal guests: integer and floating point arithmetic in software, strings and memory, numbers
  and formatted text with its batches for the console.
  GuestNet (\<open>bare-metal-apps/lib/network.c\<close>, \<open>platform.c\<close>, \<open>eth.c\<close>): the message list of the guests, an instance of
  \<open>bounded_buffer\<close> too, its interrupt handler, and the way of a message from sender to receiver as a step
  relation; registration and dispatch of guest interrupts. GuestMalloc (\<open>bare-metal-apps/lib/malloc.c\<close>): their allocator.
  GuestUart (\<open>bare-metal-apps/platform/*/uart.c\<close>): their consoles. GuestApps (\<open>bare-metal-apps/apps\<close>): a round of
  ping, of pong and of the allocator sample.
  Genconf (\<open>platform/cfg_reader/genconf.c\<close>): the generator of the configuration header, on the functions of
  libconfig as a parameter; its steps are a monad of file output, error codes and undefined behaviour.
  Boards (\<open>platform/*/board\<close>, \<open>drivers/*test.c\<close>): console and early set-up of the four boards, the reset button, the
  test drivers; with them the kernel has no parameter left.
  Demo: a concrete system on which the properties are exercised.

  Bounds and fuel. Loops over a counter recurse on the number of rounds left. Loops over linked
  memory and polling loops are \<open>partial_function (option)\<close>, so a loop that does not end is \<open>None\<close>. The
  \<open>k\<close>-th scheduling decision is \<open>rr_iter k\<close>; the bound \<open>255 * (n + 1)\<close> in the progress property is the
  largest remaining priority times the rounds one unit of it can take.

  Two limits of the state. The variables and heap structures of the kernel are fields of \<open>hv\<close>, apart from the byte
  memory \<open>mem\<close>, which holds the RAM of the guests, the buffers and the descriptor rings of the controllers. A window on a guest buffer
  is not confined to the calling VM (property \<open>window_translates\<close>), so on the hardware a store through it can
  also hit a variable of the kernel; in the model it changes \<open>mem\<close> only, and what such a store does to the kernel is outside every
  statement here. Slot 15 of the TLB is where the drivers put their windows, whatever is there: the statements about reachable states
  keep every slot but this one. The field \<open>tx_view\<close> is an observation without a counterpart in the code: the memory at the time of the last
  transmission request.

  Not modelled. The start-up assembler and the trap vectors (the model begins at \<open>hyper_init\<close> and at
  the handlers the vectors call); the messages the kernel prints; the guest programs but the three of GuestApps, as they are examples, and the
  registers of devices that only they use. The external entries of the tables remain parameters of the step relation, for drivers outside the
  repository. The library of the guests is modelled by itself, on its own memory. Guests are arbitrary: between two traps a guest may change its
  own registers, guest CP0 registers and any RAM (\<open>guest_runs\<close>).
\<close>

subsection \<open>The whole system\<close>

text \<open>
  (C1) Every state reachable from a sound kernel state, by any interleaving of guest execution,
  exceptions (with all their hypercalls and emulated instructions) and interrupts, is sound: the ready
  list is well formed and counts its critical VCPUs, the mailboxes are well formed, and the
  configuration, the VMs, the identity, priority and VM of each VCPU are those of the start. So are the TLB
  entries of all slots but slot 15. Slot 15 keeps its entry or holds an entry of the hypervisor
  (guest id 0): each window opened at index 15 replaces the entry there whatever it was. On the PIC32MZ
  ports the generator leaves that slot to the hypervisor; on the Baikal it may be an entry of a guest, which
  is then lost. The invariants of the statics of the USB and Ethernet drivers are kept as well. External drivers
  enter as \<open>xcall\<close> and \<open>xirq\<close> and are required to keep the same relation.
\<close>

theorem reachable_states_sound:
  assumes "hv_reach xcall xirq s0 s" "kstate s0"
    "\<And>n s t. xcall n s = Some t \<Longrightarrow> krel s t" "\<And>n s t. xirq n s = Some t \<Longrightarrow> krel s t"
  shows "kstate s \<and> conf s = conf s0 \<and> vms s = vms s0 \<and> hypercall_table s = hypercall_table s0 \<and>
    (\<forall>p. map_option vstat (vcpus s p) = map_option vstat (vcpus s0 p)) \<and> length (tlb s) = length (tlb s0) \<and>
    (\<forall>j<length (tlb s0). j \<noteq> 15 \<longrightarrow> tlb s ! j = tlb s0 ! j) \<and>
    (15 < length (tlb s0) \<longrightarrow> tlb s ! 15 = tlb s0 ! 15 \<or> (\<exists>e. tlb s ! 15 = Some e \<and> hw_guestid e = 0)) \<and>
    (\<forall>address base n c va t. tlbCreateEntry address base n 15 c s = Some (va, t) \<longrightarrow>
       (\<exists>e. tlb t ! 15 = Some e \<and> hw_guestid e = 0)) \<and>
    (usb_ok (usb s0) \<longrightarrow> usb_ok (usb s)) \<and> (eth_ok (eth s0) \<longrightarrow> eth_ok (eth s))"
proof -
  have k: "krel s0 s" by (rule hv_reach_krel [OF assms])
  then have "length (tlb s) = length (tlb s0) \<and> (\<forall>j<length (tlb s0). j \<noteq> 15 \<longrightarrow> tlb s ! j = tlb s0 ! j) \<and>
    (15 < length (tlb s0) \<longrightarrow> tlb s ! 15 = tlb s0 ! 15 \<or> (\<exists>e. tlb s ! 15 = Some e \<and> hw_guestid e = 0))"
    unfolding krel_def kept_def tlb_but_window_def by blast
  moreover have "\<exists>e. tlb t ! 15 = Some e \<and> hw_guestid e = 0"
    if "tlbCreateEntry address base n 15 c s = Some (va, t)" for address base n c va t
    using window_takes_slot [OF that] by simp
  ultimately show ?thesis using k assms(2) by (simp add: krel_def kept_def)
qed

theorem reachable_states_sound_witness:
  "hv_reach (\<lambda>_ s. Some s) (\<lambda>_ s. Some s) (demo PIC32MZ) ((demo PIC32MZ)\<lparr>mem := (\<lambda>_. 7)\<rparr>) \<and>
   kstate ((demo PIC32MZ)\<lparr>mem := (\<lambda>_. 7)\<rparr>)"
proof -
  have "guest_runs (demo PIC32MZ) ((demo PIC32MZ)\<lparr>mem := (\<lambda>_. 7)\<rparr>)" by (simp add: guest_runs_def)
  then have r: "hv_reach (\<lambda>_ s. Some s) (\<lambda>_ s. Some s) (demo PIC32MZ) ((demo PIC32MZ)\<lparr>mem := (\<lambda>_. 7)\<rparr>)"
    using hv_reach.step [OF hv_reach.start] hv_step.guest by blast
  show ?thesis using reachable_states_sound [OF r demo_kstate] r by simp
qed

text \<open>
  (C2) \<open>initializeMachines\<close> on a fresh heap that is large enough and a sane configuration returns. It
  creates one VM and one runnable VCPU for each configured machine, in the order of the configuration,
  with the identifiers 1, 2, ...; the ready list holds them in that order, the kernel state is sound, and
  every TLB slot behind the configured entries can serve as the window of the hypervisor.
\<close>

theorem boot_creates_machines:
  assumes "reset_state b a s" "sane_conf (conf s)" "boot_cost (conf s) < a" "conf_tlb_entries (conf s) \<le> length (tlb s)"
  shows "\<exists>s' ps. initializeMachines s = Some s' \<and> length ps = NVMACHINES (conf s) \<and> hv_sched s' ps \<and> kstate s' \<and>
    (\<forall>i<NVMACHINES (conf s). vcpu_of s' i (ps ! i)) \<and>
    (\<forall>i. conf_tlb_entries (conf s) \<le> i \<longrightarrow> i < length (tlb s) \<longrightarrow> window_slot i s')"
proof -
  obtain s' ps a' where s': "initializeMachines s = Some s'" "boot_state (NVMACHINES (conf s)) b a' s' ps"
    "length ps = NVMACHINES (conf s)" "conf s' = conf s" "length (tlb s') = length (tlb s)"
    "unat (next_tlbindex s') = conf_tlb_entries (conf s)" "vcpu_executing s' = None"
    by (rule initializeMachines_boot [OF assms])
  have q: "QUANTUM_SCHEDULER_MS (conf s') \<noteq> 0" using assms(2) s'(4) by (simp add: sane_conf_def)
  have v: "vcpu_of s' i (ps ! i)" if "i < NVMACHINES (conf s)" for i
    using s'(2,3) that by (simp add: boot_state_def)
  show ?thesis
    using s' v boot_hv_sched [OF s'(2) q s'(7)] boot_kstate [OF s'(2) q s'(7)] boot_window [OF s'(2)]
    by (intro exI [of _ s'] exI [of _ ps]) simp
qed

theorem boot_creates_machines_witness:
  "\<exists>s' ps. initializeMachines demo_reset = Some s' \<and> length ps = 2 \<and> hv_sched s' ps \<and> vcpu_of s' 1 (ps ! 1)"
proof -
  have n: "NVMACHINES (conf demo_reset) = 2" by (simp add: demo_reset_def)
  show ?thesis using boot_creates_machines [OF demo_reset_ok] unfolding n by fastforce
qed

text \<open>
  (C3) One tick of \<open>run_scheduler\<close> from a sound state returns (the endless \<open>CRITICAL\<close> loop is never
  entered), keeps the ready list and its invariant, and refines the abstract scheduler: when a decision
  is due the VCPU \<open>pick\<close> chooses is in execution afterwards and the scheduling data of every VCPU are
  those of \<open>after_pick\<close>; when none is due, nothing but the tick count changes.
\<close>

theorem scheduler_tick_total:
  assumes "hv_sched s ps"
  shows "\<exists>s' ps'. run_scheduler s = Some s' \<and> hv_sched s' ps' \<and> set ps' = set ps \<and> tick_count s' = tick_count s + 1 \<and>
    (sched_due s = Some True \<longrightarrow> vcpu_executing s' = pick (vcpus s) ps \<and>
       (\<forall>p. map_option sched_view (vcpus s' p) = map_option sched_view (after_pick (vcpus s) ps p))) \<and>
    (sched_due s = Some False \<longrightarrow> vcpu_executing s' = vcpu_executing s \<and> vcpus s' = vcpus s)"
  by (rule run_scheduler_total [OF assms]) blast

theorem scheduler_tick_total_witness:
  "\<exists>s'. run_scheduler (demo PIC32MZ) = Some s' \<and> tick_count s' = 1"
  using scheduler_tick_total [OF demo_sched [of PIC32MZ]] by auto

text \<open>
  (C4) What \<open>round_robin_scheduler\<close> returns: the first runnable critical VCPU of the ready list; without one,
  the first runnable VCPU with the least remaining priority below 255 (every runnable VCPU before it in the list
  has a greater one, every one behind it at least that of the choice); none if there is no such VCPU.
\<close>

theorem round_robin_choice:
  assumes "sched_inv s ps"
  shows "\<exists>r s'. round_robin_scheduler s = Some (r, s') \<and>
    (case r of
       Some p \<Rightarrow> \<exists>xs ys. ps = xs @ p # ys \<and> running (vcpus s) p \<and>
         (urgent (vcpus s) p \<and> (\<forall>q\<in>set xs. \<not> urgent (vcpus s) q) \<or>
          (\<forall>q\<in>set ps. \<not> urgent (vcpus s) q) \<and> prem (vcpus s) p < 255 \<and>
          (\<forall>q\<in>set xs. running (vcpus s) q \<longrightarrow> prem (vcpus s) p < prem (vcpus s) q) \<and>
          (\<forall>q\<in>set ys. running (vcpus s) q \<longrightarrow> prem (vcpus s) p \<le> prem (vcpus s) q))
     | None \<Rightarrow> \<forall>q\<in>set ps. \<not> urgent (vcpus s) q \<and> (running (vcpus s) q \<longrightarrow> 255 \<le> prem (vcpus s) q))"
proof -
  obtain s' where s': "round_robin_scheduler s = Some (pick (vcpus s) ps, s')"
    by (rule round_robin_sched_inv [OF assms])
  have none: "(\<forall>q\<in>set ps. \<not> urgent (vcpus s) q)" if "find (urgent (vcpus s)) ps = None"
    using that by (auto simp: find_None_iff)
  show ?thesis
  proof (cases "find (urgent (vcpus s)) ps")
    case (Some p)
    obtain xs ys where "ps = xs @ p # ys" "urgent (vcpus s) p" "\<forall>q\<in>set xs. \<not> urgent (vcpus s) q"
      by (rule find_split [OF Some])
    then show ?thesis using s' Some by (auto simp: pick_def urgent_def)
  next
    case None
    show ?thesis
    proof (cases "scan (vcpus s) 255 None ps")
      case (Some p)
      then obtain xs ys where "ps = xs @ p # ys" "running (vcpus s) p" "prem (vcpus s) p < 255"
        "\<And>q. q \<in> set xs \<Longrightarrow> running (vcpus s) q \<Longrightarrow> prem (vcpus s) p < prem (vcpus s) q"
        "\<And>q. q \<in> set ps \<Longrightarrow> running (vcpus s) q \<Longrightarrow> prem (vcpus s) p \<le> prem (vcpus s) q"
        by (rule scan_Some) blast
      then show ?thesis using s' None Some none
        by (intro exI [of _ "Some p"] exI [of _ s']) (auto simp: pick_def)
    next
      case N: None
      then show ?thesis using s' None none scan_None [THEN iffD1, OF N] by (simp add: pick_def)
    qed
  qed
qed

theorem round_robin_choice_witness:
  "\<exists>r s'. round_robin_scheduler (demo PIC32MZ) = Some (r, s') \<and> r \<noteq> None"
  using round_robin_choice [OF conjunct1 [OF demo_calm [unfolded calm_def], of PIC32MZ]]
  by (auto simp: urgent_def crit_bit_def running_def prem_def split: option.splits)

text \<open>
  (C5) No starvation: while no VCPU is critical and no runnable VCPU has priority 0, a runnable VCPU of the
  ready list whose remaining priority is below 255 is chosen after at most \<open>255 * (n + 1)\<close> scheduling
  decisions, \<open>n\<close> being the length of the list. (\<open>rr_iter k\<close> is the \<open>k\<close>-th decision.)
\<close>

theorem no_starvation:
  assumes "calm s ps" "fair_conf (vcpus s) ps" "p \<in> set ps" "running (vcpus s) p" "prem (vcpus s) p < 255"
  shows "\<exists>n\<le>255 * (length ps + 1). \<exists>s'. rr_iter n s = Some (Some p, s')"
  by (rule served_within [OF assms])

theorem no_starvation_witness:
  "\<exists>n\<le>765. \<exists>s'. rr_iter n (demo PIC32MZ) = Some (Some 200, s')"
  using no_starvation [OF demo_calm [of PIC32MZ], of 200]
  by (simp add: fair_conf_def running_def prem_def)

text \<open>
  (C6) Saving a context and restoring it later, whatever ran in between, brings back the guest's program
  counter, every guest CP0 register \<open>contextSave\<close> stored except \<open>Compare\<close> (11,0), and on the Baikal port
  the 34 words of the register frame.
\<close>

theorem context_switch_roundtrip:
  assumes "vcpu_executing s = Some p" "vcpus s p = Some v" "vc_init v = 0" "contextSave s = Some s1"
    "vcpu_executing t = Some p" "vcpus t p = vcpus s1 p" "gpr_areas t = gpr_areas s1" "conf t = conf s"
  shows "\<exists>t'. contextRestore t = Some t' \<and>
    (\<forall>k\<in>set saved_cp0 - {(11, 0)}. gcp0 t' k = gcp0 s k) \<and> getEPC t' = getEPC s \<and>
    (\<forall>g. gpr v = Some g \<longrightarrow> c_port (conf s) = BAIKAL_T1 \<longrightarrow> (\<forall>i<34. frame t' i = frame s i))"
  by (rule context_roundtrip_aux [OF assms])

theorem context_switch_roundtrip_witness:
  "\<exists>s1 t'. contextSave (demo_call 1 2 3) = Some s1 \<and>
     contextRestore (s1\<lparr>frame := (\<lambda>_. 99)\<rparr>) = Some t' \<and> frame t' 5 = 2"
proof -
  let ?s = "demo_call 1 2 3"
  have v: "vcpus ?s 100 = Some (demo_vcpu 1 50 10)" by simp
  obtain s1 where s1: "contextSave ?s = Some s1" "vcpu_executing s1 = Some 100" "conf s1 = conf ?s"
    by (rule contextSave_same [of ?s]) (auto simp: same_sched_def)
  have "\<exists>t'. contextRestore (s1\<lparr>frame := (\<lambda>_. 99)\<rparr>) = Some t' \<and> (\<forall>i<34. frame t' i = frame ?s i)"
    using context_switch_roundtrip [of ?s 100 "demo_vcpu 1 50 10" s1 "s1\<lparr>frame := (\<lambda>_. 99)\<rparr>"] s1 by auto
  then show ?thesis using s1(1) by (auto simp: demo_call_def)
qed



subsection \<open>Memory windows\<close>

text \<open>
  (C8) \<open>tlbCreateEntry\<close> gives the hypervisor a window on a guest buffer. For a base aligned to 8 KB, a pair of pages, and
  a buffer of at most 4096 bytes that does not wrap, also one that crosses a page boundary, each byte of the window
  translates to the corresponding physical byte behind the base of the VM, for loads and stores. The
  window is not confined to the calling VM: for (nearly) every physical address
  \<open>pa\<close> the guest address \<open>pa - base\<close> maps exactly \<open>pa\<close>, whichever VM it belongs to. For a base that is
  aligned to 4 KB but not to 8 KB, which \<open>genconf\<close> produces behind a VM of 4 KB, the address returned is in the
  odd page of the pair the entry maps, which has the frame meant for the second page of the buffer: a buffer inside its page is
  not mapped at all, one that reaches the end of its page is mapped one page too far up to there and not at all behind.
  The slot written holds the entry of the hypervisor whatever was in it before; the other slots keep their entries.
\<close>

theorem window_translates:
  assumes "window_slot (unat i) s" "baseaddr AND 0xFFF = 0" "0x80000000 \<le> baseaddr" "baseaddr \<le> 0x9FFFE000"
    and "unat sz \<le> 4096" "unat address + unat sz < 4294967296"
  shows "\<exists>va s1. tlbCreateEntry address baseaddr sz i use_cache s = Some (va, s1) \<and>
    (\<forall>k. k \<noteq> unat i \<longrightarrow> tlb s1 ! k = tlb s ! k) \<and> (\<exists>e. tlb s1 ! unat i = Some e \<and> hw_guestid e = 0) \<and>
    (baseaddr AND 0x1FFF = 0 \<longrightarrow>
      (\<forall>j wr. j < unat sz \<longrightarrow> root_translate wr (va + of_nat j) s1 = Some (guest_phys baseaddr address + of_nat j)) \<and>
      (\<forall>pa wr. pa - baseaddr \<noteq> - 1 \<longrightarrow> (\<exists>va s1. tlbCreateEntry (pa - baseaddr) baseaddr 1 i use_cache s = Some (va, s1) \<and>
        root_translate wr va s1 = Some pa))) \<and>
    (baseaddr AND 0x1FFF \<noteq> 0 \<longrightarrow> (\<forall>j wr. j < unat sz \<longrightarrow> root_translate wr (va + of_nat j) s1 =
       (if 4096 \<le> unat address mod 4096 + unat sz \<and> unat address mod 4096 + j < 4096
        then Some (guest_phys baseaddr address + 0x1000 + of_nat j) else None)))"
proof -
  let ?va = "window_va use_cache baseaddr address" and ?T = "(tlb s)[unat i := Some (entry_hw (window_entry address baseaddr sz i use_cache))]"
  have slot: "\<exists>e. tlb s1 ! unat i = Some e \<and> hw_guestid e = 0"
    if "tlbCreateEntry address baseaddr sz i use_cache s = Some (?va, s1)" for s1
    using window_takes_slot [OF that] by blast
  consider "baseaddr AND 0x1FFF = 0" | "baseaddr AND 0x1FFF = 0x1000" using assms(2) by (rule page_parity)
  then show ?thesis
  proof cases
    case 1
    obtain s1 where s1: "tlbCreateEntry address baseaddr sz i use_cache s = Some (?va, s1)"
      "\<And>j wr. j < unat sz \<Longrightarrow> root_translate wr (?va + of_nat j) s1 = Some (guest_phys baseaddr address + of_nat j)"
      "s1 = s\<lparr>cp0 := cp0 s1, tlb := ?T\<rparr>"
      using window_translate [OF assms(1) 1 assms(3-6), of use_cache] by metis
    have o: "tlb s1 ! k = tlb s ! k" if "k \<noteq> unat i" for k
      using that by (subst s1(3)) simp
    show ?thesis
    proof (rule exI [of _ ?va], rule exI [of _ s1], intro conjI allI impI)
      show "\<exists>va s1. tlbCreateEntry (pa - baseaddr) baseaddr 1 i use_cache s = Some (va, s1) \<and> root_translate wr va s1 = Some pa"
        if "pa - baseaddr \<noteq> - 1" for pa wr using window_any_page [OF assms(1) 1 assms(3,4) that] by blast
    qed (use 1 s1(1,2) slot o in simp_all)
  next
    case 2
    obtain s1 where s1: "tlbCreateEntry address baseaddr sz i use_cache s = Some (?va, s1)"
      "\<And>j wr. j < unat sz \<Longrightarrow> root_translate wr (?va + of_nat j) s1 =
         (if 4096 \<le> unat address mod 4096 + unat sz \<and> unat address mod 4096 + j < 4096
          then Some (guest_phys baseaddr address + 0x1000 + of_nat j) else None)" "tlb s1 = ?T"
      using window_odd_page [OF assms(1) 2 assms(3-6), of use_cache] by metis
    have "tlb s1 ! k = tlb s ! k" if "k \<noteq> unat i" for k using that s1(3) by simp
    then show ?thesis using 2 s1(1,2) slot by (intro exI [of _ ?va] exI [of _ s1]) simp
  qed
qed

theorem window_translates_witness:
  "\<exists>va s1. tlbCreateEntry 0x80000FFE 0x80100000 4 15 True (demo PIC32MZ) = Some (va, s1) \<and>
     root_translate True (va + 3) s1 = Some 0x101001"
proof -
  have s: "window_slot (unat (15 :: u32)) (demo PIC32MZ)" using demo_window_slot by simp
  have a: "(0x80100000 :: u32) AND 0xFFF = 0" "(0x80100000 :: u32) AND 0x1FFF = 0" by simp_all
  obtain va s1 where w: "tlbCreateEntry 0x80000FFE 0x80100000 4 15 True (demo PIC32MZ) = Some (va, s1)"
    "\<forall>j wr. j < unat (4 :: u32) \<longrightarrow> root_translate wr (va + of_nat j) s1 = Some (guest_phys 0x80100000 0x80000FFE + of_nat j)"
    using window_translates [OF s a(1), of 4 "0x80000FFE" True] a(2) by auto
  have "root_translate True (va + of_nat 3) s1 = Some (guest_phys 0x80100000 0x80000FFE + of_nat 3)"
    using w(2) by (elim allE [of _ 3] allE [of _ True] impE) simp_all
  then show ?thesis using w(1) by (auto simp: guest_phys_def)
qed

subsection \<open>Messages between VMs\<close>



text \<open>
  (C10) \<open>intervm_recv_msg\<close> implements the mailbox as the guest sees it (\<open>mailbox_recv\<close>, on which the way of the messages in
  GuestNet rests): \<open>v0\<close>, \<open>a0\<close> and the bytes written to the caller's buffer, and nowhere else, are its
  answer, and the mailbox of the VCPU afterwards holds what it leaves. On an empty mailbox nothing but
  \<open>v0\<close> changes. Otherwise the oldest message is taken with its size and source, and the virtual interrupt
  bit is cleared in \<open>GuestCtl2\<close> and in the saved context.
\<close>

theorem receive_takes_oldest:
  assumes "window_ready s m" "vcpu_executing s = Some p" "vcpus s p = Some v" "msgs_ok (messages v)"
    "slot_addr i = MoveFromPreviousGuestGPR REG_A0 s"
    "\<forall>src bs rest. inbox (messages v) = (src, bs) # rest \<longrightarrow> guest_buffer s m (MoveFromPreviousGuestGPR REG_A0 s) (of_nat (length bs))"
  shows "\<exists>v0 a0 bs b' s' v'. mailbox_recv slot_addr i (messages v) = Some ((v0, a0, bs), b') \<and> intervm_recv_msg s = Some s' \<and>
    MoveFromPreviousGuestGPR REG_V0 s' = v0 \<and> MoveFromPreviousGuestGPR REG_A0 s' = a0 \<and>
    mem s' = put_bytes (mem s) (guest_phys (base_addr m) (MoveFromPreviousGuestGPR REG_A0 s)) bs \<and>
    vcpus s' = (vcpus s)(p \<mapsto> v') \<and> msgs_ok (messages v') \<and> msgs_ok b' \<and> inbox (messages v') = inbox b' \<and>
    (inbox (messages v) = [] \<longrightarrow> s' = MoveToPreviousGuestGPR REG_V0 MESSAGE_EMPTY s) \<and>
    (inbox (messages v) \<noteq> [] \<longrightarrow> inbox (messages v) = (a0, bs) # inbox b' \<and> v0 = of_nat (length bs) \<and>
       guestclt2 v' = guestclt2 v AND NOT (intervm_bit (c_port (conf s))) \<and>
       getGuestCTL2 s' = getGuestCTL2 s AND NOT (intervm_bit (c_port (conf s))))"
proof (cases "inbox (messages v)")
  case Nil
  then have "length (inbox (messages v)) = 0" by (simp del: inbox_length)
  then have z: "num_messages (messages v) = 0" by (simp add: unat_eq_0)
  then have "mailbox_recv slot_addr i (messages v) = Some ((MESSAGE_EMPTY, MoveFromPreviousGuestGPR REG_A0 s, []), messages v)"
    using assms(5) by (simp add: mailbox_recv_def box_get_def)
  moreover have "intervm_recv_msg s = Some (MoveToPreviousGuestGPR REG_V0 MESSAGE_EMPTY s)"
    using assms(2,3) z by (simp add: intervm_recv_msg_def)
  moreover have "vcpus s = (vcpus s)(p \<mapsto> v)" using assms(3) by auto
  ultimately show ?thesis using Nil assms(4)
    by (intro exI [of _ MESSAGE_EMPTY] exI [of _ "MoveFromPreviousGuestGPR REG_A0 s"] exI [of _ "[]"] exI [of _ "messages v"]
        exI [of _ "MoveToPreviousGuestGPR REG_V0 MESSAGE_EMPTY s"] exI [of _ v]) (simp add: MoveTo_fields MoveFrom_MoveTo put_bytes_def fun_eq_iff)
next
  case (Cons x rest)
  obtain src bs where x: "x = (src, bs)" by fastforce
  have box: "inbox (messages v) = (src, bs) # rest" using Cons x by simp
  from box_get_ok [OF assms(4) box] obtain b' where b': "box_get (messages v) = Some ((src, bs), b')" "msgs_ok b'" "inbox b' = rest" by blast
  have r: "mailbox_recv slot_addr i (messages v) = Some ((of_nat (length bs), src, bs), b')" using b'(1) by (simp add: mailbox_recv_def)
  have buf: "guest_buffer s m (MoveFromPreviousGuestGPR REG_A0 s) (of_nat (length bs))" using assms(6) box by blast
  obtain s' v' where "intervm_recv_msg s = Some s'" "vcpus s' = (vcpus s)(p \<mapsto> v')" "msgs_ok (messages v')"
    "inbox (messages v') = rest" "mem s' = put_bytes (mem s) (guest_phys (base_addr m) (MoveFromPreviousGuestGPR REG_A0 s)) bs"
    "MoveFromPreviousGuestGPR REG_V0 s' = of_nat (length bs)" "MoveFromPreviousGuestGPR REG_A0 s' = src"
    "guestclt2 v' = guestclt2 v AND NOT (intervm_bit (c_port (conf s)))"
    "getGuestCTL2 s' = getGuestCTL2 s AND NOT (intervm_bit (c_port (conf s)))"
    by (rule intervm_recv_ok [OF assms(1-4) box buf]) blast
  then show ?thesis using r b' box
    by (intro exI [of _ "of_nat (length bs)"] exI [of _ src] exI [of _ bs] exI [of _ b'] exI [of _ s'] exI [of _ v']) simp
qed

theorem receive_takes_oldest_witness:
  "\<exists>v b s'. box_put (messages zero_vcpu) (7, [1, 2]) = Some b \<and> v = (demo_vcpu 1 50 10)\<lparr>messages := b\<rparr> \<and>
     intervm_recv_msg ((demo_call 0x80000010 0 0)\<lparr>vcpus := [100 \<mapsto> v]\<rparr>) = Some s' \<and>
     MoveFromPreviousGuestGPR REG_V0 s' = 2 \<and> MoveFromPreviousGuestGPR REG_A0 s' = 7"
proof -
  have e: "inbox (messages zero_vcpu) = []" by (simp add: inbox_def zero_vcpu_def)
  obtain b where b: "box_put (messages zero_vcpu) (7, [1, 2]) = Some b" "msgs_ok b" "inbox b = [(7, [1, 2])]"
    using mailbox.put_ok [OF zero_mailbox, of "(7, [1, 2])"] e by auto
  let ?v = "(demo_vcpu 1 50 10)\<lparr>messages := b\<rparr>"
  let ?s = "(demo_call 0x80000010 0 0)\<lparr>vcpus := [100 \<mapsto> ?v]\<rparr>" and ?m = "demo_vm 1 (demo_vmconf 0x80100000 50)"
  have a0: "MoveFromPreviousGuestGPR REG_A0 ?s = 0x80000010"
    using demo_call_simps(7) [of "0x80000010" 0 0] by (simp add: MoveFromPreviousGuestGPR_def)
  have w: "window_ready ?s ?m"
    using demo_window [of "0x80000010" 0 0] by (simp add: window_ready_def vm_window_def window_slot_def cur_vm_def cur_vcpu_def)
  have g: "guest_buffer ?s ?m (MoveFromPreviousGuestGPR REG_A0 ?s) (of_nat (length [1, 2 :: u8]))"
    unfolding a0 by (rule demo_buffer) simp_all
  have i: "msgs_ok (messages ?v)" "inbox (messages ?v) = (7, [1, 2]) # []" using b by simp_all
  have ex: "vcpu_executing ?s = Some 100" "vcpus ?s 100 = Some ?v" by simp_all
  have "\<forall>src bs rest. inbox (messages ?v) = (src, bs) # rest \<longrightarrow> guest_buffer ?s ?m (MoveFromPreviousGuestGPR REG_A0 ?s) (of_nat (length bs))"
    using g i(2) by simp
  from receive_takes_oldest [OF w ex i(1) _ this, of "\<lambda>_. MoveFromPreviousGuestGPR REG_A0 ?s" 0] show ?thesis using b(1) i(2) by auto
qed

text \<open>
  (C11) Both circular buffers between VMs are queues: at most five messages of at most 256 bytes put into an empty
  mailbox, and at most nine frame buffers put into an empty ring of the Ethernet switch, come out unchanged
  and in order and leave the buffer empty, wherever its indices stood before.
\<close>

theorem buffers_fifo:
  assumes "msgs_ok b" "inbox b = []" "\<forall>m\<in>set ms. length (snd m) \<le> 256" "length ms \<le> 5"
    and "frame_ring_ok c" "stored c = []" "\<forall>k\<in>set ks. k < 10" "length ks \<le> 9"
  shows "(\<exists>b1 b2. put_all box_put b ms = Some b1 \<and> take_n box_get (length ms) b1 = Some (ms, b2) \<and> msgs_ok b2 \<and> inbox b2 = []) \<and>
    (\<exists>c1 c2. put_all (\<lambda>c k. queue_frame k c) c ks = Some c1 \<and> take_n next_frame (length ks) c1 = Some (ks, c2) \<and>
       frame_ring_ok c2 \<and> stored c2 = [])"
  using mailbox.fifo_roundtrip [OF assms(1-4)] vmring.fifo_roundtrip [OF assms(5-8)] by (rule conjI)

theorem buffers_fifo_witness:
  "\<exists>b1 b2. put_all box_put (messages zero_vcpu) [(1, [5]), (2, [6, 7])] = Some b1 \<and>
     take_n box_get 2 b1 = Some ([(1, [5]), (2, [6, 7])], b2)"
proof -
  have "frame_ring_ok (demo_ctrl 1 [9, 9, 9, 9, 9, 9])" "stored (demo_ctrl 1 [9, 9, 9, 9, 9, 9]) = []"
    by (simp_all add: frame_ring_ok_def ring_count_def stored_def demo_ctrl_def ctrl_ok_def)
  then show ?thesis
    using buffers_fifo [OF zero_mailbox, of "[(1, [5]), (2, [6, 7])]" "demo_ctrl 1 [9, 9, 9, 9, 9, 9]" "[3, 4]"]
    by (auto simp: inbox_def zero_vcpu_def numeral_2_eq_2)
qed

text \<open>
  (C12) The refusals of \<open>intervm_send_msg\<close>, in the order of its checks: a message above 256 bytes, an unknown target,
  a target that never ran, a full mailbox. Nothing but the return register changes, except that a full
  target gets an interrupt bit, which is shifted by \<open>GRIPL\<close> on both ports.
\<close>

theorem send_refusals:
  assumes "hv_sched s ps"
  defines "n \<equiv> MoveFromPreviousGuestGPR REG_A2 s" and "target \<equiv> vcpu_named s ps (MoveFromPreviousGuestGPR REG_A0 s)"
  shows "(256 < n \<longrightarrow> intervm_send_msg s = Some (MoveToPreviousGuestGPR REG_V0 MESSAGE_TOO_BIG s)) \<and>
    (n \<le> 256 \<longrightarrow> target = None \<longrightarrow> intervm_send_msg s = Some (MoveToPreviousGuestGPR REG_V0 MESSAGE_VCPU_NOT_FOUND s)) \<and>
    (\<forall>p v. n \<le> 256 \<longrightarrow> target = Some p \<longrightarrow> vcpus s p = Some v \<longrightarrow> vc_init v \<noteq> 0 \<longrightarrow>
      intervm_send_msg s = Some (MoveToPreviousGuestGPR REG_V0 MESSAGE_VCPU_NOT_INIT s)) \<and>
    (\<forall>p v. n \<le> 256 \<longrightarrow> target = Some p \<longrightarrow> vcpus s p = Some v \<longrightarrow> vc_init v = 0 \<longrightarrow> length (inbox (messages v)) = 5 \<longrightarrow>
      intervm_send_msg s = Some (MoveToPreviousGuestGPR REG_V0 MESSAGE_FULL
        (s\<lparr>vcpus := (vcpus s)(p \<mapsto> v\<lparr>guestclt2 := guestclt2 v OR push_bit GUESTCLT2_GRIPL_SHIFT GUEST_INTERVM_INT\<rparr>)\<rparr>)))"
  unfolding n_def target_def using intervm_send_refused [OF assms(1)] by blast

theorem send_refusals_witness:
  "intervm_send_msg (demo_call 2 0 300) = Some (MoveToPreviousGuestGPR REG_V0 MESSAGE_TOO_BIG (demo_call 2 0 300)) \<and>
   intervm_send_msg (demo_call 9 0 3) = Some (MoveToPreviousGuestGPR REG_V0 MESSAGE_VCPU_NOT_FOUND (demo_call 9 0 3))"
  using send_refusals [OF demo_call_sched [of 2 0 300]] send_refusals [OF demo_call_sched [of 9 0 3]]
  by (simp add: vcpu_named_def)

subsection \<open>Devices and interrupts\<close>

text \<open>
  (C13) The guard of the virtual I/O hypercalls, against intervals of numbers: an address is admitted when it lies in the
  closed interval from the start of one of the caller's mappings to its start plus its size, the address just behind the mapping
  included. An address that is not admitted is neither read nor
  written; the store returns the error code. An admitted, aligned device word is accessed once.
\<close>

theorem device_guard:
  assumes "caller_conf s = Some c" "devices_wf c"
  defines "a \<equiv> MoveFromPreviousGuestGPR REG_A0 s" and "x \<equiv> MoveFromPreviousGuestGPR REG_A1 s"
  defines "inside \<equiv> \<exists>d\<in>set (devices c). unat (start_addr d) \<le> unat a \<and> unat a \<le> unat (start_addr d) + unat (dm_size d)"
  shows "(\<not> inside \<longrightarrow> read_address s = Some s \<and>
      write_address s = Some (MoveToPreviousGuestGPR REG_V0 HCALL_ADDRESS_NOT_ALLOWED s)) \<and>
    (inside \<longrightarrow> a AND 3 = 0 \<longrightarrow> 0xA0000000 \<le> a \<longrightarrow> a < 0xC0000000 \<longrightarrow> ram_size (conf s) \<le> a AND 0x1FFFFFFF \<longrightarrow>
      write_address s = Some (MoveToPreviousGuestGPR REG_V0 0 (dev_write (a AND 0x1FFFFFFF) x s)) \<and>
      read_address s = Some (case dev_read (a AND 0x1FFFFFFF) s of (y, s1) \<Rightarrow> MoveToPreviousGuestGPR REG_V0 y s1))"
  using write_address_eq [OF assms(1,2)] read_address_eq [OF assms(1,2)] st32_device [of a s x] ld32_device [of a s]
  unfolding a_def x_def inside_def admitted_def [symmetric] by (auto split: prod.split)

theorem device_guard_witness:
  "read_address (demo_call 0xBF830000 0 0) = Some (demo_call 0xBF830000 0 0) \<and>
   write_address (demo_call 0xBF822004 5 0) =
     Some (MoveToPreviousGuestGPR REG_V0 0 (dev_write 0x1F822004 5 (demo_call 0xBF822004 5 0)))"
proof -
  have c: "caller_conf (demo_call x y z) = Some (demo_vmconf 0x80100000 50)" for x y z
    by (simp add: caller_conf_def cur_vcpu_def demo_call_def demo_def arr_get_def)
  have d: "devices_wf (demo_vmconf 0x80100000 50)" by (simp add: devices_wf_def demo_vmconf_def)
  have a: "\<exists>d\<in>set (devices (demo_vmconf 0x80100000 50)).
      unat (start_addr d) \<le> unat (0xBF822004 :: u32) \<and> unat (0xBF822004 :: u32) \<le> unat (start_addr d) + unat (dm_size d)"
    "\<not> (\<exists>d\<in>set (devices (demo_vmconf 0x80100000 50)).
      unat (start_addr d) \<le> unat (0xBF830000 :: u32) \<and> unat (0xBF830000 :: u32) \<le> unat (start_addr d) + unat (dm_size d))"
    by (simp_all add: demo_vmconf_def)
  show ?thesis using device_guard [OF c d, of "0xBF830000" 0 0] device_guard [OF c d, of "0xBF822004" 5 0] a by simp
qed

text \<open>
  (C14) After the boot, \<open>virtual_io_init\<close> registers its two hypercalls and fills the driver's table so that the
  guard checks each VCPU against the configuration of its own VM.
\<close>

theorem device_table_matches_vms:
  assumes "boot_state cap b a s ps" "length ps \<le> 255" "NVMACHINES (conf s) = length ps" "length (vmconf_p s) = length ps"
    "hcall_wf s" "hypercall_table s ! 11 = None" "hypercall_table s ! 12 = None"
  shows "\<exists>t. virtual_io_init s = Some t \<and>
    hypercall_table t = (hypercall_table s)[11 := Some H_write_address, 12 := Some H_read_address] \<and>
    (\<forall>i<length ps. caller_conf (t\<lparr>vcpu_executing := Some (ps ! i)\<rparr>) = Some (VMCONF (conf s) ! i))"
  by (rule virtual_io_init_ok [OF assms]) (intro exI conjI allI impI, assumption+, simp)

theorem device_table_matches_vms_witness:
  "\<exists>s t ps. initializeMachines demo_reset = Some s \<and> virtual_io_init (s\<lparr>hypercall_table := replicate 30 None, vmconf_p := [None, None]\<rparr>) = Some t \<and>
     caller_conf (t\<lparr>vcpu_executing := Some (ps ! 1)\<rparr>) = Some (demo_vmconf 0x80200000 100)"
proof -
  obtain s ps a where s: "initializeMachines demo_reset = Some s" "boot_state (NVMACHINES (conf demo_reset)) 0x1000 a s ps"
    "length ps = NVMACHINES (conf demo_reset)" "conf s = conf demo_reset"
    by (rule initializeMachines_boot [OF demo_reset_ok])
  let ?s = "s\<lparr>hypercall_table := replicate 30 None, vmconf_p := [None, None]\<rparr>"
  have n: "NVMACHINES (conf demo_reset) = 2" "VMCONF (conf demo_reset) ! 1 = demo_vmconf 0x80200000 100"
    by (simp_all add: demo_reset_def demo_def demo_conf_def)
  have b: "boot_state (NVMACHINES (conf demo_reset)) 0x1000 a ?s ps" by (rule boot_state_cong [OF s(2)]) simp_all
  obtain t where t: "virtual_io_init ?s = Some t" "\<forall>i<length ps. caller_conf (t\<lparr>vcpu_executing := Some (ps ! i)\<rparr>) = Some (VMCONF (conf ?s) ! i)"
    using device_table_matches_vms [OF b] s(3,4) n(1) by (auto simp: hcall_wf_def)
  then have "caller_conf (t\<lparr>vcpu_executing := Some (ps ! 1)\<rparr>) = Some (demo_vmconf 0x80200000 100)"
    using s(3,4) n by simp
  then show ?thesis using s(1) t(1) by blast
qed

text \<open>
  (C15) \<open>uart_send\<close> (PIC32MZ) writes a prefix of the buffer, in order, to the transmit register. The prefix ends where the
  hardware queue is full: the status register (read once before each character) has the bit UTXBF clear for each character sent and
  set for the first one that is not. What does not fit
  is filed as the transfer of the VCPU, with the position it has come to, and the VCPU is blocked; while
  another transfer is active nothing is sent at once. \<open>v0\<close> is the size, not the 1 that
  \<open>hypercall_defines.h\<close> promises, and no memory changes.
\<close>

theorem uart_send_prefix:
  assumes "window_ready s m" "vcpu_executing s = Some p" "vcpus s p = Some v"
    "unat (vc_ident v - 1) < length (transfers s)" "uart_regs_ok s"
    "guest_buffer s m (MoveFromPreviousGuestGPR REG_A0 s) (MoveFromPreviousGuestGPR REG_A1 s)"
  defines "n \<equiv> MoveFromPreviousGuestGPR REG_A1 s" and "pa \<equiv> guest_phys (base_addr m) (MoveFromPreviousGuestGPR REG_A0 s)"
  shows "\<exists>k t. k \<le> unat n \<and> uart_send s = Some t \<and> MoveFromPreviousGuestGPR REG_V0 t = n \<and>
    sent t = sent s @ map char_word (bytes_at (mem s) pa k) \<and> (0 \<le> active_transfer s \<longrightarrow> k = 0) \<and>
    (\<forall>j<k. \<not> queue_full s j) \<and> (active_transfer s < 0 \<and> k < unat n \<longrightarrow> queue_full s k) \<and>
    (k = unat n \<longrightarrow> transfers t = transfers s \<and> vcpus t = vcpus s) \<and>
    (k < unat n \<longrightarrow> transfers t = (transfers s)[unat (vc_ident v - 1) :=
       \<lparr>buf_addr = MoveFromPreviousGuestGPR REG_A0 s, next_character = of_nat k, tr_size = n, tr_vcpu = Some p\<rparr>] \<and>
       vcpus t = (vcpus s)(p \<mapsto> v\<lparr>state := VCPU_BLOCKED\<rparr>) \<and>
       active_transfer t = (if active_transfer s < 0 then sint (vc_ident v - 1) else active_transfer s)) \<and>
    mem t = mem s"
  unfolding n_def pa_def by (rule uart_send_ok [OF assms(1-6)]) (intro exI conjI impI allI, assumption, assumption, simp_all)

theorem uart_send_prefix_witness:
  "\<exists>t. uart_send (demo_call 0x80000010 2 0) = Some t \<and> sent t = map char_word [0x10, 0x11]"
proof -
  let ?s = "demo_call 0x80000010 2 0" and ?m = "demo_vm 1 (demo_vmconf 0x80100000 50)"
  have g: "guest_buffer ?s ?m (MoveFromPreviousGuestGPR REG_A0 ?s) (MoveFromPreviousGuestGPR REG_A1 ?s)"
    unfolding demo_call_simps(7,8) by (rule demo_buffer) simp_all
  have r: "uart_regs_ok ?s"
    by (simp add: uart_regs_ok_def demo_conf_def IECSET_def IECCLR_def IFSCLR_def PIC32MZ_PBASE_def uart_irq_reg_def)
  have t: "unat (vc_ident (demo_vcpu 1 50 10) - 1) < length (transfers ?s)" by (simp add: demo_call_def demo_def)
  have s0: "sent ?s = []" by (simp add: sent_def demo_call_def demo_def)
  have bs: "bytes_at (mem (demo BAIKAL_T1)) (guest_phys 0x80100000 0x80000010) k = take k [0x10, 0x11]" if "k \<le> 2" for k
    using that by (rule demo_bytes)
  have ex: "vcpu_executing ?s = Some 100" "vcpus ?s 100 = Some (demo_vcpu 1 50 10)" by simp_all
  have v: "vol_n ?s = 0" "active_transfer ?s = - 1" by (simp_all add: demo_call_def demo_def)
  have q: "\<not> queue_full ?s j" if "j < 2" for j
    using that by (simp add: queue_full_def v demo_conf_def)
  obtain k t where k: "k \<le> unat (MoveFromPreviousGuestGPR REG_A1 ?s)" "uart_send ?s = Some t"
    "sent t = sent ?s @ map char_word (bytes_at (mem ?s) (guest_phys (base_addr ?m) (MoveFromPreviousGuestGPR REG_A0 ?s)) k)"
    "active_transfer ?s < 0 \<and> k < unat (MoveFromPreviousGuestGPR REG_A1 ?s) \<longrightarrow> queue_full ?s k"
    using uart_send_prefix [OF demo_window ex t r g] by blast
  have "k = 2" using k(1,4) q [of k] v(2) by (cases "k < 2") simp_all
  then show ?thesis using k bs [of 2] s0 by (intro exI [of _ t]) simp
qed

text \<open>
  (C16) \<open>transfer_tx_done\<close> continues the active transfer where it stopped: the next characters of the same buffer, in
  order, until the status register shows a full queue. When the last one is out, the VCPU is runnable again, its slot is free and the first filed
  transfer (in index order), if any, becomes the active one.
\<close>

theorem uart_interrupt_continues:
  assumes "active_transfer s = int j" "j < length (transfers s)" "length (transfers s) = NVMACHINES (conf s)"
      "length (transfers s) < 2 ^ 32"
    and "transfers s ! j = \<lparr>buf_addr = addr, next_character = i, tr_size = n, tr_vcpu = Some p\<rparr>" "i \<le> n"
    and "vcpus s p = Some v" "vms s (vc_vm v) = Some m" "vm_window s m" "guest_buffer s m addr n" "uart_regs_ok s"
  shows "\<exists>k s'. k \<le> unat n - unat i \<and> transfer_tx_done s = Some s' \<and>
    sent s' = sent s @ map char_word (bytes_at (mem s) (guest_phys (base_addr m) addr + i) k) \<and>
    (\<forall>x<k. \<not> queue_full s x) \<and> (unat i + k < unat n \<longrightarrow> queue_full s k) \<and>
    (unat i + k < unat n \<longrightarrow> vcpus s' = vcpus s \<and> active_transfer s' = int j \<and>
       transfers s' = (transfers s)[j := \<lparr>buf_addr = addr, next_character = i + of_nat k, tr_size = n, tr_vcpu = Some p\<rparr>]) \<and>
    (unat i + k = unat n \<longrightarrow> vcpus s' = (vcpus s)(p \<mapsto> v\<lparr>state := VCPU_RUNNING\<rparr>) \<and>
       transfers s' = (transfers s)[j := \<lparr>buf_addr = addr, next_character = n, tr_size = n, tr_vcpu = None\<rparr>] \<and>
       active_transfer s' = (case find (\<lambda>x. tr_vcpu (transfers s' ! x) \<noteq> None) [0..<NVMACHINES (conf s)] of
          None \<Rightarrow> - 1 | Some x \<Rightarrow> int x)) \<and> mem s' = mem s"
  by (rule transfer_tx_done_ok [OF assms]) (intro exI conjI impI allI, assumption, assumption, simp_all)

theorem uart_interrupt_continues_witness:
  "\<exists>k s'. k \<le> 1 \<and> transfer_tx_done ((demo PIC32MZ)\<lparr>active_transfer := 0,
     transfers := [\<lparr>buf_addr = 0x80000010, next_character = 1, tr_size = 2, tr_vcpu = Some 100\<rparr>, zero_transfer]\<rparr>) = Some s' \<and>
     sent s' = map char_word (take k [0x11])"
proof -
  let ?s = "(demo PIC32MZ)\<lparr>active_transfer := 0,
     transfers := [\<lparr>buf_addr = 0x80000010, next_character = 1, tr_size = 2, tr_vcpu = Some 100\<rparr>, zero_transfer]\<rparr>"
  let ?m = "demo_vm 1 (demo_vmconf 0x80100000 50)"
  have g: "guest_buffer ?s ?m 0x80000010 2"
    by (rule demo_buffer) simp_all
  have r: "uart_regs_ok ?s"
    by (simp add: uart_regs_ok_def demo_conf_def IECSET_def IECCLR_def IFSCLR_def PIC32MZ_PBASE_def uart_irq_reg_def)
  have w: "vm_window ?s ?m" using demo_window_slot [of PIC32MZ] by (simp add: vm_window_def window_slot_def)
  have s0: "sent ?s = []" by (simp add: sent_def demo_def)
  have bs: "bytes_at (mem (demo PIC32MZ)) (guest_phys 0x80100000 0x80000010 + 1) k = take k [0x11]" if "k \<le> 1" for k
  proof -
    have "k = 0 \<or> k = 1" using that by auto
    then show ?thesis by (auto simp: bytes_at_def guest_phys_def demo_def upt_conv_Cons)
  qed
  have a: "active_transfer ?s = int 0" "0 < length (transfers ?s)" "length (transfers ?s) = NVMACHINES (conf ?s)"
    "length (transfers ?s) < 2 ^ 32" by simp_all
  have t: "transfers ?s ! 0 = \<lparr>buf_addr = 0x80000010, next_character = 1, tr_size = 2, tr_vcpu = Some 100\<rparr>" "(1 :: u32) \<le> 2" by simp_all
  have v: "vcpus ?s 100 = Some (demo_vcpu 1 50 10)" "vms ?s (vc_vm (demo_vcpu 1 50 10)) = Some ?m" by simp_all
  obtain k s' where "k \<le> unat (2 :: u32) - unat (1 :: u32)" "transfer_tx_done ?s = Some s'"
    "sent s' = sent ?s @ map char_word (bytes_at (mem ?s) (guest_phys (base_addr ?m) 0x80000010 + 1) k)"
    using uart_interrupt_continues [OF a t v w g r] by blast
  then show ?thesis using bs s0 by (intro exI [of _ k] exI [of _ s']) simp
qed





text \<open>
  (C19) The tables of pointers. \<open>register_hypercall\<close> refuses a code outside the table with -1 and a taken code with
  -2, without any change; otherwise it returns the code, which is 0 for code 0 although the comment promises
  a value greater than zero, and from then on the dispatcher runs the function for this code. A code that was
  never registered, and every code above 29, returns \<open>HCALL_NOT_IMPLEMENTED\<close> in \<open>v0\<close> and changes nothing else.
  \<open>register_interrupt\<close> (PIC32MZ) puts the handler into the first free of the ten slots and returns the offset
  of its vector; with all slots taken it returns 0 and changes nothing.
\<close>

theorem hypercall_tables:
  fixes s :: hv and f :: hypercall_t and code :: u32
  assumes "hcall_wf s" "length (interrupt_handlers s) = 10"
  defines "t \<equiv> snd (register_hypercall f code s)"
  shows "(if 30 \<le> unat code then register_hypercall f code s = (- 1, s)
      else case hypercall_table s ! unat code of
         Some g \<Rightarrow> register_hypercall f code s = (- 2, s)
       | None \<Rightarrow> fst (register_hypercall f code s) = int (unat code) \<and> hcall_wf t \<and>
           (\<forall>call. getHypercallCode t = code \<longrightarrow> hypercall_execution call t = call f t)) \<and>
    (\<forall>call. 30 \<le> unat (getHypercallCode s) \<or> hypercall_table s ! unat (getHypercallCode s) = None \<longrightarrow>
       hypercall_execution call s = Some (MoveToPreviousGuestGPR REG_V0 HCALL_NOT_IMPLEMENTED s)) \<and>
    ((\<exists>i<10. interrupt_handlers s ! i = None \<and> (\<forall>j<i. interrupt_handlers s ! j \<noteq> None) \<and>
       register_interrupt h s = (0x220 + of_nat i * 32, s\<lparr>interrupt_handlers := (interrupt_handlers s)[i := Some h]\<rparr>)) \<or>
     (\<forall>i<10. interrupt_handlers s ! i \<noteq> None) \<and> register_interrupt h s = (0, s))"
proof (intro conjI)
  note reg = register_hypercall_cases [OF assms(1), of f code]
  have run: "hypercall_execution call u = (case (if unat (getHypercallCode u) < length (hypercall_table u)
      then hypercall_table u ! unat (getHypercallCode u) else None) of
        None \<Rightarrow> Some (MoveToPreviousGuestGPR REG_V0 HCALL_NOT_IMPLEMENTED u) | Some k \<Rightarrow> call k u)" if "hcall_wf u" for call u
    using that by (auto simp: hypercall_execution_def hcall_wf_def Let_def word_less_nat_alt split: option.split)
  have len: "length (hypercall_table s) = 30" using assms(1) by (simp add: hcall_wf_def)
  show "if 30 \<le> unat code then register_hypercall f code s = (- 1, s)
      else case hypercall_table s ! unat code of
         Some g \<Rightarrow> register_hypercall f code s = (- 2, s)
       | None \<Rightarrow> fst (register_hypercall f code s) = int (unat code) \<and> hcall_wf t \<and>
           (\<forall>call. getHypercallCode t = code \<longrightarrow> hypercall_execution call t = call f t)"
    using reg run [of t] len assms(1) by (auto simp: t_def hcall_wf_def split: option.split)
  show "\<forall>call. 30 \<le> unat (getHypercallCode s) \<or> hypercall_table s ! unat (getHypercallCode s) = None \<longrightarrow>
       hypercall_execution call s = Some (MoveToPreviousGuestGPR REG_V0 HCALL_NOT_IMPLEMENTED s)"
    using run [OF assms(1)] len by auto
qed (rule register_interrupt_ok [OF assms(2)])

theorem hypercall_tables_witness:
  "fst (register_hypercall H_get_vm_id 0 (demo PIC32MZ)) = 0 \<and> register_hypercall H_get_vm_id 30 (demo PIC32MZ) = (- 1, demo PIC32MZ) \<and>
   (\<exists>i<10. fst (register_interrupt I_transfer_tx_done (demo PIC32MZ)) = 0x220 + of_nat i * 32)"
proof -
  have w: "hcall_wf (demo PIC32MZ)" "length (interrupt_handlers (demo PIC32MZ)) = 10"
    "hypercall_table (demo PIC32MZ) ! 0 = None" "interrupt_handlers (demo PIC32MZ) ! 0 = None"
    by (simp_all add: hcall_wf_def demo_def)
  then have "\<not> (\<forall>i<10. interrupt_handlers (demo PIC32MZ) ! i \<noteq> None)" by (metis zero_less_numeral)
  then have "\<exists>i<10. fst (register_interrupt I_transfer_tx_done (demo PIC32MZ)) = 0x220 + of_nat i * 32"
    using hypercall_tables [OF w(1,2), of 0 H_get_vm_id I_transfer_tx_done, THEN conjunct2, THEN conjunct2] by (metis fst_conv)
  moreover have "fst (register_hypercall H_get_vm_id 0 (demo PIC32MZ)) = 0"
    using hypercall_tables [OF w(1,2), of 0 H_get_vm_id, THEN conjunct1] w(3) by (simp split: option.split_asm)
  moreover have "register_hypercall H_get_vm_id 30 (demo PIC32MZ) = (- 1, demo PIC32MZ)"
    using hypercall_tables [OF w(1,2), of 30 H_get_vm_id, THEN conjunct1] by simp
  ultimately show ?thesis by blast
qed

text \<open>
  (C20) The emulation of the privileged moves of the Baikal port. \<open>mfc0 rt, rd, sel\<close> hands \<open>rt\<close> the value of the register,
  without the shadow sets for \<open>SRSCtl\<close>. \<open>mtc0 rt, rd\<close> to a watch register writes the general register with the
  number \<open>rd\<close>, not \<open>rt\<close>.
\<close>

theorem emulated_moves:
  assumes "c_port (conf s) = BAIKAL_T1" "rt AND mask 5 = rt"
  shows "(rd = 18 \<or> rd = 19 \<longrightarrow> getBadInstruction s = mtc0_code rt rd 0 \<longrightarrow>
      instruction_emulation epc s = (0, mtgc0 (unat rd) 0 (MoveFromPreviousGuestGPR (unat rd) s) s)) \<and>
    (getBadInstruction s = move_code 0x10 0 rt rd sel \<longrightarrow> (rd, sel) \<in> {(12, 2), (15, 0), (18, 0), (19, 0), (18, 1), (19, 1)} \<longrightarrow>
      instruction_emulation epc s = (0, MoveToPreviousGuestGPR (unat rt)
        (if rd = 12 then mfc0 CP0_SRSCTL 2 s AND NOT SRSCTL_HSS else if rd = 15 then mfc0 CP0_PRID 0 s
         else if sel = 1 then 0 else mfgc0 (unat rd) 0 s) s))"
  using emulated_mtc0 [OF assms] emulated_mfc0 [OF assms] by blast

theorem emulated_moves_witness:
  "instruction_emulation 0 ((demo_call 1 2 3)\<lparr>cp0 := (\<lambda>_. mtc0_code 9 18 0), frame := (\<lambda>r. of_nat r)\<rparr>) =
   (0, mtgc0 18 0 18 ((demo_call 1 2 3)\<lparr>cp0 := (\<lambda>_. mtc0_code 9 18 0), frame := (\<lambda>r. of_nat r)\<rparr>))"
proof -
  let ?s = "(demo_call 1 2 3)\<lparr>cp0 := (\<lambda>_. mtc0_code 9 18 0), frame := (\<lambda>r. of_nat r)\<rparr>"
  have p: "c_port (conf ?s) = BAIKAL_T1" "(9 :: u32) AND mask 5 = 9" by (simp_all add: mask_eq_exp_minus_1)
  have i: "getBadInstruction ?s = mtc0_code 9 18 0" by (simp add: getBadInstruction_def mfc0_def)
  have g: "MoveFromPreviousGuestGPR 18 ?s = 18" by (simp add: MoveFromPreviousGuestGPR_def)
  from emulated_moves [OF p, of 18 0 0] i g show ?thesis by simp
qed

subsection \<open>The library of the kernel\<close>

text \<open>
  (C21) The ring buffer implements a bounded list: \<open>queue_addtail\<close> appends while there is room and refuses a full ring with
  -1, \<open>queue_remhead\<close> takes the first element and answers null for an empty ring, \<open>queue_get\<close>, \<open>queue_set\<close> and
  \<open>queue_swap\<close> access by index, wherever the ring has wrapped.
\<close>

theorem ring_refines_list:
  assumes "ring_inv q"
  shows "queue_count q = int (length (ring_items q)) \<and>
    (if length (ring_items q) < ring_cap q
     then \<exists>q'. queue_addtail q x = Some (0, q') \<and> ring_inv q' \<and> ring_items q' = ring_items q @ [x] \<and> ring_cap q' = ring_cap q
     else queue_addtail q x = Some (- 1, q)) \<and>
    (case ring_items q of
       [] \<Rightarrow> queue_remhead q = Some (None, q)
     | y # ys \<Rightarrow> \<exists>q'. queue_remhead q = Some (Some y, q') \<and> ring_inv q' \<and> ring_items q' = ys \<and> ring_cap q' = ring_cap q) \<and>
    (\<forall>i<length (ring_items q). queue_get q (int i) = Some (Some (ring_items q ! i)) \<and>
      (\<exists>q'. queue_set q (int i) x = Some (0, q') \<and> ring_inv q' \<and> ring_items q' = (ring_items q)[i := x]) \<and>
      (\<forall>j<length (ring_items q). \<exists>q'. queue_swap q (int i) (int j) = Some (0, q') \<and> ring_inv q' \<and>
         ring_items q' = (ring_items q)[i := ring_items q ! j, j := ring_items q ! i]))"
proof -
  have full: "length (ring_items q) = ring_cap q" if "\<not> length (ring_items q) < ring_cap q"
    using rq.items_cap [OF assms] that by simp
  have idx: "queue_get q (int i) = Some (Some (ring_items q ! i)) \<and>
      (\<exists>q'. queue_set q (int i) x = Some (0, q') \<and> ring_inv q' \<and> ring_items q' = (ring_items q)[i := x]) \<and>
      (\<forall>j<length (ring_items q). \<exists>q'. queue_swap q (int i) (int j) = Some (0, q') \<and> ring_inv q' \<and>
         ring_items q' = (ring_items q)[i := ring_items q ! j, j := ring_items q ! i])"
    if i: "i < length (ring_items q)" for i
    using rq.get_nth [OF assms i] ring_set_ok [OF assms i, of x] ring_swap_ok [OF assms i] by blast
  have head: "case ring_items q of [] \<Rightarrow> queue_remhead q = Some (None, q)
     | y # ys \<Rightarrow> \<exists>q'. queue_remhead q = Some (Some y, q') \<and> ring_inv q' \<and> ring_items q' = ys \<and> ring_cap q' = ring_cap q"
    using rq.remhead_none [OF assms] rq.remhead_some [OF assms] by (cases "ring_items q") simp_all
  show ?thesis using rq.count_items [OF assms] rq.addtail_room [OF assms] rq.addtail_full [OF assms full] head idx by simp
qed

theorem ring_refines_list_witness:
  "queue_addtail demo_ring 300 = Some (- 1, demo_ring) \<and> queue_get demo_ring 1 = Some (Some 200)"
  using ring_refines_list [OF demo_ring_ok(1), of 300] demo_ring_ok(2,3) by auto

text \<open>
  (C22) The allocator while the free list is one block (as during the boot): a request that fits is answered by a block
  inside the heap; the next one is answered by a block below it; freeing a block right away restores the free
  list; a request that does not fit is answered by null. An exact fit of the only block is handed out twice:
  \<open>malloc\<close> unlinks it by writing its own list pointer, so the free list is unchanged.
\<close>

theorem heap_blocks:
  assumes "heap_ready h b a" "unat s1 + 7 < 2 ^ 32" "unat s2 + 7 < 2 ^ 32" "alloc_cost s1 + alloc_cost s2 < a"
  shows "\<exists>p q h1 h2 h3. malloc s1 h = Some (Some p, h1) \<and> malloc s2 h1 = Some (Some q, h2) \<and>
    b + 8 \<le> q \<and> q + unat s2 \<le> p \<and> p + unat s1 \<le> b + a \<and>
    free p h1 = Some h3 \<and> heap_ready h3 b a \<and>
    (\<forall>sz. a < 8 * unat (nunits_of sz) \<longrightarrow> malloc sz h = Some (None, h)) \<and>
    (\<forall>sz. 8 * unat (nunits_of sz) = a \<longrightarrow>
       (\<exists>h1 h2. malloc sz h = Some (Some (b + 8), h1) \<and> malloc sz h1 = Some (Some (b + 8), h2)))"
proof -
  have c1: "alloc_cost s1 < a" and c2: "alloc_cost s2 < a - alloc_cost s1" using assms(4) by auto
  obtain p h1 where 1: "malloc s1 h = Some (Some p, h1)" "heap_ready h1 b (a - alloc_cost s1)" "p + unat s1 \<le> b + a"
    by (rule kr.alloc_inside [OF assms(1,2) c1]) blast
  obtain q h2 where 2: "malloc s2 h1 = Some (Some q, h2)" "b + 8 \<le> q"
    by (rule kr.alloc_inside [OF 1(2) assms(3) c2]) blast
  have ob: "one_block b (a div 8) h" "8 dvd a" using assms(1) by (simp_all add: heap_ready_def)
  have "unat (nunits_of s1) < a div 8"
    using c1 ob(2) assms(2) by (auto simp: alloc_cost_def unat_nunits_of)
  from malloc_free_one_block [OF ob(1) this 1(1)] obtain h3 where "free p h1 = Some h3" "heap_ready h3 b a"
    using ob(2) by (auto simp: heap_ready_def)
  moreover have "malloc sz h = Some (None, h)" if "a < 8 * unat (nunits_of sz)" for sz
    using malloc_one_block_none [OF ob(1), of sz] that ob(2) by auto
  moreover have "\<exists>h1 h2. malloc sz h = Some (Some (b + 8), h1) \<and> malloc sz h1 = Some (Some (b + 8), h2)"
    if "8 * unat (nunits_of sz) = a" for sz
  proof -
    have n: "unat (nunits_of sz) = a div 8" using that by auto
    show ?thesis using malloc_exact_fit [OF ob(1) n] malloc_exact_fit [OF _ n] by metis
  qed
  ultimately show ?thesis using kr.two_allocs_disjoint [OF assms 1(1) 2(1)] 1 2 by blast
qed

theorem heap_blocks_witness:
  "\<exists>p q h1 h2. malloc 20 demo_heap = Some (Some p, h1) \<and> malloc 100 h1 = Some (Some q, h2) \<and> q + 100 \<le> p"
  using heap_blocks [OF conjunct1 [OF demo_reset_ok(1) [unfolded reset_state_def]], of 20 100]
  by (auto simp: alloc_cost_def demo_reset_def)

subsection \<open>The USB and Ethernet drivers\<close>

text \<open>
  (C23) Well-formedness of the statics of the two large drivers, for every run that has a result (a run that leaves an array, where the
  code destroys its neighbours, has none: C25, C28 and C31 say when that happens to the calls of the guests, and the polling has a result exactly
  when a descriptor fits its 18 bytes). USB: the interrupt handler, the polling of both state
  machines and the two data hypercalls keep the buffers at their declared sizes with all indices inside, keep a
  running device connected with its descriptor available, an idle or faulty port disconnected, the number of
  retries at most five, and never enter \<open>TRANSFER_WAIT_TX_INT\<close>. Ethernet, both versions: the receive index stays in
  the ring of 48 descriptors, MAC addresses keep six bytes, the indices of the rings of the VMs stay below ten and
  point to frame buffers that exist, at most two VMs are registered. All of them keep the kernel relation, and the
  initialisers keep the invariants and the machines.
\<close>

theorem driver_statics_wf:
  assumes "usb_ok (usb s)" "eth_ok (eth s)"
  shows "usb_ok (usb (usb_int_handler s)) \<and> krel s (usb_int_handler s) \<and>
    (usb_polling s = None \<longleftrightarrow> dev_state s = READ_DESCRIPTOR \<and>
       18 < unat (received (descriptor_data (usb s))) + unat (fst (field_get USBIE0CSR2 0 7 s))) \<and>
    (\<forall>t. usb_polling s = Some t \<or> usb_send_data s = Some t \<or> get_descriptor s = Some t \<longrightarrow> usb_ok (usb t) \<and> krel s t) \<and>
    (\<forall>t. receive_frame s = Some t \<or> send_frame s = Some t \<or> en_watchdog s = Some t \<or> en_get_mac s = Some t \<or>
       receive_frame_shared s = Some t \<or> en_get_mac_shared s = Some t \<or> ethernet_interrupt_handler s = Some t \<longrightarrow>
       eth_ok (eth t) \<and> krel s t) \<and>
    (\<forall>t. usb_idle (usb s) \<and> (usb_start s = Some t \<or> en_init s = Some t \<or> en_init_shared s = Some t) \<longrightarrow>
       usb_idle (usb t) \<and> eth_ok (eth t) \<and> machines_same s t)"
proof -
  have "usb_ok (usb t) \<and> krel s t" if "usb_polling s = Some t \<or> usb_send_data s = Some t \<or> get_descriptor s = Some t" for t
    using that assms(1) usb_polling_ok [OF assms(1), of t] usb_send_data_ok [OF _ assms(1), of t]
      quiet_usb [OF get_descriptor_quiet, of s t] usb_calls_krel(1-3) [of s t]
    by metis
  moreover have "eth_ok (eth t) \<and> krel s t" if "receive_frame s = Some t \<or> send_frame s = Some t \<or> en_watchdog s = Some t \<or>
      en_get_mac s = Some t \<or> receive_frame_shared s = Some t \<or> en_get_mac_shared s = Some t \<or> ethernet_interrupt_handler s = Some t" for t
  proof -
    have "krel s t"
      using that eth_calls_krel receive_frame_shared_krel en_get_mac_shared_krel ethernet_interrupt_handler_krel by blast
    then show ?thesis using assms(2) by (simp add: krel_def)
  qed
  moreover have "usb_idle (usb t) \<and> eth_ok (eth t) \<and> machines_same s t"
    if "usb_idle (usb s)" "usb_start s = Some t \<or> en_init s = Some t \<or> en_init_shared s = Some t" for t
  proof -
    have "machines_same s t" using that(2) usb_start_same en_init_same en_init_shared_same by blast
    then show ?thesis using that(1) assms(2) by (simp add: machines_same_def)
  qed
  ultimately show ?thesis using usb_polling_fails [OF assms(1)] usb_int_handler_ok [OF assms(1)] usb_calls_krel(4) by blast
qed

theorem driver_statics_wf_witness: "usb_ok (usb (usb_int_handler (demo_eth 0)))"
proof -
  have "usb_ok (usb (demo_eth 0))" using usb_reset_idle by (simp add: demo_eth_def demo_call_def demo_def usb_idle_def)
  from driver_statics_wf [OF this demo_eth_ok(1)] show ?thesis by simp
qed



text \<open>
  (C25) The bounds of the USB buffers. A guest buffer of at most 64 bytes is copied into \<open>buffer_tx\<close> and starts a
  transfer, also when one is active: the busy code is overwritten by the size. A size from 65 to 2^31 - 1 makes
  the copy run past the buffer. A packet from the device is appended to the descriptor when it fits the 18
  bytes; a longer one is written past the array.
\<close>

theorem usb_bounds:
  assumes "usb_ok (usb s)"
  shows "(window_ready s m \<and> MoveFromPreviousGuestGPR REG_A1 s \<le> 64 \<and>
      guest_buffer s m (MoveFromPreviousGuestGPR REG_A0 s) (MoveFromPreviousGuestGPR REG_A1 s) \<longrightarrow>
      (\<exists>t. usb_send_data s = Some t \<and> transfer_state t = TRANSFER_START \<and>
        take (unat (MoveFromPreviousGuestGPR REG_A1 s)) (buffer_tx (usb t)) =
          bytes_at (mem s) (guest_phys (base_addr m) (MoveFromPreviousGuestGPR REG_A0 s)) (unat (MoveFromPreviousGuestGPR REG_A1 s)) \<and>
        MoveFromPreviousGuestGPR REG_V0 t = MoveFromPreviousGuestGPR REG_A1 s)) \<and>
    (64 < MoveFromPreviousGuestGPR REG_A1 s \<and> MoveFromPreviousGuestGPR REG_A1 s < 0x80000000 \<longrightarrow> usb_send_data s = None) \<and>
    (let d = descriptor_data (usb s); n = unat (fst (field_get USBIE0CSR2 0 7 s)) in
      if unat (received d) + n \<le> 18
      then \<exists>bs d' t. length bs = n \<and> read_descriptor d s = Some (d', t) \<and>
        descriptor d' = take (unat (received d)) (descriptor d) @ bs @ drop (unat (received d) + n) (descriptor d) \<and>
        unat (received d') = unat (received d) + n
      else read_descriptor d s = None)"
proof -
  have d: "length (descriptor (descriptor_data (usb s))) = 18" "received (descriptor_data (usb s)) \<le> 18"
    using assms by (simp_all add: usb_ok_def)
  have "\<exists>t. usb_send_data s = Some t \<and> transfer_state t = TRANSFER_START \<and>
        take (unat (MoveFromPreviousGuestGPR REG_A1 s)) (buffer_tx (usb t)) =
          bytes_at (mem s) (guest_phys (base_addr m) (MoveFromPreviousGuestGPR REG_A0 s)) (unat (MoveFromPreviousGuestGPR REG_A1 s)) \<and>
        MoveFromPreviousGuestGPR REG_V0 t = MoveFromPreviousGuestGPR REG_A1 s"
    if "window_ready s m" "MoveFromPreviousGuestGPR REG_A1 s \<le> 64"
      "guest_buffer s m (MoveFromPreviousGuestGPR REG_A0 s) (MoveFromPreviousGuestGPR REG_A1 s)"
    by (rule usb_send_data_takes [OF that(1) assms that(2,3)]) (auto simp: bytes_at_def)
  then show ?thesis
    using usb_send_data_overflow [OF _ _ assms] read_descriptor_cases [OF d, of s] unfolding Let_def by blast
qed

theorem usb_bounds_witness:
  "usb_send_data (demo_call 0x80000010 100 0) = None \<and> (\<exists>t. usb_send_data (demo_call 0x80000010 2 0) = Some t)"
proof -
  have ok: "usb_ok (usb (demo_call 0x80000010 n 0))" for n
    using usb_reset_idle by (simp add: demo_call_def demo_def usb_idle_def)
  have g: "guest_buffer (demo_call 0x80000010 2 0) (demo_vm 1 (demo_vmconf 0x80100000 50)) 0x80000010 2"
    by (rule demo_buffer) simp_all
  show ?thesis
    using usb_bounds [OF ok, of 100] usb_bounds [OF ok, of 2 "demo_vm 1 (demo_vmconf 0x80100000 50)"] demo_window g
    unfolding demo_call_simps(7,8) by fastforce
qed

text \<open>
  (C26) A transfer takes three polls of a running device: the first sends the eight bytes of the vendor request, the
  second the first three bytes of the buffer, the third makes the driver idle again. The FIFO receives these
  bytes in this order and nothing else, whatever the size of the message was.
\<close>

theorem usb_transfer_three_polls:
  assumes "usb_ok (usb s)" "dev_state s = RUNNING" "transfer_state s = TRANSFER_START"
  shows "\<exists>s1 s2 s3. usb_polling s = Some s1 \<and> usb_polling s1 = Some s2 \<and> usb_polling s2 = Some s3 \<and>
    transfer_state s1 = TRANSFER_SENDING \<and> transfer_state s2 = TRANSFER_DONE \<and> transfer_state s3 = TRANSFER_IDLE \<and>
    dev_state s3 = RUNNING \<and> MoveFromPreviousGuestGPR REG_V0 s3 = 1 \<and>
    fifo_sent s3 = fifo_sent s @ [0x40, 6, 0, 1, 0, 0, 3, 0] @ map ucast (take 3 (buffer_tx (usb s)))"
  by (rule usb_three_polls [OF assms]) (intro exI conjI, assumption+)

theorem usb_transfer_three_polls_witness:
  "\<exists>s1 s2 s3. usb_polling (demo_usb [1, 2, 3]) = Some s1 \<and> usb_polling s1 = Some s2 \<and> usb_polling s2 = Some s3 \<and>
     fifo_sent s3 = [0x40, 6, 0, 1, 0, 0, 3, 0, 1, 2, 3]"
proof -
  have e: "fifo_sent (demo_usb [1, 2, 3]) = []" "take 3 (buffer_tx (usb (demo_usb [1, 2, 3]))) = [1, 2, 3]"
    by (simp_all add: fifo_sent_def demo_usb_def demo_def)
  show ?thesis
    using usb_transfer_three_polls [OF demo_usb_ok [of "[1, 2, 3]"]] e by fastforce
qed

text \<open>
  (C27) Reception. With the link up and a packet waiting in the ring, \<open>receive_frame\<close> returns: \<open>v0\<close> is the size of the
  packet, the bytes of its parts arrive in order in the guest's buffer, all its descriptors and no others go
  back to the controller, the index stands behind the packet, and nothing else in memory changes. The copy ends
  early when the bytes read equal the bytes left: a packet of a multiple of 256 bytes arrives only half,
  \<open>delivered_size\<close>, though its full size is returned.
\<close>

theorem ethernet_receive:
  fixes s m P segs
  defines "dp \<equiv> guest_phys (base_addr m) (MoveFromPreviousGuestGPR REG_A0 s)" and "k \<equiv> delivered_size (seg_total segs)"
  assumes win: "window_ready s m" "guest_buffer s m (MoveFromPreviousGuestGPR REG_A0 s) MTU"
    and eth: "is_up (eth_port (eth s)) \<noteq> 0" "rx_ring s P" "packet_waiting s P segs" "rx_separate P dp segs"
  shows "\<exists>t. receive_frame s = Some t \<and> MoveFromPreviousGuestGPR REG_V0 t = of_nat (seg_total segs) \<and>
    bytes_at (mem t) dp k = take k (seg_bytes (mem s) segs) \<and>
    (\<forall>i<48. (desc_hdr (mem t) P i AND 0x80 \<noteq> 0) = (i \<in> fst ` set segs \<or> desc_hdr (mem s) P i AND 0x80 \<noteq> 0)) \<and>
    receive_index (eth t) = of_nat ((fst (last segs) + 1) mod 48) \<and>
    (\<forall>a. (\<forall>j<k. a \<noteq> dp + of_nat j) \<and> (\<forall>j<784. a \<noteq> P + of_nat j) \<longrightarrow> mem t a = mem s a)"
proof -
  obtain s1 where r: "receive_frame s = Some (MoveToPreviousGuestGPR REG_V0 (of_nat (seg_total segs)) (received_state s1 P dp segs))"
    "eth s1 = eth s" "mem s1 = mem s"
    unfolding dp_def by (rule receive_frame_packet [OF win eth(1-3)]) (use eth(4) in \<open>simp_all add: dp_def\<close>)
  have m: "mem (received_state s1 P dp segs) = mem (received_state s P dp segs)" by (simp add: received_state_def r(3))
  have "dma_ram s P 784" using eth(2) by (simp add: rx_ring_def)
  note fx = received_mem [OF eth(3,4) this, folded k_def]
  show ?thesis
    using r(1) fx by (simp add: MoveFrom_MoveTo hv_simps m) (simp add: received_state_def)
qed

theorem ethernet_receive_witness:
  "\<exists>t. receive_frame (demo_eth 0) = Some t \<and> MoveFromPreviousGuestGPR REG_V0 t = 60 \<and> mem t 0x100013 = 3"
proof -
  let ?m = "demo_vm 1 (demo_vmconf 0x80100000 50)" and ?segs = "[(0, 0xD000, 60)] :: (nat \<times> u32 \<times> nat) list"
  have g: "guest_buffer (demo_eth 0) ?m (MoveFromPreviousGuestGPR REG_A0 (demo_eth 0)) MTU"
    unfolding demo_eth_simps by (rule demo_buffer) simp_all
  have gp: "guest_phys (base_addr ?m) (MoveFromPreviousGuestGPR REG_A0 (demo_eth 0)) = 0x100010" by (simp add: guest_phys_def)
  have sep: "rx_separate 0xB000 0x100010 ?segs"
    using apart_less [of "0xB000" 784 "0x100010" 60] apart_less [of "0xD000" 60 "0x100010" 60] by (simp add: rx_separate_def seg_total_def)
  have "is_up (eth_port (eth (demo_eth 0))) \<noteq> 0" by (simp add: demo_eth_ok)
  from ethernet_receive [OF demo_eth_window g this demo_eth_rings(1) demo_eth_packet, unfolded gp, OF sep]
  obtain t where t: "receive_frame (demo_eth 0) = Some t" "MoveFromPreviousGuestGPR REG_V0 t = 60"
    "bytes_at (mem t) 0x100010 60 = take 60 (seg_bytes demo_eth_mem ?segs)"
    by (auto simp: seg_total_def delivered_size_def)
  have "mem t 0x100013 = bytes_at (mem t) 0x100010 60 ! 3" by (simp add: bytes_at_def)
  also have "\<dots> = demo_eth_mem (0xD000 + of_nat 3)" unfolding t(3) by (simp add: seg_bytes_def bytes_at_def)
  also have "\<dots> = of_nat 3" by (rule demo_eth_bytes) simp
  finally show ?thesis using t(1,2) by simp
qed

text \<open>
  (C28) Transmission. A frame of 1 to 1536 bytes arrives unchanged in the transmit buffer; descriptor 0 is a packet
  of its own, owned by the controller, with the size and the physical address of the buffer. The accesses to the
  controller are, in this order, the test that it is idle, the address of the ring and the request; the memory at the time of the
  request (\<open>tx_view\<close>, what the controller finds) has the frame and the descriptor, so both are complete before it. \<open>v0\<close> is the
  size. The size the guest asks for is checked only after the copy: one above 1536 writes behind the buffer.
\<close>

theorem ethernet_send:
  fixes s m Q
  defines "B \<equiv> MACH_VIRT_TO_PHYS (tx_buf_addr (conf s))" and "n \<equiv> MoveFromPreviousGuestGPR REG_A1 s"
    and "gp \<equiv> guest_phys (base_addr m) (MoveFromPreviousGuestGPR REG_A0 s)"
    and "con1 \<equiv> dev (conf s) (vol_n s) (ETHCON1 AND 0x1FFFFFFF)"
  assumes win: "window_ready s m" "guest_buffer s m (MoveFromPreviousGuestGPR REG_A0 s) n"
    and sz: "0 < n" "n \<le> MTU"
    and ring: "tx_ring s Q" "dma_ram s B 1536" "apart Q 8 B 1536" "apart B 1536 gp (unat n)"
    and idle: "con1 AND ETH_TXRTS = 0"
  shows "(\<exists>t. send_frame s = Some t \<and> MoveFromPreviousGuestGPR REG_V0 t = n \<and>
      bytes_at (tx_view t) B (unat n) = bytes_at (mem s) gp (unat n) \<and>
      desc_hdr (tx_view t) Q 0 = tx_header n \<and> desc_addr (tx_view t) Q 0 = B \<and> mem t = tx_view t \<and>
      io t = io s @ [IORead (ETHCON1 AND 0x1FFFFFFF) con1, IOWrite (ETHTXST AND 0x1FFFFFFF) Q,
        IOWrite (ETHCON1SET AND 0x1FFFFFFF) ETH_TXRTS]) \<and>
    (\<forall>u. MTU < MoveFromPreviousGuestGPR REG_A1 u \<and> MoveFromPreviousGuestGPR REG_A1 u < 0x80000000 \<longrightarrow> send_frame u = None)"
proof
  obtain t where t: "send_frame s = Some t" "MoveFromPreviousGuestGPR REG_V0 t = n"
    "bytes_at (mem t) B (unat n) = bytes_at (mem s) gp (unat n)" "desc_hdr (mem t) Q 0 = tx_header n" "desc_addr (mem t) Q 0 = B"
    "io t = io s @ [IORead (ETHCON1 AND 0x1FFFFFFF) con1, IOWrite (ETHTXST AND 0x1FFFFFFF) Q,
        IOWrite (ETHCON1SET AND 0x1FFFFFFF) ETH_TXRTS]" "tx_view t = mem t"
    unfolding B_def n_def gp_def con1_def
    by (rule send_frame_sends [OF win [unfolded n_def] sz [unfolded n_def] ring [unfolded B_def n_def gp_def] idle [unfolded con1_def]])
  then show "\<exists>t. send_frame s = Some t \<and> MoveFromPreviousGuestGPR REG_V0 t = n \<and>
      bytes_at (tx_view t) B (unat n) = bytes_at (mem s) gp (unat n) \<and>
      desc_hdr (tx_view t) Q 0 = tx_header n \<and> desc_addr (tx_view t) Q 0 = B \<and> mem t = tx_view t \<and>
      io t = io s @ [IORead (ETHCON1 AND 0x1FFFFFFF) con1, IOWrite (ETHTXST AND 0x1FFFFFFF) Q,
        IOWrite (ETHCON1SET AND 0x1FFFFFFF) ETH_TXRTS]"
    by (intro exI [of _ t]) simp
  show "\<forall>u. MTU < MoveFromPreviousGuestGPR REG_A1 u \<and> MoveFromPreviousGuestGPR REG_A1 u < 0x80000000 \<longrightarrow> send_frame u = None"
    by (auto simp: send_frame_overrun)
qed

theorem ethernet_send_witness:
  "\<exists>t. send_frame (demo_eth 60) = Some t \<and> desc_hdr (mem t) 0xC000 0 = tx_header 60 \<and> desc_addr (mem t) 0xC000 0 = 0x9000"
proof -
  let ?m = "demo_vm 1 (demo_vmconf 0x80100000 50)"
  have b: "MACH_VIRT_TO_PHYS (tx_buf_addr (conf (demo_eth 60))) = 0x9000" by (simp add: demo_conf_def MACH_VIRT_TO_PHYS_def)
  have g: "guest_buffer (demo_eth 60) ?m (MoveFromPreviousGuestGPR REG_A0 (demo_eth 60)) (MoveFromPreviousGuestGPR REG_A1 (demo_eth 60))"
    unfolding demo_eth_simps by (rule demo_buffer) simp_all
  have gp: "guest_phys (base_addr ?m) (MoveFromPreviousGuestGPR REG_A0 (demo_eth 60)) = 0x100010" by (simp add: guest_phys_def)
  have ap: "apart 0xC000 8 0x9000 1536" "apart 0x9000 1536 0x100010 60"
    using apart_sym [OF apart_less [of "0x9000" 1536 "0xC000" 8]] apart_less [of "0x9000" 1536 "0x100010" 60] by simp_all
  have idle: "dev (conf (demo_eth 60)) (vol_n (demo_eth 60)) (ETHCON1 AND 0x1FFFFFFF) AND ETH_TXRTS = 0" by (simp add: demo_conf_def)
  show ?thesis
    using ethernet_send [OF demo_eth_window g _ _ demo_eth_rings(2) _ _ _ idle, unfolded gp b] ap demo_eth_ram [of "0x9000" 1536]
    by auto
qed

text \<open>
  (C29) The rings. \<open>en_setup_dma\<close> returns; every one of the 48 receive descriptors belongs to the controller and
  points to its own 128 bytes of the receive buffer, the last one links back to the first, the index is reset and
  both rings are handed over. The memory for them is not checked: \<open>alloc_rings\<close> succeeds whatever the allocator
  answers, and a null pointer becomes 0xA0000000, the first byte of RAM.
\<close>

theorem ethernet_ring_setup:
  assumes "rx_ring s P" "tx_ring s Q" "apart P 784 Q 112"
  shows "(\<exists>t. en_setup_dma s = Some t \<and> ring_linked (mem t) P (rx_buf (eth_port (eth s))) \<and>
      eth t = (eth s)\<lparr>receive_index := 0\<rparr> \<and> io t = io s @ [IOWrite (ETHRXST AND 0x1FFFFFFF) P, IOWrite (ETHTXST AND 0x1FFFFFFF) Q]) \<and>
    (\<forall>u a b c h1 h2 h3. malloc 6144 (heap u) = Some (a, h1) \<and> malloc 784 h1 = Some (b, h2) \<and> malloc 112 h2 = Some (c, h3) \<longrightarrow>
      (\<exists>t. alloc_rings u = Some t \<and> rx_buf (eth_port (eth t)) = uncached a \<and> rx_desc (eth_port (eth t)) = uncached b \<and>
         tx_desc (eth_port (eth t)) = uncached c)) \<and> uncached None = 0xA0000000"
proof (intro conjI)
  obtain t where "en_setup_dma s = Some t" "ring_linked (mem t) P (rx_buf (eth_port (eth s)))"
    "eth t = (eth s)\<lparr>receive_index := 0\<rparr>" "io t = io s @ [IOWrite (ETHRXST AND 0x1FFFFFFF) P, IOWrite (ETHTXST AND 0x1FFFFFFF) Q]"
    by (rule en_setup_dma_ring [OF assms])
  then show "\<exists>t. en_setup_dma s = Some t \<and> ring_linked (mem t) P (rx_buf (eth_port (eth s))) \<and>
      eth t = (eth s)\<lparr>receive_index := 0\<rparr> \<and> io t = io s @ [IOWrite (ETHRXST AND 0x1FFFFFFF) P, IOWrite (ETHTXST AND 0x1FFFFFFF) Q]"
    by blast
  show "\<forall>u a b c h1 h2 h3. malloc 6144 (heap u) = Some (a, h1) \<and> malloc 784 h1 = Some (b, h2) \<and> malloc 112 h2 = Some (c, h3) \<longrightarrow>
      (\<exists>t. alloc_rings u = Some t \<and> rx_buf (eth_port (eth t)) = uncached a \<and> rx_desc (eth_port (eth t)) = uncached b \<and>
         tx_desc (eth_port (eth t)) = uncached c)"
    by (simp add: alloc_rings_unchecked set_port_def set_eth_def)
qed (rule uncached_None)

theorem ethernet_ring_setup_witness:
  "\<exists>t. en_setup_dma (demo_eth 0) = Some t \<and> ring_linked (mem t) 0xB000 0"
proof -
  have "rx_buf (eth_port (eth (demo_eth 0))) = 0" by (simp add: demo_eth_def eth_reset_def)
  then show ?thesis
    using ethernet_ring_setup [OF demo_eth_rings [of 0]] apart_less [of "0xB000" 784 "0xC000" 112] by auto
qed

text \<open>
  (C30) Every wait of the PHY accesses is bounded by the counter. Whatever the registers of the controller answer, the
  search for the PHY ends, provided the counter advances from one reading to the next, by at most \<open>2 ^ 29\<close>. The run
  tries the addresses from 0: \<open>no_phy_at\<close> says that the resets at these addresses, one after the other from the given
  state, all fail and which state they leave. Either all 32 fail and the address is 32, or the ones below some \<open>a\<close> fail, the
  reset at \<open>a\<close> succeeds in the state they leave, and the search returns its result, with the address \<open>a\<close>.
\<close>

theorem phy_detection_terminates:
  assumes "count_advances (conf s) g" "slow_enough (conf s)"
  shows "\<exists>u t. detect_phy [0..<32] s = Some t \<and>
    (no_phy_at [0..<32] s u \<and> t = set_port (\<lambda>e. e\<lparr>phy_addr := 32\<rparr>) u \<or>
     (\<exists>a<32. no_phy_at [0..<a] s u \<and> phy_addr (eth_port (eth t)) = of_nat a \<and>
        phy_reset (of_nat a) (set_port (\<lambda>e. e\<lparr>phy_addr := of_nat a\<rparr>) u) = Some (0, t)))"
  using detect_phy_returns [OF assms refl] by blast

theorem phy_detection_terminates_witness: "\<exists>t. detect_phy [0..<32] (demo PIC32MZ) = Some t"
proof -
  have "count_advances (conf (demo PIC32MZ)) (\<lambda>n. n)" "slow_enough (conf (demo PIC32MZ))"
    by (simp_all add: count_advances_def slow_enough_def demo_def demo_conf_def)
  from phy_detection_terminates [OF this] show ?thesis by blast
qed

text \<open>
  (C31) The shared driver as a switch, from the poll of one VM to the poll of another. VM \<open>j\<close>, with nothing stored for it, calls
  \<open>receive_frame_shared\<close> while a packet waits that is neither for it nor a broadcast. When
  the destination is VM \<open>i\<close> of the device, its ring is empty and no second packet follows, the call
  returns 0 and the index of the frame buffer with the packet is in the ring of
  \<open>i\<close>. When \<open>i\<close> calls later, in any state with the same driver data and the same bytes in the frame buffer (whatever the guests
  did to the rest of the memory), it gets the size of the packet in \<open>v0\<close>, its bytes in its own buffer
  and an empty ring; of a packet whose size is a multiple of 256 only the first half arrives (\<open>delivered_size\<close>). When no VM has
  the address, the search yields -1 in an unsigned variable, the test for a negative value fails, and
  the call indexes the arrays far outside.
\<close>

theorem switch_forwards:
  assumes "window_ready s mj" "guest_buffer s mj (MoveFromPreviousGuestGPR REG_A0 s) MTU"
    "vm_registered (eth s) (vm_ident mj) = Some j" "stored (VMCTRLbuf (eth s) ! j) = []" "foreign_packet s P j k pa segs"
  shows "(vm_with_mac (eth s) (frame_dst s segs) = None \<longrightarrow> receive_frame_shared s = None) \<and>
    (\<forall>i. vm_with_mac (eth s) (frame_dst s segs) = Some i \<and> frame_ring_ok (VMCTRLbuf (eth s) ! i) \<and>
       stored (VMCTRLbuf (eth s) ! i) = [] \<and> last_packet s P segs \<longrightarrow>
      (\<exists>t. receive_frame_shared s = Some t \<and> MoveFromPreviousGuestGPR REG_V0 t = 0 \<and> stored (VMCTRLbuf (eth t) ! i) = [k] \<and>
         (\<forall>u mi. bytes_at (mem u) pa 1536 = bytes_at (mem t) pa 1536 \<and> eth u = eth t \<and> conf u = conf s \<and> window_ready u mi \<and>
            guest_buffer u mi (MoveFromPreviousGuestGPR REG_A0 u) MTU \<and> vm_registered (eth s) (vm_ident mi) = Some i \<and>
            apart (guest_phys (base_addr mi) (MoveFromPreviousGuestGPR REG_A0 u)) 1536 pa 1536 \<longrightarrow>
           (\<exists>w. receive_frame_shared u = Some w \<and> MoveFromPreviousGuestGPR REG_V0 w = of_nat (seg_total segs) \<and>
              bytes_at (mem w) (guest_phys (base_addr mi) (MoveFromPreviousGuestGPR REG_A0 u)) (delivered_size (seg_total segs)) =
                take (delivered_size (seg_total segs)) (seg_bytes (mem s) segs) \<and>
              stored (VMCTRLbuf (eth w) ! i) = []))))"
proof (intro conjI impI allI; (elim conjE)?)
  show "receive_frame_shared s = None" if "vm_with_mac (eth s) (frame_dst s segs) = None"
    by (rule switch_unknown [OF assms that])
  fix i assume i: "vm_with_mac (eth s) (frame_dst s segs) = Some i" "frame_ring_ok (VMCTRLbuf (eth s) ! i)"
    "stored (VMCTRLbuf (eth s) ! i) = []" "last_packet s P segs"
  show "\<exists>t. receive_frame_shared s = Some t \<and> MoveFromPreviousGuestGPR REG_V0 t = 0 \<and> stored (VMCTRLbuf (eth t) ! i) = [k] \<and>
         (\<forall>u mi. bytes_at (mem u) pa 1536 = bytes_at (mem t) pa 1536 \<and> eth u = eth t \<and> conf u = conf s \<and> window_ready u mi \<and>
            guest_buffer u mi (MoveFromPreviousGuestGPR REG_A0 u) MTU \<and> vm_registered (eth s) (vm_ident mi) = Some i \<and>
            apart (guest_phys (base_addr mi) (MoveFromPreviousGuestGPR REG_A0 u)) 1536 pa 1536 \<longrightarrow>
           (\<exists>w. receive_frame_shared u = Some w \<and> MoveFromPreviousGuestGPR REG_V0 w = of_nat (seg_total segs) \<and>
              bytes_at (mem w) (guest_phys (base_addr mi) (MoveFromPreviousGuestGPR REG_A0 u)) (delivered_size (seg_total segs)) =
                take (delivered_size (seg_total segs)) (seg_bytes (mem s) segs) \<and>
              stored (VMCTRLbuf (eth w) ! i) = []))"
    by (rule switch_end_to_end [OF assms i]) blast
qed

theorem switch_forwards_witness:
  "\<exists>t w. receive_frame_shared (demo_eth 0) = Some t \<and> stored (VMCTRLbuf (eth t) ! 1) = [0] \<and>
     receive_frame_shared ((demo_eth 0)\<lparr>mem := mem t, eth := eth t, vcpu_executing := Some 200\<rparr>) = Some w \<and>
     MoveFromPreviousGuestGPR REG_V0 w = 60 \<and> stored (VMCTRLbuf (eth w) ! 1) = []"
proof -
  let ?segs = "[(0, 0xD000, 60)] :: (nat \<times> u32 \<times> nat) list" and ?s = "demo_eth 0"
  let ?m1 = "demo_vm 1 (demo_vmconf 0x80100000 50)" and ?m2 = "demo_vm 2 (demo_vmconf 0x80200000 100)"
  have "take 6 (bytes_at demo_eth_mem 0xD000 60) = map (\<lambda>j. of_nat j) [0..<6]"
    by (rule nth_equalityI) (simp_all add: bytes_at_def demo_eth_bytes)
  then have dst: "frame_dst ?s ?segs = [0, 1, 2, 3, 4, 5]"
    by (simp add: frame_dst_def seg_bytes_def upt_rec)
  have e: "VMCTRLbuf (eth ?s) = [demo_ctrl 1 [9, 9, 9, 9, 9, 9], demo_ctrl 2 [0, 1, 2, 3, 4, 5]]"
    "unat (vm_counter (eth ?s)) = 2" "b_buf (eth ?s) = replicate 10 \<lparr>fb_used = 0, fb_size = 0\<rparr>"
    by (simp_all add: demo_eth_def eth_reset_def)
  have six: "[0..<6] = [0, 1, 2, 3, 4, 5 :: nat]" by (simp add: upt_rec)
  have cmp: "maccmp [9, 9, 9, 9, 9, 9] [0, 1, 2, 3, 4, 5] = False" "maccmp [0, 1, 2, 3, 4, 5] [9, 9, 9, 9, 9, 9] = False"
    "maccmp [0, 1, 2, 3, 4, 5] [0, 1, 2, 3, 4, 5]" "\<not> is_broadcast [0, 1, 2, 3, 4, 5]"
    by (simp_all add: maccmp_def is_broadcast_def six)
  have fr: "free_buffer (eth ?s) = Some 0" unfolding free_buffer_def e by (simp add: upt_rec)
  have vm: "vm_with_mac (eth ?s) [0, 1, 2, 3, 4, 5] = Some 1"
    unfolding vm_with_mac_def e by (simp add: upt_rec demo_ctrl_def cmp)
  have reg: "vm_registered (eth ?s) (vm_ident ?m1) = Some 0" "vm_registered (eth ?s) (vm_ident ?m2) = Some 1"
    unfolding vm_registered_def e by (simp_all add: upt_rec demo_ctrl_def)
  have fa: "frame_addr ?s (of_nat 0) = 0x80000000 + 0xA008" "dma_ram ?s 0xA008 1536"
    by (simp_all add: demo_eth_ram frame_addr_def demo_conf_def)
  have sep: "rx_separate 0xB000 0xA008 ?segs"
    using apart_sym [OF apart_less [of "0xA008" 60 "0xB000" 784]] apart_sym [OF apart_less [of "0xA008" 60 "0xD000" 60]]
    by (simp add: rx_separate_def seg_total_def)
  have f: "foreign_packet ?s 0xB000 0 0 0xA008 ?segs"
    using demo_eth_ok demo_eth_rings(1) demo_eth_packet fr fa sep cmp
    by (simp add: foreign_packet_def dst e seg_total_def) (simp add: demo_ctrl_def)
  have r: "frame_ring_ok (VMCTRLbuf (eth ?s) ! i)" "stored (VMCTRLbuf (eth ?s) ! i) = []" if "i < 2" for i
    using that by (auto simp: e less_2_cases_iff frame_ring_ok_def ring_count_def stored_def demo_ctrl_def ctrl_ok_def)
  have last: "last_packet ?s 0xB000 ?segs"
    by (simp add: last_packet_def desc_hdr_def demo_eth_mem_def mem32_def set_mem32_def)
  have g: "guest_buffer s (demo_vm i (demo_vmconf b q)) 0x80000010 MTU"
    if "conf s = demo_conf BAIKAL_T1" "b = 0x80100000 \<or> b = 0x80200000" for s i b q
    using that demo_buffer [of MTU s] by (auto simp: that(1))
  have win: "guest_buffer ?s ?m1 (MoveFromPreviousGuestGPR REG_A0 ?s) MTU" using g by simp
  obtain t where t: "receive_frame_shared ?s = Some t" "stored (VMCTRLbuf (eth t) ! 1) = [0]"
    "\<And>u mi. bytes_at (mem u) 0xA008 1536 = bytes_at (mem t) 0xA008 1536 \<Longrightarrow> eth u = eth t \<Longrightarrow> conf u = conf ?s \<Longrightarrow> window_ready u mi \<Longrightarrow>
       guest_buffer u mi (MoveFromPreviousGuestGPR REG_A0 u) MTU \<Longrightarrow> vm_registered (eth ?s) (vm_ident mi) = Some 1 \<Longrightarrow>
       apart (guest_phys (base_addr mi) (MoveFromPreviousGuestGPR REG_A0 u)) 1536 0xA008 1536 \<Longrightarrow>
       \<exists>w. receive_frame_shared u = Some w \<and> MoveFromPreviousGuestGPR REG_V0 w = of_nat (seg_total ?segs) \<and>
         stored (VMCTRLbuf (eth w) ! 1) = []"
    using switch_forwards [OF demo_eth_window win reg(1) r(2) f] vm r [of 1] last unfolding dst by fastforce
  let ?u = "?s\<lparr>mem := mem t, eth := eth t, vcpu_executing := Some 200\<rparr>"
  have a0: "MoveFromPreviousGuestGPR REG_A0 ?u = 0x80000010" by (simp add: demo_eth_def demo_call_def demo_def MoveFromPreviousGuestGPR_def)
  have "apart (guest_phys (base_addr ?m2) 0x80000010) 1536 0xA008 1536"
    using apart_sym [OF apart_less [of "0xA008" 1536 "0x200010" 1536]] by (simp add: guest_phys_def)
  then have "\<exists>w. receive_frame_shared ?u = Some w \<and> MoveFromPreviousGuestGPR REG_V0 w = of_nat (seg_total ?segs) \<and>
      stored (VMCTRLbuf (eth w) ! 1) = []"
    using g [of ?u "0x80200000"] by (intro t(3) [OF _ _ _ demo_eth_window_two]) (simp_all add: a0 reg(2) [simplified])
  then show ?thesis using t(1,2) by (auto simp: seg_total_def)
qed

subsection \<open>The configuration generator\<close>



subsection \<open>The library of the guests\<close>

text \<open>
  (C33) The integer routines of the guests against the arithmetic they stand for: 32-bit and widening
  multiplication, unsigned division and remainder at 32 and 64 bits, and signed division truncating
  towards zero at both widths. The least signed integer as an operand is undefined because it is negated, although C defines, for instance,
  its half; a 64-bit unsigned division by zero faults. \<open>muldi3\<close> adds its partial products as signed numbers: it gives the
  product or is undefined, and is defined when both operands are below \<open>2 ^ 32\<close>, but not for every product that fits.
  The remainder \<open>moddi3\<close> takes its sign from both operands: for a negative denominator it is the negation of the right one.
\<close>

theorem soft_integer_arithmetic:
  "mulsi3 a b = a * b \<and> muldsi3 a b = ucast a * ucast b \<and>
   umoddi3 n d = (if d = 0 then None else Some (n mod d)) \<and> udivdi3 n d = (if d = 0 then None else Some (n div d)) \<and>
   (b \<noteq> 0 \<longrightarrow> udivsi3 a b = Some (a div b) \<and> umodsi3 a b = Some (a mod b) \<and>
     divsi3 a b = (if sint a = - (2 ^ 31) \<or> sint b = - (2 ^ 31) then None else Some (word_of_int (sint a sdiv sint b))) \<and>
     modsi3 a b = (if sint a = - (2 ^ 31) \<or> sint b = - (2 ^ 31) then None else Some (word_of_int (sint a smod sint b)))) \<and>
   (muldi3 n d = None \<or> muldi3 n d = Some (n * d)) \<and> (n < 2 ^ 32 \<and> d < 2 ^ 32 \<longrightarrow> muldi3 n d = Some (n * d)) \<and>
   muldi3 (- (2 ^ 31)) (- (2 ^ 31)) = None \<and>
   (d \<noteq> 0 \<longrightarrow>
     divdi3 n d = (if sint n = - (2 ^ 63) \<or> sint d = - (2 ^ 63) then None else Some (word_of_int (sint n sdiv sint d))) \<and>
     moddi3 n d = (if sint n = - (2 ^ 63) \<or> sint d = - (2 ^ 63) then None
       else Some (word_of_int (if sint d < 0 then - (sint n smod sint d) else sint n smod sint d))))"
proof -
  have high: "dw_high u = 0" if "u < 2 ^ 32" for u :: u64
    using that by (simp add: dw_high_def drop_bit_eq_div div_word_less)
  show ?thesis
    using si3_ok [of b a] udivmodsi4_ok [of b a] di3_ok [of d n] muldi3_ok [of n d] high [of n] high [of d] muldi3_overflow
    by (simp add: mulsi3_eq muldsi3_word umoddi3_def udivdi3_def udivmoddi4_ok udivsi3_def umodsi3_def)
qed

theorem soft_integer_arithmetic_witness:
  "divsi3 (- 7) 2 = Some (- 3) \<and> modsi3 (- 7) 2 = Some (- 1) \<and> udivsi3 (- 7) 2 = Some 0x7FFFFFFC \<and>
   divdi3 7 (- 2) = Some (- 3) \<and> moddi3 7 (- 2) = Some (- 1) \<and> muldi3 7 9 = Some 63"
  using soft_integer_arithmetic [of "- 7" 2 7 "- 2"] soft_integer_arithmetic [of "- 7" 2 7 9]
  by (simp add: signed_divide_int_def signed_modulo_int_def)

text \<open>
  (C34) Software floating point: an integer of at most 24 bits survives the conversion to \<open>float\<close> and
  back; addition always ends, does not depend on the order of its operands and has the unit 0;
  multiplication does not depend on the order and has the unit 1; the comparison is the total order of
  an integer key, so it is antisymmetric.
\<close>

theorem soft_float_arithmetic:
  assumes "\<bar>i\<bar> < 2 ^ 24" "x \<noteq> 0"
  shows "(\<exists>f. floatsisf i = Some f \<and> fixsfsi f = i) \<and> (\<exists>r. addsf3 x y = Some r) \<and> addsf3 x y = addsf3 y x \<and>
    addsf3 x 0 = Some x \<and> mulsf3 x y = mulsf3 y x \<and> mulsf3 0x3F800000 x = Some x \<and>
    cmpsf2 x y = (if float_key x < float_key y then - 1 else if float_key y < float_key x then 1 else 0)"
  by (intro conjI floatsisf_fixsfsi [OF assms(1)] addsf3_total addsf3_commute addsf3_zero mulsf3_commute mulsf3_one [OF assms(2)]
    cmpsf2_key [of x y])

theorem soft_float_arithmetic_witness:
  "\<exists>f. floatsisf (- 1000) = Some f \<and> fixsfsi f = - 1000"
  using soft_float_arithmetic [of "- 1000" "0x3F800000" 0] by auto

text \<open>
  (C35) Strings and memory in both libraries. In the kernel, on zero-terminated strings, \<open>strlen\<close> is the length, \<open>strcmp\<close>
  is 0 for equal strings and otherwise -1 or 1 as the first is before or behind the second in lexicographic order, \<open>strcpy\<close> to a non-overlapping or
  lower address copies the string and nothing else, and \<open>memcpy\<close> copies the bytes of the range and no other, with or
  without its word loop. In the guests, \<open>strcat\<close> leaves the concatenation; \<open>strstr\<close> returns the
  first position at which the text occurs, or null; calling \<open>strtok\<close> until it returns null gives pointers
  that are, in the final memory, the maximal runs without a delimiter, in order; \<open>memmove\<close> copies the
  bytes as they were before, whether or not the regions overlap.
\<close>

theorem string_functions:
  assumes "cstr m p xs" "cstr m d ys" "d + length ys < p \<or> p + length xs < d" "dest \<le> p \<or> p + length xs < dest"
    "unat n < 2 ^ 31" "copy_safe a b (unat n)"
  shows "strlen m p = Some (length xs) \<and>
    strcmp m p d = Some (if xs = ys then 0 else if ord_class.lexordp xs ys then - 1 else 1) \<and>
    (\<exists>m'. strcpy_loop m dest p = Some m' \<and> cstr m' dest xs \<and> (\<forall>a. a < dest \<or> dest + length xs < a \<longrightarrow> m' a = m a)) \<and>
    (\<forall>q. memcpy m a b n q = (if a \<le> q \<and> q < a + unat n then m (b + (q - a)) else m q)) \<and>
    (\<exists>m'. strcat m p d = Some m' \<and> cstr m' p (xs @ ys)) \<and>
    strstr m p d = Some (map_option (\<lambda>i. p + i) (find_first ys xs)) \<and>
    (\<exists>as m'. strtok_run (length (tokens (set ys) xs)) m (Some p) d None = Some (as, m') \<and>
       list_all2 (cstr m') as (tokens (set ys) xs)) \<and>
    (\<forall>a b q. memmove m a b n q = (if a \<le> q \<and> q < a + unat n then m (b + (q - a)) else m q))"
proof (intro conjI)
  have "d + length ys < p \<or> p + length xs \<le> d" using assms(3) by auto
  then show "\<exists>m'. strcat m p d = Some m' \<and> cstr m' p (xs @ ys)" using strcat_ok [OF assms(1,2)] by auto
  show "\<exists>m'. strcpy_loop m dest p = Some m' \<and> cstr m' dest xs \<and> (\<forall>a. a < dest \<or> dest + length xs < a \<longrightarrow> m' a = m a)"
    using strcpy_loop_cstr [OF assms(1,4)] by blast
  show "\<exists>as m'. strtok_run (length (tokens (set ys) xs)) m (Some p) d None = Some (as, m') \<and>
      list_all2 (cstr m') as (tokens (set ys) xs)"
    using strtok_run_cstr [OF assms(1,2) _ assms(3), where s = "Some p" and lst = None and k = "length (tokens (set ys) xs)"] by auto
qed (use strlen_cstr [OF assms(1)] strcmp_cstr [OF assms(1,2)] strstr_cstr [OF assms(1,2)] memcpy_apply [OF assms(5,6)] in
    \<open>simp_all add: memmove_apply\<close>)

theorem string_functions_witness:
  "strlen demo_text 100 = Some 6 \<and> memcpy demo_text 300 104 2 301 = 99 \<and>
   (\<exists>as m'. strtok_run 2 demo_text (Some 100) 200 None = Some (as, m') \<and> list_all2 (cstr m') as [[97], [98, 99]])"
proof -
  have t: "tokens {44} [44, 97, 44, 44, 98, 99] = [[97 :: u8], [98, 99]]"
    by (simp add: tokens.simps [of "{44}" "_ # _"] tokens.simps [of "{44}" "[]"])
  have c: "cstr demo_text 100 [44, 97, 44, 44, 98, 99]" "cstr demo_text 200 [44]" by (simp_all add: demo_text_def)
  have "copy_safe 300 104 (unat (2 :: u32))" by (simp add: copy_safe_def)
  have "(200 :: nat) + length [44 :: u8] < 100 \<or> (100 :: nat) + length [44 :: u8, 97, 44, 44, 98, 99] < 200"
    "(50 :: nat) \<le> 100 \<or> (100 :: nat) + length [44 :: u8, 97, 44, 44, 98, 99] < 50" "unat (2 :: u32) < 2 ^ 31" by simp_all
  note s = string_functions [OF c this \<open>copy_safe 300 104 (unat (2 :: u32))\<close>]
  have "strlen demo_text 100 = Some (length [44 :: u8, 97, 44, 44, 98, 99])" using s by blast
  moreover have "memcpy demo_text 300 104 2 301 =
      (if 300 \<le> (301 :: nat) \<and> 301 < 300 + unat (2 :: u32) then demo_text (104 + (301 - 300)) else demo_text 301)"
    using s by blast
  moreover have "\<exists>as m'. strtok_run (length (tokens {44 :: u8} [44, 97, 44, 44, 98, 99])) demo_text (Some 100) 200 None = Some (as, m') \<and>
      list_all2 (cstr m') as (tokens {44} [44, 97, 44, 44, 98, 99])"
    using s by simp
  moreover have "length [[97 :: u8], [98, 99]] = 2" "length [44 :: u8, 97, 44, 44, 98, 99] = 6" "demo_text (104 + (301 - 300)) = 99"
    by (simp_all add: demo_text_def)
  moreover have u: "unat (2 :: u32) = 2" by simp
  ultimately show ?thesis unfolding t u by (simp flip: numeral_2_eq_2)
qed

text \<open>
  (C36) Numbers as text, for every signed 32-bit number but the least. What \<open>printi\<close> of the kernel emits in base 10 is the shortest decimal text and reads back as the
  number. \<open>itoa\<close> of the guests gives the digits in any base from 2 to 36, most significant first, behind a minus
  sign when the number is negative; \<open>atoi\<close> reads the decimal text back when the magnitude leaves 48 to spare below
  \<open>2 ^ 31\<close>. As \<open>atoi\<close> adds the character before it subtracts \<open>'0'\<close>, the 48 greatest magnitudes overflow, which is undefined.
\<close>

theorem number_texts:
  assumes "\<bar>i\<bar> < 2 ^ 31" "1 < b" "b \<le> 36"
  shows "(\<exists>t. printi i 10 True 0 0 l = Some t \<and> read_dec t = i) \<and>
    atoi (itoa_text i 10) = (if \<bar>i\<bar> + 48 < 2 ^ 31 then Some i else None) \<and>
    itoa_text i (int b) = (if i = 0 then [48] else (if i < 0 then [45] else []) @ map digit36 (digits b (nat \<bar>i\<bar>))) \<and>
    num_of b (digits b (nat \<bar>i\<bar>)) = nat \<bar>i\<bar>"
proof (intro conjI)
  have r: "in_s32 i" "i \<noteq> - (2 ^ 31)" using assms(1) by (auto simp: in_s32_def)
  from printi_signed_dec [OF this, of l] show "\<exists>t. printi i 10 True 0 0 l = Some t \<and> read_dec t = i"
    using read_dec_text by blast
  show "atoi (itoa_text i 10) = (if \<bar>i\<bar> + 48 < 2 ^ 31 then Some i else None)"
    using assms(1) atoi_dec_text atoi_dec_text_overflow by (simp add: itoa_text_dec)
qed (use assms in \<open>simp_all add: itoa_text_digits num_of_digits\<close>)

theorem number_texts_witness:
  "atoi (itoa_text (- 2147483599) 10) = Some (- 2147483599) \<and> atoi (itoa_text 2147483600 10) = None"
  using number_texts [of "- 2147483599" 16] number_texts [of 2147483600 16] by simp

text \<open>
  (C37) Batched output. On a well-formed buffer \<open>printf\<close> returns the count of the formatter, and the
  messages it has handed to \<open>uart_send\<close>, each of at most \<open>STRHYPERSZ\<close> bytes, put together are what was
  printed before followed by the formatted text; the buffer is left empty, so nothing is sent twice. For a
  format that is a single decimal conversion the text is the numeral.
\<close>

theorem guest_output_in_order:
  assumes "strhyper_ok g" "print_guest (length fmt) fmt args = Some (out, k)" "in_s32 i" "i \<noteq> - (2 ^ 31)"
  shows "(\<exists>g'. printf_guest fmt args g = Some (k, g') \<and> strhyper_ok g' \<and> sh_size g' = 0 \<and>
      concat (sh_sent g') = printed g @ out) \<and>
    print_guest 2 [37, 100] [GInt i] = Some (dec_text i, length (dec_text i))"
  using printf_guest_ok [OF assms(1,2)] print_guest_dec [OF assms(3,4)] by (simp only: Suc_1 [symmetric] One_nat_def simp_thms)

theorem guest_output_in_order_witness:
  "\<exists>g'. printf_guest [37, 100] [GInt (- 42)] strhyper_init = Some (length (dec_text (- 42)), g') \<and>
     concat (sh_sent g') = dec_text (- 42) \<and> sh_size g' = 0"
proof -
  have i: "in_s32 (- 42)" "- 42 \<noteq> (- (2 ^ 31) :: int)" by (simp_all add: in_s32_def)
  have "print_guest (length [37, 100 :: u8]) [37, 100] [GInt (- 42)] = Some (dec_text (- 42), length (dec_text (- 42)))"
    using print_guest_dec [OF i] by simp
  from guest_output_in_order [OF strhyper_init_ok(1) this i] show ?thesis using strhyper_init_ok(2) by auto
qed

text \<open>
  (C38) The way of the messages, from \<open>intervm_send_msg\<close> of the sender through the mailbox, the interrupt handler \<open>irq_network\<close> of the
  guest and its list to \<open>ReceiveMessage\<close>. In every state that sends, interrupts and receptions reach, in any order, what was sent is what
  was received, followed by the list of the guest and the mailbox: nothing is lost, repeated or reordered.
  The handler always returns and moves the oldest messages until the list is full, and no further than an
  empty message, which ends its loop. \<open>ReceiveMessage\<close> delivers the oldest message of the list, cut to the size of the buffer.
\<close>

theorem guest_messages_in_order:
  assumes "(mail_step slot_addr)\<^sup>*\<^sup>* ([], b0, snd (snd (init_network p irq x)), []) (posted, b, g, got)"
    "msgs_ok b0" "inbox b0 = []"
  shows "posted = got @ inbox g @ inbox b \<and>
    (\<exists>g' b'. irq_network (mailbox_recv slot_addr) g b = Some (g', b') \<and>
       inbox g' = inbox g @ drained (5 - length (inbox g)) (inbox b)) \<and>
    (inbox g = [] \<longrightarrow> ReceiveMessage env n False g = Some (None, g)) \<and>
    (\<forall>src bs ms. inbox g = (src, bs) # ms \<longrightarrow>
       (\<exists>g'. ReceiveMessage env n block g = Some (Some (of_nat (min (unat n) (length bs)), src, take (unat n) bs), g') \<and>
          inbox g' = ms))"
proof -
  have "mail_ok ([], b0, snd (snd (init_network p irq x)), [])" using assms(2,3) by (simp add: mail_ok_def init_network_empty)
  then have ok: "msgs_ok b" "msgs_ok g" "posted = got @ inbox g @ inbox b"
    using mail_steps_ok [OF assms(1)] by (simp_all add: mail_ok_def)
  have "ReceiveMessage env n False g = Some (None, g)" if "inbox g = []"
  proof -
    have "length (inbox g) = 0" using that by (simp del: inbox_length)
    then show ?thesis by (simp add: take_message_None unat_eq_0)
  qed
  moreover have "\<exists>g'. ReceiveMessage env n block g = Some (Some (of_nat (min (unat n) (length bs)), src, take (unat n) bs), g') \<and>
      inbox g' = ms" if "inbox g = (src, bs) # ms" for src bs ms
    using take_message_eq [OF ok(2) that, of n] take_message_bounds [OF ok(2), of env n block] that by auto
  ultimately show ?thesis using ok(3) irq_network_drains [OF ok(2,1), of slot_addr] by blast
qed

theorem guest_messages_in_order_witness:
  "\<exists>b g. (mail_step (\<lambda>i. 0x80001000 + 264 * i))\<^sup>*\<^sup>*
       ([], empty_messages, snd (snd (init_network BAIKAL_T1 () (0, replicate 10 None, empty_messages))), [])
       ([(2, [7, 8])], b, g, [(2, [7, 8])]) \<and> inbox g = [] \<and> inbox b = []"
proof -
  let ?m = "(2, [7, 8]) :: u32 \<times> u8 list" and ?a = "\<lambda>i. 0x80001000 + 264 * i"
  let ?g0 = "snd (snd (init_network BAIKAL_T1 () (0, replicate 10 None, empty_messages)))"
  from box_put_ok [OF empty_messages_ok(1), of ?m] obtain b1 where
    b1: "box_put empty_messages ?m = Some b1" "msgs_ok b1" "inbox b1 = [?m]" by auto
  from irq_network_drains [OF empty_messages_ok(1) b1(2), of ?a] b1(3) obtain g1 b2 where
    g1: "irq_network (mailbox_recv ?a) empty_messages b1 = Some (g1, b2)" "msgs_ok g1" "inbox g1 = [?m]"
    by (auto simp: eval_nat_numeral)
  from take_message_eq [OF g1(2,3), of 256] take_message_bounds [OF g1(2), of "\<lambda>_. id" 256 False] g1(3) obtain g2 where
    g2: "ReceiveMessage (\<lambda>_. id) 256 False g1 = Some (Some (2, ?m), g2)" by auto
  have "mail_step ?a ([], empty_messages, empty_messages, []) ([] @ [?m], b1, empty_messages, [])"
    using b1(1) by (intro mail_step.send) (auto simp: empty_messages_def MESSAGELIST_SZ_def)
  moreover have "mail_step ?a ([] @ [?m], b1, empty_messages, []) ([] @ [?m], b2, g1, [])"
    using g1(1) by (rule mail_step.interrupt)
  moreover have "mail_step ?a ([] @ [?m], b2, g1, []) ([] @ [?m], b2, g2, [] @ [?m])"
    using g2 by (intro mail_step.receive) auto
  ultimately have r: "(mail_step ?a)\<^sup>*\<^sup>* ([], empty_messages, ?g0, []) ([?m], b2, g2, [?m])"
    unfolding init_network_empty by (simp add: rtranclp.rtrancl_into_rtrancl [of "mail_step ?a"])
  from guest_messages_in_order [OF r empty_messages_ok, of "\<lambda>_. id" 0 False] have "[?m] = [?m] @ inbox g2 @ inbox b2" by blast
  then show ?thesis using r by (intro exI [of _ b2] exI [of _ g2]) simp
qed

text \<open>
  (C39) Interrupts of the guests. \<open>interrupt_register\<close> files a handler under a level that is free and refuses one that is
  taken. \<open>_irq_handler\<close> runs the handlers of the levels the RIPL field of Cause names, lowest first and each
  once, and nothing for levels without a handler; so a handler runs when its level, and only that, is pending, and after
  \<open>init_proc\<close> none runs.
\<close>

theorem guest_interrupt_dispatch:
  assumes "length hs = 10" "i < 8"
  shows "interrupt_register f (2 ^ i) hs = (if hs ! i = None then (True, hs[i := Some f]) else (False, hs)) \<and>
    irq_handler run hs cause s = run_handlers run (map (\<lambda>k. hs ! k) (filter (\<lambda>k. bit cause (10 + k)) [0..<8])) s \<and>
    (hs ! i = None \<longrightarrow> (\<forall>k<8. bit cause (10 + k) \<longleftrightarrow> k = i) \<longrightarrow>
       irq_handler run (snd (interrupt_register f (2 ^ i) hs)) cause s = run f s) \<and>
    irq_handler run (snd (init_proc_pic32mz (g, hs))) cause s = Some s \<and>
    irq_handler run (snd (init_proc_baikal (g, hs))) cause s = Some s"
proof (intro conjI impI)
  show reg: "interrupt_register f (2 ^ i) hs = (if hs ! i = None then (True, hs[i := Some f]) else (False, hs))"
    using assms(2) by (intro interrupt_register_level) simp
  show "irq_handler run (snd (interrupt_register f (2 ^ i) hs)) cause s = run f s"
    if "hs ! i = None" "\<forall>k<8. bit cause (10 + k) \<longleftrightarrow> k = i"
  proof -
    have "filter (\<lambda>k. bit cause (10 + k)) [0..<8] = filter (\<lambda>k. k = i) [0..<8]" using that(2) by (intro filter_cong) auto
    also have "\<dots> = [i]" using assms(2) by (rule filter_upt_eq)
    finally show ?thesis using that(1) assms unfolding reg by (simp add: irq_handler_spec)
  qed
qed (use assms in \<open>simp_all add: irq_handler_spec no_handlers init_proc_pic32mz_def init_proc_baikal_def Let_def\<close>)

theorem guest_interrupt_dispatch_witness:
  "irq_handler (\<lambda>f s. Some (s @ [f])) (snd (interrupt_register ''irq'' 2 (replicate 10 None))) 0x800 [] = Some [''irq'']"
proof -
  have "\<forall>k<8. bit (0x800 :: u32) (10 + k) \<longleftrightarrow> k = 1" by (simp add: All_less_Suc eval_nat_numeral)
  moreover have "length (replicate 10 (None :: string option)) = 10" "(1 :: nat) < 8" "replicate 10 (None :: string option) ! 1 = None"
    by simp_all
  ultimately have "irq_handler (\<lambda>f s. Some (s @ [f])) (snd (interrupt_register ''irq'' (2 ^ 1) (replicate 10 None))) 0x800 [] =
      Some ([] @ [''irq''])"
    using guest_interrupt_dispatch [of "replicate 10 None" 1 "''irq''" "\<lambda>f s. Some (s @ [f])" "0x800" "[]" "\<lambda>_. 0"] by blast
  then show ?thesis by (simp only: power_one_right append_Nil)
qed

text \<open>
  (C40) The allocator of the guests. From the start, every request of a sequence is granted, with blocks that lie one behind
  the other at the sizes rounded up to words, and later requests do not touch the contents of the earlier blocks. This
  holds for every size of the heap up to the end of the address space: \<open>init_mem\<close> writes the end marker over the first
  header, so the allocator never finds the end. It also leaves the chain circular behind the second
  block: when that block of two has been freed, the next request does not return.
\<close>

theorem guest_heap_blocks:
  assumes "h = unat ((hstart + 8) AND 0xFFFFFFFC)" "0 < h" "nth_block h (xs @ ys) (length (xs @ ys)) \<le> 4294967296" "xs \<noteq> []"
  shows "\<exists>g1 g2. mallocs (map of_nat xs) (guest_init_mem hstart hsize g) = Some (map (\<lambda>i. of_nat (nth_block h xs i)) [0..<length xs], g1) \<and>
    mallocs (map of_nat ys) g1 = Some (map (\<lambda>i. of_nat (nth_block h (xs @ ys) (length xs + i))) [0..<length ys], g2) \<and>
    (\<forall>i<length xs. \<forall>a. nth_block h xs i \<le> a \<and> a < nth_block h xs i + up4 (xs ! i) \<longrightarrow> gh_mem g2 a = gh_mem g1 a) \<and>
    (length xs = 2 \<longrightarrow> guest_malloc n (guest_free (of_nat (nth_block h xs 1)) g1) = None)"
  by (rule mallocs_from_start [OF assms])

theorem guest_heap_blocks_witness:
  "\<exists>g1. mallocs [2048, 2048] (guest_init_mem 0x80010000 64 \<lparr>gh_mem = (\<lambda>_. 0), gh_free = 0, gh_heap = 0\<rparr>) =
       Some ([0x80010010, 0x80010818], g1) \<and>
     guest_malloc 2048 (guest_free 0x80010818 g1) = None"
  using guest_heap_blocks [where h = "0x80010008" and hstart = "0x80010000" and xs = "[2048, 2048]" and ys = "[]" and hsize = 64 and
    g = "\<lparr>gh_mem = (\<lambda>_. 0), gh_free = 0, gh_heap = 0\<rparr>" and n = 2048]
  by (simp add: nth_block_def up4_def upt_conv_Cons)

end
